(* ===== verification/Prelude.thy ===== *)
theory Prelude
  imports Main "HOL-Library.Word"
begin

unbundle bit_operations_syntax

text \<open>
  Shared material of the development: the names of the machine types of the C++ sources, the
  named collections of simplification rules the component theories extend, the
  little-endian view of byte strings used by the serialisers, the script engine and the big
  integers, and a few facts about words, lists and maps that several components need.

  \<^item> \<open>u8\<close>, \<open>u16\<close>, \<open>u32\<close>, \<open>u64\<close> are the unsigned integers of the sources, \<open>uint256\<close> is the opaque
    256-bit blob of \<^verbatim>\<open>uint256.h\<close> read as a little-endian number;
  \<^item> \<open>valtype\<close> is \<^verbatim>\<open>std::vector<unsigned char>\<close>.
\<close>

type_synonym u8 = "8 word"
type_synonym u16 = "16 word"
type_synonym u32 = "32 word"
type_synonym u64 = "64 word"
type_synonym uint256 = "256 word"
type_synonym valtype = "u8 list"

named_theorems flag_simps "membership tests on flag words"
named_theorems le_simps "little-endian encodings"

section \<open>Little-endian byte strings\<close>

text \<open>
  \<open>le_nat bs\<close> is the number whose base-256 digits are \<open>bs\<close>, least significant first;
  \<open>le_bytes k n\<close> writes the \<open>k\<close> low digits of \<open>n\<close>. They are the reference meaning of
  \<^verbatim>\<open>ReadLE16\<close>, \<^verbatim>\<open>ReadLE32\<close>, \<^verbatim>\<open>WriteLE16\<close>, \<^verbatim>\<open>WriteLE32\<close> of \<^verbatim>\<open>crypto/common.h\<close>.
\<close>

fun le_nat :: "u8 list \<Rightarrow> nat" where
  "le_nat [] = 0"
| "le_nat (b # bs) = unat b + 256 * le_nat bs"

fun le_bytes :: "nat \<Rightarrow> nat \<Rightarrow> u8 list" where
  "le_bytes 0 n = []"
| "le_bytes (Suc k) n = of_nat (n mod 256) # le_bytes k (n div 256)"

lemma length_le_bytes [simp]: "length (le_bytes k n) = k"
  by (induction k arbitrary: n) auto

lemma unat_u8_lt: "unat (b :: u8) < 256"
  using unsigned_less [of b, where 'a = nat] by simp

lemma unat_of_nat_u8 [simp]: "unat (of_nat (n mod 256) :: u8) = n mod 256"
  by (simp add: unat_of_nat)

lemma le_nat_less: "le_nat bs < 256 ^ length bs"
proof (induction bs)
  case Nil
  then show ?case by simp
next
  case (Cons b bs)
  have b: "unat b < 256" by (rule unat_u8_lt)
  have "unat b + 256 * n < 256 * m" if "n < m" for n m :: nat
    using b that by linarith
  from this [OF Cons] show ?case by simp
qed

lemma le_nat_le_bytes [le_simps]: "le_nat (le_bytes k n) = n mod 256 ^ k"
proof (induction k arbitrary: n)
  case 0
  then show ?case by simp
next
  case (Suc k)
  then show ?case by (simp add: mod_mult2_eq)
qed

lemma le_bytes_le_nat [le_simps]: "le_bytes (length bs) (le_nat bs) = bs"
proof (induction bs)
  case Nil
  then show ?case by simp
next
  case (Cons b bs)
  have "(unat b + 256 * le_nat bs) mod 256 = unat b"
    using unat_u8_lt [of b] by simp
  moreover have "(unat b + 256 * le_nat bs) div 256 = le_nat bs"
    using unat_u8_lt [of b] by simp
  moreover have "of_nat (unat b) = b"
    by simp
  ultimately show ?case using Cons
    by (simp del: of_nat_unat)
qed

lemma le_nat_append: "le_nat (xs @ ys) = le_nat xs + 256 ^ length xs * le_nat ys"
  by (induction xs) (simp_all add: algebra_simps)

lemma le_nat_inject: "length xs = length ys \<Longrightarrow> le_nat xs = le_nat ys \<Longrightarrow> xs = ys"
  by (metis le_bytes_le_nat)

text \<open>The fixed-width readers and writers of \<^verbatim>\<open>crypto/common.h\<close>.\<close>

definition ReadLE16 :: "u8 list \<Rightarrow> u16" where
  "ReadLE16 bs = of_nat (le_nat (take 2 bs))"

definition ReadLE32 :: "u8 list \<Rightarrow> u32" where
  "ReadLE32 bs = of_nat (le_nat (take 4 bs))"

definition WriteLE16 :: "u16 \<Rightarrow> u8 list" where
  "WriteLE16 x = le_bytes 2 (unat x)"

definition WriteLE32 :: "u32 \<Rightarrow> u8 list" where
  "WriteLE32 x = le_bytes 4 (unat x)"

definition WriteLE64 :: "u64 \<Rightarrow> u8 list" where
  "WriteLE64 x = le_bytes 8 (unat x)"

lemma length_WriteLE [simp]:
  "length (WriteLE16 x) = 2" "length (WriteLE32 y) = 4" "length (WriteLE64 z) = 8"
  by (simp_all add: WriteLE16_def WriteLE32_def WriteLE64_def)

lemma ReadLE32_WriteLE32 [simp, le_simps]: "ReadLE32 (WriteLE32 x @ bs) = x"
proof -
  have "unat x < 2 ^ 32" using unsigned_less [of x, where 'a = nat] by simp
  then have "unat x mod 256 ^ 4 = unat x" by simp
  then show ?thesis by (simp add: ReadLE32_def WriteLE32_def le_nat_le_bytes)
qed

lemma ReadLE16_WriteLE16 [simp, le_simps]: "ReadLE16 (WriteLE16 x @ bs) = x"
proof -
  have "unat x < 2 ^ 16" using unsigned_less [of x, where 'a = nat] by simp
  then have "unat x mod 256 ^ 2 = unat x" by simp
  then show ?thesis by (simp add: ReadLE16_def WriteLE16_def le_nat_le_bytes)
qed

lemma WriteLE32_inj: "WriteLE32 x = WriteLE32 y \<longleftrightarrow> x = y"
  by (metis ReadLE32_WriteLE32)

section \<open>Words\<close>

lemma unat_2p: "n < LENGTH('a::len) \<Longrightarrow> unat (2 ^ n :: 'a word) = 2 ^ n"
proof -
  assume "n < LENGTH('a)"
  then have "(2 :: nat) ^ n < 2 ^ LENGTH('a)" by simp
  then have "unat (of_nat (2 ^ n) :: 'a word) = 2 ^ n"
    by (simp add: unat_of_nat del: of_nat_power)
  then show ?thesis by simp
qed

lemma unat_ucast_u8: "unat (ucast (b :: u8) :: u64) = unat b"
proof -
  have "unat b < 2 ^ 64" using unat_u8_lt [of b] by simp
  then show ?thesis by (simp add: unsigned_ucast_eq take_bit_nat_eq_self)
qed

lemma ucast_up_down:
  "LENGTH('b::len) \<le> LENGTH('a::len) \<Longrightarrow> unat (w :: 'a word) < 2 ^ LENGTH('b) \<Longrightarrow> ucast (ucast w :: 'b word) = w"
  by (rule word_unat_eq_iff [THEN iffD2]) (simp add: unsigned_ucast_eq take_bit_nat_eq_self take_bit_take_bit min_def unsigned_take_bit_eq)

lemma unat_ucast_le:
  "LENGTH('b::len) \<le> LENGTH('a::len) \<Longrightarrow> unat (ucast (w :: 'b word) :: 'a word) = unat w"
proof -
  assume le: "LENGTH('b) \<le> LENGTH('a)"
  have "unat w < 2 ^ LENGTH('b)" by (rule unsigned_less)
  also have "(2 :: nat) ^ LENGTH('b) \<le> 2 ^ LENGTH('a)" using le by (rule power_increasing) simp
  finally show ?thesis by (simp add: unsigned_ucast_eq take_bit_nat_eq_self)
qed

lemma ucast_down_up: "LENGTH('b::len) \<le> LENGTH('a::len) \<Longrightarrow> ucast (ucast (w :: 'b word) :: 'a word) = w"
  by (rule word_unat_eq_iff [THEN iffD2]) (simp add: unat_ucast_le unsigned_ucast_eq [of "ucast w :: 'a word"] take_bit_nat_eq_self)

lemma unat_ucast_small:
  "unat (w :: 'a::len word) < 2 ^ LENGTH('b::len) \<Longrightarrow> unat (ucast w :: 'b word) = unat w"
  by (simp add: unsigned_ucast_eq take_bit_nat_eq_self)

section \<open>Lists\<close>

text \<open>
  An iterator of a C++ byte vector is modelled by the bytes from the iterator to the end, so
  the half-open range \<^verbatim>\<open>[pc2, pc)\<close> is \<open>list_range pc2 pc\<close>.
\<close>

definition list_range :: "'a list \<Rightarrow> 'a list \<Rightarrow> 'a list" where
  "list_range from_it to_it = take (length from_it - length to_it) from_it"

lemma list_range_append [simp]: "list_range (xs @ ys) ys = xs"
  by (simp add: list_range_def)

lemma list_range_self [simp]: "list_range xs xs = []"
  by (simp add: list_range_def)

lemma length_list_range [simp]: "length (list_range xs ys) = length xs - length ys"
  by (simp add: list_range_def)

lemma rev_nth_take_drop:
  "i < length xs \<Longrightarrow> xs = take i xs @ xs ! i # drop (Suc i) xs"
  by (simp add: id_take_nth_drop)

section \<open>Finite maps\<close>

text \<open>
  A hash map is a partial function; the order in which the C++ code iterates over it is not
  determined by its contents, so a loop over a map takes the order as an argument: a list of
  the map's entries in which every key occurs once.
\<close>

definition enumerates :: "('k \<times> 'v) list \<Rightarrow> ('k \<rightharpoonup> 'v) \<Rightarrow> bool" where
  "enumerates xs m \<longleftrightarrow> distinct (map fst xs) \<and> map_of xs = m"

lemma enumerates_distinct: "enumerates xs m \<Longrightarrow> distinct (map fst xs)"
  by (simp add: enumerates_def)

lemma enumerates_set:
  "enumerates xs m \<Longrightarrow> (k, v) \<in> set xs \<longleftrightarrow> m k = Some v"
  by (auto simp: enumerates_def)

lemma enumerates_finite_dom: "enumerates xs m \<Longrightarrow> finite (dom m)"
  by (auto simp: enumerates_def finite_dom_map_of)

lemma enumerates_exists: "finite (dom m) \<Longrightarrow> \<exists>xs. enumerates xs m"
proof -
  assume "finite (dom m)"
  from finite_distinct_list [OF this]
  obtain ks where ks: "set ks = dom m" "distinct ks" by auto
  have "map_of (map (\<lambda>k. (k, the (m k))) ks) = m"
    using ks(1) by (rule map_of_map_keys)
  moreover have "distinct (map fst (map (\<lambda>k. (k, the (m k))) ks))"
    using ks(2) by (simp add: comp_def)
  ultimately show ?thesis unfolding enumerates_def by blast
qed

end
