(* ===== verification/Script_Num.thy ===== *)
theory Script_Num
  imports Script
begin

unbundle bit_operations_syntax

text \<open>
  The numbers of the script engine: \<open>CScriptNum_vch\<close> reads the sign-and-magnitude encoding
  \<open>scriptnum_value\<close>, \<open>CScriptNum_serialize\<close> writes the shortest one, and the two are inverse to
  each other on every width the engine uses.
\<close>

section \<open>The bit operations as arithmetic\<close>

lemma bit_u64_less: "unat (r :: u64) < 2 ^ m \<Longrightarrow> bit r n \<Longrightarrow> n < m"
  by (metis bit_take_bit_iff take_bit_nat_eq_self unsigned_take_bit_eq unsigned_word_eqI)

lemma unat_or_shifted_byte:
  fixes r :: u64 and b :: u8
  assumes r: "unat r < 256 ^ i" and i: "i < 8"
  shows "unat (r OR push_bit (8 * i) (ucast b)) = unat r + unat b * 256 ^ i"
proof -
  have p: "(256 :: nat) ^ i = 2 ^ (8 * i)" by (simp add: power_mult)
  have below: "n < 8 * i" if "bit r n" for n
    using bit_u64_less [OF _ that] r p by simp
  have "r AND push_bit (8 * i) (ucast b) = 0"
    by (intro bit_eqI) (auto simp: bit_and_iff bit_push_bit_iff dest: below)
  then have or_add: "r OR push_bit (8 * i) (ucast b) = r + push_bit (8 * i) (ucast b)"
    by (simp add: disjunctive_add_eq_or)
  have b: "unat b < 256" by (rule unat_u8_lt)
  have "unat b * 2 ^ (8 * i) < 256 * 2 ^ (8 * i)" using b by simp
  also have "256 * 2 ^ (8 * i) = (2 :: nat) ^ (8 * Suc i)" by (simp add: power_add)
  also have "\<dots> \<le> 2 ^ 64" using i by (intro power_increasing) auto
  finally have lt: "unat b * 2 ^ (8 * i) < 2 ^ 64" .
  have u2: "unat (2 ^ (8 * i) :: u64) = 2 ^ (8 * i)"
    using i by (intro unat_2p) simp
  have "unat (push_bit (8 * i) (ucast b :: u64)) = unat b * 2 ^ (8 * i)"
    using lt u2 by (simp add: push_bit_eq_mult unat_word_ariths unat_ucast_u8)
  moreover have "unat r + unat b * 2 ^ (8 * i) < 2 ^ 64"
  proof -
    have "unat r + unat b * 2 ^ (8 * i) < 2 ^ (8 * i) + 255 * 2 ^ (8 * i)"
      using r p b by (intro add_less_le_mono mult_right_mono) auto
    also have "\<dots> = 2 ^ (8 * Suc i)" by (simp add: power_add)
    also have "\<dots> \<le> 2 ^ 64" using i by (intro power_increasing) auto
    finally show ?thesis .
  qed
  ultimately show ?thesis unfolding or_add by (simp add: unat_word_ariths p)
qed

lemma unat_set_vch_loop:
  "unat r < 256 ^ i \<Longrightarrow> i + length vch \<le> 8 \<Longrightarrow>
     unat (set_vch_loop i vch r) = unat r + 256 ^ i * le_nat vch"
proof (induction i vch r rule: set_vch_loop.induct)
  case (1 i result)
  then show ?case by simp
next
  case (2 i b vch result)
  let ?r = "result OR push_bit (8 * i) (ucast b)"
  have r: "unat ?r = unat result + unat b * 256 ^ i"
    using 2 by (intro unat_or_shifted_byte) auto
  have "unat result + unat b * 256 ^ i < 256 ^ i + 255 * 256 ^ i"
    using 2 unat_u8_lt [of b] by (intro add_less_le_mono mult_right_mono) auto
  then have "unat ?r < 256 ^ Suc i" unfolding r by simp
  then show ?case using 2 r by (simp add: algebra_simps)
qed

text \<open>The value of a script number as sign and magnitude.\<close>

definition scriptnum_value :: "valtype \<Rightarrow> int" where
  "scriptnum_value vch =
     (if vch = [] then 0
      else if last vch \<ge> 0x80
           then - int (le_nat (butlast vch @ [last vch - 0x80]))
           else int (le_nat vch))"

lemma u8_sign_bit: "(b :: u8) AND 0x80 \<noteq> 0 \<longleftrightarrow> b \<ge> 0x80"
proof -
  have "(0x80 :: u8) = push_bit 7 1" by simp
  then have "b AND 0x80 \<noteq> 0 \<longleftrightarrow> bit b 7"
    by (simp add: bit_iff_and_push_bit_not_eq_0)
  also have "\<dots> \<longleftrightarrow> odd (unat b div 128)"
    using bit_unsigned_iff [of b 7, where 'a = nat] by (simp add: bit_iff_odd)
  also have "\<dots> \<longleftrightarrow> unat b \<ge> 128"
  proof (cases "unat b < 128")
    case False
    then have "unat b div 128 = 1" using unat_u8_lt [of b] by (intro div_nat_eqI) auto
    then show ?thesis using False by simp
  qed simp
  finally show ?thesis by (simp add: word_le_nat_alt)
qed

lemma sint_u64_small: "unat (w :: u64) < 2 ^ 63 \<Longrightarrow> sint w = int (unat w)"
proof -
  assume "unat w < 2 ^ 63"
  then have "int (unat w) < int (2 ^ 63)" by (simp only: of_nat_less_iff)
  then have "uint w < 2 ^ 63" by simp
  moreover have "0 \<le> uint w" by simp
  ultimately have "- (2 ^ 63) \<le> uint w \<and> uint w < 2 ^ 63" by linarith
  then show ?thesis by (simp add: sint_uint signed_take_bit_int_eq_self_iff)
qed

lemma le_nat_snoc: "le_nat (xs @ [t]) = le_nat xs + 256 ^ length xs * unat t"
  by (simp add: le_nat_append)

lemma le_nat_snoc_lt:
  assumes "unat t < 128" "length xs < 8"
  shows "le_nat (xs @ [t]) < 2 ^ 63"
proof -
  have "le_nat (xs @ [t]) < 256 ^ length xs + 256 ^ length xs * 127"
    unfolding le_nat_snoc using assms le_nat_less [of xs]
    by (intro add_less_le_mono mult_left_mono) auto
  also have "\<dots> = 2 ^ (8 * length xs + 7)" by (simp add: power_add power_mult)
  also have "\<dots> \<le> 2 ^ 63" using assms by (intro power_increasing) auto
  finally show ?thesis .
qed

lemma unat_minus_0x80: "(t :: u8) \<ge> 0x80 \<Longrightarrow> unat (t - 0x80) = unat t - 128"
  by (simp add: unat_sub word_le_nat_alt)

lemma unat_and_not_top_bit:
  fixes w :: u64
  assumes "unat w = n + 256 ^ k * unat t" "n < 256 ^ k" "k < 8" "(t :: u8) \<ge> 0x80"
  shows "unat (w AND NOT (push_bit (8 * k) 0x80)) = n + 256 ^ k * unat (t - 0x80)"
proof -
  let ?m = "8 * k + 7"
  have p: "(256 :: nat) ^ k = 2 ^ (8 * k)" by (simp add: power_mult)
  have mask: "push_bit (8 * k) 0x80 = (push_bit ?m 1 :: u64)"
    by (simp add: push_bit_eq_mult power_add)
  have t: "unat t \<ge> 128" using assms(4) by (simp add: word_le_nat_alt)
  have "unat w div 2 ^ ?m = (unat w div 2 ^ (8 * k)) div 128"
    by (simp add: power_add div_mult2_eq)
  also have "unat w div 2 ^ (8 * k) = unat t" using assms(1,2) p by simp
  also have "unat t div 128 = 1" using t unat_u8_lt [of t] by arith
  finally have "bit (unat w) ?m" by (simp add: bit_iff_odd)
  then have "bit w ?m" by (simp add: bit_unsigned_iff)
  then have "unset_bit ?m w = w - 2 ^ ?m" by (simp add: unset_bit_eq)
  moreover have "unset_bit ?m w = w AND NOT (push_bit ?m 1)"
    by (simp add: unset_bit_eq_and_not)
  ultimately have eq: "w AND NOT (push_bit (8 * k) 0x80) = w - 2 ^ ?m"
    using mask by simp
  have "?m < 64" using assms(3) by simp
  then have u2: "unat (2 ^ ?m :: u64) = 2 ^ ?m"
    by (intro unat_2p) simp
  have ge: "2 ^ ?m \<le> unat w"
    using t unfolding assms(1) p power_add by (simp add: trans_le_add2)
  then have "unat (w - 2 ^ ?m) = unat w - 2 ^ ?m"
    using u2 by (simp add: unat_sub word_le_nat_alt)
  also have "\<dots> = n + 256 ^ k * (unat t - 128)"
    using t unfolding assms(1) p by (simp add: power_add algebra_simps diff_mult_distrib2)
  finally show ?thesis unfolding eq using unat_minus_0x80 [OF assms(4)] by simp
qed

lemma set_vch_value: 
  assumes "length vch \<le> 8"
  shows "set_vch vch = scriptnum_value vch"
proof (cases vch rule: rev_cases)
  case Nil
  then show ?thesis by (simp add: set_vch_def scriptnum_value_def)
next
  case (snoc xs t)
  have len: "length xs < 8" using assms snoc by simp
  have u: "unat (set_vch_loop 0 vch 0) = le_nat xs + 256 ^ length xs * unat t"
    using unat_set_vch_loop [of 0 0 vch] assms snoc by (simp add: le_nat_snoc)
  show ?thesis
  proof (cases "t \<ge> 0x80")
    case True
    have "unat (t - 0x80) < 128"
      using unat_minus_0x80 [OF True] unat_u8_lt [of t] by linarith
    then have small: "le_nat (xs @ [t - 0x80]) < 2 ^ 63" using len by (rule le_nat_snoc_lt)
    have "unat (set_vch_loop 0 vch 0 AND NOT (push_bit (8 * length xs) 0x80))
            = le_nat (xs @ [t - 0x80])"
      using unat_and_not_top_bit [OF u le_nat_less len True] by (simp add: le_nat_snoc)
    then have "sint (set_vch_loop 0 vch 0 AND NOT (push_bit (8 * length xs) 0x80))
            = int (le_nat (xs @ [t - 0x80]))"
      using small sint_u64_small by metis
    then show ?thesis
      using True snoc u8_sign_bit [of t] by (simp add: set_vch_def scriptnum_value_def Let_def)
  next
    case False
    then have "unat t < 128" by (simp add: word_le_nat_alt)
    then have small: "le_nat (xs @ [t]) < 2 ^ 63" using len by (rule le_nat_snoc_lt)
    then have "sint (set_vch_loop 0 vch 0) = int (le_nat (xs @ [t]))"
      using u sint_u64_small [of "set_vch_loop 0 vch 0"] by (simp add: le_nat_snoc)
    then show ?thesis
      using False snoc u8_sign_bit [of t] by (simp add: set_vch_def scriptnum_value_def Let_def)
  qed
qed


text \<open>The byte loop of \<open>serialize\<close> writes the base-256 digits of its argument, without leading zeros.\<close>

lemma unat_low_byte: "unat (ucast ((a :: u64) AND 0xff) :: u8) = unat a mod 256"
proof -
  have "a AND 0xff = take_bit 8 a" by (simp add: take_bit_eq_mask mask_eq_exp_minus_1)
  then show ?thesis by (simp add: unsigned_ucast_eq unat_mod_distrib take_bit_eq_mod)
qed

lemma unat_shift_byte: "unat (drop_bit 8 (a :: u64)) = unat a div 256"
  by (simp add: drop_bit_eq_div unat_div)

lemma serialize_loop_0 [simp]: "serialize_loop 0 = []"
  by (subst serialize_loop.simps) simp

lemma le_nat_serialize_loop: "le_nat (serialize_loop a) = unat a"
proof (induction a rule: serialize_loop.induct)
  case (1 a)
  show ?case
  proof (cases "a = 0")
    case False
    then show ?thesis
      using 1 by (subst serialize_loop.simps) (simp add: unat_low_byte unat_shift_byte)
  qed simp
qed

lemma serialize_loop_Nil_iff [simp]: "serialize_loop a = [] \<longleftrightarrow> a = 0"
  by (subst serialize_loop.simps) simp

lemma last_serialize_loop: "a \<noteq> 0 \<Longrightarrow> last (serialize_loop a) \<noteq> 0"
proof (induction a rule: serialize_loop.induct)
  case (1 a)
  show ?case
  proof (cases "drop_bit 8 a = 0")
    case True
    then have "unat a div 256 = 0" using unat_shift_byte [of a] by simp
    then have "unat a < 256" by auto
    moreover have "unat a \<noteq> 0" using 1 by (simp add: unat_gt_0)
    ultimately have "(ucast (a AND 0xff) :: u8) \<noteq> 0"
      using unat_low_byte [of a] by (metis mod_less unat_0)
    then show ?thesis using 1 True by (subst serialize_loop.simps) simp
  next
    case False
    then show ?thesis using 1 by (subst serialize_loop.simps) simp
  qed
qed

lemma le_nat_ge_last: "xs \<noteq> [] \<Longrightarrow> last xs \<noteq> 0 \<Longrightarrow> 256 ^ (length xs - 1) \<le> le_nat xs"
proof (cases xs rule: rev_cases)
  case (snoc ys y)
  assume "last xs \<noteq> 0"
  then have "1 \<le> unat y" using snoc by (simp add: Suc_leI unat_gt_0)
  then show ?thesis unfolding snoc le_nat_snoc by (simp add: trans_le_add2)
qed simp

lemma length_serialize_loop: "unat a < 256 ^ k \<Longrightarrow> length (serialize_loop a) \<le> k"
proof (cases "a = 0")
  case False
  assume "unat a < 256 ^ k"
  moreover have "256 ^ (length (serialize_loop a) - 1) \<le> unat a"
    using le_nat_ge_last [of "serialize_loop a"] last_serialize_loop [OF False] False
    by (simp add: le_nat_serialize_loop)
  ultimately have "(256 :: nat) ^ (length (serialize_loop a) - 1) < 256 ^ k" by linarith
  then have "length (serialize_loop a) - 1 < k" by simp
  then show ?thesis by simp
qed simp


section \<open>Round trips of script numbers\<close>

lemma or_0x80: "\<not> 0x80 \<le> (t :: u8) \<Longrightarrow> t OR 0x80 = t + 0x80"
  using u8_sign_bit [of t] by (metis disjunctive_add_eq_or)

lemma add_0x80_ge: "\<not> 0x80 \<le> (t :: u8) \<Longrightarrow> 0x80 \<le> t + 0x80"
  by (simp add: word_le_nat_alt unat_word_ariths)

lemma le_nat_length_unique:
  assumes "xs \<noteq> []" "last xs \<noteq> 0" "ys \<noteq> []" "last ys \<noteq> 0" "le_nat xs = le_nat ys"
  shows "xs = ys"
proof -
  have "(256 :: nat) ^ (length xs - 1) < 256 ^ length ys"
    using le_nat_ge_last [OF assms(1,2)] le_nat_less [of ys] assms(5) by linarith
  then have "length xs \<le> length ys" using assms(1) by simp
  moreover have "(256 :: nat) ^ (length ys - 1) < 256 ^ length xs"
    using le_nat_ge_last [OF assms(3,4)] le_nat_less [of xs] assms(5) by linarith
  then have "length ys \<le> length xs" using assms(3) by simp
  ultimately show ?thesis using le_nat_inject assms(5) by (metis le_antisym)
qed

lemma serialize_loop_unique:
  assumes "ys \<noteq> []" "last ys \<noteq> 0" "le_nat ys = unat a"
  shows "serialize_loop a = ys"
proof -
  have "a \<noteq> 0"
    using le_nat_ge_last [OF assms(1,2)] assms(3) by (metis le_zero_eq power_not_zero unat_0 zero_neq_numeral)
  then show ?thesis
    using le_nat_length_unique [of "serialize_loop a" ys] assms last_serialize_loop
    by (simp add: le_nat_serialize_loop)
qed

lemma scriptnum_value_abs_less:
  assumes "vch \<noteq> []"
  shows "\<bar>scriptnum_value vch\<bar> < 2 ^ (8 * length vch - 1)"
proof -
  obtain xs t where v: "vch = xs @ [t]" using assms by (metis rev_exhaust)
  have bound: "le_nat (xs @ [u]) < 2 ^ (8 * length vch - 1)" if "unat u < 128" for u
  proof -
    have "le_nat (xs @ [u]) < 256 ^ length xs + 256 ^ length xs * 127"
      unfolding le_nat_snoc using that le_nat_less [of xs]
      by (intro add_less_le_mono mult_left_mono) auto
    also have "\<dots> = 2 ^ (8 * length xs + 7)" by (simp add: power_add power_mult)
    also have "8 * length xs + 7 = 8 * length vch - 1" using v by simp
    finally show ?thesis .
  qed
  have toint: "int m < 2 ^ k" if "m < 2 ^ k" for m k :: nat
    using that by (metis of_nat_less_iff of_nat_numeral of_nat_power)
  have "unat (t - 0x80) < 128" if "t \<ge> 0x80"
    using unat_minus_0x80 [OF that] unat_u8_lt [of t] by linarith
  moreover have "unat t < 128" if "\<not> t \<ge> 0x80"
    using that by (simp add: word_le_nat_alt)
  ultimately show ?thesis
    using v toint [OF bound] by (auto simp: scriptnum_value_def)
qed

lemma CScriptNum_vch_value:
  assumes "CScriptNum_vch vch m k = Inr n" "k \<le> 8"
  shows "n = scriptnum_value vch" "length vch \<le> k"
  using assms set_vch_value [of vch] by (auto simp: CScriptNum_vch_def split: if_splits)

lemma CScriptNum_serialize_cases:
  assumes "n \<noteq> 0" "\<bar>n\<bar> < 2 ^ 63"
  obtains xs t where "serialize_loop (word_of_int \<bar>n\<bar>) = xs @ [t]" "int (le_nat (xs @ [t])) = \<bar>n\<bar>" "t \<noteq> 0"
    "CScriptNum_serialize n =
      (if t \<ge> 0x80 then xs @ [t] @ [if n < 0 then 0x80 else 0]
       else if n < 0 then xs @ [t OR 0x80] else xs @ [t])"
proof -
  define a :: u64 where "a = word_of_int \<bar>n\<bar>"
  have ua: "int (unat a) = \<bar>n\<bar>"
    using assms by (simp add: a_def uint_word_of_int)
  have a0: "a \<noteq> 0" using ua assms(1) by auto
  obtain xs t where xt: "serialize_loop a = xs @ [t]"
    using a0 by (metis rev_exhaust serialize_loop_Nil_iff)
  have val: "int (le_nat (xs @ [t])) = \<bar>n\<bar>"
    using ua le_nat_serialize_loop [of a] xt by simp
  have ser: "CScriptNum_serialize n =
      (if t \<ge> 0x80 then xs @ [t] @ [if n < 0 then 0x80 else 0]
       else if n < 0 then xs @ [t OR 0x80] else xs @ [t])"
    using assms(1) xt by (auto simp: CScriptNum_serialize_def Let_def a_def u8_sign_bit abs_if)
  have "t \<noteq> 0" using last_serialize_loop [OF a0] xt by simp
  with xt val ser show thesis using that unfolding a_def by blast
qed

lemma scriptnum_value_serialize:
  assumes "\<bar>n\<bar> < 2 ^ 63"
  shows "scriptnum_value (CScriptNum_serialize n) = n"
proof (cases "n = 0")
  case True
  then show ?thesis by (simp add: CScriptNum_serialize_def scriptnum_value_def)
next
  case False
  with assms obtain xs t where val: "int (le_nat (xs @ [t])) = \<bar>n\<bar>" and ser: "CScriptNum_serialize n =
      (if t \<ge> 0x80 then xs @ [t] @ [if n < 0 then 0x80 else 0]
       else if n < 0 then xs @ [t OR 0x80] else xs @ [t])"
    using CScriptNum_serialize_cases by metis
  show ?thesis
  proof (cases "t \<ge> 0x80")
    case True
    then show ?thesis using val ser False
      by (auto simp: scriptnum_value_def le_nat_append butlast_append split: if_splits)
  next
    case low: False
    show ?thesis using val ser False low or_0x80 [OF low] add_0x80_ge [OF low]
      by (auto simp: scriptnum_value_def le_nat_append butlast_append)
  qed
qed

lemma length_CScriptNum_serialize:
  assumes "\<bar>n\<bar> < 2 ^ (8 * k - 1)" "1 \<le> k" "k \<le> 8"
  shows "length (CScriptNum_serialize n) \<le> k"
proof (cases "n = 0")
  case True
  then show ?thesis by (simp add: CScriptNum_serialize_def)
next
  case False
  have "(2 :: int) ^ (8 * k - 1) \<le> 2 ^ 63" using assms(3) by (intro power_increasing) auto
  then have "\<bar>n\<bar> < 2 ^ 63" using assms(1) by linarith
  with False obtain xs t where xt: "int (le_nat (xs @ [t])) = \<bar>n\<bar>" "t \<noteq> 0"
    "CScriptNum_serialize n =
      (if t \<ge> 0x80 then xs @ [t] @ [if n < 0 then 0x80 else 0]
       else if n < 0 then xs @ [t OR 0x80] else xs @ [t])"
    using CScriptNum_serialize_cases by metis
  have "int (le_nat (xs @ [t])) < int (2 ^ (8 * k - 1))" using xt(1) assms(1) by simp
  then have lt: "le_nat (xs @ [t]) < 2 ^ (8 * k - 1)" by (simp only: of_nat_less_iff)
  have top: "(256 :: nat) ^ length xs * unat t < 2 ^ (8 * k - 1)"
    using lt unfolding le_nat_snoc by linarith
  show ?thesis
  proof (cases "t \<ge> 0x80")
    case True
    then have "128 \<le> unat t" by (simp add: word_le_nat_alt)
    then have "256 ^ length xs * 128 \<le> 256 ^ length xs * unat t" by simp
    then have "256 ^ length xs * 128 < (2 :: nat) ^ (8 * k - 1)" using top by linarith
    then have "(2 :: nat) ^ (8 * length xs + 7) < 2 ^ (8 * k - 1)"
      by (simp add: power_add power_mult)
    then have "8 * length xs + 7 < 8 * k - 1" by simp
    then show ?thesis using xt(3) True by simp
  next
    case low: False
    have "1 \<le> unat t" using xt(2) by (simp add: Suc_leI unat_gt_0)
    then have "256 ^ length xs * 1 \<le> 256 ^ length xs * unat t" by (intro mult_left_mono) auto
    then have "256 ^ length xs * 1 < (2 :: nat) ^ (8 * k - 1)" using top by linarith
    then have "(2 :: nat) ^ (8 * length xs) < 2 ^ (8 * k - 1)"
      by (simp add: power_mult)
    then have "8 * length xs < 8 * k - 1" by simp
    then show ?thesis using xt(3) low by simp
  qed
qed


text \<open>Minimal encodings: the condition the constructor of \<open>CScriptNum\<close> checks.\<close>

definition minimal_vch :: "valtype \<Rightarrow> bool" where
  "minimal_vch vch \<longleftrightarrow>
     vch = [] \<or> last vch AND 0x7f \<noteq> 0 \<or>
     (length vch > 1 \<and> last (butlast vch) \<ge> 0x80)"

lemma CScriptNum_vch_eq:
  "CScriptNum_vch vch m k =
     (if length vch > k then Inl ScriptNumOverflow
      else if m \<and> \<not> minimal_vch vch then Inl ScriptNumNonMinimal
      else Inr (set_vch vch))"
proof (cases vch rule: rev_cases)
  case Nil
  then show ?thesis by (simp add: CScriptNum_vch_def minimal_vch_def)
next
  case (snoc xs t)
  show ?thesis
  proof (cases xs rule: rev_cases)
    case Nil
    then show ?thesis using snoc by (simp add: CScriptNum_vch_def minimal_vch_def)
  next
    case (snoc ys y)
    have "butlast (ys @ [y, t]) = ys @ [y]" by (simp add: butlast_append)
    moreover have "y AND 0x80 = 0 \<longleftrightarrow> \<not> 0x80 \<le> y" using u8_sign_bit by metis
    ultimately show ?thesis using snoc \<open>vch = xs @ [t]\<close>
      by (simp add: CScriptNum_vch_def minimal_vch_def nth_append)
  qed
qed

lemma u8_and_0x7f: "(t :: u8) AND 0x7f = 0 \<longleftrightarrow> t = 0 \<or> t = 0x80"
proof -
  have mask: "t AND 0x7f = take_bit 7 t" by (simp add: take_bit_eq_mask mask_eq_exp_minus_1)
  have "t AND 0x7f = 0 \<longleftrightarrow> unat t mod 128 = 0"
    unfolding mask by (simp add: take_bit_eq_mod unat_eq_zero [symmetric] unat_mod_distrib del: unat_eq_zero)
  also have "\<dots> \<longleftrightarrow> unat t = 0 \<or> unat t = 128"
  proof (cases "unat t < 128")
    case False
    then have "unat t mod 128 = unat t - 128" using unat_u8_lt [of t] by (simp add: le_mod_geq)
    then show ?thesis using False by auto
  qed auto
  also have "\<dots> \<longleftrightarrow> t = 0 \<or> t = 0x80"
    by (simp add: word_unat_eq_iff)
  finally show ?thesis .
qed

lemma minimal_vch_serialize:
  assumes "\<bar>n\<bar> < 2 ^ 63"
  shows "minimal_vch (CScriptNum_serialize n)"
proof (cases "n = 0")
  case True
  then show ?thesis by (simp add: CScriptNum_serialize_def minimal_vch_def)
next
  case False
  with assms obtain xs t where t: "t \<noteq> 0" and ser: "CScriptNum_serialize n =
      (if t \<ge> 0x80 then xs @ [t] @ [if n < 0 then 0x80 else 0]
       else if n < 0 then xs @ [t OR 0x80] else xs @ [t])"
    using CScriptNum_serialize_cases by metis
  show ?thesis
  proof (cases "t \<ge> 0x80")
    case True
    then show ?thesis using ser by (auto simp: minimal_vch_def butlast_append)
  next
    case low: False
    have "t + 0x80 \<noteq> 0x80" "t + 0x80 \<noteq> 0" "t \<noteq> 0x80"
      using t low add_0x80_ge [OF low] by auto
    then show ?thesis using ser low or_0x80 [OF low] t by (auto simp: minimal_vch_def u8_and_0x7f)
  qed
qed


lemma scriptnum_roundtrip_aux:
  assumes "\<bar>n\<bar> < 2 ^ (8 * k - 1)" "1 \<le> k" "k \<le> 8"
  shows "CScriptNum_vch (CScriptNum_serialize n) m k = Inr n"
proof -
  have "(2 :: int) ^ (8 * k - 1) \<le> 2 ^ 63" using assms(3) by (intro power_increasing) auto
  then have small: "\<bar>n\<bar> < 2 ^ 63" using assms(1) by linarith
  have "length (CScriptNum_serialize n) \<le> k" by (rule length_CScriptNum_serialize [OF assms])
  moreover have "set_vch (CScriptNum_serialize n) = n"
    using set_vch_value [of "CScriptNum_serialize n"] calculation assms(3) scriptnum_value_serialize [OF small]
    by simp
  ultimately show ?thesis
    using minimal_vch_serialize [OF small] by (simp add: CScriptNum_vch_eq)
qed

lemma scriptnum_bound_aux:
  assumes "CScriptNum_vch vch m k = Inr n" "1 \<le> k" "k \<le> 8"
  shows "\<bar>n\<bar> < 2 ^ (8 * k - 1)"
proof (cases "vch = []")
  case True
  then show ?thesis using CScriptNum_vch_value [OF assms(1,3)] by (simp add: scriptnum_value_def)
next
  case False
  have "(2 :: int) ^ (8 * length vch - 1) \<le> 2 ^ (8 * k - 1)"
    using CScriptNum_vch_value(2) [OF assms(1,3)] by (intro power_increasing) auto
  then show ?thesis
    using scriptnum_value_abs_less [OF False] unfolding CScriptNum_vch_value(1) [OF assms(1,3)]
    by (rule order.strict_trans2 [rotated])
qed

text \<open>A minimal encoding is determined by its value.\<close>

lemma minimal_vch_cases:
  assumes "minimal_vch vch" "vch \<noteq> []"
  obtains (plain) xs t where "vch = xs @ [t]" "t \<noteq> 0" "\<not> t \<ge> 0x80"
    | (negative) xs t where "vch = xs @ [t + 0x80]" "t \<noteq> 0" "\<not> t \<ge> 0x80"
    | (padded) xs t where "vch = xs @ [t, 0]" "t \<ge> 0x80"
    | (padded_negative) xs t where "vch = xs @ [t, 0x80]" "t \<ge> 0x80"
proof -
  obtain xs t where v: "vch = xs @ [t]" using assms(2) by (metis rev_exhaust)
  show thesis
  proof (cases "t AND 0x7f = 0")
    case True
    then have "length xs > 0" "last xs \<ge> 0x80" using assms v by (auto simp: minimal_vch_def)
    then obtain ys y where "xs = ys @ [y]" "y \<ge> 0x80" by (metis length_greater_0_conv rev_exhaust last_snoc)
    then show thesis using True v padded padded_negative by (auto simp: u8_and_0x7f)
  next
    case False
    then have t: "t \<noteq> 0" "t \<noteq> 0x80" by (auto simp: u8_and_0x7f)
    show thesis
    proof (cases "t \<ge> 0x80")
      case True
      have "unat (t - 0x80) < 128"
        using unat_minus_0x80 [OF True] unat_u8_lt [of t] by linarith
      then have "\<not> t - 0x80 \<ge> 0x80" by (simp add: word_le_nat_alt)
      then show thesis using negative [of xs "t - 0x80"] v t by simp
    next
      case False
      then show thesis using plain v t by blast
    qed
  qed
qed

lemma le_nat_snoc_pos: "t \<noteq> 0 \<Longrightarrow> 0 < le_nat (xs @ [t])"
  using le_nat_ge_last [of "xs @ [t]"] by (auto intro: order.strict_trans2 [rotated])

lemma serialize_of_magnitude:
  assumes "int (le_nat (xs @ [t])) = \<bar>n\<bar>" "t \<noteq> 0" "\<bar>n\<bar> < 2 ^ 63"
  shows "CScriptNum_serialize n =
      (if t \<ge> 0x80 then xs @ [t] @ [if n < 0 then 0x80 else 0]
       else if n < 0 then xs @ [t + 0x80] else xs @ [t])"
proof -
  have n0: "n \<noteq> 0"
    using assms(1) le_nat_snoc_pos [OF assms(2), of xs] by linarith
  obtain ys u where "int (le_nat (ys @ [u])) = \<bar>n\<bar>" "u \<noteq> 0"
    and ser: "CScriptNum_serialize n =
      (if u \<ge> 0x80 then ys @ [u] @ [if n < 0 then 0x80 else 0]
       else if n < 0 then ys @ [u OR 0x80] else ys @ [u])"
    using CScriptNum_serialize_cases [OF n0 assms(3)] by metis
  then have "ys @ [u] = xs @ [t]"
    using le_nat_length_unique [of "ys @ [u]" "xs @ [t]"] assms(1,2) by simp
  then show ?thesis using ser or_0x80 [of t] by auto
qed

lemma scriptnum_canonical_aux:
  assumes "CScriptNum_vch vch True k = Inr n" "1 \<le> k" "k \<le> 8"
  shows "CScriptNum_serialize n = vch"
proof (cases "vch = []")
  case True
  then show ?thesis
    using CScriptNum_vch_value [OF assms(1,3)] by (simp add: scriptnum_value_def CScriptNum_serialize_def)
next
  case False
  have "(2 :: int) ^ (8 * k - 1) \<le> 2 ^ 63" using assms(3) by (intro power_increasing) auto
  then have small: "\<bar>n\<bar> < 2 ^ 63" using scriptnum_bound_aux [OF assms] by linarith
  note n = CScriptNum_vch_value(1) [OF assms(1,3)]
  have "minimal_vch vch" using assms(1) by (simp add: CScriptNum_vch_eq split: if_splits)
  then show ?thesis using False
  proof (cases rule: minimal_vch_cases)
    case (plain xs t)
    then have "int (le_nat (xs @ [t])) = \<bar>n\<bar>" "\<not> n < 0" using n by (auto simp: scriptnum_value_def)
    then show ?thesis using serialize_of_magnitude [OF _ _ small] plain by auto
  next
    case (negative xs t)
    have "int (le_nat (xs @ [t])) = \<bar>n\<bar>" and neg: "n \<le> 0"
      using n negative add_0x80_ge [OF negative(3)] by (auto simp: scriptnum_value_def)
    moreover have "n \<noteq> 0" using calculation(1) le_nat_snoc_pos [OF negative(2), of xs] by linarith
    ultimately show ?thesis using serialize_of_magnitude [OF _ _ small] negative by auto
  next
    case (padded xs t)
    then have "n = int (le_nat (xs @ [t]))"
      using n by (auto simp: scriptnum_value_def le_nat_append)
    then have "int (le_nat (xs @ [t])) = \<bar>n\<bar>" "\<not> n < 0" by linarith+
    moreover have "t \<noteq> 0" using padded by auto
    ultimately show ?thesis using serialize_of_magnitude [OF _ _ small] padded by auto
  next
    case (padded_negative xs t)
    have "n = - int (le_nat (xs @ [t]))"
      using n padded_negative by (auto simp: scriptnum_value_def le_nat_append butlast_append)
    then have "int (le_nat (xs @ [t])) = \<bar>n\<bar>" "n \<le> 0" by linarith+
    moreover have "t \<noteq> 0" using padded_negative by auto
    moreover have "n \<noteq> 0" using calculation(1) le_nat_snoc_pos [OF \<open>t \<noteq> 0\<close>, of xs] by linarith
    ultimately show ?thesis using serialize_of_magnitude [OF _ _ small] padded_negative by auto
  qed
qed


section \<open>Properties\<close>

text \<open>
  Every number that fits in \<open>k\<close> bytes survives serialisation: the
  constructor of \<open>CScriptNum\<close> accepts what \<open>serialize\<close> writes, with or without the minimality
  check, and returns the number.
\<close>

theorem scriptnum_roundtrip:
  assumes "\<bar>n\<bar> < 2 ^ (8 * k - 1)" "1 \<le> k" "k \<le> 8"
  shows "CScriptNum_vch (CScriptNum_serialize n) fRequireMinimal k = Inr n"
  by (rule scriptnum_roundtrip_aux [OF assms])

theorem scriptnum_roundtrip_witness:
  "CScriptNum_vch (CScriptNum_serialize (-1000)) True nDefaultMaxNumSize = Inr (-1000)"
  using scriptnum_roundtrip [of "-1000" nDefaultMaxNumSize True] by (simp add: nDefaultMaxNumSize_def)

text \<open>
  With the minimality check a number has exactly one encoding: the only byte
  vector the constructor accepts for \<open>n\<close> is the one \<open>serialize\<close> writes, and \<open>n\<close> is in the
  range of its width, which is what rules out third-party malleation of script numbers and
  keeps the arithmetic opcodes inside 64 bits.
\<close>

theorem scriptnum_canonical:
  assumes "CScriptNum_vch vch True k = Inr n" "1 \<le> k" "k \<le> 8"
  shows "vch = CScriptNum_serialize n \<and> \<bar>n\<bar> < 2 ^ (8 * k - 1)"
  using scriptnum_canonical_aux [OF assms] scriptnum_bound_aux [OF assms] by simp

theorem scriptnum_canonical_witness:
  "CScriptNum_vch [0xff, 0x80] True 4 = Inr (-255) \<and> [0xff, 0x80] = CScriptNum_serialize (-255)"
proof -
  have "CScriptNum_vch [0xff, 0x80] True 4 = Inr (-255)" by code_simp
  then show ?thesis using scriptnum_canonical [of "[0xff, 0x80]" 4 "-255"] by simp
qed

end
