(* ===== verification/Script_Scan.thy ===== *)
theory Script_Scan
  imports Script
begin

unbundle bit_operations_syntax

text \<open>
  The instruction reader and the scanners of \<^verbatim>\<open>script/script.h\<close> and \<^verbatim>\<open>script/script.cpp\<close>: reading
  back what the builders wrote, the sequence of instructions as the reference meaning of
  \<open>IsPushOnly\<close> and \<open>GetSigOpCount\<close>, and the effect of \<open>FindAndDelete\<close>.
\<close>

section \<open>Reading back a push\<close>

lemma unat_of_nat_small: "n < 2 ^ LENGTH('a::len) \<Longrightarrow> unat (of_nat n :: 'a word) = n"
  by (simp add: unat_of_nat)

definition push_opcode_of :: "valtype \<Rightarrow> opcodetype" where
  "push_opcode_of b =
     (if length b < 76 then of_nat (length b)
      else if length b \<le> 0xff then OP_PUSHDATA1
      else if length b \<le> 0xffff then OP_PUSHDATA2 else OP_PUSHDATA4)"

lemma of_nat_u8_less: "n < 256 \<Longrightarrow> m < 256 \<Longrightarrow> (of_nat n :: u8) < of_nat m \<longleftrightarrow> n < m"
  by (simp add: word_less_nat_alt unat_of_nat)

lemma push_opcode_of_le: "push_opcode_of b \<le> OP_PUSHDATA4"
proof -
  have "(of_nat (length b) :: u8) < 0x4e" if "length b < 76"
    using of_nat_u8_less [of "length b" "0x4e"] that by simp
  then show ?thesis by (auto simp: push_opcode_of_def less_imp_le)
qed

lemma GetOp2_push_data_aux:
  assumes "length b < 2 ^ 32"
  shows "GetOp2 (push_data [] b @ rest) = (True, push_opcode_of b, b, rest)"
proof -
  consider "length b < 76" | "76 \<le> length b" "length b \<le> 0xff" | "0xff < length b" "length b \<le> 0xffff"
    | "0xffff < length b" by linarith
  then show ?thesis
  proof cases
    case 1
    then have "unat (of_nat (length b) :: u8) = length b" "(of_nat (length b) :: u8) < 0x4c"
      using of_nat_u8_less [of "length b" "0x4c"] by (simp_all add: unat_of_nat)
    moreover from this(1) 1 have "(of_nat (length b) :: u8) \<le> 0x4e"
      by (simp add: word_le_nat_alt)
    ultimately show ?thesis using 1
      by (simp add: push_data_def push_opcode_of_def getop_operand_def)
  next
    case 2
    then have "unat (of_nat (length b) :: u8) = length b" by (simp add: unat_of_nat)
    then show ?thesis using 2
      by (simp add: push_data_def push_opcode_of_def getop_operand_def)
  next
    case 3
    then have "unat (of_nat (length b) :: u16) = length b" by (simp add: unat_of_nat)
    then show ?thesis using 3
      by (simp add: push_data_def push_opcode_of_def getop_operand_def)
  next
    case 4
    then have "unat (of_nat (length b) :: u32) = length b" using assms by (simp add: unat_of_nat)
    then show ?thesis using 4
      by (simp add: push_data_def push_opcode_of_def getop_operand_def)
  qed
qed

text \<open>The instructions of a script up to the first one that cannot be read, and the bytes left.\<close>

function instructions :: "CScript \<Rightarrow> (opcodetype \<times> valtype) list \<times> CScript" where
  "instructions pc =
     (let (ok, opcode, vch, pc') = GetOp2 pc
      in if ok then (let (is, r) = instructions pc' in ((opcode, vch) # is, r)) else ([], pc))"
  by pat_completeness auto
termination
  by (relation "measure length") (auto dest!: GetOp2_progress [OF sym])

declare instructions.simps [simp del]

lemma instructions_Nil [simp]: "instructions [] = ([], [])"
  by (subst instructions.simps) simp

lemma instructions_ok:
  "GetOp2 pc = (True, opcode, vch, pc') \<Longrightarrow>
   instructions pc = ((opcode, vch) # fst (instructions pc'), snd (instructions pc'))"
  by (subst instructions.simps) (simp add: Let_def case_prod_beta)

lemma instructions_fail: "GetOp2 pc = (False, opcode, vch, pc') \<Longrightarrow> instructions pc = ([], pc)"
  by (subst instructions.simps) simp

lemma GetOp2_ok_not_Nil: "GetOp2 pc = (True, opcode, vch, pc') \<Longrightarrow> pc \<noteq> []"
  by auto

lemma IsPushOnly_aux:
  "IsPushOnly pc \<longleftrightarrow> snd (instructions pc) = [] \<and> (\<forall>(opcode, vch) \<in> set (fst (instructions pc)). opcode \<le> OP_16)"
proof (induction pc rule: IsPushOnly.induct)
  case (1 pc)
  obtain ok opcode vch pc' where g: "GetOp2 pc = (ok, opcode, vch, pc')" by (cases "GetOp2 pc")
  show ?case
  proof (cases "pc = []")
    case True
    then show ?thesis by (simp add: IsPushOnly.simps)
  next
    case False
    then show ?thesis
      using 1 g instructions_ok [of pc opcode vch pc'] instructions_fail [of pc opcode vch pc']
      by (subst IsPushOnly.simps) (cases ok; auto simp: not_less)
  qed
qed

definition sigop_weight :: "bool \<Rightarrow> opcodetype \<Rightarrow> opcodetype \<Rightarrow> nat" where
  "sigop_weight fAccurate lastOpcode opcode =
     (if opcode = OP_CHECKSIG \<or> opcode = OP_CHECKSIGVERIFY then 1
      else if opcode = OP_CHECKMULTISIG \<or> opcode = OP_CHECKMULTISIGVERIFY then
        (if fAccurate \<and> lastOpcode \<ge> OP_1 \<and> lastOpcode \<le> OP_16
         then DecodeOP_N lastOpcode else MAX_PUBKEYS_PER_MULTISIG)
      else 0)"

lemma sigop_loop_ok:
  "GetOp2 pc = (True, opcode, vch, pc') \<Longrightarrow>
   sigop_loop acc pc l = sigop_weight acc l opcode + sigop_loop acc pc' opcode"
  using GetOp2_ok_not_Nil [of pc opcode vch pc']
  by (subst sigop_loop.simps) (simp add: sigop_weight_def)

lemma sigop_loop_fail: "GetOp2 pc = (False, opcode, vch, pc') \<Longrightarrow> sigop_loop acc pc l = 0"
  by (subst sigop_loop.simps) simp

lemma sigop_loop_instructions:
  "sigop_loop acc pc l =
     (let ops = map fst (fst (instructions pc))
      in sum_list (map2 (sigop_weight acc) (l # ops) ops))"
proof (induction acc pc l rule: sigop_loop.induct)
  case (1 acc pc l)
  obtain ok opcode vch pc' where g: "GetOp2 pc = (ok, opcode, vch, pc')" by (cases "GetOp2 pc")
  show ?case
  proof (cases ok)
    case True
    then show ?thesis
      using 1 g sigop_loop_ok [of pc opcode vch pc' acc l] instructions_ok [of pc opcode vch pc']
        GetOp2_ok_not_Nil [of pc opcode vch pc'] by (simp add: Let_def)
  next
    case False
    then show ?thesis using g sigop_loop_fail instructions_fail by (simp add: Let_def)
  qed
qed

lemma DecodeOP_N_le:
  assumes "OP_1 \<le> l" "l \<le> OP_16"
  shows "1 \<le> DecodeOP_N l" "DecodeOP_N l \<le> 16"
  using assms by (auto simp: DecodeOP_N_def word_le_nat_alt)

lemma sigop_weight_bounds:
  "sigop_weight True l opcode \<le> sigop_weight False l opcode" "sigop_weight a l opcode \<le> 20"
  using DecodeOP_N_le [of l] by (auto simp: sigop_weight_def MAX_PUBKEYS_PER_MULTISIG_def)

lemma sigop_loop_bounds:
  "sigop_loop True pc l \<le> sigop_loop False pc l \<and> sigop_loop a pc l \<le> 20 * length pc"
proof (induction pc arbitrary: l rule: length_induct)
  case (1 pc)
  obtain ok opcode vch pc' where g: "GetOp2 pc = (ok, opcode, vch, pc')" by (cases "GetOp2 pc")
  show ?case
  proof (cases ok)
    case True
    then have g: "GetOp2 pc = (True, opcode, vch, pc')" using g by simp
    have len: "length pc' < length pc" by (rule GetOp2_progress [OF g])
    have IH: "sigop_loop True pc' opcode \<le> sigop_loop False pc' opcode \<and>
        sigop_loop a pc' opcode \<le> 20 * length pc'"
      using 1 len by blast
    show ?thesis unfolding sigop_loop_ok [OF g] using IH len sigop_weight_bounds(1) [of l opcode]
      sigop_weight_bounds(2) [of a l opcode] by linarith
  next
    case False
    then show ?thesis using g sigop_loop_fail by simp
  qed
qed

text \<open>Deleting a push from a script.\<close>

lemma fad_skip_length_count:
  "fad_skip b pc n = (pc', n') \<Longrightarrow> n \<le> n' \<and> length pc' + (n' - n) * length b = length pc \<and> (\<exists>ys. pc = ys @ pc')"
proof (induction b pc n rule: fad_skip.induct)
  case (1 b pc n)
  show ?case
  proof (cases "b \<noteq> [] \<and> length b \<le> length pc \<and> take (length b) pc = b")
    case True
    then have "fad_skip b (drop (length b) pc) (Suc n) = (pc', n')"
      using "1.prems" by (simp add: fad_skip.simps [of b pc])
    from "1.IH" [OF True this] obtain ys where
      ih: "Suc n \<le> n'" "length pc' + (n' - Suc n) * length b = length (drop (length b) pc)"
        "drop (length b) pc = ys @ pc'" by blast
    have "n' - n = Suc (n' - Suc n)" using ih(1) by simp
    then have "length pc' + (n' - n) * length b = length pc" using ih(2) conjunct1 [OF conjunct2 [OF True]] by simp
    moreover have "pc = (b @ ys) @ pc'" using ih(3) True by (metis append_assoc append_take_drop_id)
    ultimately show ?thesis using ih(1) by auto
  next
    case False
    then show ?thesis using "1.prems" by (simp add: fad_skip.simps [of b pc] del: not_all) auto
  qed
qed

lemma fad_loop_length:
  assumes "fad_loop b r pc2 pc n = (r', p', n')" "\<exists>ys. pc2 = ys @ pc"
  shows "n \<le> n' \<and> length r' + length p' + (n' - n) * length b = length r + length pc2"
  using assms
proof (induction b r pc2 pc n arbitrary: r' p' n' rule: fad_loop.induct)
  case (1 b r pc2 pc n)
  obtain q m where skip: "fad_skip b pc n = (q, m)" by (cases "fad_skip b pc n")
  obtain ok opcode vch q' where g: "GetOp2 q = (ok, opcode, vch, q')" by (cases "GetOp2 q")
  from fad_skip_length_count [OF skip] have sk: "n \<le> m" "length q + (m - n) * length b = length pc" by auto
  have len: "length pc \<le> length pc2" using "1.prems"(2) by auto
  show ?case
  proof (cases ok)
    case True
    then have "fad_loop b (r @ list_range pc2 pc) q q' m = (r', p', n')"
      using "1.prems"(1) skip g by (simp add: fad_loop.simps [of b r])
    moreover have "\<exists>ys. q = ys @ q'" using GetOp2_suffix [OF g] by auto
    ultimately have ih: "m \<le> n'"
      "length r' + length p' + (n' - m) * length b = length (r @ list_range pc2 pc) + length q"
      using "1.IH" [OF refl skip [symmetric] refl refl g [symmetric] refl refl refl] True skip g by auto
    have "(n' - n) * length b = ((n' - m) + (m - n)) * length b" using sk(1) ih(1) by simp
    then have "(n' - n) * length b = (n' - m) * length b + (m - n) * length b" by (simp only: distrib_right)
    moreover have "length (list_range pc2 pc) = length pc2 - length pc" by simp
    ultimately show ?thesis using ih sk len unfolding length_append by linarith
  next
    case False
    then show ?thesis using "1.prems"(1) skip g sk len by (auto simp: fad_loop.simps [of b r])
  qed
qed

lemma FindAndDelete_length_aux:
  assumes "FindAndDelete s b = (s', n)"
  shows "length s' + n * length b = length s"
  using assms fad_loop_length [of b "[]" s s 0]
  by (auto simp: FindAndDelete_def split: if_splits prod.splits)


lemma push_data_prefix:
  assumes "length x < 2 ^ 32" "length y < 2 ^ 32" "push_data [] x @ r = push_data [] y @ q"
  shows "x = y \<and> r = q"
proof -
  have "GetOp2 (push_data [] x @ r) = GetOp2 (push_data [] y @ q)" using assms(3) by (rule arg_cong)
  then show ?thesis
    unfolding GetOp2_push_data_aux [OF assms(1)] GetOp2_push_data_aux [OF assms(2)] by simp
qed

lemma push_data_not_Nil [simp]: "push_data [] x \<noteq> []"
  by (auto simp: push_data_def)

abbreviation pushes :: "valtype list \<Rightarrow> CScript" where
  "pushes xs \<equiv> concat (map (push_data []) xs)"

lemma fad_skip_pushes:
  assumes "length x < 2 ^ 32" "\<forall>y \<in> set xs. length y < 2 ^ 32"
  shows "fad_skip (push_data [] x) (pushes xs) n =
    (pushes (dropWhile (\<lambda>y. y = x) xs), n + length (takeWhile (\<lambda>y. y = x) xs))"
  using assms
proof (induction xs arbitrary: n)
  case Nil
  then show ?case by (subst fad_skip.simps) simp
next
  case (Cons y ys)
  show ?case
  proof (cases "y = x")
    case True
    then show ?thesis using Cons by (subst fad_skip.simps) simp
  next
    case False
    have "take (length (push_data [] x)) (pushes (y # ys)) \<noteq> push_data [] x"
    proof
      assume eq: "take (length (push_data [] x)) (pushes (y # ys)) = push_data [] x"
      have "push_data [] x @ drop (length (push_data [] x)) (pushes (y # ys)) = push_data [] y @ pushes ys"
        using append_take_drop_id [of "length (push_data [] x)" "pushes (y # ys)"]
        unfolding eq by simp
      then show False using push_data_prefix [of x y] Cons.prems False by auto
    qed
    then show ?thesis using False by (subst fad_skip.simps) simp
  qed
qed

lemma fad_loop_pushes:
  assumes "length x < 2 ^ 32" "\<forall>y \<in> set xs. length y < 2 ^ 32"
  shows "fad_loop (push_data [] x) r (p @ pushes xs) (pushes xs) n =
    (r @ p @ pushes (filter (\<lambda>y. y \<noteq> x) xs), [], n + length (filter (\<lambda>y. y = x) xs))"
  using assms
proof (induction "length xs" arbitrary: xs r p n rule: less_induct)
  case less
  let ?t = "takeWhile (\<lambda>y. y = x) xs" and ?d = "dropWhile (\<lambda>y. y = x) xs"
  have sk: "fad_skip (push_data [] x) (pushes xs) n = (pushes ?d, n + length ?t)"
    by (rule fad_skip_pushes [OF less.prems])
  have t: "filter (\<lambda>y. y = x) ?t = ?t" "filter (\<lambda>y. y \<noteq> x) ?t = []"
    by (auto simp: filter_id_conv filter_empty_conv dest: set_takeWhileD)
  have f1: "filter P xs = filter P ?t @ filter P ?d" for P
    by (metis filter_append takeWhile_dropWhile_id)
  show ?case
  proof (cases ?d)
    case Nil
    then show ?thesis using sk f1 t by (subst fad_loop.simps) (simp del: dropWhile_eq_Nil_conv)
  next
    case (Cons y ys)
    have yx: "y \<noteq> x" using Cons hd_dropWhile [of "\<lambda>y. y = x" xs] by auto
    have sub: "set (y # ys) \<subseteq> set xs" using set_dropWhileD [of _ "\<lambda>y. y = x" xs] Cons by auto
    have len: "length ys < length xs"
      using Cons length_dropWhile_le [of "\<lambda>y. y = x" xs] by simp
    have g: "GetOp2 (pushes ?d) = (True, push_opcode_of y, y, pushes ys)"
      using GetOp2_push_data_aux [of y "pushes ys"] sub less.prems(2) Cons by auto
    have "fad_loop (push_data [] x) r (p @ pushes xs) (pushes xs) n =
        fad_loop (push_data [] x) (r @ p) (push_data [] y @ pushes ys) (pushes ys) (n + length ?t)"
      using sk g Cons by (subst fad_loop.simps) simp
    also have "\<dots> = ((r @ p) @ push_data [] y @ pushes (filter (\<lambda>y. y \<noteq> x) ys), [],
        n + length ?t + length (filter (\<lambda>y. y = x) ys))"
      by (rule less.hyps [OF len less.prems(1)]) (use sub less.prems(2) in auto)
    finally show ?thesis using f1 t Cons yx by simp
  qed
qed

lemma FindAndDelete_pushes_aux:
  assumes "length x < 2 ^ 32" "\<forall>y \<in> set xs. length y < 2 ^ 32"
  shows "FindAndDelete (pushes xs) (push_data [] x) =
    (pushes (filter (\<lambda>y. y \<noteq> x) xs), length (filter (\<lambda>y. y = x) xs))"
proof -
  have "filter (\<lambda>y. y \<noteq> x) xs = xs" if "filter (\<lambda>y. y = x) xs = []"
    using that by (auto simp: filter_empty_conv filter_id_conv)
  then show ?thesis
    using fad_loop_pushes [OF assms, of "[]" "[]" 0] by (auto simp: FindAndDelete_def)
qed


section \<open>Properties\<close>

text \<open>
  Reading the instruction that \<open>operator<<\<close> wrote for a byte vector of any size below
  \<open>2 ^ 32\<close> gives back that vector, leaves the iterator exactly behind it, and the opcode
  is a push opcode: \<^verbatim>\<open>GetOp\<close> inverts \<^verbatim>\<open>CScript::operator<<(const std::vector<unsigned char>&)\<close>.
\<close>

theorem GetOp2_push_data:
  assumes "length b < 2 ^ 32"
  shows "\<exists>opcode. opcode \<le> OP_PUSHDATA4 \<and> GetOp2 (push_data [] b @ rest) = (True, opcode, b, rest)"
  using GetOp2_push_data_aux [OF assms] push_opcode_of_le by blast

theorem GetOp2_push_data_witness:
  "\<exists>opcode. opcode \<le> OP_PUSHDATA4 \<and>
     GetOp2 (push_data [] (replicate 80 7) @ [OP_DUP]) = (True, opcode, replicate 80 7, [OP_DUP])"
  by (rule GetOp2_push_data) simp

text \<open>
  \<open>FindAndDelete\<close> on a script of pushes deletes exactly the pushes of the given
  vector, all of them, keeps the others in order, and returns how many it deleted: the
  signature removal that \<open>OP_CHECKSIG\<close> performs on the script code.
\<close>

theorem FindAndDelete_pushes:
  assumes "length x < 2 ^ 32" "\<forall>y \<in> set xs. length y < 2 ^ 32"
  shows "FindAndDelete (pushes xs) (push_data [] x) =
    (pushes (filter (\<lambda>y. y \<noteq> x) xs), count_list xs x)"
proof -
  have "count_list xs x = length (filter (\<lambda>y. y = x) xs)"
    by (induction xs) auto
  then show ?thesis using FindAndDelete_pushes_aux [OF assms] by simp
qed

theorem FindAndDelete_pushes_witness:
  "FindAndDelete (pushes [[1], [2, 3], [1], [4]]) (push_data [] [1]) = (pushes [[2, 3], [4]], 2)"
  using FindAndDelete_pushes [of "[1]" "[[1], [2, 3], [1], [4]]"] by simp

text \<open>
  Every byte \<open>FindAndDelete\<close> drops belongs to an occurrence it counts: the
  result is shorter by the number of deletions times the length of the pattern, for
  every script and pattern, malformed ones included.
\<close>

theorem FindAndDelete_length:
  "length (fst (FindAndDelete s b)) + snd (FindAndDelete s b) * length b = length s"
  using FindAndDelete_length_aux [of s b] by (metis prod.collapse)

text \<open>
  Signature operations: the accurate count never exceeds the inaccurate one, and
  both are at most \<open>MAX_PUBKEYS_PER_MULTISIG\<close> per byte of the script.
\<close>

theorem GetSigOpCount_bounds:
  "GetSigOpCount s True \<le> GetSigOpCount s False \<and>
   GetSigOpCount s False \<le> MAX_PUBKEYS_PER_MULTISIG * length s"
  using sigop_loop_bounds [of s OP_INVALIDOPCODE False]
  by (simp add: GetSigOpCount_def MAX_PUBKEYS_PER_MULTISIG_def)

end
