(* ===== verification/Serialize.thy ===== *)
theory Serialize
  imports Prelude
begin

unbundle bit_operations_syntax

text \<open>
  The serialisation framework of \<^verbatim>\<open>serialize.h\<close>: fixed-width integers, compact sizes, the
  variable-length integers of the chain state, byte vectors, vectors of objects and bit sets.

  A stream being written is the list of its bytes. A stream being read is the list of the
  bytes left in it, and \<open>read\<close> fails with \<open>EndOfData\<close> when it is asked for more than is left,
  as \<^verbatim>\<open>CDataStream::read\<close> does. A thrown \<^verbatim>\<open>std::ios_base::failure\<close> is an \<open>Inl\<close>.

  The contract of a type's pair of \<^verbatim>\<open>Serialize\<close> and \<^verbatim>\<open>Unserialize\<close> is the locale \<open>codec\<close>; the
  stronger \<open>canonical_codec\<close> says that no other byte string is read as the same object.
\<close>

datatype ser_error = EndOfData | NonCanonicalCompactSize | SizeTooLarge | OutOfRangeBits | NoProgress | NegativeIgnore
  | TooManyUndoRecords | SpentCoin

type_synonym bytes = "u8 list"
type_synonym 'a unser = "bytes \<Rightarrow> ser_error + 'a \<times> bytes"

text \<open>Reading one object after another: the first failure is the result.\<close>

definition unser_bind :: "'a unser \<Rightarrow> ('a \<Rightarrow> 'b unser) \<Rightarrow> 'b unser" where
  "unser_bind m f s = (case m s of Inl e \<Rightarrow> Inl e | Inr (x, s) \<Rightarrow> f x s)"

definition unser_return :: "'a \<Rightarrow> 'a unser" where
  "unser_return x s = Inr (x, s)"

lemma unser_bind_Inr:
  "unser_bind m f s = Inr (y, r) \<longleftrightarrow> (\<exists>x s'. m s = Inr (x, s') \<and> f x s' = Inr (y, r))"
  by (auto simp: unser_bind_def split: sum.splits)

lemma unser_return_Inr: "unser_return x s = Inr (y, r) \<longleftrightarrow> y = x \<and> r = s"
  by (auto simp: unser_return_def)

section \<open>Integers\<close>

definition stream_read :: "nat \<Rightarrow> bytes unser" where
  "stream_read n s = (if n \<le> length s then Inr (take n s, drop n s) else Inl EndOfData)"

definition ser_writedata8 :: "u8 \<Rightarrow> bytes" where
  "ser_writedata8 obj = [obj]"

definition ser_writedata16 :: "u16 \<Rightarrow> bytes" where
  "ser_writedata16 obj = le_bytes 2 (unat obj)"

definition ser_writedata32 :: "u32 \<Rightarrow> bytes" where
  "ser_writedata32 obj = le_bytes 4 (unat obj)"

definition ser_writedata64 :: "u64 \<Rightarrow> bytes" where
  "ser_writedata64 obj = le_bytes 8 (unat obj)"

definition read_le :: "nat \<Rightarrow> ('a::len) word unser" where
  "read_le k s =
     (case stream_read k s of Inl e \<Rightarrow> Inl e | Inr (bs, s) \<Rightarrow> Inr (of_nat (le_nat bs), s))"

definition ser_readdata8 :: "u8 unser" where
  "ser_readdata8 s = read_le 1 s"

definition ser_readdata16 :: "u16 unser" where
  "ser_readdata16 s = read_le 2 s"

definition ser_readdata32 :: "u32 unser" where
  "ser_readdata32 s = read_le 4 s"

definition ser_readdata64 :: "u64 unser" where
  "ser_readdata64 s = read_le 8 s"

section \<open>Compact sizes\<close>

definition MAX_SIZE :: u64 where
  "MAX_SIZE = 0x02000000"

definition GetSizeOfCompactSize :: "u64 \<Rightarrow> nat" where
  "GetSizeOfCompactSize nSize =
     (if nSize < 253 then 1 else if nSize \<le> 0xffff then 3 else if nSize \<le> 0xffffffff then 5 else 9)"

definition WriteCompactSize :: "u64 \<Rightarrow> bytes" where
  "WriteCompactSize nSize =
     (if nSize < 253 then ser_writedata8 (ucast nSize)
      else if nSize \<le> 0xffff then ser_writedata8 253 @ ser_writedata16 (ucast nSize)
      else if nSize \<le> 0xffffffff then ser_writedata8 254 @ ser_writedata32 (ucast nSize)
      else ser_writedata8 255 @ ser_writedata64 nSize)"

definition ReadCompactSize :: "u64 unser" where
  "ReadCompactSize is =
     (case ser_readdata8 is of
        Inl e \<Rightarrow> Inl e
      | Inr (chSize, is) \<Rightarrow>
          (case (if chSize < 253 then Inr (ucast chSize, is)
                 else if chSize = 253 then
                   (case ser_readdata16 is of
                      Inl e \<Rightarrow> Inl e
                    | Inr (n, is) \<Rightarrow>
                        if n < 253 then Inl NonCanonicalCompactSize else Inr (ucast n, is))
                 else if chSize = 254 then
                   (case ser_readdata32 is of
                      Inl e \<Rightarrow> Inl e
                    | Inr (n, is) \<Rightarrow>
                        if n < 0x10000 then Inl NonCanonicalCompactSize else Inr (ucast n, is))
                 else
                   (case ser_readdata64 is of
                      Inl e \<Rightarrow> Inl e
                    | Inr (n, is) \<Rightarrow>
                        if n < 0x100000000 then Inl NonCanonicalCompactSize else Inr (n, is))) of
             Inl e \<Rightarrow> Inl e
           | Inr (nSizeRet, is) \<Rightarrow>
               if nSizeRet > MAX_SIZE then Inl SizeTooLarge else Inr (nSizeRet, is)))"

section \<open>Variable-length integers\<close>

text \<open>
  \<open>WriteVarInt\<close> fills \<^verbatim>\<open>tmp\<close> with base-128 digits, least significant first, and writes it
  backwards. The loop is over the unsigned type \<open>'a word\<close> of the argument; no integer type of
  the program is narrower than 8 bits, and the loop does not continue on such a type.
\<close>

lemma unat_0x7F: "7 < LENGTH('a::len) \<Longrightarrow> unat (0x7F :: 'a word) = 127"
proof -
  assume "7 < LENGTH('a)"
  then have "(2 :: nat) ^ 7 < 2 ^ LENGTH('a)" by (intro power_strict_increasing) auto
  then have "(127 :: nat) < 2 ^ LENGTH('a)" by simp
  then show ?thesis by (simp add: unsigned_numeral take_bit_nat_eq_self)
qed

lemma varint_step_less:
  fixes n :: "'a::len word"
  assumes "7 < LENGTH('a)" "\<not> n \<le> 0x7F"
  shows "unat (drop_bit 7 n - 1) < unat n"
proof -
  have "127 < unat n" using assms(2) unat_0x7F [OF assms(1)] by (simp add: word_le_nat_alt)
  then have d: "unat (drop_bit 7 n) = unat n div 128" "1 \<le> unat n div 128" "unat n div 128 < unat n"
    by (simp_all add: unat_drop_bit_eq drop_bit_nat_def)
  then have "drop_bit 7 n \<noteq> 0" by auto
  then have "unat (drop_bit 7 n - 1) = unat (drop_bit 7 n) - 1" by (rule unat_minus_one)
  then show ?thesis using d by simp
qed

function WriteVarInt_loop :: "('a::len) word \<Rightarrow> nat \<Rightarrow> bytes" where
  "WriteVarInt_loop n len =
     (ucast (n AND 0x7F) OR (if len \<noteq> 0 then 0x80 else 0)) #
     (if n \<le> 0x7F \<or> LENGTH('a) \<le> 7 then [] else WriteVarInt_loop (drop_bit 7 n - 1) (Suc len))"
  by pat_completeness auto
termination
  by (relation "measure (\<lambda>(n, len). unat n)") (auto simp: varint_step_less)

declare WriteVarInt_loop.simps [simp del]

definition WriteVarInt :: "('a::len) word \<Rightarrow> bytes" where
  "WriteVarInt n = rev (WriteVarInt_loop n 0)"

fun ReadVarInt_loop :: "('a::len) word \<Rightarrow> bytes \<Rightarrow> ser_error + 'a word \<times> bytes" where
  "ReadVarInt_loop n [] = Inl EndOfData"
| "ReadVarInt_loop n (chData # is) =
     (let n = push_bit 7 n OR ucast (chData AND 0x7F)
      in if chData AND 0x80 \<noteq> 0 then ReadVarInt_loop (n + 1) is else Inr (n, is))"

definition ReadVarInt :: "('a::len) word unser" where
  "ReadVarInt is = ReadVarInt_loop 0 is"

section \<open>Vectors\<close>

text \<open>
  Byte vectors are read in blocks of at most 5000000 bytes, so that a bogus size does not
  allocate memory that the stream cannot fill.
\<close>

definition Serialize_bytes :: "bytes \<Rightarrow> bytes" where
  "Serialize_bytes v = WriteCompactSize (of_nat (length v)) @ v"

function Unserialize_bytes_loop :: "nat \<Rightarrow> bytes \<Rightarrow> bytes unser" where
  "Unserialize_bytes_loop nSize v is =
     (if length v < nSize then
        let blk = min (nSize - length v) (1 + 4999999)
        in case stream_read blk is of
             Inl e \<Rightarrow> Inl e
           | Inr (bs, is) \<Rightarrow> Unserialize_bytes_loop nSize (v @ bs) is
      else Inr (v, is))"
  by pat_completeness auto
termination
  by (relation "measure (\<lambda>(nSize, v, is). nSize - length v)")
     (auto simp: stream_read_def split: if_splits)

declare Unserialize_bytes_loop.simps [simp del]

definition Unserialize_bytes :: "bytes unser" where
  "Unserialize_bytes is =
     (case ReadCompactSize is of
        Inl e \<Rightarrow> Inl e
      | Inr (nSize, is) \<Rightarrow> Unserialize_bytes_loop (unat nSize) [] is)"

text \<open>
  Vectors of objects are read element by element, resized in steps of \<^verbatim>\<open>5000000 / sizeof(T)\<close>.
  The size of the element type is a parameter; if it exceeded 5000000 the outer loop would
  not advance, which is the value \<open>NoProgress\<close>.
\<close>

definition Serialize_vector :: "('a \<Rightarrow> bytes) \<Rightarrow> 'a list \<Rightarrow> bytes" where
  "Serialize_vector ser v = WriteCompactSize (of_nat (length v)) @ concat (map ser v)"

fun Unserialize_elems :: "'a unser \<Rightarrow> nat \<Rightarrow> 'a list unser" where
  "Unserialize_elems unser 0 is = Inr ([], is)"
| "Unserialize_elems unser (Suc k) is =
     (case unser is of
        Inl e \<Rightarrow> Inl e
      | Inr (x, is) \<Rightarrow>
          (case Unserialize_elems unser k is of
             Inl e \<Rightarrow> Inl e
           | Inr (xs, is) \<Rightarrow> Inr (x # xs, is)))"

function Unserialize_vector_loop ::
    "nat \<Rightarrow> 'a unser \<Rightarrow> nat \<Rightarrow> nat \<Rightarrow> 'a list unser" where
  "Unserialize_vector_loop sizeof_T unser nSize nMid is =
     (if nMid < nSize then
        (if 5000000 div sizeof_T = 0 then Inl NoProgress
         else let nMid' = min (nMid + 5000000 div sizeof_T) nSize
              in case Unserialize_elems unser (nMid' - nMid) is of
                   Inl e \<Rightarrow> Inl e
                 | Inr (xs, is) \<Rightarrow>
                     (case Unserialize_vector_loop sizeof_T unser nSize nMid' is of
                        Inl e \<Rightarrow> Inl e
                      | Inr (ys, is) \<Rightarrow> Inr (xs @ ys, is)))
      else Inr ([], is))"
  by pat_completeness auto
termination
  by (relation "measure (\<lambda>(sz, u, nSize, nMid, is). nSize - nMid)") auto

declare Unserialize_vector_loop.simps [simp del]

definition Unserialize_vector :: "nat \<Rightarrow> 'a unser \<Rightarrow> 'a list unser" where
  "Unserialize_vector sizeof_T unser is =
     (case ReadCompactSize is of
        Inl e \<Rightarrow> Inl e
      | Inr (nSize, is) \<Rightarrow> Unserialize_vector_loop sizeof_T unser (unat nSize) 0 is)"

section \<open>Bit sets\<close>

fun fixedbitset_set :: "nat \<Rightarrow> bool list \<Rightarrow> bytes \<Rightarrow> bytes" where
  "fixedbitset_set p [] vBytes = vBytes"
| "fixedbitset_set p (b # vec) vBytes =
     fixedbitset_set (Suc p) vec
       (vBytes[p div 8 := vBytes ! (p div 8) OR push_bit (p mod 8) (if b then 1 else 0)])"

definition CFixedBitSet_Serialize :: "bool list \<Rightarrow> nat \<Rightarrow> bytes" where
  "CFixedBitSet_Serialize vec sz =
     fixedbitset_set 0 (take sz vec) (replicate ((sz + 7) div 8) 0)"

definition CFixedBitSet_Unserialize :: "nat \<Rightarrow> bool list unser" where
  "CFixedBitSet_Unserialize sz s =
     (case stream_read ((sz + 7) div 8) s of
        Inl e \<Rightarrow> Inl e
      | Inr (vBytes, s) \<Rightarrow>
          (let vec = map (\<lambda>p. vBytes ! (p div 8) AND push_bit (p mod 8) 1 \<noteq> 0) [0..<sz];
               rem = length vBytes * 8 - sz;
               m = push_bit rem 0xff :: u8
           in if length vBytes * 8 \<noteq> sz \<and> last vBytes AND m \<noteq> 0
              then Inl OutOfRangeBits else Inr (vec, s)))"

definition CDynamicBitSet_Serialize :: "bool list \<Rightarrow> bytes" where
  "CDynamicBitSet_Serialize vec =
     WriteCompactSize (of_nat (length vec)) @ CFixedBitSet_Serialize vec (length vec)"

definition CDynamicBitSet_Unserialize :: "bool list unser" where
  "CDynamicBitSet_Unserialize s =
     (case ReadCompactSize s of
        Inl e \<Rightarrow> Inl e
      | Inr (n, s) \<Rightarrow> CFixedBitSet_Unserialize (unat n) s)"


section \<open>The contract of a serialisable type\<close>

text \<open>
  \<open>valid\<close> are the objects that can be serialised (for instance, whose vectors are not too
  long). \<open>roundtrip\<close>: reading what was written gives the object back and consumes exactly
  its bytes, whatever follows.
\<close>

locale codec =
  fixes ser :: "'a \<Rightarrow> bytes" and unser :: "'a unser" and valid :: "'a \<Rightarrow> bool"
  assumes roundtrip: "valid x \<Longrightarrow> unser (ser x @ r) = Inr (x, r)"
begin

lemma ser_injective: "valid x \<Longrightarrow> valid y \<Longrightarrow> ser x = ser y \<Longrightarrow> x = y"
  by (metis Inr_inject Pair_inject roundtrip)

lemma ser_prefix_free: "valid x \<Longrightarrow> valid y \<Longrightarrow> ser x @ r = ser y @ q \<Longrightarrow> x = y \<and> r = q"
  by (metis Inr_inject Pair_inject roundtrip)

lemma elems_roundtrip:
  "(\<forall>x \<in> set xs. valid x) \<Longrightarrow> Unserialize_elems unser (length xs) (concat (map ser xs) @ r) = Inr (xs, r)"
  by (induction xs) (simp_all add: roundtrip)

end

locale canonical_codec = codec +
  assumes canonical: "unser bs = Inr (x, r) \<Longrightarrow> bs = ser x @ r \<and> valid x"
begin

lemma unser_iff: "unser bs = Inr (x, r) \<longleftrightarrow> bs = ser x @ r \<and> valid x"
  using canonical [of bs x r] roundtrip [of x r] by blast

lemma elems_canonical:
  "Unserialize_elems unser k bs = Inr (xs, r) \<Longrightarrow>
   length xs = k \<and> bs = concat (map ser xs) @ r \<and> (\<forall>x \<in> set xs. valid x)"
proof (induction k arbitrary: bs xs)
  case 0
  then show ?case by simp
next
  case (Suc k)
  then obtain x s ys where "unser bs = Inr (x, s)" "Unserialize_elems unser k s = Inr (ys, r)" "xs = x # ys"
    by (auto split: sum.splits)
  then show ?case using canonical [of bs x s] Suc.IH [of s ys] by auto
qed

end

section \<open>Integers\<close>

lemma stream_read_append [simp]: "length bs = n \<Longrightarrow> stream_read n (bs @ r) = Inr (bs, r)"
  by (auto simp: stream_read_def)

lemma stream_read_Inr: "stream_read n s = Inr (bs, r) \<longleftrightarrow> length bs = n \<and> s = bs @ r"
  by (auto simp: stream_read_def)

lemma read_le_append:
  assumes "LENGTH('a::len) = 8 * k"
  shows "read_le k (le_bytes k (unat (w :: 'a word)) @ r) = Inr (w, r)"
proof -
  have "unat w < 256 ^ k" using unsigned_less [of w, where 'a = nat] assms by (simp add: power_mult)
  then show ?thesis by (simp add: read_le_def le_nat_le_bytes)
qed

lemma read_le_canonical:
  assumes "LENGTH('a::len) = 8 * k" "read_le k s = Inr (w :: 'a word, r)"
  shows "s = le_bytes k (unat w) @ r"
proof -
  from assms(2) obtain bs where bs: "length bs = k" "s = bs @ r" "w = of_nat (le_nat bs)"
    by (auto simp: read_le_def stream_read_Inr split: sum.splits)
  have "le_nat bs < 2 ^ LENGTH('a)" using le_nat_less [of bs] bs(1) assms(1) by (simp add: power_mult)
  then have "unat w = le_nat bs" using bs(3) by (simp add: unat_of_nat take_bit_nat_eq_self)
  then show ?thesis using bs le_bytes_le_nat [of bs] by simp
qed

lemmas ser_ints = ser_writedata16_def ser_writedata32_def ser_writedata64_def
  ser_readdata8_def ser_readdata16_def ser_readdata32_def ser_readdata64_def

lemma ser_writedata8_le: "ser_writedata8 w = le_bytes 1 (unat w)"
  by (simp add: ser_writedata8_def unat_u8_lt)

interpretation ser8: canonical_codec ser_writedata8 ser_readdata8 "\<lambda>_. True"
  unfolding ser_writedata8_le ser_readdata8_def
  by unfold_locales (use read_le_append [where 'a = 8 and k = 1] read_le_canonical [where 'a = 8 and k = 1] in auto)

interpretation ser16: canonical_codec ser_writedata16 ser_readdata16 "\<lambda>_. True"
  unfolding ser_writedata16_def ser_readdata16_def
  by unfold_locales (use read_le_append [where 'a = 16 and k = 2] read_le_canonical [where 'a = 16 and k = 2] in auto)

interpretation ser32: canonical_codec ser_writedata32 ser_readdata32 "\<lambda>_. True"
  unfolding ser_writedata32_def ser_readdata32_def
  by unfold_locales (use read_le_append [where 'a = 32 and k = 4] read_le_canonical [where 'a = 32 and k = 4] in auto)

interpretation ser64: canonical_codec ser_writedata64 ser_readdata64 "\<lambda>_. True"
  unfolding ser_writedata64_def ser_readdata64_def
  by unfold_locales (use read_le_append [where 'a = 64 and k = 8] read_le_canonical [where 'a = 64 and k = 8] in auto)

lemmas ser_int_roundtrips [simp] = ser8.roundtrip ser16.roundtrip ser32.roundtrip ser64.roundtrip

end
