(* ===== verification/Serialize_Codecs.thy ===== *)
theory Serialize_Codecs
  imports Serialize
begin

unbundle bit_operations_syntax

text \<open>
  The codecs of \<^verbatim>\<open>serialize.h\<close>: compact sizes, byte vectors and vectors of any canonical codec are
  canonical codecs, variable-length integers are codecs, and what the bit-set reader accepts.
\<close>

section \<open>Compact sizes\<close>

lemma ReadCompactSize_roundtrip:
  assumes "n \<le> MAX_SIZE"
  shows "ReadCompactSize (WriteCompactSize n @ r) = Inr (n, r)"
proof -
  have max: "unat n \<le> 33554432" using assms by (simp add: MAX_SIZE_def word_le_nat_alt)
  consider "unat n < 253" | "253 \<le> unat n" "unat n \<le> 65535" | "65536 \<le> unat n"
    by linarith
  then show ?thesis
  proof cases
    case 1
    then have "unat (ucast n :: u8) = unat n" "ucast (ucast n :: u8) = n"
      by (simp_all add: unat_ucast_small ucast_up_down)
    then show ?thesis using 1 assms
      by (simp add: WriteCompactSize_def ReadCompactSize_def word_less_nat_alt word_le_nat_alt)
  next
    case 2
    then have "unat (ucast n :: u16) = unat n" "ucast (ucast n :: u16) = n"
      by (simp_all add: unat_ucast_small ucast_up_down)
    then show ?thesis using 2 assms
      by (simp add: WriteCompactSize_def ReadCompactSize_def word_less_nat_alt word_le_nat_alt)
  next
    case 3
    then have "unat (ucast n :: u32) = unat n" "ucast (ucast n :: u32) = n"
      using max by (simp_all add: unat_ucast_small ucast_up_down)
    then show ?thesis using 3 assms max
      by (simp add: WriteCompactSize_def ReadCompactSize_def word_less_nat_alt word_le_nat_alt)
  qed
qed

lemma ReadCompactSize_canonical:
  assumes "ReadCompactSize bs = Inr (n, r)"
  shows "bs = WriteCompactSize n @ r \<and> n \<le> MAX_SIZE"
proof -
  from assms obtain ch s where ch: "ser_readdata8 bs = Inr (ch, s)"
    by (auto simp: ReadCompactSize_def split: sum.splits)
  have bs: "bs = ser_writedata8 ch @ s" using ser8.canonical [OF ch] by simp
  consider "ch < 253" | "ch = 253" | "ch = 254" | "\<not> ch < 253" "ch \<noteq> 253" "ch \<noteq> 254" by blast
  then show ?thesis
  proof cases
    case 1
    then have n: "n = ucast ch" "s = r" "n \<le> MAX_SIZE"
      using assms ch by (auto simp: ReadCompactSize_def split: if_splits)
    then have "unat n = unat ch" by (simp add: unat_ucast_le)
    then have "n < 253" using 1 by (simp add: word_less_nat_alt)
    then show ?thesis using bs n by (simp add: WriteCompactSize_def ucast_down_up)
  next
    case 2
    then obtain m where m: "ser_readdata16 s = Inr (m, r)" "\<not> m < 253" "n = ucast m" "n \<le> MAX_SIZE"
      using assms ch by (auto simp: ReadCompactSize_def split: if_splits sum.splits)
    have u: "unat n = unat m" using m by (simp add: unat_ucast_le)
    have "unat m < 65536" using unsigned_less [of m, where 'a = nat] by simp
    then have "\<not> n < 253" "n \<le> 0xffff" using u m(2) by (simp_all add: word_less_nat_alt word_le_nat_alt)
    then show ?thesis using bs m ser16.canonical [OF m(1)] 2 by (simp add: WriteCompactSize_def ucast_down_up)
  next
    case 3
    then obtain m where m: "ser_readdata32 s = Inr (m, r)" "\<not> m < 0x10000" "n = ucast m" "n \<le> MAX_SIZE"
      using assms ch by (auto simp: ReadCompactSize_def split: if_splits sum.splits)
    have u: "unat n = unat m" using m by (simp add: unat_ucast_le)
    have "unat m < 4294967296" using unsigned_less [of m, where 'a = nat] by simp
    then have "\<not> n < 253" "\<not> n \<le> 0xffff" "n \<le> 0xffffffff" using u m(2) by (simp_all add: word_less_nat_alt word_le_nat_alt)
    then show ?thesis using bs m ser32.canonical [OF m(1)] 3 by (simp add: WriteCompactSize_def ucast_down_up)
  next
    case 4
    then obtain m where m: "\<not> m < 0x100000000" "n = m" "n \<le> MAX_SIZE"
      using assms ch by (auto simp: ReadCompactSize_def split: if_splits sum.splits)
    then show ?thesis by (simp add: MAX_SIZE_def word_less_nat_alt word_le_nat_alt)
  qed
qed

interpretation compact_size: canonical_codec WriteCompactSize ReadCompactSize "\<lambda>n. n \<le> MAX_SIZE"
  by unfold_locales (auto simp: ReadCompactSize_roundtrip dest: ReadCompactSize_canonical)

lemma length_ser_ints [simp]:
  "length (ser_writedata8 a) = 1" "length (ser_writedata16 b) = 2" "length (ser_writedata32 c) = 4"
  "length (ser_writedata64 d) = 8"
  by (simp_all add: ser_writedata8_def ser_writedata16_def ser_writedata32_def ser_writedata64_def)

lemma length_WriteCompactSize: "length (WriteCompactSize n) = GetSizeOfCompactSize n"
  by (simp add: WriteCompactSize_def GetSizeOfCompactSize_def ser_writedata8_def
    ser_writedata16_def ser_writedata32_def ser_writedata64_def)

section \<open>Vectors\<close>

definition vec_ok :: "'a list \<Rightarrow> bool" where
  "vec_ok v \<longleftrightarrow> length v \<le> 0x02000000"

lemma vec_ok_size:
  assumes "vec_ok v"
  shows "(of_nat (length v) :: u64) \<le> MAX_SIZE" "unat (of_nat (length v) :: u64) = length v"
proof -
  show u: "unat (of_nat (length v) :: u64) = length v"
    using assms by (simp add: vec_ok_def unat_of_nat)
  show "(of_nat (length v) :: u64) \<le> MAX_SIZE"
    using assms by (simp add: word_le_nat_alt MAX_SIZE_def u vec_ok_def)
qed

lemma MAX_SIZE_nat: "n \<le> MAX_SIZE \<longleftrightarrow> unat n \<le> 0x02000000"
  by (simp add: word_le_nat_alt MAX_SIZE_def)

lemma stream_read_add:
  "stream_read (a + b) s =
     (case stream_read a s of
        Inl e \<Rightarrow> Inl e
      | Inr (x, s) \<Rightarrow> (case stream_read b s of Inl e \<Rightarrow> Inl e | Inr (y, s) \<Rightarrow> Inr (x @ y, s)))"
  by (auto simp: stream_read_def take_add add.commute)

lemma Unserialize_bytes_loop_eq:
  "length v \<le> nSize \<Longrightarrow> Unserialize_bytes_loop nSize v s =
     (case stream_read (nSize - length v) s of Inl e \<Rightarrow> Inl e | Inr (bs, s') \<Rightarrow> Inr (v @ bs, s'))"
proof (induction nSize v s rule: Unserialize_bytes_loop.induct)
  case (1 nSize v s)
  show ?case
  proof (cases "length v < nSize")
    case False
    then show ?thesis using 1 by (subst Unserialize_bytes_loop.simps) (simp add: stream_read_def)
  next
    case True
    define blk where "blk = min (nSize - length v) (1 + 4999999)"
    have blk: "blk \<le> nSize - length v" "nSize - length v = blk + (nSize - (length v + blk))"
      using True by (auto simp: blk_def)
    have step: "Unserialize_bytes_loop nSize v s =
      (case stream_read blk s of Inl e \<Rightarrow> Inl e | Inr (bs, s) \<Rightarrow> Unserialize_bytes_loop nSize (v @ bs) s)"
      using True unfolding blk_def by (subst Unserialize_bytes_loop.simps) (simp add: Let_def)
    have IH: "Unserialize_bytes_loop nSize (v @ bs) s' =
      (case stream_read (nSize - (length v + blk)) s' of Inl e \<Rightarrow> Inl e | Inr (cs, s') \<Rightarrow> Inr ((v @ bs) @ cs, s'))"
      if r: "stream_read blk s = Inr (bs, s')" for bs s'
      using "1.IH" [OF True blk_def r refl] r blk(1) True by (simp add: stream_read_Inr)
    show ?thesis unfolding step blk(2) stream_read_add
      by (auto simp: IH split: sum.splits)
  qed
qed

lemma Unserialize_bytes_eq:
  "Unserialize_bytes s =
     (case ReadCompactSize s of Inl e \<Rightarrow> Inl e | Inr (n, s) \<Rightarrow> stream_read (unat n) s)"
  by (auto simp: Unserialize_bytes_def Unserialize_bytes_loop_eq split: sum.splits)

interpretation ser_bytes: canonical_codec Serialize_bytes Unserialize_bytes vec_ok
proof
  fix v :: bytes and r
  assume "vec_ok v"
  then show "Unserialize_bytes (Serialize_bytes v @ r) = Inr (v, r)"
    using vec_ok_size [of v]
    by (simp add: Unserialize_bytes_eq Serialize_bytes_def compact_size.roundtrip)
next
  fix bs v :: bytes and r
  assume "Unserialize_bytes bs = Inr (v, r)"
  then obtain n s where n: "ReadCompactSize bs = Inr (n, s)" "length v = unat n" "s = v @ r"
    by (auto simp: Unserialize_bytes_eq stream_read_Inr split: sum.splits)
  then show "bs = Serialize_bytes v @ r \<and> vec_ok v"
    using compact_size.canonical [OF n(1)] by (simp add: Serialize_bytes_def vec_ok_def MAX_SIZE_nat)
qed

text \<open>The resizing steps of the vector reader do not change what it reads.\<close>

lemma Unserialize_elems_add:
  "Unserialize_elems u (a + b) s =
     (case Unserialize_elems u a s of
        Inl e \<Rightarrow> Inl e
      | Inr (xs, s) \<Rightarrow> (case Unserialize_elems u b s of Inl e \<Rightarrow> Inl e | Inr (ys, s) \<Rightarrow> Inr (xs @ ys, s)))"
proof (induction a arbitrary: s)
  case 0
  then show ?case by (auto split: sum.splits)
next
  case (Suc a)
  then show ?case by (auto split: sum.splits)
qed

lemma Unserialize_vector_loop_eq:
  assumes "0 < 5000000 div sizeof_T"
  shows "Unserialize_vector_loop sizeof_T u nSize nMid s = Unserialize_elems u (nSize - nMid) s"
proof (induction "nSize - nMid" arbitrary: nMid s rule: less_induct)
  case less
  show ?case
  proof (cases "nMid < nSize")
    case False
    then show ?thesis by (subst Unserialize_vector_loop.simps) simp
  next
    case True
    define m where "m = min (nMid + 5000000 div sizeof_T) nSize"
    have m: "nMid < m" "m \<le> nSize" "nSize - nMid = (m - nMid) + (nSize - m)" using True assms by (auto simp: m_def)
    then have IH: "Unserialize_vector_loop sizeof_T u nSize m s = Unserialize_elems u (nSize - m) s" for s
      using less True by simp
    have "Unserialize_vector_loop sizeof_T u nSize nMid s =
      (case Unserialize_elems u (m - nMid) s of
         Inl e \<Rightarrow> Inl e
       | Inr (xs, s) \<Rightarrow> (case Unserialize_vector_loop sizeof_T u nSize m s of
           Inl e \<Rightarrow> Inl e | Inr (ys, s) \<Rightarrow> Inr (xs @ ys, s)))"
      using True assms unfolding m_def by (subst Unserialize_vector_loop.simps) (simp add: Let_def)
    then show ?thesis unfolding IH m(3) Unserialize_elems_add .
  qed
qed

lemma vector_roundtrip:
  assumes "codec ser unser valid" "0 < 5000000 div sizeof_T" "vec_ok v" "\<forall>x \<in> set v. valid x"
  shows "Unserialize_vector sizeof_T unser (Serialize_vector ser v @ r) = Inr (v, r)"
  using vec_ok_size [OF assms(3)] codec.elems_roundtrip [OF assms(1,4), of r]
  by (simp add: Unserialize_vector_def Unserialize_vector_loop_eq [OF assms(2)] Serialize_vector_def compact_size.roundtrip)

lemma vector_codec:
  fixes ser :: "'a \<Rightarrow> bytes"
  assumes "canonical_codec ser unser valid" "0 < 5000000 div sizeof_T"
  shows "canonical_codec (Serialize_vector ser) (Unserialize_vector sizeof_T unser)
    (\<lambda>v. vec_ok v \<and> (\<forall>x \<in> set v. valid x))"
proof -
  note eq = Unserialize_vector_def Unserialize_vector_loop_eq [OF assms(2)]
  show ?thesis
  proof
    fix v :: "'a list" and r
    assume "vec_ok v \<and> (\<forall>x \<in> set v. valid x)"
    then show "Unserialize_vector sizeof_T unser (Serialize_vector ser v @ r) = Inr (v, r)"
      using vector_roundtrip [OF canonical_codec.axioms(1) [OF assms(1)] assms(2)] by blast
  next
    fix bs r and v :: "'a list"
    assume "Unserialize_vector sizeof_T unser bs = Inr (v, r)"
    then obtain n s where n: "ReadCompactSize bs = Inr (n, s)" "Unserialize_elems unser (unat n) s = Inr (v, r)"
      by (auto simp: eq split: sum.splits)
    then show "bs = Serialize_vector ser v @ r \<and> (vec_ok v \<and> (\<forall>x \<in> set v. valid x))"
      using compact_size.canonical [OF n(1)] canonical_codec.elems_canonical [OF assms(1) n(2)]
      by (auto simp: Serialize_vector_def vec_ok_def MAX_SIZE_nat)
  qed
qed

section \<open>Variable-length integers\<close>

lemma bit_0x7F: "bit (0x7F :: 'a::len word) k \<longleftrightarrow> k < 7 \<and> k < LENGTH('a)"
  using bit_mask_iff [of 7 k, where 'a = "'a word"] by (auto simp: mask_eq_exp_minus_1)

lemma bit_0x7F_int: "bit (0x7F :: int) k \<longleftrightarrow> k < 7"
  using bit_mask_iff [of 7 k, where 'a = int] by (auto simp: mask_eq_exp_minus_1)

lemma bit_0x80_int: "bit (0x80 :: int) k \<longleftrightarrow> k = 7"
  using bit_exp_iff [of 7 k, where 'a = int] by auto

lemma bit_0x80: "bit (0x80 :: u8) k \<longleftrightarrow> k = 7"
  using bit_exp_iff [of 7 k, where 'a = u8] by auto

lemma varint_digit:
  fixes n :: "'a::len word"
  assumes "7 < LENGTH('a)"
  shows "ucast ((ucast (n AND 0x7F) :: u8) AND 0x7F) = n AND 0x7F"
    and "(ucast (n AND 0x7F) :: u8) AND 0x80 = 0"
    and "ucast (((ucast (n AND 0x7F) :: u8) OR 0x80) AND 0x7F) = n AND 0x7F"
    and "((ucast (n AND 0x7F) :: u8) OR 0x80) AND 0x80 \<noteq> 0"
proof -
  show "ucast ((ucast (n AND 0x7F) :: u8) AND 0x7F) = n AND 0x7F"
    by (rule bit_word_eqI) (auto simp: bit_simps bit_0x7F bit_0x7F_int)
  show "(ucast (n AND 0x7F) :: u8) AND 0x80 = 0"
    by (rule bit_word_eqI) (auto simp: bit_simps bit_0x7F bit_0x7F_int bit_0x80_int)
  show "ucast (((ucast (n AND 0x7F) :: u8) OR 0x80) AND 0x7F) = n AND 0x7F"
    by (rule bit_word_eqI) (auto simp: bit_simps bit_0x7F bit_0x7F_int bit_0x80_int)
  have "bit (((ucast (n AND 0x7F) :: u8) OR 0x80) AND 0x80) 7"
    by (simp add: bit_simps bit_0x80)
  then show "((ucast (n AND 0x7F) :: u8) OR 0x80) AND 0x80 \<noteq> 0" by force
qed

lemma varint_join: "push_bit 7 (drop_bit 7 n) OR (n AND 0x7F) = (n :: 'a::len word)"
  by (rule bit_word_eqI) (auto simp: bit_simps bit_0x7F bit_0x7F_int)

lemma le_0x7F_and: "7 < LENGTH('a) \<Longrightarrow> (n :: 'a::len word) \<le> 0x7F \<Longrightarrow> n AND 0x7F = n"
proof -
  assume "7 < LENGTH('a)" "n \<le> 0x7F"
  then have "unat n \<le> 127" unfolding word_le_nat_alt by (simp only: unat_0x7F)
  then have "take_bit 7 n = n" by (simp add: word_unat_eq_iff unsigned_take_bit_eq take_bit_nat_eq_self)
  then show ?thesis by (simp add: take_bit_eq_mask mask_eq_exp_minus_1)
qed

lemma ReadVarInt_loop_write:
  fixes n :: "'a::len word"
  assumes "7 < LENGTH('a)"
  shows "ReadVarInt_loop 0 (rev (WriteVarInt_loop n len) @ r) =
    (if len = 0 then Inr (n, r) else ReadVarInt_loop (n + 1) r)"
proof (induction n len arbitrary: r rule: WriteVarInt_loop.induct)
  case (1 n len)
  note d = varint_digit [OF assms, of n]
  show ?case
  proof (cases "n \<le> 0x7F")
    case True
    then show ?thesis using d le_0x7F_and [OF assms True]
      by (subst WriteVarInt_loop.simps) simp
  next
    case False
    then have "ReadVarInt_loop 0 (rev (WriteVarInt_loop (drop_bit 7 n - 1) (Suc len)) @ q) =
        ReadVarInt_loop (drop_bit 7 n) q" for q
      using 1 assms by simp
    then show ?thesis using False assms d varint_join [of n]
      by (subst WriteVarInt_loop.simps) simp
  qed
qed

lemma ReadVarInt_roundtrip:
  "7 < LENGTH('a) \<Longrightarrow> ReadVarInt (WriteVarInt (n :: 'a::len word) @ r) = Inr (n, r)"
  by (simp add: ReadVarInt_def WriteVarInt_def ReadVarInt_loop_write)

interpretation varint32: codec "WriteVarInt :: u32 \<Rightarrow> bytes" ReadVarInt "\<lambda>_. True"
  by unfold_locales (simp add: ReadVarInt_roundtrip)

interpretation varint64: codec "WriteVarInt :: u64 \<Rightarrow> bytes" ReadVarInt "\<lambda>_. True"
  by unfold_locales (simp add: ReadVarInt_roundtrip)


section \<open>Bit sets\<close>

lemma length_fixedbitset_set [simp]: "length (fixedbitset_set p vec B) = length B"
  by (induction p vec B rule: fixedbitset_set.induct) auto

lemma bit_flag_u8: "bit (push_bit k (if b then 1 else 0) :: u8) j \<longleftrightarrow> b \<and> j = k \<and> k < 8"
  by (auto simp: bit_push_bit_iff bit_1_iff)

lemma bit_fixedbitset_set:
  assumes "j < 8" "p + length vec \<le> 8 * length B" "i < length B"
  shows "bit (fixedbitset_set p vec B ! i) j \<longleftrightarrow>
    bit (B ! i) j \<or> p \<le> 8 * i + j \<and> 8 * i + j < p + length vec \<and> vec ! (8 * i + j - p)"
  using assms(2-)
proof (induction p vec B rule: fixedbitset_set.induct)
  case (1 p B)
  then show ?case by auto
next
  case (2 p b vec B)
  let ?B = "B[p div 8 := B ! (p div 8) OR push_bit (p mod 8) (if b then 1 else 0)]"
  have idx: "p div 8 < length B" using "2.prems" by simp
  have pos: "p = 8 * i + j \<longleftrightarrow> p div 8 = i \<and> p mod 8 = j" using assms(1) by auto
  have B: "bit (?B ! i) j \<longleftrightarrow> bit (B ! i) j \<or> b \<and> p = 8 * i + j"
    using idx "2.prems" assms(1) by (auto simp: nth_list_update bit_or_iff bit_flag_u8 pos)
  have "bit (fixedbitset_set (Suc p) vec ?B ! i) j \<longleftrightarrow>
    bit (?B ! i) j \<or> Suc p \<le> 8 * i + j \<and> 8 * i + j < Suc p + length vec \<and> vec ! (8 * i + j - Suc p)"
    using 2 by simp
  then show ?case unfolding fixedbitset_set.simps B
    by (cases "8 * i + j = p") (auto simp: nth_Cons' Suc_le_eq)
qed

lemma and_2p_u8: "j < 8 \<Longrightarrow> (w :: u8) AND 2 ^ j = 0 \<longleftrightarrow> \<not> bit w j"
  using bit_iff_and_push_bit_not_eq_0 [of w j] by simp

lemma bytes_rem:
  "((sz :: nat) + 7) div 8 = (if sz mod 8 = 0 then sz div 8 else Suc (sz div 8))"
proof -
  have "(r + 7) div 8 = (if r = 0 then 0 else 1)" if "r < 8" for r :: nat
    using that by (cases "r = 0") (auto intro: div_nat_eqI)
  moreover have "(sz + 7) div 8 = (8 * (sz div 8) + (sz mod 8 + 7)) div 8" by simp
  then have "(sz + 7) div 8 = sz div 8 + (sz mod 8 + 7) div 8" by (simp only: div_mult_self4 mult.commute)
  ultimately show ?thesis by simp
qed

lemma bytes_for_bits: "(sz :: nat) \<le> 8 * ((sz + 7) div 8)" "p < sz \<Longrightarrow> p div 8 < (sz + 7) div 8"
proof -
  have "8 * ((sz + 7) div 8) + (sz + 7) mod 8 = sz + 7" by simp
  moreover have "(sz + 7) mod 8 < 8" by simp
  ultimately show "sz \<le> 8 * ((sz + 7) div 8)" by linarith
  assume "p < sz"
  then have "(p + 8) div 8 \<le> (sz + 7) div 8" by (intro div_le_mono) simp
  then show "p div 8 < (sz + 7) div 8" by simp
qed

lemma bit_fixedbitset_Serialize:
  assumes "length vec = sz" "p < sz"
  shows "bit (CFixedBitSet_Serialize vec sz ! (p div 8)) (p mod 8) \<longleftrightarrow> vec ! p"
  using bit_fixedbitset_set [of "p mod 8" 0 vec "replicate ((sz + 7) div 8) 0" "p div 8"] assms
    bytes_for_bits [of sz] bytes_for_bits(2) [of p sz]
  by (simp add: CFixedBitSet_Serialize_def)

lemma last_fixedbitset_mask:
  assumes "length vec = sz" "sz mod 8 \<noteq> 0"
  shows "last (CFixedBitSet_Serialize vec sz) AND push_bit (8 - sz mod 8) 0xff \<noteq> 0 \<longleftrightarrow>
    (\<exists>p < sz. 8 * (sz div 8) + (8 - sz mod 8) \<le> p \<and> vec ! p)"
proof -
  let ?s = "CFixedBitSet_Serialize vec sz" and ?k = "sz div 8"
  have szk: "sz = 8 * ?k + sz mod 8" by simp
  have len: "length ?s = Suc ?k" using assms(2) by (simp add: CFixedBitSet_Serialize_def bytes_rem)
  then have last: "last ?s = ?s ! ?k" by (metis diff_Suc_1 last_conv_nth list.size(3) nat.simps(3))
  have ff: "bit (push_bit m 0xff :: u8) j \<longleftrightarrow> m \<le> j \<and> j < 8" for m j
    using bit_mask_iff [of 8 "j - m", where 'a = u8] by (auto simp: bit_push_bit_iff mask_eq_exp_minus_1)
  have bits: "bit (?s ! ?k) j \<longleftrightarrow> 8 * ?k + j < sz \<and> vec ! (8 * ?k + j)" if "j < 8" for j
    using bit_fixedbitset_set [OF that, of 0 vec "replicate ((sz + 7) div 8) 0" ?k] assms len
      bytes_for_bits(1) [of sz]
    by (simp add: CFixedBitSet_Serialize_def)
  have "last ?s AND push_bit (8 - sz mod 8) 0xff \<noteq> 0 \<longleftrightarrow>
      (\<exists>j < 8. 8 - sz mod 8 \<le> j \<and> 8 * ?k + j < sz \<and> vec ! (8 * ?k + j))"
    unfolding last by (auto simp: bit_eq_iff bit_and_iff ff bits)
  also have "\<dots> \<longleftrightarrow> (\<exists>p < sz. 8 * ?k + (8 - sz mod 8) \<le> p \<and> vec ! p)" (is "?l \<longleftrightarrow> ?r")
  proof
    assume ?r
    then obtain p where "p < sz" "8 * ?k + (8 - sz mod 8) \<le> p" "vec ! p" by blast
    moreover have "sz < 8 * ?k + 8" using szk mod_less_divisor [of 8 sz] by linarith
    ultimately show ?l by (intro exI [of _ "p - 8 * ?k"]) auto
  qed auto
  finally show ?thesis .
qed

lemma CFixedBitSet_roundtrip_aux:
  assumes "length vec = sz"
  shows "CFixedBitSet_Unserialize sz (CFixedBitSet_Serialize vec sz @ r) =
    (if sz mod 8 \<noteq> 0 \<and> (\<exists>p < sz. 8 * (sz div 8) + (8 - sz mod 8) \<le> p \<and> vec ! p)
     then Inl OutOfRangeBits else Inr (vec, r))"
proof -
  let ?s = "CFixedBitSet_Serialize vec sz"
  have len: "length ?s = (sz + 7) div 8" by (simp add: CFixedBitSet_Serialize_def)
  have vec: "map (\<lambda>p. ?s ! (p div 8) AND push_bit (p mod 8) 1 \<noteq> 0) [0..<sz] = vec"
    using assms by (intro nth_equalityI) (auto simp: and_2p_u8 bit_fixedbitset_Serialize)
  have rem: "(sz + 7) div 8 * 8 - sz = 8 - sz mod 8" "(sz + 7) div 8 * 8 \<noteq> sz" if "sz mod 8 \<noteq> 0"
  proof -
    have "(sz + 7) div 8 = Suc (sz div 8)" using that by (simp add: bytes_rem)
    then have q: "(sz + 7) div 8 * 8 = sz div 8 * 8 + 8" by simp
    have sz: "sz = sz div 8 * 8 + sz mod 8" "sz mod 8 < 8" by simp_all
    show "(sz + 7) div 8 * 8 - sz = 8 - sz mod 8" "(sz + 7) div 8 * 8 \<noteq> sz"
      unfolding q using sz by linarith+
  qed
  have rem0: "(sz + 7) div 8 * 8 = sz" if "sz mod 8 = 0"
  proof -
    have "(sz + 7) div 8 = sz div 8" using that by (simp add: bytes_rem)
    then show ?thesis using that by simp
  qed
  show ?thesis
    unfolding CFixedBitSet_Unserialize_def stream_read_append [OF len]
    using last_fixedbitset_mask [OF assms] len rem rem0 vec by (cases "sz mod 8 = 0") (auto simp: Let_def)
qed


section \<open>Properties\<close>

text \<open>
  \<open>ReadCompactSize\<close> accepts exactly the shortest encodings of the sizes up to
  \<open>MAX_SIZE\<close>, the ones \<open>WriteCompactSize\<close> writes, and consumes exactly that encoding.
\<close>

theorem ReadCompactSize_iff:
  "ReadCompactSize bs = Inr (n, r) \<longleftrightarrow> bs = WriteCompactSize n @ r \<and> n \<le> MAX_SIZE"
  using compact_size.canonical [of bs n r] compact_size.roundtrip [of n r] by blast

text \<open>
  Variable-length integers: \<open>ReadVarInt\<close> reads back what \<open>WriteVarInt\<close> wrote, for every
  32-bit and every 64-bit value, without reading past it.
\<close>

theorem VarInt_roundtrip:
  "ReadVarInt (WriteVarInt (n :: u32) @ r) = Inr (n, r) \<and> ReadVarInt (WriteVarInt (m :: u64) @ r) = Inr (m, r)"
  using varint32.roundtrip varint64.roundtrip by simp

text \<open>
  The reader does not check for overflow, so encodings are not unique: the five bytes below
  (the encoding of \<open>2 ^ 32\<close>) are read as the 32-bit number 0, whose encoding is the single byte 0.
\<close>

theorem ReadVarInt_not_canonical:
  "ReadVarInt [0x8e, 0xfe, 0xfe, 0xff, 0x00] = Inr (0 :: u32, []) \<and> WriteVarInt (0 :: u32) = [0x00]"
proof
  show "ReadVarInt [0x8e, 0xfe, 0xfe, 0xff, 0x00] = Inr (0 :: u32, [])"
    by (simp add: ReadVarInt_def)
  show "WriteVarInt (0 :: u32) = [0x00]"
    by (simp add: WriteVarInt_def WriteVarInt_loop.simps)
qed

text \<open>
  (C4) A bit set whose size is not a multiple of 8 does not always survive: the reader masks
  the last byte with \<^verbatim>\<open>0xff << rem\<close>, where \<open>rem\<close> is the number of padding bits, instead of
  \<^verbatim>\<open>0xff << (8 - rem)\<close>. It reads back every bit set except those with a bit set at or above
  position \<open>rem\<close> of the last byte, which it rejects with \<open>OutOfRangeBits\<close>.
\<close>

theorem CFixedBitSet_roundtrip:
  "CFixedBitSet_Unserialize (length vec) (CFixedBitSet_Serialize vec (length vec) @ r) =
    (if length vec mod 8 \<noteq> 0 \<and>
        (\<exists>p < length vec. 8 * (length vec div 8) + (8 - length vec mod 8) \<le> p \<and> vec ! p)
     then Inl OutOfRangeBits else Inr (vec, r))"
  by (rule CFixedBitSet_roundtrip_aux) simp

text \<open>
  A seven-member bit set with its second member set is written and then rejected, and
  padding bits below the mask are accepted.
\<close>

theorem CFixedBitSet_rejects_valid:
  "CFixedBitSet_Unserialize 7 (CFixedBitSet_Serialize [False, True, False, False, False, False, False] 7)
     = Inl OutOfRangeBits \<and>
   CFixedBitSet_Unserialize 1 [0x02] = Inr ([False], [])"
  by code_simp

end
