(* ===== verification/Transaction.thy ===== *)
theory Transaction
  imports Script_Num Script_Scan Serialize_Codecs "HOL-Library.Signed_Division" "HOL-Library.List_Lexorder"
begin

unbundle bit_operations_syntax

text \<open>
  Amounts (\<^verbatim>\<open>amount.h\<close>, \<^verbatim>\<open>amount.cpp\<close>) and transactions (\<^verbatim>\<open>primitives/transaction.h\<close>,
  \<^verbatim>\<open>primitives/transaction.cpp\<close>): outpoints with their ordering, inputs, outputs, the
  transaction record, its wire format and the sums and sizes computed from it.

  Amounts are integers; \<open>MoneyRange\<close> keeps every amount the consensus code accepts far inside
  64 bits. The 16-bit version and type fields keep their width because the wire format packs
  them into one 32-bit word. The cached transaction hash is the hash of the serialisation and
  is a function argument wherever it is used.
\<close>

section \<open>Amounts\<close>

type_synonym CAmount = int

definition COIN :: CAmount where
  "COIN = 100000000"

definition CENT :: CAmount where
  "CENT = 1000000"

definition MAX_MONEY :: CAmount where
  "MAX_MONEY = 100000000 * COIN"

definition MoneyRange :: "CAmount \<Rightarrow> bool" where
  "MoneyRange nValue \<longleftrightarrow> nValue \<ge> 0 \<and> nValue \<le> MAX_MONEY"

record CFeeRate =
  nSatoshisPerK :: CAmount

definition CFeeRate_paid :: "CAmount \<Rightarrow> nat \<Rightarrow> CFeeRate" where
  "CFeeRate_paid nFeePaid nBytes =
     \<lparr> nSatoshisPerK = (if nBytes > 0 then (nFeePaid * 1000) sdiv int nBytes else 0) \<rparr>"

definition GetFee :: "CFeeRate \<Rightarrow> nat \<Rightarrow> CAmount" where
  "GetFee rate nBytes =
     (let nFee = (nSatoshisPerK rate * int nBytes) sdiv 1000
      in if nFee = 0 \<and> nBytes \<noteq> 0
         then (if nSatoshisPerK rate > 0 then 1 else if nSatoshisPerK rate < 0 then -1 else nFee)
         else nFee)"

definition GetFeePerK :: "CFeeRate \<Rightarrow> CAmount" where
  "GetFeePerK rate = GetFee rate 1000"

section \<open>Outpoints\<close>

datatype COutPoint = COutPoint (op_hash: uint256) (op_n: u32)

definition COutPoint_null :: COutPoint where
  "COutPoint_null = COutPoint 0 (-1)"

definition COutPoint_IsNull :: "COutPoint \<Rightarrow> bool" where
  "COutPoint_IsNull p \<longleftrightarrow> op_hash p = 0 \<and> op_n p = -1"

text \<open>
  \<^verbatim>\<open>uint256::Compare\<close> is \<^verbatim>\<open>memcmp\<close> on the 32 stored bytes, least significant first, so the
  order on hashes is the lexicographic order of their bytes and not the order of the numbers.
\<close>

definition uint256_bytes :: "uint256 \<Rightarrow> u8 list" where
  "uint256_bytes h = le_bytes 32 (unat h)"

definition COutPoint_less :: "COutPoint \<Rightarrow> COutPoint \<Rightarrow> bool" where
  "COutPoint_less a b \<longleftrightarrow>
     uint256_bytes (op_hash a) < uint256_bytes (op_hash b) \<or>
     (uint256_bytes (op_hash a) = uint256_bytes (op_hash b) \<and> op_n a < op_n b)"

section \<open>Inputs, outputs, transactions\<close>

record CTxIn =
  prevout :: COutPoint
  scriptSig :: CScript
  nSequence :: u32

definition SEQUENCE_FINAL :: u32 where
  "SEQUENCE_FINAL = 0xffffffff"

definition SEQUENCE_LOCKTIME_DISABLE_FLAG :: u32 where
  "SEQUENCE_LOCKTIME_DISABLE_FLAG = push_bit 31 1"

definition SEQUENCE_LOCKTIME_TYPE_FLAG :: u32 where
  "SEQUENCE_LOCKTIME_TYPE_FLAG = push_bit 22 1"

definition SEQUENCE_LOCKTIME_MASK :: u32 where
  "SEQUENCE_LOCKTIME_MASK = 0x0000ffff"

definition SEQUENCE_LOCKTIME_GRANULARITY :: nat where
  "SEQUENCE_LOCKTIME_GRANULARITY = 9"

record CTxOut =
  nValue :: CAmount
  scriptPubKey :: CScript
  nRounds :: int

definition CTxOut_null :: CTxOut where
  "CTxOut_null = \<lparr> nValue = -1, scriptPubKey = [], nRounds = -10 \<rparr>"

definition CTxOut_IsNull :: "CTxOut \<Rightarrow> bool" where
  "CTxOut_IsNull txout \<longleftrightarrow> nValue txout = -1"

record CTransaction =
  nVersion :: u16
  nType :: u16
  vin :: "CTxIn list"
  vout :: "CTxOut list"
  nLockTime :: u32
  vExtraPayload :: "u8 list"

definition TRANSACTION_NORMAL :: u16 where
  "TRANSACTION_NORMAL = 0"

definition TRANSACTION_COINBASE :: u16 where
  "TRANSACTION_COINBASE = 5"

definition TRANSACTION_QUORUM_COMMITMENT :: u16 where
  "TRANSACTION_QUORUM_COMMITMENT = 6"

definition CTransaction_IsNull :: "CTransaction \<Rightarrow> bool" where
  "CTransaction_IsNull tx \<longleftrightarrow> vin tx = [] \<and> vout tx = []"

definition IsCoinBase :: "CTransaction \<Rightarrow> bool" where
  "IsCoinBase tx \<longleftrightarrow> length (vin tx) = 1 \<and> COutPoint_IsNull (prevout (vin tx ! 0))"

datatype value_error = ValueOutOfRange

fun GetValueOut_loop :: "CAmount \<Rightarrow> CTxOut list \<Rightarrow> value_error + CAmount" where
  "GetValueOut_loop nValueOut [] = Inr nValueOut"
| "GetValueOut_loop nValueOut (out # outs) =
     (let nValueOut = nValueOut + nValue out
      in if \<not> MoneyRange (nValue out) \<or> \<not> MoneyRange nValueOut then Inl ValueOutOfRange
         else GetValueOut_loop nValueOut outs)"

definition GetValueOut :: "CTransaction \<Rightarrow> value_error + CAmount" where
  "GetValueOut tx = GetValueOut_loop 0 (vout tx)"

section \<open>Wire format\<close>

definition Serialize_uint256 :: "uint256 \<Rightarrow> bytes" where
  "Serialize_uint256 h = uint256_bytes h"

definition Unserialize_uint256 :: "uint256 unser" where
  "Unserialize_uint256 s = read_le 32 s"

definition Serialize_COutPoint :: "COutPoint \<Rightarrow> bytes" where
  "Serialize_COutPoint p = Serialize_uint256 (op_hash p) @ ser_writedata32 (op_n p)"

definition Unserialize_COutPoint :: "COutPoint unser" where
  "Unserialize_COutPoint =
     unser_bind Unserialize_uint256 (\<lambda>h. unser_bind ser_readdata32 (\<lambda>n. unser_return (COutPoint h n)))"

definition Serialize_CTxIn :: "CTxIn \<Rightarrow> bytes" where
  "Serialize_CTxIn txin =
     Serialize_COutPoint (prevout txin) @ Serialize_bytes (scriptSig txin) @ ser_writedata32 (nSequence txin)"

definition Unserialize_CTxIn :: "CTxIn unser" where
  "Unserialize_CTxIn =
     unser_bind Unserialize_COutPoint (\<lambda>p.
     unser_bind Unserialize_bytes (\<lambda>script.
     unser_bind ser_readdata32 (\<lambda>n.
       unser_return \<lparr> prevout = p, scriptSig = script, nSequence = n \<rparr>)))"

definition Serialize_CTxOut :: "CTxOut \<Rightarrow> bytes" where
  "Serialize_CTxOut txout =
     ser_writedata64 (word_of_int (nValue txout)) @ Serialize_bytes (scriptPubKey txout)"

definition Unserialize_CTxOut :: "CTxOut unser" where
  "Unserialize_CTxOut =
     unser_bind ser_readdata64 (\<lambda>v.
     unser_bind Unserialize_bytes (\<lambda>script.
       unser_return \<lparr> nValue = sint v, scriptPubKey = script, nRounds = -10 \<rparr>))"

definition has_extra_payload :: "u16 \<Rightarrow> u16 \<Rightarrow> bool" where
  "has_extra_payload version type \<longleftrightarrow> version = 3 \<and> type \<noteq> TRANSACTION_NORMAL"

definition pack_version :: "u16 \<Rightarrow> u16 \<Rightarrow> u32" where
  "pack_version version type = scast version OR push_bit 16 (scast type)"

definition Serialize_CTransaction :: "CTransaction \<Rightarrow> bytes" where
  "Serialize_CTransaction tx =
     ser_writedata32 (pack_version (nVersion tx) (nType tx)) @
     Serialize_vector Serialize_CTxIn (vin tx) @
     Serialize_vector Serialize_CTxOut (vout tx) @
     ser_writedata32 (nLockTime tx) @
     (if has_extra_payload (nVersion tx) (nType tx) then Serialize_bytes (vExtraPayload tx) else [])"

text \<open>The arguments are the sizes of the two element types, which bound the reader's steps.\<close>

definition Unserialize_CTransaction :: "nat \<Rightarrow> nat \<Rightarrow> CTransaction unser" where
  "Unserialize_CTransaction sizeof_CTxIn sizeof_CTxOut =
     unser_bind ser_readdata32 (\<lambda>n32bitVersion.
       let version = ucast (n32bitVersion AND 0xffff);
           type = ucast (signed_drop_bit 16 n32bitVersion AND 0xffff)
       in unser_bind (Unserialize_vector sizeof_CTxIn Unserialize_CTxIn) (\<lambda>ins.
          unser_bind (Unserialize_vector sizeof_CTxOut Unserialize_CTxOut) (\<lambda>outs.
          unser_bind ser_readdata32 (\<lambda>lock.
          unser_bind (if has_extra_payload version type then Unserialize_bytes else unser_return []) (\<lambda>extra.
            unser_return \<lparr> nVersion = version, nType = type, vin = ins, vout = outs, nLockTime = lock,
              vExtraPayload = extra \<rparr>)))))"

definition GetTotalSize :: "CTransaction \<Rightarrow> nat" where
  "GetTotalSize tx = length (Serialize_CTransaction tx)"

fun CalculateModifiedSize_loop :: "nat \<Rightarrow> CTxIn list \<Rightarrow> nat" where
  "CalculateModifiedSize_loop nTxSize [] = nTxSize"
| "CalculateModifiedSize_loop nTxSize (txin # ins) =
     (let offset = 41 + min 110 (length (scriptSig txin))
      in CalculateModifiedSize_loop (if nTxSize > offset then nTxSize - offset else nTxSize) ins)"

definition CalculateModifiedSize :: "CTransaction \<Rightarrow> nat \<Rightarrow> nat" where
  "CalculateModifiedSize tx nTxSize =
     CalculateModifiedSize_loop (if nTxSize = 0 then GetTotalSize tx else nTxSize) (vin tx)"

section \<open>Dust\<close>

definition GetDustThreshold :: "CFeeRate \<Rightarrow> CTxOut \<Rightarrow> CAmount" where
  "GetDustThreshold minRelayTxFee txout =
     (if IsUnspendable (scriptPubKey txout) then 0
      else 3 * GetFee minRelayTxFee (length (Serialize_CTxOut txout) + 148))"

definition IsDust :: "CFeeRate \<Rightarrow> CTxOut \<Rightarrow> bool" where
  "IsDust minRelayTxFee txout \<longleftrightarrow> nValue txout < GetDustThreshold minRelayTxFee txout"

section \<open>Sorting of inputs and outputs (BIP69)\<close>

text \<open>
  \<^verbatim>\<open>prevector::operator<\<close>, the comparison of two scripts: the shorter one first, and the first
  different element decides between scripts of equal length.
\<close>

fun prevector_less_loop :: "u8 list \<Rightarrow> u8 list \<Rightarrow> bool" where
  "prevector_less_loop (a # as) (b # bs) =
     (if a < b then True else if b < a then False else prevector_less_loop as bs)"
| "prevector_less_loop _ _ = False"

definition prevector_less :: "u8 list \<Rightarrow> u8 list \<Rightarrow> bool" where
  "prevector_less a b =
     (if length a < length b then True else if length a > length b then False
      else prevector_less_loop a b)"

definition CompareInputBIP69 :: "CTxIn \<Rightarrow> CTxIn \<Rightarrow> bool" where
  "CompareInputBIP69 a b \<longleftrightarrow>
     (if op_hash (prevout a) = op_hash (prevout b) then op_n (prevout a) < op_n (prevout b)
      else rev (uint256_bytes (op_hash (prevout a))) < rev (uint256_bytes (op_hash (prevout b))))"

definition CompareOutputBIP69 :: "CTxOut \<Rightarrow> CTxOut \<Rightarrow> bool" where
  "CompareOutputBIP69 a b \<longleftrightarrow>
     nValue a < nValue b \<or> (nValue a = nValue b \<and> prevector_less (scriptPubKey a) (scriptPubKey b))"


section \<open>Ordering of outpoints\<close>

lemma uint256_bytes_inject: "uint256_bytes a = uint256_bytes b \<longleftrightarrow> a = b"
proof
  assume "uint256_bytes a = uint256_bytes b"
  then have "le_nat (le_bytes 32 (unat a)) = le_nat (le_bytes 32 (unat b))" by (simp add: uint256_bytes_def)
  moreover have "unat w < 256 ^ 32" for w :: uint256
    using unsigned_less [of w, where 'a = nat] by simp
  ultimately show "a = b" by (simp add: le_nat_le_bytes word_unat_eq_iff)
qed simp

instantiation COutPoint :: linorder
begin

definition less_COutPoint :: "COutPoint \<Rightarrow> COutPoint \<Rightarrow> bool" where
  "less_COutPoint a b \<longleftrightarrow> COutPoint_less a b"

definition less_eq_COutPoint :: "COutPoint \<Rightarrow> COutPoint \<Rightarrow> bool" where
  "less_eq_COutPoint a b \<longleftrightarrow> a = b \<or> COutPoint_less a b"

instance
proof
  fix x y z :: COutPoint
  show "x < y \<longleftrightarrow> x \<le> y \<and> \<not> y \<le> x"
    by (auto simp: less_COutPoint_def less_eq_COutPoint_def COutPoint_less_def)
  show "x \<le> x" by (simp add: less_eq_COutPoint_def)
  show "x \<le> y \<Longrightarrow> y \<le> z \<Longrightarrow> x \<le> z"
    by (auto simp: less_eq_COutPoint_def COutPoint_less_def)
  show "x \<le> y \<Longrightarrow> y \<le> x \<Longrightarrow> x = y"
    by (auto simp: less_eq_COutPoint_def COutPoint_less_def)
  show "x \<le> y \<or> y \<le> x"
    by (cases x; cases y) (auto simp: less_eq_COutPoint_def COutPoint_less_def uint256_bytes_inject)
qed

end

section \<open>Wire format\<close>

interpretation ser_uint256: canonical_codec Serialize_uint256 Unserialize_uint256 "\<lambda>_. True"
  unfolding Serialize_uint256_def Unserialize_uint256_def uint256_bytes_def
  by unfold_locales (use read_le_append [where 'a = 256 and k = 32] read_le_canonical [where 'a = 256 and k = 32] in auto)

lemmas field_iffs = ser32.unser_iff ser64.unser_iff ser_uint256.unser_iff ser_bytes.unser_iff
  unser_bind_Inr unser_return_Inr

lemma canonical_codecI:
  assumes "\<And>bs x r. unser bs = Inr (x, r) \<longleftrightarrow> bs = ser x @ r \<and> valid x"
  shows "canonical_codec ser unser valid"
  using assms by unfold_locales auto

interpretation ser_outpoint: canonical_codec Serialize_COutPoint Unserialize_COutPoint "\<lambda>_. True"
proof (rule canonical_codecI)
  fix bs x r
  show "Unserialize_COutPoint bs = Inr (x, r) \<longleftrightarrow> bs = Serialize_COutPoint x @ r \<and> True"
    by (cases x) (auto simp: Serialize_COutPoint_def Unserialize_COutPoint_def field_iffs)
qed

definition txin_ok :: "CTxIn \<Rightarrow> bool" where
  "txin_ok txin \<longleftrightarrow> vec_ok (scriptSig txin)"

interpretation ser_txin: canonical_codec Serialize_CTxIn Unserialize_CTxIn txin_ok
proof (rule canonical_codecI)
  fix bs x r
  show "Unserialize_CTxIn bs = Inr (x, r) \<longleftrightarrow> bs = Serialize_CTxIn x @ r \<and> txin_ok x"
    by (cases x) (auto simp: Serialize_CTxIn_def Unserialize_CTxIn_def txin_ok_def field_iffs ser_outpoint.unser_iff)
qed

definition txout_ok :: "CTxOut \<Rightarrow> bool" where
  "txout_ok txout \<longleftrightarrow>
     - (2 ^ 63) \<le> nValue txout \<and> nValue txout < 2 ^ 63 \<and> vec_ok (scriptPubKey txout) \<and> nRounds txout = -10"

lemma sint_u64_range: "- (2 ^ 63) \<le> sint (w :: u64)" "sint (w :: u64) < 2 ^ 63"
  using sint_ge [of w] sint_lt [of w] by simp_all

lemma sint_word_of_int_u64: "- (2 ^ 63) \<le> v \<Longrightarrow> v < 2 ^ 63 \<Longrightarrow> sint (word_of_int v :: u64) = v"
  by (simp add: signed_of_int signed_take_bit_int_eq_self)

interpretation ser_txout: canonical_codec Serialize_CTxOut Unserialize_CTxOut txout_ok
proof
  fix x r
  assume "txout_ok x"
  then show "Unserialize_CTxOut (Serialize_CTxOut x @ r) = Inr (x, r)"
    by (cases x) (auto simp: Serialize_CTxOut_def Unserialize_CTxOut_def txout_ok_def field_iffs sint_word_of_int_u64)
next
  fix bs x r
  assume "Unserialize_CTxOut bs = Inr (x, r)"
  then show "bs = Serialize_CTxOut x @ r \<and> txout_ok x"
    by (auto simp: Serialize_CTxOut_def Unserialize_CTxOut_def txout_ok_def field_iffs sint_u64_range [simplified])
qed

lemma bit_0xffff: "bit (0xffff :: int) k \<longleftrightarrow> k < 16"
  using bit_mask_iff [of 16 k, where 'a = int] by (auto simp: mask_eq_exp_minus_1)

lemma nonneg_version: "0 \<le> sint (version :: u16) \<longleftrightarrow> \<not> bit version 15"
  using bit_last_iff [of version] by auto

lemma split_index16: "n < 16 \<Longrightarrow> (n < 15 \<Longrightarrow> P) \<Longrightarrow> (n = 15 \<Longrightarrow> P) \<Longrightarrow> P" for n :: nat
  by linarith

lemma split_index32:
  fixes n :: nat
  assumes "n < 32" "n < 15 \<Longrightarrow> P" "n = 15 \<Longrightarrow> P" "\<And>m. n = 16 + m \<Longrightarrow> m < 15 \<Longrightarrow> P" "n = 31 \<Longrightarrow> P"
  shows P
proof (cases "16 \<le> n \<and> n < 31")
  case True
  then have "n = 16 + (n - 16)" "n - 16 < 15" by (auto simp: less_diff_conv2)
  then show ?thesis by (rule assms(4))
next
  case False
  then show ?thesis using assms(1-3,5) by linarith
qed

lemmas version_bits = pack_version_def bit_simps bit_0xffff bit_signed_drop_bit_iff

lemma pack_version_fields:
  assumes "0 \<le> sint version"
  shows "ucast (pack_version version type AND 0xffff) = version"
    and "ucast (signed_drop_bit 16 (pack_version version type) AND 0xffff) = type"
proof -
  have b: "\<not> bit version 15" using assms by (simp add: nonneg_version)
  have v: "bit (ucast (pack_version version type AND 0xffff) :: u16) n \<longleftrightarrow> bit version n" if "n < 16" for n
    using that by (rule split_index16) (auto simp: version_bits)
  have t: "bit (ucast (signed_drop_bit 16 (pack_version version type) AND 0xffff) :: u16) n \<longleftrightarrow> bit type n"
    if "n < 16" for n
    using that b by - (erule split_index16, auto simp: version_bits)
  show "ucast (pack_version version type AND 0xffff) = version"
    by (rule bit_word_eqI) (simp add: v)
  show "ucast (signed_drop_bit 16 (pack_version version type) AND 0xffff) = type"
    by (rule bit_word_eqI) (simp add: t)
qed

lemma pack_version_unique:
  fixes w :: u32
  assumes "0 \<le> sint (ucast (w AND 0xffff) :: u16)"
  shows "pack_version (ucast (w AND 0xffff)) (ucast (signed_drop_bit 16 w AND 0xffff)) = w"
proof -
  have b: "\<not> bit w 15" using assms by (simp add: nonneg_version bit_simps bit_0xffff)
  have "bit (pack_version (ucast (w AND 0xffff)) (ucast (signed_drop_bit 16 w AND 0xffff))) n \<longleftrightarrow> bit w n"
    if "n < 32" for n
    using that b by - (erule split_index32, auto simp: version_bits)
  then show ?thesis by (intro bit_word_eqI) simp
qed

definition tx_ok :: "CTransaction \<Rightarrow> bool" where
  "tx_ok tx \<longleftrightarrow>
     vec_ok (vin tx) \<and> (\<forall>txin \<in> set (vin tx). txin_ok txin) \<and>
     vec_ok (vout tx) \<and> (\<forall>txout \<in> set (vout tx). txout_ok txout) \<and>
     (if has_extra_payload (nVersion tx) (nType tx) then vec_ok (vExtraPayload tx) else vExtraPayload tx = [])"

lemma Unserialize_CTransaction_iff_aux:
  assumes "0 < 5000000 div sizeof_CTxIn" "0 < 5000000 div sizeof_CTxOut" "0 \<le> sint (nVersion tx)"
  shows "Unserialize_CTransaction sizeof_CTxIn sizeof_CTxOut bs = Inr (tx, r) \<longleftrightarrow>
    bs = Serialize_CTransaction tx @ r \<and> tx_ok tx"
proof -
  note ins = canonical_codec.unser_iff [OF vector_codec [OF ser_txin.canonical_codec_axioms assms(1)]]
  note outs = canonical_codec.unser_iff [OF vector_codec [OF ser_txout.canonical_codec_axioms assms(2)]]
  show ?thesis
  proof
    assume "Unserialize_CTransaction sizeof_CTxIn sizeof_CTxOut bs = Inr (tx, r)"
    then show "bs = Serialize_CTransaction tx @ r \<and> tx_ok tx"
      using assms(3)
      by (auto simp: Unserialize_CTransaction_def Serialize_CTransaction_def tx_ok_def field_iffs ins outs
          Let_def pack_version_unique split: if_splits)
  next
    assume "bs = Serialize_CTransaction tx @ r \<and> tx_ok tx"
    then show "Unserialize_CTransaction sizeof_CTxIn sizeof_CTxOut bs = Inr (tx, r)"
      using assms(3)
      by (cases tx)
         (auto simp: Unserialize_CTransaction_def Serialize_CTransaction_def tx_ok_def field_iffs ins outs
          Let_def pack_version_fields split: if_splits)
  qed
qed


section \<open>Amounts\<close>

lemma GetValueOut_loop_Inr:
  "GetValueOut_loop acc outs = Inr v \<longleftrightarrow>
     v = acc + sum_list (map nValue outs) \<and>
     (\<forall>i < length outs. MoneyRange (nValue (outs ! i)) \<and> MoneyRange (acc + sum_list (map nValue (take (Suc i) outs))))"
  by (induction acc outs rule: GetValueOut_loop.induct)
     (auto simp: Let_def All_less_Suc2 add.assoc)

lemma sum_list_take_le:
  "(\<forall>x \<in> set xs. 0 \<le> (f x :: int)) \<Longrightarrow> sum_list (map f (take n xs)) \<le> sum_list (map f xs) \<and> 0 \<le> sum_list (map f (take n xs))"
proof -
  assume nn: "\<forall>x \<in> set xs. 0 \<le> f x"
  have "sum_list (map f xs) = sum_list (map f (take n xs)) + sum_list (map f (drop n xs))"
    by (metis append_take_drop_id map_append sum_list_append)
  moreover have "0 \<le> sum_list (map f (drop n xs))" "0 \<le> sum_list (map f (take n xs))"
    using nn by (auto intro!: sum_list_nonneg) (metis in_set_dropD, metis in_set_takeD)
  ultimately show ?thesis by simp
qed

lemma GetValueOut_iff_aux:
  "GetValueOut tx = Inr v \<longleftrightarrow>
     v = sum_list (map nValue (vout tx)) \<and> v \<le> MAX_MONEY \<and> (\<forall>out \<in> set (vout tx). 0 \<le> nValue out)"
    (is "?l \<longleftrightarrow> ?r")
proof
  assume ?l
  then have v: "v = sum_list (map nValue (vout tx))"
    and rng: "\<And>i. i < length (vout tx) \<Longrightarrow> MoneyRange (nValue (vout tx ! i)) \<and>
      MoneyRange (sum_list (map nValue (take (Suc i) (vout tx))))"
    by (auto simp: GetValueOut_def GetValueOut_loop_Inr)
  have "v \<le> MAX_MONEY"
  proof (cases "vout tx")
    case Nil
    then show ?thesis using v by (simp add: MAX_MONEY_def COIN_def)
  next
    case (Cons a as)
    then show ?thesis using rng [of "length as"] v by (simp add: MoneyRange_def)
  qed
  then show ?r using v rng by (auto simp: MoneyRange_def in_set_conv_nth)
next
  assume r: ?r
  have le: "nValue (vout tx ! i) \<le> v" if "i < length (vout tx)" for i
    using member_le_sum_list [of "nValue (vout tx ! i)" "map nValue (vout tx)"] r that by auto
  show ?l
    using r le sum_list_take_le [of "vout tx" nValue]
    by (auto simp: GetValueOut_def GetValueOut_loop_Inr MoneyRange_def intro: order_trans)
qed


section \<open>Properties\<close>

text \<open>
  (C3) The wire format of transactions is unambiguous: for every transaction whose version
  is not negative, the bytes the reader accepts for it are exactly the ones the writer
  produces, and the reader stops exactly behind them. So two different byte strings never
  stand for the same such transaction, and the cached hash, which hashes the serialisation,
  is a hash of the bytes received.
\<close>

theorem Unserialize_CTransaction_iff:
  assumes "0 < 5000000 div sizeof_CTxIn" "0 < 5000000 div sizeof_CTxOut" "0 \<le> sint (nVersion tx)"
  shows "Unserialize_CTransaction sizeof_CTxIn sizeof_CTxOut bs = Inr (tx, r) \<longleftrightarrow>
    bs = Serialize_CTransaction tx @ r \<and> tx_ok tx"
  by (rule Unserialize_CTransaction_iff_aux [OF assms])

definition example_tx :: CTransaction where
  "example_tx =
     \<lparr> nVersion = 2, nType = 0,
       vin = [\<lparr> prevout = COutPoint 7 1, scriptSig = [0x51], nSequence = SEQUENCE_FINAL \<rparr>],
       vout = [\<lparr> nValue = 5 * COIN, scriptPubKey = [0x51], nRounds = -10 \<rparr>],
       nLockTime = 0, vExtraPayload = [] \<rparr>"

theorem Unserialize_CTransaction_witness:
  "Unserialize_CTransaction 80 48 (Serialize_CTransaction example_tx @ [1, 2]) = Inr (example_tx, [1, 2])"
  using Unserialize_CTransaction_iff [of 80 48 example_tx "Serialize_CTransaction example_tx @ [1, 2]" "[1, 2]"]
  by (simp add: example_tx_def tx_ok_def txin_ok_def txout_ok_def vec_ok_def has_extra_payload_def COIN_def)

text \<open>
  A negative version breaks this: \<^verbatim>\<open>nVersion | (nType << 16)\<close> sign-extends the version over
  the type, so a received transaction with version \<open>-1\<close> and type 0 is written back, and
  hashed, as other bytes than were received.
\<close>

theorem negative_version_not_roundtrip:
  "\<exists>bs tx. Unserialize_CTransaction 80 48 bs = Inr (tx, []) \<and> Serialize_CTransaction tx \<noteq> bs"
proof (intro exI conjI)
  let ?tx = "\<lparr> nVersion = -1, nType = 0, vin = [], vout = [], nLockTime = 0, vExtraPayload = [] \<rparr>"
  show "Unserialize_CTransaction 80 48 [0xff, 0xff, 0, 0, 0, 0, 0, 0, 0, 0] = Inr (?tx, [])"
    by (simp add: Unserialize_CTransaction_def unser_bind_def unser_return_def ser_ints ReadCompactSize_def
      read_le_def stream_read_def Unserialize_vector_def Unserialize_vector_loop.simps MAX_SIZE_def
      has_extra_payload_def Let_def)
  have pv: "pack_version (-1) 0 = -1" by (simp add: pack_version_def)
  have len: "length [0xff, 0xff, 0, 0 :: u8] = 4" by simp
  have "le_nat [0xff, 0xff, 0, 0] = unat (0xffff :: u32)" by simp
  then have low: "ser_writedata32 0xffff = [0xff, 0xff, 0, 0]"
    using le_bytes_le_nat [of "[0xff, 0xff, 0, 0]", unfolded len] by (simp only: ser_writedata32_def)
  obtain rest where rest: "Serialize_CTransaction ?tx = ser_writedata32 (-1) @ rest"
    by (simp add: Serialize_CTransaction_def pv)
  show "Serialize_CTransaction ?tx \<noteq> [0xff, 0xff, 0, 0, 0, 0, 0, 0, 0, 0]"
  proof
    assume "Serialize_CTransaction ?tx = [0xff, 0xff, 0, 0, 0, 0, 0, 0, 0, 0]"
    then have "ser_writedata32 (-1) @ rest = ser_writedata32 0xffff @ [0, 0, 0, 0, 0, 0]"
      unfolding low rest by simp
    from ser32.ser_prefix_free [OF _ _ this] have "(-1 :: u32) = 0xffff" by blast
    then show False by simp
  qed
qed

text \<open>
  \<open>GetValueOut\<close> returns the sum of the outputs exactly when no output is negative and the sum
  is at most \<open>MAX_MONEY\<close>; in every other case it throws. In particular the running sums it
  checks never leave the money range, so the 64-bit additions cannot overflow.
\<close>

theorem GetValueOut_iff:
  "GetValueOut tx = Inr v \<longleftrightarrow>
     v = sum_list (map nValue (vout tx)) \<and> v \<le> MAX_MONEY \<and> list_all (\<lambda>out. 0 \<le> nValue out) (vout tx)"
  by (simp add: GetValueOut_iff_aux list_all_iff)

text \<open>
  \<open>CompareOutputBIP69\<close> orders scripts by length first, while BIP69 asks for the lexicographic
  order of the script bytes.
\<close>

theorem CompareOutputBIP69_not_lexicographic:
  "\<exists>a b. nValue a = nValue b \<and> scriptPubKey a < scriptPubKey b \<and> CompareOutputBIP69 b a"
proof (intro exI conjI)
  let ?a = "\<lparr> nValue = 1, scriptPubKey = [0, 0], nRounds = -10 \<rparr>"
  let ?b = "\<lparr> nValue = 1, scriptPubKey = [0x51], nRounds = -10 \<rparr>"
  show "nValue ?a = nValue ?b" by simp
  show "scriptPubKey ?a < scriptPubKey ?b" by simp
  show "CompareOutputBIP69 ?b ?a" by (simp add: CompareOutputBIP69_def prevector_less_def)
qed

end
