(* ===== verification/Coins.thy ===== *)
theory Coins
  imports Transaction
begin

unbundle bit_operations_syntax

text \<open>
  The unspent-output set: coins, cache entries and the views of \<^verbatim>\<open>coins.h\<close>, \<^verbatim>\<open>coins.cpp\<close> and
  \<^verbatim>\<open>txdb.cpp\<close>.

  A view is a state of some type \<open>'v\<close> together with the virtual methods a cache calls on its
  base, the record \<open>view_ops\<close>. The methods that are \<^verbatim>\<open>const\<close> in C++ fill caches, so they return
  the new state. \<^verbatim>\<open>CCoinsViewCache\<close> is a record holding the state of its base; it provides a
  \<open>view_ops\<close> again, so caches stack over each other and over the database.

  \<^verbatim>\<open>CCoinsMap\<close> is a partial map. A loop over it takes its iteration order as an argument (see
  \<open>enumerates\<close>). \<^verbatim>\<open>DynamicMemoryUsage\<close> depends on the allocator and is the argument \<open>usage\<close>; it is
  a function of the coin, that is, spare capacity of script buffers is not counted.
  The key-value store under \<^verbatim>\<open>CCoinsViewDB\<close> is a map from outpoints to coins.
\<close>

section \<open>Coins\<close>

record Coin =
  out :: CTxOut
  fCoinBase :: bool
  nHeight :: "31 word"

definition Coin_empty :: Coin where
  "Coin_empty = \<lparr> out = CTxOut_null, fCoinBase = False, nHeight = 0 \<rparr>"

definition Coin_make :: "CTxOut \<Rightarrow> int \<Rightarrow> bool \<Rightarrow> Coin" where
  "Coin_make outIn nHeightIn fCoinBaseIn =
     \<lparr> out = outIn, fCoinBase = fCoinBaseIn, nHeight = word_of_int nHeightIn \<rparr>"

definition Coin_Clear :: "Coin \<Rightarrow> Coin" where
  "Coin_Clear coin = \<lparr> out = CTxOut_null, fCoinBase = False, nHeight = 0 \<rparr>"

definition IsSpent :: "Coin \<Rightarrow> bool" where
  "IsSpent coin \<longleftrightarrow> CTxOut_IsNull (out coin)"

section \<open>Cache entries\<close>

definition DIRTY :: u8 where
  "DIRTY = push_bit 0 1"

definition FRESH :: u8 where
  "FRESH = push_bit 1 1"

record CCoinsCacheEntry =
  coin :: Coin
  flags :: u8

definition CCoinsCacheEntry_empty :: CCoinsCacheEntry where
  "CCoinsCacheEntry_empty = \<lparr> coin = Coin_empty, flags = 0 \<rparr>"

definition CCoinsCacheEntry_make :: "Coin \<Rightarrow> CCoinsCacheEntry" where
  "CCoinsCacheEntry_make c = \<lparr> coin = c, flags = 0 \<rparr>"

type_synonym CCoinsMap = "COutPoint \<rightharpoonup> CCoinsCacheEntry"

datatype coins_error =
    AddingReplacesUnspent \<comment> \<open>logic error: new coin replaces a non-pruned entry\<close>
  | FreshMisapplied \<comment> \<open>logic error: FRESH flag misapplied\<close>
  | AssertionFailed

section \<open>Views\<close>

record 'v view_ops =
  vGetCoin :: "'v \<Rightarrow> COutPoint \<Rightarrow> Coin option \<times> 'v"
  vGetBestBlock :: "'v \<Rightarrow> uint256 \<times> 'v"
  vBatchWrite :: "'v \<Rightarrow> (COutPoint \<times> CCoinsCacheEntry) list \<Rightarrow> uint256 \<Rightarrow> coins_error + bool \<times> 'v"

text \<open>The default methods of \<^verbatim>\<open>CCoinsView\<close>: a view with no coins that accepts no writes.\<close>

definition CCoinsView_GetCoin :: "'v \<Rightarrow> COutPoint \<Rightarrow> Coin option \<times> 'v" where
  "CCoinsView_GetCoin v outpoint = (None, v)"

definition CCoinsView_GetBestBlock :: "'v \<Rightarrow> uint256 \<times> 'v" where
  "CCoinsView_GetBestBlock v = (0, v)"

definition CCoinsView_BatchWrite ::
    "'v \<Rightarrow> (COutPoint \<times> CCoinsCacheEntry) list \<Rightarrow> uint256 \<Rightarrow> coins_error + bool \<times> 'v" where
  "CCoinsView_BatchWrite v mapCoins hashBlock = Inr (False, v)"

section \<open>The database view\<close>

record CCoinsViewDB =
  db_coins :: "COutPoint \<rightharpoonup> Coin"
  db_best :: "uint256 option"

definition CCoinsViewDB_GetCoin :: "CCoinsViewDB \<Rightarrow> COutPoint \<Rightarrow> Coin option \<times> CCoinsViewDB" where
  "CCoinsViewDB_GetCoin v outpoint = (db_coins v outpoint, v)"

definition CCoinsViewDB_HaveCoin :: "CCoinsViewDB \<Rightarrow> COutPoint \<Rightarrow> bool" where
  "CCoinsViewDB_HaveCoin v outpoint \<longleftrightarrow> db_coins v outpoint \<noteq> None"

definition CCoinsViewDB_GetBestBlock :: "CCoinsViewDB \<Rightarrow> uint256 \<times> CCoinsViewDB" where
  "CCoinsViewDB_GetBestBlock v = (case db_best v of None \<Rightarrow> 0 | Some h \<Rightarrow> h, v)"

fun CCoinsViewDB_batch ::
    "(COutPoint \<rightharpoonup> Coin) \<Rightarrow> (COutPoint \<times> CCoinsCacheEntry) list \<Rightarrow> (COutPoint \<rightharpoonup> Coin)" where
  "CCoinsViewDB_batch batch [] = batch"
| "CCoinsViewDB_batch batch ((p, e) # mapCoins) =
     CCoinsViewDB_batch
       (if flags e AND DIRTY \<noteq> 0
        then (if IsSpent (coin e) then batch(p := None) else batch(p \<mapsto> coin e))
        else batch) mapCoins"

definition CCoinsViewDB_BatchWrite ::
    "CCoinsViewDB \<Rightarrow> (COutPoint \<times> CCoinsCacheEntry) list \<Rightarrow> uint256 \<Rightarrow> coins_error + bool \<times> CCoinsViewDB" where
  "CCoinsViewDB_BatchWrite v mapCoins hashBlock =
     Inr (True, \<lparr> db_coins = CCoinsViewDB_batch (db_coins v) mapCoins,
                  db_best = (if hashBlock \<noteq> 0 then Some hashBlock else db_best v) \<rparr>)"

definition CCoinsViewDB_ops :: "CCoinsViewDB view_ops" where
  "CCoinsViewDB_ops =
     \<lparr> vGetCoin = CCoinsViewDB_GetCoin, vGetBestBlock = CCoinsViewDB_GetBestBlock,
       vBatchWrite = CCoinsViewDB_BatchWrite \<rparr>"

section \<open>The cache\<close>

record 'v CCoinsViewCache =
  base :: 'v
  hashBlock :: uint256
  cacheCoins :: CCoinsMap
  cachedCoinsUsage :: u64

definition CCoinsViewCache_make :: "'v \<Rightarrow> 'v CCoinsViewCache" where
  "CCoinsViewCache_make baseIn =
     \<lparr> base = baseIn, hashBlock = 0, cacheCoins = (\<lambda>_. None), cachedCoinsUsage = 0 \<rparr>"

text \<open>\<open>FetchCoin\<close> returns the entry its iterator points to, \<open>None\<close> for \<^verbatim>\<open>cacheCoins.end()\<close>.\<close>

definition FetchCoin ::
    "(Coin \<Rightarrow> u64) \<Rightarrow> 'v view_ops \<Rightarrow> 'v CCoinsViewCache \<Rightarrow> COutPoint \<Rightarrow> CCoinsCacheEntry option \<times> 'v CCoinsViewCache" where
  "FetchCoin usage ops c outpoint =
     (case cacheCoins c outpoint of
        Some e \<Rightarrow> (Some e, c)
      | None \<Rightarrow>
          (case vGetCoin ops (base c) outpoint of
             (None, b) \<Rightarrow> (None, c\<lparr> base := b \<rparr>)
           | (Some tmp, b) \<Rightarrow>
               (let e = CCoinsCacheEntry_make tmp;
                    e = (if IsSpent (coin e) then e\<lparr> flags := FRESH \<rparr> else e)
                in (Some e, c\<lparr> base := b, cacheCoins := (cacheCoins c)(outpoint \<mapsto> e),
                              cachedCoinsUsage := cachedCoinsUsage c + usage (coin e) \<rparr>))))"

definition GetCoin ::
    "(Coin \<Rightarrow> u64) \<Rightarrow> 'v view_ops \<Rightarrow> 'v CCoinsViewCache \<Rightarrow> COutPoint \<Rightarrow> Coin option \<times> 'v CCoinsViewCache" where
  "GetCoin usage ops c outpoint =
     (case FetchCoin usage ops c outpoint of
        (Some e, c) \<Rightarrow> (if \<not> IsSpent (coin e) then Some (coin e) else None, c)
      | (None, c) \<Rightarrow> (None, c))"

definition AddCoin ::
    "(Coin \<Rightarrow> u64) \<Rightarrow> 'v CCoinsViewCache \<Rightarrow> COutPoint \<Rightarrow> Coin \<Rightarrow> bool \<Rightarrow> coins_error + 'v CCoinsViewCache" where
  "AddCoin usage c outpoint newcoin possible_overwrite =
     (if IsSpent newcoin then Inl AssertionFailed
      else if IsUnspendable (scriptPubKey (out newcoin)) then Inr c
      else
        let (e, inserted) =
              (case cacheCoins c outpoint of Some e \<Rightarrow> (e, False) | None \<Rightarrow> (CCoinsCacheEntry_empty, True));
            used = (if \<not> inserted then cachedCoinsUsage c - usage (coin e) else cachedCoinsUsage c)
        in if \<not> possible_overwrite \<and> \<not> IsSpent (coin e) then Inl AddingReplacesUnspent
           else
             let fresh = (if \<not> possible_overwrite then flags e AND DIRTY = 0 else False);
                 e = e\<lparr> coin := newcoin,
                        flags := flags e OR (DIRTY OR (if fresh then FRESH else 0)) \<rparr>
             in Inr (c\<lparr> cacheCoins := (cacheCoins c)(outpoint \<mapsto> e),
                        cachedCoinsUsage := used + usage (coin e) \<rparr>))"

text \<open>\<open>SpendCoin\<close> returns the result, the coin moved out (when the entry was found) and the cache.\<close>

definition SpendCoin ::
    "(Coin \<Rightarrow> u64) \<Rightarrow> 'v view_ops \<Rightarrow> 'v CCoinsViewCache \<Rightarrow> COutPoint \<Rightarrow> bool \<times> Coin option \<times> 'v CCoinsViewCache" where
  "SpendCoin usage ops c outpoint =
     (case FetchCoin usage ops c outpoint of
        (None, c) \<Rightarrow> (False, None, c)
      | (Some e, c) \<Rightarrow>
          (let used = cachedCoinsUsage c - usage (coin e);
               moveout = coin e
           in if flags e AND FRESH \<noteq> 0
              then (True, Some moveout,
                    c\<lparr> cacheCoins := (cacheCoins c)(outpoint := None), cachedCoinsUsage := used \<rparr>)
              else (True, Some moveout,
                    c\<lparr> cacheCoins := (cacheCoins c)
                         (outpoint \<mapsto> e\<lparr> flags := flags e OR DIRTY, coin := Coin_Clear (coin e) \<rparr>),
                       cachedCoinsUsage := used \<rparr>)))"

definition AccessCoin ::
    "(Coin \<Rightarrow> u64) \<Rightarrow> 'v view_ops \<Rightarrow> 'v CCoinsViewCache \<Rightarrow> COutPoint \<Rightarrow> Coin \<times> 'v CCoinsViewCache" where
  "AccessCoin usage ops c outpoint =
     (case FetchCoin usage ops c outpoint of
        (None, c) \<Rightarrow> (Coin_empty, c)
      | (Some e, c) \<Rightarrow> (coin e, c))"

definition HaveCoin ::
    "(Coin \<Rightarrow> u64) \<Rightarrow> 'v view_ops \<Rightarrow> 'v CCoinsViewCache \<Rightarrow> COutPoint \<Rightarrow> bool \<times> 'v CCoinsViewCache" where
  "HaveCoin usage ops c outpoint =
     (case FetchCoin usage ops c outpoint of
        (None, c) \<Rightarrow> (False, c)
      | (Some e, c) \<Rightarrow> (\<not> IsSpent (coin e), c))"

definition HaveCoinInCache :: "'v CCoinsViewCache \<Rightarrow> COutPoint \<Rightarrow> bool" where
  "HaveCoinInCache c outpoint =
     (case cacheCoins c outpoint of None \<Rightarrow> False | Some e \<Rightarrow> \<not> IsSpent (coin e))"

definition GetBestBlock :: "'v view_ops \<Rightarrow> 'v CCoinsViewCache \<Rightarrow> uint256 \<times> 'v CCoinsViewCache" where
  "GetBestBlock ops c =
     (if hashBlock c = 0
      then (case vGetBestBlock ops (base c) of (h, b) \<Rightarrow> (h, c\<lparr> base := b, hashBlock := h \<rparr>))
      else (hashBlock c, c))"

definition SetBestBlock :: "'v CCoinsViewCache \<Rightarrow> uint256 \<Rightarrow> 'v CCoinsViewCache" where
  "SetBestBlock c hashBlockIn = c\<lparr> hashBlock := hashBlockIn \<rparr>"

text \<open>One iteration of the loop of \<open>BatchWrite\<close>, on the child's entry \<open>e\<close> for \<open>p\<close>.\<close>

definition BatchWrite_entry ::
    "(Coin \<Rightarrow> u64) \<Rightarrow> 'v CCoinsViewCache \<Rightarrow> COutPoint \<Rightarrow> CCoinsCacheEntry \<Rightarrow> coins_error + 'v CCoinsViewCache" where
  "BatchWrite_entry usage c p e =
     (if flags e AND DIRTY \<noteq> 0 then
        (case cacheCoins c p of
           None \<Rightarrow>
             (if \<not> (flags e AND FRESH \<noteq> 0 \<and> IsSpent (coin e)) then
                let entry = \<lparr> coin = coin e, flags = DIRTY OR (if flags e AND FRESH \<noteq> 0 then FRESH else 0) \<rparr>
                in Inr (c\<lparr> cacheCoins := (cacheCoins c)(p \<mapsto> entry),
                           cachedCoinsUsage := cachedCoinsUsage c + usage (coin entry) \<rparr>)
              else Inr c)
         | Some us \<Rightarrow>
             (if flags e AND FRESH \<noteq> 0 \<and> \<not> IsSpent (coin us) then Inl FreshMisapplied
              else if flags us AND FRESH \<noteq> 0 \<and> IsSpent (coin e) then
                Inr (c\<lparr> cacheCoins := (cacheCoins c)(p := None),
                        cachedCoinsUsage := cachedCoinsUsage c - usage (coin us) \<rparr>)
              else
                Inr (c\<lparr> cacheCoins := (cacheCoins c)(p \<mapsto> us\<lparr> coin := coin e, flags := flags us OR DIRTY \<rparr>),
                        cachedCoinsUsage := cachedCoinsUsage c - usage (coin us) + usage (coin e) \<rparr>)))
      else Inr c)"

fun BatchWrite_loop ::
    "(Coin \<Rightarrow> u64) \<Rightarrow> 'v CCoinsViewCache \<Rightarrow> (COutPoint \<times> CCoinsCacheEntry) list \<Rightarrow> coins_error + 'v CCoinsViewCache" where
  "BatchWrite_loop usage c [] = Inr c"
| "BatchWrite_loop usage c ((p, e) # mapCoins) =
     (case BatchWrite_entry usage c p e of
        Inl err \<Rightarrow> Inl err
      | Inr c \<Rightarrow> BatchWrite_loop usage c mapCoins)"

definition BatchWrite ::
    "(Coin \<Rightarrow> u64) \<Rightarrow> 'v CCoinsViewCache \<Rightarrow> (COutPoint \<times> CCoinsCacheEntry) list \<Rightarrow> uint256 \<Rightarrow>
     coins_error + bool \<times> 'v CCoinsViewCache" where
  "BatchWrite usage c mapCoins hashBlockIn =
     (case BatchWrite_loop usage c mapCoins of
        Inl err \<Rightarrow> Inl err
      | Inr c \<Rightarrow> Inr (True, c\<lparr> hashBlock := hashBlockIn \<rparr>))"

text \<open>\<open>order\<close> is the iteration order of \<^verbatim>\<open>cacheCoins\<close> that the base's \<^verbatim>\<open>BatchWrite\<close> meets.\<close>

definition Flush ::
    "'v view_ops \<Rightarrow> 'v CCoinsViewCache \<Rightarrow> (COutPoint \<times> CCoinsCacheEntry) list \<Rightarrow> coins_error + bool \<times> 'v CCoinsViewCache" where
  "Flush ops c order =
     (case vBatchWrite ops (base c) order (hashBlock c) of
        Inl err \<Rightarrow> Inl err
      | Inr (fOk, b) \<Rightarrow> Inr (fOk, c\<lparr> base := b, cacheCoins := (\<lambda>_. None), cachedCoinsUsage := 0 \<rparr>))"

definition Uncache :: "(Coin \<Rightarrow> u64) \<Rightarrow> 'v CCoinsViewCache \<Rightarrow> COutPoint \<Rightarrow> 'v CCoinsViewCache" where
  "Uncache usage c p =
     (case cacheCoins c p of
        None \<Rightarrow> c
      | Some e \<Rightarrow>
          if flags e = 0
          then c\<lparr> cacheCoins := (cacheCoins c)(p := None), cachedCoinsUsage := cachedCoinsUsage c - usage (coin e) \<rparr>
          else c)"

definition GetCacheSize :: "'v CCoinsViewCache \<Rightarrow> nat" where
  "GetCacheSize c = card (dom (cacheCoins c))"

fun GetValueIn_loop ::
    "(Coin \<Rightarrow> u64) \<Rightarrow> 'v view_ops \<Rightarrow> 'v CCoinsViewCache \<Rightarrow> CAmount \<Rightarrow> CTxIn list \<Rightarrow> CAmount \<times> 'v CCoinsViewCache" where
  "GetValueIn_loop usage ops c nResult [] = (nResult, c)"
| "GetValueIn_loop usage ops c nResult (txin # ins) =
     (case AccessCoin usage ops c (prevout txin) of
        (cn, c) \<Rightarrow> GetValueIn_loop usage ops c (nResult + nValue (out cn)) ins)"

definition GetValueIn ::
    "(Coin \<Rightarrow> u64) \<Rightarrow> 'v view_ops \<Rightarrow> 'v CCoinsViewCache \<Rightarrow> CTransaction \<Rightarrow> CAmount \<times> 'v CCoinsViewCache" where
  "GetValueIn usage ops c tx = (if IsCoinBase tx then (0, c) else GetValueIn_loop usage ops c 0 (vin tx))"

fun HaveInputs_loop ::
    "(Coin \<Rightarrow> u64) \<Rightarrow> 'v view_ops \<Rightarrow> 'v CCoinsViewCache \<Rightarrow> CTxIn list \<Rightarrow> bool \<times> 'v CCoinsViewCache" where
  "HaveInputs_loop usage ops c [] = (True, c)"
| "HaveInputs_loop usage ops c (txin # ins) =
     (case HaveCoin usage ops c (prevout txin) of
        (have, c) \<Rightarrow> if \<not> have then (False, c) else HaveInputs_loop usage ops c ins)"

definition HaveInputs ::
    "(Coin \<Rightarrow> u64) \<Rightarrow> 'v view_ops \<Rightarrow> 'v CCoinsViewCache \<Rightarrow> CTransaction \<Rightarrow> bool \<times> 'v CCoinsViewCache" where
  "HaveInputs usage ops c tx = (if \<not> IsCoinBase tx then HaveInputs_loop usage ops c (vin tx) else (True, c))"

text \<open>The methods of a cache as the base of another cache.\<close>

definition cache_ops :: "(Coin \<Rightarrow> u64) \<Rightarrow> 'v view_ops \<Rightarrow> 'v CCoinsViewCache view_ops" where
  "cache_ops usage ops =
     \<lparr> vGetCoin = GetCoin usage ops, vGetBestBlock = GetBestBlock ops, vBatchWrite = BatchWrite usage \<rparr>"

section \<open>Transactions on a cache\<close>

text \<open>\<open>GetHash\<close> is the transaction hash.\<close>

fun AddCoins_loop ::
    "(Coin \<Rightarrow> u64) \<Rightarrow> 'v CCoinsViewCache \<Rightarrow> uint256 \<Rightarrow> int \<Rightarrow> bool \<Rightarrow> nat \<Rightarrow> CTxOut list \<Rightarrow> coins_error + 'v CCoinsViewCache" where
  "AddCoins_loop usage c txid height fCoinbase i [] = Inr c"
| "AddCoins_loop usage c txid height fCoinbase i (txout # outs) =
     (case AddCoin usage c (COutPoint txid (of_nat i)) (Coin_make txout height fCoinbase) fCoinbase of
        Inl err \<Rightarrow> Inl err
      | Inr c \<Rightarrow> AddCoins_loop usage c txid height fCoinbase (Suc i) outs)"

definition AddCoins ::
    "(CTransaction \<Rightarrow> uint256) \<Rightarrow> (Coin \<Rightarrow> u64) \<Rightarrow> 'v CCoinsViewCache \<Rightarrow> CTransaction \<Rightarrow> int \<Rightarrow> coins_error + 'v CCoinsViewCache" where
  "AddCoins GetHash usage cache tx height =
     AddCoins_loop usage cache (GetHash tx) height (IsCoinBase tx) 0 (vout tx)"

text \<open>\<open>UpdateCoins\<close> of \<^verbatim>\<open>validation.cpp\<close> returns \<^verbatim>\<open>txundo.vprevout\<close>.\<close>

fun UpdateCoins_spend ::
    "(Coin \<Rightarrow> u64) \<Rightarrow> 'v view_ops \<Rightarrow> 'v CCoinsViewCache \<Rightarrow> CTxIn list \<Rightarrow> coins_error + Coin list \<times> 'v CCoinsViewCache" where
  "UpdateCoins_spend usage ops inputs [] = Inr ([], inputs)"
| "UpdateCoins_spend usage ops inputs (txin # ins) =
     (case SpendCoin usage ops inputs (prevout txin) of
        (is_spent, moveout, inputs) \<Rightarrow>
          if \<not> is_spent then Inl AssertionFailed
          else (case UpdateCoins_spend usage ops inputs ins of
                  Inl err \<Rightarrow> Inl err
                | Inr (undo, inputs) \<Rightarrow>
                    Inr ((case moveout of Some cn \<Rightarrow> cn | None \<Rightarrow> Coin_empty) # undo, inputs)))"

definition UpdateCoins ::
    "(CTransaction \<Rightarrow> uint256) \<Rightarrow> (Coin \<Rightarrow> u64) \<Rightarrow> 'v view_ops \<Rightarrow> CTransaction \<Rightarrow> 'v CCoinsViewCache \<Rightarrow> int \<Rightarrow>
     coins_error + Coin list \<times> 'v CCoinsViewCache" where
  "UpdateCoins GetHash usage ops tx inputs height =
     (case (if \<not> IsCoinBase tx then UpdateCoins_spend usage ops inputs (vin tx) else Inr ([], inputs)) of
        Inl err \<Rightarrow> Inl err
      | Inr (undo, inputs) \<Rightarrow>
          (case AddCoins GetHash usage inputs tx height of
             Inl err \<Rightarrow> Inl err
           | Inr inputs \<Rightarrow> Inr (undo, inputs)))"

end
