(* ===== verification/Coins_View.thy ===== *)
theory Coins_View
  imports Coins
begin

unbundle bit_operations_syntax

text \<open>
  What a view of the unspent-output set promises, as the locale \<open>coins_view\<close>, and the proof that
  a cache over any view that keeps the promise keeps it again. The abstract state of a view is
  the map \<open>utxo\<close> from outpoints to unspent coins and the block hash \<open>best\<close>; every cache
  operation is a refinement of an operation on this map.
\<close>

section \<open>Flags\<close>

abbreviation is_dirty :: "CCoinsCacheEntry \<Rightarrow> bool" where
  "is_dirty e \<equiv> bit (flags e) 0"

abbreviation is_fresh :: "CCoinsCacheEntry \<Rightarrow> bool" where
  "is_fresh e \<equiv> bit (flags e) 1"

lemma DIRTY_test [flag_simps]: "f AND DIRTY = 0 \<longleftrightarrow> \<not> bit f 0"
  using and_2p_u8 [of 0 f] by (simp add: DIRTY_def)

lemma FRESH_test [flag_simps]: "f AND FRESH = 0 \<longleftrightarrow> \<not> bit f 1"
  using and_2p_u8 [of 1 f] by (simp add: FRESH_def)

lemma bit_flags [flag_simps, simp]: "bit DIRTY 0" "\<not> bit DIRTY (Suc 0)" "\<not> bit FRESH 0" "bit FRESH (Suc 0)"
  by (simp_all add: DIRTY_def FRESH_def bit_push_bit_iff)

lemmas flag_set [flag_simps] = bit_or_iff

lemma Coin_empty_spent [simp]: "IsSpent Coin_empty" "IsSpent (Coin_Clear c)"
  by (simp_all add: IsSpent_def CTxOut_IsNull_def Coin_empty_def Coin_Clear_def CTxOut_null_def)

lemma CCoinsCacheEntry_empty_simps [simp]:
  "coin CCoinsCacheEntry_empty = Coin_empty" "flags CCoinsCacheEntry_empty = 0"
  by (simp_all add: CCoinsCacheEntry_empty_def)

section \<open>The contract of a view\<close>

definition unspent :: "Coin \<Rightarrow> Coin option" where
  "unspent c = (if IsSpent c then None else Some c)"

lemma unspent_simps [simp]: "IsSpent c \<Longrightarrow> unspent c = None" "\<not> IsSpent c \<Longrightarrow> unspent c = Some c"
  by (simp_all add: unspent_def)

text \<open>The effect of writing the dirty entries of a map to a set of unspent coins.\<close>

definition apply_entries :: "CCoinsMap \<Rightarrow> (COutPoint \<rightharpoonup> Coin) \<Rightarrow> (COutPoint \<rightharpoonup> Coin)" where
  "apply_entries m u p =
     (case m p of None \<Rightarrow> u p | Some e \<Rightarrow> if is_dirty e then unspent (coin e) else u p)"

text \<open>An entry that claims to be fresh is one the parent has no unspent coin for.\<close>

definition fresh_ok :: "CCoinsMap \<Rightarrow> (COutPoint \<rightharpoonup> Coin) \<Rightarrow> bool" where
  "fresh_ok m u \<longleftrightarrow> (\<forall>p e. m p = Some e \<longrightarrow> is_dirty e \<longrightarrow> is_fresh e \<longrightarrow> u p = None)"

locale coins_view =
  fixes ops :: "'v view_ops"
    and valid :: "'v \<Rightarrow> bool"
    and utxo :: "'v \<Rightarrow> COutPoint \<rightharpoonup> Coin"
    and best :: "'v \<Rightarrow> uint256"
  assumes get: "valid v \<Longrightarrow> vGetCoin ops v p = (r, v') \<Longrightarrow>
      r = utxo v p \<and> valid v' \<and> utxo v' = utxo v \<and> best v' = best v"
    and get_best: "valid v \<Longrightarrow> vGetBestBlock ops v = (h, v') \<Longrightarrow>
      h = best v \<and> valid v' \<and> utxo v' = utxo v \<and> best v' = best v"
    and batch: "valid v \<Longrightarrow> enumerates es m \<Longrightarrow> fresh_ok m (utxo v) \<Longrightarrow> h \<noteq> 0 \<Longrightarrow>
      \<exists>v'. vBatchWrite ops v es h = Inr (True, v') \<and> valid v' \<and> utxo v' = apply_entries m (utxo v) \<and> best v' = h"
    and utxo_unspent: "valid v \<Longrightarrow> utxo v p = Some c \<Longrightarrow> \<not> IsSpent c"

text \<open>The abstract state of a cache.\<close>

definition cache_utxo :: "('v \<Rightarrow> COutPoint \<rightharpoonup> Coin) \<Rightarrow> 'v CCoinsViewCache \<Rightarrow> COutPoint \<rightharpoonup> Coin" where
  "cache_utxo utxo c p =
     (case cacheCoins c p of None \<Rightarrow> utxo (base c) p | Some e \<Rightarrow> unspent (coin e))"

definition cache_best :: "('v \<Rightarrow> uint256) \<Rightarrow> 'v CCoinsViewCache \<Rightarrow> uint256" where
  "cache_best best c = (if hashBlock c = 0 then best (base c) else hashBlock c)"

text \<open>
  The invariant of an entry against the base: fresh entries are unspent here and unknown to
  the base, clean entries are unspent copies of what the base has.
\<close>

definition entry_ok :: "(COutPoint \<rightharpoonup> Coin) \<Rightarrow> COutPoint \<Rightarrow> CCoinsCacheEntry \<Rightarrow> bool" where
  "entry_ok u p e \<longleftrightarrow>
     (is_fresh e \<longrightarrow> u p = None \<and> \<not> IsSpent (coin e)) \<and>
     (\<not> is_dirty e \<longrightarrow> u p = Some (coin e) \<and> \<not> IsSpent (coin e))"

definition cache_inv ::
    "('v \<Rightarrow> bool) \<Rightarrow> ('v \<Rightarrow> COutPoint \<rightharpoonup> Coin) \<Rightarrow> 'v CCoinsViewCache \<Rightarrow> bool" where
  "cache_inv valid utxo c \<longleftrightarrow>
     valid (base c) \<and> (\<forall>p e. cacheCoins c p = Some e \<longrightarrow> entry_ok (utxo (base c)) p e)"

lemma cache_invD: "cache_inv valid utxo c \<Longrightarrow> cacheCoins c p = Some e \<Longrightarrow> entry_ok (utxo (base c)) p e"
  by (simp add: cache_inv_def)

lemma cache_inv_update:
  assumes "cache_inv valid utxo c" "entry_ok (utxo (base c)) p e"
  shows "cache_inv valid utxo (c\<lparr> cacheCoins := (cacheCoins c)(p \<mapsto> e), cachedCoinsUsage := n \<rparr>)"
  using assms by (auto simp: cache_inv_def)

lemma cache_inv_delete:
  "cache_inv valid utxo c \<Longrightarrow>
   cache_inv valid utxo (c\<lparr> cacheCoins := (cacheCoins c)(p := None), cachedCoinsUsage := n \<rparr>)"
  by (auto simp: cache_inv_def)

lemma cache_utxo_update:
  "cache_utxo utxo (c\<lparr> cacheCoins := (cacheCoins c)(p \<mapsto> e), cachedCoinsUsage := n \<rparr>) =
   (cache_utxo utxo c)(p := unspent (coin e))"
  by (auto simp: cache_utxo_def fun_eq_iff split: option.split)

lemma cache_utxo_delete:
  "cache_utxo utxo (c\<lparr> cacheCoins := (cacheCoins c)(p := None), cachedCoinsUsage := n \<rparr>) =
   (cache_utxo utxo c)(p := utxo (base c) p)"
  by (auto simp: cache_utxo_def fun_eq_iff split: option.split)

lemma cache_utxo_cong:
  "cacheCoins c' = cacheCoins c \<Longrightarrow> utxo (base c') = utxo (base c) \<Longrightarrow> cache_utxo utxo c' = cache_utxo utxo c"
  by (simp add: cache_utxo_def fun_eq_iff split: option.split)

context coins_view
begin

abbreviation c_inv :: "'v CCoinsViewCache \<Rightarrow> bool" where "c_inv \<equiv> cache_inv valid utxo"
abbreviation c_utxo :: "'v CCoinsViewCache \<Rightarrow> COutPoint \<rightharpoonup> Coin" where "c_utxo \<equiv> cache_utxo utxo"
abbreviation c_best :: "'v CCoinsViewCache \<Rightarrow> uint256" where "c_best \<equiv> cache_best best"

lemma c_utxo_unspent: "c_inv c \<Longrightarrow> c_utxo c p = Some cn \<Longrightarrow> \<not> IsSpent cn"
  by (auto simp: cache_utxo_def unspent_def cache_inv_def utxo_unspent split: option.splits if_splits)

lemma make_refines:
  "valid v \<Longrightarrow> c_inv (CCoinsViewCache_make v) \<and> c_utxo (CCoinsViewCache_make v) = utxo v \<and>
   c_best (CCoinsViewCache_make v) = best v"
  by (auto simp: CCoinsViewCache_make_def cache_inv_def cache_utxo_def cache_best_def)

lemma FetchCoin_refines:
  assumes "c_inv c" "FetchCoin usage ops c p = (r, c')"
  shows "c_inv c' \<and> c_utxo c' = c_utxo c \<and> c_best c' = c_best c \<and> cacheCoins c' p = r \<and>
    c_utxo c p = (case r of None \<Rightarrow> None | Some e \<Rightarrow> unspent (coin e)) \<and>
    (r = None \<longrightarrow> utxo (base c') p = None) \<and> hashBlock c' = hashBlock c"
proof (cases "cacheCoins c p")
  case (Some e)
  then show ?thesis using assms by (auto simp: FetchCoin_def cache_utxo_def split: option.split)
next
  case None
  obtain t b where g: "vGetCoin ops (base c) p = (t, b)" by (cases "vGetCoin ops (base c) p")
  have "valid (base c)" using assms(1) by (simp add: cache_inv_def)
  from get [OF this g] have b: "t = utxo (base c) p" "valid b" "utxo b = utxo (base c)" "best b = best (base c)"
    by auto
  show ?thesis
  proof (cases t)
    case None
    then show ?thesis using assms g b \<open>cacheCoins c p = None\<close>
      by (auto simp: FetchCoin_def cache_inv_def cache_best_def cache_utxo_def [of _ _ p] intro!: cache_utxo_cong)
  next
    case (Some tmp)
    then have un: "\<not> IsSpent tmp" using b utxo_unspent \<open>valid (base c)\<close> by metis
    then have r: "r = Some (CCoinsCacheEntry_make tmp)" and
      c': "c' = c\<lparr> base := b, cacheCoins := (cacheCoins c)(p \<mapsto> CCoinsCacheEntry_make tmp),
        cachedCoinsUsage := cachedCoinsUsage c + usage tmp \<rparr>"
      using assms(2) g Some None by (auto simp: FetchCoin_def CCoinsCacheEntry_make_def Let_def)
    have u: "c_utxo c' = c_utxo c"
      unfolding c' using b un Some None
      by (auto simp: cache_utxo_def CCoinsCacheEntry_make_def fun_eq_iff split: option.split)
    show ?thesis unfolding u unfolding r c' using assms(1) b un Some None
      by (auto simp: cache_inv_def cache_utxo_def [of _ _ p] cache_best_def entry_ok_def CCoinsCacheEntry_make_def)
  qed
qed

lemma GetCoin_refines:
  assumes "c_inv c" "GetCoin usage ops c p = (r, c')"
  shows "r = c_utxo c p \<and> c_inv c' \<and> c_utxo c' = c_utxo c \<and> c_best c' = c_best c"
  using assms FetchCoin_refines [OF assms(1)]
  by (fastforce simp: GetCoin_def unspent_def split: prod.splits option.splits if_splits)

lemma HaveCoin_refines:
  assumes "c_inv c" "HaveCoin usage ops c p = (r, c')"
  shows "(r \<longleftrightarrow> c_utxo c p \<noteq> None) \<and> c_inv c' \<and> c_utxo c' = c_utxo c \<and> c_best c' = c_best c"
  using assms FetchCoin_refines [OF assms(1)]
  by (fastforce simp: HaveCoin_def unspent_def split: prod.splits option.splits if_splits)

lemma AccessCoin_refines:
  assumes "c_inv c" "AccessCoin usage ops c p = (r, c')"
  shows "c_utxo c p = unspent r \<and> c_inv c' \<and> c_utxo c' = c_utxo c \<and> c_best c' = c_best c"
  using assms FetchCoin_refines [OF assms(1)]
  by (fastforce simp: AccessCoin_def unspent_def split: prod.splits option.splits if_splits)

lemma GetBestBlock_refines:
  assumes "c_inv c" "GetBestBlock ops c = (h, c')"
  shows "h = c_best c \<and> c_inv c' \<and> c_utxo c' = c_utxo c \<and> c_best c' = c_best c"
proof -
  obtain h' b where g: "vGetBestBlock ops (base c) = (h', b)" by (cases "vGetBestBlock ops (base c)")
  have "valid (base c)" using assms(1) by (simp add: cache_inv_def)
  from get_best [OF this g] show ?thesis using assms g
    by (auto simp: GetBestBlock_def cache_inv_def cache_best_def intro!: cache_utxo_cong split: if_splits)
qed

lemma SetBestBlock_refines:
  "c_inv c \<Longrightarrow> h \<noteq> 0 \<Longrightarrow>
   c_inv (SetBestBlock c h) \<and> c_utxo (SetBestBlock c h) = c_utxo c \<and> c_best (SetBestBlock c h) = h"
  by (auto simp: SetBestBlock_def cache_inv_def cache_best_def intro!: cache_utxo_cong)

lemma AddCoin_refines:
  assumes "c_inv c" "\<not> IsSpent cn" "\<not> overwrite \<Longrightarrow> c_utxo c p = None"
  shows "\<exists>c'. AddCoin usage c p cn overwrite = Inr c' \<and> c_inv c' \<and> base c' = base c \<and> hashBlock c' = hashBlock c \<and>
    c_utxo c' = (if IsUnspendable (scriptPubKey (out cn)) then c_utxo c else (c_utxo c)(p \<mapsto> cn))"
proof (cases "IsUnspendable (scriptPubKey (out cn))")
  case True
  then show ?thesis using assms by (simp add: AddCoin_def)
next
  case sp: False
  define e where "e = (case cacheCoins c p of Some e \<Rightarrow> e | None \<Rightarrow> CCoinsCacheEntry_empty)"
  define fresh where "fresh \<longleftrightarrow> \<not> overwrite \<and> \<not> is_dirty e"
  define e' where "e' = e\<lparr> coin := cn, flags := flags e OR (DIRTY OR (if fresh then FRESH else 0)) \<rparr>"
  have ne: "overwrite \<or> IsSpent (coin e)"
    using assms(3) by (cases overwrite) (auto simp: e_def cache_utxo_def unspent_def split: option.splits if_splits)
  then have add: "\<exists>n. AddCoin usage c p cn overwrite =
      Inr (c\<lparr> cacheCoins := (cacheCoins c)(p \<mapsto> e'), cachedCoinsUsage := n \<rparr>)"
    using assms(2) sp
    by (cases "cacheCoins c p") (auto simp: AddCoin_def e_def e'_def fresh_def Let_def flag_simps)
  have ok: "entry_ok (utxo (base c)) p e'"
  proof (cases "cacheCoins c p")
    case None
    then show ?thesis using assms(2,3)
      by (auto simp: entry_ok_def e'_def e_def fresh_def cache_utxo_def flag_simps split: if_splits)
  next
    case (Some x)
    then have "entry_ok (utxo (base c)) p e" using cache_invD [OF assms(1)] by (simp add: e_def)
    then show ?thesis using assms(2) ne by (auto simp: entry_ok_def e'_def fresh_def flag_simps split: if_splits)
  qed
  show ?thesis using add cache_inv_update [OF assms(1) ok] sp assms(2)
    by (auto simp: cache_utxo_update e'_def)
qed

lemma SpendCoin_refines:
  assumes "c_inv c" "SpendCoin usage ops c p = (r, moveout, c')"
  shows "c_inv c' \<and> c_utxo c' = (c_utxo c)(p := None) \<and> c_best c' = c_best c \<and> hashBlock c' = hashBlock c \<and>
    (case c_utxo c p of Some cn \<Rightarrow> r \<and> moveout = Some cn | None \<Rightarrow> r \<longrightarrow> (\<exists>cn. moveout = Some cn \<and> IsSpent cn))"
proof -
  obtain f d where F: "FetchCoin usage ops c p = (f, d)" by (cases "FetchCoin usage ops c p")
  note fr = FetchCoin_refines [OF assms(1) F]
  have best: "c_best (d\<lparr> cacheCoins := m, cachedCoinsUsage := n \<rparr>) = c_best c" for m n
    using fr by (auto simp: cache_best_def split: if_splits)
  show ?thesis
  proof (cases f)
    case None
    then show ?thesis using assms(2) F fr by (auto simp: SpendCoin_def fun_eq_iff)
  next
    case (Some e)
    then have ok: "entry_ok (utxo (base d)) p e" using fr cache_invD by metis
    let ?e = "e\<lparr> flags := flags e OR DIRTY, coin := Coin_Clear (coin e) \<rparr>"
    have mv: "case c_utxo c p of Some cn \<Rightarrow> coin e = cn | None \<Rightarrow> IsSpent (coin e)"
      using fr Some by (auto simp: unspent_def split: option.splits if_splits)
    show ?thesis
    proof (cases "is_fresh e")
      case True
      then have "\<exists>n. r \<and> moveout = Some (coin e) \<and>
          c' = d\<lparr> cacheCoins := (cacheCoins d)(p := None), cachedCoinsUsage := n \<rparr>"
        using assms(2) F Some by (auto simp: SpendCoin_def Let_def flag_simps)
      moreover have "utxo (base d) p = None" using ok True by (simp add: entry_ok_def)
      ultimately show ?thesis using fr mv cache_inv_delete [of valid utxo d] best
        by (auto simp: cache_utxo_delete split: option.splits)
    next
      case False
      then have "\<exists>n. r \<and> moveout = Some (coin e) \<and>
          c' = d\<lparr> cacheCoins := (cacheCoins d)(p \<mapsto> ?e), cachedCoinsUsage := n \<rparr>"
        using assms(2) F Some by (auto simp: SpendCoin_def Let_def flag_simps)
      moreover have "entry_ok (utxo (base d)) p ?e" using False by (simp add: entry_ok_def flag_simps)
      ultimately show ?thesis using fr mv cache_inv_update [of valid utxo d p ?e] best
        by (auto simp: cache_utxo_update split: option.splits)
    qed
  qed
qed

lemma Uncache_refines:
  assumes "c_inv c"
  shows "c_inv (Uncache usage c p) \<and> c_utxo (Uncache usage c p) = c_utxo c \<and>
    c_best (Uncache usage c p) = c_best c"
proof (cases "cacheCoins c p")
  case None
  then show ?thesis using assms by (simp add: Uncache_def)
next
  case (Some e)
  show ?thesis
  proof (cases "flags e = 0")
    case True
    have "utxo (base c) p = c_utxo c p"
      using cache_invD [OF assms Some] True Some by (auto simp: entry_ok_def cache_utxo_def)
    then have "(c_utxo c)(p := utxo (base c) p) = c_utxo c" by (simp add: fun_eq_iff)
    moreover have "Uncache usage c p =
        c\<lparr> cacheCoins := (cacheCoins c)(p := None), cachedCoinsUsage := cachedCoinsUsage c - usage (coin e) \<rparr>"
      using True Some by (simp add: Uncache_def)
    ultimately show ?thesis using cache_inv_delete [OF assms] by (simp add: cache_utxo_delete cache_best_def)
  next
    case False
    then show ?thesis using assms Some by (simp add: Uncache_def)
  qed
qed

lemma BatchWrite_entry_refines:
  assumes "c_inv c" "is_dirty e \<Longrightarrow> is_fresh e \<Longrightarrow> c_utxo c p = None"
  shows "\<exists>c'. BatchWrite_entry usage c p e = Inr c' \<and> c_inv c' \<and>
    c_utxo c' = (if is_dirty e then (c_utxo c)(p := unspent (coin e)) else c_utxo c)"
proof (cases "is_dirty e")
  case False
  then show ?thesis using assms by (simp add: BatchWrite_entry_def flag_simps)
next
  case dirty: True
  show ?thesis
  proof (cases "cacheCoins c p")
    case None
    let ?e = "\<lparr> coin = coin e, flags = DIRTY OR (if is_fresh e then FRESH else 0) \<rparr>"
    show ?thesis
    proof (cases "is_fresh e \<and> IsSpent (coin e)")
      case True
      then have "(c_utxo c)(p := None) = c_utxo c" using assms(2) dirty by (simp add: fun_eq_iff)
      then show ?thesis using True None dirty assms by (simp add: BatchWrite_entry_def flag_simps)
    next
      case False
      have "is_fresh e \<Longrightarrow> utxo (base c) p = None" using assms(2) dirty None by (simp add: cache_utxo_def)
      then have "entry_ok (utxo (base c)) p ?e" using False by (auto simp: entry_ok_def flag_simps split: if_splits)
      then show ?thesis using False None dirty cache_inv_update [OF assms(1)]
        by (auto simp: BatchWrite_entry_def flag_simps Let_def cache_utxo_update)
    qed
  next
    case (Some us)
    note ok = cache_invD [OF assms(1) Some]
    have ne: "\<not> (is_fresh e \<and> \<not> IsSpent (coin us))"
      using assms(2) dirty Some by (auto simp: cache_utxo_def unspent_def split: if_splits)
    show ?thesis
    proof (cases "is_fresh us \<and> IsSpent (coin e)")
      case True
      then have "utxo (base c) p = None" using ok by (simp add: entry_ok_def)
      then show ?thesis using True ne Some dirty cache_inv_delete [OF assms(1)]
        by (auto simp: BatchWrite_entry_def flag_simps cache_utxo_delete)
    next
      case False
      let ?e = "us\<lparr> coin := coin e, flags := flags us OR DIRTY \<rparr>"
      have "entry_ok (utxo (base c)) p ?e" using ok False by (auto simp: entry_ok_def flag_simps)
      then show ?thesis using False ne Some dirty cache_inv_update [OF assms(1)]
        by (auto simp: BatchWrite_entry_def flag_simps cache_utxo_update)
    qed
  qed
qed

lemma BatchWrite_loop_refines:
  assumes "c_inv c" "distinct (map fst es)"
    and "\<And>p e. (p, e) \<in> set es \<Longrightarrow> is_dirty e \<Longrightarrow> is_fresh e \<Longrightarrow> c_utxo c p = None"
  shows "\<exists>c'. BatchWrite_loop usage c es = Inr c' \<and> c_inv c' \<and> c_utxo c' = apply_entries (map_of es) (c_utxo c)"
  using assms
proof (induction es arbitrary: c)
  case Nil
  then show ?case by (simp add: apply_entries_def [abs_def])
next
  case (Cons x es)
  obtain p e where x: "x = (p, e)" by (cases x)
  obtain d where d: "BatchWrite_entry usage c p e = Inr d" "c_inv d"
    "c_utxo d = (if is_dirty e then (c_utxo c)(p := unspent (coin e)) else c_utxo c)"
    using BatchWrite_entry_refines [OF Cons.prems(1), of e p usage] Cons.prems(3) x by force
  have "c_utxo d q = None" if "(q, e') \<in> set es" "is_dirty e'" "is_fresh e'" for q e'
  proof -
    have "q \<noteq> p" using that(1) Cons.prems(2) x by force
    then show ?thesis using Cons.prems(3) [of q e'] that d(3) by auto
  qed
  then obtain c' where c': "BatchWrite_loop usage d es = Inr c'" "c_inv c'"
    "c_utxo c' = apply_entries (map_of es) (c_utxo d)"
    using Cons.IH [OF d(2)] Cons.prems(2) by auto
  have "map_of es p = None" using Cons.prems(2) x by (simp add: map_of_eq_None_iff)
  then have "apply_entries (map_of es) (c_utxo d) = apply_entries (map_of (x # es)) (c_utxo c)"
    unfolding d(3) x by (auto simp: apply_entries_def fun_eq_iff split: option.split)
  then show ?case using c' d(1) unfolding x by (simp add: fun_upd_def)
qed

lemma BatchWrite_refines:
  assumes "c_inv c" "enumerates es m" "fresh_ok m (c_utxo c)" "h \<noteq> 0"
  shows "\<exists>c'. BatchWrite usage c es h = Inr (True, c') \<and> c_inv c' \<and>
    c_utxo c' = apply_entries m (c_utxo c) \<and> c_best c' = h"
proof -
  have "distinct (map fst es)" "map_of es = m" using assms(2) by (auto simp: enumerates_def)
  moreover have "c_utxo c p = None" if "(p, e) \<in> set es" "is_dirty e" "is_fresh e" for p e
    using assms(3) that enumerates_set [OF assms(2)] by (auto simp: fresh_ok_def)
  ultimately obtain c' where "BatchWrite_loop usage c es = Inr c'" "c_inv c'" "c_utxo c' = apply_entries m (c_utxo c)"
    using BatchWrite_loop_refines [OF assms(1)] by blast
  then show ?thesis using assms(4) cache_utxo_cong [of "c'\<lparr> hashBlock := h \<rparr>" c' utxo]
    by (auto simp: BatchWrite_def cache_inv_def cache_best_def)
qed

text \<open>A cache over a view is a view again.\<close>

lemma cache_is_view: "coins_view (cache_ops usage ops) c_inv c_utxo c_best"
  by unfold_locales
     (auto simp: cache_ops_def dest: GetCoin_refines GetBestBlock_refines BatchWrite_refines c_utxo_unspent)

text \<open>Flushing a cache moves its contents into the base and changes nothing that can be observed.\<close>

lemma entries_describe_cache:
  assumes "c_inv c"
  shows "apply_entries (cacheCoins c) (utxo (base c)) = c_utxo c" "fresh_ok (cacheCoins c) (utxo (base c))"
proof
  fix p
  show "apply_entries (cacheCoins c) (utxo (base c)) p = c_utxo c p"
    using cache_invD [OF assms, of p]
    by (cases "cacheCoins c p") (auto simp: apply_entries_def cache_utxo_def entry_ok_def)
next
  show "fresh_ok (cacheCoins c) (utxo (base c))"
    using cache_invD [OF assms] by (auto simp: fresh_ok_def entry_ok_def)
qed

lemma Flush_refines:
  assumes "c_inv c" "enumerates order (cacheCoins c)" "hashBlock c \<noteq> 0"
  shows "\<exists>c'. Flush ops c order = Inr (True, c') \<and> c_inv c' \<and> c_utxo c' = c_utxo c \<and> c_best c' = c_best c \<and>
    cacheCoins c' = (\<lambda>_. None) \<and> utxo (base c') = c_utxo c \<and> best (base c') = c_best c"
proof -
  have "valid (base c)" using assms(1) by (simp add: cache_inv_def)
  from batch [OF this assms(2) entries_describe_cache(2) [OF assms(1)] assms(3)]
  obtain b where "vBatchWrite ops (base c) order (hashBlock c) = Inr (True, b)" "valid b"
    "utxo b = c_utxo c" "best b = hashBlock c"
    unfolding entries_describe_cache(1) [OF assms(1)] by blast
  then show ?thesis using assms(3)
    by (auto simp: Flush_def cache_inv_def cache_utxo_def [abs_def] cache_best_def)
qed

section \<open>Inputs and outputs of a transaction\<close>

lemma HaveInputs_loop_refines:
  assumes "c_inv c" "HaveInputs_loop usage ops c ins = (r, c')"
  shows "(r \<longleftrightarrow> (\<forall>txin \<in> set ins. c_utxo c (prevout txin) \<noteq> None)) \<and>
    c_inv c' \<and> c_utxo c' = c_utxo c \<and> c_best c' = c_best c"
  using assms
proof (induction ins arbitrary: c)
  case Nil
  then show ?case by simp
next
  case (Cons txin ins)
  obtain h d where h: "HaveCoin usage ops c (prevout txin) = (h, d)"
    by (cases "HaveCoin usage ops c (prevout txin)")
  from HaveCoin_refines [OF Cons.prems(1) h] Cons.IH [of d] Cons.prems(2) h show ?case
    by (auto split: if_splits)
qed

lemma UpdateCoins_spend_refines:
  assumes "c_inv c" "distinct (map prevout ins)" "\<And>txin. txin \<in> set ins \<Longrightarrow> c_utxo c (prevout txin) \<noteq> None"
  shows "\<exists>c'. UpdateCoins_spend usage ops c ins = Inr (map (\<lambda>txin. the (c_utxo c (prevout txin))) ins, c') \<and>
    c_inv c' \<and> c_utxo c' = (c_utxo c) |` (- (prevout ` set ins)) \<and> c_best c' = c_best c \<and> hashBlock c' = hashBlock c"
  using assms
proof (induction ins arbitrary: c)
  case Nil
  then show ?case by simp
next
  case (Cons txin ins)
  obtain r m d where sp: "SpendCoin usage ops c (prevout txin) = (r, m, d)"
    by (cases "SpendCoin usage ops c (prevout txin)")
  obtain cn where cn: "c_utxo c (prevout txin) = Some cn" using Cons.prems(3) by fastforce
  have d: "c_inv d" "c_utxo d = (c_utxo c)(prevout txin := None)" "c_best d = c_best c" "hashBlock d = hashBlock c"
    "r" "m = Some cn"
    using SpendCoin_refines [OF Cons.prems(1) sp] cn by auto
  have same: "c_utxo d (prevout t) = c_utxo c (prevout t)" if "t \<in> set ins" for t
  proof -
    have "prevout t \<in> set (map prevout ins)" using that by simp
    then have "prevout t \<noteq> prevout txin" using Cons.prems(2) by (metis distinct.simps(2) list.simps(9))
    then show ?thesis using d(2) by simp
  qed
  then have "\<And>t. t \<in> set ins \<Longrightarrow> c_utxo d (prevout t) \<noteq> None" using Cons.prems(3) by simp
  from Cons.IH [OF d(1) _ this] Cons.prems(2) obtain c' where
    c': "UpdateCoins_spend usage ops d ins = Inr (map (\<lambda>t. the (c_utxo d (prevout t))) ins, c')" "c_inv c'"
      "c_utxo c' = (c_utxo d) |` (- (prevout ` set ins))" "c_best c' = c_best d" "hashBlock c' = hashBlock d"
    by auto
  have "map (\<lambda>t. the (c_utxo d (prevout t))) ins = map (\<lambda>t. the (c_utxo c (prevout t))) ins"
    using same by simp
  moreover have "(c_utxo d) |` (- (prevout ` set ins)) = (c_utxo c) |` (- (prevout ` set (txin # ins)))"
    unfolding d(2) by (auto simp: fun_eq_iff restrict_map_def)
  ultimately show ?case using c' d sp cn by simp
qed

end

end
