(* ===== verification/Connect.thy ===== *)
theory Connect
  imports Coins_View
begin

unbundle bit_operations_syntax

text \<open>
  Applying and undoing transactions on the unspent-output set: the parts of \<^verbatim>\<open>ConnectBlock\<close> and
  \<^verbatim>\<open>DisconnectBlock\<close> of \<^verbatim>\<open>validation.cpp\<close> that change a \<^verbatim>\<open>CCoinsViewCache\<close>, with
  \<^verbatim>\<open>ApplyTxInUndo\<close> and \<^verbatim>\<open>AccessByTxid\<close>, and the amount and maturity rules of
  \<^verbatim>\<open>Consensus::CheckTxInputs\<close>. The optional address, spent and timestamp indexes are not kept.
\<close>

section \<open>Consensus constants\<close>

definition MAX_LEGACY_BLOCK_SIZE :: nat where
  "MAX_LEGACY_BLOCK_SIZE = 1000000"

definition MAX_DIP0001_BLOCK_SIZE :: nat where
  "MAX_DIP0001_BLOCK_SIZE = 2000000"

definition MaxBlockSize :: "bool \<Rightarrow> nat" where
  "MaxBlockSize fDIP0001Active = (if fDIP0001Active then MAX_DIP0001_BLOCK_SIZE else MAX_LEGACY_BLOCK_SIZE)"

definition MaxBlockSigOps :: "bool \<Rightarrow> nat" where
  "MaxBlockSigOps fDIP0001Active = MaxBlockSize fDIP0001Active div 50"

definition MAX_TX_EXTRA_PAYLOAD :: nat where
  "MAX_TX_EXTRA_PAYLOAD = 10000"

definition COINBASE_MATURITY :: int where
  "COINBASE_MATURITY = 100"

section \<open>Looking a transaction up by its id\<close>

definition MAX_OUTPUTS_PER_BLOCK :: nat where
  "MAX_OUTPUTS_PER_BLOCK = MaxBlockSize True div length (Serialize_CTxOut CTxOut_null)"

function AccessByTxid_loop ::
    "(Coin \<Rightarrow> u64) \<Rightarrow> 'v view_ops \<Rightarrow> 'v CCoinsViewCache \<Rightarrow> uint256 \<Rightarrow> nat \<Rightarrow> Coin \<times> 'v CCoinsViewCache" where
  "AccessByTxid_loop usage ops view txid n =
     (if n < MAX_OUTPUTS_PER_BLOCK then
        (case AccessCoin usage ops view (COutPoint txid (of_nat n)) of
           (alternate, view) \<Rightarrow>
             if \<not> IsSpent alternate then (alternate, view)
             else AccessByTxid_loop usage ops view txid (Suc n))
      else (Coin_empty, view))"
  by pat_completeness auto
termination
  by (relation "measure (\<lambda>(usage, ops, view, txid, n). MAX_OUTPUTS_PER_BLOCK - n)") auto

declare AccessByTxid_loop.simps [simp del]

definition AccessByTxid ::
    "(Coin \<Rightarrow> u64) \<Rightarrow> 'v view_ops \<Rightarrow> 'v CCoinsViewCache \<Rightarrow> uint256 \<Rightarrow> Coin \<times> 'v CCoinsViewCache" where
  "AccessByTxid usage ops view txid = AccessByTxid_loop usage ops view txid 0"

section \<open>Undoing\<close>

datatype DisconnectResult = DISCONNECT_OK | DISCONNECT_UNCLEAN | DISCONNECT_FAILED

definition ApplyTxInUndo ::
    "(Coin \<Rightarrow> u64) \<Rightarrow> 'v view_ops \<Rightarrow> Coin \<Rightarrow> 'v CCoinsViewCache \<Rightarrow> COutPoint \<Rightarrow>
     coins_error + DisconnectResult \<times> 'v CCoinsViewCache" where
  "ApplyTxInUndo usage ops undo view outp =
     (case HaveCoin usage ops view outp of
        (have, view) \<Rightarrow>
          (let fClean = \<not> have;
               result = (if fClean then DISCONNECT_OK else DISCONNECT_UNCLEAN)
           in if nHeight undo = 0 then
                (case AccessByTxid usage ops view (op_hash outp) of
                   (alternate, view) \<Rightarrow>
                     if \<not> IsSpent alternate then
                       (let undo = undo\<lparr> nHeight := nHeight alternate, fCoinBase := fCoinBase alternate \<rparr>
                        in case AddCoin usage view outp undo (fCoinBase undo) of
                             Inl err \<Rightarrow> Inl err
                           | Inr view \<Rightarrow> Inr (result, view))
                     else Inr (DISCONNECT_FAILED, view))
              else (case AddCoin usage view outp undo (fCoinBase undo) of
                      Inl err \<Rightarrow> Inl err
                    | Inr view \<Rightarrow> Inr (result, view))))"

text \<open>The loop over the outputs of a transaction in \<^verbatim>\<open>DisconnectBlock\<close>, from output \<open>i\<close> on.\<close>

fun Disconnect_outputs ::
    "(Coin \<Rightarrow> u64) \<Rightarrow> 'v view_ops \<Rightarrow> uint256 \<Rightarrow> int \<Rightarrow> bool \<Rightarrow> nat \<Rightarrow> CTxOut list \<Rightarrow> bool \<Rightarrow> 'v CCoinsViewCache \<Rightarrow>
     bool \<times> 'v CCoinsViewCache" where
  "Disconnect_outputs usage ops hash height is_coinbase i [] fClean view = (fClean, view)"
| "Disconnect_outputs usage ops hash height is_coinbase i (txout # outs) fClean view =
     (if \<not> IsUnspendable (scriptPubKey txout) then
        (case SpendCoin usage ops view (COutPoint hash (of_nat i)) of
           (is_spent, moveout, view) \<Rightarrow>
             (let cn = (case moveout of Some cn \<Rightarrow> cn | None \<Rightarrow> Coin_empty);
                  mismatch = (\<not> is_spent \<or> txout \<noteq> out cn \<or> height \<noteq> int (unat (nHeight cn)) \<or> is_coinbase \<noteq> fCoinBase cn)
              in Disconnect_outputs usage ops hash height is_coinbase (Suc i) outs
                   (if mismatch then False else fClean) view))
      else Disconnect_outputs usage ops hash height is_coinbase (Suc i) outs fClean view)"

text \<open>The loop over the inputs, which the code runs from the last to the first.\<close>

fun Disconnect_inputs ::
    "(Coin \<Rightarrow> u64) \<Rightarrow> 'v view_ops \<Rightarrow> (CTxIn \<times> Coin) list \<Rightarrow> bool \<Rightarrow> 'v CCoinsViewCache \<Rightarrow>
     coins_error + DisconnectResult \<times> 'v CCoinsViewCache" where
  "Disconnect_inputs usage ops [] fClean view = Inr (if fClean then DISCONNECT_OK else DISCONNECT_UNCLEAN, view)"
| "Disconnect_inputs usage ops ((txin, undo) # ins) fClean view =
     (case ApplyTxInUndo usage ops undo view (prevout txin) of
        Inl err \<Rightarrow> Inl err
      | Inr (res, view) \<Rightarrow>
          if res = DISCONNECT_FAILED then Inr (DISCONNECT_FAILED, view)
          else Disconnect_inputs usage ops ins (fClean \<and> res \<noteq> DISCONNECT_UNCLEAN) view)"

text \<open>
  One iteration of the loop of \<^verbatim>\<open>DisconnectBlock\<close>. \<open>undo\<close> is \<^verbatim>\<open>vtxundo[i-1].vprevout\<close>, and \<open>None\<close>
  for \<open>i = 0\<close>.
\<close>

definition DisconnectTx ::
    "(CTransaction \<Rightarrow> uint256) \<Rightarrow> (Coin \<Rightarrow> u64) \<Rightarrow> 'v view_ops \<Rightarrow> int \<Rightarrow> CTransaction \<Rightarrow> Coin list option \<Rightarrow> bool \<Rightarrow>
     'v CCoinsViewCache \<Rightarrow> coins_error + DisconnectResult \<times> 'v CCoinsViewCache" where
  "DisconnectTx GetHash usage ops height tx undo fClean view =
     (case Disconnect_outputs usage ops (GetHash tx) height (IsCoinBase tx) 0 (vout tx) fClean view of
        (fClean, view) \<Rightarrow>
          (case undo of
             None \<Rightarrow> Inr (if fClean then DISCONNECT_OK else DISCONNECT_UNCLEAN, view)
           | Some vprevout \<Rightarrow>
               if length vprevout \<noteq> length (vin tx) then Inr (DISCONNECT_FAILED, view)
               else Disconnect_inputs usage ops (rev (zip (vin tx) vprevout)) fClean view))"

text \<open>The transactions of the block with their undo data, last one first.\<close>

fun DisconnectBlock_loop ::
    "(CTransaction \<Rightarrow> uint256) \<Rightarrow> (Coin \<Rightarrow> u64) \<Rightarrow> 'v view_ops \<Rightarrow> int \<Rightarrow> (CTransaction \<times> Coin list option) list \<Rightarrow>
     bool \<Rightarrow> 'v CCoinsViewCache \<Rightarrow> coins_error + DisconnectResult \<times> 'v CCoinsViewCache" where
  "DisconnectBlock_loop GetHash usage ops height [] fClean view =
     Inr (if fClean then DISCONNECT_OK else DISCONNECT_UNCLEAN, view)"
| "DisconnectBlock_loop GetHash usage ops height ((tx, undo) # txs) fClean view =
     (case DisconnectTx GetHash usage ops height tx undo fClean view of
        Inl err \<Rightarrow> Inl err
      | Inr (DISCONNECT_FAILED, view) \<Rightarrow> Inr (DISCONNECT_FAILED, view)
      | Inr (res, view) \<Rightarrow> DisconnectBlock_loop GetHash usage ops height txs (res = DISCONNECT_OK) view)"

definition DisconnectBlock_coins ::
    "(CTransaction \<Rightarrow> uint256) \<Rightarrow> (Coin \<Rightarrow> u64) \<Rightarrow> 'v view_ops \<Rightarrow> int \<Rightarrow> uint256 \<Rightarrow> CTransaction list \<Rightarrow> Coin list list \<Rightarrow>
     'v CCoinsViewCache \<Rightarrow> coins_error + DisconnectResult \<times> 'v CCoinsViewCache" where
  "DisconnectBlock_coins GetHash usage ops height prevHash vtx vtxundo view =
     (if length vtxundo + 1 \<noteq> length vtx then Inr (DISCONNECT_FAILED, view)
      else (case DisconnectBlock_loop GetHash usage ops height (rev (zip vtx (None # map Some vtxundo))) True view of
              Inl err \<Rightarrow> Inl err
            | Inr (DISCONNECT_FAILED, view) \<Rightarrow> Inr (DISCONNECT_FAILED, view)
            | Inr (res, view) \<Rightarrow> Inr (res, SetBestBlock view prevHash)))"

section \<open>Connecting\<close>

text \<open>
  The updates of the coins view in the loop of \<^verbatim>\<open>ConnectBlock\<close>, after the checks of each
  transaction have passed: the inputs must be available, \<^verbatim>\<open>UpdateCoins\<close> is applied, and the undo data
  of all transactions but the first is collected.
\<close>

datatype connect_error = InputsMissingOrSpent | CoinsError coins_error

fun ConnectBlock_loop ::
    "(CTransaction \<Rightarrow> uint256) \<Rightarrow> (Coin \<Rightarrow> u64) \<Rightarrow> 'v view_ops \<Rightarrow> int \<Rightarrow> CTransaction list \<Rightarrow> 'v CCoinsViewCache \<Rightarrow>
     connect_error + Coin list list \<times> 'v CCoinsViewCache" where
  "ConnectBlock_loop GetHash usage ops height [] view = Inr ([], view)"
| "ConnectBlock_loop GetHash usage ops height (tx # vtx) view =
     (case (if \<not> IsCoinBase tx then HaveInputs usage ops view tx else (True, view)) of
        (have, view) \<Rightarrow>
          if \<not> have then Inl InputsMissingOrSpent
          else (case UpdateCoins GetHash usage ops tx view height of
                  Inl err \<Rightarrow> Inl (CoinsError err)
                | Inr (undo, view) \<Rightarrow>
                    (case ConnectBlock_loop GetHash usage ops height vtx view of
                       Inl err \<Rightarrow> Inl err
                     | Inr (undos, view) \<Rightarrow> Inr (undo # undos, view))))"

definition ConnectBlock_coins ::
    "(CTransaction \<Rightarrow> uint256) \<Rightarrow> (Coin \<Rightarrow> u64) \<Rightarrow> 'v view_ops \<Rightarrow> int \<Rightarrow> uint256 \<Rightarrow> CTransaction list \<Rightarrow>
     'v CCoinsViewCache \<Rightarrow> connect_error + Coin list list \<times> 'v CCoinsViewCache" where
  "ConnectBlock_coins GetHash usage ops height blockHash vtx view =
     (case ConnectBlock_loop GetHash usage ops height vtx view of
        Inl err \<Rightarrow> Inl err
      | Inr (undos, view) \<Rightarrow> Inr (drop 1 undos, SetBestBlock view blockHash))"

section \<open>Amounts and maturity of the inputs\<close>

datatype tx_input_error =
    InputsUnavailable | AssertSpent | PrematureSpendOfCoinbase | InputValuesOutOfRange | InBelowOut | FeeNegative
  | FeeOutOfRange | OutputValueThrown

fun CheckTxInputs_loop ::
    "(Coin \<Rightarrow> u64) \<Rightarrow> 'v view_ops \<Rightarrow> int \<Rightarrow> CAmount \<Rightarrow> CTxIn list \<Rightarrow> 'v CCoinsViewCache \<Rightarrow>
     (tx_input_error + CAmount) \<times> 'v CCoinsViewCache" where
  "CheckTxInputs_loop usage ops nSpendHeight nValueIn [] inputs = (Inr nValueIn, inputs)"
| "CheckTxInputs_loop usage ops nSpendHeight nValueIn (txin # ins) inputs =
     (case AccessCoin usage ops inputs (prevout txin) of
        (cn, inputs) \<Rightarrow>
          if IsSpent cn then (Inl AssertSpent, inputs)
          else if fCoinBase cn \<and> nSpendHeight - int (unat (nHeight cn)) < COINBASE_MATURITY
               then (Inl PrematureSpendOfCoinbase, inputs)
          else let nValueIn = nValueIn + nValue (out cn)
               in if \<not> MoneyRange (nValue (out cn)) \<or> \<not> MoneyRange nValueIn
                  then (Inl InputValuesOutOfRange, inputs)
                  else CheckTxInputs_loop usage ops nSpendHeight nValueIn ins inputs)"

text \<open>On success the model also returns the fee, which the code computes and drops.\<close>

definition CheckTxInputs ::
    "(Coin \<Rightarrow> u64) \<Rightarrow> 'v view_ops \<Rightarrow> CTransaction \<Rightarrow> 'v CCoinsViewCache \<Rightarrow> int \<Rightarrow>
     (tx_input_error + CAmount) \<times> 'v CCoinsViewCache" where
  "CheckTxInputs usage ops tx inputs nSpendHeight =
     (case HaveInputs usage ops inputs tx of
        (have, inputs) \<Rightarrow>
          if \<not> have then (Inl InputsUnavailable, inputs)
          else (case CheckTxInputs_loop usage ops nSpendHeight 0 (vin tx) inputs of
                  (Inl err, inputs) \<Rightarrow> (Inl err, inputs)
                | (Inr nValueIn, inputs) \<Rightarrow>
                    (case GetValueOut tx of
                       Inl _ \<Rightarrow> (Inl OutputValueThrown, inputs)
                     | Inr nValueOut \<Rightarrow>
                         if nValueIn < nValueOut then (Inl InBelowOut, inputs)
                         else let nTxFee = nValueIn - nValueOut
                              in if nTxFee < 0 then (Inl FeeNegative, inputs)
                                 else if \<not> MoneyRange nTxFee then (Inl FeeOutOfRange, inputs)
                                 else (Inr nTxFee, inputs))))"


section \<open>The abstract effect of a transaction\<close>

fun new_coins :: "uint256 \<Rightarrow> int \<Rightarrow> bool \<Rightarrow> nat \<Rightarrow> CTxOut list \<Rightarrow> COutPoint \<rightharpoonup> Coin" where
  "new_coins txid height cb i [] = (\<lambda>_. None)"
| "new_coins txid height cb i (txout # outs) =
     (if IsUnspendable (scriptPubKey txout) then new_coins txid height cb (Suc i) outs
      else (new_coins txid height cb (Suc i) outs)(COutPoint txid (of_nat i) \<mapsto> Coin_make txout height cb))"

definition apply_tx ::
    "(CTransaction \<Rightarrow> uint256) \<Rightarrow> int \<Rightarrow> (COutPoint \<rightharpoonup> Coin) \<Rightarrow> CTransaction \<Rightarrow> (COutPoint \<rightharpoonup> Coin)" where
  "apply_tx GetHash height u tx =
     (if IsCoinBase tx then u else u |` (- (prevout ` set (vin tx)))) ++
     new_coins (GetHash tx) height (IsCoinBase tx) 0 (vout tx)"

text \<open>
  When a transaction can be applied to a set of unspent coins: its inputs are there, are
  different, and carry their height; its id is new; no output is the null output.
\<close>

definition tx_applicable :: "(CTransaction \<Rightarrow> uint256) \<Rightarrow> (COutPoint \<rightharpoonup> Coin) \<Rightarrow> CTransaction \<Rightarrow> bool" where
  "tx_applicable GetHash u tx \<longleftrightarrow>
     (\<not> IsCoinBase tx \<longrightarrow> distinct (map prevout (vin tx)) \<and>
        (\<forall>txin \<in> set (vin tx). \<exists>cn. u (prevout txin) = Some cn \<and> nHeight cn \<noteq> 0 \<and>
           \<not> IsUnspendable (scriptPubKey (out cn)))) \<and>
     (\<forall>n. u (COutPoint (GetHash tx) n) = None) \<and>
     (\<forall>txout \<in> set (vout tx). \<not> CTxOut_IsNull txout) \<and> length (vout tx) < 2 ^ 32"

lemma of_nat_u32_inj: "j < 2 ^ 32 \<Longrightarrow> k < 2 ^ 32 \<Longrightarrow> (of_nat j :: u32) = of_nat k \<longleftrightarrow> j = k"
  by (simp add: word_unat_eq_iff unat_of_nat)

lemma new_coins_dom:
  "new_coins txid height cb i outs p \<noteq> None \<Longrightarrow> \<exists>j. i \<le> j \<and> j < i + length outs \<and> p = COutPoint txid (of_nat j)"
  by (induction txid height cb i outs rule: new_coins.induct)
     (auto split: if_splits, (metis Suc_leD add_Suc_right add_Suc add.commute le_refl less_add_Suc1)+)

lemma new_coins_at_lower:
  assumes "i + length outs < 2 ^ 32" "j < i"
  shows "new_coins txid height cb i outs (COutPoint txid (of_nat j)) = None"
proof (rule ccontr)
  assume "new_coins txid height cb i outs (COutPoint txid (of_nat j)) \<noteq> None"
  then obtain k where "i \<le> k" "k < i + length outs" "(of_nat j :: u32) = of_nat k"
    using new_coins_dom by blast
  then show False using of_nat_u32_inj [of j k] assms by auto
qed

lemma IsSpent_Coin_make [simp]: "IsSpent (Coin_make txout height cb) \<longleftrightarrow> CTxOut_IsNull txout"
  by (simp add: IsSpent_def Coin_make_def)

lemma Coin_make_fields [simp]:
  "out (Coin_make txout height cb) = txout" "fCoinBase (Coin_make txout height cb) = cb"
  by (simp_all add: Coin_make_def)

lemma Coin_make_height:
  "0 \<le> height \<Longrightarrow> height < 2 ^ 31 \<Longrightarrow> int (unat (nHeight (Coin_make txout height cb))) = height"
  by (simp add: Coin_make_def uint_word_of_int)

context coins_view
begin

lemma AddCoins_loop_refines:
  assumes "c_inv c" "\<forall>txout \<in> set outs. \<not> CTxOut_IsNull txout" "i + length outs < 2 ^ 32"
    and "\<And>j. i \<le> j \<Longrightarrow> j < i + length outs \<Longrightarrow> c_utxo c (COutPoint txid (of_nat j)) = None"
  shows "\<exists>c'. AddCoins_loop usage c txid height cb i outs = Inr c' \<and> c_inv c' \<and>
    c_utxo c' = c_utxo c ++ new_coins txid height cb i outs \<and> base c' = base c \<and> hashBlock c' = hashBlock c"
  using assms
proof (induction outs arbitrary: c i)
  case Nil
  then show ?case by (auto simp: map_add_def)
next
  case (Cons txout outs)
  let ?p = "COutPoint txid (of_nat i)" and ?cn = "Coin_make txout height cb"
  obtain d where d: "AddCoin usage c ?p ?cn cb = Inr d" "c_inv d" "base d = base c" "hashBlock d = hashBlock c"
    "c_utxo d = (if IsUnspendable (scriptPubKey txout) then c_utxo c else (c_utxo c)(?p \<mapsto> ?cn))"
    using AddCoin_refines [OF Cons.prems(1), of ?cn cb ?p usage] Cons.prems(2,4) by fastforce
  have "c_utxo d (COutPoint txid (of_nat j)) = None" if "Suc i \<le> j" "j < Suc i + length outs" for j
    using Cons.prems(3) Cons.prems(4) [of j] that of_nat_u32_inj [of j i] d(5) by auto
  then obtain c' where c': "AddCoins_loop usage d txid height cb (Suc i) outs = Inr c'" "c_inv c'"
    "c_utxo c' = c_utxo d ++ new_coins txid height cb (Suc i) outs" "base c' = base d" "hashBlock c' = hashBlock d"
    using Cons.IH [of d "Suc i"] Cons.prems(2,3) d(2) by auto
  have "new_coins txid height cb (Suc i) outs ?p = None"
    using new_coins_at_lower [of "Suc i" outs i] Cons.prems(3) by simp
  then have "c_utxo d ++ new_coins txid height cb (Suc i) outs = c_utxo c ++ new_coins txid height cb i (txout # outs)"
    unfolding d(5) by (auto simp: fun_eq_iff map_add_def split: option.split)
  then show ?case using c' d by simp
qed

lemma UpdateCoins_refines:
  assumes "c_inv c" "tx_applicable GetHash (c_utxo c) tx"
  shows "\<exists>c'. UpdateCoins GetHash usage ops tx c height =
      Inr (if IsCoinBase tx then [] else map (\<lambda>txin. the (c_utxo c (prevout txin))) (vin tx), c') \<and>
    c_inv c' \<and> c_utxo c' = apply_tx GetHash height (c_utxo c) tx \<and> c_best c' = c_best c \<and> hashBlock c' = hashBlock c"
proof -
  let ?undo = "if IsCoinBase tx then [] else map (\<lambda>txin. the (c_utxo c (prevout txin))) (vin tx)"
  let ?u = "if IsCoinBase tx then c_utxo c else c_utxo c |` (- (prevout ` set (vin tx)))"
  obtain d where d: "(if \<not> IsCoinBase tx then UpdateCoins_spend usage ops c (vin tx) else Inr ([], c)) = Inr (?undo, d)"
    "c_inv d" "c_utxo d = ?u" "c_best d = c_best c" "hashBlock d = hashBlock c"
  proof (cases "IsCoinBase tx")
    case True
    then show thesis using that assms(1) by simp
  next
    case False
    then have "distinct (map prevout (vin tx))" "\<And>t. t \<in> set (vin tx) \<Longrightarrow> c_utxo c (prevout t) \<noteq> None"
      using assms(2) by (auto simp: tx_applicable_def)
    from UpdateCoins_spend_refines [OF assms(1) this, of usage] show thesis using that False by auto
  qed
  have none: "c_utxo d (COutPoint (GetHash tx) n) = None" for n
    using assms(2) d(3) by (auto simp: tx_applicable_def restrict_map_def)
  obtain c' where c': "AddCoins_loop usage d (GetHash tx) height (IsCoinBase tx) 0 (vout tx) = Inr c'" "c_inv c'"
    "c_utxo c' = c_utxo d ++ new_coins (GetHash tx) height (IsCoinBase tx) 0 (vout tx)" "base c' = base d"
    "hashBlock c' = hashBlock d"
    using AddCoins_loop_refines [OF d(2), of "vout tx" 0 "GetHash tx" usage height "IsCoinBase tx"] none assms(2)
    by (auto simp: tx_applicable_def)
  have "c_best c' = c_best d" using c'(4,5) by (simp add: cache_best_def)
  then show ?thesis using c' d
    by (simp add: UpdateCoins_def AddCoins_def apply_tx_def)
qed

lemma Disconnect_outputs_refines:
  assumes "c_inv c" "\<forall>txout \<in> set outs. \<not> CTxOut_IsNull txout" "i + length outs < 2 ^ 32" "0 \<le> height" "height < 2 ^ 31"
    and "new_coins txid height cb i outs \<subseteq>\<^sub>m c_utxo c"
  shows "\<exists>c'. Disconnect_outputs usage ops txid height cb i outs fClean c = (fClean, c') \<and> c_inv c' \<and>
    c_utxo c' = c_utxo c |` (- dom (new_coins txid height cb i outs)) \<and> c_best c' = c_best c \<and> hashBlock c' = hashBlock c"
  using assms(1-3,6)
proof (induction outs arbitrary: c i)
  case Nil
  then show ?case by (simp add: restrict_map_def)
next
  case (Cons txout outs)
  let ?new = "new_coins txid height cb (Suc i) outs"
  let ?p = "COutPoint txid (of_nat i)"
  show ?case
  proof (cases "IsUnspendable (scriptPubKey txout)")
    case True
    then show ?thesis using Cons by simp
  next
    case False
    let ?cn = "Coin_make txout height cb"
    have at: "c_utxo c ?p = Some ?cn"
      using Cons.prems(4) False by (auto simp: map_le_def dom_def split: if_splits)
    obtain r m d where sp: "SpendCoin usage ops c ?p = (r, m, d)" by (cases "SpendCoin usage ops c ?p")
    have d: "c_inv d" "c_utxo d = (c_utxo c)(?p := None)" "c_best d = c_best c" "hashBlock d = hashBlock c" "r" "m = Some ?cn"
      using SpendCoin_refines [OF Cons.prems(1) sp] at by auto
    have np: "?new ?p = None" using new_coins_at_lower [of "Suc i" outs i] Cons.prems(3) by simp
    have "?new \<subseteq>\<^sub>m c_utxo d"
    proof (unfold map_le_def, rule ballI)
      fix q
      assume q: "q \<in> dom ?new"
      then have "q \<noteq> ?p" using np by auto
      have full: "?new(?p \<mapsto> ?cn) \<subseteq>\<^sub>m c_utxo c"
        using Cons.prems(4) False by (simp only: new_coins.simps if_False)
      have "q \<in> dom (?new(?p \<mapsto> ?cn))" using q by auto
      then have "(?new(?p \<mapsto> ?cn)) q = c_utxo c q" using full by (auto simp only: map_le_def)
      then show "?new q = c_utxo d q" using \<open>q \<noteq> ?p\<close> d(2) by simp
    qed
    then obtain c' where c': "Disconnect_outputs usage ops txid height cb (Suc i) outs fClean d = (fClean, c')" "c_inv c'"
      "c_utxo c' = c_utxo d |` (- dom ?new)" "c_best c' = c_best d" "hashBlock c' = hashBlock d"
      using Cons.IH [OF d(1), of "Suc i"] Cons.prems(2,3) by auto
    have "c_utxo d |` (- dom ?new) = c_utxo c |` (- dom (new_coins txid height cb i (txout # outs)))"
      unfolding d(2) using False by (auto simp: restrict_map_def fun_eq_iff)
    then have "c_utxo c' = c_utxo c |` (- dom (new_coins txid height cb i (txout # outs)))" using c'(3) by simp
    then show ?thesis
      using False sp d c'(1,2,4,5) Coin_make_height [OF assms(4,5)]
      by (simp add: Let_def del: new_coins.simps)
  qed
qed

lemma ApplyTxInUndo_refines:
  assumes "c_inv c" "c_utxo c p = None" "\<not> IsSpent undo" "nHeight undo \<noteq> 0" "\<not> IsUnspendable (scriptPubKey (out undo))"
  shows "\<exists>c'. ApplyTxInUndo usage ops undo c p = Inr (DISCONNECT_OK, c') \<and> c_inv c' \<and>
    c_utxo c' = (c_utxo c)(p \<mapsto> undo) \<and> c_best c' = c_best c"
proof -
  obtain h d where h: "HaveCoin usage ops c p = (h, d)" by (cases "HaveCoin usage ops c p")
  have d: "\<not> h" "c_inv d" "c_utxo d = c_utxo c" "c_best d = c_best c"
    using HaveCoin_refines [OF assms(1) h] assms(2) by auto
  obtain c' where "AddCoin usage d p undo (fCoinBase undo) = Inr c'" "c_inv c'" "base c' = base d"
    "hashBlock c' = hashBlock d" "c_utxo c' = (c_utxo d)(p \<mapsto> undo)"
    using AddCoin_refines [OF d(2) assms(3), of "fCoinBase undo" p usage] d(3) assms(2,5) by auto
  then show ?thesis using h d assms(4) by (auto simp: ApplyTxInUndo_def Let_def cache_best_def)
qed

lemma Disconnect_inputs_refines:
  assumes "c_inv c" "distinct (map (prevout \<circ> fst) ins)"
    and "\<And>txin undo. (txin, undo) \<in> set ins \<Longrightarrow>
      c_utxo c (prevout txin) = None \<and> \<not> IsSpent undo \<and> nHeight undo \<noteq> 0 \<and> \<not> IsUnspendable (scriptPubKey (out undo))"
  shows "\<exists>c'. Disconnect_inputs usage ops ins True c = Inr (DISCONNECT_OK, c') \<and> c_inv c' \<and> c_best c' = c_best c \<and>
    c_utxo c' = c_utxo c ++ map_of (map (\<lambda>(txin, undo). (prevout txin, undo)) ins)"
  using assms
proof (induction ins arbitrary: c)
  case Nil
  then show ?case by simp
next
  case (Cons x ins)
  obtain txin undo where x: "x = (txin, undo)" by (cases x)
  obtain d where d: "ApplyTxInUndo usage ops undo c (prevout txin) = Inr (DISCONNECT_OK, d)" "c_inv d"
    "c_utxo d = (c_utxo c)(prevout txin \<mapsto> undo)" "c_best d = c_best c"
    using ApplyTxInUndo_refines [OF Cons.prems(1), of "prevout txin" undo usage] Cons.prems(3) [of txin undo] x by auto
  have ne: "prevout t \<noteq> prevout txin" if "(t, u) \<in> set ins" for t u
    using Cons.prems(2) that x by (force simp: image_iff)
  have pre: "c_utxo d (prevout t) = None \<and> \<not> IsSpent u \<and> nHeight u \<noteq> 0 \<and> \<not> IsUnspendable (scriptPubKey (out u))"
    if "(t, u) \<in> set ins" for t u
    using ne [OF that] Cons.prems(3) [of t u] that d(3) by simp
  let ?m = "map_of (map (\<lambda>(txin, undo). (prevout txin, undo)) ins)"
  obtain c' where c': "Disconnect_inputs usage ops ins True d = Inr (DISCONNECT_OK, c')" "c_inv c'"
    "c_best c' = c_best d" "c_utxo c' = c_utxo d ++ ?m"
    using Cons.IH [OF d(2) _ pre] Cons.prems(2) by auto
  have "?m (prevout txin) = None"
    using ne by (force simp: map_of_eq_None_iff)
  then have "c_utxo d ++ ?m = c_utxo c ++ map_of (map (\<lambda>(txin, undo). (prevout txin, undo)) (x # ins))"
    unfolding d(3) x by (auto simp: fun_eq_iff map_add_def split: option.split)
  then have "c_utxo c' = c_utxo c ++ map_of (map (\<lambda>(txin, undo). (prevout txin, undo)) (x # ins))" using c'(4) by simp
  then show ?case using c'(1-3) d(1,4) x by (simp del: map_of.simps list.map)
qed

end

section \<open>Blocks\<close>

definition utxo_ok :: "(COutPoint \<rightharpoonup> Coin) \<Rightarrow> bool" where
  "utxo_ok u \<longleftrightarrow> (\<forall>p cn. u p = Some cn \<longrightarrow> \<not> IsSpent cn)"

definition tx_undo :: "(COutPoint \<rightharpoonup> Coin) \<Rightarrow> CTransaction \<Rightarrow> Coin list" where
  "tx_undo u tx = (if IsCoinBase tx then [] else map (\<lambda>txin. the (u (prevout txin))) (vin tx))"

fun block_applicable :: "(CTransaction \<Rightarrow> uint256) \<Rightarrow> int \<Rightarrow> (COutPoint \<rightharpoonup> Coin) \<Rightarrow> CTransaction list \<Rightarrow> bool" where
  "block_applicable GetHash height u [] = True"
| "block_applicable GetHash height u (tx # vtx) =
     (tx_applicable GetHash u tx \<and> block_applicable GetHash height (apply_tx GetHash height u tx) vtx)"

fun apply_block ::
    "(CTransaction \<Rightarrow> uint256) \<Rightarrow> int \<Rightarrow> (COutPoint \<rightharpoonup> Coin) \<Rightarrow> CTransaction list \<Rightarrow> (COutPoint \<rightharpoonup> Coin)" where
  "apply_block GetHash height u [] = u"
| "apply_block GetHash height u (tx # vtx) = apply_block GetHash height (apply_tx GetHash height u tx) vtx"

fun block_undo :: "(CTransaction \<Rightarrow> uint256) \<Rightarrow> int \<Rightarrow> (COutPoint \<rightharpoonup> Coin) \<Rightarrow> CTransaction list \<Rightarrow> Coin list list" where
  "block_undo GetHash height u [] = []"
| "block_undo GetHash height u (tx # vtx) = tx_undo u tx # block_undo GetHash height (apply_tx GetHash height u tx) vtx"

lemma length_block_undo [simp]: "length (block_undo GetHash height u vtx) = length vtx"
  by (induction GetHash height u vtx rule: block_undo.induct) auto

lemma new_coins_unspent:
  "\<forall>txout \<in> set outs. \<not> CTxOut_IsNull txout \<Longrightarrow> new_coins txid height cb i outs p = Some cn \<Longrightarrow> \<not> IsSpent cn"
  by (induction txid height cb i outs rule: new_coins.induct) (auto split: if_splits)

lemma apply_tx_ok:
  "utxo_ok u \<Longrightarrow> tx_applicable GetHash u tx \<Longrightarrow> utxo_ok (apply_tx GetHash height u tx)"
  unfolding utxo_ok_def apply_tx_def tx_applicable_def
  by (auto simp: map_add_Some_iff restrict_map_def dest: new_coins_unspent split: if_splits)

text \<open>Removing the new coins again, and putting the spent ones back.\<close>

lemma apply_tx_minus_new:
  assumes "tx_applicable GetHash u tx"
  shows "apply_tx GetHash height u tx |` (- dom (new_coins (GetHash tx) height (IsCoinBase tx) 0 (vout tx))) =
    (if IsCoinBase tx then u else u |` (- (prevout ` set (vin tx))))" (is "?l = ?r")
proof
  fix p
  let ?n = "new_coins (GetHash tx) height (IsCoinBase tx) 0 (vout tx)"
  have "u p = None" if "?n p \<noteq> None"
    using new_coins_dom [OF that] assms by (auto simp: tx_applicable_def)
  then show "?l p = ?r p"
    by (cases "IsCoinBase tx"; cases "?n p") (auto simp: apply_tx_def restrict_map_def map_add_def)
qed

lemma restore_inputs:
  assumes "distinct (map prevout ins)" "\<And>t. t \<in> set ins \<Longrightarrow> u (prevout t) \<noteq> None"
  shows "u |` (- (prevout ` set ins)) ++
      map_of (map (\<lambda>(txin, undo). (prevout txin, undo)) (rev (zip ins (map (\<lambda>t. the (u (prevout t))) ins)))) = u"
proof
  fix p
  let ?L = "map (\<lambda>(txin, undo). (prevout txin, undo)) (rev (zip ins (map (\<lambda>t. the (u (prevout t))) ins)))"
  have L: "?L = rev (map (\<lambda>t. (prevout t, the (u (prevout t)))) ins)"
    by (simp add: rev_map zip_map2 zip_same_conv_map comp_def case_prod_beta)
  have d: "distinct (map fst ?L)"
    unfolding L using assms(1) by (simp add: comp_def flip: rev_map)
  show "(u |` (- (prevout ` set ins)) ++ map_of ?L) p = u p"
  proof (cases "p \<in> prevout ` set ins")
    case True
    then have "(p, the (u p)) \<in> set ?L" unfolding L by auto
    then have "map_of ?L p = Some (the (u p))" using d by (simp only: map_of_eq_Some_iff)
    then show ?thesis using True assms(2) by (auto simp: map_add_def)
  next
    case False
    then have "map_of ?L p = None" unfolding L by (auto simp: map_of_eq_None_iff)
    then show ?thesis using False by (simp add: map_add_def restrict_map_def)
  qed
qed

context coins_view
begin

lemma DisconnectTx_undoes:
  assumes "c_inv c" "c_utxo c = apply_tx GetHash height u tx" "tx_applicable GetHash u tx" "utxo_ok u"
    "0 \<le> height" "height < 2 ^ 31"
  shows "\<exists>c'. DisconnectTx GetHash usage ops height tx (if IsCoinBase tx then None else Some (tx_undo u tx)) True c =
      Inr (DISCONNECT_OK, c') \<and> c_inv c' \<and> c_utxo c' = u \<and> c_best c' = c_best c"
proof -
  let ?new = "new_coins (GetHash tx) height (IsCoinBase tx) 0 (vout tx)"
  have outs: "\<forall>txout \<in> set (vout tx). \<not> CTxOut_IsNull txout" "0 + length (vout tx) < 2 ^ 32"
    using assms(3) by (auto simp: tx_applicable_def)
  have "?new \<subseteq>\<^sub>m c_utxo c" unfolding assms(2) apply_tx_def by (rule map_le_map_add)
  then obtain d where d: "Disconnect_outputs usage ops (GetHash tx) height (IsCoinBase tx) 0 (vout tx) True c = (True, d)"
    "c_inv d" "c_utxo d = c_utxo c |` (- dom ?new)" "c_best d = c_best c"
    using Disconnect_outputs_refines [OF assms(1) outs assms(5,6)] by blast
  have ud: "c_utxo d = (if IsCoinBase tx then u else u |` (- (prevout ` set (vin tx))))"
    unfolding d(3) assms(2) by (rule apply_tx_minus_new [OF assms(3)])
  show ?thesis
  proof (cases "IsCoinBase tx")
    case True
    then show ?thesis using d ud by (simp add: DisconnectTx_def)
  next
    case False
    let ?ins = "rev (zip (vin tx) (tx_undo u tx))"
    have und: "tx_undo u tx = map (\<lambda>t. the (u (prevout t))) (vin tx)" using False by (simp add: tx_undo_def)
    have dist: "distinct (map prevout (vin tx))" and inp: "\<And>t. t \<in> set (vin tx) \<Longrightarrow> u (prevout t) \<noteq> None"
      using assms(3) False by (auto simp: tx_applicable_def)
    have "distinct (map (prevout \<circ> fst) ?ins)"
      using dist unfolding und by (simp add: zip_map2 zip_same_conv_map comp_def flip: rev_map)
    moreover have "c_utxo d (prevout t) = None \<and> \<not> IsSpent cn \<and> nHeight cn \<noteq> 0 \<and> \<not> IsUnspendable (scriptPubKey (out cn))"
      if "(t, cn) \<in> set ?ins" for t cn
    proof -
      have t: "t \<in> set (vin tx)" "cn = the (u (prevout t))"
        using that unfolding und by (auto simp: zip_map2 zip_same_conv_map)
      then show ?thesis using assms(3,4) False ud by (fastforce simp: tx_applicable_def utxo_ok_def)
    qed
    ultimately obtain c' where c': "Disconnect_inputs usage ops ?ins True d = Inr (DISCONNECT_OK, c')" "c_inv c'"
      "c_best c' = c_best d" "c_utxo c' = c_utxo d ++ map_of (map (\<lambda>(txin, undo). (prevout txin, undo)) ?ins)"
      using Disconnect_inputs_refines [OF d(2)] by blast
    have "c_utxo c' = u" unfolding c'(4) ud und using False restore_inputs [of "vin tx" u] dist inp by simp
    then show ?thesis using c' d False und by (simp add: DisconnectTx_def)
  qed
qed

lemma ConnectBlock_loop_refines:
  assumes "c_inv c" "block_applicable GetHash height (c_utxo c) vtx"
  shows "\<exists>c'. ConnectBlock_loop GetHash usage ops height vtx c = Inr (block_undo GetHash height (c_utxo c) vtx, c') \<and>
    c_inv c' \<and> c_utxo c' = apply_block GetHash height (c_utxo c) vtx \<and> c_best c' = c_best c"
  using assms
proof (induction vtx arbitrary: c)
  case Nil
  then show ?case by simp
next
  case (Cons tx vtx)
  then have app: "tx_applicable GetHash (c_utxo c) tx"
    and rest: "block_applicable GetHash height (apply_tx GetHash height (c_utxo c) tx) vtx" by simp_all
  obtain r d where h: "(if \<not> IsCoinBase tx then HaveInputs usage ops c tx else (True, c)) = (r, d)"
    by (cases "if \<not> IsCoinBase tx then HaveInputs usage ops c tx else (True, c)")
  have d: "r" "c_inv d" "c_utxo d = c_utxo c" "c_best d = c_best c"
  proof -
    have "r \<and> c_inv d \<and> c_utxo d = c_utxo c \<and> c_best d = c_best c"
    proof (cases "IsCoinBase tx")
      case True
      then show ?thesis using h Cons.prems(1) by simp
    next
      case False
      then show ?thesis using h HaveInputs_loop_refines [OF Cons.prems(1), of usage "vin tx" r d] app
        by (auto simp: HaveInputs_def tx_applicable_def)
    qed
    then show "r" "c_inv d" "c_utxo d = c_utxo c" "c_best d = c_best c" by auto
  qed
  obtain e where e: "UpdateCoins GetHash usage ops tx d height = Inr (tx_undo (c_utxo c) tx, e)" "c_inv e"
    "c_utxo e = apply_tx GetHash height (c_utxo c) tx" "c_best e = c_best c"
    using UpdateCoins_refines [OF d(2), of GetHash tx usage height] app d by (auto simp: tx_undo_def)
  from Cons.IH [OF e(2)] rest e(3) obtain c' where
    "ConnectBlock_loop GetHash usage ops height vtx e = Inr (block_undo GetHash height (c_utxo e) vtx, c')" "c_inv c'"
    "c_utxo c' = apply_block GetHash height (c_utxo e) vtx" "c_best c' = c_best e" by auto
  then show ?case using h d e by simp
qed

lemma DisconnectBlock_loop_append:
  "DisconnectBlock_loop GetHash usage ops height xs fClean c = Inr (DISCONNECT_OK, d) \<Longrightarrow>
   DisconnectBlock_loop GetHash usage ops height (xs @ ys) fClean c =
   DisconnectBlock_loop GetHash usage ops height ys True d"
proof (induction xs arbitrary: fClean c)
  case Nil
  then show ?case by (simp split: if_splits)
next
  case (Cons x xs)
  then show ?case
    by (cases x) (auto split: sum.splits DisconnectResult.splits)
qed

lemma DisconnectBlock_loop_undoes:
  assumes "c_inv c" "c_utxo c = apply_block GetHash height u vtx" "block_applicable GetHash height u vtx" "utxo_ok u"
    "0 \<le> height" "height < 2 ^ 31"
  shows "\<exists>c'. DisconnectBlock_loop GetHash usage ops height
      (rev (zip vtx (map2 (\<lambda>tx undo. if IsCoinBase tx then None else Some undo) vtx (block_undo GetHash height u vtx)))) True c =
      Inr (DISCONNECT_OK, c') \<and> c_inv c' \<and> c_utxo c' = u \<and> c_best c' = c_best c"
  using assms(1-4)
proof (induction vtx arbitrary: u c)
  case Nil
  then show ?case by simp
next
  case (Cons tx vtx)
  have app: "tx_applicable GetHash u tx" using Cons.prems(3) by simp
  obtain d where d: "DisconnectBlock_loop GetHash usage ops height
      (rev (zip vtx (map2 (\<lambda>tx undo. if IsCoinBase tx then None else Some undo) vtx
        (block_undo GetHash height (apply_tx GetHash height u tx) vtx)))) True c = Inr (DISCONNECT_OK, d)"
    "c_inv d" "c_utxo d = apply_tx GetHash height u tx" "c_best d = c_best c"
    using Cons.IH [OF Cons.prems(1), of "apply_tx GetHash height u tx"] Cons.prems apply_tx_ok [OF Cons.prems(4) app]
    by auto
  obtain c' where c': "DisconnectTx GetHash usage ops height tx (if IsCoinBase tx then None else Some (tx_undo u tx)) True d =
      Inr (DISCONNECT_OK, c')" "c_inv c'" "c_utxo c' = u" "c_best c' = c_best d"
    using DisconnectTx_undoes [OF d(2,3) app Cons.prems(4) assms(5,6)] by blast
  show ?case using DisconnectBlock_loop_append [OF d(1)] c' d(4) by simp
qed

lemma connect_disconnect:
  assumes "c_inv c" "IsCoinBase cb" "\<forall>tx \<in> set rest. \<not> IsCoinBase tx"
    "block_applicable GetHash height (c_utxo c) (cb # rest)" "0 \<le> height" "height < 2 ^ 31" "blockHash \<noteq> 0" "prevHash \<noteq> 0"
  shows "\<exists>vtxundo c1 c2.
    ConnectBlock_coins GetHash usage ops height blockHash (cb # rest) c = Inr (vtxundo, c1) \<and>
    c_utxo c1 = apply_block GetHash height (c_utxo c) (cb # rest) \<and> c_best c1 = blockHash \<and>
    DisconnectBlock_coins GetHash usage ops height prevHash (cb # rest) vtxundo c1 = Inr (DISCONNECT_OK, c2) \<and>
    c_inv c2 \<and> c_utxo c2 = c_utxo c \<and> c_best c2 = prevHash"
proof -
  let ?vtx = "cb # rest" and ?u = "c_utxo c"
  let ?undos = "block_undo GetHash height ?u ?vtx"
  obtain d where d: "ConnectBlock_loop GetHash usage ops height ?vtx c = Inr (?undos, d)" "c_inv d"
    "c_utxo d = apply_block GetHash height ?u ?vtx"
    using ConnectBlock_loop_refines [OF assms(1,4)] by blast
  define c1 where "c1 = SetBestBlock d blockHash"
  have c1: "c_inv c1" "c_utxo c1 = apply_block GetHash height ?u ?vtx" "c_best c1 = blockHash"
    using SetBestBlock_refines [OF d(2) assms(7)] d(3) by (auto simp: c1_def)
  have "utxo_ok ?u" using c_utxo_unspent [OF assms(1)] by (auto simp: utxo_ok_def)
  from DisconnectBlock_loop_undoes [OF c1(1,2) assms(4) this assms(5,6)] obtain e where
    e: "DisconnectBlock_loop GetHash usage ops height
      (rev (zip ?vtx (map2 (\<lambda>tx undo. if IsCoinBase tx then None else Some undo) ?vtx ?undos))) True c1 =
      Inr (DISCONNECT_OK, e)" "c_inv e" "c_utxo e = ?u" by blast
  have "map2 (\<lambda>tx undo. if IsCoinBase tx then None else Some undo) rest us = map Some us"
    if "length us = length rest" for us :: "Coin list list"
    using assms(3) that by (intro nth_equalityI) auto
  then have opts: "map2 (\<lambda>tx undo. if IsCoinBase tx then None else Some undo) ?vtx ?undos = None # map Some (drop 1 ?undos)"
    using assms(2) by simp
  have "ConnectBlock_coins GetHash usage ops height blockHash ?vtx c = Inr (drop 1 ?undos, c1)"
    using d(1) by (simp add: ConnectBlock_coins_def c1_def del: block_undo.simps)
  moreover have "DisconnectBlock_coins GetHash usage ops height prevHash ?vtx (drop 1 ?undos) c1 =
      Inr (DISCONNECT_OK, SetBestBlock e prevHash)"
    using e(1) unfolding opts by (simp add: DisconnectBlock_coins_def)
  moreover have "c_inv (SetBestBlock e prevHash)" "c_utxo (SetBestBlock e prevHash) = c_utxo c"
    "c_best (SetBestBlock e prevHash) = prevHash"
    using SetBestBlock_refines [OF e(2) assms(8)] e(3) by simp_all
  ultimately show ?thesis using c1(2,3) by blast
qed

end

section \<open>Amounts and maturity\<close>

text \<open>What \<open>CheckTxInputs\<close> establishes of one input against a set of unspent coins.\<close>

definition input_value :: "(COutPoint \<rightharpoonup> Coin) \<Rightarrow> CTxIn \<Rightarrow> CAmount" where
  "input_value u txin = nValue (out (the (u (prevout txin))))"

definition input_spendable :: "int \<Rightarrow> (COutPoint \<rightharpoonup> Coin) \<Rightarrow> CTxIn \<Rightarrow> bool" where
  "input_spendable nSpendHeight u txin \<longleftrightarrow>
     (case u (prevout txin) of
        None \<Rightarrow> False
      | Some cn \<Rightarrow> MoneyRange (nValue (out cn)) \<and>
          \<not> (fCoinBase cn \<and> nSpendHeight - int (unat (nHeight cn)) < COINBASE_MATURITY))"

context coins_view
begin

lemma CheckTxInputs_loop_refines:
  assumes "c_inv c" "\<forall>txin \<in> set ins. c_utxo c (prevout txin) \<noteq> None"
    "CheckTxInputs_loop usage ops nSpendHeight acc ins c = (r, c')"
  shows "c_inv c' \<and> c_utxo c' = c_utxo c \<and> r \<noteq> Inl AssertSpent \<and>
    (\<forall>v. r = Inr v \<longrightarrow> v = acc + sum_list (map (input_value (c_utxo c)) ins) \<and>
       list_all (input_spendable nSpendHeight (c_utxo c)) ins)"
  using assms
proof (induction ins arbitrary: c acc)
  case Nil
  then show ?case by auto
next
  case (Cons txin ins)
  obtain cn d where a: "AccessCoin usage ops c (prevout txin) = (cn, d)"
    by (cases "AccessCoin usage ops c (prevout txin)")
  note ar = AccessCoin_refines [OF Cons.prems(1) a]
  have cn: "\<not> IsSpent cn" "c_utxo c (prevout txin) = Some cn"
    using ar Cons.prems(2) by (auto simp: unspent_def split: if_splits)
  show ?case
  proof (cases "(fCoinBase cn \<and> nSpendHeight - int (unat (nHeight cn)) < COINBASE_MATURITY) \<or>
      \<not> MoneyRange (nValue (out cn)) \<or> \<not> MoneyRange (acc + nValue (out cn))")
    case True
    then show ?thesis using Cons.prems(3) a ar cn by (auto simp: Let_def split: if_splits)
  next
    case False
    then have "CheckTxInputs_loop usage ops nSpendHeight (acc + nValue (out cn)) ins d = (r, c')"
      using Cons.prems(3) a cn by (auto simp: Let_def)
    moreover have "c_inv d" "c_utxo d = c_utxo c" using ar by blast+
    moreover have "\<forall>txin \<in> set ins. c_utxo d (prevout txin) \<noteq> None" using calculation(3) Cons.prems(2) by simp
    ultimately have "c_inv c' \<and> c_utxo c' = c_utxo c \<and> r \<noteq> Inl AssertSpent \<and>
      (\<forall>v. r = Inr v \<longrightarrow> v = acc + nValue (out cn) + sum_list (map (input_value (c_utxo c)) ins) \<and>
       list_all (input_spendable nSpendHeight (c_utxo c)) ins)"
      using Cons.IH [of d "acc + nValue (out cn)"] by simp
    moreover have "input_value (c_utxo c) txin = nValue (out cn)" "input_spendable nSpendHeight (c_utxo c) txin"
      using cn False by (simp_all add: input_value_def input_spendable_def)
    ultimately show ?thesis by (simp add: add.assoc)
  qed
qed

lemma CheckTxInputs_sound:
  assumes "c_inv c" "\<not> IsCoinBase tx" "CheckTxInputs usage ops tx c nSpendHeight = (Inr fee, c')"
  shows "list_all (input_spendable nSpendHeight (c_utxo c)) (vin tx) \<and>
    sum_list (map (input_value (c_utxo c)) (vin tx)) = sum_list (map nValue (vout tx)) + fee \<and>
    MoneyRange fee \<and> c_inv c' \<and> c_utxo c' = c_utxo c"
proof -
  obtain h d where h: "HaveInputs usage ops c tx = (h, d)" by (cases "HaveInputs usage ops c tx")
  have hl: "HaveInputs_loop usage ops c (vin tx) = (h, d)" using h assms(2) by (simp add: HaveInputs_def)
  have "h" using assms(3) h by (auto simp: CheckTxInputs_def split: if_splits)
  then have d: "\<forall>txin \<in> set (vin tx). c_utxo d (prevout txin) \<noteq> None" "c_inv d" "c_utxo d = c_utxo c"
    using HaveInputs_loop_refines [OF assms(1) hl] by auto
  obtain r e where l: "CheckTxInputs_loop usage ops nSpendHeight 0 (vin tx) d = (r, e)"
    by (cases "CheckTxInputs_loop usage ops nSpendHeight 0 (vin tx) d")
  obtain v vo where r: "r = Inr v" "GetValueOut tx = Inr vo" "fee = v - vo" "MoneyRange fee" "c' = e"
    using assms(3) h l \<open>h\<close> by (auto simp: CheckTxInputs_def Let_def split: if_splits sum.splits)
  have "vo = sum_list (map nValue (vout tx))" using r(2) by (simp add: GetValueOut_iff_aux)
  then show ?thesis using CheckTxInputs_loop_refines [OF d(2,1) l] d(3) r by simp
qed

end

section \<open>The views of the node\<close>

text \<open>The database keeps the contract.\<close>

definition db_valid :: "CCoinsViewDB \<Rightarrow> bool" where
  "db_valid v \<longleftrightarrow> utxo_ok (db_coins v)"

definition db_hash :: "CCoinsViewDB \<Rightarrow> uint256" where
  "db_hash v = (case db_best v of None \<Rightarrow> 0 | Some h \<Rightarrow> h)"

lemma CCoinsViewDB_batch_eq:
  "distinct (map fst es) \<Longrightarrow> CCoinsViewDB_batch u es = apply_entries (map_of es) u"
proof (induction u es rule: CCoinsViewDB_batch.induct)
  case (1 u)
  then show ?case by (simp add: apply_entries_def [abs_def])
next
  case (2 u p e es)
  have "map_of es p = None" using "2.prems" by (simp add: map_of_eq_None_iff)
  then have "apply_entries (map_of es) (if is_dirty e then u(p := unspent (coin e)) else u) =
      apply_entries (map_of ((p, e) # es)) u"
    by (auto simp: apply_entries_def fun_eq_iff split: option.split)
  moreover have "CCoinsViewDB_batch u ((p, e) # es) =
      CCoinsViewDB_batch (if is_dirty e then u(p := unspent (coin e)) else u) es"
    by (simp add: flag_simps unspent_def)
  ultimately show ?case using 2 by (simp add: flag_simps unspent_def del: map_of.simps split: if_splits)
qed

lemma utxo_okD: "utxo_ok u \<Longrightarrow> u p = Some cn \<Longrightarrow> \<not> IsSpent cn"
  by (auto simp: utxo_ok_def)

lemma apply_entries_ok: "utxo_ok u \<Longrightarrow> utxo_ok (apply_entries m u)"
  by (auto simp: utxo_ok_def apply_entries_def unspent_def split: option.splits if_splits)

interpretation coinsdb: coins_view CCoinsViewDB_ops db_valid db_coins db_hash
  by unfold_locales
     (auto simp: CCoinsViewDB_ops_def CCoinsViewDB_GetCoin_def CCoinsViewDB_GetBestBlock_def CCoinsViewDB_BatchWrite_def
      db_valid_def db_hash_def enumerates_def CCoinsViewDB_batch_eq apply_entries_ok dest: utxo_okD)

text \<open>The cache over the database (\<^verbatim>\<open>pcoinsTip\<close>), and a temporary cache over that one.\<close>

interpretation coinstip: coins_view "cache_ops usage CCoinsViewDB_ops" "cache_inv db_valid db_coins"
    "cache_utxo db_coins" "cache_best db_hash" for usage
  by (rule coinsdb.cache_is_view)

interpretation blockview: coins_view "cache_ops usage (cache_ops usage CCoinsViewDB_ops)"
    "cache_inv (cache_inv db_valid db_coins) (cache_utxo db_coins)" "cache_utxo (cache_utxo db_coins)"
    "cache_best (cache_best db_hash)" for usage
  by (rule coinstip.cache_is_view)


section \<open>Properties\<close>

text \<open>A database with one coin, for the concrete instances below.\<close>

definition example_coin :: Coin where
  "example_coin = Coin_make \<lparr> nValue = 6 * COIN, scriptPubKey = [0x51], nRounds = -10 \<rparr> 1 False"

definition example_db :: CCoinsViewDB where
  "example_db = \<lparr> db_coins = (\<lambda>_. None)(COutPoint 7 1 \<mapsto> example_coin), db_best = Some 5 \<rparr>"

definition example_cache :: "CCoinsViewDB CCoinsViewCache" where
  "example_cache = CCoinsViewCache_make example_db"

lemma example_valid: "db_valid example_db"
  by (auto simp: db_valid_def utxo_ok_def example_db_def example_coin_def CTxOut_IsNull_def COIN_def split: if_splits)

lemma example_cache_ok:
  "cache_inv db_valid db_coins example_cache" "cache_utxo db_coins example_cache = db_coins example_db"
  using coinsdb.make_refines [OF example_valid] by (simp_all add: example_cache_def)

text \<open>
  (C1) A cache is as good as the view under it: if the base keeps the contract of a view
  of the unspent-output set, so does \<^verbatim>\<open>CCoinsViewCache\<close> over it, with the map that overlays
  its unspent entries on the base's. By iteration this holds for caches stacked to any depth
  over the database.
\<close>

theorem cache_over_view_is_view:
  assumes "coins_view ops valid utxo best"
  shows "coins_view (cache_ops usage ops) (cache_inv valid utxo) (cache_utxo utxo) (cache_best best)"
  by (rule coins_view.cache_is_view [OF assms])

theorem cache_over_view_is_view_witness:
  "coins_view (cache_ops (\<lambda>_. 0) CCoinsViewDB_ops) (cache_inv db_valid db_coins) (cache_utxo db_coins) (cache_best db_hash)"
  by (rule cache_over_view_is_view [OF coinsdb.coins_view_axioms])

text \<open>
  \<open>SpendCoin\<close> removes exactly the given outpoint from the unspent set. If a coin was
  there it returns true and moves that coin out; every other coin, the best block and the
  invariant are untouched.
\<close>

theorem SpendCoin_removes:
  assumes "coins_view ops valid utxo best" "cache_inv valid utxo c"
    "SpendCoin usage ops c p = (r, moveout, c')" "cache_utxo utxo c p = Some cn"
  shows "r \<and> moveout = Some cn \<and> cache_utxo utxo c' = (cache_utxo utxo c)(p := None) \<and>
    cache_inv valid utxo c' \<and> cache_best best c' = cache_best best c"
  using coins_view.SpendCoin_refines [OF assms(1-3)] assms(4) by simp

theorem SpendCoin_removes_witness:
  "fst (SpendCoin (\<lambda>_. 0) CCoinsViewDB_ops example_cache (COutPoint 7 1)) \<and>
   cache_utxo db_coins (snd (snd (SpendCoin (\<lambda>_. 0) CCoinsViewDB_ops example_cache (COutPoint 7 1)))) (COutPoint 7 1) = None"
proof -
  obtain r m c where s: "SpendCoin (\<lambda>_. 0) CCoinsViewDB_ops example_cache (COutPoint 7 1) = (r, m, c)"
    by (cases "SpendCoin (\<lambda>_. 0) CCoinsViewDB_ops example_cache (COutPoint 7 1)")
  have "cache_utxo db_coins example_cache (COutPoint 7 1) = Some example_coin"
    by (simp add: example_cache_ok example_db_def)
  from SpendCoin_removes [OF coinsdb.coins_view_axioms example_cache_ok(1) s this] show ?thesis by (simp add: s)
qed

text \<open>
  \<open>SpendCoin\<close> returns true, and moves a null coin out, when the cache has an entry for an
  output that is already spent.
\<close>

theorem SpendCoin_spent_entry:
  "\<exists>c :: CCoinsViewDB CCoinsViewCache.
     cache_utxo db_coins c (COutPoint 7 1) = None \<and>
     fst (SpendCoin (\<lambda>_. 0) CCoinsViewDB_ops c (COutPoint 7 1))"
  by (rule exI [of _ "example_cache\<lparr> cacheCoins := (\<lambda>_. None)(COutPoint 7 1 \<mapsto> \<lparr> coin = Coin_empty, flags = DIRTY \<rparr>) \<rparr>"])
     (simp add: cache_utxo_def SpendCoin_def FetchCoin_def Let_def)

text \<open>
  \<open>AddCoin\<close> adds exactly the given coin (nothing if its script is unspendable), and
  cannot fail, provided that an output that is already unspent is only overwritten with
  \<^verbatim>\<open>possible_overwrite\<close> set.
\<close>

theorem AddCoin_adds:
  assumes "coins_view ops valid utxo best" "cache_inv valid utxo c" "\<not> IsSpent cn"
    "overwrite \<or> cache_utxo utxo c p = None"
  shows "\<exists>c'. AddCoin usage c p cn overwrite = Inr c' \<and> cache_inv valid utxo c' \<and>
    cache_utxo utxo c' = (if IsUnspendable (scriptPubKey (out cn)) then cache_utxo utxo c else (cache_utxo utxo c)(p \<mapsto> cn)) \<and>
    cache_best best c' = cache_best best c"
proof -
  have "\<not> overwrite \<Longrightarrow> cache_utxo utxo c p = None" using assms(4) by blast
  from coins_view.AddCoin_refines [OF assms(1-3), of overwrite p usage, OF this] obtain c' where
    "AddCoin usage c p cn overwrite = Inr c'" "cache_inv valid utxo c'" "base c' = base c" "hashBlock c' = hashBlock c"
    "cache_utxo utxo c' = (if IsUnspendable (scriptPubKey (out cn)) then cache_utxo utxo c else (cache_utxo utxo c)(p \<mapsto> cn))"
    by blast
  moreover from this(3,4) have "cache_best best c' = cache_best best c" by (simp add: cache_best_def)
  ultimately show ?thesis by blast
qed

theorem AddCoin_adds_witness:
  "\<exists>c'. AddCoin (\<lambda>_. 0) example_cache (COutPoint 8 0) example_coin False = Inr c' \<and>
     cache_utxo db_coins c' (COutPoint 8 0) = Some example_coin"
proof -
  have "\<not> IsSpent example_coin" "\<not> IsUnspendable (scriptPubKey (out example_coin))"
    "cache_utxo db_coins example_cache (COutPoint 8 0) = None"
    by (simp_all add: example_coin_def CTxOut_IsNull_def COIN_def IsUnspendable_def MAX_SCRIPT_SIZE_def
      example_cache_ok example_db_def)
  with AddCoin_adds [OF coinsdb.coins_view_axioms example_cache_ok(1), of example_coin False "COutPoint 8 0" "\<lambda>_. 0"]
  show ?thesis by auto
qed

text \<open>
  \<open>Flush\<close> is invisible: whatever order the hash map is iterated in, the flush
  succeeds, the base then holds the unspent set and best block that the cache showed before, and
  the emptied cache shows them still. The best block must be known to the cache.
\<close>

theorem Flush_preserves:
  assumes "coins_view ops valid utxo best" "cache_inv valid utxo c" "enumerates order (cacheCoins c)" "hashBlock c \<noteq> 0"
  shows "\<exists>c'. Flush ops c order = Inr (True, c') \<and> cacheCoins c' = (\<lambda>_. None) \<and> cache_inv valid utxo c' \<and>
    cache_utxo utxo c' = cache_utxo utxo c \<and> cache_best best c' = cache_best best c \<and>
    utxo (base c') = cache_utxo utxo c \<and> best (base c') = cache_best best c"
  using coins_view.Flush_refines [OF assms] by blast

theorem Flush_preserves_witness:
  "\<exists>c'. Flush CCoinsViewDB_ops (SetBestBlock example_cache 9) [] = Inr (True, c') \<and> db_coins (base c') = db_coins example_db"
proof -
  have "cache_inv db_valid db_coins (SetBestBlock example_cache 9)"
    "cache_utxo db_coins (SetBestBlock example_cache 9) = db_coins example_db"
    using coinsdb.SetBestBlock_refines [OF example_cache_ok(1), of 9] example_cache_ok(2) by simp_all
  moreover have "enumerates [] (cacheCoins (SetBestBlock example_cache 9))" "hashBlock (SetBestBlock example_cache 9) \<noteq> 0"
    by (simp_all add: enumerates_def SetBestBlock_def example_cache_def CCoinsViewCache_make_def)
  ultimately show ?thesis
    using Flush_preserves [OF coinsdb.coins_view_axioms, of "SetBestBlock example_cache 9" "[]"] by auto
qed

text \<open>
  (C2) Disconnecting a block undoes connecting it: on a cache over any view, if every
  transaction of the block applies to the unspent set it meets, then connecting succeeds,
  produces the unspent set of the specification, and disconnecting with the undo data it
  produced reports \<open>DISCONNECT_OK\<close> and restores exactly the unspent set before the block.
\<close>

theorem DisconnectBlock_undoes_ConnectBlock:
  assumes "coins_view ops valid utxo best" "cache_inv valid utxo c"
    "IsCoinBase cb" "\<forall>tx \<in> set rest. \<not> IsCoinBase tx"
    "block_applicable GetHash height (cache_utxo utxo c) (cb # rest)"
    "0 \<le> height" "height < 2 ^ 31" "blockHash \<noteq> 0" "prevHash \<noteq> 0"
  shows "\<exists>vtxundo c1 c2.
    ConnectBlock_coins GetHash usage ops height blockHash (cb # rest) c = Inr (vtxundo, c1) \<and>
    cache_utxo utxo c1 = apply_block GetHash height (cache_utxo utxo c) (cb # rest) \<and> cache_best best c1 = blockHash \<and>
    DisconnectBlock_coins GetHash usage ops height prevHash (cb # rest) vtxundo c1 = Inr (DISCONNECT_OK, c2) \<and>
    cache_inv valid utxo c2 \<and> cache_utxo utxo c2 = cache_utxo utxo c \<and> cache_best best c2 = prevHash"
  by (rule coins_view.connect_disconnect [OF assms])

definition example_coinbase :: CTransaction where
  "example_coinbase = example_tx\<lparr> vin := [\<lparr> prevout = COutPoint_null, scriptSig = [1, 2], nSequence = 0 \<rparr>] \<rparr>"

definition example_hash :: "CTransaction \<Rightarrow> uint256" where
  "example_hash tx = (if IsCoinBase tx then 21 else 22)"

theorem DisconnectBlock_undoes_ConnectBlock_witness:
  "\<exists>vtxundo c1 c2.
    ConnectBlock_coins example_hash (\<lambda>_. 0) CCoinsViewDB_ops 2 11 [example_coinbase, example_tx] example_cache = Inr (vtxundo, c1) \<and>
    DisconnectBlock_coins example_hash (\<lambda>_. 0) CCoinsViewDB_ops 2 5 [example_coinbase, example_tx] vtxundo c1 =
      Inr (DISCONNECT_OK, c2) \<and> cache_utxo db_coins c2 = db_coins example_db"
proof -
  have cb: "IsCoinBase example_coinbase" "\<not> IsCoinBase example_tx"
    by (simp_all add: example_coinbase_def example_tx_def IsCoinBase_def COutPoint_null_def COutPoint_IsNull_def)
  have f: "vin example_tx = [\<lparr> prevout = COutPoint 7 1, scriptSig = [0x51], nSequence = SEQUENCE_FINAL \<rparr>]"
    "vout example_tx = [\<lparr> nValue = 5 * COIN, scriptPubKey = [0x51], nRounds = -10 \<rparr>]"
    "vout example_coinbase = [\<lparr> nValue = 5 * COIN, scriptPubKey = [0x51], nRounds = -10 \<rparr>]"
    by (simp_all add: example_tx_def example_coinbase_def)
  have h: "example_hash example_coinbase = 21" "example_hash example_tx = 22"
    by (simp_all add: example_hash_def cb)
  have "block_applicable example_hash 2 (cache_utxo db_coins example_cache) [example_coinbase, example_tx]"
    by (simp add: example_cache_ok h cb f tx_applicable_def apply_tx_def map_add_def example_db_def example_coin_def
         Coin_make_def IsUnspendable_def MAX_SCRIPT_SIZE_def CTxOut_IsNull_def COIN_def)
  with DisconnectBlock_undoes_ConnectBlock [OF coinsdb.coins_view_axioms example_cache_ok(1) cb(1), of "[example_tx]" example_hash 2 11 5 "\<lambda>_. 0"]
  show ?thesis using cb(2) by (auto simp: example_cache_ok)
qed

text \<open>
  \<open>CheckTxInputs\<close> accepts a transaction only if every input is an unspent coin with a
  valid amount, coinbase outputs are at least \<open>COINBASE_MATURITY\<close> blocks deep, and the inputs
  pay for the outputs: their difference is the fee, which is in the money range. So no
  accepted transaction creates money.
\<close>

theorem CheckTxInputs_no_inflation:
  assumes "coins_view ops valid utxo best" "cache_inv valid utxo c" "\<not> IsCoinBase tx"
    "CheckTxInputs usage ops tx c nSpendHeight = (Inr fee, c')"
  shows "list_all (input_spendable nSpendHeight (cache_utxo utxo c)) (vin tx) \<and>
    sum_list (map (input_value (cache_utxo utxo c)) (vin tx)) = sum_list (map nValue (vout tx)) + fee \<and>
    MoneyRange fee \<and> cache_inv valid utxo c' \<and> cache_utxo utxo c' = cache_utxo utxo c"
  by (rule coins_view.CheckTxInputs_sound [OF assms])

theorem CheckTxInputs_no_inflation_witness:
  "fst (CheckTxInputs (\<lambda>_. 0) CCoinsViewDB_ops example_tx example_cache 10) = Inr (1 * COIN) \<and>
   sum_list (map (input_value (cache_utxo db_coins example_cache)) (vin example_tx)) =
     sum_list (map nValue (vout example_tx)) + 1 * COIN"
proof -
  have nc: "\<not> IsCoinBase example_tx"
    by (simp add: example_tx_def IsCoinBase_def COutPoint_IsNull_def)
  obtain r c' where r: "CheckTxInputs (\<lambda>_. 0) CCoinsViewDB_ops example_tx example_cache 10 = (r, c')"
    by (cases "CheckTxInputs (\<lambda>_. 0) CCoinsViewDB_ops example_tx example_cache 10")
  have "fst (CheckTxInputs (\<lambda>_. 0) CCoinsViewDB_ops example_tx example_cache 10) = Inr (1 * COIN)"
    by (simp add: CheckTxInputs_def HaveInputs_def nc)
       (simp add: example_tx_def example_cache_def CCoinsViewCache_make_def HaveCoin_def FetchCoin_def AccessCoin_def
        CCoinsViewDB_ops_def CCoinsViewDB_GetCoin_def example_db_def example_coin_def Coin_make_def
        CCoinsCacheEntry_make_def IsSpent_def CTxOut_IsNull_def COIN_def MoneyRange_def MAX_MONEY_def GetValueOut_def Let_def)
  with r have "CheckTxInputs (\<lambda>_. 0) CCoinsViewDB_ops example_tx example_cache 10 = (Inr (1 * COIN), c')" by simp
  from CheckTxInputs_no_inflation [OF coinsdb.coins_view_axioms example_cache_ok(1) nc this] this
  show ?thesis by simp
qed

end
