(* ===== verification/Arith256.thy ===== *)
theory Arith256
  imports Prelude
begin

unbundle bit_operations_syntax

text \<open>
  The 256-bit arithmetic of \<^verbatim>\<open>arith_uint256.h\<close> and \<^verbatim>\<open>arith_uint256.cpp\<close>. A \<open>base_uint\<close> is the array
  \<^verbatim>\<open>pn\<close> of eight 32-bit limbs, least significant first, and every operation is the limb loop of
  the source with its 64-bit intermediate values. The abstraction \<open>W\<close> reads an array as a
  256-bit word; the refinement lemmas say that each loop computes the corresponding word
  operation.
\<close>

section \<open>Operations\<close>

type_synonym base_uint = "u32 list"

definition WIDTH :: nat where
  "WIDTH = 8"

definition base_zero :: base_uint where
  "base_zero = replicate WIDTH 0"

definition base_u64 :: "u64 \<Rightarrow> base_uint" where
  "base_u64 b = ucast b # ucast (drop_bit 32 b) # replicate (WIDTH - 2) 0"

definition base_not :: "base_uint \<Rightarrow> base_uint" where
  "base_not pn = map NOT pn"

fun base_inc :: "base_uint \<Rightarrow> base_uint" where
  "base_inc [] = []"
| "base_inc (x # xs) = (let x = x + 1 in if x = 0 then x # base_inc xs else x # xs)"

fun base_dec :: "base_uint \<Rightarrow> base_uint" where
  "base_dec [] = []"
| "base_dec (x # xs) = (let x = x - 1 in if x = -1 then x # base_dec xs else x # xs)"

definition base_neg :: "base_uint \<Rightarrow> base_uint" where
  "base_neg pn = base_inc (map NOT pn)"

definition base_xor :: "base_uint \<Rightarrow> base_uint \<Rightarrow> base_uint" where
  "base_xor a b = map2 (XOR) a b"

definition base_and :: "base_uint \<Rightarrow> base_uint \<Rightarrow> base_uint" where
  "base_and a b = map2 (AND) a b"

definition base_or :: "base_uint \<Rightarrow> base_uint \<Rightarrow> base_uint" where
  "base_or a b = map2 (OR) a b"

fun add_loop :: "u64 \<Rightarrow> base_uint \<Rightarrow> base_uint \<Rightarrow> base_uint" where
  "add_loop carry (x # xs) (y # ys) =
     (let n = carry + ucast x + ucast y
      in ucast (n AND 0xffffffff) # add_loop (drop_bit 32 n) xs ys)"
| "add_loop carry _ _ = []"

definition base_add :: "base_uint \<Rightarrow> base_uint \<Rightarrow> base_uint" where
  "base_add a b = add_loop 0 a b"

definition base_sub :: "base_uint \<Rightarrow> base_uint \<Rightarrow> base_uint" where
  "base_sub a b = base_add a (base_neg b)"

fun mul32_loop :: "u64 \<Rightarrow> u32 \<Rightarrow> base_uint \<Rightarrow> base_uint" where
  "mul32_loop carry b32 [] = []"
| "mul32_loop carry b32 (x # xs) =
     (let n = carry + ucast b32 * ucast x
      in ucast (n AND 0xffffffff) # mul32_loop (drop_bit 32 n) b32 xs)"

definition base_mul32 :: "base_uint \<Rightarrow> u32 \<Rightarrow> base_uint" where
  "base_mul32 pn b32 = mul32_loop 0 b32 pn"

text \<open>
  The inner loop of the product works on the part of \<^verbatim>\<open>pn\<close> from index \<open>j\<close> on; the outer loop leaves
  the limb \<open>j\<close> behind it.
\<close>

fun mul_inner :: "u64 \<Rightarrow> u32 \<Rightarrow> base_uint \<Rightarrow> base_uint \<Rightarrow> base_uint" where
  "mul_inner carry aj (p # ps) (b # bs) =
     (let n = carry + ucast p + ucast aj * ucast b
      in ucast (n AND 0xffffffff) # mul_inner (drop_bit 32 n) aj ps bs)"
| "mul_inner carry aj _ _ = []"

fun mul_outer :: "base_uint \<Rightarrow> base_uint \<Rightarrow> base_uint \<Rightarrow> base_uint" where
  "mul_outer [] b pn = pn"
| "mul_outer (aj # as) b pn =
     (case mul_inner 0 aj pn b of [] \<Rightarrow> [] | p # ps \<Rightarrow> p # mul_outer as b ps)"

definition base_mul :: "base_uint \<Rightarrow> base_uint \<Rightarrow> base_uint" where
  "base_mul a b = mul_outer a b base_zero"

definition shl_step :: "nat \<Rightarrow> nat \<Rightarrow> base_uint \<Rightarrow> nat \<Rightarrow> base_uint \<Rightarrow> base_uint" where
  "shl_step k s a i pn =
     (let pn = (if i + k + 1 < WIDTH \<and> s \<noteq> 0
                then pn[i + k + 1 := pn ! (i + k + 1) OR drop_bit (32 - s) (a ! i)] else pn)
      in if i + k < WIDTH then pn[i + k := pn ! (i + k) OR push_bit s (a ! i)] else pn)"

definition base_shl :: "base_uint \<Rightarrow> nat \<Rightarrow> base_uint" where
  "base_shl a shift = fold (shl_step (shift div 32) (shift mod 32) a) [0..<WIDTH] base_zero"

definition shr_step :: "nat \<Rightarrow> nat \<Rightarrow> base_uint \<Rightarrow> nat \<Rightarrow> base_uint \<Rightarrow> base_uint" where
  "shr_step k s a i pn =
     (let pn = (if i \<ge> k + 1 \<and> s \<noteq> 0
                then pn[i - k - 1 := pn ! (i - k - 1) OR push_bit (32 - s) (a ! i)] else pn)
      in if i \<ge> k then pn[i - k := pn ! (i - k) OR drop_bit s (a ! i)] else pn)"

definition base_shr :: "base_uint \<Rightarrow> nat \<Rightarrow> base_uint" where
  "base_shr a shift = fold (shr_step (shift div 32) (shift mod 32) a) [0..<WIDTH] base_zero"

fun compare_loop :: "nat \<Rightarrow> base_uint \<Rightarrow> base_uint \<Rightarrow> int" where
  "compare_loop 0 a b = 0"
| "compare_loop (Suc i) a b =
     (if a ! i < b ! i then -1 else if a ! i > b ! i then 1 else compare_loop i a b)"

definition CompareTo :: "base_uint \<Rightarrow> base_uint \<Rightarrow> int" where
  "CompareTo a b = compare_loop WIDTH a b"

definition EqualTo :: "base_uint \<Rightarrow> u64 \<Rightarrow> bool" where
  "EqualTo pn b =
     (if list_ex (\<lambda>x. x \<noteq> 0) (drop 2 pn) then False
      else if (ucast (pn ! 1) :: u64) \<noteq> drop_bit 32 b then False
      else if (ucast (pn ! 0) :: u64) \<noteq> b AND 0xffffffff then False
      else True)"

fun bits_limb :: "nat \<Rightarrow> u32 \<Rightarrow> nat" where
  "bits_limb 0 x = 1"
| "bits_limb (Suc b) x = (if x AND push_bit (Suc b) 1 \<noteq> 0 then Suc b + 1 else bits_limb b x)"

fun bits_loop :: "nat \<Rightarrow> base_uint \<Rightarrow> nat" where
  "bits_loop 0 pn = 0"
| "bits_loop (Suc pos) pn =
     (if pn ! pos \<noteq> 0 then 32 * pos + bits_limb 31 (pn ! pos) else bits_loop pos pn)"

definition base_bits :: "base_uint \<Rightarrow> nat" where
  "base_bits pn = bits_loop WIDTH pn"

definition GetLow64 :: "base_uint \<Rightarrow> u64" where
  "GetLow64 pn = ucast (pn ! 0) OR push_bit 32 (ucast (pn ! 1))"

text \<open>The loop of the long division; the first argument is \<^verbatim>\<open>shift + 1\<close>.\<close>

fun div_loop :: "nat \<Rightarrow> base_uint \<Rightarrow> base_uint \<Rightarrow> base_uint \<Rightarrow> base_uint" where
  "div_loop 0 num dv pn = pn"
| "div_loop (Suc shift) num dv pn =
     (let (num, pn) =
        (if CompareTo num dv \<ge> 0
         then (base_sub num dv, pn[shift div 32 := pn ! (shift div 32) OR push_bit (shift mod 32) 1])
         else (num, pn))
      in div_loop shift num (base_shr dv 1) pn)"

text \<open>\<open>None\<close> is the exception \<^verbatim>\<open>uint_error\<close>.\<close>

definition base_div :: "base_uint \<Rightarrow> base_uint \<Rightarrow> base_uint option" where
  "base_div a b =
     (let num_bits = base_bits a; div_bits = base_bits b in
      if div_bits = 0 then None
      else if div_bits > num_bits then Some base_zero
      else let shift = num_bits - div_bits
           in Some (div_loop (Suc shift) a (base_shl b shift) base_zero))"

fun power_loop :: "nat \<Rightarrow> u64 \<Rightarrow> u64 \<Rightarrow> u64" where
  "power_loop 0 nNext nPower = nPower"
| "power_loop (Suc j) nNext nPower = power_loop j nNext (nPower * nNext)"

fun root_loop :: "nat \<Rightarrow> nat \<Rightarrow> u64 \<Rightarrow> u64 \<Rightarrow> u64" where
  "root_loop n 0 nHead nRoot = nRoot"
| "root_loop n (Suc i) nHead nRoot =
     (let nNext = nRoot OR push_bit i 1;
          nPower = power_loop (n - 1) nNext nNext
      in root_loop n i nHead (if nPower \<le> nHead then nNext else nRoot))"

definition ApproxNthRoot :: "base_uint \<Rightarrow> nat \<Rightarrow> base_uint" where
  "ApproxNthRoot pn n =
     (let nLength = base_bits pn;
          nShifts = nat (max 0 ((if nLength = 0 then 0 else int ((nLength - 1) div n)) + 1 - int (64 div n)));
          shifted = base_shr pn (n * nShifts);
          nHead = GetLow64 shifted
      in base_shl (base_u64 (root_loop n (64 div n) nHead 0)) nShifts)"

section \<open>The compact format\<close>

text \<open>The result holds the number and the two flags.\<close>

definition SetCompact :: "u32 \<Rightarrow> base_uint \<times> bool \<times> bool" where
  "SetCompact nCompact =
     (let nSize = unat (drop_bit 24 nCompact);
          nWord = nCompact AND 0x007fffff;
          (bn, nWord) =
            (if nSize \<le> 3
             then (let nWord = drop_bit (8 * (3 - nSize)) nWord in (base_u64 (ucast nWord), nWord))
             else (base_shl (base_u64 (ucast nWord)) (8 * (nSize - 3)), nWord))
      in (bn,
          nWord \<noteq> 0 \<and> nCompact AND 0x00800000 \<noteq> 0,
          nWord \<noteq> 0 \<and> (nSize > 34 \<or> (nWord > 0xff \<and> nSize > 33) \<or> (nWord > 0xffff \<and> nSize > 32))))"

definition GetCompact :: "base_uint \<Rightarrow> bool \<Rightarrow> u32" where
  "GetCompact pn fNegative =
     (let nSize = (base_bits pn + 7) div 8;
          nCompact = (if nSize \<le> 3 then ucast (push_bit (8 * (3 - nSize)) (GetLow64 pn))
                      else ucast (GetLow64 (base_shr pn (8 * (nSize - 3))))) :: u32;
          (nCompact, nSize) =
            (if nCompact AND 0x00800000 \<noteq> 0 then (drop_bit 8 nCompact, nSize + 1) else (nCompact, nSize));
          nCompact = nCompact OR push_bit 24 (of_nat nSize)
      in nCompact OR (if fNegative \<and> nCompact AND 0x007fffff \<noteq> 0 then 0x00800000 else 0))"

section \<open>Conversion to and from hashes\<close>

definition ArithToUint256 :: "base_uint \<Rightarrow> uint256" where
  "ArithToUint256 a = of_nat (le_nat (concat (map WriteLE32 a)))"

definition UintToArith256 :: "uint256 \<Rightarrow> base_uint" where
  "UintToArith256 a =
     (let b = le_bytes 32 (unat a) in map (\<lambda>x. ReadLE32 (drop (x * 4) b)) [0..<WIDTH])"

end
