(* ===== verification/Chain.thy ===== *)
theory Chain
  imports Arith256 Transaction
begin

unbundle bit_operations_syntax

text \<open>
  Block headers (\<^verbatim>\<open>primitives/block.h\<close>), the block index and the active chain (\<^verbatim>\<open>chain.h\<close>,
  \<^verbatim>\<open>chain.cpp\<close>). Block index entries live in a store from addresses to entries; an unused address
  holds the entry that \<open>SetNull\<close> makes, and entries are never freed, as in the program. A null
  pointer is \<open>None\<close>.
\<close>

section \<open>Headers\<close>

record CBlockHeader =
  bh_nVersion :: u32
  bh_hashPrevBlock :: uint256
  bh_hashMerkleRoot :: uint256
  bh_nTime :: u32
  bh_nBits :: u32
  bh_nNonce :: u32

definition CBlockHeader_null :: CBlockHeader where
  "CBlockHeader_null = \<lparr> bh_nVersion = 0, bh_hashPrevBlock = 0, bh_hashMerkleRoot = 0, bh_nTime = 0, bh_nBits = 0, bh_nNonce = 0 \<rparr>"

definition Serialize_CBlockHeader :: "CBlockHeader \<Rightarrow> bytes" where
  "Serialize_CBlockHeader h =
     ser_writedata32 (bh_nVersion h) @ Serialize_uint256 (bh_hashPrevBlock h) @ Serialize_uint256 (bh_hashMerkleRoot h) @
     ser_writedata32 (bh_nTime h) @ ser_writedata32 (bh_nBits h) @ ser_writedata32 (bh_nNonce h)"

definition Unserialize_CBlockHeader :: "CBlockHeader unser" where
  "Unserialize_CBlockHeader =
     unser_bind ser_readdata32 (\<lambda>v. unser_bind Unserialize_uint256 (\<lambda>p. unser_bind Unserialize_uint256 (\<lambda>m.
     unser_bind ser_readdata32 (\<lambda>t. unser_bind ser_readdata32 (\<lambda>b. unser_bind ser_readdata32 (\<lambda>n.
       unser_return \<lparr> bh_nVersion = v, bh_hashPrevBlock = p, bh_hashMerkleRoot = m, bh_nTime = t, bh_nBits = b, bh_nNonce = n \<rparr>))))))"

definition ALGO_UNKNOWN :: int where "ALGO_UNKNOWN = -1"
definition ALGO_SHA256D :: int where "ALGO_SHA256D = 0"
definition ALGO_SCRYPT :: int where "ALGO_SCRYPT = 1"
definition ALGO_X11 :: int where "ALGO_X11 = 2"
definition ALGO_YESPOWER :: int where "ALGO_YESPOWER = 3"
definition ALGO_LYRA2 :: int where "ALGO_LYRA2 = 4"

definition NUM_ALGOS :: nat where "NUM_ALGOS = 3"
definition NUM_ALGOSV2 :: nat where "NUM_ALGOSV2 = 4"
definition NUM_ALGOSV3 :: nat where "NUM_ALGOSV3 = 5"

definition BLOCK_VERSION_ALGO :: u32 where "BLOCK_VERSION_ALGO = push_bit 9 7"
definition BLOCK_VERSION_SCRYPT :: u32 where "BLOCK_VERSION_SCRYPT = push_bit 9 0"
definition BLOCK_VERSION_LYRA2 :: u32 where "BLOCK_VERSION_LYRA2 = push_bit 9 1"
definition BLOCK_VERSION_SHA256D :: u32 where "BLOCK_VERSION_SHA256D = push_bit 9 2"
definition BLOCK_VERSION_X11 :: u32 where "BLOCK_VERSION_X11 = push_bit 9 4"
definition BLOCK_VERSION_YESPOWER :: u32 where "BLOCK_VERSION_YESPOWER = push_bit 9 6"

definition version_GetAlgo :: "u32 \<Rightarrow> int" where
  "version_GetAlgo version =
     (let v = version AND BLOCK_VERSION_ALGO in
      if v = BLOCK_VERSION_SCRYPT then ALGO_SCRYPT
      else if v = BLOCK_VERSION_SHA256D then ALGO_SHA256D
      else if v = BLOCK_VERSION_X11 then ALGO_X11
      else if v = BLOCK_VERSION_YESPOWER then ALGO_YESPOWER
      else if v = BLOCK_VERSION_LYRA2 then ALGO_LYRA2
      else ALGO_UNKNOWN)"

section \<open>The block index\<close>

definition BLOCK_VALID_HEADER :: u32 where "BLOCK_VALID_HEADER = 1"
definition BLOCK_VALID_TREE :: u32 where "BLOCK_VALID_TREE = 2"
definition BLOCK_VALID_TRANSACTIONS :: u32 where "BLOCK_VALID_TRANSACTIONS = 3"
definition BLOCK_VALID_CHAIN :: u32 where "BLOCK_VALID_CHAIN = 4"
definition BLOCK_VALID_SCRIPTS :: u32 where "BLOCK_VALID_SCRIPTS = 5"
definition BLOCK_VALID_MASK :: u32 where
  "BLOCK_VALID_MASK = BLOCK_VALID_HEADER OR BLOCK_VALID_TREE OR BLOCK_VALID_TRANSACTIONS OR
     BLOCK_VALID_CHAIN OR BLOCK_VALID_SCRIPTS"
definition BLOCK_HAVE_DATA :: u32 where "BLOCK_HAVE_DATA = 8"
definition BLOCK_HAVE_UNDO :: u32 where "BLOCK_HAVE_UNDO = 16"
definition BLOCK_FAILED_VALID :: u32 where "BLOCK_FAILED_VALID = 32"
definition BLOCK_FAILED_CHILD :: u32 where "BLOCK_FAILED_CHILD = 64"
definition BLOCK_FAILED_MASK :: u32 where "BLOCK_FAILED_MASK = BLOCK_FAILED_VALID OR BLOCK_FAILED_CHILD"

type_synonym ptr = nat

record CBlockIndex =
  bi_hash :: uint256
  pprev :: "ptr option"
  pskip :: "ptr option"
  bi_nHeight :: int
  nChainWork :: base_uint
  bi_nTx :: u32
  bi_nChainTx :: u32
  bi_nStatus :: u32
  bi_nVersion :: u32
  bi_hashMerkleRoot :: uint256
  bi_nTime :: u32
  bi_nBits :: u32
  bi_nNonce :: u32
  bi_nSequenceId :: int
  bi_nTimeMax :: u32

type_synonym block_heap = "ptr \<Rightarrow> CBlockIndex"

definition CBlockIndex_null :: CBlockIndex where
  "CBlockIndex_null =
     \<lparr> bi_hash = 0, pprev = None, pskip = None, bi_nHeight = 0, nChainWork = base_zero, bi_nTx = 0, bi_nChainTx = 0,
       bi_nStatus = 0, bi_nVersion = 0, bi_hashMerkleRoot = 0, bi_nTime = 0, bi_nBits = 0, bi_nNonce = 0,
       bi_nSequenceId = 0, bi_nTimeMax = 0 \<rparr>"

definition CBlockIndex_make :: "CBlockHeader \<Rightarrow> CBlockIndex" where
  "CBlockIndex_make block = CBlockIndex_null
     \<lparr> bi_nVersion := bh_nVersion block, bi_hashMerkleRoot := bh_hashMerkleRoot block, bi_nTime := bh_nTime block,
       bi_nBits := bh_nBits block, bi_nNonce := bh_nNonce block \<rparr>"

definition GetBlockHeader :: "block_heap \<Rightarrow> CBlockIndex \<Rightarrow> CBlockHeader" where
  "GetBlockHeader h bi =
     \<lparr> bh_nVersion = bi_nVersion bi,
       bh_hashPrevBlock = (case pprev bi of None \<Rightarrow> 0 | Some q \<Rightarrow> bi_hash (h q)),
       bh_hashMerkleRoot = bi_hashMerkleRoot bi, bh_nTime = bi_nTime bi, bh_nBits = bi_nBits bi,
       bh_nNonce = bi_nNonce bi \<rparr>"

definition GetAlgo :: "CBlockIndex \<Rightarrow> int" where
  "GetAlgo bi = version_GetAlgo (bi_nVersion bi)"

definition nMedianTimeSpan :: nat where
  "nMedianTimeSpan = 11"

fun median_times :: "nat \<Rightarrow> block_heap \<Rightarrow> ptr option \<Rightarrow> int list" where
  "median_times 0 h pindex = []"
| "median_times (Suc n) h None = []"
| "median_times (Suc n) h (Some p) = uint (bi_nTime (h p)) # median_times n h (pprev (h p))"

definition GetMedianTimePast :: "block_heap \<Rightarrow> ptr \<Rightarrow> int" where
  "GetMedianTimePast h p =
     (let pmedian = sort (median_times nMedianTimeSpan h (Some p))
      in pmedian ! (length pmedian div 2))"

definition CBlockIndex_IsValid :: "CBlockIndex \<Rightarrow> u32 \<Rightarrow> bool" where
  "CBlockIndex_IsValid bi nUpTo =
     (if bi_nStatus bi AND BLOCK_FAILED_MASK \<noteq> 0 then False
      else bi_nStatus bi AND BLOCK_VALID_MASK \<ge> nUpTo)"

definition RaiseValidity :: "CBlockIndex \<Rightarrow> u32 \<Rightarrow> bool \<times> CBlockIndex" where
  "RaiseValidity bi nUpTo =
     (if bi_nStatus bi AND BLOCK_FAILED_MASK \<noteq> 0 then (False, bi)
      else if bi_nStatus bi AND BLOCK_VALID_MASK < nUpTo
           then (True, bi \<lparr> bi_nStatus := (bi_nStatus bi AND NOT BLOCK_VALID_MASK) OR nUpTo \<rparr>)
      else (False, bi))"

section \<open>The skip list\<close>

definition InvertLowestOne :: "int \<Rightarrow> int" where
  "InvertLowestOne n = n AND (n - 1)"

definition GetSkipHeight :: "int \<Rightarrow> int" where
  "GetSkipHeight height =
     (if height < 2 then 0
      else if height AND 1 \<noteq> 0 then InvertLowestOne (InvertLowestOne (height - 1)) + 1
      else InvertLowestOne height)"

lemma InvertLowestOne_bounds:
  assumes "0 < n"
  shows "0 \<le> InvertLowestOne n \<and> InvertLowestOne n < n"
proof -
  have "n AND (n - 1) \<le> n - 1" using assms by (intro AND_upper2) auto
  moreover have "0 \<le> n AND (n - 1)" using assms by simp
  ultimately show ?thesis by (simp add: InvertLowestOne_def)
qed

lemma GetSkipHeight_bounds:
  assumes "0 < height"
  shows "0 \<le> GetSkipHeight height \<and> GetSkipHeight height < height"
proof -
  have odd: "0 \<le> InvertLowestOne (InvertLowestOne (height - 1)) \<and> InvertLowestOne (InvertLowestOne (height - 1)) + 1 < height"
    if "2 \<le> height" "odd height"
  proof -
    have i: "0 \<le> InvertLowestOne (height - 1)" "InvertLowestOne (height - 1) < height - 1"
      using InvertLowestOne_bounds [of "height - 1"] that by auto
    show ?thesis
    proof (cases "InvertLowestOne (height - 1) = 0")
      case True
      then show ?thesis using that by (simp add: InvertLowestOne_def)
    next
      case False
      then show ?thesis using InvertLowestOne_bounds [of "InvertLowestOne (height - 1)"] i by auto
    qed
  qed
  show ?thesis
    using assms odd InvertLowestOne_bounds [of height] by (auto simp: GetSkipHeight_def and_one_eq odd_iff_mod_2_eq_one)
qed

datatype chain_error = AssertFailed | NullPointer

function GetAncestor_loop :: "block_heap \<Rightarrow> int \<Rightarrow> int \<Rightarrow> ptr \<Rightarrow> chain_error + ptr" where
  "GetAncestor_loop h height heightWalk pindexWalk =
     (if heightWalk > height \<and> height \<ge> 0 then
        (let heightSkip = GetSkipHeight heightWalk;
             heightSkipPrev = GetSkipHeight (heightWalk - 1)
         in case pskip (h pindexWalk) of
              Some skip \<Rightarrow>
                if heightSkip = height \<or>
                   (heightSkip > height \<and> \<not> (heightSkipPrev < heightSkip - 2 \<and> heightSkipPrev \<ge> height))
                then GetAncestor_loop h height heightSkip skip
                else (case pprev (h pindexWalk) of
                        None \<Rightarrow> Inl AssertFailed
                      | Some prev \<Rightarrow> GetAncestor_loop h height (heightWalk - 1) prev)
            | None \<Rightarrow>
                (case pprev (h pindexWalk) of
                   None \<Rightarrow> Inl AssertFailed
                 | Some prev \<Rightarrow> GetAncestor_loop h height (heightWalk - 1) prev))
      else Inr pindexWalk)"
  by pat_completeness auto
termination
proof (relation "measure (\<lambda>(h, height, heightWalk, p). nat heightWalk)", goal_cases)
  case 1
  show ?case by simp
qed (use GetSkipHeight_bounds in \<open>auto simp: Let_def\<close>)

declare GetAncestor_loop.simps [simp del]

definition GetAncestor :: "block_heap \<Rightarrow> ptr \<Rightarrow> int \<Rightarrow> chain_error + ptr option" where
  "GetAncestor h p height =
     (if height > bi_nHeight (h p) \<or> height < 0 then Inr None
      else map_sum id Some (GetAncestor_loop h height (bi_nHeight (h p)) p))"

definition BuildSkip :: "block_heap \<Rightarrow> ptr \<Rightarrow> chain_error + block_heap" where
  "BuildSkip h p =
     (case pprev (h p) of
        None \<Rightarrow> Inr h
      | Some q \<Rightarrow>
          (case GetAncestor h q (GetSkipHeight (bi_nHeight (h p))) of
             Inl e \<Rightarrow> Inl e
           | Inr skip \<Rightarrow> Inr (h(p := (h p) \<lparr> pskip := skip \<rparr>))))"

section \<open>The active chain\<close>

type_synonym CChain = "ptr option list"

definition CChain_Genesis :: "CChain \<Rightarrow> ptr option" where
  "CChain_Genesis vChain = (if length vChain > 0 then vChain ! 0 else None)"

definition CChain_Tip :: "CChain \<Rightarrow> ptr option" where
  "CChain_Tip vChain = (if length vChain > 0 then vChain ! (length vChain - 1) else None)"

definition CChain_at :: "CChain \<Rightarrow> int \<Rightarrow> ptr option" where
  "CChain_at vChain height = (if height < 0 \<or> height \<ge> int (length vChain) then None else vChain ! nat height)"

definition CChain_Contains :: "block_heap \<Rightarrow> CChain \<Rightarrow> ptr \<Rightarrow> bool" where
  "CChain_Contains h vChain p \<longleftrightarrow> CChain_at vChain (bi_nHeight (h p)) = Some p"

definition CChain_Next :: "block_heap \<Rightarrow> CChain \<Rightarrow> ptr \<Rightarrow> ptr option" where
  "CChain_Next h vChain p = (if CChain_Contains h vChain p then CChain_at vChain (bi_nHeight (h p) + 1) else None)"

definition CChain_Height :: "CChain \<Rightarrow> int" where
  "CChain_Height vChain = int (length vChain) - 1"

definition vector_resize :: "nat \<Rightarrow> ptr option list \<Rightarrow> ptr option list" where
  "vector_resize n xs = take n xs @ replicate (n - length xs) None"

text \<open>A loop along \<^verbatim>\<open>pprev\<close> need not end on an arbitrary store; not returning is the value \<open>None\<close>.\<close>

partial_function (option) SetTip_loop :: "block_heap \<Rightarrow> CChain \<Rightarrow> ptr option \<Rightarrow> CChain option" where
  "SetTip_loop h vChain pindex =
     (case pindex of
        None \<Rightarrow> Some vChain
      | Some p \<Rightarrow>
          if vChain ! nat (bi_nHeight (h p)) \<noteq> Some p
          then SetTip_loop h (vChain[nat (bi_nHeight (h p)) := Some p]) (pprev (h p))
          else Some vChain)"

declare SetTip_loop.simps [code]

definition SetTip :: "block_heap \<Rightarrow> CChain \<Rightarrow> ptr option \<Rightarrow> CChain option" where
  "SetTip h vChain pindex =
     (case pindex of
        None \<Rightarrow> Some []
      | Some p \<Rightarrow> SetTip_loop h (vector_resize (nat (bi_nHeight (h p) + 1)) vChain) pindex)"

partial_function (option) FindFork_loop :: "block_heap \<Rightarrow> CChain \<Rightarrow> ptr option \<Rightarrow> ptr option option" where
  "FindFork_loop h vChain pindex =
     (case pindex of
        None \<Rightarrow> Some None
      | Some p \<Rightarrow> if \<not> CChain_Contains h vChain p then FindFork_loop h vChain (pprev (h p)) else Some (Some p))"

declare FindFork_loop.simps [code]

definition FindFork :: "block_heap \<Rightarrow> CChain \<Rightarrow> ptr option \<Rightarrow> (chain_error + ptr option) option" where
  "FindFork h vChain pindex =
     (case pindex of
        None \<Rightarrow> Some (Inr None)
      | Some p \<Rightarrow>
          (case (if bi_nHeight (h p) > CChain_Height vChain then GetAncestor h p (CChain_Height vChain) else Inr (Some p)) of
             Inl e \<Rightarrow> Some (Inl e)
           | Inr q \<Rightarrow> map_option Inr (FindFork_loop h vChain q)))"

partial_function (option) GetLocator_loop ::
    "block_heap \<Rightarrow> CChain \<Rightarrow> ptr option \<Rightarrow> int \<Rightarrow> uint256 list \<Rightarrow> (chain_error + uint256 list) option" where
  "GetLocator_loop h vChain pindex nStep vHave =
     (case pindex of
        None \<Rightarrow> Some (Inr vHave)
      | Some p \<Rightarrow>
          (let vHave = vHave @ [bi_hash (h p)] in
           if bi_nHeight (h p) = 0 then Some (Inr vHave)
           else let height = max (bi_nHeight (h p) - nStep) 0;
                    nStep' = (if length vHave > 10 then nStep * 2 else nStep)
                in if CChain_Contains h vChain p
                   then GetLocator_loop h vChain (CChain_at vChain height) nStep' vHave
                   else (case GetAncestor h p height of
                           Inl e \<Rightarrow> Some (Inl e)
                         | Inr q \<Rightarrow> GetLocator_loop h vChain q nStep' vHave)))"

declare GetLocator_loop.simps [code]

definition GetLocator :: "block_heap \<Rightarrow> CChain \<Rightarrow> ptr option \<Rightarrow> (chain_error + uint256 list) option" where
  "GetLocator h vChain pindex =
     GetLocator_loop h vChain (if pindex = None then CChain_Tip vChain else pindex) 1 []"

text \<open>\<^verbatim>\<open>std::lower_bound\<close>: \<open>first\<close> and \<open>count\<close> are the position and the length of the range searched.\<close>

function lower_bound_loop :: "('a \<Rightarrow> bool) \<Rightarrow> 'a list \<Rightarrow> nat \<Rightarrow> nat \<Rightarrow> nat" where
  "lower_bound_loop before xs first count =
     (if count = 0 then first
      else let step = count div 2; it = first + step
           in if before (xs ! it) then lower_bound_loop before xs (it + 1) (count - (step + 1))
              else lower_bound_loop before xs first step)"
  by pat_completeness auto
termination
  by (relation "measure (\<lambda>(l, xs, f, c). c)") auto

declare lower_bound_loop.simps [simp del]

definition FindEarliestAtLeast :: "block_heap \<Rightarrow> CChain \<Rightarrow> int \<Rightarrow> ptr option" where
  "FindEarliestAtLeast h vChain time =
     (let lower = lower_bound_loop (\<lambda>b. uint (bi_nTimeMax (h (the b))) < time) vChain 0 (length vChain)
      in if lower = length vChain then None else vChain ! lower)"

definition FindForkInGlobalIndex :: "block_heap \<Rightarrow> (uint256 \<rightharpoonup> ptr) \<Rightarrow> CChain \<Rightarrow> uint256 list \<Rightarrow> ptr option" where
  "FindForkInGlobalIndex h mapBlockIndex vChain vHave =
     (case find (\<lambda>hash. case mapBlockIndex hash of None \<Rightarrow> False | Some p \<Rightarrow> CChain_Contains h vChain p) vHave of
        Some hash \<Rightarrow> mapBlockIndex hash
      | None \<Rightarrow> CChain_Genesis vChain)"

partial_function (option) LastCommonAncestor_loop ::
    "block_heap \<Rightarrow> ptr option \<Rightarrow> ptr option \<Rightarrow> (ptr option \<times> ptr option) option" where
  "LastCommonAncestor_loop h pa pb =
     (case (pa, pb) of
        (Some a, Some b) \<Rightarrow> if a \<noteq> b then LastCommonAncestor_loop h (pprev (h a)) (pprev (h b)) else Some (pa, pb)
      | _ \<Rightarrow> Some (pa, pb))"

declare LastCommonAncestor_loop.simps [code]

definition LastCommonAncestor :: "block_heap \<Rightarrow> ptr \<Rightarrow> ptr \<Rightarrow> (chain_error + ptr option) option" where
  "LastCommonAncestor h pa pb =
     (let ha = bi_nHeight (h pa); hb = bi_nHeight (h pb) in
      case (if ha > hb then GetAncestor h pa hb else Inr (Some pa),
            if hb > ha then GetAncestor h pb ha else Inr (Some pb)) of
        (Inr a, Inr b) \<Rightarrow>
          (case LastCommonAncestor_loop h a b of
             None \<Rightarrow> None
           | Some (a, b) \<Rightarrow> Some (if a = b then Inr a else Inl AssertFailed))
      | _ \<Rightarrow> Some (Inl AssertFailed))"

end
