(* ===== verification/Arith256_Refine.thy ===== *)
theory Arith256_Refine
  imports Arith256
begin

unbundle bit_operations_syntax

text \<open>
  The limb loops of \<open>Arith256\<close> compute 256-bit word arithmetic: for arrays of eight limbs, \<open>W\<close>
  commutes with every operation.
\<close>

named_theorems W_refine

section \<open>The abstraction\<close>

fun val :: "base_uint \<Rightarrow> nat" where
  "val [] = 0"
| "val (x # xs) = unat x + 4294967296 * val xs"

definition W :: "base_uint \<Rightarrow> 256 word" where
  "W pn = of_nat (val pn)"

abbreviation limbs8 :: "base_uint \<Rightarrow> bool" where
  "limbs8 pn \<equiv> length pn = WIDTH"

lemma unat_u32_less: "unat (x :: u32) < 4294967296"
  using unsigned_less [where 'a = nat and w = x] by simp

lemma pow_limb: "(2 :: nat) ^ (32 + k) = 4294967296 * 2 ^ k"
  by (simp add: power_add)

lemma val_less: "val pn < 2 ^ (32 * length pn)"
proof (induction pn)
  case (Cons x xs)
  have "val (x # xs) < 4294967296 * Suc (val xs)" using unat_u32_less [of x] by simp
  also have "\<dots> \<le> 4294967296 * 2 ^ (32 * length xs)" using Cons by (intro mult_le_mono) auto
  finally show ?case by (simp add: pow_limb)
qed simp

lemma unat_W: "limbs8 pn \<Longrightarrow> unat (W pn) = val pn"
  using val_less [of pn] by (simp add: W_def unat_of_nat WIDTH_def)

lemma W_eqI: "val a = n mod 2 ^ 256 \<Longrightarrow> W a = of_nat n"
  by (simp add: W_def word_of_nat_eq_iff take_bit_eq_mod)

section \<open>Sums and products\<close>

lemma limb_digit:
  assumes "unat (n :: u64) = t"
  shows "unat (ucast (n AND 0xffffffff) :: u32) = t mod 4294967296" "unat (drop_bit 32 n) = t div 4294967296"
proof -
  have "n AND 0xffffffff = take_bit 32 n" by (simp add: take_bit_eq_mask mask_eq_exp_minus_1)
  then show "unat (ucast (n AND 0xffffffff) :: u32) = t mod 4294967296"
    using assms by (simp add: unsigned_ucast_eq unsigned_take_bit_eq take_bit_eq_mod unat_mod)
  show "unat (drop_bit 32 n) = t div 4294967296"
    using assms by (simp add: unat_drop_bit_eq drop_bit_nat_def)
qed

lemma unat_limb: "unat (ucast (x :: u32) :: u64) = unat x"
  by (rule unat_ucast_le) simp

lemma carry_step:
  fixes t y k :: nat
  shows "t mod 4294967296 + 4294967296 * ((t div 4294967296 + y) mod 2 ^ k) =
    (t + 4294967296 * y) mod 2 ^ (32 + k)"
proof -
  have "(t + 4294967296 * y) mod (4294967296 * 2 ^ k) =
      4294967296 * ((t + 4294967296 * y) div 4294967296 mod 2 ^ k) + (t + 4294967296 * y) mod 4294967296"
    by (rule mod_mult2_eq)
  also have "(t + 4294967296 * y) div 4294967296 = t div 4294967296 + y" by simp
  also have "(t + 4294967296 * y) mod 4294967296 = t mod 4294967296" by simp
  finally show ?thesis unfolding pow_limb by linarith
qed

text \<open>One round of a loop with a carry: the digit written and the rest give the sum.\<close>

lemma limb_round:
  fixes n :: u64
  assumes "unat n = t" "val rest = (t div 4294967296 + y) mod 2 ^ k"
  shows "val (ucast (n AND 0xffffffff) # rest) = (t + 4294967296 * y) mod 2 ^ (32 + k)"
  using carry_step [of t y k] limb_digit [OF assms(1)] assms(2) by simp

lemma length_add_loop [simp]: "length (add_loop c xs ys) = min (length xs) (length ys)"
  by (induction c xs ys rule: add_loop.induct) (auto simp: Let_def)

lemma val_add_loop:
  "length xs = length ys \<Longrightarrow> unat c \<le> 1 \<Longrightarrow>
   val (add_loop c xs ys) = (unat c + val xs + val ys) mod 2 ^ (32 * length xs)"
proof (induction c xs ys rule: add_loop.induct)
  case (1 c x xs y ys)
  define n :: u64 where "n = c + ucast x + ucast y"
  define t where "t = unat c + unat x + unat y"
  have t: "t < 8589934592" using "1.prems"(2) unat_u32_less [of x] unat_u32_less [of y] by (simp add: t_def)
  have "n = of_nat t" by (simp add: n_def t_def unat_limb [symmetric])
  then have n: "unat n = t" using t by (simp add: unat_of_nat)
  have "t div 4294967296 \<le> 1" using t by linarith
  then have IH: "val (add_loop (drop_bit 32 n) xs ys) = (t div 4294967296 + (val xs + val ys)) mod 2 ^ (32 * length xs)"
    using "1.IH" [OF n_def] "1.prems" limb_digit(2) [OF n] by (simp add: add.assoc)
  have "add_loop c (x # xs) (y # ys) = ucast (n AND 0xffffffff) # add_loop (drop_bit 32 n) xs ys"
    by (simp add: n_def Let_def)
  then show ?case using limb_round [OF n IH] by (simp add: t_def algebra_simps)
qed auto

lemma length_base_add [simp]: "limbs8 a \<Longrightarrow> limbs8 b \<Longrightarrow> limbs8 (base_add a b)"
  by (simp add: base_add_def)

lemma W_add [W_refine]: "limbs8 a \<Longrightarrow> limbs8 b \<Longrightarrow> W (base_add a b) = W a + W b"
  using W_eqI [of "base_add a b" "val a + val b"] val_add_loop [of a b 0]
  by (simp add: base_add_def W_def WIDTH_def)

lemma length_base_inc [simp]: "length (base_inc a) = length a"
  by (induction a rule: base_inc.induct) (auto simp: Let_def)

lemma unat_plus_one:
  "unat (x + 1 :: u32) = (if x + 1 = 0 then 0 else unat x + 1)" "(x :: u32) + 1 = 0 \<Longrightarrow> unat x = 4294967295"
proof -
  have "unat (x + 1) = (unat x + 1) mod 4294967296" by (simp add: unat_word_ariths)
  moreover have "x + 1 = 0 \<longleftrightarrow> unat (x + 1) = 0" by (simp add: unat_eq_0)
  ultimately show "unat (x + 1 :: u32) = (if x + 1 = 0 then 0 else unat x + 1)" "x + 1 = 0 \<Longrightarrow> unat x = 4294967295"
    using unat_u32_less [of x] by (auto simp: mod_Suc split: if_splits)
qed

lemma val_inc: "val (base_inc a) = (val a + 1) mod 2 ^ (32 * length a)"
proof (induction a rule: base_inc.induct)
  case (2 x xs)
  show ?case
  proof (cases "x + 1 = 0")
    case True
    then have "val (base_inc (x # xs)) = 4294967296 * ((val xs + 1) mod 2 ^ (32 * length xs))"
      using 2 by (simp add: Let_def)
    also have "\<dots> = (4294967296 + 4294967296 * val xs) mod 2 ^ (32 + 32 * length xs)"
      using carry_step [of 4294967296 "val xs" "32 * length xs"] by (simp add: add.commute)
    finally show ?thesis using unat_plus_one(2) [OF True] by (simp add: algebra_simps)
  next
    case False
    have "val (base_inc (x # xs)) < 2 ^ (32 * length (x # xs))"
      using val_less [of "base_inc (x # xs)"] by (simp only: length_base_inc)
    then show ?thesis using False unat_plus_one(1) [of x] by (simp add: Let_def)
  qed
qed simp

lemma W_inc [W_refine]: "limbs8 a \<Longrightarrow> W (base_inc a) = W a + 1"
  using W_eqI [of "base_inc a" "val a + 1"] val_inc [of a] by (simp add: W_def WIDTH_def)

lemma length_mul32_loop [simp]: "length (mul32_loop c b xs) = length xs"
  by (induction c b xs rule: mul32_loop.induct) (auto simp: Let_def)

lemma mac_bound:
  fixes c p a b :: nat
  assumes "c < 4294967296" "p < 4294967296" "a < 4294967296" "b < 4294967296"
  shows "c + p + a * b < 18446744073709551616" "(c + p + a * b) div 4294967296 < 4294967296"
proof -
  have "a * b \<le> 4294967295 * 4294967295" using assms by (intro mult_le_mono) auto
  then show *: "c + p + a * b < 18446744073709551616" using assms by simp
  then show "(c + p + a * b) div 4294967296 < 4294967296" by (simp add: div_less_iff_less_mult)
qed

lemma val_mul32_loop:
  "unat c < 4294967296 \<Longrightarrow> val (mul32_loop c b xs) = (unat c + unat b * val xs) mod 2 ^ (32 * length xs)"
proof (induction c b xs rule: mul32_loop.induct)
  case (2 c b x xs)
  define n :: u64 where "n = c + ucast b * ucast x"
  define t where "t = unat c + unat b * unat x"
  have t: "t < 18446744073709551616" "t div 4294967296 < 4294967296"
    using mac_bound [of "unat c" 0 "unat b" "unat x"] "2.prems" unat_u32_less [of x] unat_u32_less [of b]
    by (simp_all add: t_def)
  have "n = of_nat t" by (simp add: n_def t_def unat_limb [symmetric])
  then have n: "unat n = t" using t by (simp add: unat_of_nat)
  have IH: "val (mul32_loop (drop_bit 32 n) b xs) = (t div 4294967296 + unat b * val xs) mod 2 ^ (32 * length xs)"
    using "2.IH" [OF n_def] t(2) limb_digit(2) [OF n] by simp
  have "mul32_loop c b (x # xs) = ucast (n AND 0xffffffff) # mul32_loop (drop_bit 32 n) b xs"
    by (simp add: n_def Let_def)
  then show ?case using limb_round [OF n IH] by (simp add: t_def algebra_simps)
qed simp

lemma length_base_mul32 [simp]: "limbs8 a \<Longrightarrow> limbs8 (base_mul32 a b)"
  by (simp add: base_mul32_def)

lemma W_mul32 [W_refine]: "limbs8 a \<Longrightarrow> W (base_mul32 a b) = W a * ucast b"
proof -
  assume "limbs8 a"
  then have "W (base_mul32 a b) = of_nat (unat b * val a)"
    using W_eqI [of "base_mul32 a b" "unat b * val a"] val_mul32_loop [of 0 b a]
    by (simp add: base_mul32_def WIDTH_def)
  then show ?thesis by (simp add: W_def mult.commute unsigned_ucast_eq)
qed

lemma length_mul_inner [simp]: "length (mul_inner c a ps bs) = min (length ps) (length bs)"
  by (induction c a ps bs rule: mul_inner.induct) (auto simp: Let_def)

lemma val_mul_inner:
  "length ps \<le> length bs \<Longrightarrow> unat c < 4294967296 \<Longrightarrow>
   val (mul_inner c a ps bs) = (unat c + val ps + unat a * val bs) mod 2 ^ (32 * length ps)"
proof (induction c a ps bs rule: mul_inner.induct)
  case (1 c a p ps b bs)
  define n :: u64 where "n = c + ucast p + ucast a * ucast b"
  define t where "t = unat c + unat p + unat a * unat b"
  have t: "t < 18446744073709551616" "t div 4294967296 < 4294967296"
    using mac_bound [of "unat c" "unat p" "unat a" "unat b"] "1.prems" unat_u32_less by (simp_all add: t_def)
  have "n = of_nat t" by (simp add: n_def t_def unat_limb [symmetric])
  then have n: "unat n = t" using t by (simp add: unat_of_nat)
  have IH: "val (mul_inner (drop_bit 32 n) a ps bs) =
      (t div 4294967296 + (val ps + unat a * val bs)) mod 2 ^ (32 * length ps)"
    using "1.IH" [OF n_def] "1.prems" t(2) limb_digit(2) [OF n] by (simp add: add.assoc)
  have "mul_inner c a (p # ps) (b # bs) = ucast (n AND 0xffffffff) # mul_inner (drop_bit 32 n) a ps bs"
    by (simp add: n_def Let_def)
  then show ?case using limb_round [OF n IH] by (simp add: t_def algebra_simps)
qed auto

lemma val_mul_outer:
  "length as = length pn \<Longrightarrow> length pn \<le> length b \<Longrightarrow>
   length (mul_outer as b pn) = length pn \<and>
   val (mul_outer as b pn) = (val pn + val as * val b) mod 2 ^ (32 * length pn)"
proof (induction as b pn rule: mul_outer.induct)
  case (1 b pn)
  then show ?case by simp
next
  case (2 a as b pn)
  obtain p0 ps0 where pn: "pn = p0 # ps0" using "2.prems"(1) by (cases pn) auto
  have lm: "length (mul_inner 0 a pn b) = Suc (length ps0)"
    using "2.prems"(2) pn by (simp del: mul_inner.simps)
  then obtain p ps where m: "mul_inner 0 a pn b = p # ps" by (cases "mul_inner 0 a pn b") auto
  have len: "length ps = length ps0" using lm m by simp
  have v: "unat p + 4294967296 * val ps = (val pn + unat a * val b) mod 2 ^ (32 * length pn)"
    using val_mul_inner [of pn b 0 a] "2.prems" m by simp
  have IH: "length (mul_outer as b ps) = length ps0"
      "val (mul_outer as b ps) = (val ps + val as * val b) mod 2 ^ (32 * length ps0)"
    using "2.IH" [OF m] "2.prems" pn len by auto
  have "val (mul_outer (a # as) b pn) = unat p + 4294967296 * ((val ps + val as * val b) mod 2 ^ (32 * length ps0))"
    using m IH by simp
  also have "\<dots> = (unat p + 4294967296 * (val ps + val as * val b)) mod 2 ^ (32 + 32 * length ps0)"
    using carry_step [of "unat p" "val ps + val as * val b" "32 * length ps0"] unat_u32_less [of p] by simp
  also have "\<dots> = ((val pn + unat a * val b) mod 2 ^ (32 * length pn) + 4294967296 * val as * val b) mod 2 ^ (32 * length pn)"
    unfolding v [symmetric] by (simp add: pn algebra_simps)
  also have "\<dots> = (val pn + val (a # as) * val b) mod 2 ^ (32 * length pn)"
    by (simp add: mod_simps algebra_simps)
  finally show ?case using m IH pn by simp
qed

lemma length_base_zero [simp]: "limbs8 base_zero"
  by (simp add: base_zero_def)

lemma val_replicate_0 [simp]: "val (replicate n 0) = 0"
  by (induction n) simp_all

lemma val_base_zero [simp]: "val base_zero = 0"
  by (simp add: base_zero_def)

lemma W_zero [W_refine]: "W base_zero = 0"
  by (simp add: W_def)

lemma length_base_mul [simp]: "limbs8 a \<Longrightarrow> limbs8 b \<Longrightarrow> limbs8 (base_mul a b)"
  using val_mul_outer [of a base_zero b] by (simp add: base_mul_def)

lemma W_mul [W_refine]: "limbs8 a \<Longrightarrow> limbs8 b \<Longrightarrow> W (base_mul a b) = W a * W b"
  using W_eqI [of "base_mul a b" "val a * val b"] val_mul_outer [of a base_zero b]
  by (simp add: base_mul_def W_def WIDTH_def)

section \<open>Bits of an array\<close>

lemma bit_val: "bit (val pn) n \<longleftrightarrow> n div 32 < length pn \<and> bit (pn ! (n div 32)) (n mod 32)"
proof (induction pn arbitrary: n)
  case (Cons x xs)
  have "take_bit 32 (unat x) = unat x" using unat_u32_less [of x] by (simp add: take_bit_nat_eq_self)
  then have "unat x + 4294967296 * val xs = take_bit 32 (unat x) + push_bit 32 (val xs)"
    by (simp add: push_bit_eq_mult mult.commute)
  also have "\<dots> = take_bit 32 (unat x) OR push_bit 32 (val xs)"
    by (rule disjunctive_add_eq_or) (auto simp: bit_eq_iff bit_simps)
  finally have "bit (val (x # xs)) n \<longleftrightarrow> (n < 32 \<and> bit x n) \<or> (n \<ge> 32 \<and> bit (val xs) (n - 32))"
    by (auto simp: bit_simps possible_bit_def)
  moreover have "n div 32 = Suc ((n - 32) div 32)" "n mod 32 = (n - 32) mod 32" if "n \<ge> 32"
    using that by (simp_all add: le_div_geq le_mod_geq)
  ultimately show ?case using Cons by (cases "n < 32") auto
qed simp

lemma bit_W: "limbs8 pn \<Longrightarrow> bit (W pn) n \<longleftrightarrow> n < 256 \<and> bit (pn ! (n div 32)) (n mod 32)"
  by (auto simp: W_def bit_simps bit_val WIDTH_def)

lemma limb_index: "n < 256 \<Longrightarrow> n div 32 < WIDTH" for n :: nat
  by (simp add: WIDTH_def less_mult_imp_div_less)

lemma bit_W_limb: "limbs8 pn \<Longrightarrow> bit (W pn) n \<longleftrightarrow> n div 32 < WIDTH \<and> bit (pn ! (n div 32)) (n mod 32)"
  by (auto simp: bit_W WIDTH_def div_less_iff_less_mult)

lemma length_base_not [simp]: "length (base_not a) = length a"
  by (simp add: base_not_def)

lemma W_not [W_refine]: "limbs8 a \<Longrightarrow> W (base_not a) = NOT (W a)"
  by (rule bit_word_eqI) (simp add: bit_W bit_simps base_not_def limb_index)

lemma W_and [W_refine]: "limbs8 a \<Longrightarrow> limbs8 b \<Longrightarrow> W (base_and a b) = W a AND W b"
  by (rule bit_word_eqI) (simp add: bit_W bit_simps base_and_def limb_index)

lemma W_or [W_refine]: "limbs8 a \<Longrightarrow> limbs8 b \<Longrightarrow> W (base_or a b) = W a OR W b"
  by (rule bit_word_eqI) (simp add: bit_W bit_simps base_or_def limb_index)

lemma W_xor [W_refine]: "limbs8 a \<Longrightarrow> limbs8 b \<Longrightarrow> W (base_xor a b) = W a XOR W b"
  by (rule bit_word_eqI) (simp add: bit_W bit_simps base_xor_def limb_index)

lemma length_base_neg [simp]: "length (base_neg a) = length a"
  by (simp add: base_neg_def)

lemma W_neg [W_refine]: "limbs8 a \<Longrightarrow> W (base_neg a) = - W a"
  using W_inc [of "map NOT a"] W_not [of a] by (simp add: base_neg_def base_not_def minus_eq_not_plus_1)

lemma length_base_sub [simp]: "limbs8 a \<Longrightarrow> limbs8 b \<Longrightarrow> limbs8 (base_sub a b)"
  by (simp add: base_sub_def)

lemma W_sub [W_refine]: "limbs8 a \<Longrightarrow> limbs8 b \<Longrightarrow> W (base_sub a b) = W a - W b"
  by (simp add: base_sub_def W_add W_neg)

section \<open>Shifts\<close>

lemma length_shl_fold: "length (fold (shl_step k s a) is pn) = length pn"
  by (induction "is" arbitrary: pn) (auto simp: shl_step_def Let_def)

lemma length_shr_fold: "length (fold (shr_step k s a) is pn) = length pn"
  by (induction "is" arbitrary: pn) (auto simp: shr_step_def Let_def)

lemma nth_shl_step:
  "length pn = WIDTH \<Longrightarrow> j < WIDTH \<Longrightarrow>
   shl_step k s a i pn ! j = pn ! j OR (if j = i + k then push_bit s (a ! i) else 0) OR
     (if s \<noteq> 0 \<and> j = i + k + 1 then drop_bit (32 - s) (a ! i) else 0)"
  by (auto simp: shl_step_def Let_def nth_list_update)

lemma nth_shr_step:
  "length pn = WIDTH \<Longrightarrow> i < WIDTH \<Longrightarrow> j < WIDTH \<Longrightarrow>
   shr_step k s a i pn ! j = pn ! j OR (if i = j + k then drop_bit s (a ! i) else 0) OR
     (if s \<noteq> 0 \<and> i = j + k + 1 then push_bit (32 - s) (a ! i) else 0)"
  by (auto simp: shr_step_def Let_def nth_list_update)

lemma nth_shl_fold:
  assumes "j < WIDTH"
  shows "fold (shl_step k s a) [0..<m] base_zero ! j =
    (if k \<le> j \<and> j - k < m then push_bit s (a ! (j - k)) else 0) OR
    (if s \<noteq> 0 \<and> k + 1 \<le> j \<and> j - k - 1 < m then drop_bit (32 - s) (a ! (j - k - 1)) else 0)"
proof (induction m)
  case 0
  then show ?case using assms by (simp add: base_zero_def)
next
  case (Suc m)
  then show ?case using assms
    by (auto simp: nth_shl_step length_shl_fold less_Suc_eq or.commute or.left_commute)
qed

lemma nth_shr_fold:
  assumes "j < WIDTH" "m \<le> WIDTH"
  shows "fold (shr_step k s a) [0..<m] base_zero ! j =
    (if j + k < m then drop_bit s (a ! (j + k)) else 0) OR
    (if s \<noteq> 0 \<and> j + k + 1 < m then push_bit (32 - s) (a ! (j + k + 1)) else 0)"
  using assms(2)
proof (induction m)
  case 0
  then show ?case using assms by (simp add: base_zero_def)
next
  case (Suc m)
  define F where "F = fold (shr_step k s a) [0..<m] base_zero"
  have "fold (shr_step k s a) [0..<Suc m] base_zero = shr_step k s a m F" by (simp add: F_def)
  moreover have "length F = WIDTH" by (simp add: F_def length_shr_fold)
  ultimately show ?case using Suc assms(1) unfolding F_def [symmetric]
    by (cases "m = j + k + 1") (auto simp: nth_shr_step less_Suc_eq)
qed

lemma split32: "r < 32 \<Longrightarrow> x = 32 * q + r \<Longrightarrow> x div 32 = q \<and> x mod 32 = r" for x q r :: nat
  by simp

lemma length_base_shl [simp]: "limbs8 (base_shl a n)"
  by (simp add: base_shl_def length_shl_fold)

lemma length_base_shr [simp]: "limbs8 (base_shr a n)"
  by (simp add: base_shr_def length_shr_fold)

lemma W_shl [W_refine]:
  assumes "limbs8 a"
  shows "W (base_shl a n) = push_bit n (W a)"
proof (rule bit_word_eqI)
  fix i assume i: "i < LENGTH(256)"
  define k s j r where "k = n div 32" and "s = n mod 32" and "j = i div 32" and "r = i mod 32"
  have n: "n = 32 * k + s" "s < 32" and ij: "i = 32 * j + r" "r < 32" by (simp_all add: k_def s_def j_def r_def)
  have j: "j < WIDTH" using i by (simp add: j_def limb_index)
  have "bit (W (base_shl a n)) i \<longleftrightarrow> (k \<le> j \<and> s \<le> r \<and> bit (a ! (j - k)) (r - s)) \<or>
      (s \<noteq> 0 \<and> k + 1 \<le> j \<and> bit (a ! (j - k - 1)) (r + (32 - s)))"
  proof -
    have "base_shl a n ! j = (if k \<le> j then push_bit s (a ! (j - k)) else 0) OR
        (if s \<noteq> 0 \<and> k + 1 \<le> j then drop_bit (32 - s) (a ! (j - k - 1)) else 0)"
      using j less_imp_diff_less [OF j] by (simp add: base_shl_def k_def s_def nth_shl_fold)
    then show ?thesis using i ij(2) n(2)
      by (auto simp: bit_W j_def [symmetric] r_def [symmetric] bit_simps add.commute)
  qed
  also have "\<dots> \<longleftrightarrow> n \<le> i \<and> bit (W a) (i - n)"
  proof (cases "k \<le> j \<and> s \<le> r")
    case True
    then have d: "i - n = 32 * (j - k) + (r - s)" and le: "n \<le> i" using n ij by (auto simp: diff_mult_distrib2)
    have "(i - n) div 32 = j - k" "(i - n) mod 32 = r - s" using split32 [OF _ d] ij(2) by auto
    moreover have "\<not> bit (a ! (j - k - 1)) (r + (32 - s))" using True n(2) by (auto dest: bit_imp_le_length)
    ultimately show ?thesis using True le j by (auto simp: bit_W_limb [OF assms])
  next
    case no: False
    show ?thesis
    proof (cases "k + 1 \<le> j")
      case True
      then have sr: "r < s" using no by auto
      then have d: "i - n = 32 * (j - k - 1) + (r + (32 - s))" and le: "n \<le> i" using n ij True
        by (auto simp: diff_mult_distrib2)
      have "r + (32 - s) < 32" using sr n(2) by simp
      from split32 [OF this d] show ?thesis using True sr j le by (auto simp: bit_W_limb [OF assms])
    next
      case False
      then have "\<not> n \<le> i" using no n ij by auto
      then show ?thesis using no False by auto
    qed
  qed
  finally show "bit (W (base_shl a n)) i = bit (push_bit n (W a)) i" using i by (simp add: bit_push_bit_iff)
qed

lemma W_shr [W_refine]:
  assumes "limbs8 a"
  shows "W (base_shr a n) = drop_bit n (W a)"
proof (rule bit_word_eqI)
  fix i assume i: "i < LENGTH(256)"
  define k s j r where "k = n div 32" and "s = n mod 32" and "j = i div 32" and "r = i mod 32"
  have n: "n = 32 * k + s" "s < 32" and ij: "i = 32 * j + r" "r < 32" by (simp_all add: k_def s_def j_def r_def)
  have j: "j < WIDTH" using i by (simp add: j_def limb_index)
  have lhs: "bit (W (base_shr a n)) i \<longleftrightarrow> (j + k < WIDTH \<and> bit (a ! (j + k)) (s + r)) \<or>
      (s \<noteq> 0 \<and> j + k + 1 < WIDTH \<and> 32 - s \<le> r \<and> bit (a ! (j + k + 1)) (r - (32 - s)))"
  proof -
    have "base_shr a n ! j = (if j + k < WIDTH then drop_bit s (a ! (j + k)) else 0) OR
        (if s \<noteq> 0 \<and> j + k + 1 < WIDTH then push_bit (32 - s) (a ! (j + k + 1)) else 0)"
      using j by (simp add: base_shr_def k_def s_def nth_shr_fold)
    then show ?thesis using i ij(2) n(2)
      by (auto simp: bit_W j_def [symmetric] r_def [symmetric] bit_simps)
  qed
  show "bit (W (base_shr a n)) i = bit (drop_bit n (W a)) i"
  proof (cases "s + r < 32")
    case True
    then have "n + i = 32 * (j + k) + (s + r)" "\<not> 32 - s \<le> r" using n ij by auto
    moreover then have "(n + i) div 32 = j + k" "(n + i) mod 32 = s + r" using True split32 by blast+
    ultimately show ?thesis using lhs by (simp add: bit_drop_bit_eq bit_W_limb [OF assms])
  next
    case False
    then have "n + i = 32 * (j + k + 1) + (r - (32 - s))" "r - (32 - s) < 32" "32 - s \<le> r" "s \<noteq> 0" using n ij by auto
    moreover then have "(n + i) div 32 = j + k + 1" "(n + i) mod 32 = r - (32 - s)" using split32 by blast+
    moreover have "\<not> bit (a ! (j + k)) (s + r)" using False by (auto dest: bit_imp_le_length)
    ultimately show ?thesis using lhs by (simp add: bit_drop_bit_eq bit_W_limb [OF assms])
  qed
qed

section \<open>Small numbers and comparison\<close>

lemma length_base_u64 [simp]: "limbs8 (base_u64 b)"
  by (simp add: base_u64_def WIDTH_def)

lemma val_base_u64: "val (base_u64 b) = unat b"
proof -
  have "unat (ucast b :: u32) = unat b mod 4294967296"
    by (simp add: unsigned_ucast_eq take_bit_eq_mod)
  moreover have "unat b div 4294967296 < 4294967296"
    using unsigned_less [where 'a = nat and w = b] by (simp add: div_less_iff_less_mult)
  then have "unat (ucast (drop_bit 32 b) :: u32) = unat b div 4294967296"
    by (simp add: unsigned_ucast_eq take_bit_eq_mod unat_drop_bit_eq drop_bit_nat_def)
  ultimately show ?thesis by (simp add: base_u64_def WIDTH_def)
qed

lemma W_u64 [W_refine]: "W (base_u64 b) = ucast b"
  by (simp add: W_def val_base_u64)

lemma val_append: "val (xs @ ys) = val xs + 2 ^ (32 * length xs) * val ys"
  by (induction xs) (simp_all add: pow_limb algebra_simps)

lemma val_take_Suc: "i < length a \<Longrightarrow> val (take (Suc i) a) = val (take i a) + 2 ^ (32 * i) * unat (a ! i)"
  by (simp add: take_Suc_conv_app_nth val_append)

lemma val_take_less: "val (take i a) < 2 ^ (32 * i)"
proof -
  have "val (take i a) < 2 ^ (32 * length (take i a))" by (rule val_less)
  also have "\<dots> \<le> 2 ^ (32 * i)" by (rule power_increasing) auto
  finally show ?thesis .
qed

lemma high_digit_less:
  fixes l m B x y :: nat
  assumes "l < B" "x < y"
  shows "l + B * x < m + B * y"
proof -
  have "l + B * x < B * Suc x" using assms(1) by simp
  also have "\<dots> \<le> B * y" using assms(2) by (intro mult_le_mono) auto
  finally show ?thesis by simp
qed

lemma compare_loop_val:
  "i \<le> length a \<Longrightarrow> i \<le> length b \<Longrightarrow>
   compare_loop i a b = (if val (take i a) < val (take i b) then -1 else if val (take i a) > val (take i b) then 1 else 0)"
proof (induction i)
  case (Suc i)
  have v: "val (take (Suc i) a) = val (take i a) + 2 ^ (32 * i) * unat (a ! i)"
    "val (take (Suc i) b) = val (take i b) + 2 ^ (32 * i) * unat (b ! i)"
    using Suc.prems by (simp_all add: val_take_Suc)
  consider "unat (a ! i) < unat (b ! i)" | "unat (a ! i) > unat (b ! i)" | "a ! i = b ! i"
    by (metis linorder_neqE_nat word_unat_eq_iff)
  then show ?case
  proof cases
    case 1
    then show ?thesis using high_digit_less [OF val_take_less 1] v by (simp add: word_less_nat_alt)
  next
    case 2
    have "val (take (Suc i) b) < val (take (Suc i) a)" unfolding v by (rule high_digit_less [OF val_take_less 2])
    then show ?thesis using 2 by (simp add: word_less_nat_alt)
  next
    case 3
    then show ?thesis using Suc v by (simp add: Suc_le_lessD)
  qed
qed simp

lemma CompareTo_val:
  "limbs8 a \<Longrightarrow> limbs8 b \<Longrightarrow> CompareTo a b = (if val a < val b then -1 else if val a > val b then 1 else 0)"
  by (simp add: CompareTo_def compare_loop_val)

lemma W_compare [W_refine]:
  assumes "limbs8 a" "limbs8 b"
  shows "CompareTo a b < 0 \<longleftrightarrow> W a < W b" "CompareTo a b > 0 \<longleftrightarrow> W a > W b" "CompareTo a b \<ge> 0 \<longleftrightarrow> W a \<ge> W b"
    "CompareTo a b \<le> 0 \<longleftrightarrow> W a \<le> W b"
  using assms by (auto simp: CompareTo_val word_less_nat_alt word_le_nat_alt unat_W)

lemma val_0_iff: "val a = 0 \<longleftrightarrow> list_all (\<lambda>x. x = 0) a"
  by (induction a) (auto simp: unat_eq_0)

section \<open>The highest bit\<close>

lemma bits_limb_bounds:
  "x \<noteq> 0 \<Longrightarrow> unat x < 2 ^ Suc b \<Longrightarrow> b < 32 \<Longrightarrow>
   1 \<le> bits_limb b x \<and> bits_limb b x \<le> Suc b \<and> 2 ^ (bits_limb b x - 1) \<le> unat x \<and> unat x < 2 ^ bits_limb b x"
proof (induction b x rule: bits_limb.induct)
  case (1 x)
  then show ?case by (simp add: Suc_le_eq unat_gt_0)
next
  case (2 b x)
  have bit: "x AND push_bit (Suc b) 1 \<noteq> 0 \<longleftrightarrow> bit x (Suc b)"
    using and_exp_eq_0_iff_not_bit [of x "Suc b"] by (simp add: push_bit_eq_mult)
  have nb: "bit x (Suc b) \<longleftrightarrow> 2 ^ Suc b \<le> unat x"
  proof -
    have "bit x (Suc b) \<longleftrightarrow> bit (unat x) (Suc b)" by (simp add: bit_unsigned_iff)
    also have "\<dots> \<longleftrightarrow> odd (unat x div 2 ^ Suc b)" by (simp add: bit_iff_odd)
    also have "unat x div 2 ^ Suc b < 2"
      using "2.prems"(2) by (simp add: div_less_iff_less_mult)
    then have "odd (unat x div 2 ^ Suc b) \<longleftrightarrow> unat x div 2 ^ Suc b \<noteq> 0" by (auto simp: less_2_cases_iff)
    also have "\<dots> \<longleftrightarrow> 2 ^ Suc b \<le> unat x" by (simp add: div_eq_0_iff not_less)
    finally show ?thesis .
  qed
  show ?case
  proof (cases "bit x (Suc b)")
    case True
    then show ?thesis using bit nb "2.prems" by simp
  next
    case False
    then show ?thesis using bit nb 2 by simp
  qed
qed

lemma bits_loop_bounds:
  "pos \<le> length pn \<Longrightarrow>
   bits_loop pos pn \<le> 32 * pos \<and> val (take pos pn) < 2 ^ bits_loop pos pn \<and>
   (bits_loop pos pn > 0 \<longrightarrow> 2 ^ (bits_loop pos pn - 1) \<le> val (take pos pn))"
proof (induction pos)
  case (Suc pos)
  have v: "val (take (Suc pos) pn) = val (take pos pn) + 2 ^ (32 * pos) * unat (pn ! pos)"
    using Suc.prems by (simp add: val_take_Suc)
  show ?case
  proof (cases "pn ! pos = 0")
    case True
    then show ?thesis using Suc v by simp
  next
    case False
    define r where "r = bits_limb 31 (pn ! pos)"
    have r: "1 \<le> r" "r \<le> 32" "2 ^ (r - 1) \<le> unat (pn ! pos)" "unat (pn ! pos) < 2 ^ r"
      using bits_limb_bounds [OF False, of 31] unat_u32_less by (simp_all add: r_def)
    have "val (take pos pn) + 2 ^ (32 * pos) * unat (pn ! pos) < 0 + 2 ^ (32 * pos) * 2 ^ r"
      by (rule high_digit_less [OF val_take_less r(4)])
    moreover have "(2 :: nat) ^ (32 * pos + r - 1) = 2 ^ (32 * pos) * 2 ^ (r - 1)"
      using r(1) by (simp add: power_add [symmetric])
    then have "2 ^ (32 * pos + r - 1) \<le> 2 ^ (32 * pos) * unat (pn ! pos)" using r(3) by simp
    ultimately show ?thesis using False r v by (simp add: r_def [symmetric] power_add)
  qed
qed simp

lemma base_bits_bounds:
  assumes "limbs8 pn"
  shows "base_bits pn \<le> 256" "val pn < 2 ^ base_bits pn" "base_bits pn > 0 \<Longrightarrow> 2 ^ (base_bits pn - 1) \<le> val pn"
  using bits_loop_bounds [of WIDTH pn] assms by (simp_all add: base_bits_def WIDTH_def)

lemma base_bits_0_iff: "limbs8 pn \<Longrightarrow> base_bits pn = 0 \<longleftrightarrow> val pn = 0"
  using base_bits_bounds [of pn] by (cases "base_bits pn") auto

lemma base_bits_unique:
  assumes "limbs8 pn" "2 ^ n \<le> val pn" "val pn < 2 ^ Suc n"
  shows "base_bits pn = Suc n"
proof -
  have "(0 :: nat) < 2 ^ n" by simp
  then have "val pn > 0" using assms(2) by linarith
  then have b: "base_bits pn > 0" using base_bits_0_iff [OF assms(1)] by simp
  have lt: "(2 :: nat) ^ n < 2 ^ base_bits pn" "(2 :: nat) ^ (base_bits pn - 1) < 2 ^ Suc n"
    using assms(2,3) base_bits_bounds(2) [OF assms(1)] base_bits_bounds(3) [OF assms(1) b] by linarith+
  have "n < base_bits pn" by (rule power_less_imp_less_exp [OF _ lt(1)]) simp
  moreover have "base_bits pn - 1 < Suc n" by (rule power_less_imp_less_exp [OF _ lt(2)]) simp
  ultimately show ?thesis by simp
qed

lemma GetLow64_val: "limbs8 pn \<Longrightarrow> unat (GetLow64 pn) = val pn mod 2 ^ 64"
proof -
  assume l: "limbs8 pn"
  then obtain x y r where pn: "pn = x # y # r"
    by (metis WIDTH_def length_Suc_conv numeral_eq_Suc pred_numeral_simps(3) eval_nat_numeral(2) numeral_One)
  have "GetLow64 pn = ucast x + push_bit 32 (ucast y)"
    unfolding GetLow64_def pn
    by (simp, rule disjunctive_add_eq_or [symmetric], rule bit_word_eqI) (auto simp: bit_simps dest: bit_imp_le_length)
  also have "\<dots> = of_nat (unat x + 4294967296 * unat y)" by (simp add: push_bit_eq_mult unat_limb [symmetric])
  finally have "GetLow64 pn = of_nat (unat x + 4294967296 * unat y)" .
  then have "unat (GetLow64 pn) = (unat x + 4294967296 * unat y) mod 2 ^ 64" by (simp only: unat_of_nat) simp
  moreover have "val pn = (unat x + 4294967296 * unat y) + 2 ^ 64 * val r" by (simp add: pn)
  ultimately show ?thesis by simp
qed

section \<open>Division\<close>

lemma val_sub: "limbs8 a \<Longrightarrow> limbs8 b \<Longrightarrow> val b \<le> val a \<Longrightarrow> val (base_sub a b) = val a - val b"
  using unat_sub [of "W b" "W a"] by (simp add: unat_W [symmetric] W_sub word_le_nat_alt)

lemma val_shr: "limbs8 a \<Longrightarrow> val (base_shr a n) = val a div 2 ^ n"
  by (simp add: unat_W [symmetric] W_shr unat_drop_bit_eq drop_bit_nat_def)

lemma val_shl: "limbs8 a \<Longrightarrow> val (base_shl a n) = (val a * 2 ^ n) mod 2 ^ 256"
proof -
  assume "limbs8 a"
  then have "W (base_shl a n) = of_nat (val a * 2 ^ n)" unfolding W_shl [OF \<open>limbs8 a\<close>] push_bit_eq_mult by (simp add: W_def)
  then have "unat (W (base_shl a n)) = (val a * 2 ^ n) mod 2 ^ 256" by (simp only: unat_of_nat) simp
  then show ?thesis by (simp add: unat_W)
qed

lemma val_mul32: "limbs8 a \<Longrightarrow> val (base_mul32 a b) = (val a * unat b) mod 2 ^ 256"
  using val_mul32_loop [of 0 b a] by (simp add: base_mul32_def WIDTH_def mult.commute)

lemma val_mul: "limbs8 a \<Longrightarrow> limbs8 b \<Longrightarrow> val (base_mul a b) = (val a * val b) mod 2 ^ 256"
  using W_mul [of a b] unat_W [of "base_mul a b"] by (simp add: unat_word_ariths unat_W)

lemma val_add: "limbs8 a \<Longrightarrow> limbs8 b \<Longrightarrow> val (base_add a b) = (val a + val b) mod 2 ^ 256"
  using W_add [of a b] unat_W [of "base_add a b"] by (simp add: unat_word_ariths unat_W)

lemma val_not: "limbs8 a \<Longrightarrow> val (base_not a) = 2 ^ 256 - 1 - val a"
proof -
  assume a: "limbs8 a"
  have "unat (- 1 - W a) = 2 ^ 256 - 1 - val a" using a by (simp add: unat_sub unat_W unsigned_minus_1_eq_mask mask_eq_exp_minus_1)
  moreover have "- 1 - W a = - W a - 1" by simp
  ultimately show ?thesis using W_not [OF a] unat_W [of "base_not a"] a by (simp add: not_eq_complement)
qed

lemma val_set_bit:
  assumes "limbs8 pn" "n < 256" "\<not> bit (val pn) n"
  shows "val (pn[n div 32 := pn ! (n div 32) OR push_bit (n mod 32) 1]) = val pn + 2 ^ n"
proof -
  have i: "n div 32 < length pn" using assms(1,2) limb_index by simp
  have "val (pn[n div 32 := pn ! (n div 32) OR push_bit (n mod 32) 1]) = val pn OR push_bit n 1"
  proof (rule bit_eqI)
    fix m
    have "m div 32 = n div 32 \<and> m mod 32 = n mod 32 \<longleftrightarrow> m = n" by (metis div_mult_mod_eq)
    then show "bit (val (pn[n div 32 := pn ! (n div 32) OR push_bit (n mod 32) 1])) m \<longleftrightarrow> bit (val pn OR push_bit n 1) m"
      using i by (auto simp: bit_val nth_list_update bit_or_iff bit_exp_iff)
  qed
  also have "\<dots> = val pn + push_bit n 1"
    by (rule disjunctive_add_eq_or [symmetric], rule bit_eqI) (use assms(3) in \<open>auto simp: bit_and_iff bit_exp_iff\<close>)
  finally show ?thesis by (simp add: push_bit_eq_mult)
qed

lemma div_loop_val:
  assumes "limbs8 num" "limbs8 dv" "limbs8 pn" "n \<le> 256" "0 < b"
    "val num < b * 2 ^ n" "n > 0 \<longrightarrow> val dv = b * 2 ^ (n - 1)" "2 ^ n dvd val pn"
  shows "limbs8 (div_loop n num dv pn) \<and> val (div_loop n num dv pn) = val pn + val num div b"
  using assms
proof (induction n arbitrary: num dv pn)
  case (Suc n)
  have dv: "val dv = b * 2 ^ n" using Suc.prems by simp
  have dv': "n > 0 \<longrightarrow> val (base_shr dv 1) = b * 2 ^ (n - 1)"
  proof
    assume "n > 0"
    then have "b * 2 ^ n = 2 * (b * 2 ^ (n - 1))" by (cases n) auto
    then have "val dv = 2 * (b * 2 ^ (n - 1))" using dv by simp
    then show "val (base_shr dv 1) = b * 2 ^ (n - 1)" using Suc.prems(2) by (simp add: val_shr)
  qed
  obtain c where "val pn = 2 ^ Suc n * c" using Suc.prems(8) by (rule dvdE)
  then have c: "val pn = 2 ^ n * (2 * c)" by simp
  then have nb: "\<not> bit (val pn) n" by (simp add: bit_iff_odd)
  have d: "2 ^ n dvd val pn" unfolding c by (rule dvd_triv_left)
  show ?case
  proof (cases "val dv \<le> val num")
    case True
    let ?pn = "pn[n div 32 := pn ! (n div 32) OR push_bit (n mod 32) 1]" and ?num = "base_sub num dv"
    have c: "CompareTo num dv \<ge> 0" using True Suc.prems(1,2) by (simp add: CompareTo_val)
    have num: "val ?num = val num - val dv" using True Suc.prems(1,2) by (simp add: val_sub)
    have pn: "val ?pn = val pn + 2 ^ n" using val_set_bit [OF Suc.prems(3) _ nb] Suc.prems(4) by simp
    have IH: "limbs8 (div_loop n ?num (base_shr dv 1) ?pn) \<and>
        val (div_loop n ?num (base_shr dv 1) ?pn) = val ?pn + val ?num div b"
      using Suc.IH [of ?num "base_shr dv 1" ?pn] Suc.prems dv dv' d num pn by (simp add: algebra_simps)
    have "val num div b = 2 ^ n + (val num - val dv) div b"
    proof -
      have "val num = (val num - val dv) + b * 2 ^ n" using True dv by simp
      then have "val num div b = ((val num - val dv) + b * 2 ^ n) div b" by simp
      then show ?thesis using Suc.prems(5) by simp
    qed
    then show ?thesis using IH c num pn by simp
  next
    case False
    have c: "\<not> CompareTo num dv \<ge> 0" using False Suc.prems(1,2) by (simp add: CompareTo_val)
    then show ?thesis using Suc.IH [of num "base_shr dv 1" pn] Suc.prems dv dv' d False by simp
  qed
qed simp

lemma base_div_val:
  assumes "limbs8 a" "limbs8 b"
  shows "val b = 0 \<Longrightarrow> base_div a b = None"
    "val b \<noteq> 0 \<Longrightarrow> \<exists>q. base_div a b = Some q \<and> limbs8 q \<and> val q = val a div val b"
proof -
  show "val b = 0 \<Longrightarrow> base_div a b = None" using base_bits_0_iff [OF assms(2)] by (simp add: base_div_def)
  assume b: "val b \<noteq> 0"
  then have bb: "base_bits b > 0" using base_bits_0_iff [OF assms(2)] by simp
  note B = base_bits_bounds [OF assms(2)] and A = base_bits_bounds [OF assms(1)]
  show "\<exists>q. base_div a b = Some q \<and> limbs8 q \<and> val q = val a div val b"
  proof (cases "base_bits b > base_bits a")
    case True
    have "val a < 2 ^ base_bits a" by (rule A(2))
    also have "\<dots> \<le> 2 ^ (base_bits b - 1)" using True by (intro power_increasing) auto
    also have "\<dots> \<le> val b" by (rule B(3) [OF bb])
    finally show ?thesis using True bb by (simp add: base_div_def)
  next
    case False
    define s where "s = base_bits a - base_bits b"
    have "val b * 2 ^ s < 2 ^ base_bits b * 2 ^ s" using B(2) by simp
    also have "\<dots> = 2 ^ base_bits a" using False by (simp add: s_def power_add [symmetric])
    also have "\<dots> \<le> 2 ^ 256" using A(1) by (intro power_increasing) auto
    finally have sh: "val (base_shl b s) = val b * 2 ^ s" using assms(2) by (simp add: val_shl)
    have "val a < 2 ^ base_bits a" by (rule A(2))
    also have "\<dots> = 2 ^ (base_bits b - 1) * 2 ^ Suc s" using False bb by (simp only: s_def power_add [symmetric]) simp
    also have "\<dots> \<le> val b * 2 ^ Suc s" using B(3) [OF bb] by (rule mult_le_mono1)
    finally have "val a < val b * 2 ^ Suc s" .
    then have "limbs8 (div_loop (Suc s) a (base_shl b s) base_zero) \<and>
        val (div_loop (Suc s) a (base_shl b s) base_zero) = 0 + val a div val b"
      using div_loop_val [of a "base_shl b s" base_zero "Suc s" "val b"] assms b sh A(1) bb
      by (simp del: div_loop.simps) (simp add: s_def)
    then show ?thesis using False bb by (simp add: base_div_def s_def [symmetric] Let_def del: div_loop.simps)
  qed
qed

lemma W_div [W_refine]:
  assumes "limbs8 a" "limbs8 b" "W b \<noteq> 0"
  shows "\<exists>q. base_div a b = Some q \<and> limbs8 q \<and> W q = W a div W b"
proof -
  have "val b \<noteq> 0" using assms(3) by (intro notI) (simp add: W_def)
  then obtain q where "base_div a b = Some q" "limbs8 q" "val q = val a div val b"
    using base_div_val(2) [OF assms(1,2)] by blast
  moreover from this have "W q = W a div W b" using assms(1,2)
    by (simp add: word_unat_eq_iff unat_W unat_div)
  ultimately show ?thesis by blast
qed

end
