(* ===== verification/Compact.thy ===== *)
theory Compact
  imports Arith256_Refine
begin

unbundle bit_operations_syntax

text \<open>
  The compact format of difficulty targets. \<open>GetCompact\<close> keeps at least fifteen significant bits
  and rounds down; \<open>SetCompact\<close> of its result is never negative and never overflows.
\<close>

section \<open>Reading a compact number\<close>

lemma unat_and_mask:
  "unat (c AND 0x007fffff :: u32) = unat c mod 8388608"
proof -
  have "c AND 0x007fffff = take_bit 23 c" by (simp add: take_bit_eq_mask mask_eq_exp_minus_1)
  then show ?thesis by (simp add: unsigned_take_bit_eq take_bit_eq_mod unat_mod)
qed

lemma and_sign_bit: "c AND 0x00800000 \<noteq> 0 \<longleftrightarrow> bit (unat (c :: u32)) 23"
  using and_exp_eq_0_iff_not_bit [of c 23] by (simp add: bit_unsigned_iff)

lemma bit_23_less: "n < 16777216 \<Longrightarrow> bit (n :: nat) 23 \<longleftrightarrow> 8388608 \<le> n"
proof -
  assume "n < 16777216"
  then have "n div 8388608 < 2" by (simp add: div_less_iff_less_mult)
  then have "odd (n div 8388608) \<longleftrightarrow> n div 8388608 \<noteq> 0" by (auto simp: less_2_cases_iff)
  then show ?thesis by (auto simp: bit_iff_odd div_eq_0_iff)
qed

lemma unat_drop24: "unat (drop_bit 24 (c :: u32)) = unat c div 16777216"
  by (simp add: unat_drop_bit_eq drop_bit_nat_def)

lemma unat_drop_u32: "unat (drop_bit k (w :: u32)) = unat w div 2 ^ k"
  by (simp add: unat_drop_bit_eq drop_bit_nat_def)

lemma unat_ucast_u32_u64: "unat (ucast (w :: u32) :: u64) = unat w"
  by (rule unat_limb)

text \<open>A compact number with size \<open>s\<close>, mantissa \<open>m\<close> and a clear sign bit.\<close>

lemma SetCompact_parts:
  assumes c: "unat c = m + 16777216 * s" and m: "m < 8388608"
  shows "limbs8 (fst (SetCompact c))" "\<not> fst (snd (SetCompact c))"
    "val (fst (SetCompact c)) = (if s \<le> 3 then m div 2 ^ (8 * (3 - s)) else (m * 2 ^ (8 * (s - 3))) mod 2 ^ 256)"
    "s \<le> 33 \<Longrightarrow> s \<le> 32 \<or> m \<le> 0xffff \<Longrightarrow> \<not> snd (snd (SetCompact c))"
proof -
  have s: "unat (drop_bit 24 c) = s" using c m by (simp add: unat_drop24)
  define wd where "wd = c AND 0x007fffff"
  have w: "unat wd = m" unfolding wd_def using c m by (simp add: unat_and_mask mod_add_eq [symmetric])
  have n: "c AND 0x00800000 = 0"
  proof -
    have "unat c div 8388608 = 2 * s" using c m by simp
    then show ?thesis using and_sign_bit [of c] by (simp add: bit_iff_odd)
  qed
  show "limbs8 (fst (SetCompact c))" "\<not> fst (snd (SetCompact c))"
    using n by (simp_all add: SetCompact_def Let_def)
  show "val (fst (SetCompact c)) = (if s \<le> 3 then m div 2 ^ (8 * (3 - s)) else (m * 2 ^ (8 * (s - 3))) mod 2 ^ 256)"
    using s w unfolding SetCompact_def Let_def wd_def [symmetric]
    by (simp add: val_base_u64 val_shl unat_ucast_u32_u64 unat_drop_u32)
  show "\<not> snd (snd (SetCompact c))" if "s \<le> 33" "s \<le> 32 \<or> m \<le> 0xffff"
    using that s w unfolding SetCompact_def Let_def wd_def [symmetric] by (auto simp: word_less_nat_alt)
qed

section \<open>Writing a compact number\<close>

definition byte_size :: "nat \<Rightarrow> nat" where
  "byte_size bits = (bits + 7) div 8"

text \<open>The mantissa before and after the correction for the sign bit.\<close>

definition mantissa :: "nat \<Rightarrow> nat \<Rightarrow> nat" where
  "mantissa n s = (if s \<le> 3 then n * 2 ^ (8 * (3 - s)) else n div 2 ^ (8 * (s - 3)))"

lemma mantissa_bounds:
  assumes "limbs8 x" "s = byte_size (base_bits x)"
  shows "mantissa (val x) s < 16777216" "s \<le> 32" "val x \<noteq> 0 \<Longrightarrow> 65536 \<le> mantissa (val x) s" "val x < 2 ^ (8 * s)"
    "val x = 0 \<longleftrightarrow> s = 0"
proof -
  note B = base_bits_bounds [OF assms(1)]
  show s32: "s \<le> 32" using B(1) by (simp add: assms(2) byte_size_def)
  have bs: "base_bits x \<le> 8 * s" by (simp add: assms(2) byte_size_def) 
  have "val x < 2 ^ base_bits x" by (rule B(2))
  also have "\<dots> \<le> 2 ^ (8 * s)" using bs by (intro power_increasing) auto
  finally show up: "val x < 2 ^ (8 * s)" .
  show z: "val x = 0 \<longleftrightarrow> s = 0"
    using base_bits_0_iff [OF assms(1)] by (auto simp: assms(2) byte_size_def)
  show "mantissa (val x) s < 16777216"
  proof (cases "s \<le> 3")
    case True
    have "val x * 2 ^ (8 * (3 - s)) < 2 ^ (8 * s) * 2 ^ (8 * (3 - s))" using up by simp
    also have "\<dots> = 2 ^ (8 * s + 8 * (3 - s))" by (rule power_add [symmetric])
    also have "8 * s + 8 * (3 - s) = 24" using True by simp
    finally show ?thesis using True by (simp add: mantissa_def)
  next
    case False
    have "(2 :: nat) ^ (8 * s) = 2 ^ 24 * 2 ^ (8 * (s - 3))" using False by (simp only: power_add [symmetric]) simp
    then show ?thesis using False up by (simp add: mantissa_def div_less_iff_less_mult)
  qed
  assume "val x \<noteq> 0"
  then have s1: "1 \<le> s" and b: "base_bits x > 0" using z base_bits_0_iff [OF assms(1)] by auto
  have "8 * (s - 1) \<le> base_bits x - 1" using b by (simp add: assms(2) byte_size_def) 
  then have "(2 :: nat) ^ (8 * (s - 1)) \<le> 2 ^ (base_bits x - 1)" by (intro power_increasing) auto
  also have "\<dots> \<le> val x" by (rule B(3) [OF b])
  finally have lo: "2 ^ (8 * (s - 1)) \<le> val x" .
  show "65536 \<le> mantissa (val x) s"
  proof (cases "s \<le> 3")
    case True
    have "8 * (s - 1) + 8 * (3 - s) = 16" using True s1 by simp
    then have "(65536 :: nat) = 2 ^ (8 * (s - 1)) * 2 ^ (8 * (3 - s))" by (simp add: power_add [symmetric])
    also have "\<dots> \<le> val x * 2 ^ (8 * (3 - s))" using lo by simp
    finally show ?thesis using True by (simp add: mantissa_def)
  next
    case False
    have "(2 :: nat) ^ (8 * (s - 1)) = 65536 * 2 ^ (8 * (s - 3))"
    proof -
      have "8 * (s - 1) = 16 + 8 * (s - 3)" using False by simp
      then show ?thesis by (simp add: power_add)
    qed
    then show ?thesis using False lo by (simp add: mantissa_def less_eq_div_iff_mult_less_eq)
  qed
qed

lemma unat_low32_of:
  "unat (w :: u64) < 4294967296 \<Longrightarrow> unat (ucast w :: u32) = unat w"
  by (rule unat_ucast_small) simp

lemma unat_push_u64:
  assumes "unat (w :: u64) * 2 ^ k < 18446744073709551616"
  shows "unat (push_bit k w) = unat w * 2 ^ k"
proof -
  have "push_bit k w = of_nat (unat w * 2 ^ k)" by (simp add: push_bit_eq_mult)
  then have "unat (push_bit k w) = (unat w * 2 ^ k) mod 18446744073709551616" by (simp only: unat_of_nat) simp
  then show ?thesis using assms by simp
qed

lemma unat_GetCompact_word:
  assumes "limbs8 x" "s = byte_size (base_bits x)"
  shows "unat (if s \<le> 3 then ucast (push_bit (8 * (3 - s)) (GetLow64 x))
      else ucast (GetLow64 (base_shr x (8 * (s - 3)))) :: u32) = mantissa (val x) s"
proof (cases "s \<le> 3")
  case True
  have "val x < 2 ^ (8 * s)" using mantissa_bounds(4) [OF assms] .
  also have "\<dots> \<le> 2 ^ 24" using True by (intro power_increasing) auto
  finally have l: "unat (GetLow64 x) = val x" using GetLow64_val [OF assms(1)] by simp
  then have "unat (GetLow64 x) * 2 ^ (8 * (3 - s)) < 16777216"
    using mantissa_bounds(1) [OF assms] True by (simp add: mantissa_def)
  then show ?thesis using True l unat_push_u64 [of "GetLow64 x" "8 * (3 - s)"]
    by (simp add: unat_low32_of mantissa_def)
next
  case False
  have "val (base_shr x (8 * (s - 3))) < 16777216"
    using mantissa_bounds(1) [OF assms] False assms(1) by (simp add: mantissa_def val_shr)
  then have "unat (GetLow64 (base_shr x (8 * (s - 3)))) = val (base_shr x (8 * (s - 3)))"
    using GetLow64_val [OF length_base_shr, of x "8 * (s - 3)"] by simp
  then show ?thesis using False \<open>val (base_shr x _) < _\<close> assms(1)
    by (simp add: unat_low32_of mantissa_def val_shr)
qed

lemma unat_or_size:
  assumes "unat (c :: u32) < 16777216" "s < 256"
  shows "unat (c OR push_bit 24 (of_nat s)) = unat c + 16777216 * s"
proof -
  have "c OR push_bit 24 (of_nat s) = c + push_bit 24 (of_nat s)"
  proof (rule disjunctive_add_eq_or [symmetric], rule bit_word_eqI)
    fix n
    have "\<not> bit c n" if "24 \<le> n"
    proof -
      have "unat c div 2 ^ n = 0"
      proof -
        have "(2 :: nat) ^ 24 \<le> 2 ^ n" using that by (intro power_increasing) auto
        then show ?thesis using assms(1) by simp
      qed
      moreover have "bit (unat c) n \<longleftrightarrow> bit c n" by (simp add: bit_unsigned_iff)
      ultimately show ?thesis by (simp add: bit_iff_odd)
    qed
    then show "bit (c AND push_bit 24 (of_nat s)) n \<longleftrightarrow> bit (0 :: u32) n"
      by (auto simp: bit_and_iff bit_push_bit_iff)
  qed
  also have "\<dots> = of_nat (unat c + 16777216 * s)" by (simp add: push_bit_eq_mult)
  finally have "c OR push_bit 24 (of_nat s) = of_nat (unat c + 16777216 * s)" .
  then have "unat (c OR push_bit 24 (of_nat s)) = (unat c + 16777216 * s) mod 4294967296"
    by (simp only: unat_of_nat) simp
  then show ?thesis using assms by simp
qed

definition compact_parts :: "nat \<Rightarrow> nat \<Rightarrow> nat \<times> nat" where
  "compact_parts n s = (let m = mantissa n s in if 8388608 \<le> m then (m div 256, s + 1) else (m, s))"

lemma unat_GetCompact:
  assumes "limbs8 x" "s = byte_size (base_bits x)" "compact_parts (val x) s = (m, s')"
  shows "unat (GetCompact x False) = m + 16777216 * s'" "m < 8388608" "s' \<le> 33" "s' \<le> 32 \<or> m \<le> 0xffff"
proof -
  define w where "w = (if s \<le> 3 then ucast (push_bit (8 * (3 - s)) (GetLow64 x))
      else ucast (GetLow64 (base_shr x (8 * (s - 3)))) :: u32)"
  have w: "unat w = mantissa (val x) s" unfolding w_def by (rule unat_GetCompact_word [OF assms(1,2)])
  note B = mantissa_bounds [OF assms(1,2)]
  have sign: "w AND 0x00800000 \<noteq> 0 \<longleftrightarrow> 8388608 \<le> mantissa (val x) s"
    using and_sign_bit [of w] bit_23_less [OF B(1)] w by simp
  have m: "m < 8388608 \<and> s' \<le> 33 \<and> (s' \<le> 32 \<or> m \<le> 0xffff)"
    using assms(3) B(1,2) by (auto simp: compact_parts_def Let_def div_less_iff_less_mult split: if_splits)
  then show "m < 8388608" "s' \<le> 33" "s' \<le> 32 \<or> m \<le> 0xffff" by auto
  have "GetCompact x False = (if w AND 0x00800000 \<noteq> 0 then drop_bit 8 w OR push_bit 24 (of_nat (s + 1))
      else w OR push_bit 24 (of_nat s))"
    unfolding GetCompact_def byte_size_def [symmetric] assms(2) [symmetric] w_def Let_def by simp
  then show "unat (GetCompact x False) = m + 16777216 * s'"
    using sign w assms(3) B(1,2) m
    by (auto simp: unat_or_size unat_drop_u32 compact_parts_def Let_def split: if_splits simp del: of_nat_add of_nat_Suc)
qed

text \<open>Reading back what was written.\<close>

definition expand :: "nat \<Rightarrow> nat \<Rightarrow> nat" where
  "expand m s = (if s \<le> 3 then m div 2 ^ (8 * (3 - s)) else m * 2 ^ (8 * (s - 3)))"

lemma div_mult_bounds: "(n div k) * k \<le> n" "0 < k \<Longrightarrow> n < (n div k) * k + k" for n k :: nat
  using div_mult_mod_eq [of n k] mod_less_divisor [of k n] by linarith+

lemma expand_mantissa:
  assumes "compact_parts n s = (m, s')"
  shows "expand m s' \<le> n \<and> n < expand m s' + 2 ^ (8 * (s' - 3))"
proof -
  define m0 where "m0 = mantissa n s"
  have cs: "(8388608 \<le> m0 \<and> m = m0 div 256 \<and> s' = s + 1) \<or> (m = m0 \<and> s' = s)"
    using assms by (auto simp: compact_parts_def Let_def m0_def split: if_splits)
  consider "s < 3" | "s = 3" | "3 < s" by linarith
  then show ?thesis
  proof cases
    case 1
    have "8 * (3 - s) = 8 + 8 * (2 - s)" using 1 by simp
    then have p: "(2 :: nat) ^ (8 * (3 - s)) = 256 * 2 ^ (8 * (2 - s))" by (simp add: power_add)
    have "m0 = n * 2 ^ (8 * (3 - s))" using 1 by (simp add: m0_def mantissa_def)
    moreover have "m0 div 256 = n * 2 ^ (8 * (2 - s))" using calculation p by simp
    ultimately show ?thesis using cs 1 by (auto simp: expand_def)
  next
    case 2
    then have "m0 = n" by (simp add: m0_def mantissa_def)
    then show ?thesis using cs 2 div_mult_bounds(1) [of n 256] div_mult_bounds(2) [of 256 n] by (auto simp: expand_def)
  next
    case 3
    define k where "k = (2 :: nat) ^ (8 * (s - 3))"
    have m0: "m0 = n div k" using 3 by (simp add: m0_def mantissa_def k_def)
    have "8 * (s + 1 - 3) = 8 * (s - 3) + 8" using 3 by simp
    then have k2: "(2 :: nat) ^ (8 * (s + 1 - 3)) = k * 256" by (simp add: k_def power_add)
    have "m0 div 256 = n div (k * 256)" using m0 by (simp add: div_mult2_eq)
    then show ?thesis
      using cs 3 m0 k2 div_mult_bounds(1) [of n k] div_mult_bounds(1) [of n "k * 256"]
        div_mult_bounds(2) [of k n] div_mult_bounds(2) [of "k * 256" n]
      by (auto simp: expand_def k_def [symmetric]) (simp_all add: k_def)
  qed
qed

lemma compact_significant:
  assumes "limbs8 x" "s = byte_size (base_bits x)" "compact_parts (val x) s = (m, s')" "val x \<noteq> 0"
  shows "32768 \<le> m"
  using mantissa_bounds(3) [OF assms(1,2,4)] assms(3)
  by (auto simp: compact_parts_def Let_def less_eq_div_iff_mult_less_eq split: if_splits)

lemma SetCompact_GetCompact_parts:
  assumes x: "limbs8 x" and p: "compact_parts (val x) (byte_size (base_bits x)) = (m, s')"
  shows "limbs8 (fst (SetCompact (GetCompact x False)))"
    "snd (SetCompact (GetCompact x False)) = (False, False)"
    "val (fst (SetCompact (GetCompact x False))) = expand m s'"
proof -
  note g = unat_GetCompact [OF x refl p]
  note S = SetCompact_parts [OF g(1,2)]
  note e = expand_mantissa [OF p]
  have "val x < 2 ^ 256" using val_less [of x] x by (simp add: WIDTH_def)
  then have "expand m s' < 2 ^ 256" using e by linarith
  then show "val (fst (SetCompact (GetCompact x False))) = expand m s'" using S(3) by (auto simp: expand_def)
  show "limbs8 (fst (SetCompact (GetCompact x False)))" by (rule S(1))
  show "snd (SetCompact (GetCompact x False)) = (False, False)" using S(2) S(4) [OF g(3,4)] by (simp add: prod_eq_iff)
qed

lemma GetCompact_rounds:
  assumes "limbs8 x"
  defines "t \<equiv> SetCompact (GetCompact x False)"
  shows "limbs8 (fst t)" "snd t = (False, False)" "val (fst t) \<le> val x" "(val x - val (fst t)) * 32768 \<le> val (fst t)"
    "val x \<noteq> 0 \<Longrightarrow> val (fst t) \<noteq> 0"
proof -
  obtain m s' where p: "compact_parts (val x) (byte_size (base_bits x)) = (m, s')" by (cases "compact_parts (val x) (byte_size (base_bits x))")
  note T = SetCompact_GetCompact_parts [OF assms(1) p, folded t_def]
  note e = expand_mantissa [OF p]
  show "limbs8 (fst t)" "snd t = (False, False)" by (rule T)+
  show "val (fst t) \<le> val x" using T(3) e by simp
  have big: "32768 * 2 ^ (8 * (s' - 3)) \<le> expand m s'" if "3 < s'" "val x \<noteq> 0"
    using that compact_significant [OF assms(1) refl p] by (simp add: expand_def)
  show le: "(val x - val (fst t)) * 32768 \<le> val (fst t)"
  proof (cases "3 < s' \<and> val x \<noteq> 0")
    case True
    have "(val x - expand m s') * 32768 \<le> 2 ^ (8 * (s' - 3)) * 32768" using e by (intro mult_le_mono1) linarith
    also have "\<dots> \<le> expand m s'" using big True by (simp add: mult.commute)
    finally show ?thesis using T(3) by simp
  next
    case False
    then have "val x = expand m s'" using e by auto
    then show ?thesis using T(3) by simp
  qed
  show "val (fst t) \<noteq> 0" if "val x \<noteq> 0" using le that by (cases "val (fst t)") auto
qed

section \<open>Properties\<close>

text \<open>
  (C15) The limb arithmetic is 256-bit arithmetic: on arrays of eight limbs the loops for the sum, the
  difference, the product with a 32-bit factor and with another array, the two shifts and the
  long division compute the operation of the same name on 256-bit words, and the comparison is
  the order of words. Division throws exactly for a zero divisor.
\<close>

theorem arith_uint256_refines_word:
  assumes "length a = WIDTH" "length b = WIDTH"
  shows "W (base_add a b) = W a + W b \<and> W (base_sub a b) = W a - W b \<and> W (base_mul a b) = W a * W b \<and>
    W (base_mul32 a c) = W a * ucast c \<and> W (base_shl a n) = push_bit n (W a) \<and> W (base_shr a n) = drop_bit n (W a) \<and>
    W (base_not a) = NOT (W a) \<and> (CompareTo a b < 0) = (W a < W b) \<and> (CompareTo a b > 0) = (W a > W b) \<and>
    (if W b = 0 then base_div a b = None else map_option W (base_div a b) = Some (W a div W b))"
proof -
  have "base_div a b = None" if "W b = 0"
    using base_div_val(1) [OF assms] that unat_W [OF assms(2)] by simp
  moreover have "map_option W (base_div a b) = Some (W a div W b)" if "W b \<noteq> 0"
    using W_div [OF assms that] by auto
  ultimately show ?thesis using assms by (simp add: W_refine)
qed

theorem arith_uint256_refines_word_witness:
  "W (base_mul [1, 2, 0, 0, 0, 0, 0, 0] [3, 0, 0, 0, 0, 0, 0, 1]) =
   W [1, 2, 0, 0, 0, 0, 0, 0] * W [3, 0, 0, 0, 0, 0, 0, 1]"
  using arith_uint256_refines_word [of "[1, 2, 0, 0, 0, 0, 0, 0]" "[3, 0, 0, 0, 0, 0, 0, 1]"]
  by (simp add: WIDTH_def)

text \<open>
  The compact format rounds targets down and keeps fifteen significant bits: reading back the
  compact form of a number gives no sign and no overflow, a number that is not larger, whose
  distance is at most one part in 32768, and that is zero only for zero.
\<close>

theorem compact_rounds_down:
  assumes "length x = WIDTH"
  shows "case SetCompact (GetCompact x False) of (t, fNegative, fOverflow) \<Rightarrow>
    \<not> fNegative \<and> \<not> fOverflow \<and> val t \<le> val x \<and> (val x - val t) * 32768 \<le> val t"
  using GetCompact_rounds [OF assms] by (auto split: prod.splits)

theorem compact_rounds_down_witness:
  "case SetCompact (GetCompact [0x12345678, 0x9abc, 0, 0, 0, 0, 0, 0] False) of (t, fNegative, fOverflow) \<Rightarrow>
    \<not> fNegative \<and> \<not> fOverflow \<and> val t \<le> val [0x12345678, 0x9abc, 0, 0, 0, 0, 0, 0] \<and>
    (val [0x12345678, 0x9abc, 0, 0, 0, 0, 0, 0] - val t) * 32768 \<le> val t"
  by (rule compact_rounds_down) (simp add: WIDTH_def)

end
