(* ===== verification/Pow.thy ===== *)
theory Pow
  imports Chain Compact "HOL-Library.Signed_Division"
begin

text \<open>
  Proof of work (\<^verbatim>\<open>pow.cpp\<close>, the work functions of \<^verbatim>\<open>chain.cpp\<close>, the consensus parameters of
  \<^verbatim>\<open>consensus/params.h\<close> and \<^verbatim>\<open>chainparams.cpp\<close>) and the entry of a header into the block index
  (\<^verbatim>\<open>validation.cpp\<close>). The \<^verbatim>\<open>int64_t\<close> fields are integers; where the code hands one to the 256-bit
  arithmetic it is converted to the type of the operator chosen there, \<^verbatim>\<open>uint32_t\<close> for \<^verbatim>\<open>*=\<close> and
  \<^verbatim>\<open>uint64_t\<close> for \<^verbatim>\<open>/=\<close>.
\<close>

section \<open>Consensus parameters\<close>

record BIP9Deployment =
  vb_bit :: nat
  nStartTime :: int
  nTimeout :: int
  nWindowSize :: int
  nThreshold :: int

datatype DeploymentPos = DEPLOYMENT_TESTDUMMY | DEPLOYMENT_CSV | DEPLOYMENT_DIP0001 | DEPLOYMENT_BIP147 | DEPLOYMENT_DIP0003

record Params =
  hashGenesisBlock :: uint256
  hashDevnetGenesisBlock :: uint256
  nSubsidyHalvingInterval :: int
  nMasternodePaymentsStartBlock :: int
  nSuperblockStartBlock :: int
  nSuperblockCycle :: int
  BIP34Height :: int
  BIP34Hash :: uint256
  BIP65Height :: int
  BIP66Height :: int
  DIP0001Height :: int
  CSVHeight :: int
  BIP147Height :: int
  nRuleChangeActivationThreshold :: int
  nMinerConfirmationWindow :: int
  vDeployments :: "DeploymentPos \<Rightarrow> BIP9Deployment"
  powLimit :: uint256
  fPowAllowMinDifficultyBlocks :: bool
  fPowNoRetargeting :: bool
  nPowTargetSpacing :: int
  nAveragingInterval :: int
  nAveragingTargetTimespan :: int
  nAveragingTargetTimespanV2 :: int
  nMinActualTimespan :: int
  nMaxActualTimespan :: int
  nMinActualTimespanV2 :: int
  nMaxActualTimespanV2 :: int
  nMinActualTimespanV3 :: int
  nMaxActualTimespanV3 :: int
  nLocalTargetAdjustment :: int
  v2DiffChangeHeight :: int
  v3DiffChangeHeight :: int
  AlgoChangeHeight :: int

text \<open>The main network; a deployment whose fields the constructor leaves alone is zero-initialised.\<close>

definition CMainParams_vDeployments :: "DeploymentPos \<Rightarrow> BIP9Deployment" where
  "CMainParams_vDeployments pos =
     (let d = \<lparr> vb_bit = 0, nStartTime = 0, nTimeout = 0, nWindowSize = 0, nThreshold = 0 \<rparr> in
      case pos of
        DEPLOYMENT_TESTDUMMY \<Rightarrow> d \<lparr> vb_bit := 28, nStartTime := 1199145601, nTimeout := 1230767999 \<rparr>
      | DEPLOYMENT_DIP0003 \<Rightarrow> d \<lparr> vb_bit := 3, nStartTime := 1598227200, nTimeout := 1629763200 \<rparr>
      | _ \<Rightarrow> d)"

definition CMainParams_consensus :: Params where
  "CMainParams_consensus =
     (let averagingInterval = 10;
          averagingTargetTimespan = averagingInterval * (90 * 3);
          averagingTargetTimespanV2 = averagingInterval * (90 * 4);
          maxAdjustDown = 16; maxAdjustUp = 8; maxAdjustDownV2 = 12; maxAdjustUpV2 = 10
      in \<lparr> hashGenesisBlock = 0x973814a07c1ae4f3af90372952c9b9709901a95df1d0ea54bd1b3bd6feff5b89, hashDevnetGenesisBlock = 0,
           nSubsidyHalvingInterval = 100000, nMasternodePaymentsStartBlock = 10100, nSuperblockStartBlock = 25000,
           nSuperblockCycle = 29200, BIP34Height = 16, BIP34Hash = 0, BIP65Height = 1, BIP66Height = 1, DIP0001Height = 2,
           CSVHeight = 1, BIP147Height = 1, nRuleChangeActivationThreshold = 10080, nMinerConfirmationWindow = 13440,
           vDeployments = CMainParams_vDeployments,
           powLimit = 0x00000fffffffffffffffffffffffffffffffffffffffffffffffffffffffffff,
           fPowAllowMinDifficultyBlocks = False, fPowNoRetargeting = False, nPowTargetSpacing = 90,
           nAveragingInterval = averagingInterval,
           nAveragingTargetTimespan = averagingTargetTimespan,
           nAveragingTargetTimespanV2 = averagingTargetTimespanV2,
           nMinActualTimespan = averagingTargetTimespan * (100 - maxAdjustUp) sdiv 100,
           nMaxActualTimespan = averagingTargetTimespan * (100 + maxAdjustDown) sdiv 100,
           nMinActualTimespanV2 = averagingTargetTimespan * (100 - maxAdjustUpV2) sdiv 100,
           nMaxActualTimespanV2 = averagingTargetTimespan * (100 + maxAdjustDownV2) sdiv 100,
           nMinActualTimespanV3 = averagingTargetTimespanV2 * (100 - maxAdjustUpV2) sdiv 100,
           nMaxActualTimespanV3 = averagingTargetTimespanV2 * (100 + maxAdjustDownV2) sdiv 100,
           nLocalTargetAdjustment = 4, v2DiffChangeHeight = 100000, v3DiffChangeHeight = 100050,
           AlgoChangeHeight = 285000 \<rparr>)"

section \<open>The next target\<close>

definition min_difficulty_block :: "block_heap \<Rightarrow> Params \<Rightarrow> ptr \<Rightarrow> bool" where
  "min_difficulty_block h params p \<longleftrightarrow> fPowAllowMinDifficultyBlocks params \<and>
     (case pprev (h p) of
        None \<Rightarrow> False
      | Some q \<Rightarrow> uint (bi_nTime (h p)) > uint (bi_nTime (h q)) + nPowTargetSpacing params * 6)"

text \<open>The loop along \<^verbatim>\<open>pprev\<close>; not returning is the value \<open>None\<close>.\<close>

partial_function (option) last_block_loop :: "block_heap \<Rightarrow> (ptr \<Rightarrow> bool) \<Rightarrow> ptr option \<Rightarrow> ptr option option" where
  "last_block_loop h skipped pindex =
     (case pindex of
        None \<Rightarrow> Some None
      | Some p \<Rightarrow> if skipped p then last_block_loop h skipped (pprev (h p)) else Some (Some p))"

declare last_block_loop.simps [code]

definition GetLastBlockIndexForAlgo :: "block_heap \<Rightarrow> ptr option \<Rightarrow> Params \<Rightarrow> int \<Rightarrow> ptr option option" where
  "GetLastBlockIndexForAlgo h pindex params algo =
     last_block_loop h (\<lambda>p. GetAlgo (h p) \<noteq> algo \<or> min_difficulty_block h params p) pindex"

fun walk_back :: "block_heap \<Rightarrow> nat \<Rightarrow> ptr option \<Rightarrow> ptr option" where
  "walk_back h 0 pindexFirst = pindexFirst"
| "walk_back h (Suc n) None = None"
| "walk_back h (Suc n) (Some p) = walk_back h n (pprev (h p))"

datatype pow_error = UintError

definition base_div' :: "base_uint \<Rightarrow> int \<Rightarrow> pow_error + base_uint" where
  "base_div' a b = (case base_div a (base_u64 (word_of_int b)) of None \<Rightarrow> Inl UintError | Some q \<Rightarrow> Inr q)"

fun adjust_loop :: "nat \<Rightarrow> int \<Rightarrow> int \<Rightarrow> base_uint \<Rightarrow> pow_error + base_uint" where
  "adjust_loop 0 m d bnNew = Inr bnNew"
| "adjust_loop (Suc i) m d bnNew =
     (case base_div' (base_mul32 bnNew (word_of_int m)) d of
        Inl e \<Rightarrow> Inl e
      | Inr bn \<Rightarrow> adjust_loop i m d bn)"

definition local_adjust :: "Params \<Rightarrow> int \<Rightarrow> base_uint \<Rightarrow> pow_error + base_uint" where
  "local_adjust params nAdjustments bnNew =
     (if nAdjustments > 0 then adjust_loop (nat nAdjustments) 100 (100 + nLocalTargetAdjustment params) bnNew
      else if nAdjustments < 0 then adjust_loop (nat (- nAdjustments)) (100 + nLocalTargetAdjustment params) 100 bnNew
      else Inr bnNew)"

definition actual_timespan :: "int \<Rightarrow> int \<Rightarrow> int \<Rightarrow> int \<Rightarrow> int" where
  "actual_timespan targetTimespan minTimespan maxTimespan medians =
     (let nActualTimespan = targetTimespan + (medians - targetTimespan) sdiv 4;
          nActualTimespan = (if nActualTimespan < minTimespan then minTimespan else nActualTimespan)
      in if nActualTimespan > maxTimespan then maxTimespan else nActualTimespan)"

text \<open>The part the three versions share, from the limited time span to the result.\<close>

definition retarget :: "Params \<Rightarrow> int \<Rightarrow> int \<Rightarrow> u32 \<Rightarrow> int \<Rightarrow> pow_error + u32" where
  "retarget params nActualTimespan targetTimespan nBits nAdjustments =
     (case base_div' (base_mul32 (fst (SetCompact nBits)) (word_of_int nActualTimespan)) targetTimespan of
        Inl e \<Rightarrow> Inl e
      | Inr bnNew \<Rightarrow>
          (case local_adjust params nAdjustments bnNew of
             Inl e \<Rightarrow> Inl e
           | Inr bnNew \<Rightarrow>
               Inr (GetCompact (if CompareTo bnNew (UintToArith256 (powLimit params)) > 0
                                then UintToArith256 (powLimit params) else bnNew) False)))"

definition npowWorkLimit :: "Params \<Rightarrow> u32" where
  "npowWorkLimit params = GetCompact (UintToArith256 (powLimit params)) False"

definition GetNextWorkRequiredV1 :: "block_heap \<Rightarrow> ptr option \<Rightarrow> Params \<Rightarrow> int \<Rightarrow> (pow_error + u32) option" where
  "GetNextWorkRequiredV1 h pindexLast params algo =
     (case pindexLast of
        None \<Rightarrow> Some (Inr (npowWorkLimit params))
      | Some l \<Rightarrow>
          (case GetLastBlockIndexForAlgo h (Some l) params algo of
             None \<Rightarrow> None
           | Some pindexPrevAlgo \<Rightarrow>
               (case (pindexPrevAlgo, walk_back h (nat (int NUM_ALGOS * nAveragingInterval params)) (Some l)) of
                  (Some a, Some f) \<Rightarrow>
                    if fPowNoRetargeting params then Some (Inr (npowWorkLimit params))
                    else Some (retarget params
                           (actual_timespan (nAveragingTargetTimespan params) (nMinActualTimespan params) (nMaxActualTimespan params)
                              (GetMedianTimePast h l - GetMedianTimePast h f))
                           (nAveragingTargetTimespan params) (bi_nBits (h a))
                           (bi_nHeight (h a) + int NUM_ALGOS - 1 - bi_nHeight (h l)))
                | _ \<Rightarrow> Some (Inr (npowWorkLimit params)))))"

definition GetNextWorkRequiredV2 :: "block_heap \<Rightarrow> ptr option \<Rightarrow> Params \<Rightarrow> int \<Rightarrow> (pow_error + u32) option" where
  "GetNextWorkRequiredV2 h pindexLast params algo =
     (case pindexLast of
        None \<Rightarrow> Some (Inr (npowWorkLimit params))
      | Some l \<Rightarrow>
          (case GetLastBlockIndexForAlgo h (Some l) params algo of
             None \<Rightarrow> None
           | Some pindexPrevAlgo \<Rightarrow>
               (case (pindexPrevAlgo, walk_back h (nat (int NUM_ALGOSV2 * nAveragingInterval params)) (Some l)) of
                  (Some a, Some f) \<Rightarrow>
                    if fPowNoRetargeting params then Some (Inr (npowWorkLimit params))
                    else Some (retarget params
                           (actual_timespan (nAveragingTargetTimespanV2 params) (nMinActualTimespanV2 params) (nMaxActualTimespanV2 params)
                              (GetMedianTimePast h l - GetMedianTimePast h f))
                           (nAveragingTargetTimespanV2 params) (bi_nBits (h a))
                           (bi_nHeight (h a) + int NUM_ALGOSV2 - 1 - bi_nHeight (h l)))
                | _ \<Rightarrow> Some (Inr (npowWorkLimit params)))))"

definition GetNextWorkRequiredV3 :: "block_heap \<Rightarrow> ptr option \<Rightarrow> Params \<Rightarrow> int \<Rightarrow> (pow_error + u32) option" where
  "GetNextWorkRequiredV3 h pindexLast params algo =
     (case pindexLast of
        None \<Rightarrow> Some (Inr (npowWorkLimit params))
      | Some l \<Rightarrow>
          (let algos = (if bi_nHeight (h l) < AlgoChangeHeight params then int NUM_ALGOSV2 else int NUM_ALGOSV3) in
           case GetLastBlockIndexForAlgo h (Some l) params algo of
             None \<Rightarrow> None
           | Some pindexPrevAlgo \<Rightarrow>
               (case (pindexPrevAlgo, walk_back h (nat (algos * nAveragingInterval params)) (Some l)) of
                  (Some a, Some f) \<Rightarrow>
                    if fPowNoRetargeting params then Some (Inr (npowWorkLimit params))
                    else Some (retarget params
                           (actual_timespan (nAveragingTargetTimespanV2 params) (nMinActualTimespanV3 params) (nMaxActualTimespanV3 params)
                              (GetMedianTimePast h l - GetMedianTimePast h f))
                           (nAveragingTargetTimespanV2 params) (bi_nBits (h a))
                           (bi_nHeight (h a) + algos - 1 - bi_nHeight (h l)))
                | _ \<Rightarrow> Some (Inr (npowWorkLimit params)))))"

definition GetNextWorkRequired :: "block_heap \<Rightarrow> ptr option \<Rightarrow> Params \<Rightarrow> int \<Rightarrow> (pow_error + u32) option" where
  "GetNextWorkRequired h pindexLast params algo =
     (if pindexLast = None \<or> bi_nHeight (h (the pindexLast)) < v2DiffChangeHeight params
      then GetNextWorkRequiredV1 h pindexLast params algo
      else if bi_nHeight (h (the pindexLast)) < v3DiffChangeHeight params
      then GetNextWorkRequiredV2 h pindexLast params algo
      else GetNextWorkRequiredV3 h pindexLast params algo)"

definition CheckProofOfWork :: "uint256 \<Rightarrow> u32 \<Rightarrow> Params \<Rightarrow> bool" where
  "CheckProofOfWork hash nBits params =
     (let (bnTarget, fNegative, fOverflow) = SetCompact nBits in
      if fNegative \<or> EqualTo bnTarget 0 \<or> fOverflow \<or> CompareTo bnTarget (UintToArith256 (powLimit params)) > 0 then False
      else if CompareTo (UintToArith256 hash) bnTarget > 0 then False
      else True)"

section \<open>Work\<close>

fun block_proof_loop :: "nat \<Rightarrow> int \<Rightarrow> nat \<Rightarrow> block_heap \<Rightarrow> ptr option \<Rightarrow> Params \<Rightarrow> base_uint \<Rightarrow> (pow_error + base_uint option) option" where
  "block_proof_loop 0 i algos h prev params bnAvgTarget = Some (Inr (Some bnAvgTarget))"
| "block_proof_loop (Suc n) i algos h prev params bnAvgTarget =
     (case GetNextWorkRequired h prev params i of
        None \<Rightarrow> None
      | Some (Inl e) \<Rightarrow> Some (Inl e)
      | Some (Inr nBits) \<Rightarrow>
          (let (bnTarget, fNegative, fOverflow) = SetCompact nBits in
           if fNegative \<or> fOverflow \<or> EqualTo bnTarget 0 then Some (Inr None)
           else block_proof_loop n (i + 1) algos h prev params (base_mul bnAvgTarget (ApproxNthRoot bnTarget algos))))"

definition current_algos :: "Params \<Rightarrow> int \<Rightarrow> nat" where
  "current_algos params height =
     (if height \<ge> AlgoChangeHeight params then NUM_ALGOSV3
      else if height \<ge> v2DiffChangeHeight params then NUM_ALGOSV2
      else NUM_ALGOS)"

definition GetBlockProof :: "block_heap \<Rightarrow> Params \<Rightarrow> CBlockIndex \<Rightarrow> (pow_error + base_uint) option" where
  "GetBlockProof h params block =
     (let algos = current_algos params (bi_nHeight block) in
      case block_proof_loop algos 0 algos h (pprev block) params (base_u64 1) of
        None \<Rightarrow> None
      | Some (Inl e) \<Rightarrow> Some (Inl e)
      | Some (Inr None) \<Rightarrow> Some (Inr base_zero)
      | Some (Inr (Some bnAvgTarget)) \<Rightarrow>
          (case base_div (base_not bnAvgTarget) (base_add bnAvgTarget (base_u64 1)) of
             None \<Rightarrow> Some (Inl UintError)
           | Some q \<Rightarrow> Some (Inr (base_shl (base_add q (base_u64 1)) 7))))"

definition GetBlockProofEquivalentTime ::
    "block_heap \<Rightarrow> CBlockIndex \<Rightarrow> CBlockIndex \<Rightarrow> CBlockIndex \<Rightarrow> Params \<Rightarrow> (pow_error + int) option" where
  "GetBlockProofEquivalentTime h to from tip params =
     (let (r, sign) = (if CompareTo (nChainWork to) (nChainWork from) > 0
                       then (base_sub (nChainWork to) (nChainWork from), 1)
                       else (base_sub (nChainWork from) (nChainWork to), -1))
      in case GetBlockProof h params tip of
           None \<Rightarrow> None
         | Some (Inl e) \<Rightarrow> Some (Inl e)
         | Some (Inr proof) \<Rightarrow>
             (case base_div (base_mul r (base_u64 (word_of_int (nPowTargetSpacing params)))) proof of
                None \<Rightarrow> Some (Inl UintError)
              | Some r \<Rightarrow> Some (Inr (if base_bits r > 63 then sign * 9223372036854775807
                                         else sint (word_of_int sign * GetLow64 r)))))"

section \<open>Entering a header into the block index\<close>

record index_state =
  bi_heap :: block_heap
  bi_next :: ptr
  mapBlockIndex :: "uint256 \<rightharpoonup> ptr"
  pindexBestHeader :: "ptr option"
  setDirtyBlockIndex :: "ptr list"

datatype index_error = Assertion chain_error | Uint pow_error

definition link_index :: "(uint256 \<rightharpoonup> ptr) \<Rightarrow> block_heap \<Rightarrow> ptr \<Rightarrow> CBlockHeader \<Rightarrow> chain_error + block_heap" where
  "link_index m h n block =
     (case m (bh_hashPrevBlock block) of
        None \<Rightarrow> Inr h
      | Some q \<Rightarrow> BuildSkip (h(n := (h n) \<lparr> pprev := Some q, bi_nHeight := bi_nHeight (h q) + 1 \<rparr>)) n)"

definition set_time_max :: "block_heap \<Rightarrow> ptr \<Rightarrow> block_heap" where
  "set_time_max h n = h(n := (h n) \<lparr> bi_nTimeMax :=
     (case pprev (h n) of None \<Rightarrow> bi_nTime (h n) | Some q \<Rightarrow> max (bi_nTimeMax (h q)) (bi_nTime (h n))) \<rparr>)"

definition set_chain_work :: "block_heap \<Rightarrow> ptr \<Rightarrow> base_uint \<Rightarrow> block_heap" where
  "set_chain_work h n work = h(n := (h n) \<lparr> nChainWork :=
     base_add (case pprev (h n) of None \<Rightarrow> base_u64 0 | Some q \<Rightarrow> nChainWork (h q)) work \<rparr>)"

definition best_header :: "block_heap \<Rightarrow> ptr option \<Rightarrow> ptr \<Rightarrow> ptr option" where
  "best_header h best n =
     (case best of
        None \<Rightarrow> Some n
      | Some b \<Rightarrow> if CompareTo (nChainWork (h b)) (nChainWork (h n)) < 0 then Some n else Some b)"

definition AddToBlockIndex ::
    "(CBlockHeader \<Rightarrow> uint256) \<Rightarrow> Params \<Rightarrow> CBlockHeader \<Rightarrow> index_state \<Rightarrow> (index_error + ptr \<times> index_state) option" where
  "AddToBlockIndex GetHash params block s =
     (case mapBlockIndex s (GetHash block) of
        Some p \<Rightarrow> Some (Inr (p, s))
      | None \<Rightarrow>
          (let n = bi_next s;
               m = (mapBlockIndex s)(GetHash block \<mapsto> n);
               h = (bi_heap s)(n := (CBlockIndex_make block) \<lparr> bi_nSequenceId := 0, bi_hash := GetHash block \<rparr>)
           in case link_index m h n block of
                Inl e \<Rightarrow> Some (Inl (Assertion e))
              | Inr h \<Rightarrow>
                  (let h = set_time_max h n
                   in case GetBlockProof h params (h n) of
                        None \<Rightarrow> None
                      | Some (Inl e) \<Rightarrow> Some (Inl (Uint e))
                      | Some (Inr work) \<Rightarrow>
                          (let h = set_chain_work h n work;
                               h = h(n := snd (RaiseValidity (h n) BLOCK_VALID_TREE))
                           in Some (Inr (n, s \<lparr> bi_heap := h, bi_next := n + 1, mapBlockIndex := m,
                                           pindexBestHeader := best_header h (pindexBestHeader s) n,
                                           setDirtyBlockIndex := List.insert n (setDirtyBlockIndex s) \<rparr>))))))"

end
