(* ===== verification/Chain_Props.thy ===== *)
theory Chain_Props
  imports Chain
begin

text \<open>
  What the block index and the active chain promise. \<open>up\<close> follows \<^verbatim>\<open>pprev\<close> one block at a time; it is
  the reference for the skip-list walk of \<open>GetAncestor\<close>, and the operations of the active chain are
  specified by the chain of ancestors of its tip. The invariant \<open>block_tree\<close> says that heights
  count the distance to the root and that a skip pointer leads to the ancestor it should.
\<close>

section \<open>Ancestors\<close>

primrec up :: "block_heap \<Rightarrow> nat \<Rightarrow> ptr \<Rightarrow> ptr option" where
  "up h 0 p = Some p"
| "up h (Suc n) p = (case pprev (h p) of None \<Rightarrow> None | Some q \<Rightarrow> up h n q)"

definition ancestor :: "block_heap \<Rightarrow> ptr \<Rightarrow> int \<Rightarrow> ptr option" where
  "ancestor h p k = (if k < 0 \<or> k > bi_nHeight (h p) then None else up h (nat (bi_nHeight (h p) - k)) p)"

definition height_ok :: "block_heap \<Rightarrow> bool" where
  "height_ok h \<longleftrightarrow> (\<forall>p. bi_nHeight (h p) = (case pprev (h p) of None \<Rightarrow> 0 | Some q \<Rightarrow> bi_nHeight (h q) + 1)
     \<and> bi_nHeight (h p) \<ge> 0)"

definition skip_ok :: "block_heap \<Rightarrow> bool" where
  "skip_ok h \<longleftrightarrow> (\<forall>p s. pskip (h p) = Some s \<longrightarrow> ancestor h p (GetSkipHeight (bi_nHeight (h p))) = Some s)"

definition block_tree :: "block_heap \<Rightarrow> bool" where
  "block_tree h \<longleftrightarrow> height_ok h \<and> skip_ok h"

lemma block_treeD: "block_tree h \<Longrightarrow> height_ok h" "block_tree h \<Longrightarrow> skip_ok h"
  by (auto simp: block_tree_def)

lemma up_add: "up h (m + n) p = Option.bind (up h m p) (up h n)"
  by (induction m arbitrary: p) (auto split: option.splits)

lemma height_nonneg: "height_ok h \<Longrightarrow> 0 \<le> bi_nHeight (h p)"
  unfolding height_ok_def by blast

lemma height_prev: "height_ok h \<Longrightarrow> pprev (h p) = Some q \<Longrightarrow> bi_nHeight (h p) = bi_nHeight (h q) + 1"
  unfolding height_ok_def by (drule spec [of _ p]) auto

lemma height_root: "height_ok h \<Longrightarrow> pprev (h p) = None \<Longrightarrow> bi_nHeight (h p) = 0"
  unfolding height_ok_def by (drule spec [of _ p]) auto

lemma has_prev: "height_ok h \<Longrightarrow> bi_nHeight (h p) \<noteq> 0 \<Longrightarrow> \<exists>q. pprev (h p) = Some q"
  using height_root by fastforce

lemma up_height: "height_ok h \<Longrightarrow> up h n p = Some q \<Longrightarrow> bi_nHeight (h q) = bi_nHeight (h p) - int n"
  by (induction n arbitrary: p) (auto split: option.splits dest: height_prev)

lemma up_exists:
  assumes "height_ok h" "int n \<le> bi_nHeight (h p)"
  shows "\<exists>q. up h n p = Some q"
  using assms(2)
proof (induction n arbitrary: p)
  case (Suc n)
  then obtain q where q: "pprev (h p) = Some q" using has_prev [OF assms(1), of p] by auto
  with Suc height_prev [OF assms(1) q] show ?case by auto
qed simp

lemma ancestor_self: "height_ok h \<Longrightarrow> ancestor h p (bi_nHeight (h p)) = Some p"
  by (auto simp: ancestor_def dest: height_nonneg [of _ p])

lemma ancestor_exists:
  assumes "height_ok h" "0 \<le> k" "k \<le> bi_nHeight (h p)"
  obtains q where "ancestor h p k = Some q"
  using up_exists [of h "nat (bi_nHeight (h p) - k)" p] assms by (auto simp: ancestor_def)

lemma ancestor_height:
  assumes "height_ok h" "ancestor h p k = Some q"
  shows "bi_nHeight (h q) = k" "0 \<le> k" "k \<le> bi_nHeight (h p)"
  using assms up_height [OF assms(1), of "nat (bi_nHeight (h p) - k)" p q] by (auto simp: ancestor_def split: if_splits)

lemma ancestor_trans:
  assumes "height_ok h" "ancestor h p k = Some q" "j \<le> k"
  shows "ancestor h q j = ancestor h p j"
proof (cases "j < 0")
  case True
  then show ?thesis by (simp add: ancestor_def)
next
  case False
  note q = ancestor_height [OF assms(1,2)]
  have u: "up h (nat (bi_nHeight (h p) - k)) p = Some q" using assms(2) q by (simp add: ancestor_def split: if_splits)
  have "nat (bi_nHeight (h p) - j) = nat (bi_nHeight (h p) - k) + nat (k - j)" using q assms(3) by simp
  then have "up h (nat (bi_nHeight (h p) - j)) p = up h (nat (k - j)) q" by (simp add: up_add u)
  then show ?thesis using False assms(3) q by (simp add: ancestor_def)
qed

lemma ancestor_prev:
  assumes "height_ok h" "pprev (h p) = Some q" "k < bi_nHeight (h p)"
  shows "ancestor h p k = ancestor h q k"
proof -
  have "ancestor h p (bi_nHeight (h q)) = Some q"
    using assms height_prev [OF assms(1,2)] height_nonneg [OF assms(1), of q] by (simp add: ancestor_def)
  from ancestor_trans [OF assms(1) this] show ?thesis using assms(3) height_prev [OF assms(1,2)] by simp
qed

section \<open>The skip list\<close>

lemma GetAncestor_loop_up:
  assumes tree: "block_tree h" and "0 \<le> k" "k \<le> bi_nHeight (h p)"
  shows "\<exists>q. GetAncestor_loop h k (bi_nHeight (h p)) p = Inr q \<and> ancestor h p k = Some q"
  using assms(3)
proof (induction "nat (bi_nHeight (h p))" arbitrary: p rule: less_induct)
  case less
  note ok = block_treeD [OF tree]
  show ?case
  proof (cases "bi_nHeight (h p) = k")
    case True
    then show ?thesis by (subst GetAncestor_loop.simps) (simp add: ancestor_self [OF ok(1), of p, simplified True])
  next
    case False
    with less.prems assms(2) have gt: "k < bi_nHeight (h p)" "0 < bi_nHeight (h p)" by auto
    obtain q where q: "pprev (h p) = Some q" using has_prev [OF ok(1), of p] gt by auto
    note hq = height_prev [OF ok(1) q]
    obtain r where r: "GetAncestor_loop h k (bi_nHeight (h p) - 1) q = Inr r" "ancestor h p k = Some r"
      using less.hyps [of q] hq gt height_nonneg [OF ok(1), of q] ancestor_prev [OF ok(1) q gt(1)] by auto
    show ?thesis
    proof (cases "pskip (h p)")
      case None
      then show ?thesis using gt assms(2) q r by (subst GetAncestor_loop.simps) (auto simp: Let_def)
    next
      case (Some s)
      let ?sk = "GetSkipHeight (bi_nHeight (h p))"
      have s: "ancestor h p ?sk = Some s" using ok(2) Some by (auto simp: skip_ok_def)
      note hs = ancestor_height [OF ok(1) s]
      have "\<exists>r'. GetAncestor_loop h k ?sk s = Inr r' \<and> ancestor h p k = Some r'" if "k \<le> ?sk"
        using less.hyps [of s] hs that GetSkipHeight_bounds [OF gt(2)] gt ancestor_trans [OF ok(1) s that] by auto
      then show ?thesis using gt assms(2) q r Some by (subst GetAncestor_loop.simps) (auto simp: Let_def)
    qed
  qed
qed

lemma GetAncestor_eq_ancestor: "block_tree h \<Longrightarrow> GetAncestor h p k = Inr (ancestor h p k)"
  using GetAncestor_loop_up [of h k p] by (force simp: GetAncestor_def ancestor_def)

lemma up_cong: "(\<And>q. pprev (h' q) = pprev (h q)) \<Longrightarrow> up h' n p = up h n p"
  by (induction n arbitrary: p) (auto split: option.splits)

lemma ancestor_cong:
  "(\<And>q. pprev (h' q) = pprev (h q)) \<Longrightarrow> (\<And>q. bi_nHeight (h' q) = bi_nHeight (h q)) \<Longrightarrow> ancestor h' p k = ancestor h p k"
  by (simp add: ancestor_def up_cong [of h' h])

lemma height_ok_cong:
  assumes "\<And>q. pprev (h' q) = pprev (h q)" "\<And>q. bi_nHeight (h' q) = bi_nHeight (h q)"
  shows "height_ok h' \<longleftrightarrow> height_ok h"
  unfolding height_ok_def assms ..

lemma block_tree_cong:
  assumes "\<And>q. pprev (h' q) = pprev (h q)" "\<And>q. bi_nHeight (h' q) = bi_nHeight (h q)" "\<And>q. pskip (h' q) = pskip (h q)"
  shows "block_tree h' \<longleftrightarrow> block_tree h"
  unfolding block_tree_def height_ok_cong [OF assms(1,2)] skip_ok_def ancestor_cong [OF assms(1,2)] assms ..

lemma up_extend:
  assumes "\<And>q. pprev (h q) \<noteq> Some n" "p \<noteq> n"
  shows "up (h(n := X)) m p = up h m p"
  using assms(2)
proof (induction m arbitrary: p)
  case (Suc m)
  show ?case
  proof (cases "pprev (h p)")
    case (Some q)
    then have "q \<noteq> n" using assms(1) [of p] by auto
    then show ?thesis using Suc Some by simp
  qed (use Suc.prems in simp)
qed simp

lemma block_tree_extend:
  assumes tree: "block_tree h" and new: "\<And>q. pprev (h q) \<noteq> Some n"
    and X: "pskip X = None" "pprev X \<noteq> Some n" "bi_nHeight X = (case pprev X of None \<Rightarrow> 0 | Some q \<Rightarrow> bi_nHeight (h q) + 1)"
  shows "block_tree (h(n := X))"
proof -
  let ?h = "h(n := X)"
  note ok = block_treeD [OF tree]
  have "bi_nHeight (?h p) = (case pprev (?h p) of None \<Rightarrow> 0 | Some q \<Rightarrow> bi_nHeight (?h q) + 1) \<and> bi_nHeight (?h p) \<ge> 0" for p
  proof (cases "p = n")
    case True
    then show ?thesis using X(2,3) height_nonneg [OF ok(1)] by (auto split: option.splits)
  next
    case False
    then show ?thesis using new [of p] height_root [OF ok(1), of p] height_prev [OF ok(1), of p] height_nonneg [OF ok(1), of p]
      by (auto split: option.splits)
  qed
  then have "height_ok ?h" unfolding height_ok_def by blast
  moreover have "ancestor ?h p (GetSkipHeight (bi_nHeight (?h p))) = Some s" if "pskip (?h p) = Some s" for p s
  proof -
    have p: "p \<noteq> n" using that X(1) by auto
    then have "ancestor h p (GetSkipHeight (bi_nHeight (h p))) = Some s" using ok(2) that by (simp add: skip_ok_def)
    then show ?thesis using p up_extend [of h n p X, OF new p] by (simp add: ancestor_def split: if_splits)
  qed
  ultimately show ?thesis by (simp add: block_tree_def skip_ok_def)
qed

lemma BuildSkip_ok:
  assumes tree: "block_tree h"
  obtains h' where "BuildSkip h p = Inr h'" "block_tree h'"
    "\<And>q. pprev (h' q) = pprev (h q)" "\<And>q. bi_nHeight (h' q) = bi_nHeight (h q)"
    "pprev (h p) \<noteq> None \<Longrightarrow> pskip (h' p) = ancestor h p (GetSkipHeight (bi_nHeight (h p)))"
    "h' = h(p := (h p)\<lparr>pskip := pskip (h' p)\<rparr>)"
proof (cases "pprev (h p)")
  case None
  then show ?thesis using tree that [of h] by (simp add: BuildSkip_def)
next
  case (Some q)
  note ok = block_treeD [OF tree]
  let ?sk = "GetSkipHeight (bi_nHeight (h p))"
  have "0 < bi_nHeight (h p)" using height_prev [OF ok(1) Some] height_nonneg [OF ok(1), of q] by simp
  then have a: "ancestor h q ?sk = ancestor h p ?sk" using ancestor_prev [OF ok(1) Some] GetSkipHeight_bounds by simp
  let ?h = "h(p := (h p)\<lparr>pskip := ancestor h p ?sk\<rparr>)"
  have same: "pprev (?h r) = pprev (h r)" "bi_nHeight (?h r) = bi_nHeight (h r)" for r by auto
  have "skip_ok ?h"
    using ok(2) unfolding skip_ok_def ancestor_cong [OF same] same(2) by simp
  then have "block_tree ?h" using ok(1) unfolding block_tree_def height_ok_cong [OF same] by blast
  moreover have "BuildSkip h p = Inr ?h" using Some by (simp add: BuildSkip_def GetAncestor_eq_ancestor [OF tree] a)
  ultimately show ?thesis using that [of ?h] same by simp
qed

lemma BuildSkip_sets_pskip:
  assumes "block_tree h"
  shows "\<exists>s. BuildSkip h p = Inr (h(p := (h p)\<lparr>pskip := s\<rparr>)) \<and> block_tree (h(p := (h p)\<lparr>pskip := s\<rparr>))"
proof (rule BuildSkip_ok [OF assms, of p])
  fix h'
  assume "BuildSkip h p = Inr h'" "block_tree h'" and eq: "h' = h(p := (h p)\<lparr>pskip := pskip (h' p)\<rparr>)"
  then show ?thesis by (intro exI [of _ "pskip (h' p)"]) (unfold eq [symmetric], blast)
qed

section \<open>The active chain\<close>

definition chain_of :: "block_heap \<Rightarrow> ptr \<Rightarrow> CChain" where
  "chain_of h t = map (\<lambda>i. ancestor h t (int i)) [0..<nat (bi_nHeight (h t) + 1)]"

definition chain_inv :: "block_heap \<Rightarrow> CChain \<Rightarrow> bool" where
  "chain_inv h vChain \<longleftrightarrow> vChain = [] \<or> (\<exists>t. vChain = chain_of h t)"

lemma length_chain_of: "length (chain_of h t) = nat (bi_nHeight (h t) + 1)"
  by (simp add: chain_of_def)

lemma nth_chain_of: "i < nat (bi_nHeight (h t) + 1) \<Longrightarrow> chain_of h t ! i = ancestor h t (int i)"
  by (simp add: chain_of_def)

lemma CChain_at_chain_of: "CChain_at (chain_of h t) k = ancestor h t k"
  by (auto simp: CChain_at_def length_chain_of nth_chain_of ancestor_def)

lemma CChain_Contains_chain_of: "CChain_Contains h (chain_of h t) p \<longleftrightarrow> ancestor h t (bi_nHeight (h p)) = Some p"
  by (simp add: CChain_Contains_def CChain_at_chain_of)

lemma CChain_Height_chain_of: "height_ok h \<Longrightarrow> CChain_Height (chain_of h t) = bi_nHeight (h t)"
  using height_nonneg [of h t] by (simp add: CChain_Height_def length_chain_of)

lemma CChain_Tip_chain_of: "height_ok h \<Longrightarrow> CChain_Tip (chain_of h t) = Some t"
  using height_nonneg [of h t] ancestor_self [of h t]
  by (simp add: CChain_Tip_def length_chain_of nth_chain_of nat_add_distrib)

text \<open>
  \<open>consistent h w n\<close>: a block stored at a position up to \<open>n\<close> stands at its height, above all of its
  ancestors. The vector keeps it under \<open>resize\<close>, and the loop of \<open>SetTip\<close> may therefore stop at the
  first block that is already in place.
\<close>

definition consistent :: "block_heap \<Rightarrow> CChain \<Rightarrow> int \<Rightarrow> bool" where
  "consistent h w n \<longleftrightarrow> (\<forall>i r. int i \<le> n \<longrightarrow> w ! i = Some r \<longrightarrow>
     bi_nHeight (h r) = int i \<and> (\<forall>j\<le>i. w ! j = ancestor h r (int j)))"

lemma consistentD:
  assumes "consistent h w n" "w ! i = Some r" "int i \<le> n"
  shows "bi_nHeight (h r) = int i" "\<And>j. j \<le> i \<Longrightarrow> w ! j = ancestor h r (int j)"
  using assms unfolding consistent_def by blast+

lemma SetTip_loop_ok:
  assumes "height_ok h" "bi_nHeight (h q) < int (length w)" "consistent h w (bi_nHeight (h q))"
  shows "\<exists>w'. SetTip_loop h w (Some q) = Some w' \<and> length w' = length w \<and>
     (\<forall>i<length w. w' ! i = (if int i \<le> bi_nHeight (h q) then ancestor h q (int i) else w ! i))"
  using assms(2,3)
proof (induction "nat (bi_nHeight (h q))" arbitrary: q w rule: less_induct)
  case less
  let ?n = "nat (bi_nHeight (h q))"
  have n: "int ?n = bi_nHeight (h q)" using height_nonneg [OF assms(1)] by simp
  show ?case
  proof (cases "w ! ?n = Some q")
    case True
    then have "w ! j = ancestor h q (int j)" if "int j \<le> bi_nHeight (h q)" for j
      using less.prems(2) n that unfolding consistent_def by (metis of_nat_le_iff order_refl)
    then show ?thesis using True by (subst SetTip_loop.simps) simp
  next
    case False
    let ?w = "w[?n := Some q]"
    show ?thesis
    proof (cases "pprev (h q)")
      case None
      then have "bi_nHeight (h q) = 0" using height_root [OF assms(1)] by simp
      then show ?thesis using None False less.prems ancestor_self [OF assms(1), of q]
        by (subst SetTip_loop.simps) (auto simp: SetTip_loop.simps [of h _ None] nth_list_update)
    next
      case (Some r)
      note hr = height_prev [OF assms(1) Some]
      have c: "consistent h ?w (bi_nHeight (h r))"
        unfolding consistent_def
      proof (intro allI impI)
        fix i s
        assume i: "int i \<le> bi_nHeight (h r)" "?w ! i = Some s"
        have same: "?w ! j = w ! j" if "j \<le> i" for j using that i(1) hr n by simp
        have "w ! i = Some s" "int i \<le> bi_nHeight (h q)" using i same [of i] hr by auto
        from consistentD [OF less.prems(2) this]
        show "bi_nHeight (h s) = int i \<and> (\<forall>j\<le>i. ?w ! j = ancestor h s (int j))" by (simp add: same)
      qed
      from less.hyps [of r ?w] obtain w' where w': "SetTip_loop h ?w (Some r) = Some w'" "length w' = length w"
          "\<And>i. i < length w \<Longrightarrow> w' ! i = (if int i \<le> bi_nHeight (h r) then ancestor h r (int i) else ?w ! i)"
        using c hr less.prems height_nonneg [OF assms(1), of r] by auto
      have "w' ! i = (if int i \<le> bi_nHeight (h q) then ancestor h q (int i) else w ! i)" if "i < length w" for i
        using w'(3) [OF that] hr n that ancestor_prev [OF assms(1) Some, of "int i"] ancestor_self [OF assms(1), of q]
        by (cases "i = ?n") auto
      then show ?thesis using w' False Some by (subst SetTip_loop.simps) auto
    qed
  qed
qed

lemma consistent_resize:
  assumes "height_ok h" "chain_inv h v"
  shows "consistent h (vector_resize n v) (int n - 1)"
proof -
  have c: "consistent h v (int (length v) - 1)"
  proof (cases "v = []")
    case False
    then obtain t where t: "v = chain_of h t" using assms(2) by (auto simp: chain_inv_def)
    show ?thesis unfolding consistent_def t length_chain_of
      using ancestor_height(1) [OF assms(1)] ancestor_trans [OF assms(1)]
      by (auto simp: nth_chain_of)
  qed (simp add: consistent_def)
  have nth: "vector_resize n v ! i = (if i < length v then v ! i else None)" if "i < n" for i
    using that by (auto simp: vector_resize_def nth_append)
  show ?thesis
    using c unfolding consistent_def by (auto simp: nth split: if_splits)
qed

lemma SetTip_chain_of:
  assumes "height_ok h" "chain_inv h v"
  shows "SetTip h v (Some p) = Some (chain_of h p)"
proof -
  let ?n = "nat (bi_nHeight (h p) + 1)"
  have n: "int ?n - 1 = bi_nHeight (h p)" using height_nonneg [OF assms(1), of p] by simp
  have len: "length (vector_resize ?n v) = ?n" by (simp add: vector_resize_def)
  obtain w' where w': "SetTip_loop h (vector_resize ?n v) (Some p) = Some w'" "length w' = ?n"
      "\<And>i. i < ?n \<Longrightarrow> w' ! i = ancestor h p (int i)"
    using SetTip_loop_ok [OF assms(1), of p "vector_resize ?n v"] consistent_resize [OF assms, of ?n] n len by auto
  have "w' = chain_of h p" by (rule nth_equalityI) (use w' in \<open>auto simp: length_chain_of nth_chain_of\<close>)
  then show ?thesis using w'(1) by (simp add: SetTip_def)
qed

section \<open>Forks\<close>

definition common :: "block_heap \<Rightarrow> ptr \<Rightarrow> ptr \<Rightarrow> ptr \<Rightarrow> bool" where
  "common h a b q \<longleftrightarrow> ancestor h a (bi_nHeight (h q)) = Some q \<and> ancestor h b (bi_nHeight (h q)) = Some q"

definition last_common :: "block_heap \<Rightarrow> ptr \<Rightarrow> ptr \<Rightarrow> ptr option \<Rightarrow> bool" where
  "last_common h a b r =
     (case r of None \<Rightarrow> (\<forall>q. \<not> common h a b q)
      | Some q \<Rightarrow> common h a b q \<and> (\<forall>q'. common h a b q' \<longrightarrow> bi_nHeight (h q') \<le> bi_nHeight (h q)))"

lemma last_common_cong: "(\<And>q. common h a b q = common h a' b' q) \<Longrightarrow> last_common h a b r = last_common h a' b' r"
  by (simp add: last_common_def cong: option.case_cong)

lemma common_commute: "common h a b q = common h b a q"
  by (auto simp: common_def)

lemma common_height: "height_ok h \<Longrightarrow> common h a b q \<Longrightarrow> bi_nHeight (h q) \<le> bi_nHeight (h a) \<and> bi_nHeight (h q) \<le> bi_nHeight (h b)"
  by (auto simp: common_def dest: ancestor_height)

lemma common_ancestor:
  assumes "height_ok h" "ancestor h a (bi_nHeight (h b)) = Some a'"
  shows "common h a' b q = common h a b q"
proof (cases "bi_nHeight (h q) \<le> bi_nHeight (h b)")
  case True
  then show ?thesis using ancestor_trans [OF assms True] by (simp add: common_def)
next
  case False
  then show ?thesis using common_height [OF assms(1)] by blast
qed

lemma last_common_unique:
  assumes "height_ok h" "last_common h a b r" "last_common h a b r'"
  shows "r = r'"
proof -
  have "q = q'" if "common h a b q" "common h a b q'" "bi_nHeight (h q) = bi_nHeight (h q')" for q q'
    using that by (auto simp: common_def)
  then show ?thesis using assms(2,3) by (auto simp: last_common_def order_antisym split: option.splits)
qed

lemma last_common_self: "height_ok h \<Longrightarrow> ancestor h b (bi_nHeight (h a)) = Some a \<Longrightarrow> last_common h a b (Some a)"
  by (auto simp: last_common_def common_def ancestor_self dest: common_height [unfolded common_def])

lemma common_same_height:
  assumes "height_ok h" "common h a b q" "bi_nHeight (h q) = bi_nHeight (h a)"
  shows "ancestor h b (bi_nHeight (h a)) = Some a"
proof -
  have "q = a" using assms ancestor_self [OF assms(1), of a] by (simp add: common_def)
  then show ?thesis using assms(2) by (simp add: common_def)
qed

lemma common_prev:
  assumes "height_ok h" "pprev (h a) = Some a'" "ancestor h b (bi_nHeight (h a)) \<noteq> Some a"
  shows "common h a' b q = common h a b q"
proof (cases "bi_nHeight (h q) < bi_nHeight (h a)")
  case True
  then show ?thesis using ancestor_prev [OF assms(1,2) True] by (simp add: common_def)
next
  case False
  then have "\<not> common h a' b q" using common_height [OF assms(1), of a' b q] height_prev [OF assms(1,2)] by auto
  moreover have "\<not> common h a b q"
  proof
    assume c: "common h a b q"
    have "bi_nHeight (h q) = bi_nHeight (h a)" using common_height [OF assms(1) c] False by simp
    from common_same_height [OF assms(1) c this] show False using assms(3) by simp
  qed
  ultimately show ?thesis by simp
qed

lemma last_common_root:
  assumes "height_ok h" "pprev (h a) = None" "ancestor h b (bi_nHeight (h a)) \<noteq> Some a"
  shows "last_common h a b None"
proof -
  have "\<not> common h a b q" for q
  proof
    assume c: "common h a b q"
    then have "bi_nHeight (h q) = bi_nHeight (h a)"
      using common_height [OF assms(1)] height_root [OF assms(1,2)] height_nonneg [OF assms(1), of q] by fastforce
    from common_same_height [OF assms(1) c this] show False using assms(3) by simp
  qed
  then show ?thesis by (simp add: last_common_def)
qed

lemma FindFork_loop_ok:
  assumes "height_ok h"
  shows "\<exists>r. FindFork_loop h (chain_of h t) (Some p) = Some r \<and> last_common h p t r"
proof (induction "nat (bi_nHeight (h p))" arbitrary: p rule: less_induct)
  case less
  show ?case
  proof (cases "ancestor h t (bi_nHeight (h p)) = Some p")
    case True
    then show ?thesis using last_common_self [OF assms True]
      by (subst FindFork_loop.simps) (simp add: CChain_Contains_chain_of)
  next
    case no: False
    show ?thesis
    proof (cases "pprev (h p)")
      case None
      then show ?thesis using last_common_root [OF assms None no] no
        by (subst FindFork_loop.simps) (simp add: CChain_Contains_chain_of FindFork_loop.simps [of h _ None])
    next
      case (Some q)
      have "nat (bi_nHeight (h q)) < nat (bi_nHeight (h p))"
        using height_prev [OF assms Some] height_nonneg [OF assms, of q] by simp
      from less [OF this] last_common_cong [OF common_prev [OF assms Some no]] show ?thesis using Some no
        by (subst FindFork_loop.simps) (simp add: CChain_Contains_chain_of)
    qed
  qed
qed

lemma LastCommonAncestor_loop_ok:
  assumes "height_ok h" "bi_nHeight (h a) = bi_nHeight (h b)"
  shows "\<exists>r. LastCommonAncestor_loop h (Some a) (Some b) = Some (r, r) \<and> last_common h a b r"
  using assms(2)
proof (induction "nat (bi_nHeight (h a))" arbitrary: a b rule: less_induct)
  case less
  show ?case
  proof (cases "a = b")
    case True
    then show ?thesis using last_common_self [OF assms(1), of b a] ancestor_self [OF assms(1), of b]
      by (subst LastCommonAncestor_loop.simps) simp
  next
    case neq: False
    have no: "ancestor h b (bi_nHeight (h a)) \<noteq> Some a" using neq less.prems ancestor_self [OF assms(1), of b] by simp
    show ?thesis
    proof (cases "pprev (h a)")
      case None
      have "pprev (h b) \<noteq> Some q" for q
        using less.prems height_root [OF assms(1) None] height_prev [OF assms(1), of b q] height_nonneg [OF assms(1), of q] by auto
      then have "pprev (h b) = None" by auto
      then show ?thesis using None neq last_common_root [OF assms(1) None no]
        by (subst LastCommonAncestor_loop.simps) (simp add: LastCommonAncestor_loop.simps [of h None])
    next
      case (Some a')
      note ha = height_prev [OF assms(1) Some] height_nonneg [OF assms(1), of a']
      then obtain b' where b': "pprev (h b) = Some b'" using has_prev [OF assms(1), of b] less.prems by auto
      note hb = height_prev [OF assms(1) b']
      have no': "ancestor h a' (bi_nHeight (h b)) \<noteq> Some b" using ha less.prems by (simp add: ancestor_def)
      have "common h a' b' q = common h a b q" for q
        using common_prev [OF assms(1) b' no', of q] common_prev [OF assms(1) Some no, of q] by (simp add: common_commute)
      moreover obtain r where "LastCommonAncestor_loop h (Some a') (Some b') = Some (r, r)" "last_common h a' b' r"
        using less.hyps [of a' b'] ha hb less.prems by auto
      ultimately show ?thesis using Some b' neq last_common_cong [of h a' b' a b r]
        by (subst LastCommonAncestor_loop.simps) simp
    qed
  qed
qed

lemma FindFork_last_common:
  assumes tree: "block_tree h"
  shows "\<exists>r. FindFork h (chain_of h t) (Some p) = Some (Inr r) \<and> last_common h p t r"
proof -
  note ok = block_treeD(1) [OF tree]
  show ?thesis
  proof (cases "bi_nHeight (h p) > bi_nHeight (h t)")
    case True
    then obtain a where a: "ancestor h p (bi_nHeight (h t)) = Some a"
      using ancestor_exists [OF ok height_nonneg [OF ok], of t p] by auto
    then show ?thesis using FindFork_loop_ok [OF ok, of t a] last_common_cong [OF common_ancestor [OF ok a]] True
      by (auto simp: FindFork_def CChain_Height_chain_of [OF ok] GetAncestor_eq_ancestor [OF tree])
  next
    case False
    then show ?thesis using FindFork_loop_ok [OF ok, of t p] by (auto simp: FindFork_def CChain_Height_chain_of [OF ok])
  qed
qed

lemma LastCommonAncestor_last_common:
  assumes tree: "block_tree h"
  shows "\<exists>r. LastCommonAncestor h a b = Some (Inr r) \<and> last_common h a b r"
proof -
  note ok = block_treeD(1) [OF tree]
  consider (above) "bi_nHeight (h a) > bi_nHeight (h b)" | (below) "bi_nHeight (h b) > bi_nHeight (h a)"
    | (same) "bi_nHeight (h a) = bi_nHeight (h b)" by linarith
  then show ?thesis
  proof cases
    case above
    then obtain a' where a': "ancestor h a (bi_nHeight (h b)) = Some a'"
      using ancestor_exists [OF ok height_nonneg [OF ok], of b a] by auto
    then show ?thesis
      using LastCommonAncestor_loop_ok [OF ok, of a' b] ancestor_height(1) [OF ok a'] above
        last_common_cong [OF common_ancestor [OF ok a']]
      by (auto simp: LastCommonAncestor_def GetAncestor_eq_ancestor [OF tree])
  next
    case below
    then obtain b' where b': "ancestor h b (bi_nHeight (h a)) = Some b'"
      using ancestor_exists [OF ok height_nonneg [OF ok], of a b] by auto
    have "common h a b' q = common h a b q" for q using common_ancestor [OF ok b'] by (simp add: common_commute)
    then show ?thesis
      using LastCommonAncestor_loop_ok [OF ok, of a b'] ancestor_height(1) [OF ok b'] below b' last_common_cong [of h a b' a b]
      by (auto simp: LastCommonAncestor_def GetAncestor_eq_ancestor [OF tree])
  next
    case same
    then show ?thesis using LastCommonAncestor_loop_ok [OF ok same] by (auto simp: LastCommonAncestor_def)
  qed
qed

section \<open>Locators and searches\<close>

lemma Contains_at:
  assumes "height_ok h" "chain_inv h v" "CChain_Contains h v p" "k \<le> bi_nHeight (h p)"
  shows "CChain_at v k = ancestor h p k"
proof (cases "v = []")
  case True
  then show ?thesis using assms(3) height_nonneg [OF assms(1), of p] by (simp add: CChain_Contains_def CChain_at_def)
next
  case False
  then obtain t where "v = chain_of h t" using assms(2) by (auto simp: chain_inv_def)
  then show ?thesis using assms(3) ancestor_trans [OF assms(1) _ assms(4), of t]
    by (simp add: CChain_Contains_chain_of CChain_at_chain_of)
qed

definition locator_of :: "block_heap \<Rightarrow> ptr \<Rightarrow> ptr list \<Rightarrow> bool" where
  "locator_of h p ps \<longleftrightarrow> ps \<noteq> [] \<and> hd ps = p \<and> bi_nHeight (h (last ps)) = 0 \<and>
     (\<forall>q\<in>set ps. ancestor h p (bi_nHeight (h q)) = Some q) \<and>
     sorted_wrt (\<lambda>a b. bi_nHeight (h b) < bi_nHeight (h a)) ps"

lemma locator_of_Cons:
  assumes "height_ok h" "locator_of h q ps" "ancestor h p k = Some q" "k < bi_nHeight (h p)"
  shows "locator_of h p (p # ps)"
proof -
  note q = ancestor_height(1) [OF assms(1,3)]
  have up: "bi_nHeight (h r) \<le> k \<and> ancestor h p (bi_nHeight (h r)) = Some r" if "r \<in> set ps" for r
  proof -
    have r: "ancestor h q (bi_nHeight (h r)) = Some r" using assms(2) that by (auto simp: locator_of_def)
    then show ?thesis using ancestor_height(3) [OF assms(1) r] q ancestor_trans [OF assms(1,3)] by simp
  qed
  then show ?thesis using assms(2,4) ancestor_self [OF assms(1), of p] by (fastforce simp: locator_of_def)
qed

lemma GetLocator_loop_ok:
  assumes tree: "block_tree h" and inv: "chain_inv h v" and "1 \<le> nStep"
  shows "\<exists>ps. GetLocator_loop h v (Some p) nStep vHave = Some (Inr (vHave @ map (\<lambda>q. bi_hash (h q)) ps)) \<and> locator_of h p ps"
  using assms(3)
proof (induction "nat (bi_nHeight (h p))" arbitrary: p nStep vHave rule: less_induct)
  case less
  note ok = block_treeD(1) [OF tree]
  show ?case
  proof (cases "bi_nHeight (h p) = 0")
    case True
    then show ?thesis using ancestor_self [OF ok, of p]
      by (subst GetLocator_loop.simps) (auto intro!: exI [of _ "[p]"] simp: locator_of_def)
  next
    case False
    let ?k = "max (bi_nHeight (h p) - nStep) 0"
    let ?V = "vHave @ [bi_hash (h p)]"
    let ?s = "if length ?V > 10 then nStep * 2 else nStep"
    have k: "0 \<le> ?k" "?k < bi_nHeight (h p)" using False less.prems height_nonneg [OF ok, of p] by auto
    obtain q where q: "ancestor h p ?k = Some q" using ancestor_exists [OF ok k(1), of p] k(2) by (meson less_imp_le)
    have "nat (bi_nHeight (h q)) < nat (bi_nHeight (h p))" "1 \<le> ?s"
      using ancestor_height(1) [OF ok q] k less.prems by auto
    from less.hyps [OF this, of ?V] obtain ps where
      ps: "GetLocator_loop h v (Some q) ?s ?V = Some (Inr (?V @ map (\<lambda>q. bi_hash (h q)) ps))" "locator_of h q ps"
      by blast
    have next': "(if CChain_Contains h v p then GetLocator_loop h v (CChain_at v ?k) ?s ?V
        else (case GetAncestor h p ?k of Inl e \<Rightarrow> Some (Inl e) | Inr q \<Rightarrow> GetLocator_loop h v q ?s ?V))
       = GetLocator_loop h v (Some q) ?s ?V"
      using Contains_at [OF ok inv, of p ?k] k q by (simp add: GetAncestor_eq_ancestor [OF tree])
    have "GetLocator_loop h v (Some p) nStep vHave = GetLocator_loop h v (Some q) ?s ?V"
      unfolding next' [symmetric] using False by (subst GetLocator_loop.simps) (simp only: option.case Let_def if_False)
    with ps locator_of_Cons [OF ok ps(2) q k(2)] show ?thesis by (intro exI [of _ "p # ps"]) simp
  qed
qed

lemma lower_bound_loop_ok:
  assumes "first + count \<le> length xs" "\<And>i j. i \<le> j \<Longrightarrow> j < length xs \<Longrightarrow> before (xs ! j) \<Longrightarrow> before (xs ! i)"
    "\<And>i. i < first \<Longrightarrow> before (xs ! i)" "\<And>i. first + count \<le> i \<Longrightarrow> i < length xs \<Longrightarrow> \<not> before (xs ! i)"
  shows "lower_bound_loop before xs first count \<le> length xs
    \<and> (\<forall>i<lower_bound_loop before xs first count. before (xs ! i))
    \<and> (\<forall>i. lower_bound_loop before xs first count \<le> i \<longrightarrow> i < length xs \<longrightarrow> \<not> before (xs ! i))"
  using assms(1,3,4)
proof (induction count arbitrary: first rule: less_induct)
  case (less count)
  show ?case
  proof (cases "count = 0")
    case True
    then show ?thesis using less.prems by (subst (1 2 3) lower_bound_loop.simps) simp
  next
    case False
    define s where "s = count div 2"
    have s: "s < count" using False by (simp add: s_def)
    have lt: "first + s < length xs" using s less.prems(1) by simp
    show ?thesis
    proof (cases "before (xs ! (first + s))")
      case True
      have "\<And>i. i < first + s + 1 \<Longrightarrow> before (xs ! i)" using assms(2) [OF _ lt True] by simp
      with less.IH [of "count - (s + 1)" "first + s + 1"] less.prems s
      show ?thesis using True False by (subst (1 2 3) lower_bound_loop.simps) (simp add: s_def [symmetric] Let_def)
    next
      case no: False
      have "\<not> before (xs ! i)" if "first + s \<le> i" "i < length xs" for i using assms(2) [OF that] no by blast
      with less.IH [of s first] less.prems s
      show ?thesis using no False by (subst (1 2 3) lower_bound_loop.simps) (simp add: s_def [symmetric] Let_def)
    qed
  qed
qed

text \<open>\<^verbatim>\<open>nTimeMax\<close> is the maximum over the ancestors, so it grows along a chain.\<close>

definition time_max_ok :: "block_heap \<Rightarrow> bool" where
  "time_max_ok h \<longleftrightarrow> (\<forall>p q. pprev (h p) = Some q \<longrightarrow> bi_nTimeMax (h q) \<le> bi_nTimeMax (h p))"

lemma up_time_max: "time_max_ok h \<Longrightarrow> up h n p = Some q \<Longrightarrow> bi_nTimeMax (h q) \<le> bi_nTimeMax (h p)"
  by (induction n arbitrary: p) (auto simp: time_max_ok_def split: option.splits intro: order_trans)

lemma ancestor_time_max: "time_max_ok h \<Longrightarrow> ancestor h p k = Some q \<Longrightarrow> bi_nTimeMax (h q) \<le> bi_nTimeMax (h p)"
  by (auto simp: ancestor_def up_time_max split: if_splits)

lemma FindEarliestAtLeast_ok:
  assumes ok: "height_ok h" and tm: "time_max_ok h"
  shows "case FindEarliestAtLeast h (chain_of h t) time of
      None \<Rightarrow> (\<forall>k q. ancestor h t k = Some q \<longrightarrow> uint (bi_nTimeMax (h q)) < time)
    | Some p \<Rightarrow> ancestor h t (bi_nHeight (h p)) = Some p \<and> time \<le> uint (bi_nTimeMax (h p)) \<and>
        (\<forall>k q. ancestor h t k = Some q \<longrightarrow> k < bi_nHeight (h p) \<longrightarrow> uint (bi_nTimeMax (h q)) < time)"
proof -
  let ?v = "chain_of h t"
  let ?before = "\<lambda>b. uint (bi_nTimeMax (h (the b))) < time"
  let ?l = "lower_bound_loop ?before ?v 0 (length ?v)"
  have at: "\<exists>q. ?v ! i = Some q \<and> ancestor h t (int i) = Some q \<and> bi_nHeight (h q) = int i" if "i < length ?v" for i
  proof -
    have "0 \<le> int i" "int i \<le> bi_nHeight (h t)" using that by (auto simp: length_chain_of)
    then obtain q where "ancestor h t (int i) = Some q" using ancestor_exists [OF ok] by blast
    then show ?thesis using that ancestor_height(1) [OF ok] by (simp add: nth_chain_of length_chain_of)
  qed
  have mono: "?before (?v ! i)" if ij: "i \<le> j" "j < length ?v" "?before (?v ! j)" for i j
  proof -
    obtain q r where q: "?v ! i = Some q" "ancestor h t (int i) = Some q" and r: "?v ! j = Some r" "ancestor h t (int j) = Some r"
      using at [of i] at [of j] ij by auto
    have "ancestor h r (int i) = Some q" using ancestor_trans [OF ok r(2), of "int i"] ij(1) q(2) by simp
    from ancestor_time_max [OF tm this] show ?thesis using ij(3) q r by (simp add: word_le_def)
  qed
  have l: "?l \<le> length ?v \<and> (\<forall>i<?l. ?before (?v ! i)) \<and> (\<forall>i. ?l \<le> i \<longrightarrow> i < length ?v \<longrightarrow> \<not> ?before (?v ! i))"
    by (rule lower_bound_loop_ok) (use mono in auto)
  have below: "uint (bi_nTimeMax (h q)) < time" if "ancestor h t k = Some q" "k < int ?l" for k q
  proof -
    note k = ancestor_height [OF ok that(1)]
    have "?v ! nat k = Some q" using k that by (simp add: nth_chain_of)
    moreover have "nat k < ?l" using k that(2) by simp
    ultimately show ?thesis using l by fastforce
  qed
  show ?thesis
  proof (cases "?l = length ?v")
    case True
    have "uint (bi_nTimeMax (h q)) < time" if "ancestor h t k = Some q" for k q
      using below [OF that] ancestor_height [OF ok that] True by (simp add: length_chain_of)
    then show ?thesis using True by (simp add: FindEarliestAtLeast_def)
  next
    case False
    then have lt: "?l < length ?v" using l by linarith
    from at [OF this] obtain p where p: "?v ! ?l = Some p" "ancestor h t (int ?l) = Some p" "bi_nHeight (h p) = int ?l" by blast
    have "\<not> ?before (?v ! ?l)" using l lt by blast
    then have "time \<le> uint (bi_nTimeMax (h p))" by (simp add: p(1))
    then show ?thesis using False p below by (simp add: FindEarliestAtLeast_def)
  qed
qed

section \<open>Properties\<close>

text \<open>A store that holds one block per height, with its skip pointers, for the examples.\<close>

definition line_heap :: block_heap where
  "line_heap p = CBlockIndex_null
     \<lparr> pprev := (if p = 0 then None else Some (p - 1)),
       pskip := (if p = 0 then None else Some (nat (GetSkipHeight (int p)))),
       bi_nHeight := int p, bi_hash := word_of_nat p, bi_nBits := 0x1e0ffff0, bi_nTimeMax := 7 \<rparr>"

lemma line_heap_simps [simp]:
  "bi_nHeight (line_heap p) = int p" "pprev (line_heap p) = (if p = 0 then None else Some (p - 1))"
  "pskip (line_heap p) = (if p = 0 then None else Some (nat (GetSkipHeight (int p))))"
  "bi_hash (line_heap p) = word_of_nat p" "bi_nTimeMax (line_heap p) = 7"
  by (simp_all add: line_heap_def CBlockIndex_null_def)

lemma up_line_heap: "n \<le> p \<Longrightarrow> up line_heap n p = Some (p - n)"
  by (induction n arbitrary: p) auto

lemma ancestor_line_heap: "ancestor line_heap p k = (if 0 \<le> k \<and> k \<le> int p then Some (nat k) else None)"
  by (auto simp: ancestor_def up_line_heap nat_diff_distrib)

lemma line_heap_tree: "block_tree line_heap"
proof -
  have "height_ok line_heap" by (auto simp: height_ok_def)
  moreover have "ancestor line_heap p (GetSkipHeight (int p)) = Some (nat (GetSkipHeight (int p)))" if "p \<noteq> 0" for p
    using GetSkipHeight_bounds [of "int p"] that by (simp add: ancestor_line_heap)
  ultimately show ?thesis by (simp add: block_tree_def skip_ok_def)
qed

text \<open>
  (C13) \<open>CBlockIndex::GetAncestor\<close> (\<^verbatim>\<open>chain.cpp\<close>): in a block tree whose heights and skip pointers are
  right, the skip-list walk ends, never runs into its assertion, and returns the block that
  following \<^verbatim>\<open>pprev\<close> one block at a time reaches; it returns null exactly outside the heights from 0
  to the block's own.
\<close>

theorem GetAncestor_correct:
  assumes "block_tree h"
  shows "GetAncestor h p height =
    Inr (if height < 0 \<or> height > bi_nHeight (h p) then None else up h (nat (bi_nHeight (h p) - height)) p) \<and>
    (GetAncestor h p height = Inr None \<longleftrightarrow> height < 0 \<or> height > bi_nHeight (h p))"
proof
  show "GetAncestor h p height =
    Inr (if height < 0 \<or> height > bi_nHeight (h p) then None else up h (nat (bi_nHeight (h p) - height)) p)"
    using GetAncestor_eq_ancestor [OF assms] by (simp add: ancestor_def)
  show "GetAncestor h p height = Inr None \<longleftrightarrow> height < 0 \<or> height > bi_nHeight (h p)"
    using GetAncestor_eq_ancestor [OF assms] ancestor_exists [OF block_treeD(1) [OF assms], of height p]
    by (fastforce simp: ancestor_def)
qed

theorem GetAncestor_correct_witness: "GetAncestor line_heap 1000 3 = Inr (Some 3)"
  using GetAncestor_correct [OF line_heap_tree, of 1000 3] by (simp add: up_line_heap)

text \<open>
  (C14) \<open>CBlockIndex::BuildSkip\<close> and \<open>CChain::SetTip\<close> (\<^verbatim>\<open>chain.cpp\<close>): building the skip pointer of a block
  keeps the invariant of the block tree; and, from any earlier active chain, \<open>SetTip\<close> ends and leaves
  exactly the chain of ancestors of the new tip: \<open>chain[k]\<close> is the ancestor at height \<open>k\<close>, the tip and the
  height are those of the new block, and \<open>Contains\<close> holds of the ancestors of the tip only.
\<close>

theorem SetTip_active_chain:
  assumes "block_tree h" "chain_inv h vChain"
  shows "\<exists>h' vChain'. BuildSkip h p = Inr h' \<and> block_tree h' \<and> SetTip h vChain (Some p) = Some vChain' \<and>
    chain_inv h vChain' \<and> CChain_Tip vChain' = Some p \<and> CChain_Height vChain' = bi_nHeight (h p) \<and>
    (\<forall>k. CChain_at vChain' k = ancestor h p k) \<and>
    (\<forall>q. CChain_Contains h vChain' q \<longleftrightarrow> (\<exists>n. up h n p = Some q))"
proof -
  note ok = block_treeD(1) [OF assms(1)]
  obtain h' where h': "BuildSkip h p = Inr h'" "block_tree h'" by (rule BuildSkip_ok [OF assms(1), of p])
  have "CChain_Contains h (chain_of h p) q \<longleftrightarrow> (\<exists>n. up h n p = Some q)" for q
    using up_height [OF ok, of _ p q] height_nonneg [OF ok, of q]
    by (auto simp: CChain_Contains_chain_of ancestor_def split: if_splits)
  with h' show ?thesis
    by (intro exI [of _ h'] exI [of _ "chain_of h p"])
      (auto simp: SetTip_chain_of [OF ok assms(2)] chain_inv_def CChain_Tip_chain_of [OF ok] CChain_Height_chain_of [OF ok]
        CChain_at_chain_of)
qed

theorem SetTip_active_chain_witness:
  "\<exists>v. SetTip line_heap [] (Some 5) = Some v \<and> CChain_Height v = 5 \<and> CChain_at v 2 = Some 2"
  using SetTip_active_chain [OF line_heap_tree, of "[]" 5] by (auto simp: chain_inv_def ancestor_line_heap)

text \<open>
  \<open>CChain::FindFork\<close> and \<open>LastCommonAncestor\<close> (\<^verbatim>\<open>chain.cpp\<close>, \<^verbatim>\<open>net_processing.cpp\<close>): both end without
  running into an assertion and return the same block, the highest one that is an ancestor of both the given
  block and the tip of the active chain (null when there is none).
\<close>

theorem FindFork_LastCommonAncestor:
  assumes "block_tree h"
  shows "\<exists>r. FindFork h (chain_of h t) (Some p) = Some (Inr r) \<and> LastCommonAncestor h p t = Some (Inr r) \<and> last_common h p t r"
  using FindFork_last_common [OF assms, of t p] LastCommonAncestor_last_common [OF assms, of p t]
    last_common_unique [OF block_treeD(1) [OF assms]] by blast

theorem FindFork_LastCommonAncestor_witness:
  "\<exists>r. FindFork line_heap (chain_of line_heap 9) (Some 6) = Some (Inr r) \<and> LastCommonAncestor line_heap 6 9 = Some (Inr r)"
  using FindFork_LastCommonAncestor [OF line_heap_tree] by blast

text \<open>
  \<open>CChain::GetLocator\<close> and \<open>CChain::FindEarliestAtLeast\<close> (\<^verbatim>\<open>chain.cpp\<close>): the locator of a block ends, and
  is the list of the hashes of the block itself and of ancestors of it at strictly decreasing
  heights, the last of them at height 0; and, as the maximal time grows along the chain, the binary
  search returns the first block of the active chain whose maximal time is at least the given one.
\<close>

theorem GetLocator_FindEarliestAtLeast:
  assumes "block_tree h" "chain_inv h vChain" "time_max_ok h"
  shows "(\<exists>ps. GetLocator h vChain (Some p) = Some (Inr (map (\<lambda>q. bi_hash (h q)) ps)) \<and> locator_of h p ps) \<and>
    (case FindEarliestAtLeast h (chain_of h t) time of
      None \<Rightarrow> (\<forall>k q. ancestor h t k = Some q \<longrightarrow> uint (bi_nTimeMax (h q)) < time)
    | Some p \<Rightarrow> ancestor h t (bi_nHeight (h p)) = Some p \<and> time \<le> uint (bi_nTimeMax (h p)) \<and>
        (\<forall>k q. ancestor h t k = Some q \<longrightarrow> k < bi_nHeight (h p) \<longrightarrow> uint (bi_nTimeMax (h q)) < time))"
  using GetLocator_loop_ok [OF assms(1,2), of 1 p "[]"] FindEarliestAtLeast_ok [OF block_treeD(1) [OF assms(1)] assms(3)]
  by (auto simp: GetLocator_def)

theorem GetLocator_FindEarliestAtLeast_witness:
  "\<exists>ps. GetLocator line_heap (chain_of line_heap 40) (Some 40) = Some (Inr (map (\<lambda>q. bi_hash (line_heap q)) ps))"
  using GetLocator_FindEarliestAtLeast [OF line_heap_tree, of "chain_of line_heap 40" 40]
  by (auto simp: chain_inv_def time_max_ok_def)

end
