(* ===== verification/VersionBits.thy ===== *)
theory VersionBits
  imports Pow Chain_Props
begin

unbundle bit_operations_syntax

text \<open>
  Version bits deployments (\<^verbatim>\<open>versionbits.h\<close>, \<^verbatim>\<open>versionbits.cpp\<close>). The abstract class with its virtual functions is
  a record of functions; the cache is a map from the parent block (or null) to a state. A loop that
  need not end on an arbitrary store returns an option, and following a null pointer is the error
  \<open>NullPointer\<close>.
\<close>

section \<open>States and checkers\<close>

datatype ThresholdState = THRESHOLD_DEFINED | THRESHOLD_STARTED | THRESHOLD_LOCKED_IN | THRESHOLD_ACTIVE | THRESHOLD_FAILED

type_synonym ThresholdConditionCache = "ptr option \<rightharpoonup> ThresholdState"

record AbstractThresholdConditionChecker =
  Condition :: "block_heap \<Rightarrow> ptr \<Rightarrow> bool"
  BeginTime :: int
  EndTime :: int
  Period :: int
  Threshold :: int

definition VERSIONBITS_TOP_BITS :: u32 where "VERSIONBITS_TOP_BITS = 0x20000000"
definition VERSIONBITS_TOP_MASK :: u32 where "VERSIONBITS_TOP_MASK = 0xE0000000"

definition VersionBitsMask :: "Params \<Rightarrow> DeploymentPos \<Rightarrow> u32" where
  "VersionBitsMask params pos = push_bit (vb_bit (vDeployments params pos)) 1"

definition VersionBitsConditionChecker :: "Params \<Rightarrow> DeploymentPos \<Rightarrow> AbstractThresholdConditionChecker" where
  "VersionBitsConditionChecker params pos =
     \<lparr> Condition = (\<lambda>h p. bi_nVersion (h p) AND VERSIONBITS_TOP_MASK = VERSIONBITS_TOP_BITS \<and>
                          bi_nVersion (h p) AND VersionBitsMask params pos \<noteq> 0),
       BeginTime = nStartTime (vDeployments params pos),
       EndTime = nTimeout (vDeployments params pos),
       Period = (if nWindowSize (vDeployments params pos) \<noteq> 0 then nWindowSize (vDeployments params pos)
                 else nMinerConfirmationWindow params),
       Threshold = (if nThreshold (vDeployments params pos) \<noteq> 0 then nThreshold (vDeployments params pos)
                    else nRuleChangeActivationThreshold params) \<rparr>"

section \<open>The state of a period\<close>

definition period_parent :: "block_heap \<Rightarrow> AbstractThresholdConditionChecker \<Rightarrow> ptr option \<Rightarrow> chain_error + ptr option" where
  "period_parent h chk pindexPrev =
     (case pindexPrev of
        None \<Rightarrow> Inr None
      | Some p \<Rightarrow> GetAncestor h p (bi_nHeight (h p) - ((bi_nHeight (h p) + 1) mod Period chk)))"

text \<open>The first loop, towards a block whose state is known; \<open>vToCompute\<close> is the vector, last element first.\<close>

partial_function (option) walk_to_known ::
    "block_heap \<Rightarrow> AbstractThresholdConditionChecker \<Rightarrow> ptr option \<times> ThresholdConditionCache \<times> ptr list
      \<Rightarrow> (chain_error + ptr option \<times> ThresholdConditionCache \<times> ptr list) option" where
  "walk_to_known h chk st =
     (let (pindexPrev, cache, vToCompute) = st in
      if cache pindexPrev \<noteq> None then Some (Inr (pindexPrev, cache, vToCompute))
      else if pindexPrev = None \<or> GetMedianTimePast h (the pindexPrev) < BeginTime chk
      then Some (Inr (pindexPrev, cache(pindexPrev \<mapsto> THRESHOLD_DEFINED), vToCompute))
      else let p = the pindexPrev; next' = GetAncestor h p (bi_nHeight (h p) - Period chk)
           in if isl next' then Some (Inl (projl next'))
              else walk_to_known h chk (projr next', cache, p # vToCompute))"

declare walk_to_known.simps [code]

fun count_condition :: "nat \<Rightarrow> block_heap \<Rightarrow> AbstractThresholdConditionChecker \<Rightarrow> ptr option \<Rightarrow> nat \<Rightarrow> chain_error + nat" where
  "count_condition 0 h chk pindexCount count = Inr count"
| "count_condition (Suc n) h chk None count = Inl NullPointer"
| "count_condition (Suc n) h chk (Some p) count =
     count_condition n h chk (pprev (h p)) (if Condition chk h p then count + 1 else count)"

definition next_state :: "block_heap \<Rightarrow> AbstractThresholdConditionChecker \<Rightarrow> ptr \<Rightarrow> ThresholdState \<Rightarrow> chain_error + ThresholdState" where
  "next_state h chk p state =
     (case state of
        THRESHOLD_DEFINED \<Rightarrow>
          Inr (if GetMedianTimePast h p \<ge> EndTime chk then THRESHOLD_FAILED
               else if GetMedianTimePast h p \<ge> BeginTime chk then THRESHOLD_STARTED
               else THRESHOLD_DEFINED)
      | THRESHOLD_STARTED \<Rightarrow>
          if GetMedianTimePast h p \<ge> EndTime chk then Inr THRESHOLD_FAILED
          else (case count_condition (nat (Period chk)) h chk (Some p) 0 of
                  Inl e \<Rightarrow> Inl e
                | Inr count \<Rightarrow> Inr (if int count \<ge> Threshold chk then THRESHOLD_LOCKED_IN else THRESHOLD_STARTED))
      | THRESHOLD_LOCKED_IN \<Rightarrow> Inr THRESHOLD_ACTIVE
      | THRESHOLD_FAILED \<Rightarrow> Inr THRESHOLD_FAILED
      | THRESHOLD_ACTIVE \<Rightarrow> Inr THRESHOLD_ACTIVE)"

fun compute_states ::
    "block_heap \<Rightarrow> AbstractThresholdConditionChecker \<Rightarrow> ptr list \<Rightarrow> ThresholdState \<Rightarrow> ThresholdConditionCache
      \<Rightarrow> chain_error + ThresholdState \<times> ThresholdConditionCache" where
  "compute_states h chk [] state cache = Inr (state, cache)"
| "compute_states h chk (p # ps) state cache =
     (case next_state h chk p state of
        Inl e \<Rightarrow> Inl e
      | Inr stateNext \<Rightarrow> compute_states h chk ps stateNext (cache(Some p \<mapsto> stateNext)))"

definition GetStateFor ::
    "block_heap \<Rightarrow> AbstractThresholdConditionChecker \<Rightarrow> ptr option \<Rightarrow> ThresholdConditionCache
      \<Rightarrow> (chain_error + ThresholdState \<times> ThresholdConditionCache) option" where
  "GetStateFor h chk pindexPrev cache =
     (case period_parent h chk pindexPrev of
        Inl e \<Rightarrow> Some (Inl e)
      | Inr pindexPrev \<Rightarrow>
          (case walk_to_known h chk (pindexPrev, cache, []) of
             None \<Rightarrow> None
           | Some (Inl e) \<Rightarrow> Some (Inl e)
           | Some (Inr (pindexPrev, cache, vToCompute)) \<Rightarrow>
               (case cache pindexPrev of
                  None \<Rightarrow> Some (Inl AssertFailed)
                | Some state \<Rightarrow> Some (compute_states h chk vToCompute state cache))))"

section \<open>The height since which a state holds, and the count in a window\<close>

text \<open>The first argument bounds the number of turns; every turn goes down by a period.\<close>

fun since_loop ::
    "nat \<Rightarrow> block_heap \<Rightarrow> AbstractThresholdConditionChecker \<Rightarrow> ThresholdState \<Rightarrow> ptr \<Rightarrow> ptr option \<Rightarrow> ThresholdConditionCache
      \<Rightarrow> (chain_error + int \<times> ThresholdConditionCache) option" where
  "since_loop 0 h chk initialState p previousPeriodParent cache = None"
| "since_loop (Suc n) h chk initialState p None cache = Some (Inr (bi_nHeight (h p) + 1, cache))"
| "since_loop (Suc n) h chk initialState p (Some q) cache =
     (case GetStateFor h chk (Some q) cache of
        None \<Rightarrow> None
      | Some (Inl e) \<Rightarrow> Some (Inl e)
      | Some (Inr (state, cache)) \<Rightarrow>
          if state = initialState
          then (case GetAncestor h q (bi_nHeight (h q) - Period chk) of
                  Inl e \<Rightarrow> Some (Inl e)
                | Inr q' \<Rightarrow> since_loop n h chk initialState q q' cache)
          else Some (Inr (bi_nHeight (h p) + 1, cache)))"

definition GetStateSinceHeightFor ::
    "nat \<Rightarrow> block_heap \<Rightarrow> AbstractThresholdConditionChecker \<Rightarrow> ptr option \<Rightarrow> ThresholdConditionCache
      \<Rightarrow> (chain_error + int \<times> ThresholdConditionCache) option" where
  "GetStateSinceHeightFor fuel h chk pindexPrev cache =
     (case GetStateFor h chk pindexPrev cache of
        None \<Rightarrow> None
      | Some (Inl e) \<Rightarrow> Some (Inl e)
      | Some (Inr (initialState, cache)) \<Rightarrow>
          if initialState = THRESHOLD_DEFINED then Some (Inr (0, cache))
          else (case pindexPrev of
                  None \<Rightarrow> Some (Inl NullPointer)
                | Some _ \<Rightarrow>
                    (case period_parent h chk pindexPrev of
                       Inl e \<Rightarrow> Some (Inl e)
                     | Inr None \<Rightarrow> Some (Inl NullPointer)
                     | Inr (Some p) \<Rightarrow>
                         (case GetAncestor h p (bi_nHeight (h p) - Period chk) of
                            Inl e \<Rightarrow> Some (Inl e)
                          | Inr q \<Rightarrow> since_loop fuel h chk initialState p q cache))))"

fun count_window_loop :: "nat \<Rightarrow> block_heap \<Rightarrow> AbstractThresholdConditionChecker \<Rightarrow> int \<Rightarrow> ptr option \<Rightarrow> nat \<Rightarrow> nat option" where
  "count_window_loop 0 h chk nStopHeight pindexCount count = None"
| "count_window_loop (Suc n) h chk nStopHeight None count = Some count"
| "count_window_loop (Suc n) h chk nStopHeight (Some p) count =
     (if bi_nHeight (h p) \<noteq> nStopHeight
      then count_window_loop n h chk nStopHeight (pprev (h p)) (if Condition chk h p then count + 1 else count)
      else Some count)"

definition CountBlocksInWindow :: "nat \<Rightarrow> block_heap \<Rightarrow> AbstractThresholdConditionChecker \<Rightarrow> ptr \<Rightarrow> nat option" where
  "CountBlocksInWindow fuel h chk p =
     count_window_loop fuel h chk (bi_nHeight (h p) - bi_nHeight (h p) mod Period chk - 1) (Some p) 0"

section \<open>Deployments\<close>

type_synonym VersionBitsCache = "DeploymentPos \<Rightarrow> ThresholdConditionCache"

definition VersionBitsState ::
    "block_heap \<Rightarrow> ptr option \<Rightarrow> Params \<Rightarrow> DeploymentPos \<Rightarrow> VersionBitsCache
      \<Rightarrow> (chain_error + ThresholdState \<times> VersionBitsCache) option" where
  "VersionBitsState h pindexPrev params pos cache =
     map_option (map_sum id (\<lambda>(state, c). (state, cache(pos := c))))
       (GetStateFor h (VersionBitsConditionChecker params pos) pindexPrev (cache pos))"

definition VersionBitsStateSinceHeight ::
    "nat \<Rightarrow> block_heap \<Rightarrow> ptr option \<Rightarrow> Params \<Rightarrow> DeploymentPos \<Rightarrow> VersionBitsCache
      \<Rightarrow> (chain_error + int \<times> VersionBitsCache) option" where
  "VersionBitsStateSinceHeight fuel h pindexPrev params pos cache =
     map_option (map_sum id (\<lambda>(height, c). (height, cache(pos := c))))
       (GetStateSinceHeightFor fuel h (VersionBitsConditionChecker params pos) pindexPrev (cache pos))"

definition VersionBitsCountBlocksInWindow :: "nat \<Rightarrow> block_heap \<Rightarrow> ptr \<Rightarrow> Params \<Rightarrow> DeploymentPos \<Rightarrow> nat option" where
  "VersionBitsCountBlocksInWindow fuel h p params pos =
     CountBlocksInWindow fuel h (VersionBitsConditionChecker params pos) p"

definition VersionBitsCache_Clear :: "VersionBitsCache \<Rightarrow> VersionBitsCache" where
  "VersionBitsCache_Clear cache = (\<lambda>_. Map.empty)"

end
