(* ===== verification/VersionBits_Props.thy ===== *)
theory VersionBits_Props
  imports VersionBits
begin

text \<open>
  The memoised computation of \<open>GetStateFor\<close> agrees with the recursive definition of BIP 9: a period's state is
  computed from the state of the period before it. The walk may stop early at a block before the start
  time because the median time never decreases along a chain, which follows from the rule that a
  block is later than the median time of its parent.
\<close>

section \<open>The median time never decreases\<close>

lemma sorted_nth_ge:
  assumes "sorted ys" "k < length ys"
  shows "x \<le> ys ! k \<longleftrightarrow> length ys - k \<le> length (filter ((\<le>) x) ys)"
proof
  assume x: "x \<le> ys ! k"
  have "x \<le> y" if y: "y \<in> set (drop k ys)" for y
  proof -
    obtain i where "i < length ys - k" "y = ys ! (k + i)" using y by (auto simp: in_set_conv_nth)
    moreover from this have "k + i < length ys" by linarith
    ultimately show ?thesis using sorted_nth_mono [OF assms(1), of k "k + i"] x by simp
  qed
  then have "length (filter ((\<le>) x) (drop k ys)) = length ys - k" by (simp add: filter_id_conv [THEN iffD2])
  moreover have "length (filter ((\<le>) x) ys) = length (filter ((\<le>) x) (take k ys)) + length (filter ((\<le>) x) (drop k ys))"
    by (metis append_take_drop_id filter_append length_append)
  ultimately show "length ys - k \<le> length (filter ((\<le>) x) ys)" by simp
next
  assume len: "length ys - k \<le> length (filter ((\<le>) x) ys)"
  show "x \<le> ys ! k"
  proof (rule ccontr)
    assume "\<not> x \<le> ys ! k"
    have "\<not> x \<le> y" if y: "y \<in> set (take (Suc k) ys)" for y
    proof -
      obtain i where "i < Suc k" "y = ys ! i" using y by (auto simp: in_set_conv_nth)
      then show ?thesis using sorted_nth_mono [OF assms(1), of i k] assms(2) \<open>\<not> x \<le> ys ! k\<close> by simp
    qed
    then have "filter ((\<le>) x) (take (Suc k) ys) = []" by simp
    moreover have "filter ((\<le>) x) ys = filter ((\<le>) x) (take (Suc k) ys) @ filter ((\<le>) x) (drop (Suc k) ys)"
      by (metis append_take_drop_id filter_append)
    ultimately have "length (filter ((\<le>) x) ys) \<le> length ys - Suc k"
      using length_filter_le [of "(\<le>) x" "drop (Suc k) ys"] by simp
    then show False using len assms(2) by linarith
  qed
qed

definition median :: "int list \<Rightarrow> int" where
  "median xs = sort xs ! (length xs div 2)"

lemma median_ge:
  assumes "xs \<noteq> []"
  shows "x \<le> median xs \<longleftrightarrow> length xs - length xs div 2 \<le> length (filter ((\<le>) x) xs)"
proof -
  have "length (filter ((\<le>) x) (sort xs)) = length (filter ((\<le>) x) xs)" by (simp add: filter_sort)
  then show ?thesis unfolding median_def using assms by (subst sorted_nth_ge) (auto simp: div_less_dividend)
qed

lemma median_shift:
  assumes "xs \<noteq> []" "median xs \<le> t" "n \<ge> length xs - 1"
  shows "median xs \<le> median (t # take n xs)"
proof -
  let ?f = "filter ((\<le>) (median xs))"
  have l: "length xs - length xs div 2 \<le> length (?f xs)" using median_ge [OF assms(1), of "median xs"] by simp
  have "length (?f xs) = length (?f (take n xs)) + length (?f (drop n xs))"
    by (metis append_take_drop_id filter_append length_append)
  moreover have "length (?f (drop n xs)) \<le> length xs - n" using length_filter_le [of _ "drop n xs"] by simp
  ultimately have f: "length (?f xs) \<le> length (?f (take n xs)) + (length xs - n)" by simp
  show ?thesis
  proof (cases "length xs \<le> n")
    case True
    have "length (t # xs) - length (t # xs) div 2 \<le> length (?f (t # xs))" using l assms(2) by simp
    then show ?thesis using True by (subst median_ge) simp_all
  next
    case False
    then have n: "n = length xs - 1" using assms(3) by simp
    then have len: "length (t # take n xs) = length xs" using assms(1) by (cases xs) auto
    have "length xs - length xs div 2 \<le> length (?f (t # take n xs))" using l f n assms(1,2) by (cases xs) auto
    then show ?thesis using len by (subst median_ge) simp_all
  qed
qed

lemma median_times_take: "m \<le> n \<Longrightarrow> median_times m h p = take m (median_times n h p)"
proof (induction m arbitrary: n p)
  case (Suc m)
  then obtain n' where "n = Suc n'" "m \<le> n'" by (cases n) auto
  then show ?case using Suc.IH by (cases p) auto
qed simp

lemma GetMedianTimePast_median: "GetMedianTimePast h p = median (median_times 11 h (Some p))"
  by (simp add: GetMedianTimePast_def median_def nMedianTimeSpan_def Let_def)

text \<open>The rule of \<^verbatim>\<open>ContextualCheckBlockHeader\<close>: a block is later than the median time of its parent.\<close>

definition times_ok :: "block_heap \<Rightarrow> bool" where
  "times_ok h \<longleftrightarrow> (\<forall>p q. pprev (h p) = Some q \<longrightarrow> GetMedianTimePast h q < uint (bi_nTime (h p)))"

lemma length_median_times: "length (median_times n h p) \<le> n"
proof (induction n arbitrary: p)
  case (Suc n)
  then show ?case by (cases p) auto
qed simp

lemma median_time_mono_prev:
  assumes "times_ok h" "pprev (h p) = Some q"
  shows "GetMedianTimePast h q \<le> GetMedianTimePast h p"
proof -
  let ?xs = "median_times 11 h (Some q)"
  have p: "median_times 11 h (Some p) = uint (bi_nTime (h p)) # take 10 ?xs"
    using median_times_take [of 10 11 h "Some q"] assms(2) by (simp add: numeral_eq_Suc)
  have "?xs \<noteq> []" by (simp add: numeral_eq_Suc)
  moreover have "median ?xs \<le> uint (bi_nTime (h p))"
    using assms unfolding times_ok_def GetMedianTimePast_median by fastforce
  moreover have "length ?xs - 1 \<le> 10" using length_median_times [of 11 h "Some q"] by simp
  ultimately show ?thesis unfolding GetMedianTimePast_median p by (rule median_shift)
qed

lemma median_time_mono: "times_ok h \<Longrightarrow> up h n p = Some q \<Longrightarrow> GetMedianTimePast h q \<le> GetMedianTimePast h p"
  by (induction n arbitrary: p) (auto split: option.splits intro: order_trans [OF _ median_time_mono_prev])

lemma median_time_ancestor: "times_ok h \<Longrightarrow> ancestor h p k = Some q \<Longrightarrow> GetMedianTimePast h q \<le> GetMedianTimePast h p"
  by (auto simp: ancestor_def median_time_mono split: if_splits)

section \<open>The reference\<close>

definition window_count :: "block_heap \<Rightarrow> AbstractThresholdConditionChecker \<Rightarrow> nat \<Rightarrow> ptr \<Rightarrow> nat" where
  "window_count h chk n p = length (filter (\<lambda>i. case up h i p of None \<Rightarrow> False | Some q \<Rightarrow> Condition chk h q) [0..<n])"

fun bip9_next :: "block_heap \<Rightarrow> AbstractThresholdConditionChecker \<Rightarrow> ptr \<Rightarrow> ThresholdState \<Rightarrow> ThresholdState" where
  "bip9_next h chk p THRESHOLD_DEFINED =
     (if EndTime chk \<le> GetMedianTimePast h p then THRESHOLD_FAILED
      else if BeginTime chk \<le> GetMedianTimePast h p then THRESHOLD_STARTED else THRESHOLD_DEFINED)"
| "bip9_next h chk p THRESHOLD_STARTED =
     (if EndTime chk \<le> GetMedianTimePast h p then THRESHOLD_FAILED
      else if Threshold chk \<le> int (window_count h chk (nat (Period chk)) p) then THRESHOLD_LOCKED_IN else THRESHOLD_STARTED)"
| "bip9_next h chk p THRESHOLD_LOCKED_IN = THRESHOLD_ACTIVE"
| "bip9_next h chk p THRESHOLD_ACTIVE = THRESHOLD_ACTIVE"
| "bip9_next h chk p THRESHOLD_FAILED = THRESHOLD_FAILED"

text \<open>\<open>bip9_state h chk p k\<close> is the state of the period that starts at height \<open>k\<close> times the period, on the chain of \<open>p\<close>.\<close>

primrec bip9_state :: "block_heap \<Rightarrow> AbstractThresholdConditionChecker \<Rightarrow> ptr \<Rightarrow> nat \<Rightarrow> ThresholdState" where
  "bip9_state h chk p 0 = THRESHOLD_DEFINED"
| "bip9_state h chk p (Suc k) =
     (case ancestor h p (int (Suc k) * Period chk - 1) of
        None \<Rightarrow> bip9_state h chk p k
      | Some q \<Rightarrow> bip9_next h chk q (bip9_state h chk p k))"

definition state_at :: "block_heap \<Rightarrow> AbstractThresholdConditionChecker \<Rightarrow> ptr option \<Rightarrow> ThresholdState" where
  "state_at h chk pindexPrev =
     (case pindexPrev of
        None \<Rightarrow> THRESHOLD_DEFINED
      | Some p \<Rightarrow> bip9_state h chk p (nat ((bi_nHeight (h p) + 1) div Period chk)))"

definition boundary :: "block_heap \<Rightarrow> AbstractThresholdConditionChecker \<Rightarrow> ptr \<Rightarrow> bool" where
  "boundary h chk p \<longleftrightarrow> (bi_nHeight (h p) + 1) mod Period chk = 0"

definition cache_ok :: "block_heap \<Rightarrow> AbstractThresholdConditionChecker \<Rightarrow> ThresholdConditionCache \<Rightarrow> bool" where
  "cache_ok h chk cache \<longleftrightarrow> (\<forall>k state. cache k = Some state \<longrightarrow> state = state_at h chk k)"

lemma cache_ok_upd: "cache_ok h chk cache \<Longrightarrow> state = state_at h chk k \<Longrightarrow> cache_ok h chk (cache(k \<mapsto> state))"
  by (simp add: cache_ok_def)

lemma bip9_state_ancestor:
  assumes "height_ok h" "ancestor h p j = Some q" "int k * Period chk \<le> j + 1" "0 < Period chk"
  shows "bip9_state h chk q k = bip9_state h chk p k"
  using assms(3)
proof (induction k)
  case (Suc k)
  have "int k * Period chk \<le> j + 1" using Suc.prems assms(4) by (simp add: algebra_simps)
  moreover have "ancestor h q (int (Suc k) * Period chk - 1) = ancestor h p (int (Suc k) * Period chk - 1)"
    using ancestor_trans [OF assms(1,2)] Suc.prems by simp
  ultimately show ?case using Suc.IH by (simp del: of_nat_Suc split: option.splits)
qed simp

lemma boundary_height:
  assumes "height_ok h" "boundary h chk p" "0 < Period chk"
  obtains k where "bi_nHeight (h p) + 1 = int (Suc k) * Period chk" "(bi_nHeight (h p) + 1) div Period chk = int (Suc k)"
proof -
  let ?d = "(bi_nHeight (h p) + 1) div Period chk"
  have e: "bi_nHeight (h p) + 1 = ?d * Period chk" using assms(2) by (simp add: boundary_def mod_eq_0_iff_dvd)
  moreover have "0 < ?d" using e height_nonneg [OF assms(1), of p] assms(3)
    by (metis add_nonneg_pos less_numeral_extra(1) zero_less_mult_pos2)
  ultimately show ?thesis using that [of "nat ?d - 1"] by simp
qed

lemma state_at_boundary:
  assumes "height_ok h" "boundary h chk p" "0 < Period chk"
  defines "q \<equiv> ancestor h p (bi_nHeight (h p) - Period chk)"
  shows "state_at h chk (Some p) = bip9_next h chk p (state_at h chk q)" "\<And>r. q = Some r \<Longrightarrow> boundary h chk r"
proof -
  obtain k where k: "bi_nHeight (h p) + 1 = int (Suc k) * Period chk" "(bi_nHeight (h p) + 1) div Period chk = int (Suc k)"
    using boundary_height [OF assms(1-3)] by blast
  have self: "ancestor h p (int (Suc k) * Period chk - 1) = Some p"
    using ancestor_self [OF assms(1), of p] k(1) by (metis add_diff_cancel_right')
  have s: "state_at h chk (Some p) = bip9_next h chk p (bip9_state h chk p k)"
    using k(2) self by (simp del: of_nat_Suc add: state_at_def)
  have "bi_nHeight (h p) - Period chk = int k * Period chk - 1" using k(1) by (simp add: algebra_simps)
  then have qk: "q = ancestor h p (int k * Period chk - 1)" by (simp add: q_def)
  show b: "boundary h chk r" if "q = Some r" for r
    using ancestor_height(1) [OF assms(1), of p "int k * Period chk - 1" r] that qk by (simp add: boundary_def)
  have "state_at h chk q = bip9_state h chk p k"
  proof (cases q)
    case None
    have "0 \<le> int k * Period chk" using assms(3) by simp
    then have "int k * Period chk - 1 < 0 \<or> (0 \<le> int k * Period chk - 1 \<and> int k * Period chk - 1 \<le> bi_nHeight (h p))"
      using k(1) assms(3) by (auto simp: algebra_simps)
    then have "int k * Period chk < 1"
      using ancestor_exists [OF assms(1), of "int k * Period chk - 1" p] qk None by fastforce
    then have "k = 0" using assms(3) by (metis int_one_le_iff_zero_less mult_pos_pos neq0_conv not_less of_nat_0_less_iff)
    then show ?thesis using None by (simp add: state_at_def)
  next
    case (Some r)
    then have r: "ancestor h p (int k * Period chk - 1) = Some r" using qk by simp
    then have "bi_nHeight (h r) + 1 = int k * Period chk" using ancestor_height(1) [OF assms(1)] by fastforce
    then have "state_at h chk (Some r) = bip9_state h chk r k" using assms(3) by (simp add: state_at_def)
    also have "\<dots> = bip9_state h chk p k" by (rule bip9_state_ancestor [OF assms(1) r _ assms(3)]) simp
    finally show ?thesis using Some by simp
  qed
  then show "state_at h chk (Some p) = bip9_next h chk p (state_at h chk q)" using s by simp
qed

lemma state_before_start:
  assumes "times_ok h" "GetMedianTimePast h p < BeginTime chk" "BeginTime chk \<le> EndTime chk"
  shows "state_at h chk (Some p) = THRESHOLD_DEFINED"
proof -
  have "bip9_state h chk p k = THRESHOLD_DEFINED" for k
  proof (induction k)
    case (Suc k)
    have "GetMedianTimePast h q < BeginTime chk" if "ancestor h p j = Some q" for j q
      using median_time_ancestor [OF assms(1) that] assms(2) by simp
    then show ?case using Suc assms(3) by (fastforce split: option.splits)
  qed simp
  then show ?thesis by (simp add: state_at_def)
qed

section \<open>The memoised computation\<close>

primrec links :: "block_heap \<Rightarrow> AbstractThresholdConditionChecker \<Rightarrow> ptr option \<Rightarrow> ptr list \<Rightarrow> bool" where
  "links h chk a [] = True"
| "links h chk a (p # ps) \<longleftrightarrow>
     boundary h chk p \<and> ancestor h p (bi_nHeight (h p) - Period chk) = a \<and> links h chk (Some p) ps"

primrec end_of :: "ptr option \<Rightarrow> ptr list \<Rightarrow> ptr option" where
  "end_of a [] = a"
| "end_of a (p # ps) = end_of (Some p) ps"

lemma window_count_Suc:
  "window_count h chk (Suc n) p =
     (if Condition chk h p then 1 else 0) + (case pprev (h p) of None \<Rightarrow> 0 | Some q \<Rightarrow> window_count h chk n q)"
proof -
  have "[0..<Suc n] = 0 # map Suc [0..<n]" by (simp add: map_Suc_upt upt_conv_Cons)
  then show ?thesis
    by (auto simp: window_count_def filter_map comp_def split: option.splits)
qed

lemma count_condition_ok:
  assumes "height_ok h"
  shows "int n \<le> bi_nHeight (h p) + 1 \<Longrightarrow> count_condition n h chk (Some p) c = Inr (c + window_count h chk n p)"
proof (induction n arbitrary: p c)
  case (Suc n)
  show ?case
  proof (cases "pprev (h p)")
    case None
    then have "n = 0" using Suc.prems height_root [OF assms None] by simp
    then show ?thesis using None by (simp add: window_count_Suc)
  next
    case (Some q)
    then show ?thesis using Suc.IH [of q] Suc.prems height_prev [OF assms Some] by (simp add: window_count_Suc)
  qed
qed (simp add: window_count_def)

lemma next_state_ok:
  assumes "height_ok h" "boundary h chk p" "0 < Period chk"
  shows "next_state h chk p state = Inr (bip9_next h chk p state)"
proof -
  obtain k where k: "bi_nHeight (h p) + 1 = int (Suc k) * Period chk" using boundary_height [OF assms] by blast
  have "1 * Period chk \<le> int (Suc k) * Period chk" using assms(3) by (intro mult_right_mono) auto
  then have "int (nat (Period chk)) \<le> bi_nHeight (h p) + 1" using k assms(3) by simp
  from count_condition_ok [OF assms(1) this] show ?thesis
    by (cases state) (simp_all add: next_state_def)
qed

lemma compute_states_ok:
  assumes "height_ok h" "0 < Period chk"
  shows "links h chk a ps \<Longrightarrow> cache_ok h chk cache \<Longrightarrow>
    \<exists>cache'. compute_states h chk ps (state_at h chk a) cache = Inr (state_at h chk (end_of a ps), cache') \<and> cache_ok h chk cache'"
proof (induction ps arbitrary: a cache)
  case (Cons p ps)
  then have b: "boundary h chk p" "ancestor h p (bi_nHeight (h p) - Period chk) = a" "links h chk (Some p) ps" by auto
  have s: "bip9_next h chk p (state_at h chk a) = state_at h chk (Some p)"
    using state_at_boundary(1) [OF assms(1) b(1) assms(2)] b(2) by simp
  have "cache_ok h chk (cache(Some p \<mapsto> state_at h chk (Some p)))" using Cons.prems(2) by (rule cache_ok_upd) simp
  then show ?case
    unfolding compute_states.simps next_state_ok [OF assms(1) b(1) assms(2)] sum.case s end_of.simps by (rule Cons.IH [OF b(3)])
qed simp

definition checker_ok :: "AbstractThresholdConditionChecker \<Rightarrow> bool" where
  "checker_ok chk \<longleftrightarrow> 0 < Period chk \<and> BeginTime chk \<le> EndTime chk"

lemma walk_to_known_ok:
  assumes tree: "block_tree h" and times: "times_ok h" and chk: "checker_ok chk"
  shows "(case a of None \<Rightarrow> True | Some p \<Rightarrow> boundary h chk p) \<Longrightarrow> cache_ok h chk cache \<Longrightarrow> links h chk a ps \<Longrightarrow>
    \<exists>b cache' ps'. walk_to_known h chk (a, cache, ps) = Some (Inr (b, cache', ps')) \<and> cache_ok h chk cache' \<and>
      cache' b = Some (state_at h chk b) \<and> links h chk b ps' \<and> end_of b ps' = end_of a ps"
proof (induction "case a of None \<Rightarrow> 0 | Some p \<Rightarrow> Suc (nat (bi_nHeight (h p)))" arbitrary: a ps rule: less_induct)
  case less
  note ok = block_treeD(1) [OF tree]
  consider (known) s where "cache a = Some s"
    | (stop) "cache a = None" "a = None \<or> GetMedianTimePast h (the a) < BeginTime chk"
    | (step) p where "cache a = None" "a = Some p" "\<not> GetMedianTimePast h p < BeginTime chk"
    by (cases "cache a"; cases a) auto
  then show ?case
  proof cases
    case known
    then show ?thesis using less.prems(2,3) by (subst walk_to_known.simps) (auto simp: cache_ok_def)
  next
    case stop
    have s: "state_at h chk a = THRESHOLD_DEFINED"
      using stop(2) state_before_start [OF times] chk by (cases a) (auto simp: state_at_def checker_ok_def)
    have "walk_to_known h chk (a, cache, ps) = Some (Inr (a, cache(a \<mapsto> THRESHOLD_DEFINED), ps))"
      using stop by (subst walk_to_known.simps) auto
    then show ?thesis using cache_ok_upd [OF less.prems(2), of THRESHOLD_DEFINED a] s less.prems(3) by simp
  next
    case step
    let ?q = "ancestor h p (bi_nHeight (h p) - Period chk)"
    have b: "boundary h chk p" using less.prems(1) step(2) by simp
    have P: "0 < Period chk" using chk by (simp add: checker_ok_def)
    have w: "walk_to_known h chk (a, cache, ps) = walk_to_known h chk (?q, cache, p # ps)"
      using step by (subst walk_to_known.simps) (simp add: GetAncestor_eq_ancestor [OF tree])
    have "(case ?q of None \<Rightarrow> 0 | Some r \<Rightarrow> Suc (nat (bi_nHeight (h r)))) < Suc (nat (bi_nHeight (h p)))"
      using ancestor_height [OF ok, of p "bi_nHeight (h p) - Period chk"] P by (fastforce split: option.splits)
    then have "\<exists>b cache' ps'. walk_to_known h chk (?q, cache, p # ps) = Some (Inr (b, cache', ps')) \<and> cache_ok h chk cache' \<and>
        cache' b = Some (state_at h chk b) \<and> links h chk b ps' \<and> end_of b ps' = end_of ?q (p # ps)"
      using state_at_boundary(2) [OF ok b P] b less.prems(2,3) step(2)
      by (intro less.hyps) (auto split: option.splits)
    then show ?thesis unfolding w by (simp add: step(2))
  qed
qed

lemma period_parent_ok:
  assumes tree: "block_tree h" and P: "0 < Period chk"
  shows "\<exists>b. period_parent h chk a = Inr b \<and> state_at h chk b = state_at h chk a \<and>
    (case b of None \<Rightarrow> True | Some p \<Rightarrow> boundary h chk p)"
proof (cases a)
  case (Some p)
  note ok = block_treeD(1) [OF tree]
  let ?H = "bi_nHeight (h p) + 1"
  let ?k = "bi_nHeight (h p) - ?H mod Period chk"
  have H: "0 < ?H" using height_nonneg [OF ok, of p] by simp
  have k: "?k + 1 = ?H div Period chk * Period chk" by (simp add: minus_mod_eq_div_mult [symmetric])
  show ?thesis
  proof (cases "ancestor h p ?k")
    case None
    have "0 \<le> ?H mod Period chk" using P by simp
    then have "?k < 0" using None ancestor_exists [OF ok, of ?k p] by fastforce
    then have "?H div Period chk * Period chk < 1" using k by linarith
    then have "?H div Period chk = 0" using P H
      by (smt (verit) mult_pos_pos pos_imp_zdiv_nonneg_iff)
    then show ?thesis using Some None by (simp add: period_parent_def GetAncestor_eq_ancestor [OF tree] state_at_def)
  next
    case (Some q)
    have hq: "bi_nHeight (h q) + 1 = ?H div Period chk * Period chk" using ancestor_height(1) [OF ok Some] k by simp
    have n: "0 \<le> ?H div Period chk" using H P by (simp add: pos_imp_zdiv_nonneg_iff)
    have "state_at h chk (Some q) = bip9_state h chk q (nat (?H div Period chk))" using hq P by (simp add: state_at_def)
    also have "\<dots> = bip9_state h chk p (nat (?H div Period chk))"
      by (rule bip9_state_ancestor [OF ok Some _ P]) (use k n in simp)
    finally show ?thesis using \<open>a = Some p\<close> Some hq
      by (simp add: period_parent_def GetAncestor_eq_ancestor [OF tree] state_at_def boundary_def)
  qed
qed (simp add: period_parent_def)

lemma GetStateFor_ok:
  assumes tree: "block_tree h" and times: "times_ok h" and chk: "checker_ok chk" and cache: "cache_ok h chk cache"
  shows "\<exists>cache'. GetStateFor h chk a cache = Some (Inr (state_at h chk a, cache')) \<and> cache_ok h chk cache'"
proof -
  have P: "0 < Period chk" using chk by (simp add: checker_ok_def)
  obtain b where b: "period_parent h chk a = Inr b" "state_at h chk b = state_at h chk a"
      "case b of None \<Rightarrow> True | Some p \<Rightarrow> boundary h chk p" using period_parent_ok [OF tree P, of a] by blast
  obtain c cache1 ps where w: "walk_to_known h chk (b, cache, []) = Some (Inr (c, cache1, ps))" "cache_ok h chk cache1"
      "cache1 c = Some (state_at h chk c)" "links h chk c ps" "end_of c ps = b"
    using walk_to_known_ok [OF tree times chk b(3) cache, of "[]"] by auto
  obtain cache2 where "compute_states h chk ps (state_at h chk c) cache1 = Inr (state_at h chk (end_of c ps), cache2)"
      "cache_ok h chk cache2" using compute_states_ok [OF block_treeD(1) [OF tree] P w(4,2)] by blast
  then show ?thesis using b(1,2) w(1,3,5) by (simp add: GetStateFor_def)
qed

section \<open>The state machine\<close>








section \<open>Since when\<close>

definition since :: "block_heap \<Rightarrow> AbstractThresholdConditionChecker \<Rightarrow> ptr \<Rightarrow> ThresholdState \<Rightarrow> ptr \<Rightarrow> bool" where
  "since h chk p s r \<longleftrightarrow> boundary h chk r \<and> ancestor h p (bi_nHeight (h r)) = Some r \<and>
     (\<forall>j q. bi_nHeight (h r) \<le> j \<longrightarrow> ancestor h p j = Some q \<longrightarrow> boundary h chk q \<longrightarrow> state_at h chk (Some q) = s) \<and>
     state_at h chk (ancestor h r (bi_nHeight (h r) - Period chk)) \<noteq> s"

lemma boundary_between:
  assumes "height_ok h" "boundary h chk p" "boundary h chk q" "0 < Period chk"
    "ancestor h p j = Some q" "bi_nHeight (h p) - Period chk < j"
  shows "q = p"
proof -
  note hq = ancestor_height [OF assms(1,5)]
  have "(bi_nHeight (h p) + 1 - (j + 1)) mod Period chk = 0"
    using assms(2,3) hq(1) unfolding boundary_def mod_eq_0_iff_dvd by (intro dvd_diff) simp_all
  moreover have "bi_nHeight (h p) + 1 - (j + 1) < Period chk" "0 \<le> bi_nHeight (h p) + 1 - (j + 1)" using assms(6) hq by auto
  ultimately have "j = bi_nHeight (h p)" by (simp add: mod_pos_pos_trivial)
  then show ?thesis using assms(5) ancestor_self [OF assms(1), of p] by simp
qed

lemma since_lift:
  assumes "height_ok h" "ancestor h p k = Some q" "since h chk q s r"
    "\<And>j x. k < j \<Longrightarrow> ancestor h p j = Some x \<Longrightarrow> boundary h chk x \<Longrightarrow> state_at h chk (Some x) = s"
  shows "since h chk p s r"
proof -
  note hq = ancestor_height [OF assms(1,2)]
  have r: "boundary h chk r" "ancestor h q (bi_nHeight (h r)) = Some r"
      "\<And>j x. bi_nHeight (h r) \<le> j \<Longrightarrow> ancestor h q j = Some x \<Longrightarrow> boundary h chk x \<Longrightarrow> state_at h chk (Some x) = s"
      "state_at h chk (ancestor h r (bi_nHeight (h r) - Period chk)) \<noteq> s"
    using assms(3) unfolding since_def by blast+
  note hr = ancestor_height [OF assms(1) r(2)]
  have "ancestor h p (bi_nHeight (h r)) = Some r" using ancestor_trans [OF assms(1,2)] r(2) hr hq(1) by simp
  moreover have "state_at h chk (Some x) = s" if x: "bi_nHeight (h r) \<le> j" "ancestor h p j = Some x" "boundary h chk x" for j x
  proof (cases "j \<le> k")
    case True
    then show ?thesis using r(3) [OF x(1) _ x(3)] ancestor_trans [OF assms(1,2) True] x(2) by simp
  next
    case False
    then show ?thesis using assms(4) [OF _ x(2,3)] by simp
  qed
  ultimately show ?thesis using r(1,4) unfolding since_def by blast
qed

lemma since_down:
  assumes "height_ok h" "boundary h chk p" "0 < Period chk" "ancestor h p (bi_nHeight (h p) - Period chk) = Some q"
    "state_at h chk (Some p) = s" "since h chk q s r"
  shows "since h chk p s r"
  using since_lift [OF assms(1,4,6)] boundary_between [OF assms(1,2) _ assms(3)] assms(5) by blast

lemma no_boundary_above:
  assumes "height_ok h" "0 < Period chk" "ancestor h p j = Some x" "boundary h chk x"
  shows "j \<le> bi_nHeight (h p) - (bi_nHeight (h p) + 1) mod Period chk"
proof -
  let ?H = "bi_nHeight (h p) + 1" and ?P = "Period chk"
  note hx = ancestor_height [OF assms(1,3)]
  have "(j + 1) div ?P * ?P = j + 1" using assms(4) hx(1) by (simp add: boundary_def mod_eq_0_iff_dvd)
  moreover have "(j + 1) div ?P * ?P \<le> ?H div ?P * ?P" using hx(3) assms(2) by (intro mult_right_mono zdiv_mono1) auto
  moreover have "?H div ?P * ?P = ?H - ?H mod ?P" by (simp add: minus_mod_eq_div_mult)
  ultimately show ?thesis by linarith
qed

lemma since_here:
  assumes "height_ok h" "boundary h chk p" "0 < Period chk" "state_at h chk (Some p) = s"
    "state_at h chk (ancestor h p (bi_nHeight (h p) - Period chk)) \<noteq> s"
  shows "since h chk p s p"
  using assms boundary_between [OF assms(1,2) _ assms(3)] ancestor_self [OF assms(1), of p] unfolding since_def by fastforce

lemma since_loop_ok:
  assumes tree: "block_tree h" and times: "times_ok h" and chk: "checker_ok chk" and s: "s \<noteq> THRESHOLD_DEFINED"
  shows "boundary h chk p \<Longrightarrow> state_at h chk (Some p) = s \<Longrightarrow> cache_ok h chk cache \<Longrightarrow> nat (bi_nHeight (h p)) < n \<Longrightarrow>
    \<exists>r cache'. since_loop n h chk s p (ancestor h p (bi_nHeight (h p) - Period chk)) cache = Some (Inr (bi_nHeight (h r) + 1, cache'))
      \<and> cache_ok h chk cache' \<and> since h chk p s r"
proof (induction n arbitrary: p cache)
  case (Suc n)
  note ok = block_treeD(1) [OF tree]
  have P: "0 < Period chk" using chk by (simp add: checker_ok_def)
  note here = since_here [OF ok Suc.prems(1) P Suc.prems(2)]
  show ?case
  proof (cases "ancestor h p (bi_nHeight (h p) - Period chk)")
    case None
    then show ?thesis using here s Suc.prems(3) by (intro exI [of _ p]) (simp add: state_at_def)
  next
    case (Some q)
    obtain cache1 where c1: "GetStateFor h chk (Some q) cache = Some (Inr (state_at h chk (Some q), cache1))" "cache_ok h chk cache1"
      using GetStateFor_ok [OF tree times chk Suc.prems(3)] by blast
    show ?thesis
    proof (cases "state_at h chk (Some q) = s")
      case False
      then show ?thesis using here Some c1 by (intro exI [of _ p]) simp
    next
      case True
      have bq: "boundary h chk q" using state_at_boundary(2) [OF ok Suc.prems(1) P Some] .
      have "nat (bi_nHeight (h q)) < n" using ancestor_height [OF ok Some] P Suc.prems(4) height_nonneg [OF ok, of q] by linarith
      from Suc.IH [OF bq True c1(2) this] obtain r cache' where
        r: "since_loop n h chk s q (ancestor h q (bi_nHeight (h q) - Period chk)) cache1 = Some (Inr (bi_nHeight (h r) + 1, cache'))"
          "cache_ok h chk cache'" "since h chk q s r" by blast
      then show ?thesis using Some c1(1) True since_down [OF ok Suc.prems(1) P Some Suc.prems(2) r(3)]
        by (intro exI [of _ r]) (simp add: GetAncestor_eq_ancestor [OF tree])
    qed
  qed
qed simp

lemma GetStateSinceHeightFor_ok:
  assumes tree: "block_tree h" and times: "times_ok h" and chk: "checker_ok chk" and cache: "cache_ok h chk cache"
    and fuel: "nat (bi_nHeight (h p)) < fuel"
  defines "s \<equiv> state_at h chk (Some p)"
  shows "\<exists>n cache'. GetStateSinceHeightFor fuel h chk (Some p) cache = Some (Inr (n, cache')) \<and> cache_ok h chk cache' \<and>
    (if s = THRESHOLD_DEFINED then n = 0 else \<exists>r. n = bi_nHeight (h r) + 1 \<and> since h chk p s r)"
proof -
  note ok = block_treeD(1) [OF tree]
  have P: "0 < Period chk" using chk by (simp add: checker_ok_def)
  obtain cache1 where c1: "GetStateFor h chk (Some p) cache = Some (Inr (s, cache1))" "cache_ok h chk cache1"
    using GetStateFor_ok [OF tree times chk cache, of "Some p"] unfolding s_def by blast
  obtain b where b: "period_parent h chk (Some p) = Inr b" "state_at h chk b = s"
      "case b of None \<Rightarrow> True | Some p \<Rightarrow> boundary h chk p" using period_parent_ok [OF tree P, of "Some p"] unfolding s_def by blast
  show ?thesis
  proof (cases "s = THRESHOLD_DEFINED")
    case True
    then show ?thesis using c1 by (simp add: GetStateSinceHeightFor_def)
  next
    case False
    then obtain q where q: "b = Some q" using b(2) by (cases b) (auto simp: state_at_def)
    let ?k = "bi_nHeight (h p) - (bi_nHeight (h p) + 1) mod Period chk"
    have a: "ancestor h p ?k = Some q" using b(1) q by (simp add: period_parent_def GetAncestor_eq_ancestor [OF tree])
    note hq = ancestor_height [OF ok a]
    have "nat (bi_nHeight (h q)) < fuel" using hq fuel by linarith
    from since_loop_ok [OF tree times chk False _ _ c1(2) this] b q obtain r cache' where
      r: "since_loop fuel h chk s q (ancestor h q (bi_nHeight (h q) - Period chk)) cache1 = Some (Inr (bi_nHeight (h r) + 1, cache'))"
        "cache_ok h chk cache'" "since h chk q s r" by auto
    have "since h chk p s r"
      by (rule since_lift [OF ok a r(3)]) (use no_boundary_above [OF ok P] in fastforce)
    then show ?thesis using r(1,2) c1(1) b(1) q False
      by (simp add: GetStateSinceHeightFor_def GetAncestor_eq_ancestor [OF tree]) blast
  qed
qed

section \<open>Properties\<close>

lemma VersionBitsState_ok:
  assumes "block_tree h" "times_ok h" "\<And>pos. checker_ok (VersionBitsConditionChecker params pos)"
    "\<And>pos. cache_ok h (VersionBitsConditionChecker params pos) (cache pos)"
  shows "\<exists>cache'. VersionBitsState h pindexPrev params pos cache =
      Some (Inr (state_at h (VersionBitsConditionChecker params pos) pindexPrev, cache')) \<and>
    (\<forall>pos'. cache_ok h (VersionBitsConditionChecker params pos') (cache' pos'))"
proof -
  obtain c where "GetStateFor h (VersionBitsConditionChecker params pos) pindexPrev (cache pos) =
      Some (Inr (state_at h (VersionBitsConditionChecker params pos) pindexPrev, c))"
      "cache_ok h (VersionBitsConditionChecker params pos) c"
    using GetStateFor_ok [OF assms(1,2) assms(3,4)] by blast
  then show ?thesis using assms(4) by (intro exI [of _ "cache(pos := c)"]) (simp add: VersionBitsState_def)
qed

text \<open>
  (C19) \<open>VersionBitsState\<close> and \<open>AbstractThresholdConditionChecker::GetStateFor\<close> (\<^verbatim>\<open>versionbits.cpp\<close>): in a block tree
  in which every block is later than the median time of its parent, and with a cache that holds only right
  states, the computation ends, meets no null pointer and no failed assertion, returns the state that the
  recursion of BIP 9 over the periods gives for the next block, and leaves only right states in
  the cache; so the states do not depend on what was asked before.
\<close>

theorem VersionBitsState_bip9:
  assumes "block_tree h" "times_ok h" "\<And>pos. checker_ok (VersionBitsConditionChecker params pos)"
    "\<And>pos. cache_ok h (VersionBitsConditionChecker params pos) (cache pos)"
  shows "\<exists>cache'. VersionBitsState h pindexPrev params pos cache =
      Some (Inr (state_at h (VersionBitsConditionChecker params pos) pindexPrev, cache')) \<and>
    (\<forall>pos'. cache_ok h (VersionBitsConditionChecker params pos') (cache' pos'))"
  using VersionBitsState_ok [OF assms(1,2)] assms(3,4) by blast

lemma CMainParams_checkers: "checker_ok (VersionBitsConditionChecker CMainParams_consensus pos)"
  by (cases pos) (simp_all add: checker_ok_def VersionBitsConditionChecker_def CMainParams_consensus_def Let_def
      CMainParams_vDeployments_def)

text \<open>A store with a single block, for the examples.\<close>

definition genesis_heap :: block_heap where
  "genesis_heap p = CBlockIndex_null \<lparr> bi_nTime := 5 \<rparr>"

lemma genesis_heap_ok: "block_tree genesis_heap" "times_ok genesis_heap"
  by (simp_all add: genesis_heap_def CBlockIndex_null_def block_tree_def height_ok_def skip_ok_def times_ok_def)

lemma median_times_numeral:
  "median_times (numeral k) h (Some p) = uint (bi_nTime (h p)) # median_times (pred_numeral k) h (pprev (h p))"
  by (simp add: numeral_eq_Suc)


lemma median_times_None [simp]: "median_times n h None = []"
  by (cases n) auto

lemma genesis_median: "GetMedianTimePast genesis_heap p = 5"
  by (simp add: GetMedianTimePast_def genesis_heap_def CBlockIndex_null_def nMedianTimeSpan_def median_times_numeral)

theorem VersionBitsState_bip9_witness:
  "\<exists>c. VersionBitsState genesis_heap (Some 0) CMainParams_consensus DEPLOYMENT_DIP0003 (\<lambda>_. Map.empty) =
     Some (Inr (THRESHOLD_DEFINED, c))"
proof -
  have "state_at genesis_heap (VersionBitsConditionChecker CMainParams_consensus DEPLOYMENT_DIP0003) (Some 0) = THRESHOLD_DEFINED"
    by (simp add: state_at_def genesis_heap_def CBlockIndex_null_def VersionBitsConditionChecker_def
        CMainParams_consensus_def Let_def CMainParams_vDeployments_def)
  then show ?thesis
    using VersionBitsState_bip9 [OF genesis_heap_ok CMainParams_checkers, of "\<lambda>_. Map.empty" "Some 0" DEPLOYMENT_DIP0003]
    by (auto simp: cache_ok_def)
qed


definition every_block_checker :: AbstractThresholdConditionChecker where
  "every_block_checker = \<lparr> Condition = (\<lambda>_ _. True), BeginTime = 0, EndTime = 9223372036854775807, Period = 1, Threshold = 1 \<rparr>"

lemma every_block_checker_ok: "checker_ok every_block_checker"
  by (simp add: checker_ok_def every_block_checker_def)

text \<open>A store with a chain of three blocks.\<close>

definition signal_heap :: block_heap where
  "signal_heap p = (if p = 1 \<or> p = 2
     then CBlockIndex_null \<lparr> pprev := Some (p - 1), bi_nHeight := int p, bi_nTime := word_of_nat p \<rparr>
     else CBlockIndex_null)"

lemma signal_heap_simps [simp]:
  "pprev (signal_heap p) = (if p = 1 \<or> p = 2 then Some (p - 1) else None)"
  "bi_nHeight (signal_heap p) = (if p = 1 \<or> p = 2 then int p else 0)"
  "bi_nTime (signal_heap p) = (if p = 1 \<or> p = 2 then word_of_nat p else 0)" "pskip (signal_heap p) = None"
  by (simp_all add: signal_heap_def CBlockIndex_null_def)





text \<open>
  \<open>GetStateSinceHeightFor\<close> (\<^verbatim>\<open>versionbits.cpp\<close>): with at least as many turns as the block has ancestors the
  loop ends and returns 0 for a deployment that is defined only, and otherwise the height of the first block
  of the first period of the current run of periods with this state: every period from there to the
  given block has the state, and the period before it has another one.
\<close>

theorem GetStateSinceHeightFor_first:
  assumes "block_tree h" "times_ok h" "checker_ok chk" "cache_ok h chk cache" "nat (bi_nHeight (h p)) < fuel"
  shows "\<exists>n cache'. GetStateSinceHeightFor fuel h chk (Some p) cache = Some (Inr (n, cache')) \<and> cache_ok h chk cache' \<and>
    (if state_at h chk (Some p) = THRESHOLD_DEFINED then n = 0
     else \<exists>r. n = bi_nHeight (h r) + 1 \<and> since h chk p (state_at h chk (Some p)) r)"
  using GetStateSinceHeightFor_ok [OF assms] .

theorem GetStateSinceHeightFor_first_witness:
  "\<exists>c. GetStateSinceHeightFor 1 genesis_heap every_block_checker (Some 0) Map.empty = Some (Inr (1, c))"
proof -
  have g: "bi_nHeight (genesis_heap p) = 0" for p by (simp add: genesis_heap_def CBlockIndex_null_def)
  have "state_at genesis_heap every_block_checker (Some 0) = THRESHOLD_STARTED"
    by (simp add: state_at_def g every_block_checker_def ancestor_def genesis_median numeral_eq_Suc)
  then show ?thesis
    using GetStateSinceHeightFor_first [OF genesis_heap_ok every_block_checker_ok, of Map.empty 0 1]
    by (auto simp: cache_ok_def g)
qed

end
