(* ===== verification/Tx_Rules.thy ===== *)
theory Tx_Rules
  imports Connect VersionBits_Props
begin

unbundle bit_operations_syntax

text \<open>
  The rules for transactions in \<^verbatim>\<open>validation.cpp\<close>: absolute and relative lock times, signature operation
  counts, the checks that need no context and those that depend on the deployments. The
  validation state of \<^verbatim>\<open>consensus/validation.h\<close> is passed and returned; its debug message is left out.
\<close>

section \<open>The validation state\<close>

datatype mode_state = MODE_VALID | MODE_INVALID | MODE_ERROR

record CValidationState =
  vs_mode :: mode_state
  vs_nDoS :: int
  strRejectReason :: string
  chRejectCode :: nat
  corruptionPossible :: bool

definition CValidationState_new :: CValidationState where
  "CValidationState_new =
     \<lparr> vs_mode = MODE_VALID, vs_nDoS = 0, strRejectReason = '''', chRejectCode = 0, corruptionPossible = False \<rparr>"

definition DoS :: "CValidationState \<Rightarrow> int \<Rightarrow> nat \<Rightarrow> string \<Rightarrow> bool \<Rightarrow> CValidationState" where
  "DoS state level code reason corruption =
     (let state = state \<lparr> chRejectCode := code, strRejectReason := reason, corruptionPossible := corruption \<rparr>
      in if vs_mode state = MODE_ERROR then state
         else state \<lparr> vs_nDoS := vs_nDoS state + level, vs_mode := MODE_INVALID \<rparr>)"

definition Invalid :: "CValidationState \<Rightarrow> nat \<Rightarrow> string \<Rightarrow> CValidationState" where
  "Invalid state code reason = DoS state 0 code reason False"

definition state_Error :: "CValidationState \<Rightarrow> string \<Rightarrow> CValidationState" where
  "state_Error state reason =
     (if vs_mode state = MODE_VALID then state \<lparr> strRejectReason := reason, vs_mode := MODE_ERROR \<rparr>
      else state \<lparr> vs_mode := MODE_ERROR \<rparr>)"

definition REJECT_INVALID :: nat where "REJECT_INVALID = 0x10"
definition REJECT_OBSOLETE :: nat where "REJECT_OBSOLETE = 0x11"

text \<open>A check returns whether it passed and the state; \<open>reject\<close> fails with the given fields.\<close>

type_synonym check = "CValidationState \<Rightarrow> bool \<times> CValidationState"

definition accept :: check where
  "accept state = (True, state)"

definition reject :: "int \<Rightarrow> string \<Rightarrow> check" where
  "reject level reason state = (False, DoS state level REJECT_INVALID reason False)"

section \<open>Lock times\<close>

definition LOCKTIME_VERIFY_SEQUENCE :: u32 where "LOCKTIME_VERIFY_SEQUENCE = push_bit 0 1"
definition LOCKTIME_MEDIAN_TIME_PAST :: u32 where "LOCKTIME_MEDIAN_TIME_PAST = push_bit 1 1"

definition IsFinalTx :: "CTransaction \<Rightarrow> int \<Rightarrow> int \<Rightarrow> bool" where
  "IsFinalTx tx nBlockHeight nBlockTime =
     (if nLockTime tx = 0 then True
      else if uint (nLockTime tx) < (if uint (nLockTime tx) < LOCKTIME_THRESHOLD then nBlockHeight else nBlockTime) then True
      else list_all (\<lambda>txin. nSequence txin = SEQUENCE_FINAL) (vin tx))"

text \<open>The flags are an \<^verbatim>\<open>int\<close>; a negative value stands for the rules in force, which are none.\<close>

definition CheckFinalTx :: "block_heap \<Rightarrow> CChain \<Rightarrow> int \<Rightarrow> CTransaction \<Rightarrow> int \<Rightarrow> chain_error + bool" where
  "CheckFinalTx h chainActive GetAdjustedTime tx nFlags =
     (let nFlags = max nFlags 0;
          nBlockHeight = CChain_Height chainActive + 1
      in if word_of_int nFlags AND LOCKTIME_MEDIAN_TIME_PAST \<noteq> 0
         then (case CChain_Tip chainActive of
                 None \<Rightarrow> Inl NullPointer
               | Some tip \<Rightarrow> Inr (IsFinalTx tx nBlockHeight (GetMedianTimePast h tip)))
         else Inr (IsFinalTx tx nBlockHeight GetAdjustedTime))"

text \<open>
  The loop of \<open>CalculateSequenceLocks\<close> over the inputs and the heights of the coins they spend, which it
  clears where they do not matter.
\<close>

fun sequence_locks_loop ::
    "block_heap \<Rightarrow> ptr \<Rightarrow> CTxIn list \<Rightarrow> int list \<Rightarrow> int \<Rightarrow> int \<Rightarrow> chain_error + (int \<times> int) \<times> int list" where
  "sequence_locks_loop h block [] heights nMinHeight nMinTime = Inr ((nMinHeight, nMinTime), heights)"
| "sequence_locks_loop h block (txin # ins) [] nMinHeight nMinTime = Inl AssertFailed"
| "sequence_locks_loop h block (txin # ins) (nCoinHeight # heights) nMinHeight nMinTime =
     (if nSequence txin AND SEQUENCE_LOCKTIME_DISABLE_FLAG \<noteq> 0
      then map_sum id (apsnd (Cons 0)) (sequence_locks_loop h block ins heights nMinHeight nMinTime)
      else if nSequence txin AND SEQUENCE_LOCKTIME_TYPE_FLAG \<noteq> 0 then
        (case GetAncestor h block (max (nCoinHeight - 1) 0) of
           Inl e \<Rightarrow> Inl e
         | Inr None \<Rightarrow> Inl NullPointer
         | Inr (Some p) \<Rightarrow>
             (let nCoinTime = GetMedianTimePast h p;
                  lock = uint (push_bit SEQUENCE_LOCKTIME_GRANULARITY (nSequence txin AND SEQUENCE_LOCKTIME_MASK))
              in map_sum id (apsnd (Cons nCoinHeight))
                   (sequence_locks_loop h block ins heights nMinHeight (max nMinTime (nCoinTime + lock - 1)))))
      else map_sum id (apsnd (Cons nCoinHeight))
             (sequence_locks_loop h block ins heights
                (max nMinHeight (nCoinHeight + uint (nSequence txin AND SEQUENCE_LOCKTIME_MASK) - 1)) nMinTime))"

definition CalculateSequenceLocks ::
    "block_heap \<Rightarrow> CTransaction \<Rightarrow> u32 \<Rightarrow> int list \<Rightarrow> ptr \<Rightarrow> chain_error + (int \<times> int) \<times> int list" where
  "CalculateSequenceLocks h tx nFlags prevHeights block =
     (if length prevHeights \<noteq> length (vin tx) then Inl AssertFailed
      else let fEnforceBIP68 = (scast (nVersion tx) :: u32) \<ge> 2 \<and> nFlags AND LOCKTIME_VERIFY_SEQUENCE \<noteq> 0
           in if \<not> fEnforceBIP68 then Inr ((- 1, - 1), prevHeights)
              else sequence_locks_loop h block (vin tx) prevHeights (- 1) (- 1))"

definition EvaluateSequenceLocks :: "block_heap \<Rightarrow> ptr \<Rightarrow> int \<times> int \<Rightarrow> chain_error + bool" where
  "EvaluateSequenceLocks h block lockPair =
     (case pprev (h block) of
        None \<Rightarrow> Inl AssertFailed
      | Some q \<Rightarrow> Inr (\<not> (fst lockPair \<ge> bi_nHeight (h block) \<or> snd lockPair \<ge> GetMedianTimePast h q)))"

definition SequenceLocks :: "block_heap \<Rightarrow> CTransaction \<Rightarrow> u32 \<Rightarrow> int list \<Rightarrow> ptr \<Rightarrow> chain_error + bool \<times> int list" where
  "SequenceLocks h tx nFlags prevHeights block =
     (case CalculateSequenceLocks h tx nFlags prevHeights block of
        Inl e \<Rightarrow> Inl e
      | Inr (lockPair, heights) \<Rightarrow> map_sum id (\<lambda>r. (r, heights)) (EvaluateSequenceLocks h block lockPair))"

section \<open>Signature operations\<close>

definition GetLegacySigOpCount :: "CTransaction \<Rightarrow> nat" where
  "GetLegacySigOpCount tx =
     sum_list (map (\<lambda>txin. GetSigOpCount (scriptSig txin) False) (vin tx)) +
     sum_list (map (\<lambda>txout. GetSigOpCount (scriptPubKey txout) False) (vout tx))"

fun p2sh_sigops_loop ::
    "(Coin \<Rightarrow> u64) \<Rightarrow> 'v view_ops \<Rightarrow> CTxIn list \<Rightarrow> nat \<Rightarrow> 'v CCoinsViewCache \<Rightarrow> (tx_input_error + nat) \<times> 'v CCoinsViewCache" where
  "p2sh_sigops_loop usage ops [] nSigOps inputs = (Inr nSigOps, inputs)"
| "p2sh_sigops_loop usage ops (txin # ins) nSigOps inputs =
     (case AccessCoin usage ops inputs (prevout txin) of
        (cn, inputs) \<Rightarrow>
          if IsSpent cn then (Inl AssertSpent, inputs)
          else p2sh_sigops_loop usage ops ins
                 (if IsPayToScriptHash (scriptPubKey (out cn))
                  then nSigOps + GetSigOpCount_P2SH (scriptPubKey (out cn)) (scriptSig txin) else nSigOps) inputs)"

definition GetP2SHSigOpCount ::
    "(Coin \<Rightarrow> u64) \<Rightarrow> 'v view_ops \<Rightarrow> CTransaction \<Rightarrow> 'v CCoinsViewCache \<Rightarrow> (tx_input_error + nat) \<times> 'v CCoinsViewCache" where
  "GetP2SHSigOpCount usage ops tx inputs =
     (if IsCoinBase tx then (Inr 0, inputs) else p2sh_sigops_loop usage ops (vin tx) 0 inputs)"

section \<open>Checks without context\<close>

fun check_outputs :: "CTxOut list \<Rightarrow> CAmount \<Rightarrow> check" where
  "check_outputs [] nValueOut = accept"
| "check_outputs (txout # outs) nValueOut =
     (if nValue txout < 0 then reject 100 ''bad-txns-vout-negative''
      else if nValue txout > MAX_MONEY then reject 100 ''bad-txns-vout-toolarge''
      else let nValueOut = nValueOut + nValue txout
           in if \<not> MoneyRange nValueOut then reject 100 ''bad-txns-txouttotal-toolarge''
              else check_outputs outs nValueOut)"

fun check_duplicates :: "CTxIn list \<Rightarrow> COutPoint set \<Rightarrow> check" where
  "check_duplicates [] vInOutPoints = accept"
| "check_duplicates (txin # ins) vInOutPoints =
     (if prevout txin \<in> vInOutPoints then reject 100 ''bad-txns-inputs-duplicate''
      else check_duplicates ins (insert (prevout txin) vInOutPoints))"

definition check_inputs :: "CTransaction \<Rightarrow> check" where
  "check_inputs tx =
     (if IsCoinBase tx then
        (let minCbSize = (if nType tx = TRANSACTION_COINBASE then 1 else 2) :: nat;
             size = length (scriptSig (vin tx ! 0))
         in if size < minCbSize \<or> size > 100 then reject 100 ''bad-cb-length'' else accept)
      else if list_ex (\<lambda>txin. COutPoint_IsNull (prevout txin)) (vin tx) then reject 10 ''bad-txns-prevout-null''
      else accept)"

definition CheckTransaction :: "CTransaction \<Rightarrow> check" where
  "CheckTransaction tx state =
     (let allowEmptyTxInOut = (nType tx = TRANSACTION_QUORUM_COMMITMENT) in
      if \<not> allowEmptyTxInOut \<and> vin tx = [] then reject 10 ''bad-txns-vin-empty'' state
      else if \<not> allowEmptyTxInOut \<and> vout tx = [] then reject 10 ''bad-txns-vout-empty'' state
      else if length (Serialize_CTransaction tx) > MAX_LEGACY_BLOCK_SIZE then reject 100 ''bad-txns-oversize'' state
      else if length (vExtraPayload tx) > MAX_TX_EXTRA_PAYLOAD then reject 100 ''bad-txns-payload-oversize'' state
      else (case check_outputs (vout tx) 0 state of
              (False, state) \<Rightarrow> (False, state)
            | (True, state) \<Rightarrow>
                (case check_duplicates (vin tx) {} state of
                   (False, state) \<Rightarrow> (False, state)
                 | (True, state) \<Rightarrow> check_inputs tx state)))"

section \<open>Checks that depend on the deployments\<close>

text \<open>A computation that may fail to return, meet an assertion or null pointer, or return a value.\<close>

type_synonym 'a run = "(chain_error + 'a) option"

definition run_bind :: "('e + 'a) option \<Rightarrow> ('a \<Rightarrow> ('e + 'b) option) \<Rightarrow> ('e + 'b) option" where
  "run_bind m f = (case m of None \<Rightarrow> None | Some (Inl e) \<Rightarrow> Some (Inl e) | Some (Inr x) \<Rightarrow> f x)"

lemma run_bind_simps [simp]:
  "run_bind None f = None" "run_bind (Some (Inl e)) f = Some (Inl e)" "run_bind (Some (Inr x)) f = f x"
  by (simp_all add: run_bind_def)

definition TRANSACTION_PROVIDER_REGISTER :: u16 where "TRANSACTION_PROVIDER_REGISTER = 1"
definition TRANSACTION_PROVIDER_UPDATE_SERVICE :: u16 where "TRANSACTION_PROVIDER_UPDATE_SERVICE = 2"
definition TRANSACTION_PROVIDER_UPDATE_REGISTRAR :: u16 where "TRANSACTION_PROVIDER_UPDATE_REGISTRAR = 3"
definition TRANSACTION_PROVIDER_UPDATE_REVOKE :: u16 where "TRANSACTION_PROVIDER_UPDATE_REVOKE = 4"
definition MAX_STANDARD_TX_SIZE :: nat where "MAX_STANDARD_TX_SIZE = 100000"

definition next_height :: "block_heap \<Rightarrow> ptr option \<Rightarrow> int" where
  "next_height h pindexPrev = (case pindexPrev of None \<Rightarrow> 0 | Some p \<Rightarrow> bi_nHeight (h p) + 1)"

definition check_tx_type :: "CTransaction \<Rightarrow> check" where
  "check_tx_type tx =
     (if sint (nVersion tx) \<ge> 3 then
        (if nType tx \<noteq> TRANSACTION_NORMAL \<and> nType tx \<noteq> TRANSACTION_PROVIDER_REGISTER \<and>
            nType tx \<noteq> TRANSACTION_PROVIDER_UPDATE_SERVICE \<and> nType tx \<noteq> TRANSACTION_PROVIDER_UPDATE_REGISTRAR \<and>
            nType tx \<noteq> TRANSACTION_PROVIDER_UPDATE_REVOKE \<and> nType tx \<noteq> TRANSACTION_COINBASE \<and>
            nType tx \<noteq> TRANSACTION_QUORUM_COMMITMENT
         then reject 100 ''bad-txns-type''
         else if IsCoinBase tx \<and> nType tx \<noteq> TRANSACTION_COINBASE then reject 100 ''bad-txns-cb-type''
         else accept)
      else if nType tx \<noteq> TRANSACTION_NORMAL then reject 100 ''bad-txns-type''
      else accept)"

definition ContextualCheckTransaction ::
    "block_heap \<Rightarrow> Params \<Rightarrow> ptr option \<Rightarrow> CTransaction \<Rightarrow> CValidationState \<times> VersionBitsCache
      \<Rightarrow> (bool \<times> CValidationState \<times> VersionBitsCache) run" where
  "ContextualCheckTransaction h params pindexPrev tx st =
     (let (state, cache) = st;
          fDIP0001Active_context = next_height h pindexPrev \<ge> DIP0001Height params
      in run_bind (VersionBitsState h pindexPrev params DEPLOYMENT_DIP0003 cache) (\<lambda>(threshold, cache).
           let (ok, state) = (if threshold = THRESHOLD_ACTIVE then check_tx_type tx state else accept state);
               (ok, state) = (if \<not> ok then (False, state)
                              else if fDIP0001Active_context \<and> length (Serialize_CTransaction tx) > MAX_STANDARD_TX_SIZE
                              then reject 100 ''bad-txns-oversize'' state
                              else accept state)
           in Some (Inr (ok, state, cache))))"

end
