(* ===== verification/Merkle.thy ===== *)
theory Merkle
  imports Transaction
begin

unbundle bit_operations_syntax

text \<open>
  The constant-space Merkle tree of \<^verbatim>\<open>consensus/merkle.cpp\<close>. The double SHA-256 of two concatenated hashes is
  the parameter \<open>H\<close>. The 32-bit \<^verbatim>\<open>count\<close> is a natural number: the code is limited to lists of fewer
  than 2 to the 32 leaves, and \<^verbatim>\<open>inner\<close> has 32 entries, so no level is above 31. A null \<^verbatim>\<open>pbranch\<close> is \<open>None\<close>.
\<close>

type_synonym hash2 = "uint256 \<Rightarrow> uint256 \<Rightarrow> uint256"

definition branch_step ::
    "uint256 \<Rightarrow> uint256 \<Rightarrow> int \<Rightarrow> nat \<Rightarrow> uint256 list option \<times> bool \<Rightarrow> uint256 list option \<times> bool" where
  "branch_step innerh h matchlevel level st =
     (case st of
        (None, matchh) \<Rightarrow> (None, matchh)
      | (Some branch, matchh) \<Rightarrow>
          if matchh then (Some (branch @ [innerh]), matchh)
          else if matchlevel = int level then (Some (branch @ [h]), True)
          else (Some branch, matchh))"

text \<open>The loop over the zero bits below the lowest one of \<^verbatim>\<open>count\<close>, for a new leaf.\<close>

function leaf_loop ::
    "hash2 \<Rightarrow> nat \<Rightarrow> uint256 list \<Rightarrow> int \<Rightarrow> nat \<Rightarrow> uint256 \<Rightarrow> bool \<Rightarrow> uint256 list option \<times> bool
      \<Rightarrow> nat \<times> uint256 \<times> bool \<times> uint256 list option \<times> bool" where
  "leaf_loop H count inner matchlevel level h mutated st =
     (if level \<ge> 32 \<or> bit count level then (level, h, mutated, st)
      else leaf_loop H count inner matchlevel (level + 1) (H (inner ! level) h) (mutated \<or> inner ! level = h)
             (branch_step (inner ! level) h matchlevel level st))"
  by pat_completeness auto
termination
  by (relation "measure (\<lambda>(H, count, inner, m, level, h, mut, st). 32 - level)") auto

declare leaf_loop.simps [simp del]

fun leaves_loop ::
    "hash2 \<Rightarrow> u32 \<Rightarrow> uint256 list \<Rightarrow> nat \<Rightarrow> uint256 list \<Rightarrow> bool \<Rightarrow> int \<Rightarrow> uint256 list option
      \<Rightarrow> nat \<times> uint256 list \<times> bool \<times> int \<times> uint256 list option" where
  "leaves_loop H branchpos [] count inner mutated matchlevel pbranch = (count, inner, mutated, matchlevel, pbranch)"
| "leaves_loop H branchpos (leaf # leaves) count inner mutated matchlevel pbranch =
     (let matchh = (count = unat branchpos);
          (level, h, mutated, pbranch, matchh) =
            leaf_loop H (count + 1) inner matchlevel 0 leaf mutated (pbranch, matchh)
      in leaves_loop H branchpos leaves (count + 1) (inner[level := h]) mutated
           (if matchh then int level else matchlevel) pbranch)"

function lowest_level :: "nat \<Rightarrow> nat \<Rightarrow> nat" where
  "lowest_level count level = (if level \<ge> 32 \<or> bit count level then level else lowest_level count (level + 1))"
  by pat_completeness auto
termination
  by (relation "measure (\<lambda>(count, level). 32 - level)") auto

declare lowest_level.simps [simp del]

text \<open>The inner loop of the final sweep.\<close>

function propagate_loop ::
    "hash2 \<Rightarrow> nat \<Rightarrow> uint256 list \<Rightarrow> int \<Rightarrow> nat \<Rightarrow> uint256 \<Rightarrow> uint256 list option \<times> bool
      \<Rightarrow> nat \<times> uint256 \<times> uint256 list option \<times> bool" where
  "propagate_loop H count inner matchlevel level h st =
     (if level \<ge> 32 \<or> bit count level then (level, h, st)
      else propagate_loop H count inner matchlevel (level + 1) (H (inner ! level) h)
             (branch_step (inner ! level) h matchlevel level st))"
  by pat_completeness auto
termination
  by (relation "measure (\<lambda>(H, count, inner, m, level, h, st). 32 - level)") auto

declare propagate_loop.simps [simp del]

lemma propagate_level: "propagate_loop H count inner m level h st = (level', h', st') \<Longrightarrow> level \<le> level'"
  by (induction H count inner m level h st rule: propagate_loop.induct)
    (subst (asm) (2) propagate_loop.simps, auto split: if_splits)

function sweep_loop ::
    "hash2 \<Rightarrow> nat \<Rightarrow> uint256 list \<Rightarrow> int \<Rightarrow> nat \<Rightarrow> uint256 \<Rightarrow> uint256 list option \<times> bool
      \<Rightarrow> uint256 \<times> uint256 list option" where
  "sweep_loop H count inner matchlevel level h st =
     (if level \<ge> 32 \<or> count = 2 ^ level then (h, fst st)
      else let (pbranch, matchh) = st;
               pbranch = (case pbranch of None \<Rightarrow> None | Some b \<Rightarrow> if matchh then Some (b @ [h]) else Some b);
               count' = count + 2 ^ level;
               (level', h', st') = propagate_loop H count' inner matchlevel (level + 1) (H h h) (pbranch, matchh)
           in sweep_loop H count' inner matchlevel level' h' st')"
  by pat_completeness auto
termination
  by (relation "measure (\<lambda>(H, count, inner, m, level, h, st). 32 - level)") (auto split: prod.splits dest!: propagate_level)

declare sweep_loop.simps [simp del]

definition MerkleComputation ::
    "hash2 \<Rightarrow> uint256 list \<Rightarrow> u32 \<Rightarrow> bool \<Rightarrow> uint256 \<times> bool \<times> uint256 list option" where
  "MerkleComputation H leaves branchpos want_branch =
     (let pbranch = (if want_branch then Some [] else None) in
      if length leaves = 0 then (0, False, pbranch)
      else let (count, inner, mutated, matchlevel, pbranch) =
                 leaves_loop H branchpos leaves 0 (replicate 32 0) False (- 1) pbranch;
               level = lowest_level count 0;
               h = inner ! level;
               (root, pbranch) = sweep_loop H count inner matchlevel level h (pbranch, matchlevel = int level)
           in (root, mutated, pbranch))"

definition ComputeMerkleRoot :: "hash2 \<Rightarrow> uint256 list \<Rightarrow> uint256 \<times> bool" where
  "ComputeMerkleRoot H leaves = (let (root, mutated, _) = MerkleComputation H leaves (- 1) False in (root, mutated))"

definition ComputeMerkleBranch :: "hash2 \<Rightarrow> uint256 list \<Rightarrow> u32 \<Rightarrow> uint256 list" where
  "ComputeMerkleBranch H leaves position =
     (case MerkleComputation H leaves position True of (_, _, Some b) \<Rightarrow> b | _ \<Rightarrow> [])"

fun ComputeMerkleRootFromBranch :: "hash2 \<Rightarrow> uint256 \<Rightarrow> uint256 list \<Rightarrow> u32 \<Rightarrow> uint256" where
  "ComputeMerkleRootFromBranch H hash [] nIndex = hash"
| "ComputeMerkleRootFromBranch H hash (it # vMerkleBranch) nIndex =
     ComputeMerkleRootFromBranch H (if nIndex AND 1 \<noteq> 0 then H it hash else H hash it) vMerkleBranch (drop_bit 1 nIndex)"

definition BlockMerkleRoot :: "hash2 \<Rightarrow> (CTransaction \<Rightarrow> uint256) \<Rightarrow> CTransaction list \<Rightarrow> uint256 \<times> bool" where
  "BlockMerkleRoot H GetHash vtx = ComputeMerkleRoot H (map GetHash vtx)"

definition BlockMerkleBranch :: "hash2 \<Rightarrow> (CTransaction \<Rightarrow> uint256) \<Rightarrow> CTransaction list \<Rightarrow> u32 \<Rightarrow> uint256 list" where
  "BlockMerkleBranch H GetHash vtx position = ComputeMerkleBranch H (map GetHash vtx) position"

end
