(* ===== verification/Block_Rules.thy ===== *)
theory Block_Rules
  imports Tx_Rules Merkle
begin

unbundle bit_operations_syntax

text \<open>
  The rules for headers and blocks in \<^verbatim>\<open>validation.cpp\<close>: the checks that need no context, the checks against the
  parent in the block index, and the acceptance of headers into the index. The hash of a header and the
  proof-of-work hash functions are parameters; the adjusted time of the node is an argument. Notifications and the
  self-check \<^verbatim>\<open>CheckBlockIndex\<close>, which changes nothing, are left out.
\<close>

section \<open>Blocks\<close>

text \<open>\<^verbatim>\<open>CBlock\<close> extends the header; where the code passes a block as a header it is truncated.\<close>

record CBlock = CBlockHeader +
  vtx :: "CTransaction list"
  fChecked :: bool

definition CBlock_null :: CBlock where
  "CBlock_null = CBlockHeader.extend CBlockHeader_null \<lparr> vtx = [], fChecked = False \<rparr>"

definition CBlock_of_header :: "CBlockHeader \<Rightarrow> CBlock" where
  "CBlock_of_header header = CBlockHeader.extend header \<lparr> vtx = [], fChecked = False \<rparr>"

definition CBlock_GetBlockHeader :: "CBlock \<Rightarrow> CBlockHeader" where
  "CBlock_GetBlockHeader block =
     \<lparr> bh_nVersion = bh_nVersion block, bh_hashPrevBlock = bh_hashPrevBlock block, bh_hashMerkleRoot = bh_hashMerkleRoot block,
       bh_nTime = bh_nTime block, bh_nBits = bh_nBits block, bh_nNonce = bh_nNonce block \<rparr>"

definition Serialize_CBlock :: "CBlock \<Rightarrow> bytes" where
  "Serialize_CBlock block =
     Serialize_CBlockHeader (CBlockHeader.truncate block) @ Serialize_vector Serialize_CTransaction (vtx block)"

definition Unserialize_CBlock :: "nat \<Rightarrow> nat \<Rightarrow> nat \<Rightarrow> CBlock unser" where
  "Unserialize_CBlock sizeof_CTransactionRef sizeof_CTxIn sizeof_CTxOut =
     unser_bind Unserialize_CBlockHeader (\<lambda>header.
     unser_bind (Unserialize_vector sizeof_CTransactionRef (Unserialize_CTransaction sizeof_CTxIn sizeof_CTxOut)) (\<lambda>txs.
       unser_return (CBlockHeader.extend header \<lparr> vtx = txs, fChecked = False \<rparr>)))"

text \<open>The hash functions of the proof-of-work algorithms, on the 80 bytes of a header.\<close>

record pow_hashes =
  scrypt_1024_1_1_256 :: "bytes \<Rightarrow> uint256"
  HashX11 :: "bytes \<Rightarrow> uint256"
  yespower_hash :: "bytes \<Rightarrow> uint256"
  LYRA2 :: "bytes \<Rightarrow> uint256"

definition GetPoWAlgoHash :: "(CBlockHeader \<Rightarrow> uint256) \<Rightarrow> pow_hashes \<Rightarrow> CBlockHeader \<Rightarrow> uint256" where
  "GetPoWAlgoHash GetHash pow block =
     (let algo = version_GetAlgo (bh_nVersion block); bs = Serialize_CBlockHeader block in
      if algo = ALGO_SHA256D then GetHash block
      else if algo = ALGO_SCRYPT then scrypt_1024_1_1_256 pow bs
      else if algo = ALGO_X11 then HashX11 pow bs
      else if algo = ALGO_YESPOWER then yespower_hash pow bs
      else if algo = ALGO_LYRA2 then LYRA2 pow bs
      else if algo = ALGO_UNKNOWN then ArithToUint256 (base_not (base_u64 0))
      else GetHash block)"

text \<open>What the checks use of the network: its consensus parameters and its checkpoints, in the order of their heights.\<close>

record CChainParams =
  consensus :: Params
  mapCheckpoints :: "(int \<times> uint256) list"

section \<open>Checks without context\<close>

definition CheckBlockHeader :: "(CBlockHeader \<Rightarrow> uint256) \<Rightarrow> pow_hashes \<Rightarrow> Params \<Rightarrow> bool \<Rightarrow> CBlockHeader \<Rightarrow> check" where
  "CheckBlockHeader GetHash pow params fCheckPOW block state =
     (if fCheckPOW \<and> \<not> CheckProofOfWork (GetPoWAlgoHash GetHash pow block) (bh_nBits block) params
      then reject 50 ''high-hash'' state
      else if hashDevnetGenesisBlock params \<noteq> 0 \<and> bh_hashPrevBlock block = hashGenesisBlock params \<and>
              GetHash block \<noteq> hashDevnetGenesisBlock params
      then reject 100 ''devnet-genesis'' state
      else accept state)"

definition check_merkle_root :: "hash2 \<Rightarrow> (CTransaction \<Rightarrow> uint256) \<Rightarrow> CBlock \<Rightarrow> check" where
  "check_merkle_root H GetTxHash block state =
     (let (hashMerkleRoot2, mutated) = BlockMerkleRoot H GetTxHash (vtx block) in
      if bh_hashMerkleRoot block \<noteq> hashMerkleRoot2 then (False, DoS state 100 REJECT_INVALID ''bad-txnmrklroot'' True)
      else if mutated then (False, DoS state 100 REJECT_INVALID ''bad-txns-duplicate'' True)
      else accept state)"

fun check_transactions :: "CTransaction list \<Rightarrow> check" where
  "check_transactions [] state = accept state"
| "check_transactions (tx # txs) state =
     (case CheckTransaction tx state of
        (False, state) \<Rightarrow> (False, Invalid state (chRejectCode state) (strRejectReason state))
      | (True, state) \<Rightarrow> check_transactions txs state)"

text \<open>The count of signature operations is an \<^verbatim>\<open>unsigned int\<close>.\<close>

definition count_sigops :: "CTransaction list \<Rightarrow> u32" where
  "count_sigops txs = sum_list (map (\<lambda>tx. of_nat (GetLegacySigOpCount tx)) txs)"

definition check_body :: "CBlock \<Rightarrow> check" where
  "check_body block state =
     (if vtx block = [] \<or> length (vtx block) > MaxBlockSize True \<or> length (Serialize_CBlock block) > MaxBlockSize True
      then reject 100 ''bad-blk-length'' state
      else if vtx block = [] \<or> \<not> IsCoinBase (vtx block ! 0) then reject 100 ''bad-cb-missing'' state
      else if list_ex IsCoinBase (drop 1 (vtx block)) then reject 100 ''bad-cb-multiple'' state
      else case check_transactions (vtx block) state of
             (False, state) \<Rightarrow> (False, state)
           | (True, state) \<Rightarrow>
               if unat (count_sigops (vtx block)) > MaxBlockSigOps True then reject 100 ''bad-blk-sigops'' state
               else accept state)"

definition CheckBlock ::
    "(CBlockHeader \<Rightarrow> uint256) \<Rightarrow> pow_hashes \<Rightarrow> hash2 \<Rightarrow> (CTransaction \<Rightarrow> uint256) \<Rightarrow> Params \<Rightarrow> bool \<Rightarrow> bool
      \<Rightarrow> CBlock \<Rightarrow> CValidationState \<Rightarrow> bool \<times> CValidationState \<times> CBlock" where
  "CheckBlock GetHash pow H GetTxHash params fCheckPOW fCheckMerkleRoot block state =
     (if fChecked block then (True, state, block)
      else case CheckBlockHeader GetHash pow params fCheckPOW (CBlockHeader.truncate block) state of
             (False, state) \<Rightarrow> (False, state, block)
           | (True, state) \<Rightarrow>
               (case (if fCheckMerkleRoot then check_merkle_root H GetTxHash block state else accept state) of
                  (False, state) \<Rightarrow> (False, state, block)
                | (True, state) \<Rightarrow>
                    (case check_body block state of
                       (False, state) \<Rightarrow> (False, state, block)
                     | (True, state) \<Rightarrow>
                         (True, state, if fCheckPOW \<and> fCheckMerkleRoot then block \<lparr> fChecked := True \<rparr> else block))))"

section \<open>Checks against the block index\<close>

fun last_checkpoint_loop :: "(uint256 \<rightharpoonup> ptr) \<Rightarrow> (int \<times> uint256) list \<Rightarrow> ptr option" where
  "last_checkpoint_loop m [] = None"
| "last_checkpoint_loop m ((height, hash) # rest) =
     (case m hash of Some p \<Rightarrow> Some p | None \<Rightarrow> last_checkpoint_loop m rest)"

definition GetLastCheckpoint :: "(uint256 \<rightharpoonup> ptr) \<Rightarrow> CChainParams \<Rightarrow> ptr option" where
  "GetLastCheckpoint m chainparams = last_checkpoint_loop m (rev (mapCheckpoints chainparams))"

definition CheckIndexAgainstCheckpoint :: "index_state \<Rightarrow> CChainParams \<Rightarrow> ptr \<Rightarrow> check" where
  "CheckIndexAgainstCheckpoint s chainparams pindexPrev state =
     (if bi_hash (bi_heap s pindexPrev) = hashGenesisBlock (consensus chainparams) then accept state
      else let height = bi_nHeight (bi_heap s pindexPrev) + 1
           in case GetLastCheckpoint (mapBlockIndex s) chainparams of
                None \<Rightarrow> accept state
              | Some pcheckpoint \<Rightarrow>
                  if height < bi_nHeight (bi_heap s pcheckpoint) then (False, DoS state 100 0 '''' False)
                  else accept state)"

text \<open>The eight hexadecimal digits of \<^verbatim>\<open>%08x\<close>.\<close>

definition hex_digit :: "nat \<Rightarrow> char" where
  "hex_digit d = (''0123456789abcdef'' ! d)"

definition format_08x :: "u32 \<Rightarrow> string" where
  "format_08x v = map (\<lambda>i. hex_digit (unat (drop_bit (4 * i) v AND 15))) (rev [0..<8])"

definition ContextualCheckBlockHeader ::
    "block_heap \<Rightarrow> Params \<Rightarrow> ptr option \<Rightarrow> int \<Rightarrow> CBlockHeader \<Rightarrow> CValidationState
      \<Rightarrow> (index_error + bool \<times> CValidationState) option" where
  "ContextualCheckBlockHeader h params pindexPrev nAdjustedTime block state =
     (let height = next_height h pindexPrev;
          algo = version_GetAlgo (bh_nVersion block);
          time = uint (bh_nTime block);
          version = sint (bh_nVersion block)
      in case GetNextWorkRequired h pindexPrev params algo of
           None \<Rightarrow> None
         | Some (Inl e) \<Rightarrow> Some (Inl (Uint e))
         | Some (Inr nBits) \<Rightarrow>
             if bh_nBits block \<noteq> nBits then Some (Inr (reject 100 ''bad-diffbits'' state))
             else case pindexPrev of
                    None \<Rightarrow> Some (Inl (Assertion NullPointer))
                  | Some p \<Rightarrow>
                      Some (Inr
                       (if time \<le> GetMedianTimePast h p then (False, Invalid state REJECT_INVALID ''time-too-old'')
                        else if time > nAdjustedTime + 2 * 60 * 60 then (False, Invalid state REJECT_INVALID ''time-too-new'')
                        else if version < 2 \<and> height \<ge> BIP34Height params \<or> version < 3 \<and> height \<ge> BIP66Height params \<or>
                                version < 4 \<and> height \<ge> BIP65Height params
                        then (False, Invalid state REJECT_OBSOLETE (''bad-version(0x'' @ format_08x (bh_nVersion block) @ '')''))
                        else if algo = 3 \<and> height < v2DiffChangeHeight params
                        then (False, Invalid state REJECT_INVALID ''invalid-algo'')
                        else if algo = 4 \<and> height < AlgoChangeHeight params
                        then (False, Invalid state REJECT_INVALID ''invalid-algo'')
                        else accept state)))"

text \<open>The loop of \<open>ContextualCheckBlock\<close> over the transactions; it returns the count of signature operations.\<close>

fun contextual_txs_loop ::
    "block_heap \<Rightarrow> Params \<Rightarrow> ptr option \<Rightarrow> int \<Rightarrow> int \<Rightarrow> CTransaction list \<Rightarrow> u32 \<Rightarrow> CValidationState \<times> VersionBitsCache
      \<Rightarrow> (u32 option \<times> CValidationState \<times> VersionBitsCache) run" where
  "contextual_txs_loop h params pindexPrev height cutoff [] nSigOps (state, cache) = Some (Inr (Some nSigOps, state, cache))"
| "contextual_txs_loop h params pindexPrev height cutoff (tx # txs) nSigOps (state, cache) =
     (if \<not> IsFinalTx tx height cutoff
      then Some (Inr (None, DoS state 10 REJECT_INVALID ''bad-txns-nonfinal'' False, cache))
      else run_bind (ContextualCheckTransaction h params pindexPrev tx (state, cache)) (\<lambda>(ok, state, cache).
             if \<not> ok then Some (Inr (None, state, cache))
             else contextual_txs_loop h params pindexPrev height cutoff txs (nSigOps + of_nat (GetLegacySigOpCount tx)) (state, cache)))"

text \<open>The rules for the coinbase; its first input is accessed without a check, so that a transaction without inputs is undefined behaviour there.\<close>

definition check_coinbase :: "Params \<Rightarrow> int \<Rightarrow> bool \<Rightarrow> CTransaction \<Rightarrow> CValidationState \<Rightarrow> chain_error + bool \<times> CValidationState" where
  "check_coinbase params height fDIP0003Active_context cb state =
     (if height \<ge> BIP34Height params \<and> \<not> fDIP0003Active_context then
        (case vin cb of
           [] \<Rightarrow> Inl NullPointer
         | txin # _ \<Rightarrow>
             (let expect = push_int64 [] height in
              if length (scriptSig txin) < length expect \<or> take (length expect) (scriptSig txin) \<noteq> expect
              then Inr (reject 100 ''bad-cb-height'' state) else Inr (accept state)))
      else if fDIP0003Active_context \<and> nType cb \<noteq> TRANSACTION_COINBASE then Inr (reject 100 ''bad-cb-type'' state)
      else Inr (accept state))"

definition lock_time_cutoff :: "block_heap \<Rightarrow> Params \<Rightarrow> ptr option \<Rightarrow> CBlock \<Rightarrow> chain_error + int" where
  "lock_time_cutoff h params pindexPrev block =
     (let nLockTimeFlags = (if next_height h pindexPrev \<ge> CSVHeight params then LOCKTIME_MEDIAN_TIME_PAST else 0) in
      if nLockTimeFlags AND LOCKTIME_MEDIAN_TIME_PAST \<noteq> 0
      then (case pindexPrev of None \<Rightarrow> Inl NullPointer | Some p \<Rightarrow> Inr (GetMedianTimePast h p))
      else Inr (uint (bh_nTime block)))"

definition ContextualCheckBlock ::
    "block_heap \<Rightarrow> Params \<Rightarrow> ptr option \<Rightarrow> CBlock \<Rightarrow> CValidationState \<times> VersionBitsCache
      \<Rightarrow> (bool \<times> CValidationState \<times> VersionBitsCache) run" where
  "ContextualCheckBlock h params pindexPrev block st =
     (let (state, cache) = st;
          height = next_height h pindexPrev;
          fDIP0001Active_context = height \<ge> DIP0001Height params;
          nMaxBlockSize = MaxBlockSize fDIP0001Active_context
      in run_bind (Some (lock_time_cutoff h params pindexPrev block)) (\<lambda>nLockTimeCutoff.
         run_bind (VersionBitsState h pindexPrev params DEPLOYMENT_DIP0003 cache) (\<lambda>(threshold, cache).
           if vtx block = [] \<or> length (vtx block) > nMaxBlockSize \<or> length (Serialize_CBlock block) > nMaxBlockSize
           then Some (Inr (False, DoS state 10 REJECT_INVALID ''bad-blk-length'' False, cache))
           else run_bind (contextual_txs_loop h params pindexPrev height nLockTimeCutoff (vtx block) 0 (state, cache))
             (\<lambda>(counted, state, cache).
               case counted of
                 None \<Rightarrow> Some (Inr (False, state, cache))
               | Some nSigOps \<Rightarrow>
                   if unat nSigOps > MaxBlockSigOps fDIP0001Active_context
                   then Some (Inr (False, DoS state 10 REJECT_INVALID ''bad-blk-sigops'' False, cache))
                   else run_bind (Some (check_coinbase params height (threshold = THRESHOLD_ACTIVE) (vtx block ! 0) state))
                          (\<lambda>(ok, state). Some (Inr (ok, state, cache)))))))"

section \<open>Accepting headers\<close>

definition already_known :: "index_state \<Rightarrow> ptr \<Rightarrow> CValidationState \<Rightarrow> bool \<times> ptr option \<times> CValidationState \<times> index_state" where
  "already_known s pindex state =
     (if bi_nStatus (bi_heap s pindex) AND BLOCK_FAILED_MASK \<noteq> 0
      then (False, Some pindex, Invalid state 0 ''duplicate'', s)
      else (True, Some pindex, state, s))"

definition check_new_header ::
    "(CBlockHeader \<Rightarrow> uint256) \<Rightarrow> pow_hashes \<Rightarrow> CChainParams \<Rightarrow> bool \<Rightarrow> int \<Rightarrow> CBlockHeader \<Rightarrow> index_state \<Rightarrow> CValidationState
      \<Rightarrow> (index_error + bool \<times> CValidationState) option" where
  "check_new_header GetHash pow chainparams fCheckpointsEnabled adjusted_time block s state =
     (case CheckBlockHeader GetHash pow (consensus chainparams) True block state of
        (False, state) \<Rightarrow> Some (Inr (False, state))
      | (True, state) \<Rightarrow>
          (case mapBlockIndex s (bh_hashPrevBlock block) of
             None \<Rightarrow> Some (Inr (False, DoS state 10 0 ''bad-prevblk'' False))
           | Some pindexPrev \<Rightarrow>
               if bi_nStatus (bi_heap s pindexPrev) AND BLOCK_FAILED_MASK \<noteq> 0
               then Some (Inr (reject 100 ''bad-prevblk'' state))
               else (case (if fCheckpointsEnabled then CheckIndexAgainstCheckpoint s chainparams pindexPrev state else accept state) of
                       (False, state) \<Rightarrow> Some (Inr (False, state))
                     | (True, state) \<Rightarrow>
                         ContextualCheckBlockHeader (bi_heap s) (consensus chainparams) (Some pindexPrev) adjusted_time block state)))"

definition AcceptBlockHeader ::
    "(CBlockHeader \<Rightarrow> uint256) \<Rightarrow> pow_hashes \<Rightarrow> CChainParams \<Rightarrow> bool \<Rightarrow> int \<Rightarrow> CBlockHeader \<Rightarrow> CValidationState \<Rightarrow> index_state
      \<Rightarrow> (index_error + bool \<times> ptr option \<times> CValidationState \<times> index_state) option" where
  "AcceptBlockHeader GetHash pow chainparams fCheckpointsEnabled adjusted_time block state s =
     (let hash = GetHash block;
          enter = (\<lambda>state. run_bind (AddToBlockIndex GetHash (consensus chainparams) block s)
                     (\<lambda>(pindex, s). Some (Inr (True, Some pindex, state, s))))
      in if hash = hashGenesisBlock (consensus chainparams) then enter state
         else case mapBlockIndex s hash of
                Some pindex \<Rightarrow> Some (Inr (already_known s pindex state))
              | None \<Rightarrow>
                  run_bind (check_new_header GetHash pow chainparams fCheckpointsEnabled adjusted_time block s state) (\<lambda>(ok, state).
                    if ok then enter state else Some (Inr (False, None, state, s))))"

text \<open>\<^verbatim>\<open>ppindex\<close> is passed and returned.\<close>

fun ProcessNewBlockHeaders ::
    "(CBlockHeader \<Rightarrow> uint256) \<Rightarrow> pow_hashes \<Rightarrow> CChainParams \<Rightarrow> bool \<Rightarrow> int \<Rightarrow> CBlockHeader list \<Rightarrow> ptr option
      \<Rightarrow> CValidationState \<Rightarrow> index_state \<Rightarrow> (index_error + bool \<times> ptr option \<times> CValidationState \<times> index_state) option" where
  "ProcessNewBlockHeaders GetHash pow chainparams fCheckpointsEnabled adjusted_time [] ppindex state s = Some (Inr (True, ppindex, state, s))"
| "ProcessNewBlockHeaders GetHash pow chainparams fCheckpointsEnabled adjusted_time (header # headers) ppindex state s =
     run_bind (AcceptBlockHeader GetHash pow chainparams fCheckpointsEnabled adjusted_time header state s)
       (\<lambda>(ok, pindex, state, s).
         if \<not> ok then Some (Inr (False, ppindex, state, s))
         else ProcessNewBlockHeaders GetHash pow chainparams fCheckpointsEnabled adjusted_time headers pindex state s)"

end
