(* ===== verification/Best_Chain.thy ===== *)
theory Best_Chain
  imports Block_Rules
begin

unbundle bit_operations_syntax

text \<open>
  The choice and activation of the best chain (\<^verbatim>\<open>validation.cpp\<close>): which blocks have all their data, the set of candidates for
  the tip, the search for the best usable candidate, the steps that disconnect and connect blocks, and the
  commands that mark blocks. What \<open>ConnectBlock\<close> and \<open>DisconnectBlock\<close> decide about a block, together with reading it
  from disk and flushing, is a parameter, and so is the rest of the node's state they change; warnings, the memory pool,
  notifications, and a request to shut down in the middle are left out.
\<close>

section \<open>The state\<close>

definition work_less :: "block_heap \<Rightarrow> ptr \<Rightarrow> ptr \<Rightarrow> bool" where
  "work_less h pa pb =
     (if CompareTo (nChainWork (h pa)) (nChainWork (h pb)) > 0 then False
      else if CompareTo (nChainWork (h pa)) (nChainWork (h pb)) < 0 then True
      else if bi_nSequenceId (h pa) < bi_nSequenceId (h pb) then False
      else if bi_nSequenceId (h pa) > bi_nSequenceId (h pb) then True
      else if pa < pb then False
      else if pa > pb then True
      else False)"

text \<open>\<^verbatim>\<open>std::set\<close> with this order is the sorted list of its elements; equivalent elements are the same pointer.\<close>

fun set_insert :: "block_heap \<Rightarrow> ptr \<Rightarrow> ptr list \<Rightarrow> ptr list" where
  "set_insert h p [] = [p]"
| "set_insert h p (q # qs) =
     (if work_less h q p then q # set_insert h p qs
      else if work_less h p q then p # q # qs
      else q # qs)"

definition set_erase :: "ptr \<Rightarrow> ptr list \<Rightarrow> ptr list" where
  "set_erase p ps = remove1 p ps"

text \<open>\<^verbatim>\<open>std::multimap\<close> as the list of its pairs; equal keys keep the order of insertion. A key is a \<^verbatim>\<open>pprev\<close>.\<close>

record 'v chain_state =
  cs_index :: index_state
  chainActive :: CChain
  setBlockIndexCandidates :: "ptr list"
  mapBlocksUnlinked :: "(ptr option \<times> ptr) list"
  pindexBestInvalid :: "ptr option"
  nBlockSequenceId :: int
  nBlockReverseSequenceId :: int
  nLastPreciousChainwork :: base_uint
  versionbitscache :: VersionBitsCache
  node_rest :: 'v

abbreviation entries :: "'v chain_state \<Rightarrow> block_heap" where
  "entries s \<equiv> bi_heap (cs_index s)"

abbreviation Tip :: "'v chain_state \<Rightarrow> ptr option" where
  "Tip s \<equiv> CChain_Tip (chainActive s)"

definition set_entry :: "ptr \<Rightarrow> (CBlockIndex \<Rightarrow> CBlockIndex) \<Rightarrow> 'v chain_state \<Rightarrow> 'v chain_state" where
  "set_entry p f s = s \<lparr> cs_index := (cs_index s) \<lparr> bi_heap := (entries s)(p := f (entries s p)) \<rparr> \<rparr>"

definition set_dirty :: "ptr \<Rightarrow> 'v chain_state \<Rightarrow> 'v chain_state" where
  "set_dirty p s = s \<lparr> cs_index := (cs_index s) \<lparr> setDirtyBlockIndex := List.insert p (setDirtyBlockIndex (cs_index s)) \<rparr> \<rparr>"

definition add_status :: "ptr \<Rightarrow> u32 \<Rightarrow> 'v chain_state \<Rightarrow> 'v chain_state" where
  "add_status p bits = set_entry p (\<lambda>bi. bi \<lparr> bi_nStatus := bi_nStatus bi OR bits \<rparr>)"

definition erase_candidate :: "ptr \<Rightarrow> 'v chain_state \<Rightarrow> 'v chain_state" where
  "erase_candidate p s = s \<lparr> setBlockIndexCandidates := set_erase p (setBlockIndexCandidates s) \<rparr>"

definition insert_candidate :: "ptr \<Rightarrow> 'v chain_state \<Rightarrow> 'v chain_state" where
  "insert_candidate p s = s \<lparr> setBlockIndexCandidates := set_insert (entries s) p (setBlockIndexCandidates s) \<rparr>"

section \<open>Receiving blocks\<close>

text \<open>The queue of blocks that have become connectable; every turn empties the entries of one key.\<close>

function link_queue :: "ptr list \<Rightarrow> 'v chain_state \<Rightarrow> 'v chain_state" where
  "link_queue [] s = s"
| "link_queue (pindex # queue) s =
     (let h = entries s;
          chainTx = (case pprev (h pindex) of None \<Rightarrow> 0 | Some q \<Rightarrow> bi_nChainTx (h q)) + bi_nTx (h pindex);
          s = set_entry pindex (\<lambda>bi. bi \<lparr> bi_nChainTx := chainTx, bi_nSequenceId := nBlockSequenceId s \<rparr>) s;
          s = s \<lparr> nBlockSequenceId := nBlockSequenceId s + 1 \<rparr>;
          s = (case Tip s of
                 None \<Rightarrow> insert_candidate pindex s
               | Some tip \<Rightarrow> if \<not> work_less (entries s) pindex tip then insert_candidate pindex s else s);
          next = map snd (filter (\<lambda>(a, b). a = Some pindex) (mapBlocksUnlinked s));
          s = s \<lparr> mapBlocksUnlinked := filter (\<lambda>(a, b). a \<noteq> Some pindex) (mapBlocksUnlinked s) \<rparr>
      in link_queue (queue @ next) s)"
  by pat_completeness auto
termination
proof (relation "measure (\<lambda>(queue, s). length queue + length (mapBlocksUnlinked s))", simp, goal_cases)
  case (1 pindex queue s)
  let ?u = "mapBlocksUnlinked s"
  have "length (filter (\<lambda>(a, b). a = Some pindex) ?u) + length (filter (\<lambda>(a, b). a \<noteq> Some pindex) ?u) = length ?u"
    using sum_length_filter_compl [of "\<lambda>(a, b). a = Some pindex" ?u] by (simp add: case_prod_unfold)
  with 1 show ?case by (simp add: set_entry_def insert_candidate_def split: option.splits)
qed

definition ReceivedBlockTransactions :: "nat \<Rightarrow> ptr \<Rightarrow> 'v chain_state \<Rightarrow> 'v chain_state" where
  "ReceivedBlockTransactions ntx pindexNew s =
     (let s = set_entry pindexNew (\<lambda>bi. snd (RaiseValidity
                (bi \<lparr> bi_nTx := of_nat ntx, bi_nChainTx := 0, bi_nStatus := bi_nStatus bi OR BLOCK_HAVE_DATA \<rparr>)
                BLOCK_VALID_TRANSACTIONS)) s;
          s = set_dirty pindexNew s;
          h = entries s
      in case pprev (h pindexNew) of
           None \<Rightarrow> link_queue [pindexNew] s
         | Some q \<Rightarrow>
             if bi_nChainTx (h q) \<noteq> 0 then link_queue [pindexNew] s
             else if CBlockIndex_IsValid (h q) BLOCK_VALID_TREE
             then s \<lparr> mapBlocksUnlinked := mapBlocksUnlinked s @ [(Some q, pindexNew)] \<rparr>
             else s)"

section \<open>The best usable candidate\<close>

definition unusable :: "CBlockIndex \<Rightarrow> bool" where
  "unusable bi \<longleftrightarrow> bi_nStatus bi AND BLOCK_FAILED_MASK \<noteq> 0 \<or> bi_nStatus bi AND BLOCK_HAVE_DATA = 0"

text \<open>The walk from the candidate to the active chain; it stops at the first block that is not usable.\<close>

partial_function (option) find_unusable :: "block_heap \<Rightarrow> CChain \<Rightarrow> ptr option \<Rightarrow> (chain_error + ptr option) option" where
  "find_unusable h active pindexTest =
     (case pindexTest of
        None \<Rightarrow> Some (Inr None)
      | Some p \<Rightarrow>
          if CChain_Contains h active p then Some (Inr None)
          else if bi_nChainTx (h p) = 0 \<and> bi_nHeight (h p) \<noteq> 0 then Some (Inl AssertFailed)
          else if unusable (h p) then Some (Inr (Some p))
          else find_unusable h active (pprev (h p)))"

declare find_unusable.simps [code]

partial_function (option) remove_chain :: "bool \<Rightarrow> ptr \<Rightarrow> ptr option \<Rightarrow> 'v chain_state \<Rightarrow> (chain_error + 'v chain_state) option" where
  "remove_chain fFailedChain pindexTest pindexFailed s =
     (if pindexFailed = Some pindexTest then Some (Inr s)
      else case pindexFailed of
             None \<Rightarrow> Some (Inl NullPointer)
           | Some p \<Rightarrow>
               (let s = (if fFailedChain then add_status p BLOCK_FAILED_CHILD s
                         else s \<lparr> mapBlocksUnlinked := mapBlocksUnlinked s @ [(pprev (entries s p), p)] \<rparr>);
                    s = erase_candidate p s
                in remove_chain fFailedChain pindexTest (pprev (entries s p)) s))"

declare remove_chain.simps [code]

definition note_invalid :: "ptr \<Rightarrow> 'v chain_state \<Rightarrow> 'v chain_state" where
  "note_invalid p s =
     (case pindexBestInvalid s of
        None \<Rightarrow> s \<lparr> pindexBestInvalid := Some p \<rparr>
      | Some b \<Rightarrow> if CompareTo (nChainWork (entries s p)) (nChainWork (entries s b)) > 0 then s \<lparr> pindexBestInvalid := Some p \<rparr> else s)"

lemma run_bind_mono [partial_function_mono]:
  fixes B :: "('a \<Rightarrow> 'b option) \<Rightarrow> ('e + 'c) option"
  assumes "mono_option B" "\<And>y. mono_option (\<lambda>f. C y f)"
  shows "mono_option (\<lambda>f. run_bind (B f) (\<lambda>y. C y f))"
proof (rule monotoneI)
  fix f g :: "'a \<Rightarrow> 'b option"
  assume "fun_ord option_ord f g"
  then have "option_ord (B f) (B g)" "\<forall>y. option_ord (C y f) (C y g)" using assms by (auto dest: monotoneD)
  then show "option_ord (run_bind (B f) (\<lambda>y. C y f)) (run_bind (B g) (\<lambda>y. C y g))"
    by (cases "B f"; cases "B g") (auto simp: flat_ord_def run_bind_def split: sum.splits)
qed

partial_function (option) FindMostWorkChain :: "'v chain_state \<Rightarrow> (chain_error + ptr option \<times> 'v chain_state) option" where
  "FindMostWorkChain s =
     (if setBlockIndexCandidates s = [] then Some (Inr (None, s))
      else let pindexNew = last (setBlockIndexCandidates s)
           in run_bind (find_unusable (entries s) (chainActive s) (Some pindexNew)) (\<lambda>r.
                case r of
                  None \<Rightarrow> Some (Inr (Some pindexNew, s))
                | Some pindexTest \<Rightarrow>
                    (let fFailedChain = bi_nStatus (entries s pindexTest) AND BLOCK_FAILED_MASK \<noteq> 0;
                         s = (if fFailedChain then note_invalid pindexNew s else s)
                     in run_bind (remove_chain fFailedChain pindexTest (Some pindexNew) s) (\<lambda>s.
                          FindMostWorkChain (erase_candidate pindexTest s)))))"

declare FindMostWorkChain.simps [code]

definition PruneBlockIndexCandidates :: "'v chain_state \<Rightarrow> chain_error + 'v chain_state" where
  "PruneBlockIndexCandidates s =
     (case Tip s of
        None \<Rightarrow> (if setBlockIndexCandidates s = [] then Inl AssertFailed else Inl NullPointer)
      | Some tip \<Rightarrow>
          (let cands = dropWhile (\<lambda>p. work_less (entries s) p tip) (setBlockIndexCandidates s)
           in if cands = [] then Inl AssertFailed else Inr (s \<lparr> setBlockIndexCandidates := cands \<rparr>)))"

section \<open>Moving the tip\<close>

text \<open>What the model takes from the connection and disconnection of a block: the verdict, the validation state, and the rest of the node's state.\<close>

record 'v tip_ops =
  connect_block :: "ptr \<Rightarrow> CValidationState \<Rightarrow> 'v \<Rightarrow> bool \<times> CValidationState \<times> 'v"
  disconnect_block :: "ptr \<Rightarrow> CValidationState \<Rightarrow> 'v \<Rightarrow> bool \<times> CValidationState \<times> 'v"

definition InvalidChainFound :: "ptr \<Rightarrow> 'v chain_state \<Rightarrow> chain_error + 'v chain_state" where
  "InvalidChainFound pindexNew s =
     (let s = note_invalid pindexNew s in if Tip s = None then Inl AssertFailed else Inr s)"

definition InvalidBlockFound :: "ptr \<Rightarrow> CValidationState \<Rightarrow> 'v chain_state \<Rightarrow> chain_error + 'v chain_state" where
  "InvalidBlockFound pindex state s =
     (if \<not> corruptionPossible state
      then InvalidChainFound pindex (erase_candidate pindex (set_dirty pindex (add_status pindex BLOCK_FAILED_VALID s)))
      else Inr s)"

text \<open>\<open>UpdateTip\<close> reads the new tip for its log message, so it cannot be called to empty the chain.\<close>

definition UpdateTip :: "ptr option \<Rightarrow> 'v chain_state \<Rightarrow> (chain_error + 'v chain_state) option" where
  "UpdateTip pindexNew s =
     (case SetTip (entries s) (chainActive s) pindexNew of
        None \<Rightarrow> None
      | Some chain \<Rightarrow> if CChain_Tip chain = None then Some (Inl NullPointer) else Some (Inr (s \<lparr> chainActive := chain \<rparr>)))"

definition DisconnectTip :: "'v tip_ops \<Rightarrow> CValidationState \<Rightarrow> 'v chain_state \<Rightarrow> (chain_error + bool \<times> CValidationState \<times> 'v chain_state) option" where
  "DisconnectTip ops state s =
     (case Tip s of
        None \<Rightarrow> Some (Inl AssertFailed)
      | Some pindexDelete \<Rightarrow>
          (case disconnect_block ops pindexDelete state (node_rest s) of
             (False, state, v) \<Rightarrow> Some (Inr (False, state, s \<lparr> node_rest := v \<rparr>))
           | (True, state, v) \<Rightarrow>
               run_bind (UpdateTip (pprev (entries s pindexDelete)) (s \<lparr> node_rest := v \<rparr>)) (\<lambda>s. Some (Inr (True, state, s)))))"

definition ConnectTip :: "'v tip_ops \<Rightarrow> ptr \<Rightarrow> CValidationState \<Rightarrow> 'v chain_state \<Rightarrow> (chain_error + bool \<times> CValidationState \<times> 'v chain_state) option" where
  "ConnectTip ops pindexNew state s =
     (if pprev (entries s pindexNew) \<noteq> Tip s then Some (Inl AssertFailed)
      else case connect_block ops pindexNew state (node_rest s) of
             (False, state, v) \<Rightarrow>
               (let s = s \<lparr> node_rest := v \<rparr> in
                if vs_mode state = MODE_INVALID
                then run_bind (Some (InvalidBlockFound pindexNew state s)) (\<lambda>s. Some (Inr (False, state, s)))
                else Some (Inr (False, state, s)))
           | (True, state, v) \<Rightarrow>
               run_bind (UpdateTip (Some pindexNew) (s \<lparr> node_rest := v \<rparr>)) (\<lambda>s. Some (Inr (True, state, s))))"

partial_function (option) disconnect_loop ::
    "'v tip_ops \<Rightarrow> ptr option \<Rightarrow> bool \<Rightarrow> CValidationState \<Rightarrow> 'v chain_state \<Rightarrow> (chain_error + bool \<times> bool \<times> CValidationState \<times> 'v chain_state) option" where
  "disconnect_loop ops pindexFork fBlocksDisconnected state s =
     (if Tip s \<noteq> None \<and> Tip s \<noteq> pindexFork
      then run_bind (DisconnectTip ops state s) (\<lambda>(ok, state, s).
             if \<not> ok then Some (Inr (False, fBlocksDisconnected, state, s))
             else disconnect_loop ops pindexFork True state s)
      else Some (Inr (True, fBlocksDisconnected, state, s)))"

declare disconnect_loop.simps [code]

text \<open>The blocks from the target height down to the current one, highest first.\<close>

partial_function (option) blocks_to_connect :: "block_heap \<Rightarrow> int \<Rightarrow> ptr option \<Rightarrow> ptr list \<Rightarrow> ptr list option" where
  "blocks_to_connect h height pindexIter vpindexToConnect =
     (case pindexIter of
        None \<Rightarrow> Some vpindexToConnect
      | Some p \<Rightarrow>
          if bi_nHeight (h p) \<noteq> height then blocks_to_connect h height (pprev (h p)) (vpindexToConnect @ [p])
          else Some vpindexToConnect)"

declare blocks_to_connect.simps [code]

datatype step_outcome = Continue | Better | InvalidFound | SystemError

text \<open>The loop over a batch, from the lowest block on; \<open>back\<close> is the last element of the list, the lowest block of the batch.\<close>

fun connect_batch ::
    "'v tip_ops \<Rightarrow> ptr option \<Rightarrow> ptr \<Rightarrow> ptr list \<Rightarrow> CValidationState \<Rightarrow> 'v chain_state
      \<Rightarrow> (chain_error + step_outcome \<times> CValidationState \<times> 'v chain_state) option" where
  "connect_batch ops pindexOldTip back [] state s = Some (Inr (Continue, state, s))"
| "connect_batch ops pindexOldTip back (pindexConnect # rest) state s =
     run_bind (ConnectTip ops pindexConnect state s) (\<lambda>(ok, state, s).
       if \<not> ok then
         (if vs_mode state = MODE_INVALID then
            run_bind (Some (if \<not> corruptionPossible state then InvalidChainFound back s else Inr s)) (\<lambda>s.
              Some (Inr (InvalidFound, CValidationState_new, s)))
          else Some (Inr (SystemError, state, s)))
       else run_bind (Some (PruneBlockIndexCandidates s)) (\<lambda>s.
              case (pindexOldTip, Tip s) of
                (None, _) \<Rightarrow> Some (Inr (Better, state, s))
              | (Some old, None) \<Rightarrow> Some (Inl NullPointer)
              | (Some old, Some tip) \<Rightarrow>
                  if CompareTo (nChainWork (entries s tip)) (nChainWork (entries s old)) > 0 then Some (Inr (Better, state, s))
                  else connect_batch ops pindexOldTip back rest state s))"

partial_function (option) connect_batches ::
    "'v tip_ops \<Rightarrow> ptr option \<Rightarrow> ptr \<Rightarrow> int \<Rightarrow> CValidationState \<Rightarrow> 'v chain_state
      \<Rightarrow> (chain_error + step_outcome \<times> CValidationState \<times> 'v chain_state) option" where
  "connect_batches ops pindexOldTip pindexMostWork height state s =
     (let h = entries s in
      if height = bi_nHeight (h pindexMostWork) then Some (Inr (Continue, state, s))
      else let nTargetHeight = min (height + 32) (bi_nHeight (h pindexMostWork))
           in run_bind (Some (GetAncestor h pindexMostWork nTargetHeight)) (\<lambda>pindexIter.
                case blocks_to_connect h height pindexIter [] of
                  None \<Rightarrow> None
                | Some vpindexToConnect \<Rightarrow>
                    run_bind (connect_batch ops pindexOldTip (last vpindexToConnect) (rev vpindexToConnect) state s) (\<lambda>(outcome, state, s).
                      if outcome = Continue then connect_batches ops pindexOldTip pindexMostWork nTargetHeight state s
                      else Some (Inr (outcome, state, s)))))"

declare connect_batches.simps [code]

text \<open>The result of a step, whether an invalid block was found, and the states.\<close>

definition ActivateBestChainStep ::
    "'v tip_ops \<Rightarrow> ptr \<Rightarrow> CValidationState \<Rightarrow> 'v chain_state \<Rightarrow> (chain_error + bool \<times> bool \<times> CValidationState \<times> 'v chain_state) option" where
  "ActivateBestChainStep ops pindexMostWork state s =
     (let pindexOldTip = Tip s in
      run_bind (FindFork (entries s) (chainActive s) (Some pindexMostWork)) (\<lambda>pindexFork.
      run_bind (disconnect_loop ops pindexFork False state s) (\<lambda>(ok, fBlocksDisconnected, state, s).
        if \<not> ok then Some (Inr (False, False, state, s))
        else run_bind (connect_batches ops pindexOldTip pindexMostWork
                         (case pindexFork of None \<Rightarrow> -1 | Some p \<Rightarrow> bi_nHeight (entries s p)) state s) (\<lambda>(outcome, state, s).
               if outcome = SystemError then Some (Inr (False, False, state, s))
               else if fBlocksDisconnected \<and> Tip s = None then Some (Inl NullPointer)
               else Some (Inr (True, outcome = InvalidFound, state, s))))))"

partial_function (option) ActivateBestChain_loop ::
    "'v tip_ops \<Rightarrow> ptr option \<Rightarrow> CValidationState \<Rightarrow> 'v chain_state \<Rightarrow> (chain_error + bool \<times> CValidationState \<times> 'v chain_state) option" where
  "ActivateBestChain_loop ops mostWork state s =
     run_bind (case mostWork of None \<Rightarrow> FindMostWorkChain s | Some p \<Rightarrow> Some (Inr (Some p, s))) (\<lambda>(pindexMostWork, s).
       case pindexMostWork of
         None \<Rightarrow> Some (Inr (True, state, s))
       | Some p \<Rightarrow>
           if Tip s = Some p then Some (Inr (True, state, s))
           else run_bind (ActivateBestChainStep ops p state s) (\<lambda>(ok, fInvalidFound, state, s).
                  if \<not> ok then Some (Inr (False, state, s))
                  else let pindexMostWork = (if fInvalidFound then None else Some p)
                       in if Tip s \<noteq> pindexMostWork then ActivateBestChain_loop ops pindexMostWork state s
                          else Some (Inr (True, state, s))))"

declare ActivateBestChain_loop.simps [code]

definition ActivateBestChain ::
    "'v tip_ops \<Rightarrow> CValidationState \<Rightarrow> 'v chain_state \<Rightarrow> (chain_error + bool \<times> CValidationState \<times> 'v chain_state) option" where
  "ActivateBestChain ops state s = ActivateBestChain_loop ops None state s"

section \<open>Commands that mark blocks\<close>

definition tip_less :: "'v chain_state \<Rightarrow> (ptr \<Rightarrow> bool) \<Rightarrow> chain_error + bool" where
  "tip_less s f = (case Tip s of None \<Rightarrow> Inl NullPointer | Some tip \<Rightarrow> Inr (f tip))"

definition PreciousBlock ::
    "'v tip_ops \<Rightarrow> ptr \<Rightarrow> CValidationState \<Rightarrow> 'v chain_state \<Rightarrow> (chain_error + bool \<times> CValidationState \<times> 'v chain_state) option" where
  "PreciousBlock ops pindex state s =
     (case Tip s of
        None \<Rightarrow> Some (Inl NullPointer)
      | Some tip \<Rightarrow>
          (let h = entries s in
           if CompareTo (nChainWork (h pindex)) (nChainWork (h tip)) < 0 then Some (Inr (True, state, s))
           else
             (let s = (if CompareTo (nChainWork (h tip)) (nLastPreciousChainwork s) > 0 then s \<lparr> nBlockReverseSequenceId := -1 \<rparr> else s);
                  s = s \<lparr> nLastPreciousChainwork := nChainWork (h tip) \<rparr>;
                  s = erase_candidate pindex s;
                  s = set_entry pindex (\<lambda>bi. bi \<lparr> bi_nSequenceId := nBlockReverseSequenceId s \<rparr>) s;
                  s = (if nBlockReverseSequenceId s > - (2 ^ 31) then s \<lparr> nBlockReverseSequenceId := nBlockReverseSequenceId s - 1 \<rparr> else s)
              in run_bind (Some (if CBlockIndex_IsValid (entries s pindex) BLOCK_VALID_TRANSACTIONS \<and> bi_nChainTx (entries s pindex) \<noteq> 0
                                 then PruneBlockIndexCandidates (insert_candidate pindex s) else Inr s)) (\<lambda>s.
                   ActivateBestChain ops state s))))"

definition demote_best_header :: "ptr \<Rightarrow> 'v chain_state \<Rightarrow> 'v chain_state" where
  "demote_best_header p s =
     (if pindexBestHeader (cs_index s) = Some p
      then s \<lparr> pindexBestInvalid := Some p, cs_index := (cs_index s) \<lparr> pindexBestHeader := pprev (entries s p) \<rparr> \<rparr>
      else s)"

partial_function (option) invalidate_loop ::
    "'v tip_ops \<Rightarrow> ptr \<Rightarrow> CValidationState \<Rightarrow> 'v chain_state \<Rightarrow> (chain_error + bool \<times> CValidationState \<times> 'v chain_state) option" where
  "invalidate_loop ops pindex state s =
     (if CChain_Contains (entries s) (chainActive s) pindex
      then case Tip s of
             None \<Rightarrow> Some (Inl NullPointer)
           | Some pindexWalk \<Rightarrow>
               (let s = erase_candidate pindexWalk (set_dirty pindexWalk (add_status pindexWalk BLOCK_FAILED_CHILD s))
                in run_bind (DisconnectTip ops state s) (\<lambda>(ok, state, s).
                     if \<not> ok then Some (Inr (False, state, s))
                     else invalidate_loop ops pindex state (demote_best_header pindexWalk s)))
      else Some (Inr (True, state, s)))"

declare invalidate_loop.simps [code]

definition chain_data_valid :: "CBlockIndex \<Rightarrow> bool" where
  "chain_data_valid bi \<longleftrightarrow> CBlockIndex_IsValid bi BLOCK_VALID_TRANSACTIONS \<and> bi_nChainTx bi \<noteq> 0"

text \<open>The loops over \<^verbatim>\<open>mapBlockIndex\<close> go through its entries in the order of the hash map, given by the list \<open>order\<close>.\<close>

fun readd_candidates :: "ptr list \<Rightarrow> 'v chain_state \<Rightarrow> chain_error + 'v chain_state" where
  "readd_candidates [] s = Inr s"
| "readd_candidates (p # order) s =
     (if chain_data_valid (entries s p)
      then case tip_less s (work_less (entries s) p) of
             Inl e \<Rightarrow> Inl e
           | Inr worse \<Rightarrow> readd_candidates order (if worse then s else insert_candidate p s)
      else readd_candidates order s)"

definition InvalidateBlock ::
    "'v tip_ops \<Rightarrow> ptr list \<Rightarrow> ptr \<Rightarrow> CValidationState \<Rightarrow> 'v chain_state \<Rightarrow> (chain_error + bool \<times> CValidationState \<times> 'v chain_state) option" where
  "InvalidateBlock ops order pindex state s =
     (let s = demote_best_header pindex (erase_candidate pindex (set_dirty pindex (add_status pindex BLOCK_FAILED_VALID s)))
      in run_bind (invalidate_loop ops pindex state s) (\<lambda>(ok, state, s).
           if \<not> ok then Some (Inr (False, state, s))
           else run_bind (Some (readd_candidates order s)) (\<lambda>s.
                run_bind (Some (InvalidChainFound pindex s)) (\<lambda>s. Some (Inr (True, state, s))))))"

definition clear_failure :: "ptr \<Rightarrow> 'v chain_state \<Rightarrow> 'v chain_state" where
  "clear_failure p s = set_dirty p (set_entry p (\<lambda>bi. bi \<lparr> bi_nStatus := bi_nStatus bi AND NOT BLOCK_FAILED_MASK \<rparr>) s)"

fun reset_descendants :: "ptr list \<Rightarrow> ptr \<Rightarrow> int \<Rightarrow> 'v chain_state \<Rightarrow> chain_error + 'v chain_state" where
  "reset_descendants [] pindex height s = Inr s"
| "reset_descendants (p # order) pindex height s =
     (if CBlockIndex_IsValid (entries s p) BLOCK_VALID_TRANSACTIONS then reset_descendants order pindex height s
      else case GetAncestor (entries s) p height of
             Inl e \<Rightarrow> Inl e
           | Inr a \<Rightarrow>
               if a \<noteq> Some pindex then reset_descendants order pindex height s
               else (let s = clear_failure p s in
                     case (if chain_data_valid (entries s p) then tip_less s (\<lambda>tip. work_less (entries s) tip p) else Inr False) of
                       Inl e \<Rightarrow> Inl e
                     | Inr better \<Rightarrow>
                         (let s = (if better then insert_candidate p s else s);
                              s = (if pindexBestInvalid s = Some p then s \<lparr> pindexBestInvalid := None \<rparr> else s)
                          in reset_descendants order pindex height s)))"

partial_function (option) reset_ancestors :: "ptr option \<Rightarrow> 'v chain_state \<Rightarrow> 'v chain_state option" where
  "reset_ancestors pindex s =
     (case pindex of
        None \<Rightarrow> Some s
      | Some p \<Rightarrow>
          (let s = (if bi_nStatus (entries s p) AND BLOCK_FAILED_MASK \<noteq> 0 then clear_failure p s else s)
           in reset_ancestors (pprev (entries s p)) s))"

declare reset_ancestors.simps [code]

definition ResetBlockFailureFlags :: "ptr list \<Rightarrow> ptr \<Rightarrow> 'v chain_state \<Rightarrow> (chain_error + bool \<times> 'v chain_state) option" where
  "ResetBlockFailureFlags order pindex s =
     (case reset_descendants order pindex (bi_nHeight (entries s pindex)) s of
        Inl e \<Rightarrow> Some (Inl e)
      | Inr s \<Rightarrow> map_option (\<lambda>s. Inr (True, s)) (reset_ancestors (Some pindex) s))"

text \<open>The loop of \<open>DisconnectBlocks\<close> over the number of blocks; a negative number means none.\<close>

primrec disconnect_blocks ::
    "'v tip_ops \<Rightarrow> nat \<Rightarrow> CValidationState \<Rightarrow> 'v chain_state \<Rightarrow> (chain_error + bool \<times> CValidationState \<times> 'v chain_state) option" where
  "disconnect_blocks ops 0 state s = Some (Inr (True, state, s))"
| "disconnect_blocks ops (Suc n) state s =
     run_bind (DisconnectTip ops state s) (\<lambda>(ok, state, s).
       if \<not> ok \<or> vs_mode state \<noteq> MODE_VALID then Some (Inr (False, state, s)) else disconnect_blocks ops n state s)"

definition DisconnectBlocks :: "'v tip_ops \<Rightarrow> int \<Rightarrow> 'v chain_state \<Rightarrow> (chain_error + bool \<times> 'v chain_state) option" where
  "DisconnectBlocks ops blocks s =
     run_bind (disconnect_blocks ops (nat blocks) CValidationState_new s) (\<lambda>(ok, state, s). Some (Inr (ok, s)))"

text \<open>
  \<open>rejected\<close> is \<^verbatim>\<open>mapRejectedBlocks\<close> in the order of its keys, \<open>now\<close> is \<^verbatim>\<open>GetTime()\<close>; the product is taken for numbers of blocks for
  which it stays within an \<^verbatim>\<open>int\<close>.
\<close>

fun reset_rejected :: "ptr list \<Rightarrow> int \<Rightarrow> int \<Rightarrow> (uint256 \<times> int) list \<Rightarrow> 'v chain_state \<Rightarrow> (chain_error + 'v chain_state) option" where
  "reset_rejected order now nBlocks [] s = Some (Inr s)"
| "reset_rejected order now nBlocks ((hash, time) # rejected) s =
     (case (if time > now - nBlocks * 60 * 5 then mapBlockIndex (cs_index s) hash else None) of
        None \<Rightarrow> reset_rejected order now nBlocks rejected s
      | Some pindex \<Rightarrow>
          run_bind (ResetBlockFailureFlags order pindex s) (\<lambda>(_, s). reset_rejected order now nBlocks rejected s))"

definition ReprocessBlocks ::
    "'v tip_ops \<Rightarrow> ptr list \<Rightarrow> int \<Rightarrow> (uint256 \<times> int) list \<Rightarrow> int \<Rightarrow> 'v chain_state \<Rightarrow> (chain_error + 'v chain_state) option" where
  "ReprocessBlocks ops order now rejected nBlocks s =
     run_bind (reset_rejected order now nBlocks rejected s) (\<lambda>s.
     run_bind (DisconnectBlocks ops nBlocks s) (\<lambda>(_, s).
     run_bind (ActivateBestChain ops CValidationState_new s) (\<lambda>(_, _, s). Some (Inr s))))"

section \<open>Accepting blocks\<close>

definition MIN_BLOCKS_TO_KEEP :: int where "MIN_BLOCKS_TO_KEEP = 288"

text \<open>
  What the checks of a block depend on: the hash functions, the network, the time of the node. \<open>save_block\<close> stands for
  finding a place for the block on disk and writing it there; it may fail, or report an error in the state and go on.
\<close>

record check_env =
  env_GetHash :: "CBlockHeader \<Rightarrow> uint256"
  env_pow :: pow_hashes
  env_H :: hash2
  env_GetTxHash :: "CTransaction \<Rightarrow> uint256"
  env_params :: CChainParams
  env_checkpoints :: bool
  env_time :: int
  save_block :: "CBlock \<Rightarrow> CValidationState \<Rightarrow> bool \<times> CValidationState"

definition lift_chain :: "(chain_error + 'a) option \<Rightarrow> (index_error + 'a) option" where
  "lift_chain = map_option (map_sum Assertion id)"

definition not_wanted :: "'v chain_state \<Rightarrow> ptr \<Rightarrow> bool \<Rightarrow> bool" where
  "not_wanted s pindex fRequested =
     (let bi = entries s pindex;
          fAlreadyHave = bi_nStatus bi AND BLOCK_HAVE_DATA \<noteq> 0;
          fHasMoreWork = (case Tip s of None \<Rightarrow> True | Some tip \<Rightarrow> CompareTo (nChainWork bi) (nChainWork (entries s tip)) > 0);
          fTooFarAhead = bi_nHeight bi > CChain_Height (chainActive s) + MIN_BLOCKS_TO_KEEP
      in fAlreadyHave \<or> \<not> fRequested \<and> (bi_nTx bi \<noteq> 0 \<or> \<not> fHasMoreWork \<or> fTooFarAhead))"

definition check_block_env :: "check_env \<Rightarrow> CBlock \<Rightarrow> CValidationState \<Rightarrow> bool \<times> CValidationState \<times> CBlock" where
  "check_block_env env block state =
     CheckBlock (env_GetHash env) (env_pow env) (env_H env) (env_GetTxHash env) (consensus (env_params env)) True True block state"

text \<open>Both checks of a new block's body; the second runs only when the first passes.\<close>

definition check_new_block ::
    "check_env \<Rightarrow> CBlock \<Rightarrow> ptr option \<Rightarrow> CValidationState \<Rightarrow> 'v chain_state \<Rightarrow> (index_error + bool \<times> CValidationState \<times> CBlock \<times> 'v chain_state) option" where
  "check_new_block env block pindexPrev state s =
     (case check_block_env env block state of
        (False, state, block) \<Rightarrow> Some (Inr (False, state, block, s))
      | (True, state, block) \<Rightarrow>
          run_bind (lift_chain (ContextualCheckBlock (entries s) (consensus (env_params env)) pindexPrev block (state, versionbitscache s)))
            (\<lambda>(ok, state, cache). Some (Inr (ok, state, block, s \<lparr> versionbitscache := cache \<rparr>))))"

definition AcceptBlock ::
    "check_env \<Rightarrow> CBlock \<Rightarrow> bool \<Rightarrow> CValidationState \<Rightarrow> 'v chain_state
      \<Rightarrow> (index_error + bool \<times> bool \<times> CValidationState \<times> CBlock \<times> 'v chain_state) option" where
  "AcceptBlock env block fRequested state s =
     run_bind (AcceptBlockHeader (env_GetHash env) (env_pow env) (env_params env) (env_checkpoints env) (env_time env)
                 (CBlockHeader.truncate block) state (cs_index s)) (\<lambda>(ok, ppindex, state, index).
       let s = s \<lparr> cs_index := index \<rparr> in
       if \<not> ok then Some (Inr (False, False, state, block, s))
       else case ppindex of
              None \<Rightarrow> Some (Inl (Assertion NullPointer))
            | Some pindex \<Rightarrow>
                if not_wanted s pindex fRequested then Some (Inr (True, False, state, block, s))
                else run_bind (check_new_block env block (pprev (entries s pindex)) state s) (\<lambda>(ok, state, block, s).
                       if \<not> ok
                       then Some (Inr (False, True, state, block,
                              if vs_mode state = MODE_INVALID \<and> \<not> corruptionPossible state
                              then set_dirty pindex (add_status pindex BLOCK_FAILED_VALID s) else s))
                       else (case save_block env block state of
                               (False, state) \<Rightarrow> Some (Inr (False, True, state, block, s))
                             | (True, state) \<Rightarrow>
                                 Some (Inr (True, True, state, block, ReceivedBlockTransactions (length (vtx block)) pindex s)))))"

text \<open>The result, whether the block was new, and the state of the chain.\<close>

definition ProcessNewBlock ::
    "check_env \<Rightarrow> 'v tip_ops \<Rightarrow> CBlock \<Rightarrow> bool \<Rightarrow> 'v chain_state \<Rightarrow> (index_error + bool \<times> bool \<times> 'v chain_state) option" where
  "ProcessNewBlock env ops block fForceProcessing s =
     (case check_block_env env block CValidationState_new of
        (False, state, block) \<Rightarrow> Some (Inr (False, False, s))
      | (True, state, block) \<Rightarrow>
          run_bind (AcceptBlock env block fForceProcessing state s) (\<lambda>(ok, fNewBlock, state, block, s).
            if \<not> ok then Some (Inr (False, fNewBlock, s))
            else run_bind (lift_chain (ActivateBestChain ops CValidationState_new s)) (\<lambda>(ok, state, s). Some (Inr (ok, fNewBlock, s)))))"

end
