(* ===== verification/Arith256_Root.thy ===== *)
theory Arith256_Root
  imports Arith256_Refine
begin

unbundle bit_operations_syntax

text \<open>
  \<open>base_uint::ApproxNthRoot\<close> is the integer root up to the precision of its 64-bit search: the bits below
  the shift are dropped, and what remains is the exact integer root.
\<close>

lemma power_loop_eq: "power_loop j x p = p * x ^ j"
  by (induction j arbitrary: p) (simp_all add: mult_ac)

lemma unat_power_u64: "unat x ^ n < 2 ^ 64 \<Longrightarrow> unat ((x :: u64) ^ n) = unat x ^ n"
proof (induction n)
  case (Suc n)
  have "unat x ^ n < 2 ^ 64"
  proof (cases "unat x = 0")
    case False
    then have "unat x ^ n \<le> unat x ^ Suc n" by simp
    then show ?thesis using Suc.prems by linarith
  qed (cases n, auto)
  with Suc show ?case by (simp add: unat_mult_lem [THEN iffD1])
qed simp

lemma unat_or_bit:
  assumes "unat (r :: u64) = c * 2 ^ Suc i" "unat r + 2 ^ i < 2 ^ 64" "i < 64"
  shows "unat (r OR push_bit i 1) = unat r + 2 ^ i"
proof -
  have nb: "\<not> bit r i"
  proof -
    have "\<not> bit (unat r) i" unfolding assms(1) by (simp add: bit_iff_odd)
    then show ?thesis using assms(3) by (simp add: bit_unsigned_iff)
  qed
  have "r OR push_bit i 1 = r + push_bit i 1"
    by (rule disjunctive_add_eq_or [symmetric], rule bit_word_eqI) (use nb in \<open>auto simp: bit_simps\<close>)
  also have "\<dots> = of_nat (unat r + 2 ^ i)" by (simp add: push_bit_eq_mult)
  finally show ?thesis using assms(2) by (simp add: unat_of_nat del: of_nat_add)
qed

lemma multiple_room:
  assumes "c * 2 ^ Suc i < (2 :: nat) ^ k" "Suc i \<le> k"
  shows "c * 2 ^ Suc i + 2 ^ Suc i \<le> 2 ^ k"
proof -
  have k: "(2 :: nat) ^ k = 2 ^ (k - Suc i) * 2 ^ Suc i" using assms(2) by (simp only: power_add [symmetric]) simp
  then have "c < 2 ^ (k - Suc i)" using assms(1) by simp
  then have "(c + 1) * 2 ^ Suc i \<le> 2 ^ (k - Suc i) * 2 ^ Suc i" by (intro mult_le_mono1) simp
  then show ?thesis using k by simp
qed

lemma root_loop_ok:
  assumes "i \<le> k" "k * n \<le> 64" "0 < n" "unat r = c * 2 ^ i" "unat r < 2 ^ k" "unat r ^ n \<le> unat H" "unat H < (unat r + 2 ^ i) ^ n"
  shows "unat (root_loop n i H r) ^ n \<le> unat H \<and> unat H < (unat (root_loop n i H r) + 1) ^ n"
  using assms(1,4-7)
proof (induction i arbitrary: r c)
  case (Suc i)
  let ?x = "r OR push_bit i 1"
  have room: "unat r + 2 ^ Suc i \<le> 2 ^ k" using multiple_room [of c i k] Suc.prems(1,2,3) by simp
  have "k \<le> k * n" using assms(3) by simp
  then have k: "k \<le> 64" using assms(2) by linarith
  then have k2: "(2 :: nat) ^ k \<le> 2 ^ 64" by (intro power_increasing) auto
  have x: "unat ?x = unat r + 2 ^ i"
  proof (rule unat_or_bit [OF Suc.prems(2)])
    have "(0 :: nat) < 2 ^ i" by simp
    then show "unat r + 2 ^ i < 2 ^ 64" using room k2 by (simp only: power_Suc)
  qed (use k Suc.prems(1) in simp)
  moreover have "(0 :: nat) < 2 ^ i" by simp
  ultimately have xk: "unat ?x < 2 ^ k" using room unfolding power_Suc by linarith
  have "unat ?x ^ n < (2 ^ k) ^ n" using xk assms(3) by (intro power_strict_mono) auto
  also have "\<dots> \<le> 2 ^ 64" unfolding power_mult [symmetric] using assms(2) by (intro power_increasing) auto
  finally have "unat (?x ^ n) = unat ?x ^ n" by (rule unat_power_u64)
  moreover have "power_loop (n - 1) ?x ?x = ?x ^ n" using assms(3) by (simp add: power_loop_eq flip: power_Suc)
  ultimately have cmp: "power_loop (n - 1) ?x ?x \<le> H \<longleftrightarrow> unat ?x ^ n \<le> unat H" by (simp add: word_le_nat_alt)
  show ?case
  proof (cases "unat ?x ^ n \<le> unat H")
    case True
    have "unat ?x = (2 * c + 1) * 2 ^ i" using x Suc.prems(2) by simp
    moreover have "unat H < (unat ?x + 2 ^ i) ^ n" using x Suc.prems(5) by (simp add: mult_2 add.assoc)
    ultimately show ?thesis using Suc.IH [of ?x "2 * c + 1"] xk True cmp Suc.prems(1) by simp
  next
    case False
    then show ?thesis using Suc.IH [of r "2 * c"] Suc.prems x cmp by simp
  qed
qed simp

lemma root_shift:
  assumes "0 < n" "nLength \<noteq> 0"
  defines "s \<equiv> nat (max 0 (int ((nLength - 1) div n) + 1 - int (64 div n)))"
  shows "nLength \<le> n * s + n * (64 div n)"
proof -
  have "(nLength - 1) div n + 1 \<le> s + 64 div n" unfolding s_def by linarith
  then have "n * ((nLength - 1) div n + 1) \<le> n * (s + 64 div n)" by (rule mult_le_mono2)
  moreover have "nLength - 1 < n * ((nLength - 1) div n + 1)"
    using assms(1) dividend_less_div_times [of n "nLength - 1"] by (simp add: algebra_simps)
  ultimately show ?thesis using assms(2) by (simp add: algebra_simps)
qed

definition root_shifts :: "nat \<Rightarrow> nat \<Rightarrow> nat" where
  "root_shifts nLength n = nat (max 0 ((if nLength = 0 then 0 else int ((nLength - 1) div n)) + 1 - int (64 div n)))"

lemma root_shifts_le:
  assumes "1 < n" "n < 64" "0 < L"
  shows "n * root_shifts L n \<le> L - 1"
proof -
  have "1 \<le> 64 div n" using assms div_le_mono [of n 64 n] by simp
  then have "root_shifts L n \<le> (L - 1) div n" using assms(3) unfolding root_shifts_def by (simp add: nat_le_iff)
  then have "n * root_shifts L n \<le> n * ((L - 1) div n)" by (rule mult_le_mono2)
  also have "\<dots> \<le> L - 1" by simp
  finally show ?thesis .
qed

lemma ApproxNthRoot_ok:
  assumes x: "limbs8 x" and n: "1 < n" "n < 64"
  defines "s \<equiv> root_shifts (base_bits x) n" and "r \<equiv> val (ApproxNthRoot x n)"
  shows "limbs8 (ApproxNthRoot x n)" "r ^ n \<le> val x" "val x < (r + 2 ^ s) ^ n" "val x \<noteq> 0 \<Longrightarrow> r \<noteq> 0"
proof -
  let ?k = "64 div n"
  let ?H = "GetLow64 (base_shr x (n * s))"
  let ?R = "root_loop n ?k ?H 0"
  have A: "ApproxNthRoot x n = base_shl (base_u64 ?R) s"
    by (simp add: ApproxNthRoot_def s_def root_shifts_def Let_def)
  show l8: "limbs8 (ApproxNthRoot x n)" by (simp add: A)
  have kn: "?k * n \<le> 64" by simp
  have bits: "base_bits x \<le> n * s + n * ?k"
    using root_shift [of n "base_bits x"] n by (cases "base_bits x = 0") (auto simp: s_def root_shifts_def)
  have "val x < 2 ^ base_bits x" by (rule base_bits_bounds(2) [OF x])
  also have "\<dots> \<le> 2 ^ (n * s + n * ?k)" using bits by (intro power_increasing) auto
  finally have hd: "val x div 2 ^ (n * s) < 2 ^ (n * ?k)" by (simp add: power_add div_less_iff_less_mult mult.commute)
  also have le64: "\<dots> \<le> 2 ^ 64" using kn by (intro power_increasing) (auto simp: mult.commute)
  finally have H: "unat ?H = val x div 2 ^ (n * s)" by (simp add: GetLow64_val val_shr x)
  have pk: "((2 :: nat) ^ ?k) ^ n = 2 ^ (n * ?k)" by (simp add: mult.commute flip: power_mult)
  have R: "unat ?R ^ n \<le> unat ?H" "unat ?H < (unat ?R + 1) ^ n"
    using root_loop_ok [of ?k ?k n 0 0 ?H] kn n hd H pk by (auto simp: zero_power)
  have dm: "unat ?H * 2 ^ (n * s) \<le> val x" "val x < (unat ?H + 1) * 2 ^ (n * s)"
    unfolding H using div_times_less_eq_dividend dividend_less_div_times [of "2 ^ (n * s)" "val x"] by (auto simp: algebra_simps)
  have ps: "(u * 2 ^ s) ^ n = u ^ n * 2 ^ (n * s)" for u :: nat by (simp add: power_mult_distrib mult.commute flip: power_mult)
  have le: "(unat ?R * 2 ^ s) ^ n \<le> val x" using R(1) dm(1) ps order_trans [OF mult_le_mono1] by metis
  have "unat ?R * 2 ^ s \<le> (unat ?R * 2 ^ s) ^ n" using n by (cases "unat ?R = 0") (auto intro: self_le_power)
  also note le
  also have "val x < 2 ^ 256" using val_less [of x] x by (simp add: WIDTH_def)
  finally have r: "r = unat ?R * 2 ^ s" unfolding r_def A by (simp add: val_shl val_base_u64)
  show "r ^ n \<le> val x" using le r by simp
  have "(unat ?H + 1) * 2 ^ (n * s) \<le> (unat ?R + 1) ^ n * 2 ^ (n * s)" using R(2) by (intro mult_le_mono1) simp
  then have up: "val x < ((unat ?R + 1) * 2 ^ s) ^ n" unfolding ps using dm(2) by linarith
  then show "val x < (r + 2 ^ s) ^ n" using r by (simp add: algebra_simps)
  show "r \<noteq> 0" if "val x \<noteq> 0"
  proof
    assume "r = 0"
    then have "val x < 2 ^ (n * s)" using r up by (simp add: mult.commute flip: power_mult)
    moreover have "2 ^ (n * s) \<le> val x"
    proof -
      have b: "0 < base_bits x" using that base_bits_0_iff [OF x] by simp
      have "n * s \<le> base_bits x - 1" unfolding s_def using root_shifts_le [OF n] b by simp
      then have "(2 :: nat) ^ (n * s) \<le> 2 ^ (base_bits x - 1)" by (intro power_increasing) auto
      also have "\<dots> \<le> val x" by (rule base_bits_bounds(3) [OF x b])
      finally show ?thesis .
    qed
    ultimately show False by simp
  qed
qed

end
