(* ===== verification/Pow_Props.thy ===== *)
theory Pow_Props
  imports Pow Chain_Props Arith256_Root
begin

text \<open>
  What the proof-of-work rules promise: the required target is always computed, is a well-formed compact
  number and never exceeds the limit of the network; a hash passes the check exactly when it meets
  its target; the work of a block is the quotient its definition intends; and entering a header into the
  index keeps the invariant of the block tree.
\<close>

section \<open>Conversions\<close>

lemma unat_ReadLE32: "4 \<le> length b \<Longrightarrow> unat (ReadLE32 b) = le_nat (take 4 b)"
  using le_nat_less [of "take 4 b"] by (simp add: ReadLE32_def unat_of_nat min_absorb2)

lemma val_read_limbs:
  "length b = 4 * n \<Longrightarrow> val (map (\<lambda>x. ReadLE32 (drop (x * 4) b)) [0..<n]) = le_nat b"
proof (induction n arbitrary: b)
  case (Suc n)
  have "map (\<lambda>x. ReadLE32 (drop (x * 4) b)) [0..<Suc n] = ReadLE32 b # map (\<lambda>x. ReadLE32 (drop (x * 4) (drop 4 b))) [0..<n]"
    by (simp only: upt_conv_Cons map_Suc_upt [symmetric] zero_less_Suc list.map map_map comp_def) (simp add: add.commute)
  moreover have "le_nat b = le_nat (take 4 b) + 4294967296 * le_nat (drop 4 b)"
    using le_nat_append [of "take 4 b" "drop 4 b"] Suc.prems by (simp add: min_def)
  ultimately show ?case using Suc.IH [of "drop 4 b"] Suc.prems by (simp add: unat_ReadLE32)
qed simp

lemma limbs8_UintToArith256 [simp]: "limbs8 (UintToArith256 x)"
  by (simp add: UintToArith256_def)

lemma val_UintToArith256 [simp]: "val (UintToArith256 x) = unat x"
proof -
  have "unat x < 256 ^ 32" using unsigned_less [of x, where 'a = nat] by simp
  then show ?thesis
    unfolding UintToArith256_def Let_def WIDTH_def by (subst val_read_limbs) (auto simp: le_nat_le_bytes)
qed

lemma limbs8_SetCompact [simp]: "limbs8 (fst (SetCompact c))"
  by (auto simp: SetCompact_def Let_def)

section \<open>Retargeting\<close>

definition u64_of :: "int \<Rightarrow> nat" where
  "u64_of i = unat (word_of_int i :: u64)"

lemma base_div'_ok:
  assumes "limbs8 a" "u64_of d \<noteq> 0"
  obtains q where "base_div' a d = Inr q" "limbs8 q" "val q = val a div u64_of d"
  using base_div_val(2) [of a "base_u64 (word_of_int d)"] assms
  by (auto simp: base_div'_def val_base_u64 u64_of_def)

lemma adjust_loop_ok:
  assumes "limbs8 bn" "u64_of d \<noteq> 0"
  shows "\<exists>q. adjust_loop n m d bn = Inr q \<and> limbs8 q"
  using assms(1)
proof (induction n arbitrary: bn)
  case (Suc n)
  then obtain q where "base_div' (base_mul32 bn (word_of_int m)) d = Inr q" "limbs8 q"
    using base_div'_ok [OF _ assms(2)] by (metis length_base_mul32)
  with Suc.IH [of q] show ?case by simp
qed simp

lemma adjust_loop_shrinks:
  assumes "limbs8 bn" "unat (word_of_int m :: u32) \<le> u64_of d" "u64_of d \<noteq> 0" "adjust_loop n m d bn = Inr q"
  shows "val q \<le> val bn"
  using assms(1,4)
proof (induction n arbitrary: bn)
  case (Suc n)
  obtain r where r: "base_div' (base_mul32 bn (word_of_int m)) d = Inr r" "limbs8 r"
      "val r = val (base_mul32 bn (word_of_int m)) div u64_of d"
    using base_div'_ok [of "base_mul32 bn (word_of_int m)", OF _ assms(3)] Suc.prems(1) by auto
  have "val (base_mul32 bn (word_of_int m)) \<le> val bn * u64_of d"
    using assms(2) by (simp add: val_mul32 Suc.prems(1) order_trans [OF mod_less_eq_dividend])
  then have "val r \<le> val bn" using r(3) assms(3) by (metis div_le_mono nonzero_mult_div_cancel_right)
  moreover have "val q \<le> val r" using Suc.IH [of r] Suc.prems(2) r by simp
  ultimately show ?case by simp
qed simp

text \<open>The target a compact number stands for, and when it is a usable one.\<close>

definition target :: "u32 \<Rightarrow> nat" where
  "target nBits = val (fst (SetCompact nBits))"

definition well_formed_bits :: "u32 \<Rightarrow> bool" where
  "well_formed_bits nBits \<longleftrightarrow> snd (SetCompact nBits) = (False, False)"

lemma GetCompact_target:
  assumes "limbs8 x"
  shows "well_formed_bits (GetCompact x False)" "target (GetCompact x False) \<le> val x"
    "val x \<noteq> 0 \<Longrightarrow> target (GetCompact x False) \<noteq> 0"
  using GetCompact_rounds [OF assms] by (auto simp: well_formed_bits_def target_def)

definition params_ok :: "Params \<Rightarrow> bool" where
  "params_ok params \<longleftrightarrow> u64_of (nAveragingTargetTimespan params) \<noteq> 0 \<and> u64_of (nAveragingTargetTimespanV2 params) \<noteq> 0 \<and>
     u64_of (100 + nLocalTargetAdjustment params) \<noteq> 0"

lemma npowWorkLimit_ok:
  "well_formed_bits (npowWorkLimit params) \<and> target (npowWorkLimit params) \<le> unat (powLimit params)"
  using GetCompact_target [of "UintToArith256 (powLimit params)"] by (simp add: npowWorkLimit_def)

lemma local_adjust_ok:
  assumes "limbs8 q" "u64_of (100 + nLocalTargetAdjustment params) \<noteq> 0"
  obtains r where "local_adjust params adj q = Inr r" "limbs8 r"
proof -
  have "u64_of 100 \<noteq> 0" by (simp add: u64_of_def)
  from adjust_loop_ok [OF assms(1) this] have "\<exists>r. local_adjust params adj q = Inr r \<and> limbs8 r"
    using assms(1) adjust_loop_ok [OF assms] by (simp add: local_adjust_def)
  then show ?thesis using that by blast
qed

lemma limit_ok:
  fixes params :: Params
  assumes "limbs8 r"
  defines "x \<equiv> if CompareTo r (UintToArith256 (powLimit params)) > 0 then UintToArith256 (powLimit params) else r"
  shows "well_formed_bits (GetCompact x False)" "target (GetCompact x False) \<le> unat (powLimit params)"
    "target (GetCompact x False) \<le> val r"
proof -
  have x: "limbs8 x" "val x \<le> unat (powLimit params)" "val x \<le> val r"
    using assms(1) by (auto simp: x_def CompareTo_val)
  show "well_formed_bits (GetCompact x False)" "target (GetCompact x False) \<le> unat (powLimit params)"
    "target (GetCompact x False) \<le> val r"
    using GetCompact_target(1,2) [OF x(1)] x by auto
qed

lemma retarget_ok:
  assumes "u64_of targetTimespan \<noteq> 0" "u64_of (100 + nLocalTargetAdjustment params) \<noteq> 0"
  shows "\<exists>b. retarget params span targetTimespan nBits adj = Inr b \<and> well_formed_bits b \<and> target b \<le> unat (powLimit params)"
proof -
  obtain q where q: "base_div' (base_mul32 (fst (SetCompact nBits)) (word_of_int span)) targetTimespan = Inr q" "limbs8 q"
    using base_div'_ok [OF _ assms(1)] by (metis length_base_mul32 limbs8_SetCompact)
  obtain r where r: "local_adjust params adj q = Inr r" "limbs8 r" by (rule local_adjust_ok [OF q(2) assms(2)])
  show ?thesis using q r limit_ok [OF r(2), of params] by (simp add: retarget_def)
qed

lemma last_block_loop_ok:
  assumes "height_ok h"
  shows "\<exists>r. last_block_loop h skipped pindex = Some r \<and>
    (\<forall>p. r = Some p \<longrightarrow> \<not> skipped p \<and> (\<exists>l n. pindex = Some l \<and> up h n l = Some p))"
proof (cases pindex)
  case None
  then show ?thesis by (simp add: last_block_loop.simps)
next
  case (Some l)
  have "\<exists>r. last_block_loop h skipped (Some l) = Some r \<and> (\<forall>p. r = Some p \<longrightarrow> \<not> skipped p \<and> (\<exists>n. up h n l = Some p))"
  proof (induction "nat (bi_nHeight (h l))" arbitrary: l rule: less_induct)
    case less
    show ?case
    proof (cases "skipped l")
      case False
      then show ?thesis by (subst last_block_loop.simps) (auto intro: exI [of _ 0])
    next
      case sk: True
      show ?thesis
      proof (cases "pprev (h l)")
        case None
        then show ?thesis using sk by (subst last_block_loop.simps) (simp add: last_block_loop.simps [of h _ None])
      next
        case (Some q)
        have "nat (bi_nHeight (h q)) < nat (bi_nHeight (h l))"
          using height_prev [OF assms Some] height_nonneg [OF assms, of q] by simp
        from less [OF this] obtain r where r: "last_block_loop h skipped (Some q) = Some r"
            "\<And>p. r = Some p \<Longrightarrow> \<not> skipped p \<and> (\<exists>n. up h n q = Some p)" by blast
        have "\<exists>n. up h n l = Some p" if "up h n q = Some p" for n p
          using that Some by (intro exI [of _ "Suc n"]) simp
        with r sk Some show ?thesis by (subst last_block_loop.simps) fastforce
      qed
    qed
  qed
  with Some show ?thesis by auto
qed

lemma GetNextWorkRequired_ok:
  assumes "height_ok h" "params_ok params"
  shows "\<exists>b. GetNextWorkRequired h pindexLast params algo = Some (Inr b) \<and> well_formed_bits b \<and> target b \<le> unat (powLimit params)"
proof -
  obtain r where r: "GetLastBlockIndexForAlgo h pindexLast params algo = Some r"
    using last_block_loop_ok [OF assms(1)] unfolding GetLastBlockIndexForAlgo_def by blast
  note R = retarget_ok [of "nAveragingTargetTimespan params" params] retarget_ok [of "nAveragingTargetTimespanV2 params" params]
  show ?thesis
    using R assms(2) npowWorkLimit_ok [of params] r
    by (auto simp: params_ok_def GetNextWorkRequired_def GetNextWorkRequiredV1_def GetNextWorkRequiredV2_def
        GetNextWorkRequiredV3_def Let_def split: option.splits)
qed

lemma EqualTo_0:
  assumes "limbs8 a"
  shows "EqualTo a 0 \<longleftrightarrow> val a = 0"
proof -
  obtain x y zs where a: "a = x # y # zs" using assms by (auto simp: WIDTH_def numeral_eq_Suc length_Suc_conv)
  have "(ucast x :: u64) = 0 \<longleftrightarrow> x = 0" "(ucast y :: u64) = 0 \<longleftrightarrow> y = 0" 
    by (simp_all add: unat_limb flip: unat_eq_zero)
  then show ?thesis by (auto simp: a EqualTo_def val_0_iff list_all_iff list_ex_iff unat_eq_zero)
qed

lemma CheckProofOfWork_iff:
  "CheckProofOfWork hash nBits params \<longleftrightarrow>
     well_formed_bits nBits \<and> 0 < target nBits \<and> target nBits \<le> unat (powLimit params) \<and> unat hash \<le> target nBits"
proof -
  have "limbs8 (fst (SetCompact nBits))" by simp
  then show ?thesis
    by (cases "SetCompact nBits")
      (auto simp: CheckProofOfWork_def Let_def well_formed_bits_def target_def CompareTo_val EqualTo_0 split: if_splits)
qed

section \<open>Work\<close>

lemma block_proof_loop_ok:
  assumes b: "\<And>i. GetNextWorkRequired h prev params i = Some (Inr (b i))" "\<And>i. well_formed_bits (b i)"
      "\<And>i. target (b i) \<le> L" and L: "L < 2 ^ 256" and n: "1 < n" "n < 64"
  shows "limbs8 A \<Longrightarrow> val A ^ n \<le> L ^ (n - m) \<Longrightarrow> m \<le> n \<Longrightarrow> 0 < val A \<Longrightarrow>
    (if \<exists>j<m. target (b (i + int j)) = 0 then block_proof_loop m i n h prev params A = Some (Inr None)
     else \<exists>A'. block_proof_loop m i n h prev params A = Some (Inr (Some A')) \<and> limbs8 A' \<and> 0 < val A' \<and> val A' \<le> L \<and>
            val A' ^ n \<le> val A ^ n * (\<Prod>j<m. target (b (i + int j))))"
proof (induction m arbitrary: i A)
  case 0
  then show ?case using n by (simp add: power_mono_iff)
next
  case (Suc m)
  obtain bn where bn: "SetCompact (b i) = (bn, False, False)"
    using b(2) [of i] by (auto simp: well_formed_bits_def prod_eq_iff)
  have l8: "limbs8 bn" and t: "target (b i) = val bn" using limbs8_SetCompact [of "b i"] by (simp_all add: bn target_def)
  have ex: "(\<exists>j<Suc m. target (b (i + int j)) = 0) \<longleftrightarrow> val bn = 0 \<or> (\<exists>j<m. target (b (i + 1 + int j)) = 0)"
    by (auto simp: less_Suc_eq_0_disj t add.assoc)
  have step: "block_proof_loop (Suc m) i n h prev params A =
      (if val bn = 0 then Some (Inr None) else block_proof_loop m (i + 1) n h prev params (base_mul A (ApproxNthRoot bn n)))"
    by (simp add: b(1) bn EqualTo_0 l8)
  show ?case
  proof (cases "val bn = 0")
    case True
    then show ?thesis unfolding step ex by simp
  next
    case False
    let ?r = "ApproxNthRoot bn n"
    note r = ApproxNthRoot_ok [OF l8 n]
    have L1: "1 \<le> L" using b(3) [of i] t False by simp
    have p: "(val A * val ?r) ^ n \<le> val A ^ n * val bn" using r(2) by (simp add: power_mult_distrib)
    also have "\<dots> \<le> L ^ (n - Suc m) * L" using Suc.prems(2) b(3) [of i] t by (intro mult_le_mono) auto
    also have eq: "\<dots> = L ^ (n - m)" using Suc.prems(3) by (metis Suc_diff_Suc Suc_le_lessD power_Suc2)
    finally have pm: "(val A * val ?r) ^ n \<le> L ^ (n - m)" .
    also have "\<dots> \<le> L ^ n" using L1 by (intro power_increasing) auto
    finally have "val A * val ?r \<le> L" using n by (simp add: power_mono_iff)
    then have v: "val (base_mul A ?r) = val A * val ?r"
      using L Suc.prems(1) r(1) by (simp add: val_mul)
    have "limbs8 (base_mul A ?r)" using Suc.prems(1) r(1) by simp
    moreover have "0 < val A * val ?r" using Suc.prems(4) r(4) False by simp
    ultimately have IH: "if \<exists>j<m. target (b (i + 1 + int j)) = 0
      then block_proof_loop m (i + 1) n h prev params (base_mul A ?r) = Some (Inr None)
      else \<exists>A'. block_proof_loop m (i + 1) n h prev params (base_mul A ?r) = Some (Inr (Some A')) \<and> limbs8 A' \<and> 0 < val A' \<and>
             val A' \<le> L \<and> val A' ^ n \<le> (val A * val ?r) ^ n * (\<Prod>j<m. target (b (i + 1 + int j)))"
      using Suc.IH [of "base_mul A ?r" "i + 1"] pm Suc.prems(3) unfolding v by simp
    have "val A' ^ n \<le> val A ^ n * (\<Prod>j<Suc m. target (b (i + int j)))"
      if "val A' ^ n \<le> (val A * val ?r) ^ n * (\<Prod>j<m. target (b (i + 1 + int j)))" for A'
    proof -
      have "val A' ^ n \<le> (val A * val ?r) ^ n * (\<Prod>j<m. target (b (i + 1 + int j)))" by (rule that)
      also have "\<dots> \<le> val A ^ n * val bn * (\<Prod>j<m. target (b (i + 1 + int j)))" using p by (rule mult_le_mono1)
      also have "\<dots> = val A ^ n * (\<Prod>j<Suc m. target (b (i + int j)))"
        by (subst prod.lessThan_Suc_shift) (simp add: t mult.assoc add.assoc)
      finally show ?thesis .
    qed
    note fin = this
    show ?thesis
    proof (cases "\<exists>j<m. target (b (i + 1 + int j)) = 0")
      case True
      then show ?thesis using IH False unfolding step ex by simp
    next
      case none: False
      obtain A' where A': "block_proof_loop m (i + 1) n h prev params (base_mul A ?r) = Some (Inr (Some A'))" "limbs8 A'"
          "0 < val A'" "val A' \<le> L" "val A' ^ n \<le> (val A * val ?r) ^ n * (\<Prod>j<m. target (b (i + 1 + int j)))"
        using IH unfolding if_not_P [OF none] by blast
      show ?thesis using A'(1-4) fin [OF A'(5)] none False unfolding step ex by (simp del: prod.lessThan_Suc)
    qed
  qed
qed

lemma quotient_plus_one:
  fixes A :: nat
  assumes "A + 1 < M"
  shows "(M - 1 - A) div (A + 1) + 1 = M div (A + 1)"
proof -
  have "M div (A + 1) = ((M - 1 - A) + (A + 1)) div (A + 1)" using assms by simp
  also have "\<dots> = (M - 1 - A) div (A + 1) + 1" by (rule div_add_self2) simp
  finally show ?thesis by simp
qed

lemma proof_of_average:
  assumes "limbs8 A" "0 < val A" "val A + 1 < 2 ^ 256"
  shows "\<exists>q. base_div (base_not A) (base_add A (base_u64 1)) = Some q \<and> limbs8 (base_shl (base_add q (base_u64 1)) 7) \<and>
    val (base_shl (base_add q (base_u64 1)) 7) = 2 ^ 256 div (val A + 1) * 128 mod 2 ^ 256"
proof -
  have d: "val (base_add A (base_u64 1)) = val A + 1" using assms by (simp add: val_add val_base_u64)
  then obtain q where q: "base_div (base_not A) (base_add A (base_u64 1)) = Some q" "limbs8 q"
      "val q = (2 ^ 256 - 1 - val A) div (val A + 1)"
    using base_div_val(2) [of "base_not A" "base_add A (base_u64 1)"] assms(1) by (auto simp: val_not)
  have "val q + 1 = 2 ^ 256 div (val A + 1)" unfolding q(3) by (rule quotient_plus_one [OF assms(3)])
  moreover have "2 ^ 256 div (val A + 1) < (2 :: nat) ^ 256" using assms(2) by (intro div_less_dividend) auto
  ultimately have "val (base_add q (base_u64 1)) = 2 ^ 256 div (val A + 1)"
    using q(2) by (simp add: val_add val_base_u64)
  then show ?thesis using q(1,2) by (intro exI [of _ q]) (simp add: val_shl)
qed

lemma current_algos_bounds: "1 < current_algos params height" "current_algos params height < 64"
  by (auto simp: current_algos_def NUM_ALGOS_def NUM_ALGOSV2_def NUM_ALGOSV3_def)

text \<open>The required bits of each algorithm for the successor of a block, as a function.\<close>

lemma required_bits:
  assumes "height_ok h" "params_ok params"
  obtains b where "\<And>i. GetNextWorkRequired h prev params i = Some (Inr (b i))" "\<And>i. well_formed_bits (b i)"
    "\<And>i. target (b i) \<le> unat (powLimit params)"
proof -
  have "\<forall>i. \<exists>b. GetNextWorkRequired h prev params i = Some (Inr b) \<and> well_formed_bits b \<and> target b \<le> unat (powLimit params)"
    using GetNextWorkRequired_ok [OF assms] by blast
  then show ?thesis using that by metis
qed

definition work_of :: "nat \<Rightarrow> (nat \<Rightarrow> nat) \<Rightarrow> nat \<Rightarrow> nat \<Rightarrow> bool" where
  "work_of n t L w \<longleftrightarrow>
     (if \<exists>j<n. t j = 0 then w = 0
      else \<exists>A. 0 < A \<and> A \<le> L \<and> A ^ n \<le> (\<Prod>j<n. t j) \<and> w = 2 ^ 256 div (A + 1) * 128 mod 2 ^ 256)"

lemma GetBlockProof_ok:
  assumes "height_ok h" "params_ok params" "unat (powLimit params) + 1 < 2 ^ 256"
  shows "\<exists>w b. GetBlockProof h params block = Some (Inr w) \<and> limbs8 w \<and>
    (\<forall>i. GetNextWorkRequired h (pprev block) params i = Some (Inr (b i))) \<and>
    work_of (current_algos params (bi_nHeight block)) (\<lambda>j. target (b (int j))) (unat (powLimit params)) (val w)"
proof -
  let ?L = "unat (powLimit params)" and ?n = "current_algos params (bi_nHeight block)"
  obtain b where b: "\<And>i. GetNextWorkRequired h (pprev block) params i = Some (Inr (b i))" "\<And>i. well_formed_bits (b i)"
      "\<And>i. target (b i) \<le> ?L" using required_bits [OF assms(1,2)] by blast
  have L: "?L < 2 ^ 256" using assms(3) by linarith
  have loop: "if \<exists>j<?n. target (b (int j)) = 0 then block_proof_loop ?n 0 ?n h (pprev block) params (base_u64 1) = Some (Inr None)
     else \<exists>A. block_proof_loop ?n 0 ?n h (pprev block) params (base_u64 1) = Some (Inr (Some A)) \<and> limbs8 A \<and> 0 < val A \<and>
            val A \<le> ?L \<and> val A ^ ?n \<le> (\<Prod>j<?n. target (b (int j)))"
    using block_proof_loop_ok [OF b L current_algos_bounds, of "base_u64 1" params "bi_nHeight block" ?n 0]
    by (simp add: val_base_u64 cong: if_cong)
  show ?thesis
  proof (cases "\<exists>j<?n. target (b (int j)) = 0")
    case True
    then have "GetBlockProof h params block = Some (Inr base_zero)"
      using loop by (simp add: GetBlockProof_def val_base_u64)
    then show ?thesis using b(1) True by (intro exI [of _ base_zero] exI [of _ b]) (simp add: work_of_def)
  next
    case False
    obtain A where A: "block_proof_loop ?n 0 ?n h (pprev block) params (base_u64 1) = Some (Inr (Some A))" "limbs8 A"
        "0 < val A" "val A \<le> ?L" "val A ^ ?n \<le> (\<Prod>j<?n. target (b (int j)))"
      using loop unfolding if_not_P [OF False] by blast
    have "val A + 1 < 2 ^ 256" using A(4) assms(3) by linarith
    from proof_of_average [OF A(2,3) this] obtain q where q: "base_div (base_not A) (base_add A (base_u64 1)) = Some q"
        "limbs8 (base_shl (base_add q (base_u64 1)) 7)"
        "val (base_shl (base_add q (base_u64 1)) 7) = 2 ^ 256 div (val A + 1) * 128 mod 2 ^ 256" by blast
    have "work_of ?n (\<lambda>j. target (b (int j))) ?L (val (base_shl (base_add q (base_u64 1)) 7))"
      unfolding work_of_def using False A(3-5) q(3) by auto
    then show ?thesis using b(1) A(1) q(1,2)
      by (intro exI [of _ "base_shl (base_add q (base_u64 1)) 7"] exI [of _ b]) (simp add: GetBlockProof_def)
  qed
qed

section \<open>Adding an entry does not change what is computed from the old ones\<close>

lemma walk_back_None [simp]: "walk_back h n None = None"
  by (cases n) auto

lemma walk_back_up: "walk_back h n (Some p) = up h n p"
  by (induction n arbitrary: p) (auto split: option.splits)

text \<open>Two heaps agree on a set of addresses that is closed under taking parents.\<close>

definition agree :: "ptr set \<Rightarrow> block_heap \<Rightarrow> block_heap \<Rightarrow> bool" where
  "agree A h h' \<longleftrightarrow> (\<forall>p \<in> A. h' p = h p) \<and> (\<forall>p \<in> A. \<forall>q. pprev (h p) = Some q \<longrightarrow> q \<in> A)"

lemma agreeD: "agree A h h' \<Longrightarrow> p \<in> A \<Longrightarrow> h' p = h p" "agree A h h' \<Longrightarrow> p \<in> A \<Longrightarrow> pprev (h p) = Some q \<Longrightarrow> q \<in> A"
  by (auto simp: agree_def)

lemma median_times_agree: "agree A h h' \<Longrightarrow> set_option a \<subseteq> A \<Longrightarrow> median_times n h' a = median_times n h a"
proof (induction n arbitrary: a)
  case (Suc n)
  then show ?case by (cases a) (auto simp: agreeD intro!: Suc.IH dest: agreeD(2))
qed simp

lemma GetMedianTimePast_agree: "agree A h h' \<Longrightarrow> p \<in> A \<Longrightarrow> GetMedianTimePast h' p = GetMedianTimePast h p"
  by (simp add: GetMedianTimePast_def median_times_agree)

lemma up_agree: "agree A h h' \<Longrightarrow> p \<in> A \<Longrightarrow> up h' n p = up h n p \<and> set_option (up h n p) \<subseteq> A"
  by (induction n arbitrary: p) (auto simp: agreeD split: option.splits dest: agreeD(2))

lemma walk_back_agree:
  "agree A h h' \<Longrightarrow> set_option a \<subseteq> A \<Longrightarrow> walk_back h' n a = walk_back h n a \<and> set_option (walk_back h n a) \<subseteq> A"
  by (cases a) (auto simp: walk_back_up up_agree dest: up_agree [of A h h' _ n])

lemma last_block_agree:
  assumes "agree A h h'" "height_ok h"
  shows "a = Some l \<Longrightarrow> l \<in> A \<Longrightarrow> (\<And>p. p \<in> A \<Longrightarrow> f' p = f p) \<Longrightarrow>
    last_block_loop h' f' a = last_block_loop h f a \<and> (\<forall>p. last_block_loop h f a = Some (Some p) \<longrightarrow> p \<in> A)"
proof (induction "nat (bi_nHeight (h l))" arbitrary: l a rule: less_induct)
  case less
  show ?case
  proof (cases "pprev (h l)")
    case None
    then show ?thesis using less assms by (simp add: agreeD last_block_loop.simps)
  next
    case (Some q)
    have "nat (bi_nHeight (h q)) < nat (bi_nHeight (h l))"
      using height_prev [OF assms(2) Some] height_nonneg [OF assms(2), of q] by simp
    from less(1) [OF this refl agreeD(2) [OF assms(1) less(3) Some] less(4)]
    have IH: "last_block_loop h' f' (Some q) = last_block_loop h f (Some q)" "\<forall>p. last_block_loop h f (Some q) = Some (Some p) \<longrightarrow> p \<in> A"
      by auto
    have "h' l = h l" using assms(1) less(3) by (rule agreeD)
    with IH Some less(2-4) show ?thesis by (subst (1 2 3) last_block_loop.simps) auto
  qed
qed

lemma GetLastBlockIndexForAlgo_agree:
  assumes "agree A h h'" "height_ok h" "l \<in> A"
  shows "GetLastBlockIndexForAlgo h' (Some l) params algo = GetLastBlockIndexForAlgo h (Some l) params algo \<and>
    (\<forall>p. GetLastBlockIndexForAlgo h (Some l) params algo = Some (Some p) \<longrightarrow> p \<in> A)"
proof -
  have "(GetAlgo (h' p) \<noteq> algo \<or> min_difficulty_block h' params p) = (GetAlgo (h p) \<noteq> algo \<or> min_difficulty_block h params p)" if "p \<in> A" for p
    using agreeD [OF assms(1) that] by (auto simp: min_difficulty_block_def agreeD(1) [OF assms(1)] split: option.splits)
  then show ?thesis unfolding GetLastBlockIndexForAlgo_def by (intro last_block_agree [OF assms(1,2) refl assms(3)]) simp
qed

lemma GetNextWorkRequired_agree:
  assumes "agree A h h'" "height_ok h" "l \<in> A"
  shows "GetNextWorkRequired h' (Some l) params algo = GetNextWorkRequired h (Some l) params algo"
proof -
  note L = GetLastBlockIndexForAlgo_agree [OF assms, of params algo]
  have W: "walk_back h' n (Some l) = walk_back h n (Some l)" "walk_back h n (Some l) = Some f \<Longrightarrow> f \<in> A" for n f
    using walk_back_agree [OF assms(1), of "Some l" n] assms(3) by auto
  have A: "h' p = h p" "GetMedianTimePast h' p = GetMedianTimePast h p" if "p \<in> A" for p
    using agreeD(1) [OF assms(1) that] GetMedianTimePast_agree [OF assms(1) that] .
  note D = GetNextWorkRequiredV1_def GetNextWorkRequiredV2_def GetNextWorkRequiredV3_def
  show ?thesis
    unfolding GetNextWorkRequired_def D
    using L W A assms(3) by (auto split: option.splits simp: Let_def)
qed

lemma block_proof_loop_agree:
  "(\<And>i. GetNextWorkRequired h' prev params i = GetNextWorkRequired h prev params i) \<Longrightarrow>
   block_proof_loop n i algos h' prev params avg = block_proof_loop n i algos h prev params avg"
  by (induction n arbitrary: i avg) (auto split: option.splits sum.splits prod.splits)

text \<open>The work of a block depends on its height and on the blocks below it only.\<close>

lemma GetBlockProof_agree:
  assumes "agree A h h'" "height_ok h" "set_option (pprev block) \<subseteq> A" "pprev block' = pprev block" "bi_nHeight block' = bi_nHeight block"
  shows "GetBlockProof h' params block' = GetBlockProof h params block"
proof -
  have "GetNextWorkRequired h' (pprev block) params i = GetNextWorkRequired h (pprev block) params i" for i
    using assms(3) GetNextWorkRequired_agree [OF assms(1,2)]
    by (cases "pprev block") (simp_all add: GetNextWorkRequired_def GetNextWorkRequiredV1_def)
  from block_proof_loop_agree [of h' "pprev block" params h, OF this] show ?thesis by (simp add: GetBlockProof_def assms(4,5))
qed

lemma ancestor_agree: "agree A h h' \<Longrightarrow> p \<in> A \<Longrightarrow> ancestor h' p k = ancestor h p k"
  by (simp add: ancestor_def agreeD(1) up_agree)

section \<open>The block index\<close>

text \<open>
  The invariant of the block index: the tree invariant; the maximal times grow; the entries of the map
  are allocated and carry their key as hash; addresses not yet allocated hold the empty entry and are
  not linked to.
\<close>

definition index_ok :: "block_heap \<Rightarrow> ptr \<Rightarrow> (uint256 \<rightharpoonup> ptr) \<Rightarrow> bool" where
  "index_ok h n m \<longleftrightarrow> block_tree h \<and> time_max_ok h \<and>
     (\<forall>hash p. m hash = Some p \<longrightarrow> p < n \<and> bi_hash (h p) = hash) \<and>
     (\<forall>p q. pprev (h p) = Some q \<longrightarrow> q < n) \<and>
     (\<forall>p\<ge>n. h p = CBlockIndex_null)"

definition index_inv :: "index_state \<Rightarrow> bool" where
  "index_inv s \<longleftrightarrow> index_ok (bi_heap s) (bi_next s) (mapBlockIndex s)"

lemma index_invD:
  assumes "index_inv s"
  shows "block_tree (bi_heap s)" "time_max_ok (bi_heap s)"
    "mapBlockIndex s hash = Some p \<Longrightarrow> p < bi_next s \<and> bi_hash (bi_heap s p) = hash"
    "pprev (bi_heap s p) = Some q \<Longrightarrow> q < bi_next s"
    "bi_next s \<le> p \<Longrightarrow> bi_heap s p = CBlockIndex_null"
  using assms unfolding index_inv_def index_ok_def by blast+

lemma extend_agree:
  assumes "index_inv s" "\<forall>p<bi_next s. bi_heap s' p = bi_heap s p"
  shows "agree {p. p < bi_next s} (bi_heap s) (bi_heap s')"
  using assms(2) index_invD(4) [OF assms(1)] by (auto simp: agree_def)

definition new_entry :: "(CBlockHeader \<Rightarrow> uint256) \<Rightarrow> CBlockHeader \<Rightarrow> index_state \<Rightarrow> CBlockIndex" where
  "new_entry GetHash block s =
     (let bi = (CBlockIndex_make block) \<lparr> bi_nSequenceId := 0, bi_hash := GetHash block \<rparr> in
      case mapBlockIndex s (bh_hashPrevBlock block) of
        None \<Rightarrow> bi
      | Some q \<Rightarrow> bi \<lparr> pprev := Some q, bi_nHeight := bi_nHeight (bi_heap s q) + 1 \<rparr>)"

lemma new_entry_fields:
  "pskip (new_entry GetHash block s) = None"
  "pprev (new_entry GetHash block s) = mapBlockIndex s (bh_hashPrevBlock block)"
  "bi_nHeight (new_entry GetHash block s) =
     (case mapBlockIndex s (bh_hashPrevBlock block) of None \<Rightarrow> 0 | Some q \<Rightarrow> bi_nHeight (bi_heap s q) + 1)"
  "bi_hash (new_entry GetHash block s) = GetHash block"
  "bi_nTime (new_entry GetHash block s) = bh_nTime block"
  "bi_nBits (new_entry GetHash block s) = bh_nBits block" "bi_nVersion (new_entry GetHash block s) = bh_nVersion block"
  "bi_hashMerkleRoot (new_entry GetHash block s) = bh_hashMerkleRoot block" "bi_nNonce (new_entry GetHash block s) = bh_nNonce block"
  "bi_nStatus (new_entry GetHash block s) = 0"
  by (simp_all add: new_entry_def CBlockIndex_make_def CBlockIndex_null_def Let_def split: option.splits)

lemma new_entry_tree:
  assumes "index_inv s"
  shows "block_tree ((bi_heap s)(bi_next s := new_entry GetHash block s))"
proof (rule block_tree_extend)
  show "block_tree (bi_heap s)" by (rule index_invD [OF assms])
  show "pprev (bi_heap s q) \<noteq> Some (bi_next s)" for q using index_invD(4) [OF assms] by blast
  show "pprev (new_entry GetHash block s) \<noteq> Some (bi_next s)" using index_invD(3) [OF assms] by (auto simp: new_entry_fields)
qed (simp_all add: new_entry_fields)

text \<open>The linking step of \<open>AddToBlockIndex\<close> succeeds and only adds the new entry with its skip pointer.\<close>

lemma link_new_entry:
  assumes inv: "index_inv s" and neq: "GetHash block \<noteq> bh_hashPrevBlock block"
  defines "n \<equiv> bi_next s"
  defines "h \<equiv> (bi_heap s)(n := (CBlockIndex_make block) \<lparr> bi_nSequenceId := 0, bi_hash := GetHash block \<rparr>)"
  obtains sk where "link_index ((mapBlockIndex s)(GetHash block \<mapsto> n)) h n block
      = Inr ((bi_heap s)(n := (new_entry GetHash block s) \<lparr> pskip := sk \<rparr>))"
    "block_tree ((bi_heap s)(n := (new_entry GetHash block s) \<lparr> pskip := sk \<rparr>))"
    "sk = (case mapBlockIndex s (bh_hashPrevBlock block) of
             None \<Rightarrow> None | Some q \<Rightarrow> ancestor (bi_heap s) q (GetSkipHeight (bi_nHeight (bi_heap s q) + 1)))"
proof (cases "mapBlockIndex s (bh_hashPrevBlock block)")
  case None
  have e: "(new_entry GetHash block s)\<lparr>pskip := None\<rparr> = new_entry GetHash block s"
    by (simp add: new_entry_fields(1) [symmetric])
  show ?thesis
    by (rule that [of None])
      (use None neq new_entry_tree [OF inv, of GetHash block] in \<open>simp_all add: e, simp_all add: h_def n_def link_index_def new_entry_def\<close>)
next
  case (Some q)
  have q: "q \<noteq> n" using index_invD(3) [OF inv Some] by (simp add: n_def)
  let ?h = "(bi_heap s)(n := new_entry GetHash block s)"
  have h: "h(n := (h n) \<lparr> pprev := Some q, bi_nHeight := bi_nHeight (h q) + 1 \<rparr>) = ?h"
    using Some q by (simp add: h_def new_entry_def)
  note tree = new_entry_tree [OF inv, of GetHash block, folded n_def]
  have p: "pprev (?h n) = Some q" "bi_nHeight (?h n) = bi_nHeight (bi_heap s q) + 1" using Some by (simp_all add: new_entry_fields)
  obtain h' where h': "BuildSkip ?h n = Inr h'" "block_tree h'" "h' = ?h(n := (?h n)\<lparr>pskip := pskip (h' n)\<rparr>)"
      "pskip (h' n) = ancestor ?h n (GetSkipHeight (bi_nHeight (?h n)))"
    by (rule BuildSkip_ok [OF tree, of n]) (use p(1) in blast)
  have "bi_nHeight (bi_heap s q) \<ge> 0" using height_nonneg [OF block_treeD(1) [OF index_invD(1) [OF inv]]] .
  then have "ancestor ?h n (GetSkipHeight (bi_nHeight (?h n))) = ancestor ?h q (GetSkipHeight (bi_nHeight (?h n)))"
    using p(2) GetSkipHeight_bounds [of "bi_nHeight (bi_heap s q) + 1"] by (intro ancestor_prev [OF block_treeD(1) [OF tree] p(1)]) simp
  also have "\<dots> = ancestor (bi_heap s) q (GetSkipHeight (bi_nHeight (bi_heap s q) + 1))"
    unfolding p(2) using index_invD(3,4) [OF inv] Some
    by (intro ancestor_agree [of "{p. p < n}"]) (auto simp: agree_def n_def)
  finally have sk: "pskip (h' n) = ancestor (bi_heap s) q (GetSkipHeight (bi_nHeight (bi_heap s q) + 1))" using h'(4) by simp
  have e: "(bi_heap s)(n := (new_entry GetHash block s)\<lparr>pskip := pskip (h' n)\<rparr>) = h'" using h'(3) by simp
  show ?thesis
    by (rule that [of "pskip (h' n)"], unfold e) (use Some neq h sk h'(1,2) in \<open>simp_all add: link_index_def\<close>)
qed

lemma RaiseValidity_links:
  "pprev (snd (RaiseValidity bi nUpTo)) = pprev bi" "pskip (snd (RaiseValidity bi nUpTo)) = pskip bi"
  "bi_nHeight (snd (RaiseValidity bi nUpTo)) = bi_nHeight bi" "bi_hash (snd (RaiseValidity bi nUpTo)) = bi_hash bi"
  "bi_nTimeMax (snd (RaiseValidity bi nUpTo)) = bi_nTimeMax bi" "nChainWork (snd (RaiseValidity bi nUpTo)) = nChainWork bi"
  "bi_nTime (snd (RaiseValidity bi nUpTo)) = bi_nTime bi" "bi_nBits (snd (RaiseValidity bi nUpTo)) = bi_nBits bi"
  "bi_nVersion (snd (RaiseValidity bi nUpTo)) = bi_nVersion bi" "bi_nNonce (snd (RaiseValidity bi nUpTo)) = bi_nNonce bi"
  "bi_hashMerkleRoot (snd (RaiseValidity bi nUpTo)) = bi_hashMerkleRoot bi"
  by (simp_all add: RaiseValidity_def)

lemma RaiseValidity_new: "bi_nStatus bi = 0 \<Longrightarrow> bi_nStatus (snd (RaiseValidity bi BLOCK_VALID_TREE)) = BLOCK_VALID_TREE"
  by (simp add: RaiseValidity_def BLOCK_VALID_TREE_def)

text \<open>What an added entry satisfies.\<close>

definition added_entry :: "(CBlockHeader \<Rightarrow> uint256) \<Rightarrow> CBlockHeader \<Rightarrow> index_state \<Rightarrow> base_uint \<Rightarrow> CBlockIndex \<Rightarrow> bool" where
  "added_entry GetHash block s work bi \<longleftrightarrow>
     bi_hash bi = GetHash block \<and> pprev bi = mapBlockIndex s (bh_hashPrevBlock block) \<and>
     bi_nTime bi = bh_nTime block \<and> bi_nBits bi = bh_nBits block \<and> bi_nVersion bi = bh_nVersion block \<and>
     bi_hashMerkleRoot bi = bh_hashMerkleRoot block \<and> bi_nNonce bi = bh_nNonce block \<and> bi_nStatus bi = BLOCK_VALID_TREE \<and>
     (case pprev bi of
        None \<Rightarrow> bi_nHeight bi = 0 \<and> pskip bi = None \<and> bi_nTimeMax bi = bh_nTime block \<and>
          nChainWork bi = base_add (base_u64 0) work
      | Some q \<Rightarrow> bi_nHeight bi = bi_nHeight (bi_heap s q) + 1 \<and>
          pskip bi = ancestor (bi_heap s) q (GetSkipHeight (bi_nHeight bi)) \<and>
          bi_nTimeMax bi = max (bi_nTimeMax (bi_heap s q)) (bh_nTime block) \<and>
          nChainWork bi = base_add (nChainWork (bi_heap s q)) work)"

lemma index_ok_added:
  assumes inv: "index_inv s" and tree: "block_tree ((bi_heap s)(bi_next s := bi))" and bi: "added_entry GetHash block s work bi"
  shows "index_ok ((bi_heap s)(bi_next s := bi)) (bi_next s + 1) ((mapBlockIndex s)(GetHash block \<mapsto> bi_next s))"
proof -
  let ?n = "bi_next s" and ?h = "(bi_heap s)(bi_next s := bi)"
  note I = index_invD [OF inv]
  have bi_lt: "q < ?n" if "pprev bi = Some q" for q using bi that I(3) by (auto simp: added_entry_def)
  have bi_time: "bi_nTimeMax (bi_heap s q) \<le> bi_nTimeMax bi" if "pprev bi = Some q" for q
    using bi unfolding added_entry_def that option.case by simp
  have "bi_nTimeMax (?h q) \<le> bi_nTimeMax (?h p)" if "pprev (?h p) = Some q" for p q
    using that bi_lt [of q] bi_time [of q] I(4) [of p q] I(2) by (auto simp: time_max_ok_def split: if_splits)
  then have "time_max_ok ?h" by (simp only: time_max_ok_def) blast
  moreover have "q < ?n + 1" if "pprev (?h p) = Some q" for p q
    using that I(4) [of p q] bi_lt [of q] by (auto split: if_splits)
  moreover have "p < ?n + 1 \<and> bi_hash (?h p) = hash" if "((mapBlockIndex s)(GetHash block \<mapsto> ?n)) hash = Some p" for p hash
    using that I(3) [of hash p] bi by (auto simp: added_entry_def split: if_splits)
  moreover have "?h p = CBlockIndex_null" if "?n + 1 \<le> p" for p
    using that I(5) [of p] by auto
  ultimately show ?thesis using tree unfolding index_ok_def by blast
qed

lemma AddToBlockIndex_new:
  assumes inv: "index_inv s" and new: "mapBlockIndex s (GetHash block) = None" and neq: "GetHash block \<noteq> bh_hashPrevBlock block"
    and params: "params_ok params" "unat (powLimit params) + 1 < 2 ^ 256"
  shows "\<exists>s' work. AddToBlockIndex GetHash params block s = Some (Inr (bi_next s, s')) \<and> index_inv s' \<and>
    bi_next s' = bi_next s + 1 \<and> mapBlockIndex s' = (mapBlockIndex s)(GetHash block \<mapsto> bi_next s) \<and>
    (\<forall>p<bi_next s. bi_heap s' p = bi_heap s p) \<and>
    GetBlockProof (bi_heap s) params (bi_heap s' (bi_next s)) = Some (Inr work) \<and>
    added_entry GetHash block s work (bi_heap s' (bi_next s))"
proof -
  let ?n = "bi_next s" and ?m = "(mapBlockIndex s)(GetHash block \<mapsto> bi_next s)"
  let ?h = "(bi_heap s)(?n := (CBlockIndex_make block) \<lparr> bi_nSequenceId := 0, bi_hash := GetHash block \<rparr>)"
  obtain sk where link: "link_index ?m ?h ?n block = Inr ((bi_heap s)(?n := (new_entry GetHash block s) \<lparr> pskip := sk \<rparr>))"
    and tree: "block_tree ((bi_heap s)(?n := (new_entry GetHash block s) \<lparr> pskip := sk \<rparr>))"
    and sk: "sk = (case mapBlockIndex s (bh_hashPrevBlock block) of
             None \<Rightarrow> None | Some q \<Rightarrow> ancestor (bi_heap s) q (GetSkipHeight (bi_nHeight (bi_heap s q) + 1)))"
    using link_new_entry [OF inv, of GetHash block, OF neq] by blast
  define h where "h = (bi_heap s)(?n := (new_entry GetHash block s) \<lparr> pskip := sk \<rparr>)"
  define h1 where "h1 = set_time_max h ?n"
  have "block_tree h1" using tree unfolding h_def [symmetric]
    by (subst block_tree_cong [of h1 h]) (auto simp: h1_def set_time_max_def)
  then have hk: "height_ok h1" by (rule block_treeD)
  obtain work where work: "GetBlockProof h1 params (h1 ?n) = Some (Inr work)"
    using GetBlockProof_ok [OF hk params] by blast
  define bi where "bi = snd (RaiseValidity (set_chain_work h1 ?n work ?n) BLOCK_VALID_TREE)"
  have q: "q \<noteq> ?n" if "mapBlockIndex s (bh_hashPrevBlock block) = Some q" for q using index_invD(3) [OF inv that] by auto
  have links: "pprev bi = mapBlockIndex s (bh_hashPrevBlock block)" "pprev (h1 ?n) = pprev bi" "bi_nHeight (h1 ?n) = bi_nHeight bi"
    by (simp_all add: bi_def RaiseValidity_links h1_def h_def set_time_max_def set_chain_work_def new_entry_fields)
  have "agree {p. p < ?n} (bi_heap s) h1"
    using index_invD(4) [OF inv] by (auto simp: agree_def h1_def h_def set_time_max_def)
  moreover have "set_option (pprev bi) \<subseteq> {p. p < ?n}" unfolding links(1) using index_invD(3) [OF inv] by (auto simp: elem_set)
  ultimately have proof_old: "GetBlockProof (bi_heap s) params bi = Some (Inr work)"
    using GetBlockProof_agree [OF _ block_treeD(1) [OF index_invD(1) [OF inv]] _ links(2,3)] work by metis
  have added: "added_entry GetHash block s work bi"
    using q sk by (auto simp: added_entry_def bi_def RaiseValidity_links RaiseValidity_new h1_def h_def set_time_max_def set_chain_work_def
        new_entry_fields split: option.splits)
  have "block_tree ((bi_heap s)(?n := bi))"
    using tree by (subst block_tree_cong [of _ "(bi_heap s)(?n := (new_entry GetHash block s) \<lparr> pskip := sk \<rparr>)"])
      (auto simp: bi_def RaiseValidity_links h1_def h_def set_time_max_def set_chain_work_def)
  note inv' = index_ok_added [OF inv this added]
  have heap: "(set_chain_work h1 ?n work)(?n := bi) = (bi_heap s)(?n := bi)"
    by (simp add: set_chain_work_def h1_def set_time_max_def h_def)
  have "AddToBlockIndex GetHash params block s = Some (Inr (?n, s\<lparr>bi_heap := (bi_heap s)(?n := bi), bi_next := ?n + 1,
      mapBlockIndex := ?m, pindexBestHeader := best_header ((bi_heap s)(?n := bi)) (pindexBestHeader s) ?n,
      setDirtyBlockIndex := List.insert ?n (setDirtyBlockIndex s)\<rparr>))"
    unfolding AddToBlockIndex_def new option.case Let_def link sum.case h_def [symmetric] h1_def [symmetric] work
      bi_def [symmetric] heap ..
  then show ?thesis using inv' added proof_old by (auto simp: index_inv_def)
qed

text \<open>The chain work of every entry is that of its parent plus the work of its own.\<close>

definition work_entry :: "block_heap \<Rightarrow> Params \<Rightarrow> CBlockIndex \<Rightarrow> bool" where
  "work_entry h params bi \<longleftrightarrow> (\<exists>work. GetBlockProof h params bi = Some (Inr work) \<and>
     nChainWork bi = base_add (case pprev bi of None \<Rightarrow> base_u64 0 | Some q \<Rightarrow> nChainWork (h q)) work)"

definition cumulative_work :: "Params \<Rightarrow> index_state \<Rightarrow> bool" where
  "cumulative_work params s \<longleftrightarrow> (\<forall>p<bi_next s. work_entry (bi_heap s) params (bi_heap s p))"

lemma cumulative_work_extend:
  assumes inv: "index_inv s" and work: "cumulative_work params s" and n: "bi_next s' = bi_next s + 1"
    and old: "\<forall>p<bi_next s. bi_heap s' p = bi_heap s p" and new: "work_entry (bi_heap s) params (bi_heap s' (bi_next s))"
    and prev: "set_option (pprev (bi_heap s' (bi_next s))) \<subseteq> {p. p < bi_next s}"
  shows "cumulative_work params s'"
proof -
  have "work_entry (bi_heap s') params bi" if "work_entry (bi_heap s) params bi" "set_option (pprev bi) \<subseteq> {p. p < bi_next s}" for bi
    using that old GetBlockProof_agree [OF extend_agree [OF inv old] block_treeD(1) [OF index_invD(1) [OF inv]] that(2) refl refl, of params]
    by (auto simp: work_entry_def split: option.splits)
  moreover have "set_option (pprev (bi_heap s p)) \<subseteq> {p. p < bi_next s}" for p using index_invD(4) [OF inv] by (auto simp: elem_set)
  ultimately show ?thesis using work new prev old n by (auto simp: cumulative_work_def less_Suc_eq)
qed

section \<open>Properties\<close>

lemma CMainParams_ok: "params_ok CMainParams_consensus" "unat (powLimit CMainParams_consensus) + 1 < 2 ^ 256"
  by (simp_all add: params_ok_def CMainParams_consensus_def Let_def u64_of_def)

text \<open>
  (C17) \<open>GetNextWorkRequired\<close> (\<^verbatim>\<open>pow.cpp\<close>): in a block tree, and with parameters whose divisors are not
  zero modulo 2 to the 64, the required bits are always computed: the search for the last block of
  the algorithm ends, no division throws, and whatever the timestamps and the bits of the earlier blocks
  are, the result is a well-formed compact number whose target is at most the proof-of-work limit.
\<close>

theorem GetNextWorkRequired_bounded:
  assumes "block_tree h" "params_ok params"
  shows "\<exists>nBits. GetNextWorkRequired h pindexLast params algo = Some (Inr nBits) \<and>
    well_formed_bits nBits \<and> target nBits \<le> unat (powLimit params)"
  using GetNextWorkRequired_ok [OF block_treeD(1) [OF assms(1)] assms(2)] by blast

theorem GetNextWorkRequired_bounded_witness:
  "\<exists>nBits. GetNextWorkRequired line_heap (Some 300000) CMainParams_consensus ALGO_SCRYPT = Some (Inr nBits)"
  using GetNextWorkRequired_bounded [OF line_heap_tree CMainParams_ok(1)] by blast

text \<open>
  \<open>CheckProofOfWork\<close> (\<^verbatim>\<open>pow.cpp\<close>): a hash passes exactly when the bits are well formed (no sign, no
  overflow), their target is positive and within the limit, and the hash, read as a number, is at
  most the target; hence for the bits that \<open>GetNextWorkRequired\<close> returns only the last comparison and a
  zero target can reject.
\<close>

theorem CheckProofOfWork_exact:
  assumes "block_tree h" "params_ok params"
  shows "(CheckProofOfWork hash nBits params \<longleftrightarrow>
      well_formed_bits nBits \<and> 0 < target nBits \<and> target nBits \<le> unat (powLimit params) \<and> unat hash \<le> target nBits) \<and>
    (GetNextWorkRequired h pindexLast params algo = Some (Inr nBits) \<longrightarrow>
      (CheckProofOfWork hash nBits params \<longleftrightarrow> 0 < target nBits \<and> unat hash \<le> target nBits))"
  using GetNextWorkRequired_ok [OF block_treeD(1) [OF assms(1)] assms(2), of pindexLast algo]
  by (auto simp: CheckProofOfWork_iff)

theorem CheckProofOfWork_exact_witness:
  "\<exists>nBits. GetNextWorkRequired line_heap (Some 300000) CMainParams_consensus ALGO_SCRYPT = Some (Inr nBits) \<and>
     (CheckProofOfWork 5 nBits CMainParams_consensus \<longleftrightarrow> 0 < target nBits \<and> 5 \<le> target nBits)"
  using GetNextWorkRequired_ok [OF block_treeD(1) [OF line_heap_tree] CMainParams_ok(1), of "Some 300000" ALGO_SCRYPT]
    CheckProofOfWork_exact [OF line_heap_tree CMainParams_ok(1), of 5 _ "Some 300000" ALGO_SCRYPT] by auto

text \<open>
  \<open>GetBlockProof\<close> (\<^verbatim>\<open>chain.cpp\<close>) with \<open>ApproxNthRoot\<close> (\<^verbatim>\<open>arith_uint256.cpp\<close>): the work of a block is always
  computed, without overflow in the product of the roots and without division by zero. It is zero when the
  required target of one of the current algorithms is zero; otherwise it is 2 to the 256 divided by one more
  than a number whose n-th power is at most the product of the n required targets (their geometric
  mean), times 128 modulo 2 to the 256.
\<close>

theorem GetBlockProof_geometric_mean:
  assumes "block_tree h" "params_ok params" "unat (powLimit params) + 1 < 2 ^ 256"
  shows "\<exists>w b. GetBlockProof h params block = Some (Inr w) \<and>
    (\<forall>algo. GetNextWorkRequired h (pprev block) params algo = Some (Inr (b algo))) \<and>
    (let n = current_algos params (bi_nHeight block); t = (\<lambda>j. target (b (int j))) in
     if \<exists>j<n. t j = 0 then val w = 0
     else \<exists>A. 0 < A \<and> A \<le> unat (powLimit params) \<and> A ^ n \<le> (\<Prod>j<n. t j) \<and>
            val w = 2 ^ 256 div (A + 1) * 128 mod 2 ^ 256)"
  using GetBlockProof_ok [OF block_treeD(1) [OF assms(1)] assms(2,3), of block] unfolding work_of_def Let_def by blast

theorem GetBlockProof_geometric_mean_witness:
  "\<exists>w. GetBlockProof line_heap CMainParams_consensus (line_heap 7) = Some (Inr w)"
  using GetBlockProof_geometric_mean [OF line_heap_tree CMainParams_ok] by blast

text \<open>
  (C16) \<open>AddToBlockIndex\<close> (\<^verbatim>\<open>validation.cpp\<close>): entering a header keeps the invariant of the block index (heights,
  skip pointers, growing maximal times, map entries with their hashes), leaves every older entry as it was,
  never runs into an assertion or a division by zero, and returns the entry registered under the hash of
  the header. A new entry is linked to the entry of its parent, one higher, with the skip pointer to the ancestor at the
  skip height, and its chain work is that of the parent plus the work that \<open>GetBlockProof\<close> computes for it, so that chain work stays
  cumulative in the whole index; a header that is known already changes nothing. The hash function is a
  parameter; of it only that a header does not contain its own hash is used.
\<close>

theorem AddToBlockIndex_invariant:
  assumes "index_inv s" "GetHash block \<noteq> bh_hashPrevBlock block" "params_ok params" "unat (powLimit params) + 1 < 2 ^ 256"
  shows "\<exists>p s'. AddToBlockIndex GetHash params block s = Some (Inr (p, s')) \<and> index_inv s' \<and>
    (cumulative_work params s \<longrightarrow> cumulative_work params s') \<and>
    mapBlockIndex s' = (mapBlockIndex s)(GetHash block \<mapsto> p) \<and>
    (\<forall>q<bi_next s. bi_heap s' q = bi_heap s q) \<and>
    (if mapBlockIndex s (GetHash block) = None
     then p = bi_next s \<and> (\<exists>work. GetBlockProof (bi_heap s) params (bi_heap s' p) = Some (Inr work) \<and>
            added_entry GetHash block s work (bi_heap s' p))
     else s' = s)"
proof (cases "mapBlockIndex s (GetHash block)")
  case None
  from AddToBlockIndex_new [where GetHash = GetHash, OF assms(1) None assms(2-4)] obtain s' work where
    s': "AddToBlockIndex GetHash params block s = Some (Inr (bi_next s, s'))" "index_inv s'" "bi_next s' = bi_next s + 1"
      "mapBlockIndex s' = (mapBlockIndex s)(GetHash block \<mapsto> bi_next s)" "\<forall>p<bi_next s. bi_heap s' p = bi_heap s p"
    and new: "GetBlockProof (bi_heap s) params (bi_heap s' (bi_next s)) = Some (Inr work)"
      "added_entry GetHash block s work (bi_heap s' (bi_next s))" by blast
  have "work_entry (bi_heap s) params (bi_heap s' (bi_next s))"
    using new by (auto simp: work_entry_def added_entry_def split: option.splits)
  moreover have "set_option (pprev (bi_heap s' (bi_next s))) \<subseteq> {p. p < bi_next s}"
    using new(2) index_invD(3) [OF assms(1)] by (auto simp: added_entry_def elem_set)
  ultimately have "cumulative_work params s'" if "cumulative_work params s"
    using cumulative_work_extend [OF assms(1) that s'(3,5)] by blast
  then show ?thesis using None s' new by auto
next
  case (Some p)
  then show ?thesis using assms(1)
    by (intro exI [of _ p] exI [of _ s]) (auto simp: AddToBlockIndex_def map_upd_triv)
qed

definition empty_index :: index_state where
  "empty_index = \<lparr> bi_heap = (\<lambda>_. CBlockIndex_null), bi_next = 0, mapBlockIndex = Map.empty, pindexBestHeader = None, setDirtyBlockIndex = [] \<rparr>"

lemma empty_index_inv: "index_inv empty_index"
  by (simp add: index_inv_def index_ok_def empty_index_def block_tree_def height_ok_def skip_ok_def time_max_ok_def
      CBlockIndex_null_def)

theorem AddToBlockIndex_invariant_witness:
  "\<exists>p s'. AddToBlockIndex (\<lambda>b. bh_hashPrevBlock b + 1) CMainParams_consensus CBlockHeader_null empty_index = Some (Inr (p, s')) \<and>
     index_inv s' \<and> cumulative_work CMainParams_consensus s'"
  using AddToBlockIndex_invariant [OF empty_index_inv _ CMainParams_ok, of "\<lambda>b. bh_hashPrevBlock b + 1" CBlockHeader_null]
  by (auto simp: cumulative_work_def empty_index_def)

lemma local_adjust_shrinks:
  assumes "limbs8 bn" "0 \<le> adj" "nLocalTargetAdjustment params = 4" "local_adjust params adj bn = Inr q"
  shows "val q \<le> val bn"
  using assms adjust_loop_shrinks [of bn 100 104 "nat adj" q] by (auto simp: local_adjust_def u64_of_def split: if_splits)

lemma scaled_quotient:
  fixes v :: nat
  assumes "s \<le> 3024"
  shows "100 * (v * s mod M div 3600) \<le> 84 * v"
proof -
  have "v * s mod M \<le> v * 3024" using assms by (meson mod_less_eq_dividend mult_le_mono2 order_trans)
  then have "3600 * (v * s mod M div 3600) \<le> v * 3024" using div_times_less_eq_dividend [of "v * s mod M" 3600] by linarith
  then show ?thesis by linarith
qed

lemma main_timespan_V2:
  "actual_timespan (nAveragingTargetTimespanV2 CMainParams_consensus) (nMinActualTimespanV2 CMainParams_consensus)
     (nMaxActualTimespanV2 CMainParams_consensus) medians \<in> {2430..3024}"
  by (simp add: actual_timespan_def CMainParams_consensus_def Let_def)

lemma retarget_V2_falls:
  assumes "0 \<le> adj" "span \<in> {2430..3024}"
  shows "\<exists>b. retarget CMainParams_consensus span 3600 nBits adj = Inr b \<and> 100 * target b \<le> 84 * target nBits"
proof -
  let ?p = CMainParams_consensus and ?t = "fst (SetCompact nBits)"
  have s: "unat (word_of_int span :: u32) \<le> 3024"
    using assms(2) by (simp add: unsigned_of_int take_bit_int_eq_self nat_le_iff)
  have p4: "nLocalTargetAdjustment ?p = 4" by (simp add: CMainParams_consensus_def Let_def)
  obtain q where q: "base_div' (base_mul32 ?t (word_of_int span)) 3600 = Inr q" "limbs8 q"
      "val q = val (base_mul32 ?t (word_of_int span)) div u64_of 3600"
    using base_div'_ok [of "base_mul32 ?t (word_of_int span)" 3600] by (auto simp: u64_of_def)
  obtain r where r: "local_adjust ?p adj q = Inr r" "limbs8 r"
    using local_adjust_ok [OF q(2)] CMainParams_ok(1) by (metis params_ok_def)
  have "100 * val q \<le> 84 * target nBits"
    using scaled_quotient [OF s, of "val ?t" "2 ^ 256"] q(3) by (simp add: val_mul32 u64_of_def target_def)
  moreover have "val r \<le> val q" using local_adjust_shrinks [OF q(2) assms(1) p4 r(1)] .
  ultimately have "100 * val r \<le> 84 * target nBits" by linarith
  with limit_ok(3) [OF r(2), of ?p] q(1) r(1) show ?thesis
    by (intro exI conjI) (auto simp: retarget_def intro: order_trans [rotated])
qed

text \<open>
  (C18) \<open>GetNextWorkRequiredV2\<close> with the parameters of the main network (\<^verbatim>\<open>pow.cpp\<close>, \<^verbatim>\<open>chainparams.cpp\<close>): the
  limits of the time span are derived from the target time span of version 1 (2700 seconds) while the
  formula divides by that of version 2 (3600 seconds), so the limited time span is at most 3024 seconds
  and the target falls by at least 16 percent at every block whose algorithm was used within the
  last four blocks, whatever the timestamps are.
\<close>

theorem GetNextWorkRequiredV2_target_falls:
  assumes "GetLastBlockIndexForAlgo h (Some l) CMainParams_consensus algo = Some (Some a)" "up h 40 l = Some f"
    "bi_nHeight (h l) \<le> bi_nHeight (h a) + 3"
  shows "\<exists>nBits. GetNextWorkRequiredV2 h (Some l) CMainParams_consensus algo = Some (Inr nBits) \<and>
    100 * target nBits \<le> 84 * target (bi_nBits (h a))"
proof -
  have "walk_back h (nat (int NUM_ALGOSV2 * nAveragingInterval CMainParams_consensus)) (Some l) = Some f"
    using assms(2) by (simp add: walk_back_up NUM_ALGOSV2_def CMainParams_consensus_def Let_def)
  then show ?thesis
    using assms(1,3) retarget_V2_falls [OF _ main_timespan_V2]
    by (simp add: GetNextWorkRequiredV2_def NUM_ALGOSV2_def) (simp add: CMainParams_consensus_def Let_def)
qed

lemma line_heap_algo: "GetAlgo (line_heap p) = ALGO_SCRYPT"
  by (simp add: GetAlgo_def line_heap_def CBlockIndex_null_def version_GetAlgo_def BLOCK_VERSION_SCRYPT_def)

lemma line_heap_bits: "target (bi_nBits (line_heap p)) = 0x0ffff0 * 2 ^ 216"
  by (simp add: line_heap_def CBlockIndex_null_def target_def SetCompact_def Let_def val_shl val_base_u64)

theorem GetNextWorkRequiredV2_target_falls_witness:
  "\<exists>nBits. GetNextWorkRequiredV2 line_heap (Some 100020) CMainParams_consensus ALGO_SCRYPT = Some (Inr nBits) \<and>
     100 * target nBits \<le> 84 * (0x0ffff0 * 2 ^ 216)"
proof -
  have "GetLastBlockIndexForAlgo line_heap (Some 100020) CMainParams_consensus ALGO_SCRYPT = Some (Some 100020)"
    unfolding GetLastBlockIndexForAlgo_def
    by (subst last_block_loop.simps)
      (simp add: line_heap_algo min_difficulty_block_def CMainParams_consensus_def Let_def)
  moreover have "up line_heap 40 100020 = Some 99980" by (simp add: up_line_heap)
  ultimately show ?thesis using GetNextWorkRequiredV2_target_falls [of line_heap 100020 ALGO_SCRYPT 100020 99980]
    by (simp add: line_heap_bits)
qed

end
