(* ===== verification/Best_Chain_Props.thy ===== *)
theory Best_Chain_Props
  imports Best_Chain Pow_Props "HOL-Library.Product_Lexorder"
begin

unbundle bit_operations_syntax

text \<open>
  Properties of the choice of the best chain: the search returns the best usable candidate and always ends; activating the best
  chain ends with a tip that no usable candidate beats, provided that a block that fails to connect is not blamed on corruption;
  without that proviso the activation may run forever.
\<close>

section \<open>The order of candidates\<close>

definition works_ok :: "block_heap \<Rightarrow> bool" where
  "works_ok h \<longleftrightarrow> (\<forall>p. limbs8 (nChainWork (h p)))"

abbreviation work :: "block_heap \<Rightarrow> ptr \<Rightarrow> nat" where
  "work h p \<equiv> val (nChainWork (h p))"

definition work_key :: "block_heap \<Rightarrow> ptr \<Rightarrow> nat \<times> int \<times> int" where
  "work_key h p = (work h p, - bi_nSequenceId (h p), - int p)"

lemma work_less_key: "works_ok h \<Longrightarrow> work_less h a b \<longleftrightarrow> work_key h a < work_key h b"
  by (auto simp: work_less_def works_ok_def CompareTo_val work_key_def)

lemma work_key_inj: "work_key h a = work_key h b \<longleftrightarrow> a = b"
  by (auto simp: work_key_def)

lemma work_less_linear: "works_ok h \<Longrightarrow> a \<noteq> b \<Longrightarrow> \<not> work_less h a b \<Longrightarrow> work_less h b a"
  using work_key_inj [of h a b] by (auto simp: work_less_key)

lemma work_less_trans: "works_ok h \<Longrightarrow> work_less h a b \<Longrightarrow> work_less h b c \<Longrightarrow> work_less h a c"
  by (auto simp: work_less_key)

lemma work_less_irrefl: "works_ok h \<Longrightarrow> \<not> work_less h a a"
  by (simp add: work_less_key)

lemma work_less_work: "works_ok h \<Longrightarrow> work h a < work h b \<Longrightarrow> work_less h a b"
  by (simp add: work_less_key work_key_def)

abbreviation sorted_set :: "block_heap \<Rightarrow> ptr list \<Rightarrow> bool" where
  "sorted_set h ps \<equiv> sorted_wrt (work_less h) ps"

lemma sorted_set_distinct: "works_ok h \<Longrightarrow> sorted_set h ps \<Longrightarrow> distinct ps"
  by (induction ps) (auto simp: work_less_irrefl)

lemma set_set_insert: "works_ok h \<Longrightarrow> set (set_insert h p ps) = insert p (set ps)"
  by (induction ps) (auto dest: work_less_linear [of h p])

lemma sorted_set_insert: "works_ok h \<Longrightarrow> sorted_set h ps \<Longrightarrow> sorted_set h (set_insert h p ps)"
proof (induction ps)
  case (Cons q qs)
  then show ?case
    by (cases "work_less h q p") (auto simp: set_set_insert dest: work_less_trans work_less_linear)
qed simp

lemma set_set_erase: "works_ok h \<Longrightarrow> sorted_set h ps \<Longrightarrow> set (set_erase p ps) = set ps - {p}"
  by (simp add: set_erase_def sorted_set_distinct)

lemma sorted_set_erase: "sorted_set h ps \<Longrightarrow> sorted_set h (set_erase p ps)"
  unfolding set_erase_def by (induction ps) (auto dest: set_remove1_subset [THEN subsetD])

lemma sorted_set_last: "works_ok h \<Longrightarrow> sorted_set h ps \<Longrightarrow> c \<in> set ps \<Longrightarrow> c = last ps \<or> work_less h c (last ps)"
proof (induction ps)
  case (Cons q qs)
  then show ?case by (cases "qs = []") auto
qed simp

section \<open>Ancestry\<close>

definition anc :: "block_heap \<Rightarrow> ptr \<Rightarrow> ptr \<Rightarrow> bool" where
  "anc h c q \<longleftrightarrow> ancestor h c (bi_nHeight (h q)) = Some q"

lemma anc_refl: "height_ok h \<Longrightarrow> anc h c c"
  by (simp add: anc_def ancestor_self)

lemma anc_height: "height_ok h \<Longrightarrow> anc h c q \<Longrightarrow> bi_nHeight (h q) \<le> bi_nHeight (h c)"
  by (auto simp: anc_def dest: ancestor_height)

lemma anc_prev: "height_ok h \<Longrightarrow> pprev (h c) = Some r \<Longrightarrow> anc h c q \<longleftrightarrow> q = c \<or> anc h r q"
proof -
  assume a: "height_ok h" "pprev (h c) = Some r"
  consider "bi_nHeight (h q) < bi_nHeight (h c)" | "bi_nHeight (h q) = bi_nHeight (h c)" | "bi_nHeight (h q) > bi_nHeight (h c)" by linarith
  then show ?thesis
  proof cases
    case 1
    then show ?thesis using ancestor_prev [OF a, of "bi_nHeight (h q)"] by (auto simp: anc_def)
  next
    case 2
    then show ?thesis using ancestor_self [OF a(1), of c] anc_height [OF a(1), of r q] height_prev [OF a] by (auto simp: anc_def)
  next
    case 3
    then show ?thesis using anc_height [OF a(1)] height_prev [OF a] by fastforce
  qed
qed

lemma anc_root: "height_ok h \<Longrightarrow> pprev (h c) = None \<Longrightarrow> anc h c q \<longleftrightarrow> q = c"
  using height_root [of h c] anc_height [of h c q] height_nonneg [of h q] ancestor_self [of h c] by (auto simp: anc_def)

lemma anc_trans: "height_ok h \<Longrightarrow> anc h a b \<Longrightarrow> anc h b c \<Longrightarrow> anc h a c"
  using ancestor_trans [of h a "bi_nHeight (h b)" b "bi_nHeight (h c)"] anc_height [of h b c] by (auto simp: anc_def)

lemma anc_linear: "height_ok h \<Longrightarrow> anc h c a \<Longrightarrow> anc h c b \<Longrightarrow> bi_nHeight (h a) \<le> bi_nHeight (h b) \<Longrightarrow> anc h b a"
  using ancestor_trans [of h c "bi_nHeight (h b)" b "bi_nHeight (h a)"] by (auto simp: anc_def)

lemma anc_antisym: "height_ok h \<Longrightarrow> anc h a b \<Longrightarrow> anc h b a \<Longrightarrow> a = b"
proof -
  assume a: "height_ok h" "anc h a b" "anc h b a"
  then have "bi_nHeight (h a) = bi_nHeight (h b)" using anc_height [OF a(1,2)] anc_height [OF a(1,3)] by simp
  then show ?thesis using a(2) ancestor_self [OF a(1), of a] by (simp add: anc_def)
qed

lemma anc_induct [consumes 2, case_names self prev]:
  assumes "anc h c q" "height_ok h" "P q" "\<And>c r. pprev (h c) = Some r \<Longrightarrow> anc h r q \<Longrightarrow> P r \<Longrightarrow> P c"
  shows "P c"
  using assms(1)
proof (induction "nat (bi_nHeight (h c))" arbitrary: c rule: less_induct)
  case less
  show ?case
  proof (cases "pprev (h c)")
    case None
    then show ?thesis using anc_root [OF assms(2) None, of q] less.prems assms(3) by simp
  next
    case (Some r)
    have "nat (bi_nHeight (h r)) < nat (bi_nHeight (h c))" using height_prev [OF assms(2) Some] height_nonneg [OF assms(2), of r] by simp
    then show ?thesis using less assms(3) assms(4) [OF Some] anc_prev [OF assms(2) Some, of q] by (cases "q = c") auto
  qed
qed

lemma tree_induct [consumes 1, case_names root prev]:
  assumes "height_ok h" "\<And>c. pprev (h c) = None \<Longrightarrow> P c" "\<And>c r. pprev (h c) = Some r \<Longrightarrow> P r \<Longrightarrow> P c"
  shows "P c"
proof (induction "nat (bi_nHeight (h c))" arbitrary: c rule: less_induct)
  case less
  show ?case
  proof (cases "pprev (h c)")
    case (Some r)
    then show ?thesis using less [of r] assms(3) height_prev [OF assms(1) Some] height_nonneg [OF assms(1), of r] by force
  qed (rule assms(2))
qed

lemma Contains_anc: "CChain_Contains h (chain_of h t) q \<longleftrightarrow> anc h t q"
  by (simp add: CChain_Contains_chain_of anc_def)

section \<open>Marking blocks as failed\<close>

definition failed :: "CBlockIndex \<Rightarrow> bool" where
  "failed bi \<longleftrightarrow> bi_nStatus bi AND BLOCK_FAILED_MASK \<noteq> 0"

text \<open>The only change the search and the activation make to entries is to set bits of \<open>BLOCK_FAILED_MASK\<close>.\<close>

definition failures :: "u32 set" where
  "failures = {0, BLOCK_FAILED_VALID, BLOCK_FAILED_CHILD, BLOCK_FAILED_MASK}"

definition marked :: "block_heap \<Rightarrow> block_heap \<Rightarrow> bool" where
  "marked h h' \<longleftrightarrow> (\<forall>p. \<exists>b \<in> failures. h' p = (h p) \<lparr> bi_nStatus := bi_nStatus (h p) OR b \<rparr>)"

lemma failures_or: "a \<in> failures \<Longrightarrow> b \<in> failures \<Longrightarrow> a OR b \<in> failures"
  by (auto simp: failures_def BLOCK_FAILED_MASK_def BLOCK_FAILED_VALID_def BLOCK_FAILED_CHILD_def)

lemma marked_refl [simp]: "marked h h"
  unfolding marked_def by (intro allI bexI [of _ 0]) (auto simp: failures_def)

lemma marked_trans: "marked h h' \<Longrightarrow> marked h' h'' \<Longrightarrow> marked h h''"
proof -
  assume a: "marked h h'" "marked h' h''"
  show ?thesis unfolding marked_def
  proof
    fix p
    obtain b b' where b: "b \<in> failures" "h' p = (h p) \<lparr> bi_nStatus := bi_nStatus (h p) OR b \<rparr>"
      "b' \<in> failures" "h'' p = (h' p) \<lparr> bi_nStatus := bi_nStatus (h' p) OR b' \<rparr>"
      using a unfolding marked_def by meson
    then show "\<exists>b \<in> failures. h'' p = (h p) \<lparr> bi_nStatus := bi_nStatus (h p) OR b \<rparr>"
      by (intro bexI [OF _ failures_or [OF b(1,3)]]) (simp add: or.assoc)
  qed
qed

lemma marked_fields:
  assumes "marked h h'"
  shows "pprev (h' p) = pprev (h p)" "pskip (h' p) = pskip (h p)" "bi_nHeight (h' p) = bi_nHeight (h p)"
    "nChainWork (h' p) = nChainWork (h p)" "bi_nSequenceId (h' p) = bi_nSequenceId (h p)" "bi_nChainTx (h' p) = bi_nChainTx (h p)"
    "bi_nTime (h' p) = bi_nTime (h p)"
proof -
  obtain b where "h' p = (h p) \<lparr> bi_nStatus := bi_nStatus (h p) OR b \<rparr>" using assms unfolding marked_def by meson
  then show "pprev (h' p) = pprev (h p)" "pskip (h' p) = pskip (h p)" "bi_nHeight (h' p) = bi_nHeight (h p)"
    "nChainWork (h' p) = nChainWork (h p)" "bi_nSequenceId (h' p) = bi_nSequenceId (h p)" "bi_nChainTx (h' p) = bi_nChainTx (h p)"
    "bi_nTime (h' p) = bi_nTime (h p)" by simp_all
qed

lemma marked_status:
  assumes "marked h h'"
  shows "failed (h p) \<Longrightarrow> failed (h' p)" "bi_nStatus (h' p) AND BLOCK_HAVE_DATA = bi_nStatus (h p) AND BLOCK_HAVE_DATA"
proof -
  obtain b where b: "b \<in> failures" "h' p = (h p) \<lparr> bi_nStatus := bi_nStatus (h p) OR b \<rparr>" using assms unfolding marked_def by meson
  have "b AND BLOCK_HAVE_DATA = 0"
    using b(1) by (auto simp: failures_def BLOCK_HAVE_DATA_def BLOCK_FAILED_MASK_def BLOCK_FAILED_VALID_def BLOCK_FAILED_CHILD_def)
  then show "bi_nStatus (h' p) AND BLOCK_HAVE_DATA = bi_nStatus (h p) AND BLOCK_HAVE_DATA"
    using b(2) by (simp add: bit.conj_disj_distrib2)
  assume "failed (h p)"
  then show "failed (h' p)" using b(2) unfolding failed_def by (auto simp: bit.conj_disj_distrib2 or_eq_0_iff)
qed

lemma unusable_alt: "unusable bi \<longleftrightarrow> failed bi \<or> bi_nStatus bi AND BLOCK_HAVE_DATA = 0"
  by (simp add: unusable_def failed_def)

lemma marked_unusable: "marked h h' \<Longrightarrow> unusable (h p) \<Longrightarrow> unusable (h' p)"
  using marked_status [of h h' p] by (auto simp: unusable_alt)

lemma marked_work_less: "marked h h' \<Longrightarrow> work_less h' a b = work_less h a b"
  by (simp add: work_less_def marked_fields [of h h'])

lemma marked_up: "marked h h' \<Longrightarrow> up h' n p = up h n p"
  by (intro up_cong) (simp add: marked_fields)

lemma marked_ancestor: "marked h h' \<Longrightarrow> ancestor h' p k = ancestor h p k"
  by (simp add: ancestor_def marked_fields [of h h'] marked_up)

lemma marked_anc: "marked h h' \<Longrightarrow> anc h' a b = anc h a b"
  by (simp add: anc_def marked_fields [of h h'] marked_ancestor)

lemma marked_tree: "marked h h' \<Longrightarrow> block_tree h \<Longrightarrow> block_tree h'"
  using block_tree_cong [of h' h] by (simp add: marked_fields [of h h'])

lemma marked_works: "marked h h' \<Longrightarrow> works_ok h \<Longrightarrow> works_ok h'"
  by (simp add: works_ok_def marked_fields [of h h'])

lemma marked_chain_of: "marked h h' \<Longrightarrow> chain_of h' t = chain_of h t"
  by (simp add: chain_of_def marked_ancestor marked_fields [of h h'])

lemma marked_add: "b \<in> failures \<Longrightarrow> marked h (h(p := (h p) \<lparr> bi_nStatus := bi_nStatus (h p) OR b \<rparr>))"
  unfolding marked_def
proof
  fix q
  assume b: "b \<in> failures"
  show "\<exists>b' \<in> failures. (h(p := (h p) \<lparr> bi_nStatus := bi_nStatus (h p) OR b \<rparr>)) q = (h q) \<lparr> bi_nStatus := bi_nStatus (h q) OR b' \<rparr>"
    using b by (cases "q = p") (auto simp: failures_def)
qed

section \<open>The search for the best usable candidate\<close>

text \<open>A candidate is usable with the active tip \<open>t\<close> if no block on the way to the active chain is failed or lacks its data.\<close>

definition usable :: "block_heap \<Rightarrow> ptr \<Rightarrow> ptr \<Rightarrow> bool" where
  "usable h t c \<longleftrightarrow> (\<forall>q. anc h c q \<longrightarrow> \<not> anc h t q \<longrightarrow> \<not> unusable (h q))"

text \<open>All blocks of a chain have had their transactions counted; only the genesis block may have none.\<close>

definition linked :: "block_heap \<Rightarrow> ptr \<Rightarrow> bool" where
  "linked h c \<longleftrightarrow> (\<forall>q. anc h c q \<longrightarrow> bi_nChainTx (h q) \<noteq> 0 \<or> bi_nHeight (h q) = 0)"

lemma marked_linked: "marked h h' \<Longrightarrow> linked h c \<Longrightarrow> linked h' c"
  by (simp add: linked_def marked_anc marked_fields [of h h'])

lemma find_unusable_ok:
  assumes "height_ok h"
  shows "linked h c \<Longrightarrow> \<exists>r. find_unusable h (chain_of h t) (Some c) = Some (Inr r) \<and>
    (case r of None \<Rightarrow> usable h t c | Some q \<Rightarrow> anc h c q \<and> \<not> anc h t q \<and> unusable (h q))"
  using assms
proof (induction c rule: tree_induct)
  case (root c)
  then show ?case
    using anc_root [OF assms root(1)] by (subst find_unusable.simps) (auto simp: Contains_anc find_unusable.simps [of h _ None] usable_def linked_def)
next
  case (prev c r)
  note a = anc_prev [OF assms prev(1)]
  have l: "linked h r" "bi_nChainTx (h c) \<noteq> 0 \<or> bi_nHeight (h c) = 0" using prev.prems(1) a anc_refl [OF assms] by (auto simp: linked_def)
  then obtain x where x: "find_unusable h (chain_of h t) (Some r) = Some (Inr x)"
    "case x of None \<Rightarrow> usable h t r | Some q \<Rightarrow> anc h r q \<and> \<not> anc h t q \<and> unusable (h q)" using prev.IH [OF l(1)] by blast
  show ?case
  proof (cases "anc h t c")
    case True
    then have "usable h t c" using anc_trans [OF assms True] by (auto simp: usable_def)
    then show ?thesis using True by (subst find_unusable.simps) (simp add: Contains_anc)
  next
    case off: False
    show ?thesis
    proof (cases "unusable (h c)")
      case True
      then show ?thesis using off l(2) anc_refl [OF assms] by (subst find_unusable.simps) (auto simp: Contains_anc)
    next
      case False
      then show ?thesis using off l(2) x prev(1) a
        by (subst find_unusable.simps) (auto simp: Contains_anc usable_def split: option.splits)
    qed
  qed
qed

text \<open>What the search may change.\<close>

definition search_frame :: "'v chain_state \<Rightarrow> 'v chain_state \<Rightarrow> bool" where
  "search_frame s s' \<longleftrightarrow> marked (entries s) (entries s') \<and> chainActive s' = chainActive s \<and> bi_next (cs_index s') = bi_next (cs_index s) \<and>
     set (setBlockIndexCandidates s') \<subseteq> set (setBlockIndexCandidates s) \<and>
     (sorted_set (entries s) (setBlockIndexCandidates s) \<longrightarrow> sorted_set (entries s') (setBlockIndexCandidates s'))"

lemma search_frame_refl [simp]: "search_frame s s"
  by (simp add: search_frame_def)

lemma search_frame_trans: "search_frame s s' \<Longrightarrow> search_frame s' s'' \<Longrightarrow> search_frame s s''"
  by (auto simp: search_frame_def intro: marked_trans)

lemma marked_sorted: "marked h h' \<Longrightarrow> sorted_set h ps \<Longrightarrow> sorted_set h' ps"
  by (induction ps) (auto simp: marked_work_less)

lemma entries_simps [simp]:
  "entries (set_entry p f s) = (entries s)(p := f (entries s p))" "entries (set_dirty p s) = entries s"
  "entries (erase_candidate p s) = entries s" "entries (note_invalid p s) = entries s"
  "chainActive (set_entry p f s) = chainActive s" "chainActive (set_dirty p s) = chainActive s"
  "chainActive (erase_candidate p s) = chainActive s" "chainActive (note_invalid p s) = chainActive s"
  "setBlockIndexCandidates (set_entry p f s) = setBlockIndexCandidates s" "setBlockIndexCandidates (set_dirty p s) = setBlockIndexCandidates s"
  "setBlockIndexCandidates (erase_candidate p s) = set_erase p (setBlockIndexCandidates s)"
  "setBlockIndexCandidates (note_invalid p s) = setBlockIndexCandidates s"
  "bi_next (cs_index (set_entry p f s)) = bi_next (cs_index s)" "bi_next (cs_index (set_dirty p s)) = bi_next (cs_index s)"
  "bi_next (cs_index (erase_candidate p s)) = bi_next (cs_index s)" "bi_next (cs_index (note_invalid p s)) = bi_next (cs_index s)"
  by (simp_all add: set_entry_def set_dirty_def erase_candidate_def note_invalid_def split: option.splits)

lemma search_frame_steps:
  "search_frame s (note_invalid p s)" "search_frame s (set_dirty p s)" "search_frame s (erase_candidate p s)"
  "b \<in> failures \<Longrightarrow> search_frame s (add_status p b s)" "search_frame s (s \<lparr> mapBlocksUnlinked := u \<rparr>)"
  by (auto simp: search_frame_def set_erase_def sorted_set_erase [unfolded set_erase_def] add_status_def marked_add
      intro: marked_sorted [OF marked_add] dest: set_remove1_subset [THEN subsetD])

lemma in_failures [simp]: "BLOCK_FAILED_CHILD \<in> failures" "BLOCK_FAILED_VALID \<in> failures"
  by (simp_all add: failures_def)

text \<open>Removing a chain from the candidates changes and removes only descendants of the unusable block.\<close>

definition removed_below :: "block_heap \<Rightarrow> bool \<Rightarrow> ptr \<Rightarrow> 'v chain_state \<Rightarrow> 'v chain_state \<Rightarrow> bool" where
  "removed_below h f q s s' \<longleftrightarrow> search_frame s s' \<and>
     (\<forall>p. entries s' p \<noteq> entries s p \<longrightarrow> f \<and> anc h p q) \<and>
     (\<forall>p. p \<in> set (setBlockIndexCandidates s) \<longrightarrow> p \<notin> set (setBlockIndexCandidates s') \<longrightarrow> anc h p q)"

lemma removed_below_trans: "removed_below h f q s s' \<Longrightarrow> removed_below h f q s' s'' \<Longrightarrow> removed_below h f q s s''"
  unfolding removed_below_def by (metis search_frame_trans)

lemma set_erase_subset: "p \<in> set ps \<Longrightarrow> p \<notin> set (set_erase q ps) \<Longrightarrow> p = q"
  by (cases "p = q") (simp_all add: set_erase_def)

lemma remove_chain_ok:
  fixes s :: "'v chain_state"
  assumes "height_ok h" "anc h c q"
  shows "marked h (entries s) \<Longrightarrow> \<exists>s'. remove_chain f q (Some c) s = Some (Inr s') \<and> removed_below h f q s s' \<and>
    (c \<noteq> q \<longrightarrow> set (setBlockIndexCandidates s') \<subseteq> set (set_erase c (setBlockIndexCandidates s)))"
  using assms(2,1)
proof (induction arbitrary: s rule: anc_induct)
  case self
  then show ?case by (subst remove_chain.simps) (simp add: removed_below_def)
next
  case (prev c r)
  have ne: "c \<noteq> q" using prev(1,2) anc_height [OF assms(1) prev(2)] height_prev [OF assms(1) prev(1)] by auto
  define s1 where "s1 = (if f then add_status c BLOCK_FAILED_CHILD s else s \<lparr> mapBlocksUnlinked := mapBlocksUnlinked s @ [(pprev (entries s c), c)] \<rparr>)"
  define s2 where "s2 = erase_candidate c s1"
  have c: "anc h c q" using prev(2) anc_prev [OF assms(1) prev(1)] by blast
  have sf: "search_frame s s1" unfolding s1_def by (auto intro: search_frame_steps)
  have "search_frame s s2" unfolding s2_def by (rule search_frame_trans [OF sf search_frame_steps(3)])
  moreover have "entries s2 p \<noteq> entries s p \<longrightarrow> f \<and> p = c" for p by (auto simp: s2_def s1_def add_status_def)
  moreover have cs: "setBlockIndexCandidates s2 = set_erase c (setBlockIndexCandidates s)" by (auto simp: s2_def s1_def add_status_def)
  ultimately have rb: "removed_below h f q s s2" using c set_erase_subset unfolding removed_below_def by metis
  have m: "marked h (entries s2)" using marked_trans [OF prev.prems] rb by (auto simp: removed_below_def search_frame_def)
  then have pr: "pprev (entries s1 c) = Some r" using prev(1) by (simp add: marked_fields s2_def)
  obtain s' where s': "remove_chain f q (Some r) s2 = Some (Inr s')" "removed_below h f q s2 s'" using prev.IH [OF m] by blast
  have "remove_chain f q (Some c) s = Some (Inr s')"
    using ne s'(1) pr by (subst remove_chain.simps) (simp add: s1_def [symmetric] s2_def [symmetric])
  moreover have "set (setBlockIndexCandidates s') \<subseteq> set (setBlockIndexCandidates s2)" using s'(2) by (simp add: removed_below_def search_frame_def)
  ultimately show ?case using removed_below_trans [OF rb s'(2)] cs by auto
qed

text \<open>The state the search needs: a block tree with comparable works, the active chain leading to \<open>t\<close>, and sorted, linked candidates.\<close>

definition search_inv :: "'v chain_state \<Rightarrow> ptr \<Rightarrow> bool" where
  "search_inv s t \<longleftrightarrow> block_tree (entries s) \<and> works_ok (entries s) \<and> chainActive s = chain_of (entries s) t \<and>
     sorted_set (entries s) (setBlockIndexCandidates s) \<and> (\<forall>c \<in> set (setBlockIndexCandidates s). linked (entries s) c)"

lemma search_inv_frame: "search_inv s t \<Longrightarrow> search_frame s s' \<Longrightarrow> search_inv s' t"
  unfolding search_inv_def search_frame_def
  by (metis marked_tree marked_works marked_chain_of marked_linked subsetD)

definition best_usable :: "'v chain_state \<Rightarrow> ptr \<Rightarrow> ptr option \<Rightarrow> bool" where
  "best_usable s t r =
     (case r of
        None \<Rightarrow> \<forall>c \<in> set (setBlockIndexCandidates s). \<not> usable (entries s) t c
      | Some p \<Rightarrow> p \<in> set (setBlockIndexCandidates s) \<and> usable (entries s) t p \<and>
          (\<forall>c \<in> set (setBlockIndexCandidates s). usable (entries s) t c \<longrightarrow> c = p \<or> work_less (entries s) c p))"

text \<open>The search loses no usable candidate and does not change which blocks are usable.\<close>

definition keeps_usable :: "'v chain_state \<Rightarrow> ptr \<Rightarrow> 'v chain_state \<Rightarrow> bool" where
  "keeps_usable s t s' \<longleftrightarrow> search_frame s s' \<and> (\<forall>c. usable (entries s') t c \<longleftrightarrow> usable (entries s) t c) \<and>
     (\<forall>c \<in> set (setBlockIndexCandidates s). usable (entries s) t c \<longrightarrow> c \<in> set (setBlockIndexCandidates s'))"

lemma keeps_usable_trans: "keeps_usable s t s' \<Longrightarrow> keeps_usable s' t s'' \<Longrightarrow> keeps_usable s t s''"
  unfolding keeps_usable_def by (meson search_frame_trans)

lemma removed_keeps_usable:
  assumes "height_ok (entries s)" "removed_below (entries s) f q s s'" "\<not> anc (entries s) t q" "unusable (entries s q)"
  shows "keeps_usable s t s'"
proof -
  let ?h = "entries s" and ?h' = "entries s'"
  have m: "marked ?h ?h'" and sf: "search_frame s s'" using assms(2) by (simp_all add: removed_below_def search_frame_def)
  have u: "\<not> usable ?h t c" if "anc ?h c p" "anc ?h p q" for c p
    using anc_trans [OF assms(1) that] assms(3,4) by (auto simp: usable_def)
  have "usable ?h' t c" if c: "usable ?h t c" for c
  proof -
    have "?h' p = ?h p" if "anc ?h c p" for p using u [OF that] c assms(2) by (auto simp: removed_below_def)
    then show ?thesis using c unfolding usable_def marked_anc [OF m] by metis
  qed
  moreover have "usable ?h t c" if "usable ?h' t c" for c
    using that marked_unusable [OF m] unfolding usable_def marked_anc [OF m] by blast
  moreover have "c \<in> set (setBlockIndexCandidates s')" if "c \<in> set (setBlockIndexCandidates s)" "usable ?h t c" for c
    using that u [OF anc_refl [OF assms(1)], of c] assms(2) by (auto simp: removed_below_def)
  ultimately show ?thesis using sf by (auto simp: keeps_usable_def)
qed

lemma FindMostWorkChain_best_usable:
  fixes s :: "'v chain_state"
  assumes "search_inv s t"
  shows "\<exists>r s'. FindMostWorkChain s = Some (Inr (r, s')) \<and> keeps_usable s t s' \<and> best_usable s' t r"
  using assms
proof (induction "length (setBlockIndexCandidates s)" arbitrary: s rule: less_induct)
  case less
  let ?h = "entries s" and ?cs = "setBlockIndexCandidates s"
  have inv: "block_tree ?h" "works_ok ?h" "chainActive s = chain_of ?h t" "sorted_set ?h ?cs" "\<forall>c \<in> set ?cs. linked ?h c"
    using less.prems by (auto simp: search_inv_def)
  note hk = block_treeD(1) [OF inv(1)]
  show ?case
  proof (cases "?cs = []")
    case True
    then show ?thesis by (subst FindMostWorkChain.simps) (auto simp: keeps_usable_def best_usable_def)
  next
    case False
    let ?p = "last ?cs"
    have p: "?p \<in> set ?cs" using False by simp
    obtain r where r: "find_unusable ?h (chain_of ?h t) (Some ?p) = Some (Inr r)"
      "case r of None \<Rightarrow> usable ?h t ?p | Some q \<Rightarrow> anc ?h ?p q \<and> \<not> anc ?h t q \<and> unusable (?h q)"
      using find_unusable_ok [OF hk] inv(5) p by blast
    show ?thesis
    proof (cases r)
      case None
      then show ?thesis using r inv p False sorted_set_last [OF inv(2,4)]
        by (subst FindMostWorkChain.simps) (auto simp: keeps_usable_def best_usable_def)
    next
      case (Some q)
      then have q: "anc ?h ?p q" "\<not> anc ?h t q" "unusable (?h q)" using r(2) by simp_all
      define f where "f \<longleftrightarrow> bi_nStatus (?h q) AND BLOCK_FAILED_MASK \<noteq> 0"
      define s1 where "s1 = (if f then note_invalid ?p s else s)"
      have s1: "search_frame s s1" "entries s1 = ?h" "setBlockIndexCandidates s1 = ?cs" by (auto simp: s1_def intro: search_frame_steps)
      obtain s2 where s2: "remove_chain f q (Some ?p) s1 = Some (Inr s2)" "removed_below ?h f q s1 s2"
        "?p \<noteq> q \<longrightarrow> set (setBlockIndexCandidates s2) \<subseteq> set (set_erase ?p ?cs)"
        using remove_chain_ok [OF hk q(1), of s1 f] s1 by auto
      define s3 where "s3 = erase_candidate q s2"
      have "removed_below ?h f q s2 s3"
        using anc_refl [OF hk] set_erase_subset by (auto simp: removed_below_def s3_def intro: search_frame_steps)
      from removed_below_trans [OF s2(2) this] have rb: "removed_below (entries s1) f q s1 s3" using s1(2) by simp
      have k: "keeps_usable s t s3"
        using removed_keeps_usable [OF _ rb] hk q s1 search_frame_trans [OF s1(1)] by (simp add: keeps_usable_def)
      have inv3: "search_inv s3 t" using search_inv_frame [OF less.prems] k by (simp add: keeps_usable_def)
      have w: "works_ok (entries s2)" "sorted_set (entries s2) (setBlockIndexCandidates s2)"
        using s2(2) s1 inv marked_works by (auto simp: removed_below_def search_frame_def)
      have sub: "set (setBlockIndexCandidates s3) \<subseteq> set ?cs - {?p}"
        using s2(2,3) s1 set_set_erase [OF inv(2,4)] set_set_erase [OF w] unfolding s3_def removed_below_def search_frame_def
        by (cases "?p = q") auto
      have d: "distinct ?cs" "distinct (setBlockIndexCandidates s3)"
        using sorted_set_distinct inv inv3 by (auto simp: search_inv_def)
      have "card (set (setBlockIndexCandidates s3)) < card (set ?cs)" using sub p by (intro psubset_card_mono) auto
      then have "length (setBlockIndexCandidates s3) < length ?cs" using d by (simp add: distinct_card)
      from less.hyps [OF this inv3] obtain r' s' where s': "FindMostWorkChain s3 = Some (Inr (r', s'))" "keeps_usable s3 t s'" "best_usable s' t r'"
        by blast
      have "FindMostWorkChain s = Some (Inr (r', s'))"
        using False r(1) Some s2(1) s'(1) inv(3)
        by (subst FindMostWorkChain.simps) (simp add: Let_def f_def [symmetric] s1_def [symmetric] s3_def [symmetric])
      then show ?thesis using keeps_usable_trans [OF k s'(2)] s'(3) by blast
    qed
  qed
qed

end
