(* ===== verification/Activation.thy ===== *)
theory Activation
  imports Best_Chain_Props
begin

unbundle bit_operations_syntax

text \<open>
  Activating the best chain (\<^verbatim>\<open>validation.cpp\<close>). Every step keeps the invariant, and either marks a block as failed that was not, or
  moves the tip to more work, or reaches the chosen candidate; so the loop ends, and no usable candidate beats the tip.
\<close>

section \<open>The invariant\<close>

definition activation_inv :: "'v chain_state \<Rightarrow> ptr \<Rightarrow> bool" where
  "activation_inv s t \<longleftrightarrow> search_inv s t \<and> linked (entries s) t \<and>
     (\<forall>p q. pprev (entries s p) = Some q \<longrightarrow> work (entries s) q < work (entries s) p \<and> q < bi_next (cs_index s)) \<and>
     (\<forall>c \<in> set (setBlockIndexCandidates s). ancestor (entries s) c 0 = ancestor (entries s) t 0 \<and> c < bi_next (cs_index s)) \<and>
     t < bi_next (cs_index s)"

lemma activation_invD:
  assumes "activation_inv s t"
  shows "search_inv s t" "block_tree (entries s)" "height_ok (entries s)" "works_ok (entries s)" "chainActive s = chain_of (entries s) t"
    "sorted_set (entries s) (setBlockIndexCandidates s)" "linked (entries s) t" "Tip s = Some t"
    "c \<in> set (setBlockIndexCandidates s) \<Longrightarrow> linked (entries s) c"
    "c \<in> set (setBlockIndexCandidates s) \<Longrightarrow> ancestor (entries s) c 0 = ancestor (entries s) t 0"
    "pprev (entries s p) = Some q \<Longrightarrow> work (entries s) q < work (entries s) p"
proof -
  show tree: "block_tree (entries s)" and hk: "height_ok (entries s)" and ch: "chainActive s = chain_of (entries s) t"
    using assms block_treeD by (auto simp: activation_inv_def search_inv_def)
  show "Tip s = Some t" using CChain_Tip_chain_of [OF hk] ch by simp
qed (use assms in \<open>auto simp: activation_inv_def search_inv_def\<close>)

lemma anc_work:
  assumes "activation_inv s t" "anc (entries s) a b"
  shows "a = b \<or> work (entries s) b < work (entries s) a"
  using assms(2) activation_invD(3) [OF assms(1)]
  by (induction rule: anc_induct) (use activation_invD(11) [OF assms(1)] in \<open>auto intro: less_trans\<close>)

lemma anc_bound:
  assumes "activation_inv s t" "anc (entries s) a b" "a < bi_next (cs_index s)"
  shows "b < bi_next (cs_index s)"
  using assms(3)
  by (rule rev_mp, use assms(2) activation_invD(3) [OF assms(1)] in \<open>induction rule: anc_induct\<close>)
    (use assms(1) in \<open>auto simp: activation_inv_def\<close>)

lemma anc_ancestor: "height_ok h \<Longrightarrow> anc h a b \<Longrightarrow> ancestor h b 0 = ancestor h a 0"
  using ancestor_trans [of h a "bi_nHeight (h b)" b 0] height_nonneg [of h b] by (simp add: anc_def)

lemma anc_linked: "height_ok h \<Longrightarrow> anc h a b \<Longrightarrow> linked h a \<Longrightarrow> linked h b"
  by (auto simp: linked_def dest: anc_trans)

text \<open>What the activation may change apart from the active chain.\<close>

definition act_frame :: "'v chain_state \<Rightarrow> 'v chain_state \<Rightarrow> bool" where
  "act_frame s s' \<longleftrightarrow> marked (entries s) (entries s') \<and> bi_next (cs_index s') = bi_next (cs_index s) \<and>
     set (setBlockIndexCandidates s') \<subseteq> set (setBlockIndexCandidates s) \<and>
     (sorted_set (entries s) (setBlockIndexCandidates s) \<longrightarrow> sorted_set (entries s') (setBlockIndexCandidates s'))"

lemma act_frame_refl [simp]: "act_frame s s"
  by (simp add: act_frame_def)

lemma act_frame_trans: "act_frame s s' \<Longrightarrow> act_frame s' s'' \<Longrightarrow> act_frame s s''"
  by (auto simp: act_frame_def intro: marked_trans)

lemma search_act_frame: "search_frame s s' \<longleftrightarrow> act_frame s s' \<and> chainActive s' = chainActive s"
  by (auto simp: search_frame_def act_frame_def)

lemma activation_inv_move:
  assumes inv: "activation_inv s t" and fr: "act_frame s s'" and ch: "chainActive s' = chain_of (entries s) t'"
    and t': "anc (entries s) t t' \<or> (\<exists>c \<in> set (setBlockIndexCandidates s). anc (entries s) c t')"
  shows "activation_inv s' t'"
proof -
  let ?h = "entries s" and ?h' = "entries s'"
  note I = activation_invD [OF inv]
  have m: "marked ?h ?h'" and n: "bi_next (cs_index s') = bi_next (cs_index s)"
    and cs: "set (setBlockIndexCandidates s') \<subseteq> set (setBlockIndexCandidates s)"
    and srt: "sorted_set ?h' (setBlockIndexCandidates s')" using fr I(6) by (auto simp: act_frame_def)
  have root: "ancestor ?h t' 0 = ancestor ?h t 0" using t' anc_ancestor [OF I(3)] I(10) by metis
  have lk: "linked ?h t'" using t' anc_linked [OF I(3)] I(7,9) by blast
  have bd: "t' < bi_next (cs_index s)" using t' anc_bound [OF inv] inv by (auto simp: activation_inv_def)
  have "search_inv s' t'"
    using I cs srt marked_tree [OF m] marked_works [OF m] marked_chain_of [OF m] marked_linked [OF m] ch by (auto simp: search_inv_def)
  then show ?thesis
    using inv cs root lk bd marked_linked [OF m] n unfolding activation_inv_def
    by (auto simp: marked_ancestor [OF m] marked_fields [OF m])
qed

section \<open>Disconnecting and connecting blocks\<close>

lemma UpdateTip_ok:
  assumes "height_ok (entries s)" "chainActive s = chain_of (entries s) t"
  shows "UpdateTip (Some p) s = Some (Inr (s \<lparr> chainActive := chain_of (entries s) p \<rparr>))"
proof -
  have "chain_inv (entries s) (chainActive s)" using assms(2) by (auto simp: chain_inv_def)
  from SetTip_chain_of [OF assms(1) this] show ?thesis using CChain_Tip_chain_of [OF assms(1)] by (simp add: UpdateTip_def)
qed

lemma disconnect_loop_ok:
  fixes s :: "'v chain_state"
  assumes "height_ok h" "anc h t f"
  shows "entries s = h \<Longrightarrow> chainActive s = chain_of h t \<Longrightarrow> \<exists>ok b' st s' t'.
    disconnect_loop ops (Some f) b state s = Some (Inr (ok, b', st, s')) \<and> entries s' = h \<and> chainActive s' = chain_of h t' \<and>
    act_frame s s' \<and> setBlockIndexCandidates s' = setBlockIndexCandidates s \<and> anc h t t' \<and> anc h t' f \<and> (ok \<longrightarrow> t' = f)"
  using assms(2,1)
proof (induction arbitrary: s b state rule: anc_induct)
  case self
  then show ?case using CChain_Tip_chain_of [OF assms(1), of f] anc_refl [OF assms(1)] by (subst disconnect_loop.simps) auto
next
  case (prev t r)
  have ne: "t \<noteq> f" using prev(2) anc_height [OF assms(1) prev(2)] height_prev [OF assms(1) prev(1)] by auto
  have tf: "anc h t f" "anc h t r" using prev(1,2) anc_prev [OF assms(1) prev(1)] anc_refl [OF assms(1)] by auto
  have tip: "Tip s = Some t" using prev.prems CChain_Tip_chain_of [OF assms(1)] by simp
  obtain ok st v where d: "disconnect_block ops t state (node_rest s) = (ok, st, v)" by (cases "disconnect_block ops t state (node_rest s)")
  show ?case
  proof (cases ok)
    case False
    then show ?thesis using d tip ne prev.prems tf(1) anc_refl [OF assms(1)]
      by (subst disconnect_loop.simps) (auto simp: DisconnectTip_def act_frame_def)
  next
    case True
    define s1 where "s1 = s \<lparr> node_rest := v, chainActive := chain_of h r \<rparr>"
    have dt: "DisconnectTip ops state s = Some (Inr (True, st, s1))"
      using True d tip prev(1) prev.prems UpdateTip_ok [of "s \<lparr> node_rest := v \<rparr>" t r] assms(1) by (simp add: DisconnectTip_def s1_def)
    obtain ok' b' st' s' t' where IH: "disconnect_loop ops (Some f) True st s1 = Some (Inr (ok', b', st', s'))" "entries s' = h"
      "chainActive s' = chain_of h t'" "act_frame s1 s'" "setBlockIndexCandidates s' = setBlockIndexCandidates s1" "anc h r t'" "anc h t' f" "ok' \<longrightarrow> t' = f"
      using prev.IH [of s1 True st] prev.prems by (auto simp: s1_def)
    have "act_frame s s1" by (simp add: act_frame_def s1_def)
    then show ?thesis
      using IH tip ne dt tf anc_trans [OF assms(1) tf(2) IH(6)] act_frame_trans
      by (subst disconnect_loop.simps) (auto simp: s1_def)
  qed
qed

fun links_up :: "block_heap \<Rightarrow> ptr \<Rightarrow> ptr list \<Rightarrow> bool" where
  "links_up h t [] = True"
| "links_up h t (x # xs) \<longleftrightarrow> pprev (h x) = Some t \<and> links_up h x xs"

lemma links_up_append: "links_up h t (xs @ [a]) \<longleftrightarrow> links_up h t xs \<and> pprev (h a) = Some (last (t # xs))"
  by (induction xs arbitrary: t) auto

lemma blocks_to_connect_ok:
  assumes "height_ok h" "anc h a t"
  shows "\<exists>xs. blocks_to_connect h (bi_nHeight (h t)) (Some a) acc = Some (acc @ rev xs) \<and> links_up h t xs \<and> last (t # xs) = a \<and>
    (\<forall>x \<in> set xs. anc h a x \<and> bi_nHeight (h t) < bi_nHeight (h x))"
  using assms(2,1)
proof (induction arbitrary: acc rule: anc_induct)
  case self
  then show ?case by (subst blocks_to_connect.simps) (auto intro: exI [of _ "[]"])
next
  case (prev a r)
  obtain xs where xs: "blocks_to_connect h (bi_nHeight (h t)) (Some r) (acc @ [a]) = Some ((acc @ [a]) @ rev xs)" "links_up h t xs"
    "last (t # xs) = r" "\<forall>x \<in> set xs. anc h r x \<and> bi_nHeight (h t) < bi_nHeight (h x)" using prev.IH by blast
  have "bi_nHeight (h t) < bi_nHeight (h a)" using anc_height [OF assms(1) prev(2)] height_prev [OF assms(1) prev(1)] by simp
  then show ?case
    using xs prev(1) anc_prev [OF assms(1) prev(1)]
    by (intro exI [of _ "xs @ [a]"]) (subst blocks_to_connect.simps, auto simp: links_up_append)
qed

lemma in_set_dropWhile: "x \<in> set xs \<Longrightarrow> \<not> P x \<Longrightarrow> x \<in> set (dropWhile P xs)"
  by (induction xs) auto

lemma Prune_ok:
  assumes inv: "activation_inv s t" and p: "p \<in> set (setBlockIndexCandidates s)" "anc (entries s) p t"
  shows "\<exists>s'. PruneBlockIndexCandidates s = Inr s' \<and> act_frame s s' \<and> entries s' = entries s \<and> chainActive s' = chainActive s \<and>
    p \<in> set (setBlockIndexCandidates s')"
proof -
  let ?P = "\<lambda>c. work_less (entries s) c t"
  note I = activation_invD [OF inv]
  have np: "\<not> ?P p" using anc_work [OF inv p(2)] work_less_work [OF I(4)] work_less_trans [OF I(4)] work_less_irrefl [OF I(4)] by metis
  then have "p \<in> set (dropWhile ?P (setBlockIndexCandidates s))" by (rule in_set_dropWhile [OF p(1)])
  moreover have "sorted_set (entries s) (dropWhile ?P (setBlockIndexCandidates s))"
    using I(6) by (metis sorted_wrt_append takeWhile_dropWhile_id)
  ultimately show ?thesis using I(8) np p(1) by (auto simp: PruneBlockIndexCandidates_def Let_def act_frame_def dest: set_dropWhileD)
qed

text \<open>A block that fails to connect is not blamed on corruption.\<close>

definition no_corruption :: "'v tip_ops \<Rightarrow> bool" where
  "no_corruption ops \<longleftrightarrow> (\<forall>p state v state' v'. connect_block ops p state v = (False, state', v') \<longrightarrow> vs_mode state' = MODE_INVALID \<longrightarrow> \<not> corruptionPossible state')"

text \<open>The outcome of connecting blocks towards \<open>p\<close> from the tip \<open>t\<close>, when the old tip was \<open>old\<close>.\<close>

definition progress :: "'v chain_state \<Rightarrow> ptr \<Rightarrow> ptr \<Rightarrow> ptr \<Rightarrow> step_outcome \<Rightarrow> ptr \<Rightarrow> 'v chain_state \<Rightarrow> bool" where
  "progress s old p f outcome t' s' \<longleftrightarrow> activation_inv s' t' \<and> act_frame s s' \<and> anc (entries s) p t' \<and> anc (entries s) t' f \<and>
     (case outcome of
        Continue \<Rightarrow> entries s' = entries s \<and> p \<in> set (setBlockIndexCandidates s')
      | Better \<Rightarrow> entries s' = entries s \<and> p \<in> set (setBlockIndexCandidates s') \<and> work (entries s) old < work (entries s) t'
      | InvalidFound \<Rightarrow> \<exists>x. anc (entries s) p x \<and> bi_nHeight (entries s f) < bi_nHeight (entries s x) \<and> failed (entries s' x)
      | SystemError \<Rightarrow> True)"

lemma progress_trans:
  assumes "progress s old p f Continue t1 s1" "progress s1 old p t1 outcome t' s'"
  shows "progress s old p f outcome t' s'"
proof -
  have e: "entries s1 = entries s" and t1: "anc (entries s) t1 f" and fr: "act_frame s s1" using assms(1) by (simp_all add: progress_def)
  have hk: "height_ok (entries s)" using assms(1) activation_invD(3) [of s1 t1] e by (simp add: progress_def)
  have "bi_nHeight (entries s f) \<le> bi_nHeight (entries s t1)" using anc_height [OF hk t1] .
  then show ?thesis
    using assms(2) e act_frame_trans [OF fr] anc_trans [OF hk _ t1] unfolding progress_def
    by (fastforce split: step_outcome.splits)
qed

lemma failed_add: "failed (bi \<lparr> bi_nStatus := bi_nStatus bi OR BLOCK_FAILED_VALID \<rparr>)"
proof -
  have "BLOCK_FAILED_VALID AND BLOCK_FAILED_MASK \<noteq> 0" by (simp add: BLOCK_FAILED_VALID_def BLOCK_FAILED_MASK_def BLOCK_FAILED_CHILD_def)
  then show ?thesis by (auto simp: failed_def bit.conj_disj_distrib2 or_eq_0_iff)
qed

lemma note_invalid_found:
  assumes "Tip s = Some t"
  shows "InvalidChainFound p s = Inr (note_invalid p s)"
  using assms by (simp add: InvalidChainFound_def)

text \<open>Connecting one block on top of the tip.\<close>

lemma ConnectTip_ok:
  assumes inv: "activation_inv s t" and p: "p \<in> set (setBlockIndexCandidates s)" "anc (entries s) p x"
    and x: "pprev (entries s x) = Some t" and nc: "no_corruption ops"
  shows "\<exists>ok st s1. ConnectTip ops x state s = Some (Inr (ok, st, s1)) \<and>
    (if ok then progress s old p t Continue x s1
     else act_frame s s1 \<and> chainActive s1 = chainActive s \<and>
       (vs_mode st = MODE_INVALID \<longrightarrow> \<not> corruptionPossible st \<and> failed (entries s1 x)))"
proof -
  let ?h = "entries s"
  note I = activation_invD [OF inv]
  obtain ok st v where c: "connect_block ops x state (node_rest s) = (ok, st, v)" by (cases "connect_block ops x state (node_rest s)")
  show ?thesis
  proof (cases ok)
    case True
    define s1 where "s1 = s \<lparr> node_rest := v, chainActive := chain_of ?h x \<rparr>"
    have "ConnectTip ops x state s = Some (Inr (True, st, s1))"
      using True c x I(8) UpdateTip_ok [of "s \<lparr> node_rest := v \<rparr>" t x] I(3,5) by (simp add: ConnectTip_def s1_def)
    moreover have "act_frame s s1" by (simp add: act_frame_def s1_def)
    moreover from this have "activation_inv s1 x" by (rule activation_inv_move [OF inv]) (use p in \<open>auto simp: s1_def\<close>)
    moreover have "anc ?h x t" using anc_prev [OF I(3) x] anc_refl [OF I(3)] by blast
    ultimately show ?thesis using p by (auto simp: progress_def s1_def)
  next
    case False
    define s1 where "s1 = s \<lparr> node_rest := v \<rparr>"
    have s1: "entries s1 = ?h" "Tip s1 = Some t" "act_frame s s1" "chainActive s1 = chainActive s" using I(8) by (simp_all add: s1_def act_frame_def)
    show ?thesis
    proof (cases "vs_mode st = MODE_INVALID")
      case True
      then have cp: "\<not> corruptionPossible st" using nc c False unfolding no_corruption_def by (metis (full_types))
      define s2 where "s2 = note_invalid x (erase_candidate x (set_dirty x (add_status x BLOCK_FAILED_VALID s1)))"
      have ib: "InvalidBlockFound x st s1 = Inr s2"
        using cp s1(2) by (simp add: InvalidBlockFound_def s2_def note_invalid_found [of _ t] add_status_def)
      have "search_frame s1 s2" unfolding s2_def
        by (rule search_frame_trans [OF search_frame_trans [OF search_frame_trans [OF search_frame_steps(4) [OF in_failures(2)]
            search_frame_steps(2)] search_frame_steps(3)] search_frame_steps(1)])
      moreover have "failed (entries s2 x)" by (simp add: s2_def add_status_def failed_add)
      ultimately show ?thesis
        using c False x I(8) ib cp s1 True act_frame_trans [OF s1(3)]
        by (auto simp: ConnectTip_def s1_def [symmetric] Let_def search_act_frame)
    next
      case nm: False
      then show ?thesis using c False x I(8) s1 by (auto simp: ConnectTip_def s1_def [symmetric] Let_def)
    qed
  qed
qed

lemma connect_batch_ok:
  fixes s :: "'v chain_state"
  assumes "no_corruption ops"
  shows "activation_inv s t \<Longrightarrow> p \<in> set (setBlockIndexCandidates s) \<Longrightarrow> anc (entries s) p t \<Longrightarrow> links_up (entries s) t xs \<Longrightarrow>
    \<forall>x \<in> set xs. anc (entries s) p x \<Longrightarrow>
    \<exists>outcome st s' t'. connect_batch ops (Some old) back xs state s = Some (Inr (outcome, st, s')) \<and> progress s old p t outcome t' s' \<and>
      (outcome = Continue \<longrightarrow> t' = last (t # xs))"
proof (induction xs arbitrary: s t state)
  case Nil
  then show ?case using anc_refl [OF activation_invD(3) [OF Nil(1)]] by (auto simp: progress_def)
next
  case (Cons x xs)
  let ?h = "entries s"
  note I = activation_invD [OF Cons.prems(1)]
  have x: "pprev (?h x) = Some t" "anc ?h p x" "links_up ?h x xs" using Cons.prems(4,5) by auto
  obtain ok st s1 where c: "ConnectTip ops x state s = Some (Inr (ok, st, s1))"
    "if ok then progress s old p t Continue x s1
     else act_frame s s1 \<and> chainActive s1 = chainActive s \<and> (vs_mode st = MODE_INVALID \<longrightarrow> \<not> corruptionPossible st \<and> failed (entries s1 x))"
    using ConnectTip_ok [OF Cons.prems(1,2) x(2,1) assms] by blast
  show ?case
  proof (cases ok)
    case True
    then have p1: "progress s old p t Continue x s1" using c(2) by simp
    then have s1: "activation_inv s1 x" "entries s1 = ?h" "p \<in> set (setBlockIndexCandidates s1)" by (simp_all add: progress_def)
    obtain s2 where s2: "PruneBlockIndexCandidates s1 = Inr s2" "act_frame s1 s2" "entries s2 = ?h" "chainActive s2 = chainActive s1"
      "p \<in> set (setBlockIndexCandidates s2)" using Prune_ok [OF s1(1,3)] s1(2) x(2) by auto
    have inv2: "activation_inv s2 x"
      by (rule activation_inv_move [OF s1(1) s2(2)])
        (use s2(4) activation_invD(5) [OF s1(1)] anc_refl activation_invD(3) [OF s1(1)] in auto)
    have p2: "progress s old p t Continue x s2"
      using p1 s2(2,3,5) inv2 act_frame_trans [of s s1 s2] by (simp add: progress_def)
    have tip: "Tip s2 = Some x" using activation_invD(8) [OF inv2] .
    show ?thesis
    proof (cases "CompareTo (nChainWork (?h x)) (nChainWork (?h old)) > 0")
      case better: True
      then have "work ?h old < work ?h x" using I(4) by (auto simp: works_ok_def CompareTo_val split: if_splits)
      then have "progress s old p t Better x s2" using p2 by (simp add: progress_def)
      then show ?thesis using c(1) True s2(1,3) tip better by auto
    next
      case False
      have "links_up (entries s2) x xs" "anc (entries s2) p x" "\<forall>y \<in> set xs. anc (entries s2) p y" using x s2(3) Cons.prems(5) by simp_all
      with Cons.IH [OF inv2 s2(5), of st] obtain outcome st' s' t' where
        IH: "connect_batch ops (Some old) back xs st s2 = Some (Inr (outcome, st', s'))" "progress s2 old p x outcome t' s'"
        "outcome = Continue \<longrightarrow> t' = last (x # xs)" by blast
      then show ?thesis using c(1) True s2(1,3) tip False progress_trans [OF p2 IH(2)] by auto
    qed
  next
    case False
    then have s1: "act_frame s s1" "chainActive s1 = chainActive s" "vs_mode st = MODE_INVALID \<longrightarrow> \<not> corruptionPossible st \<and> failed (entries s1 x)"
      using c(2) by simp_all
    have tt: "anc ?h t t" using anc_refl [OF I(3)] .
    show ?thesis
    proof (cases "vs_mode st = MODE_INVALID")
      case True
      define s2 where "s2 = note_invalid back s1"
      have nf: "InvalidChainFound back s1 = Inr s2" using note_invalid_found [of s1 t] I(8) s1(2) by (simp add: s2_def)
      have fr: "act_frame s s2" using act_frame_trans [OF s1(1)] search_frame_steps(1) [of s1 "back"] by (simp add: s2_def search_act_frame)
      have "activation_inv s2 t" by (rule activation_inv_move [OF Cons.prems(1) fr]) (use s1(2) I(5) tt in \<open>auto simp: s2_def\<close>)
      moreover have "failed (entries s2 x)" using s1(3) True by (simp add: s2_def)
      moreover have "bi_nHeight (?h t) < bi_nHeight (?h x)" using height_prev [OF I(3) x(1)] by simp
      ultimately have "progress s old p t InvalidFound t s2" using fr Cons.prems(3) tt x(2) by (auto simp: progress_def)
      then show ?thesis using c(1) False True s1(3) nf by auto
    next
      case nm: False
      have "activation_inv s1 t" by (rule activation_inv_move [OF Cons.prems(1) s1(1)]) (use s1(2) I(5) tt in auto)
      then have "progress s old p t SystemError t s1" using s1(1) Cons.prems(3) tt by (simp add: progress_def)
      then show ?thesis using c(1) False nm by auto
    qed
  qed
qed

lemma connect_batches_stop: "connect_batches ops old p (bi_nHeight (entries s p)) state s = Some (Inr (Continue, state, s))"
  by (subst connect_batches.simps) (simp only: Let_def refl if_True)

lemma connect_batches_go:
  assumes "k \<noteq> bi_nHeight (entries s p)" "GetAncestor (entries s) p (min (k + 32) (bi_nHeight (entries s p))) = Inr (Some a)"
    "blocks_to_connect (entries s) k (Some a) [] = Some xs" "connect_batch ops old (last xs) (rev xs) state s = Some (Inr (outcome, st, s1))"
  shows "connect_batches ops old p k state s =
    (if outcome = Continue then connect_batches ops old p (min (k + 32) (bi_nHeight (entries s p))) st s1 else Some (Inr (outcome, st, s1)))"
  by (subst connect_batches.simps) (simp only: Let_def assms if_False run_bind_simps option.case prod.case)

lemma connect_batches_ok:
  fixes s :: "'v chain_state"
  assumes "no_corruption ops"
  shows "activation_inv s t \<Longrightarrow> p \<in> set (setBlockIndexCandidates s) \<Longrightarrow> anc (entries s) p t \<Longrightarrow>
    \<exists>outcome st s' t'. connect_batches ops (Some old) p (bi_nHeight (entries s t)) state s = Some (Inr (outcome, st, s')) \<and>
      progress s old p t outcome t' s' \<and> (outcome = Continue \<longrightarrow> t' = p)"
proof (induction "nat (bi_nHeight (entries s p) - bi_nHeight (entries s t))" arbitrary: s t state rule: less_induct)
  case less
  let ?h = "entries s"
  note I = activation_invD [OF less.prems(1)]
  show ?case
  proof (cases "bi_nHeight (?h t) = bi_nHeight (?h p)")
    case True
    have "t = p" using less.prems(3) ancestor_self [OF I(3), of p] unfolding anc_def True by simp
    then have "connect_batches ops (Some old) p (bi_nHeight (?h t)) state s = Some (Inr (Continue, state, s))"
      using connect_batches_stop by metis
    moreover have "progress s old p t Continue t s" using less.prems anc_refl [OF I(3)] by (simp add: progress_def)
    ultimately show ?thesis using \<open>t = p\<close> by blast
  next
    case False
    let ?k = "min (bi_nHeight (?h t) + 32) (bi_nHeight (?h p))"
    have lt: "bi_nHeight (?h t) < bi_nHeight (?h p)" using False anc_height [OF I(3) less.prems(3)] by simp
    then have k: "0 \<le> ?k" "?k \<le> bi_nHeight (?h p)" "bi_nHeight (?h t) < ?k" using height_nonneg [OF I(3), of t] by auto
    obtain a where a: "ancestor ?h p ?k = Some a" using ancestor_exists [OF I(3) k(1,2)] by blast
    have ha: "bi_nHeight (?h a) = ?k" using ancestor_height [OF I(3) a] by simp
    then have pa: "anc ?h p a" using a by (simp add: anc_def)
    have at: "anc ?h a t" using anc_linear [OF I(3) less.prems(3) pa] k(3) ha by simp
    obtain xs where xs: "blocks_to_connect ?h (bi_nHeight (?h t)) (Some a) [] = Some (rev xs)" "links_up ?h t xs" "last (t # xs) = a"
      "\<forall>x \<in> set xs. anc ?h a x \<and> bi_nHeight (?h t) < bi_nHeight (?h x)" using blocks_to_connect_ok [OF I(3) at, of "[]"] by auto
    have px: "\<forall>x \<in> set xs. anc ?h p x" using xs(4) anc_trans [OF I(3) pa] by blast
    obtain outcome st s1 t1 where b: "connect_batch ops (Some old) (last (rev xs)) xs state s = Some (Inr (outcome, st, s1))"
      "progress s old p t outcome t1 s1" "outcome = Continue \<longrightarrow> t1 = a"
      using connect_batch_ok [OF assms less.prems xs(2) px] xs(3) by metis
    have go: "connect_batches ops (Some old) p (bi_nHeight (?h t)) state s =
      (if outcome = Continue then connect_batches ops (Some old) p ?k st s1 else Some (Inr (outcome, st, s1)))"
    proof (rule connect_batches_go)
      show "GetAncestor ?h p ?k = Inr (Some a)" using a by (simp add: GetAncestor_eq_ancestor [OF I(2)])
      show "connect_batch ops (Some old) (last (rev xs)) (rev (rev xs)) state s = Some (Inr (outcome, st, s1))"
        unfolding rev_rev_ident by (rule b(1))
    qed (use False xs(1) in auto)
    show ?thesis
    proof (cases "outcome = Continue")
      case True
      then have s1: "activation_inv s1 a" "entries s1 = ?h" "p \<in> set (setBlockIndexCandidates s1)" "t1 = a" using b by (auto simp: progress_def)
      have "nat (bi_nHeight (entries s1 p) - bi_nHeight (entries s1 a)) < nat (bi_nHeight (?h p) - bi_nHeight (?h t))"
        using s1(2) ha k lt by simp
      from less.hyps [OF this s1(1,3)] s1(2) pa ha obtain outcome' st' s' t' where
        IH: "connect_batches ops (Some old) p ?k st s1 = Some (Inr (outcome', st', s'))" "progress s1 old p a outcome' t' s'"
        "outcome' = Continue \<longrightarrow> t' = p" by force
      have "connect_batches ops (Some old) p (bi_nHeight (?h t)) state s = Some (Inr (outcome', st', s'))"
        using go True IH(1) by simp
      moreover have "progress s old p t outcome' t' s'" using progress_trans [OF _ IH(2)] b(2) True s1(4) by simp
      ultimately show ?thesis using IH(3) by blast
    next
      case nc: False
      have "connect_batches ops (Some old) p (bi_nHeight (?h t)) state s = Some (Inr (outcome, st, s1))"
        using go nc by simp
      then show ?thesis using b(2) nc by blast
    qed
  qed
qed

section \<open>The loop\<close>

text \<open>No candidate that could be connected from the block \<open>p\<close> has more work.\<close>

definition no_better :: "'v chain_state \<Rightarrow> ptr \<Rightarrow> bool" where
  "no_better s p \<longleftrightarrow> (\<forall>c \<in> set (setBlockIndexCandidates s). usable (entries s) p c \<longrightarrow> c = p \<or> work_less (entries s) c p)"

definition chosen :: "'v chain_state \<Rightarrow> ptr \<Rightarrow> ptr \<Rightarrow> bool" where
  "chosen s t p \<longleftrightarrow> p \<in> set (setBlockIndexCandidates s) \<and> usable (entries s) t p \<and> no_better s p"

lemma best_usable_chosen:
  assumes "best_usable s t r"
  shows "case r of None \<Rightarrow> no_better s t | Some p \<Rightarrow> chosen s t p"
proof (cases r)
  case None
  then show ?thesis using assms by (simp add: best_usable_def no_better_def)
next
  case (Some p)
  have "usable (entries s) t c" if "usable (entries s) p c" "usable (entries s) t p" for c
    using that unfolding usable_def by blast
  then show ?thesis using assms Some by (auto simp: best_usable_def chosen_def no_better_def)
qed

lemma fork_exists:
  assumes "activation_inv s t" "p \<in> set (setBlockIndexCandidates s)"
  shows "\<exists>f. FindFork (entries s) (chainActive s) (Some p) = Some (Inr (Some f)) \<and> anc (entries s) p f \<and> anc (entries s) t f \<and>
    (\<forall>q. anc (entries s) p q \<longrightarrow> anc (entries s) t q \<longrightarrow> bi_nHeight (entries s q) \<le> bi_nHeight (entries s f))"
proof -
  let ?h = "entries s"
  note I = activation_invD [OF assms(1)]
  obtain r where r: "FindFork ?h (chain_of ?h t) (Some p) = Some (Inr r)" "last_common ?h p t r" using FindFork_last_common [OF I(2)] by blast
  obtain g where g: "ancestor ?h p 0 = Some g" using ancestor_exists [OF I(3), of 0 p] height_nonneg [OF I(3), of p] by auto
  have "common ?h p t g" using g I(10) [OF assms(2)] ancestor_height [OF I(3) g] by (simp add: common_def)
  then obtain f where "r = Some f" using r(2) by (auto simp: last_common_def split: option.splits)
  then show ?thesis using r I(5) by (auto simp: last_common_def common_def anc_def)
qed

text \<open>One step towards the chosen candidate.\<close>

definition step_result :: "'v chain_state \<Rightarrow> ptr \<Rightarrow> ptr \<Rightarrow> bool \<Rightarrow> ptr \<Rightarrow> 'v chain_state \<Rightarrow> bool" where
  "step_result s t p fInvalidFound t' s' \<longleftrightarrow>
     (if fInvalidFound then \<exists>x < bi_next (cs_index s). \<not> failed (entries s x) \<and> failed (entries s' x)
      else entries s' = entries s \<and> chosen s' t' p \<and> (t' = p \<or> work (entries s) t < work (entries s) t'))"

lemma progress_step:
  assumes inv: "activation_inv s t" and ch: "chosen s t p" and f: "anc (entries s) p f"
    and com: "\<And>q. anc (entries s) p q \<Longrightarrow> anc (entries s) t q \<Longrightarrow> bi_nHeight (entries s q) \<le> bi_nHeight (entries s f)"
    and pr: "progress s t p f outcome t' s'" "outcome = Continue \<longrightarrow> t' = p" "outcome \<noteq> SystemError"
  shows "step_result s t p (outcome = InvalidFound) t' s'"
proof (cases "outcome = InvalidFound")
  case True
  let ?h = "entries s"
  have p: "p < bi_next (cs_index s)" using inv ch by (auto simp: activation_inv_def chosen_def)
  obtain x where x: "anc ?h p x" "bi_nHeight (?h f) < bi_nHeight (?h x)" "failed (entries s' x)" using pr(1) True by (auto simp: progress_def)
  have "\<not> anc ?h t x" using com x(1,2) by fastforce
  then have "\<not> failed (?h x)" using ch x(1) by (auto simp: chosen_def usable_def unusable_alt)
  then show ?thesis using True x(3) anc_bound [OF inv x(1) p] by (auto simp: step_result_def)
next
  case False
  let ?h = "entries s"
  note hk = activation_invD(3) [OF inv]
  have e: "entries s' = ?h" and p: "p \<in> set (setBlockIndexCandidates s')" and fr: "act_frame s s'" and t': "anc ?h p t'" "anc ?h t' f"
    using pr False by (auto simp: progress_def split: step_outcome.splits)
  have "anc ?h t' q" if "anc ?h p q" "anc ?h t q" for q
    using anc_trans [OF hk t'(2)] anc_linear [OF hk that(1) f com [OF that]] by blast
  then have "usable ?h t' p" using ch unfolding chosen_def usable_def by blast
  moreover have "no_better s' p" using ch fr e by (auto simp: chosen_def no_better_def act_frame_def)
  moreover have "t' = p \<or> work ?h t < work ?h t'" using pr False by (auto simp: progress_def split: step_outcome.splits)
  ultimately show ?thesis using False e p by (simp add: step_result_def chosen_def)
qed

lemma ActivateBestChainStep_ok:
  assumes inv: "activation_inv s t" and ch: "chosen s t p" and nc: "no_corruption ops"
  shows "\<exists>ok inv st s' t'. ActivateBestChainStep ops p state s = Some (Inr (ok, inv, st, s')) \<and> activation_inv s' t' \<and> act_frame s s' \<and>
    (ok \<longrightarrow> step_result s t p inv t' s')"
proof -
  let ?h = "entries s"
  note I = activation_invD [OF inv]
  have p: "p \<in> set (setBlockIndexCandidates s)" using ch by (simp add: chosen_def)
  obtain f where f: "FindFork ?h (chainActive s) (Some p) = Some (Inr (Some f))" "anc ?h p f" "anc ?h t f"
    "\<And>q. anc ?h p q \<Longrightarrow> anc ?h t q \<Longrightarrow> bi_nHeight (?h q) \<le> bi_nHeight (?h f)" using fork_exists [OF inv p] by blast
  obtain ok b st s1 t1 where d: "disconnect_loop ops (Some f) False state s = Some (Inr (ok, b, st, s1))" "entries s1 = ?h"
    "chainActive s1 = chain_of ?h t1" "act_frame s s1" "setBlockIndexCandidates s1 = setBlockIndexCandidates s" "anc ?h t t1" "ok \<longrightarrow> t1 = f"
    using disconnect_loop_ok [OF I(3) f(3) refl I(5)] by blast
  have i1: "activation_inv s1 t1" by (rule activation_inv_move [OF inv d(4,3)]) (use d(6) in simp)
  show ?thesis
  proof (cases ok)
    case False
    then show ?thesis using f(1) d(1,4) i1 by (auto simp: ActivateBestChainStep_def Let_def)
  next
    case True
    then have t1: "t1 = f" using d(7) by simp
    obtain outcome st' s' t' where c: "connect_batches ops (Some t) p (bi_nHeight (entries s1 f)) st s1 = Some (Inr (outcome, st', s'))"
      "progress s1 t p f outcome t' s'" "outcome = Continue \<longrightarrow> t' = p"
      using connect_batches_ok [OF nc i1, of p t st] d(2,5) p f(2) t1 by auto
    have c1: "activation_inv s' t'" "act_frame s s'" using c(2) act_frame_trans [OF d(4)] by (simp_all add: progress_def)
    have c2: "progress s t p f outcome t' s'" using c(2) c1 d(2) by (simp add: progress_def split: step_outcome.splits)
    show ?thesis
    proof (cases "outcome = SystemError")
      case True
      then show ?thesis using f(1) d(1) \<open>ok\<close> c(1) c1 I(8) by (auto simp: ActivateBestChainStep_def Let_def)
    next
      case ns: False
      have "ActivateBestChainStep ops p state s = Some (Inr (True, outcome = InvalidFound, st', s'))"
        using f(1) d(1) True c(1) I(8) activation_invD(8) [OF c1(1)] ns by (simp add: ActivateBestChainStep_def Let_def)
      then show ?thesis using c1 progress_step [OF inv ch f(2,4) c2 c(3) ns] by blast
    qed
  qed
qed

text \<open>The measure: blocks that have not failed yet, and then blocks with more work than the tip.\<close>

definition sound :: "'v chain_state \<Rightarrow> ptr set" where
  "sound s = {x. x < bi_next (cs_index s) \<and> \<not> failed (entries s x)}"

definition above :: "'v chain_state \<Rightarrow> ptr \<Rightarrow> ptr set" where
  "above s t = {x. x < bi_next (cs_index s) \<and> work (entries s) t < work (entries s) x}"

definition remaining :: "'v chain_state \<Rightarrow> ptr \<Rightarrow> nat" where
  "remaining s t = card (sound s) * Suc (bi_next (cs_index s)) + card (above s t)"

lemma sound_frame: "act_frame s s' \<Longrightarrow> sound s' \<subseteq> sound s"
  unfolding act_frame_def sound_def using marked_status(1) [of "entries s" "entries s'"] by auto

lemma card_above: "card (above s t) \<le> bi_next (cs_index s)"
  using card_mono [of "{..<bi_next (cs_index s)}" "above s t"] by (auto simp: above_def)

lemma remaining_less:
  assumes fr: "act_frame s s'" and step: "step_result s t p fInvalidFound t' s'" and t': "fInvalidFound \<or> t' \<noteq> p"
    and inv': "activation_inv s' t'"
  shows "remaining s' t' < remaining s t"
proof -
  have n: "bi_next (cs_index s') = bi_next (cs_index s)" using fr by (simp add: act_frame_def)
  have fin: "finite (sound s)" "finite (above s t)" by (simp_all add: sound_def above_def)
  show ?thesis
  proof (cases fInvalidFound)
    case True
    then have "sound s' \<subset> sound s" using step sound_frame [OF fr] n by (auto simp: step_result_def sound_def)
    then have "card (sound s') * Suc (bi_next (cs_index s)) + Suc (bi_next (cs_index s)) \<le> card (sound s) * Suc (bi_next (cs_index s))"
      using psubset_card_mono [OF fin(1)] by (metis Suc_leI add.commute mult_Suc mult_le_mono1)
    then show ?thesis using card_above [of s' t'] n by (simp add: remaining_def)
  next
    case False
    then have e: "entries s' = entries s" "work (entries s) t < work (entries s) t'" using step t' by (auto simp: step_result_def)
    moreover have "t' \<in> above s t" using inv' n e by (simp add: above_def activation_inv_def)
    ultimately have "above s' t' \<subset> above s t" using n by (auto simp: above_def)
    then show ?thesis using psubset_card_mono [OF fin(2)] e n by (simp add: remaining_def sound_def)
  qed
qed

lemma remaining_frame:
  assumes "act_frame s s'"
  shows "remaining s' t \<le> remaining s t"
proof -
  have "card (sound s') \<le> card (sound s)" using card_mono [OF _ sound_frame [OF assms]] by (simp add: sound_def)
  moreover have "above s' t = above s t" using assms marked_fields(4) [of "entries s" "entries s'"] by (auto simp: act_frame_def above_def)
  moreover have "bi_next (cs_index s') = bi_next (cs_index s)" using assms by (simp add: act_frame_def)
  ultimately show ?thesis using mult_le_mono1 by (simp add: remaining_def del: mult_Suc_right)
qed

lemma find_ok:
  assumes "activation_inv s t" "case mostWork of None \<Rightarrow> True | Some p \<Rightarrow> chosen s t p"
  shows "\<exists>r s1. (case mostWork of None \<Rightarrow> FindMostWorkChain s | Some p \<Rightarrow> Some (Inr (Some p, s))) = Some (Inr (r, s1)) \<and>
    activation_inv s1 t \<and> act_frame s s1 \<and> (case r of None \<Rightarrow> no_better s1 t | Some p \<Rightarrow> chosen s1 t p)"
proof (cases mostWork)
  case None
  note I = activation_invD [OF assms(1)]
  obtain r s1 where f: "FindMostWorkChain s = Some (Inr (r, s1))" "keeps_usable s t s1" "best_usable s1 t r"
    using FindMostWorkChain_best_usable [OF I(1)] by blast
  have "act_frame s s1" "chainActive s1 = chain_of (entries s) t" using f(2) I(5) by (simp_all add: keeps_usable_def search_act_frame)
  then show ?thesis using None f(1) best_usable_chosen [OF f(3)] activation_inv_move [OF assms(1)] anc_refl [OF I(3)] by auto
qed (use assms in simp)

lemma ActivateBestChain_loop_ok:
  fixes s :: "'v chain_state"
  assumes nc: "no_corruption ops"
  shows "activation_inv s t \<Longrightarrow> (case mostWork of None \<Rightarrow> True | Some p \<Rightarrow> chosen s t p) \<Longrightarrow>
    \<exists>ok st s' t'. ActivateBestChain_loop ops mostWork state s = Some (Inr (ok, st, s')) \<and> activation_inv s' t' \<and> act_frame s s' \<and>
      (ok \<longrightarrow> no_better s' t')"
proof (induction "remaining s t" arbitrary: s t mostWork state rule: less_induct)
  case less
  obtain r s1 where r: "(case mostWork of None \<Rightarrow> FindMostWorkChain s | Some p \<Rightarrow> Some (Inr (Some p, s))) = Some (Inr (r, s1))"
    "activation_inv s1 t" "act_frame s s1" "case r of None \<Rightarrow> no_better s1 t | Some p \<Rightarrow> chosen s1 t p" using find_ok [OF less.prems] by blast
  note tip = activation_invD(8) [OF r(2)]
  show ?case
  proof (cases "r = None \<or> r = Some t")
    case True
    then have "no_better s1 t" using r(4) by (auto simp: chosen_def)
    moreover have "ActivateBestChain_loop ops mostWork state s = Some (Inr (True, state, s1))"
      using True r(1) tip by (subst ActivateBestChain_loop.simps) auto
    ultimately show ?thesis using r(2,3) by blast
  next
    case False
    then obtain p where p: "r = Some p" "t \<noteq> p" "chosen s1 t p" using r(4) by (cases r) auto
    obtain ok inv st s2 t2 where a: "ActivateBestChainStep ops p state s1 = Some (Inr (ok, inv, st, s2))" "activation_inv s2 t2"
      "act_frame s1 s2" "ok \<longrightarrow> step_result s1 t p inv t2 s2" using ActivateBestChainStep_ok [OF r(2) p(3) nc] by blast
    note fr = act_frame_trans [OF r(3) a(3)] and tip2 = activation_invD(8) [OF a(2)]
    let ?m = "if inv then None else Some p"
    have step: "ActivateBestChain_loop ops mostWork state s =
      (if \<not> ok then Some (Inr (False, st, s2)) else if Some t2 \<noteq> ?m then ActivateBestChain_loop ops ?m st s2 else Some (Inr (True, st, s2)))"
      using r(1) tip p(1,2) a(1) tip2 by (subst ActivateBestChain_loop.simps) (simp add: Let_def)
    show ?thesis
    proof (cases "ok \<and> Some t2 \<noteq> ?m")
      case True
      then have "remaining s2 t2 < remaining s t"
        using remaining_less [OF a(3) _ _ a(2), of t p inv] a(4) remaining_frame [OF r(3), of t] by (auto split: if_splits)
      moreover have "case ?m of None \<Rightarrow> True | Some p \<Rightarrow> chosen s2 t2 p" using a(4) True by (auto simp: step_result_def)
      ultimately obtain ok' st' s' t' where "ActivateBestChain_loop ops ?m st s2 = Some (Inr (ok', st', s'))" "activation_inv s' t'"
        "act_frame s2 s'" "ok' \<longrightarrow> no_better s' t'" using less.hyps a(2) by blast
      then show ?thesis using step True act_frame_trans [OF fr] by auto
    next
      case False
      then show ?thesis using step a(2,4) fr by (auto simp: step_result_def chosen_def split: if_splits)
    qed
  qed
qed

section \<open>A block that looks corrupted\<close>

lemma FindMostWorkChain_last:
  assumes inv: "activation_inv s t" and p: "setBlockIndexCandidates s = cs @ [p]" "usable (entries s) t p"
  shows "FindMostWorkChain s = Some (Inr (Some p, s))"
proof -
  note I = activation_invD [OF inv]
  have "linked (entries s) p" using I(9) p(1) by simp
  then obtain r where r: "find_unusable (entries s) (chainActive s) (Some p) = Some (Inr r)"
    "case r of None \<Rightarrow> usable (entries s) t p | Some q \<Rightarrow> anc (entries s) p q \<and> \<not> anc (entries s) t q \<and> unusable (entries s q)"
    using find_unusable_ok [OF I(3), of p t] I(5) by auto
  then have "r = None" using p(2) by (auto simp: usable_def split: option.splits)
  then show ?thesis using r(1) p(1) by (subst FindMostWorkChain.simps) (simp add: Let_def)
qed

text \<open>The connection of \<open>p\<close> fails and is blamed on corruption, without changing the rest of the node.\<close>

definition looks_corrupted :: "'v tip_ops \<Rightarrow> ptr \<Rightarrow> 'v \<Rightarrow> bool" where
  "looks_corrupted ops p v \<longleftrightarrow>
     (\<forall>st. \<exists>st'. connect_block ops p st v = (False, st', v) \<and> vs_mode st' = MODE_INVALID \<and> corruptionPossible st')"

lemma step_corrupted:
  assumes inv: "activation_inv s t" and p: "p \<in> set (setBlockIndexCandidates s)" "pprev (entries s p) = Some t"
    and bad: "looks_corrupted ops p (node_rest s)"
  shows "ActivateBestChainStep ops p state s = Some (Inr (True, True, CValidationState_new, s))"
proof -
  let ?h = "entries s"
  note I = activation_invD [OF inv]
  have pt: "anc ?h p t" "anc ?h t t" using anc_prev [OF I(3) p(2)] anc_refl [OF I(3)] by auto
  have hp: "bi_nHeight (?h p) = bi_nHeight (?h t) + 1" using height_prev [OF I(3) p(2)] by simp
  obtain f where f: "FindFork ?h (chainActive s) (Some p) = Some (Inr (Some f))" "anc ?h t f"
    "\<forall>q. anc ?h p q \<longrightarrow> anc ?h t q \<longrightarrow> bi_nHeight (?h q) \<le> bi_nHeight (?h f)" using fork_exists [OF inv p(1)] by blast
  have "f = t" using f(2,3) pt anc_linear [OF I(3) pt(2) f(2)] anc_antisym [OF I(3)] by blast
  then have d: "disconnect_loop ops (Some f) False state s = Some (Inr (True, False, state, s))"
    using I(8) by (subst disconnect_loop.simps) simp
  have "blocks_to_connect ?h (bi_nHeight (?h t)) (Some t) [p] = Some [p]" by (subst blocks_to_connect.simps) simp
  then have b: "blocks_to_connect ?h (bi_nHeight (?h t)) (Some p) [] = Some [p]" using p(2) hp by (subst blocks_to_connect.simps) simp
  obtain st' where c: "connect_block ops p state (node_rest s) = (False, st', node_rest s)" "vs_mode st' = MODE_INVALID" "corruptionPossible st'"
    using bad unfolding looks_corrupted_def by meson
  have ct: "ConnectTip ops p state s = Some (Inr (False, st', s))" using c p(2) I(8) by (simp add: ConnectTip_def InvalidBlockFound_def)
  then have "connect_batch ops (Some t) p [p] state s = Some (Inr (InvalidFound, CValidationState_new, s))" using c by simp
  then have "connect_batches ops (Some t) p (bi_nHeight (?h t)) state s = Some (Inr (InvalidFound, CValidationState_new, s))"
    using connect_batches_go [of "bi_nHeight (?h t)" s p p "[p]" ops "Some t" state InvalidFound] hp b ancestor_self [OF I(3), of p]
    by (simp add: GetAncestor_eq_ancestor [OF I(2)])
  then show ?thesis using f(1) d \<open>f = t\<close> I(8) by (simp add: ActivateBestChainStep_def Let_def)
qed

lemma loop_corrupted:
  fixes s :: "'v chain_state"
  assumes inv: "activation_inv s t" and p: "setBlockIndexCandidates s = cs @ [p]" "usable (entries s) t p" "pprev (entries s p) = Some t"
    and bad: "looks_corrupted ops p (node_rest s)"
  shows "ActivateBestChain_loop ops None state s = None"
proof (rule ccontr)
  assume "ActivateBestChain_loop ops None state s \<noteq> None"
  then obtain y where y: "ActivateBestChain_loop ops None state s = Some y" by blast
  have hp: "p \<noteq> t" using height_prev [OF activation_invD(3) [OF inv] p(3)] by auto
  have "ops' = ops \<longrightarrow> mostWork = None \<longrightarrow> s' \<noteq> s" if "ActivateBestChain_loop ops' mostWork state' s' = Some r" for ops' mostWork state' s' r
    using that
  proof (induction rule: ActivateBestChain_loop.raw_induct [rotated 1, consumes 1])
    case (1 loop ops' mostWork st s' r)
    show ?case
    proof (intro impI notI)
      assume e: "ops' = ops" "mostWork = None" "s' = s"
      have "loop ops None CValidationState_new s = Some r"
        using 1(2) unfolding e
        by (simp add: FindMostWorkChain_last [OF inv p(1,2)] activation_invD(8) [OF inv] step_corrupted [OF inv _ p(3) bad] p(1) hp [symmetric] Let_def)
      from 1(1) [OF this] show False by simp
    qed
  qed
  then show False using y by blast
qed

section \<open>A small block tree\<close>

text \<open>A genesis block and one block on it, both with their data; the tip is the genesis block.\<close>

definition two_heap :: block_heap where
  "two_heap p = CBlockIndex_null
     \<lparr> pprev := (if p = 1 then Some 0 else None), bi_nHeight := (if p = 1 then 1 else 0),
       nChainWork := (if p = 1 then [2, 0, 0, 0, 0, 0, 0, 0] else [1, 0, 0, 0, 0, 0, 0, 0]),
       bi_nChainTx := 1, bi_nStatus := BLOCK_HAVE_DATA \<rparr>"

definition two_state :: "unit chain_state" where
  "two_state =
     \<lparr> cs_index = \<lparr> bi_heap = two_heap, bi_next = 2, mapBlockIndex = (\<lambda>_. None), pindexBestHeader = Some 1, setDirtyBlockIndex = [] \<rparr>,
       chainActive = [Some 0], setBlockIndexCandidates = [0, 1], mapBlocksUnlinked = [], pindexBestInvalid = None,
       nBlockSequenceId = 1, nBlockReverseSequenceId = -1, nLastPreciousChainwork = base_zero, versionbitscache = (\<lambda>_ _. None),
       node_rest = () \<rparr>"

text \<open>Operations that accept every block, and operations for which every block looks corrupted.\<close>

definition accepting_ops :: "unit tip_ops" where
  "accepting_ops = \<lparr> connect_block = (\<lambda>p st v. (True, st, v)), disconnect_block = (\<lambda>p st v. (True, st, v)) \<rparr>"

definition corrupting_ops :: "unit tip_ops" where
  "corrupting_ops = \<lparr> connect_block = (\<lambda>p st v. (False, DoS CValidationState_new 100 16 ''bad-txnmrklroot'' True, v)),
     disconnect_block = (\<lambda>p st v. (True, st, v)) \<rparr>"

lemma two_heap_simps [simp]:
  "pprev (two_heap p) = (if p = 1 then Some 0 else None)" "pskip (two_heap p) = None" "bi_nHeight (two_heap p) = (if p = 1 then 1 else 0)"
  "nChainWork (two_heap p) = (if p = 1 then [2, 0, 0, 0, 0, 0, 0, 0] else [1, 0, 0, 0, 0, 0, 0, 0])" "bi_nChainTx (two_heap p) = 1"
  "bi_nStatus (two_heap p) = BLOCK_HAVE_DATA" "bi_nSequenceId (two_heap p) = 0"
  by (simp_all add: two_heap_def CBlockIndex_null_def)

lemma two_state_simps [simp]:
  "entries two_state = two_heap" "bi_next (cs_index two_state) = 2" "chainActive two_state = [Some 0]"
  "setBlockIndexCandidates two_state = [0, 1]" "node_rest two_state = ()"
  by (simp_all add: two_state_def)

lemma two_heap_usable: "\<not> unusable (two_heap p)"
  by (simp add: unusable_def BLOCK_HAVE_DATA_def BLOCK_FAILED_MASK_def BLOCK_FAILED_VALID_def BLOCK_FAILED_CHILD_def)

lemma two_state_inv: "activation_inv two_state 0"
proof -
  have "block_tree two_heap" by (simp add: block_tree_def height_ok_def skip_ok_def)
  moreover have "works_ok two_heap" by (simp add: works_ok_def WIDTH_def)
  moreover have "chain_of two_heap 0 = [Some 0]" by (simp add: chain_of_def ancestor_def)
  moreover have "work_less two_heap 0 1" using \<open>works_ok two_heap\<close> by (simp add: work_less_key work_key_def)
  ultimately show ?thesis by (auto simp: activation_inv_def search_inv_def linked_def ancestor_def split: if_splits)
qed

section \<open>Properties\<close>

text \<open>
  (C23) \<open>FindMostWorkChain\<close> (\<^verbatim>\<open>validation.cpp\<close>): in a block tree whose candidates have all their transactions, the search
  ends without running into its assertion, and what it returns is the best candidate that can be connected: all blocks of
  its branch off the active chain have their data and none has failed, and every other such candidate precedes it in the order
  by work, sequence number and pointer; it is null only when there is no such candidate. The search only marks blocks
  as failed and removes candidates, and neither loses a usable candidate nor changes which blocks are usable.
\<close>

theorem FindMostWorkChain_best:
  fixes s :: "'v chain_state"
  assumes "search_inv s t"
  shows "\<exists>r s'. FindMostWorkChain s = Some (Inr (r, s')) \<and> keeps_usable s t s' \<and> best_usable s' t r"
  by (rule FindMostWorkChain_best_usable [OF assms])

theorem FindMostWorkChain_best_witness: "\<exists>r s'. FindMostWorkChain two_state = Some (Inr (r, s')) \<and> best_usable s' 0 r"
  using FindMostWorkChain_best [OF activation_invD(1) [OF two_state_inv]] by blast

text \<open>
  (C22) \<open>ActivateBestChain\<close> (\<^verbatim>\<open>validation.cpp\<close>): when a block that fails to connect is never blamed on corruption, the
  activation ends from every state that satisfies the invariant, whatever the verdicts on the blocks are, without
  running into an assertion or a null pointer; it keeps the invariant (in particular the active chain is the chain of
  ancestors of its tip), it changes index entries by failure marks only, and when it succeeds no candidate that could be
  connected beats the new tip.
\<close>

theorem ActivateBestChain_activates:
  fixes s :: "'v chain_state"
  assumes "activation_inv s t" "no_corruption ops"
  shows "\<exists>ok st s' t'. ActivateBestChain ops state s = Some (Inr (ok, st, s')) \<and> activation_inv s' t' \<and> act_frame s s' \<and>
    (ok \<longrightarrow> no_better s' t')"
  using ActivateBestChain_loop_ok [OF assms(2,1), of None] by (simp add: ActivateBestChain_def)

theorem ActivateBestChain_activates_witness:
  "\<exists>ok st s' t'. ActivateBestChain accepting_ops CValidationState_new two_state = Some (Inr (ok, st, s')) \<and> activation_inv s' t'"
  using ActivateBestChain_activates [OF two_state_inv, of accepting_ops] by (fastforce simp: no_corruption_def accepting_ops_def)

text \<open>
  (C24) \<open>ActivateBestChain\<close> (\<^verbatim>\<open>validation.cpp\<close>) without that proviso: when the best candidate is the next block on the tip and its
  data on disk no longer match its header, so that \<open>CheckBlock\<close> reports the failure as possible corruption, nothing is marked, the
  same candidate is chosen again in every turn, and the activation never returns.
\<close>

theorem ActivateBestChain_corruption_diverges:
  fixes s :: "'v chain_state"
  assumes "activation_inv s t" "setBlockIndexCandidates s = cs @ [p]" "usable (entries s) t p" "pprev (entries s p) = Some t"
    "looks_corrupted ops p (node_rest s)"
  shows "ActivateBestChain ops state s = None"
  unfolding ActivateBestChain_def by (rule loop_corrupted [OF assms])

theorem ActivateBestChain_corruption_diverges_witness: "ActivateBestChain corrupting_ops CValidationState_new two_state = None"
  by (rule ActivateBestChain_corruption_diverges [OF two_state_inv, of "[0]" 1])
    (auto simp: two_heap_usable usable_def looks_corrupted_def corrupting_ops_def DoS_def CValidationState_new_def)

end
