(* ===== verification/Net_Address.thy ===== *)
theory Net_Address
  imports Serialize
begin

unbundle bit_operations_syntax

text \<open>
  Network addresses, services and subnets (\<^verbatim>\<open>netaddress.h\<close>, \<^verbatim>\<open>netaddress.cpp\<close>). An address is its 16 bytes in network order;
  comparisons look at these bytes only and ignore the scope. Conversions to and from the socket structures of the operating
  system, and to strings, are left out. A subnet given by a number of bits matches exactly the valid addresses that share these leading bits.
\<close>

section \<open>Addresses\<close>

datatype Network = NET_UNROUTABLE | NET_IPV4 | NET_IPV6 | NET_TOR

record CNetAddr =
  ip :: "u8 list"
  scopeId :: u32

definition pchIPv4 :: "u8 list" where
  "pchIPv4 = [0, 0, 0, 0, 0, 0, 0, 0, 0, 0, 0xff, 0xff]"

definition pchOnionCat :: "u8 list" where
  "pchOnionCat = [0xFD, 0x87, 0xD8, 0x7E, 0xEB, 0x43]"

definition CNetAddr_new :: CNetAddr where
  "CNetAddr_new = \<lparr> ip = replicate 16 0, scopeId = 0 \<rparr>"

definition SetRaw_IPv4 :: "u8 list \<Rightarrow> CNetAddr \<Rightarrow> CNetAddr" where
  "SetRaw_IPv4 ip_in a = a \<lparr> ip := pchIPv4 @ take 4 ip_in \<rparr>"

definition SetRaw_IPv6 :: "u8 list \<Rightarrow> CNetAddr \<Rightarrow> CNetAddr" where
  "SetRaw_IPv6 ip_in a = a \<lparr> ip := take 16 ip_in \<rparr>"

text \<open>\<^verbatim>\<open>memcmp(ip, pattern, n) == 0\<close> for a pattern of \<open>n\<close> bytes.\<close>

definition starts_with :: "u8 list \<Rightarrow> u8 list \<Rightarrow> bool" where
  "starts_with bs pattern \<longleftrightarrow> take (length pattern) bs = pattern"

definition GetByte :: "'a CNetAddr_scheme \<Rightarrow> nat \<Rightarrow> u8" where
  "GetByte a n = ip a ! (15 - n)"

definition IsIPv4 :: "'a CNetAddr_scheme \<Rightarrow> bool" where
  "IsIPv4 a \<longleftrightarrow> starts_with (ip a) pchIPv4"

definition IsTor :: "'a CNetAddr_scheme \<Rightarrow> bool" where
  "IsTor a \<longleftrightarrow> starts_with (ip a) pchOnionCat"

definition IsIPv6 :: "'a CNetAddr_scheme \<Rightarrow> bool" where
  "IsIPv6 a \<longleftrightarrow> \<not> IsIPv4 a \<and> \<not> IsTor a"

definition IsRFC1918 :: "'a CNetAddr_scheme \<Rightarrow> bool" where
  "IsRFC1918 a \<longleftrightarrow> IsIPv4 a \<and>
     (GetByte a 3 = 10 \<or> GetByte a 3 = 192 \<and> GetByte a 2 = 168 \<or> GetByte a 3 = 172 \<and> GetByte a 2 \<ge> 16 \<and> GetByte a 2 \<le> 31)"

definition IsRFC2544 :: "'a CNetAddr_scheme \<Rightarrow> bool" where
  "IsRFC2544 a \<longleftrightarrow> IsIPv4 a \<and> GetByte a 3 = 198 \<and> (GetByte a 2 = 18 \<or> GetByte a 2 = 19)"

definition IsRFC3927 :: "'a CNetAddr_scheme \<Rightarrow> bool" where
  "IsRFC3927 a \<longleftrightarrow> IsIPv4 a \<and> GetByte a 3 = 169 \<and> GetByte a 2 = 254"

definition IsRFC6598 :: "'a CNetAddr_scheme \<Rightarrow> bool" where
  "IsRFC6598 a \<longleftrightarrow> IsIPv4 a \<and> GetByte a 3 = 100 \<and> GetByte a 2 \<ge> 64 \<and> GetByte a 2 \<le> 127"

definition IsRFC5737 :: "'a CNetAddr_scheme \<Rightarrow> bool" where
  "IsRFC5737 a \<longleftrightarrow> IsIPv4 a \<and>
     (GetByte a 3 = 192 \<and> GetByte a 2 = 0 \<and> GetByte a 1 = 2 \<or>
      GetByte a 3 = 198 \<and> GetByte a 2 = 51 \<and> GetByte a 1 = 100 \<or>
      GetByte a 3 = 203 \<and> GetByte a 2 = 0 \<and> GetByte a 1 = 113)"

definition IsRFC3849 :: "'a CNetAddr_scheme \<Rightarrow> bool" where
  "IsRFC3849 a \<longleftrightarrow> GetByte a 15 = 0x20 \<and> GetByte a 14 = 0x01 \<and> GetByte a 13 = 0x0D \<and> GetByte a 12 = 0xB8"

definition IsRFC3964 :: "'a CNetAddr_scheme \<Rightarrow> bool" where
  "IsRFC3964 a \<longleftrightarrow> GetByte a 15 = 0x20 \<and> GetByte a 14 = 0x02"

definition IsRFC6052 :: "'a CNetAddr_scheme \<Rightarrow> bool" where
  "IsRFC6052 a \<longleftrightarrow> starts_with (ip a) [0, 0x64, 0xFF, 0x9B, 0, 0, 0, 0, 0, 0, 0, 0]"

definition IsRFC4380 :: "'a CNetAddr_scheme \<Rightarrow> bool" where
  "IsRFC4380 a \<longleftrightarrow> GetByte a 15 = 0x20 \<and> GetByte a 14 = 0x01 \<and> GetByte a 13 = 0 \<and> GetByte a 12 = 0"

definition IsRFC4862 :: "'a CNetAddr_scheme \<Rightarrow> bool" where
  "IsRFC4862 a \<longleftrightarrow> starts_with (ip a) [0xFE, 0x80, 0, 0, 0, 0, 0, 0]"

definition IsRFC4193 :: "'a CNetAddr_scheme \<Rightarrow> bool" where
  "IsRFC4193 a \<longleftrightarrow> GetByte a 15 AND 0xFE = 0xFC"

definition IsRFC6145 :: "'a CNetAddr_scheme \<Rightarrow> bool" where
  "IsRFC6145 a \<longleftrightarrow> starts_with (ip a) [0, 0, 0, 0, 0, 0, 0, 0, 0xFF, 0xFF, 0, 0]"

definition IsRFC4843 :: "'a CNetAddr_scheme \<Rightarrow> bool" where
  "IsRFC4843 a \<longleftrightarrow> GetByte a 15 = 0x20 \<and> GetByte a 14 = 0x01 \<and> GetByte a 13 = 0 \<and> GetByte a 12 AND 0xF0 = 0x10"

definition IsLocal :: "'a CNetAddr_scheme \<Rightarrow> bool" where
  "IsLocal a \<longleftrightarrow> IsIPv4 a \<and> (GetByte a 3 = 127 \<or> GetByte a 3 = 0) \<or> starts_with (ip a) [0, 0, 0, 0, 0, 0, 0, 0, 0, 0, 0, 0, 0, 0, 0, 1]"

definition IsMulticast :: "'a CNetAddr_scheme \<Rightarrow> bool" where
  "IsMulticast a \<longleftrightarrow> IsIPv4 a \<and> GetByte a 3 AND 0xF0 = 0xE0 \<or> GetByte a 15 = 0xFF"

definition NetAddr_IsValid :: "'a CNetAddr_scheme \<Rightarrow> bool" where
  "NetAddr_IsValid a =
     (if starts_with (ip a) (drop 3 pchIPv4) then False
      else if starts_with (ip a) (replicate 16 0) then False
      else if IsRFC3849 a then False
      else if IsIPv4 a \<and> (starts_with (drop 12 (ip a)) (replicate 4 0xff) \<or> starts_with (drop 12 (ip a)) (replicate 4 0)) then False
      else True)"

text \<open>\<open>fAllowPrivateNet\<close> is a global option of the node.\<close>

definition IsRoutable :: "bool \<Rightarrow> 'a CNetAddr_scheme \<Rightarrow> bool" where
  "IsRoutable fAllowPrivateNet a =
     (if \<not> NetAddr_IsValid a then False
      else if \<not> fAllowPrivateNet \<and> IsRFC1918 a then False
      else \<not> (IsRFC2544 a \<or> IsRFC3927 a \<or> IsRFC4862 a \<or> IsRFC6598 a \<or> IsRFC5737 a \<or> IsRFC4193 a \<and> \<not> IsTor a \<or> IsRFC4843 a \<or> IsLocal a))"

definition GetNetwork :: "bool \<Rightarrow> 'a CNetAddr_scheme \<Rightarrow> Network" where
  "GetNetwork fAllowPrivateNet a =
     (if \<not> IsRoutable fAllowPrivateNet a then NET_UNROUTABLE
      else if IsIPv4 a then NET_IPV4
      else if IsTor a then NET_TOR
      else NET_IPV6)"

fun network_code :: "Network \<Rightarrow> u8" where
  "network_code NET_UNROUTABLE = 0"
| "network_code NET_IPV4 = 1"
| "network_code NET_IPV6 = 2"
| "network_code NET_TOR = 3"

text \<open>The end of \<open>GetGroup\<close>: whole bytes from \<open>nStartByte\<close> on, then a partial byte filled up with ones.\<close>

function group_bytes :: "'a CNetAddr_scheme \<Rightarrow> nat \<Rightarrow> nat \<Rightarrow> u8 list" where
  "group_bytes a nStartByte nBits =
     (if nBits \<ge> 8 then GetByte a (15 - nStartByte) # group_bytes a (nStartByte + 1) (nBits - 8)
      else if nBits > 0 then [GetByte a (15 - nStartByte) OR (push_bit (8 - nBits) 1 - 1)]
      else [])"
  by pat_completeness auto
termination by (relation "measure (\<lambda>(a, s, n). n)") auto

declare group_bytes.simps [simp del]

definition GetGroup :: "bool \<Rightarrow> 'a CNetAddr_scheme \<Rightarrow> u8 list" where
  "GetGroup fAllowPrivateNet a =
     (if \<not> IsRoutable fAllowPrivateNet a then network_code NET_UNROUTABLE # group_bytes a 0 0
      else if IsIPv4 a \<or> IsRFC6145 a \<or> IsRFC6052 a then network_code NET_IPV4 # group_bytes a 12 (if IsLocal a then 0 else 16)
      else if IsRFC3964 a then network_code NET_IPV4 # group_bytes a 2 (if IsLocal a then 0 else 16)
      else if IsRFC4380 a then [network_code NET_IPV4, GetByte a 3 XOR 0xFF, GetByte a 2 XOR 0xFF]
      else if IsTor a then network_code NET_TOR # group_bytes a 6 4
      else if GetByte a 15 = 0x20 \<and> GetByte a 14 = 0x01 \<and> GetByte a 13 = 0x04 \<and> GetByte a 12 = 0x70
        then (if IsLocal a then 255 else network_code NET_IPV6) # group_bytes a 0 36
      else (if IsLocal a then 255 else network_code NET_IPV6) # group_bytes a 0 32)"

definition NET_UNKNOWN :: nat where "NET_UNKNOWN = 4"
definition NET_TEREDO :: nat where "NET_TEREDO = 5"

definition GetExtNetwork :: "bool \<Rightarrow> 'a CNetAddr_scheme option \<Rightarrow> nat" where
  "GetExtNetwork fAllowPrivateNet addr =
     (case addr of
        None \<Rightarrow> NET_UNKNOWN
      | Some a \<Rightarrow> if IsRFC4380 a then NET_TEREDO else unat (network_code (GetNetwork fAllowPrivateNet a)))"

datatype Reachability = REACH_UNREACHABLE | REACH_DEFAULT | REACH_TEREDO | REACH_IPV6_WEAK | REACH_IPV4 | REACH_IPV6_STRONG | REACH_PRIVATE

definition GetReachabilityFrom :: "bool \<Rightarrow> 'a CNetAddr_scheme \<Rightarrow> 'b CNetAddr_scheme option \<Rightarrow> Reachability" where
  "GetReachabilityFrom priv a paddrPartner =
     (if \<not> IsRoutable priv a then REACH_UNREACHABLE
      else
        (let ourNet = GetExtNetwork priv (Some a);
             theirNet = GetExtNetwork priv paddrPartner;
             fTunnel = IsRFC3964 a \<or> IsRFC6052 a \<or> IsRFC6145 a;
             ipv4 = unat (network_code NET_IPV4); ipv6 = unat (network_code NET_IPV6); tor = unat (network_code NET_TOR)
         in if theirNet = ipv4 then (if ourNet = ipv4 then REACH_IPV4 else REACH_DEFAULT)
            else if theirNet = ipv6 then
              (if ourNet = NET_TEREDO then REACH_TEREDO else if ourNet = ipv4 then REACH_IPV4
               else if ourNet = ipv6 then (if fTunnel then REACH_IPV6_WEAK else REACH_IPV6_STRONG) else REACH_DEFAULT)
            else if theirNet = tor then
              (if ourNet = ipv4 then REACH_IPV4 else if ourNet = tor then REACH_PRIVATE else REACH_DEFAULT)
            else if theirNet = NET_TEREDO then
              (if ourNet = NET_TEREDO then REACH_TEREDO else if ourNet = ipv6 then REACH_IPV6_WEAK
               else if ourNet = ipv4 then REACH_IPV4 else REACH_DEFAULT)
            else
              (if ourNet = NET_TEREDO then REACH_TEREDO else if ourNet = ipv6 then REACH_IPV6_WEAK
               else if ourNet = ipv4 then REACH_IPV4 else if ourNet = tor then REACH_PRIVATE else REACH_DEFAULT)))"

definition NetAddr_eq :: "'a CNetAddr_scheme \<Rightarrow> 'b CNetAddr_scheme \<Rightarrow> bool" where
  "NetAddr_eq a b \<longleftrightarrow> ip a = ip b"

section \<open>Services\<close>

record CService = CNetAddr +
  sv_port :: u16

definition Service_eq :: "'a CService_scheme \<Rightarrow> 'b CService_scheme \<Rightarrow> bool" where
  "Service_eq a b \<longleftrightarrow> NetAddr_eq a b \<and> sv_port a = sv_port b"

text \<open>\<^verbatim>\<open>operator<\<close> orders services by address and port, so these are the key of a service in a map.\<close>

type_synonym service_key = "u8 list \<times> u16"

definition service_key :: "'a CService_scheme \<Rightarrow> service_key" where
  "service_key a = (ip a, sv_port a)"

definition SetPort :: "u16 \<Rightarrow> 'a CService_scheme \<Rightarrow> 'a CService_scheme" where
  "SetPort portIn a = a \<lparr> sv_port := portIn \<rparr>"

definition Service_GetKey :: "'a CService_scheme \<Rightarrow> u8 list" where
  "Service_GetKey a = take 16 (ip a) @ [ucast (sv_port a div 0x100), ucast (sv_port a AND 0x0FF)]"

lemma Service_eq_key: "Service_eq a b \<longleftrightarrow> service_key a = service_key b"
  by (simp add: Service_eq_def NetAddr_eq_def service_key_def)

section \<open>Subnets\<close>

record CSubNet =
  network :: CNetAddr
  netmask :: "u8 list"
  sn_valid :: bool

definition mask_network :: "CNetAddr \<Rightarrow> u8 list \<Rightarrow> CNetAddr" where
  "mask_network a msk = a \<lparr> ip := map2 (AND) (ip a) msk \<rparr>"

text \<open>Clearing the bits of the mask from bit \<open>n\<close> to bit 127, the first bit of a byte being its highest one.\<close>

function clear_bits :: "nat \<Rightarrow> u8 list \<Rightarrow> u8 list" where
  "clear_bits n msk =
     (if n < 128 then clear_bits (n + 1) (msk[n div 8 := msk ! (n div 8) AND NOT (push_bit (7 - n mod 8) 1)]) else msk)"
  by pat_completeness auto
termination by (relation "measure (\<lambda>(n, msk). 128 - n)") auto

declare clear_bits.simps [simp del]

definition CSubNet_bits :: "CNetAddr \<Rightarrow> int \<Rightarrow> CSubNet" where
  "CSubNet_bits addr msk =
     (let astartofs = (if IsIPv4 addr then 12 else 0);
          netmask0 = replicate 16 255;
          ok = msk \<ge> 0 \<and> msk \<le> 128 - astartofs * 8;
          m = (if ok then clear_bits (nat (msk + astartofs * 8)) netmask0 else netmask0)
      in \<lparr> network = mask_network addr m, netmask = m, sn_valid = ok \<rparr>)"

definition CSubNet_mask :: "CNetAddr \<Rightarrow> CNetAddr \<Rightarrow> CSubNet" where
  "CSubNet_mask addr msk =
     (let astartofs = (if IsIPv4 addr then 12 else 0);
          m = replicate astartofs 255 @ drop astartofs (ip msk)
      in \<lparr> network = mask_network addr m, netmask = m, sn_valid = True \<rparr>)"

definition CSubNet_single :: "CNetAddr \<Rightarrow> CSubNet" where
  "CSubNet_single addr = \<lparr> network = addr, netmask = replicate 16 255, sn_valid = NetAddr_IsValid addr \<rparr>"

fun match_loop :: "u8 list \<Rightarrow> u8 list \<Rightarrow> u8 list \<Rightarrow> bool" where
  "match_loop (a # as) (m # ms) (n # ns) = (if a AND m \<noteq> n then False else match_loop as ms ns)"
| "match_loop _ _ _ = True"

definition SubNet_Match :: "CSubNet \<Rightarrow> 'a CNetAddr_scheme \<Rightarrow> bool" where
  "SubNet_Match s addr =
     (if \<not> sn_valid s \<or> \<not> NetAddr_IsValid addr then False else match_loop (ip addr) (netmask s) (ip (network s)))"

text \<open>The number of leading ones of a byte that is a sequence of ones followed by zeros.\<close>

definition NetmaskBits :: "u8 \<Rightarrow> int" where
  "NetmaskBits x =
     (if x = 0x00 then 0 else if x = 0x80 then 1 else if x = 0xc0 then 2 else if x = 0xe0 then 3 else if x = 0xf0 then 4
      else if x = 0xf8 then 5 else if x = 0xfc then 6 else if x = 0xfe then 7 else if x = 0xff then 8 else -1)"

text \<open>The search of \<open>CSubNet::ToString\<close> for a number of bits that describes the mask.\<close>

fun leading_ones :: "u8 list \<Rightarrow> int \<Rightarrow> int \<times> u8 list" where
  "leading_ones [] cidr = (cidr, [])"
| "leading_ones (m # ms) cidr = (if m = 0xff then leading_ones ms (cidr + 8) else (cidr, m # ms))"

definition SubNet_cidr :: "CSubNet \<Rightarrow> int option" where
  "SubNet_cidr s =
     (case leading_ones (drop (if IsIPv4 (network s) then 12 else 0) (netmask s)) 0 of
        (cidr, []) \<Rightarrow> Some cidr
      | (cidr, m # ms) \<Rightarrow>
          (let bits = NetmaskBits m
           in if bits < 0 then None else if list_all (\<lambda>x. x = 0) ms then Some (cidr + bits) else None))"

definition SubNet_eq :: "CSubNet \<Rightarrow> CSubNet \<Rightarrow> bool" where
  "SubNet_eq a b \<longleftrightarrow> sn_valid a = sn_valid b \<and> NetAddr_eq (network a) (network b) \<and> netmask a = netmask b"

section \<open>Subnets match by leading bits\<close>

definition addr_bit :: "u8 list \<Rightarrow> nat \<Rightarrow> bool" where
  "addr_bit bs k = bit (bs ! (k div 8)) (7 - k mod 8)"

lemma addr_bit_update:
  assumes "n < 8 * length bs"
  shows "addr_bit (bs[n div 8 := bs ! (n div 8) AND NOT (push_bit (7 - n mod 8) 1)]) k \<longleftrightarrow> addr_bit bs k \<and> k \<noteq> n"
proof (cases "k div 8 = n div 8")
  case True
  have "n div 8 < length bs" using assms by (simp add: less_mult_imp_div_less)
  moreover have "7 - k mod 8 = 7 - n mod 8 \<longleftrightarrow> k = n"
  proof
    assume e: "7 - k mod 8 = 7 - n mod 8"
    have "k mod 8 < 8" "n mod 8 < 8" by simp_all
    with e have "k mod 8 = n mod 8" by linarith
    with True show "k = n" by (metis div_mult_mod_eq)
  qed simp
  ultimately show ?thesis using True by (auto simp: addr_bit_def bit_and_iff bit_not_iff bit_exp_iff)
next
  case False
  then show ?thesis by (auto simp: addr_bit_def)
qed

lemma clear_bits_ok: "length m = 16 \<Longrightarrow> k < 128 \<Longrightarrow> addr_bit (clear_bits n m) k \<longleftrightarrow> addr_bit m k \<and> k < n"
proof (induction n m rule: clear_bits.induct)
  case (1 n m)
  show ?case
  proof (cases "n < 128")
    case True
    let ?m = "m[n div 8 := m ! (n div 8) AND NOT (push_bit (7 - n mod 8) 1)]"
    have "addr_bit (clear_bits (n + 1) ?m) k \<longleftrightarrow> addr_bit ?m k \<and> k < n + 1" using 1 True by simp
    then show ?thesis using True addr_bit_update [of n m k] 1(2) by (auto simp: clear_bits.simps [of n])
  next
    case False
    then show ?thesis using 1(3) by (simp add: clear_bits.simps [of n])
  qed
qed

lemma length_clear_bits: "length (clear_bits n m) = length m"
  by (induction n m rule: clear_bits.induct) (subst clear_bits.simps, simp)

lemma match_loop_nth:
  "length as = length ms \<Longrightarrow> length ms = length ns \<Longrightarrow> match_loop as ms ns \<longleftrightarrow> (\<forall>x < length ms. as ! x AND ms ! x = ns ! x)"
  by (induction as ms ns rule: match_loop.induct) (auto simp: less_Suc_eq_0_disj)

lemma byte_eq_bits: "(a :: u8) = b \<longleftrightarrow> (\<forall>j < 8. bit a (7 - j) = bit b (7 - j))"
proof
  assume r: "\<forall>j < 8. bit a (7 - j) = bit b (7 - j)"
  show "a = b"
  proof (rule bit_word_eqI)
    fix n :: nat
    assume "n < LENGTH(8)"
    then show "bit a n = bit b n" using r [rule_format, of "7 - n"] by simp
  qed
qed simp

lemma bytes_eq_bits:
  assumes "length xs = n" "length ys = n"
  shows "(\<forall>x < n. xs ! x = ys ! x) \<longleftrightarrow> (\<forall>k < 8 * n. addr_bit xs k = addr_bit ys k)"
proof
  assume r: "\<forall>k < 8 * n. addr_bit xs k = addr_bit ys k"
  show "\<forall>x < n. xs ! x = ys ! x"
  proof (intro allI impI)
    fix x assume x: "x < n"
    have "bit (xs ! x) (7 - j) = bit (ys ! x) (7 - j)" if "j < 8" for j
      using r [rule_format, of "8 * x + j"] x that by (simp add: addr_bit_def)
    then show "xs ! x = ys ! x" by (simp add: byte_eq_bits)
  qed
next
  assume "\<forall>x < n. xs ! x = ys ! x"
  then show "\<forall>k < 8 * n. addr_bit xs k = addr_bit ys k" by (simp add: addr_bit_def less_mult_imp_div_less)
qed

lemma addr_bit_and: "length xs = length ys \<Longrightarrow> k < 8 * length ys \<Longrightarrow> addr_bit (map2 (AND) xs ys) k \<longleftrightarrow> addr_bit xs k \<and> addr_bit ys k"
  by (simp add: addr_bit_def bit_and_iff)

lemma match_masked:
  assumes "length as = 16" "length ms = 16" "length ns = 16"
  shows "match_loop as ms (map2 (AND) ns ms) \<longleftrightarrow> (\<forall>k < 128. addr_bit ms k \<longrightarrow> addr_bit as k = addr_bit ns k)"
proof -
  have "match_loop as ms (map2 (AND) ns ms) \<longleftrightarrow> (\<forall>x < 16. map2 (AND) as ms ! x = map2 (AND) ns ms ! x)"
    using assms by (subst match_loop_nth) auto
  also have "\<dots> \<longleftrightarrow> (\<forall>k < 8 * 16. addr_bit (map2 (AND) as ms) k = addr_bit (map2 (AND) ns ms) k)"
    by (rule bytes_eq_bits) (use assms in auto)
  also have "\<dots> \<longleftrightarrow> (\<forall>k < 128. addr_bit ms k \<longrightarrow> addr_bit as k = addr_bit ns k)" using assms by (auto simp: addr_bit_and)
  finally show ?thesis .
qed

lemma addr_bit_ones: "k < 128 \<Longrightarrow> addr_bit (replicate 16 255) k"
proof -
  assume "k < 128"
  then have "replicate 16 (255 :: u8) ! (k div 8) = mask 8" by (simp add: mask_eq_exp_minus_1 less_mult_imp_div_less)
  then show ?thesis by (simp add: addr_bit_def bit_mask_iff)
qed

text \<open>
  \<open>CSubNet::CSubNet\<close> and \<open>CSubNet::Match\<close> (\<^verbatim>\<open>netaddress.cpp\<close>): a subnet given by an address and a number of bits is valid exactly
  for 0 to 32 bits on an IPv4 address and 0 to 128 bits on any other, and it then matches exactly the valid addresses that share
  these leading bits with it, counted after the 96 bits of the prefix for IPv4.
\<close>

theorem CSubNet_bits_Match:
  assumes "length (ip net) = 16" "length (ip a) = 16"
  shows "SubNet_Match (CSubNet_bits net bits) a \<longleftrightarrow> NetAddr_IsValid a \<and> 0 \<le> bits \<and> bits \<le> (if IsIPv4 net then 32 else 128) \<and>
    (\<forall>k < nat bits + (if IsIPv4 net then 96 else 0). addr_bit (ip a) k = addr_bit (ip net) k)"
proof -
  let ?ofs = "if IsIPv4 net then 12 else 0 :: int" and ?n = "nat bits + (if IsIPv4 net then 96 else 0)"
  show ?thesis
  proof (cases "0 \<le> bits \<and> bits \<le> 128 - ?ofs * 8")
    case True
    define m where "m = clear_bits ?n (replicate 16 255)"
    have n: "nat (bits + ?ofs * 8) = ?n" "?n \<le> 128" using True by (auto split: if_splits)
    have l: "length m = 16" by (simp add: m_def length_clear_bits)
    have m: "addr_bit m k \<longleftrightarrow> k < ?n" if "k < 128" for k
      using that clear_bits_ok [of "replicate 16 255" k ?n] addr_bit_ones by (auto simp: m_def)
    have "SubNet_Match (CSubNet_bits net bits) a \<longleftrightarrow> NetAddr_IsValid a \<and> match_loop (ip a) m (map2 (AND) (ip net) m)"
      using True n(1) by (simp add: SubNet_Match_def CSubNet_bits_def Let_def mask_network_def m_def)
    also have "\<dots> \<longleftrightarrow> NetAddr_IsValid a \<and> (\<forall>k < 128. k < ?n \<longrightarrow> addr_bit (ip a) k = addr_bit (ip net) k)"
      using match_masked [OF assms(2) l assms(1)] m by auto
    finally show ?thesis using True n(2) by (auto split: if_splits)
  next
    case False
    then show ?thesis by (auto simp: SubNet_Match_def CSubNet_bits_def Let_def split: if_splits)
  qed
qed

theorem CSubNet_bits_Match_witness:
  "SubNet_Match (CSubNet_bits (SetRaw_IPv4 [10, 1, 2, 3] CNetAddr_new) 8) (SetRaw_IPv4 [10, 200, 0, 1] CNetAddr_new) \<longleftrightarrow>
    (\<forall>k < 104. addr_bit (pchIPv4 @ [10, 200, 0, 1]) k = addr_bit (pchIPv4 @ [10, 1, 2, 3]) k)"
proof -
  let ?a = "SetRaw_IPv4 [10, 200, 0, 1] CNetAddr_new" and ?net = "SetRaw_IPv4 [10, 1, 2, 3] CNetAddr_new"
  have "NetAddr_IsValid ?a" "IsIPv4 ?net" by code_simp+
  moreover have "length (ip ?a) = 16" "length (ip ?net) = 16" by (simp_all add: SetRaw_IPv4_def pchIPv4_def)
  ultimately show ?thesis using CSubNet_bits_Match [of ?net ?a 8] by (simp add: SetRaw_IPv4_def)
qed

end
