(* ===== verification/Addr_Man.thy ===== *)
theory Addr_Man
  imports Net_Address Transaction "HOL-Library.AList"
begin

text \<open>
  The address manager (\<^verbatim>\<open>addrman.h\<close>, \<^verbatim>\<open>addrman.cpp\<close>, \<^verbatim>\<open>protocol.h\<close>): a store of known addresses by number, an index by network address,
  a vector of all numbers for random choice, and two tables of buckets, for addresses that have only been heard of and for addresses that
  have been tried. The double hash \<open>HW\<close> that \<^verbatim>\<open>CHashWriter\<close> computes, the adjusted time and the random numbers are arguments.
  Numbers of entries are unbounded; the source gives up only after creating 2 to the 31 of them. The random choice of an
  address to connect to, which uses floating-point chances and changes nothing, is left out, and so is the file format.
\<close>

section \<open>Entries\<close>

record CAddress = CService +
  nServices :: u64
  ad_nTime :: u32

record CAddrInfo = CAddress +
  nLastTry :: int
  nLastCountAttempt :: int
  ai_source :: CNetAddr
  nLastSuccess :: int
  nAttempts :: int
  nRefCount :: int
  fInTried :: bool
  nRandomPos :: int

definition CAddress_new :: CAddress where
  "CAddress_new = \<lparr> ip = replicate 16 0, scopeId = 0, sv_port = 0, nServices = 0, ad_nTime = 100000000 \<rparr>"

definition CAddrInfo_make :: "CAddress \<Rightarrow> CNetAddr \<Rightarrow> CAddrInfo" where
  "CAddrInfo_make addrIn addrSource =
     \<lparr> ip = ip addrIn, scopeId = scopeId addrIn, sv_port = sv_port addrIn, nServices = nServices addrIn, ad_nTime = ad_nTime addrIn,
       nLastTry = 0, nLastCountAttempt = 0, ai_source = addrSource, nLastSuccess = 0, nAttempts = 0, nRefCount = 0, fInTried = False,
       nRandomPos = -1 \<rparr>"

definition CAddrInfo_new :: CAddrInfo where
  "CAddrInfo_new = CAddrInfo_make CAddress_new CNetAddr_new"

definition ADDRMAN_TRIED_BUCKET_COUNT :: nat where "ADDRMAN_TRIED_BUCKET_COUNT = 256"
definition ADDRMAN_NEW_BUCKET_COUNT :: nat where "ADDRMAN_NEW_BUCKET_COUNT = 1024"
definition ADDRMAN_BUCKET_SIZE :: nat where "ADDRMAN_BUCKET_SIZE = 64"
definition ADDRMAN_TRIED_BUCKETS_PER_GROUP :: u64 where "ADDRMAN_TRIED_BUCKETS_PER_GROUP = 8"
definition ADDRMAN_NEW_BUCKETS_PER_SOURCE_GROUP :: u64 where "ADDRMAN_NEW_BUCKETS_PER_SOURCE_GROUP = 64"
definition ADDRMAN_NEW_BUCKETS_PER_ADDRESS :: int where "ADDRMAN_NEW_BUCKETS_PER_ADDRESS = 8"
definition ADDRMAN_HORIZON_DAYS :: int where "ADDRMAN_HORIZON_DAYS = 30"
definition ADDRMAN_RETRIES :: int where "ADDRMAN_RETRIES = 3"
definition ADDRMAN_MAX_FAILURES :: int where "ADDRMAN_MAX_FAILURES = 10"
definition ADDRMAN_MIN_FAIL_DAYS :: int where "ADDRMAN_MIN_FAIL_DAYS = 7"
definition ADDRMAN_GETADDR_MAX_PCT :: nat where "ADDRMAN_GETADDR_MAX_PCT = 23"
definition ADDRMAN_GETADDR_MAX :: nat where "ADDRMAN_GETADDR_MAX = 2500"

text \<open>\<^verbatim>\<open>uint256::GetCheapHash\<close> reads the first eight bytes.\<close>

definition GetCheapHash :: "uint256 \<Rightarrow> u64" where
  "GetCheapHash h = ucast h"

type_synonym hash_writer = "u8 list \<Rightarrow> uint256"

definition GetTriedBucket :: "hash_writer \<Rightarrow> bool \<Rightarrow> uint256 \<Rightarrow> 'a CService_scheme \<Rightarrow> nat" where
  "GetTriedBucket HW priv nKey a =
     (let hash1 = GetCheapHash (HW (Serialize_uint256 nKey @ Serialize_bytes (Service_GetKey a)));
          hash2 = GetCheapHash (HW (Serialize_uint256 nKey @ Serialize_bytes (GetGroup priv a) @
                    ser_writedata64 (hash1 mod ADDRMAN_TRIED_BUCKETS_PER_GROUP)))
      in unat hash2 mod ADDRMAN_TRIED_BUCKET_COUNT)"

definition GetNewBucket :: "hash_writer \<Rightarrow> bool \<Rightarrow> uint256 \<Rightarrow> 'a CService_scheme \<Rightarrow> 'b CNetAddr_scheme \<Rightarrow> nat" where
  "GetNewBucket HW priv nKey a src =
     (let vchSourceGroupKey = GetGroup priv src;
          hash1 = GetCheapHash (HW (Serialize_uint256 nKey @ Serialize_bytes (GetGroup priv a) @ Serialize_bytes vchSourceGroupKey));
          hash2 = GetCheapHash (HW (Serialize_uint256 nKey @ Serialize_bytes vchSourceGroupKey @
                    ser_writedata64 (hash1 mod ADDRMAN_NEW_BUCKETS_PER_SOURCE_GROUP)))
      in unat hash2 mod ADDRMAN_NEW_BUCKET_COUNT)"

definition GetBucketPosition :: "hash_writer \<Rightarrow> uint256 \<Rightarrow> bool \<Rightarrow> nat \<Rightarrow> 'a CService_scheme \<Rightarrow> nat" where
  "GetBucketPosition HW nKey fNew nBucket a =
     (let hash1 = GetCheapHash (HW (Serialize_uint256 nKey @ ser_writedata8 (if fNew then 78 else 75) @
                    ser_writedata32 (of_nat nBucket) @ Serialize_bytes (Service_GetKey a)))
      in unat hash1 mod ADDRMAN_BUCKET_SIZE)"

definition IsTerrible :: "int \<Rightarrow> CAddrInfo \<Rightarrow> bool" where
  "IsTerrible nNow info =
     (if nLastTry info \<noteq> 0 \<and> nLastTry info \<ge> nNow - 60 then False
      else if uint (ad_nTime info) > nNow + 10 * 60 then True
      else if ad_nTime info = 0 \<or> nNow - uint (ad_nTime info) > ADDRMAN_HORIZON_DAYS * 24 * 60 * 60 then True
      else if nLastSuccess info = 0 \<and> nAttempts info \<ge> ADDRMAN_RETRIES then True
      else if nNow - nLastSuccess info > ADDRMAN_MIN_FAIL_DAYS * 24 * 60 * 60 \<and> nAttempts info \<ge> ADDRMAN_MAX_FAILURES then True
      else False)"

section \<open>The tables\<close>

datatype addrman_error = AddrManAssert

definition and_then :: "'e + 'a \<Rightarrow> ('a \<Rightarrow> 'e + 'b) \<Rightarrow> 'e + 'b" where
  "and_then m f = (case m of Inl e \<Rightarrow> Inl e | Inr x \<Rightarrow> f x)"

lemma and_then_simps [simp]: "and_then (Inl e) f = Inl e" "and_then (Inr x) f = f x"
  by (simp_all add: and_then_def)

record CAddrMan =
  nIdCount :: int
  mapInfo :: "int \<rightharpoonup> CAddrInfo"
  mapAddr :: "service_key \<rightharpoonup> int"
  vRandom :: "int list"
  nTried :: int
  vvTried :: "nat \<Rightarrow> nat \<Rightarrow> int"
  nNew :: int
  vvNew :: "nat \<Rightarrow> nat \<Rightarrow> int"
  nLastGood :: int
  discriminatePorts :: bool
  am_nKey :: uint256

text \<open>The key of \<open>mapAddr\<close> for an address.\<close>

definition addr_key :: "bool \<Rightarrow> 'a CService_scheme \<Rightarrow> service_key" where
  "addr_key discriminate addr = service_key (if \<not> discriminate then SetPort 0 addr else addr)"

text \<open>\<open>mapInfo[n]\<close> makes an entry when there is none.\<close>

definition info_at :: "CAddrMan \<Rightarrow> int \<Rightarrow> CAddrInfo" where
  "info_at s n = (case mapInfo s n of None \<Rightarrow> CAddrInfo_new | Some i \<Rightarrow> i)"

definition put_info :: "int \<Rightarrow> CAddrInfo \<Rightarrow> CAddrMan \<Rightarrow> CAddrMan" where
  "put_info n i s = s \<lparr> mapInfo := (mapInfo s)(n \<mapsto> i) \<rparr>"

definition set_new :: "nat \<Rightarrow> nat \<Rightarrow> int \<Rightarrow> CAddrMan \<Rightarrow> CAddrMan" where
  "set_new b p v s = s \<lparr> vvNew := (vvNew s)(b := (vvNew s b)(p := v)) \<rparr>"

definition set_tried :: "nat \<Rightarrow> nat \<Rightarrow> int \<Rightarrow> CAddrMan \<Rightarrow> CAddrMan" where
  "set_tried b p v s = s \<lparr> vvTried := (vvTried s)(b := (vvTried s b)(p := v)) \<rparr>"

definition to_unsigned :: "int \<Rightarrow> nat" where
  "to_unsigned x = nat (x mod 2 ^ 32)"

definition Find :: "CAddrMan \<Rightarrow> 'a CService_scheme \<Rightarrow> (int \<times> CAddrInfo) option" where
  "Find s addr =
     (case mapAddr s (addr_key (discriminatePorts s) addr) of
        None \<Rightarrow> None
      | Some n \<Rightarrow> (case mapInfo s n of None \<Rightarrow> None | Some i \<Rightarrow> Some (n, i)))"

definition Create :: "CAddress \<Rightarrow> CNetAddr \<Rightarrow> CAddrMan \<Rightarrow> int \<times> CAddrMan" where
  "Create addr addrSource s =
     (let nId = nIdCount s;
          s = s \<lparr> nIdCount := nId + 1 \<rparr>;
          s = put_info nId (CAddrInfo_make addr addrSource) s;
          s = s \<lparr> mapAddr := (mapAddr s)(addr_key (discriminatePorts s) addr \<mapsto> nId) \<rparr>;
          s = put_info nId ((info_at s nId) \<lparr> nRandomPos := int (length (vRandom s)) \<rparr>) s;
          s = s \<lparr> vRandom := vRandom s @ [nId] \<rparr>
      in (nId, s))"

definition SwapRandom :: "nat \<Rightarrow> nat \<Rightarrow> CAddrMan \<Rightarrow> addrman_error + CAddrMan" where
  "SwapRandom nRndPos1 nRndPos2 s =
     (if nRndPos1 = nRndPos2 then Inr s
      else if \<not> (nRndPos1 < length (vRandom s) \<and> nRndPos2 < length (vRandom s)) then Inl AddrManAssert
      else
        (let nId1 = vRandom s ! nRndPos1; nId2 = vRandom s ! nRndPos2
         in if mapInfo s nId1 = None \<or> mapInfo s nId2 = None then Inl AddrManAssert
            else
              (let s = put_info nId1 ((info_at s nId1) \<lparr> nRandomPos := int nRndPos2 \<rparr>) s;
                   s = put_info nId2 ((info_at s nId2) \<lparr> nRandomPos := int nRndPos1 \<rparr>) s
               in Inr (s \<lparr> vRandom := (vRandom s)[nRndPos1 := nId2, nRndPos2 := nId1] \<rparr>))))"

lemma length_SwapRandom: "SwapRandom a b s = Inr s' \<Longrightarrow> length (vRandom s') = length (vRandom s)"
  by (auto simp: SwapRandom_def put_info_def Let_def split: if_splits)

definition Delete :: "int \<Rightarrow> CAddrMan \<Rightarrow> addrman_error + CAddrMan" where
  "Delete nId s =
     (case mapInfo s nId of
        None \<Rightarrow> Inl AddrManAssert
      | Some info \<Rightarrow>
          if fInTried info then Inl AddrManAssert
          else if nRefCount info \<noteq> 0 then Inl AddrManAssert
          else and_then (SwapRandom (to_unsigned (nRandomPos info)) (to_unsigned (int (length (vRandom s)) - 1)) s) (\<lambda>s.
                 Inr (s \<lparr> vRandom := butlast (vRandom s),
                          mapAddr := (mapAddr s)(addr_key (discriminatePorts s) info := None),
                          mapInfo := (mapInfo s)(nId := None),
                          nNew := nNew s - 1 \<rparr>)))"

definition ClearNew :: "nat \<Rightarrow> nat \<Rightarrow> CAddrMan \<Rightarrow> addrman_error + CAddrMan" where
  "ClearNew nUBucket nUBucketPos s =
     (if vvNew s nUBucket nUBucketPos \<noteq> -1 then
        (let nIdDelete = vvNew s nUBucket nUBucketPos;
             infoDelete = info_at s nIdDelete
         in if \<not> nRefCount infoDelete > 0 then Inl AddrManAssert
            else
              (let s = put_info nIdDelete (infoDelete \<lparr> nRefCount := nRefCount infoDelete - 1 \<rparr>) s;
                   s = set_new nUBucket nUBucketPos (-1) s
               in if nRefCount infoDelete - 1 = 0 then Delete nIdDelete s else Inr s))
      else Inr s)"

text \<open>The loop of \<open>MakeTried\<close> over the buckets.\<close>

fun remove_from_new :: "hash_writer \<Rightarrow> int \<Rightarrow> nat list \<Rightarrow> CAddrMan \<Rightarrow> CAddrMan" where
  "remove_from_new HW nId [] s = s"
| "remove_from_new HW nId (bucket # buckets) s =
     (let info = info_at s nId;
          p = GetBucketPosition HW (am_nKey s) True bucket info
      in if vvNew s bucket p = nId
         then remove_from_new HW nId buckets (put_info nId (info \<lparr> nRefCount := nRefCount info - 1 \<rparr>) (set_new bucket p (-1) s))
         else remove_from_new HW nId buckets s)"

text \<open>Moving the entry of a tried bucket back to the new ones.\<close>

definition evict_tried :: "hash_writer \<Rightarrow> bool \<Rightarrow> nat \<Rightarrow> nat \<Rightarrow> CAddrMan \<Rightarrow> addrman_error + CAddrMan" where
  "evict_tried HW priv nKBucket nKBucketPos s =
     (if vvTried s nKBucket nKBucketPos \<noteq> -1 then
        (let nIdEvict = vvTried s nKBucket nKBucketPos
         in if mapInfo s nIdEvict = None then Inl AddrManAssert
            else
              (let s = put_info nIdEvict ((info_at s nIdEvict) \<lparr> fInTried := False \<rparr>) s;
                   s = set_tried nKBucket nKBucketPos (-1) s;
                   s = s \<lparr> nTried := nTried s - 1 \<rparr>;
                   infoOld = info_at s nIdEvict;
                   nUBucket = GetNewBucket HW priv (am_nKey s) infoOld (ai_source infoOld);
                   nUBucketPos = GetBucketPosition HW (am_nKey s) True nUBucket infoOld
               in and_then (ClearNew nUBucket nUBucketPos s) (\<lambda>s.
                    if vvNew s nUBucket nUBucketPos \<noteq> -1 then Inl AddrManAssert
                    else
                      (let s = put_info nIdEvict ((info_at s nIdEvict) \<lparr> nRefCount := 1 \<rparr>) s;
                           s = set_new nUBucket nUBucketPos nIdEvict s
                       in Inr (s \<lparr> nNew := nNew s + 1 \<rparr>)))))
      else Inr s)"

definition MakeTried :: "hash_writer \<Rightarrow> bool \<Rightarrow> int \<Rightarrow> CAddrMan \<Rightarrow> addrman_error + CAddrMan" where
  "MakeTried HW priv nId s =
     (let s = remove_from_new HW nId [0..<ADDRMAN_NEW_BUCKET_COUNT] s;
          s = s \<lparr> nNew := nNew s - 1 \<rparr>
      in if nRefCount (info_at s nId) \<noteq> 0 then Inl AddrManAssert
         else
           (let nKBucket = GetTriedBucket HW priv (am_nKey s) (info_at s nId);
                nKBucketPos = GetBucketPosition HW (am_nKey s) False nKBucket (info_at s nId)
            in and_then (evict_tried HW priv nKBucket nKBucketPos s) (\<lambda>s.
                 if vvTried s nKBucket nKBucketPos \<noteq> -1 then Inl AddrManAssert
                 else
                   (let s = set_tried nKBucket nKBucketPos nId s;
                        s = s \<lparr> nTried := nTried s + 1 \<rparr>
                    in Inr (put_info nId ((info_at s nId) \<lparr> fInTried := True \<rparr>) s)))))"

section \<open>Operations\<close>

text \<open>The search for a bucket that holds the entry, from a random one on.\<close>

fun find_bucket :: "hash_writer \<Rightarrow> CAddrMan \<Rightarrow> int \<Rightarrow> nat \<Rightarrow> nat list \<Rightarrow> nat option" where
  "find_bucket HW s nId nRnd [] = None"
| "find_bucket HW s nId nRnd (n # ns) =
     (let nB = (n + nRnd) mod ADDRMAN_NEW_BUCKET_COUNT
      in if vvNew s nB (GetBucketPosition HW (am_nKey s) True nB (info_at s nId)) = nId then Some nB
         else find_bucket HW s nId nRnd ns)"

definition am_Good :: "hash_writer \<Rightarrow> bool \<Rightarrow> nat \<Rightarrow> CService \<Rightarrow> int \<Rightarrow> CAddrMan \<Rightarrow> addrman_error + CAddrMan" where
  "am_Good HW priv nRnd addr time s =
     (let s = s \<lparr> nLastGood := time \<rparr>
      in case Find s addr of
           None \<Rightarrow> Inr s
         | Some (nId, info) \<Rightarrow>
             if \<not> Service_eq info addr then Inr s
             else
               (let info = info \<lparr> nLastSuccess := time, nLastTry := time, nAttempts := 0 \<rparr>;
                    s = put_info nId info s
                in if fInTried info then Inr s
                   else case find_bucket HW s nId nRnd [0..<ADDRMAN_NEW_BUCKET_COUNT] of
                          None \<Rightarrow> Inr s
                        | Some _ \<Rightarrow> MakeTried HW priv nId s))"

text \<open>The conversion of a 64-bit time to \<^verbatim>\<open>unsigned int\<close>.\<close>

definition late_time :: "int \<Rightarrow> u32" where
  "late_time t = word_of_int (max 0 t)"

text \<open>What \<open>am_Add\<close> does to a known entry before it looks for a place: whether it goes on, and the state.\<close>

definition refresh_entry :: "int \<Rightarrow> (int \<Rightarrow> int) \<Rightarrow> CAddress \<Rightarrow> int \<Rightarrow> int \<Rightarrow> CAddrMan \<Rightarrow> bool \<times> CAddrMan" where
  "refresh_entry now RandomInt addr nTimePenalty nId s =
     (let fCurrentlyOnline = now - uint (ad_nTime addr) < 24 * 60 * 60;
          nUpdateInterval = (if fCurrentlyOnline then 60 * 60 else 24 * 60 * 60);
          info = info_at s nId;
          info = (if ad_nTime addr \<noteq> 0 \<and> (ad_nTime info = 0 \<or> uint (ad_nTime info) < uint (ad_nTime addr) - nUpdateInterval - nTimePenalty)
                  then info \<lparr> ad_nTime := late_time (uint (ad_nTime addr) - nTimePenalty) \<rparr> else info);
          info = info \<lparr> nServices := or (nServices info) (nServices addr) \<rparr>;
          s = put_info nId info s
      in if ad_nTime addr = 0 \<or> ad_nTime info \<noteq> 0 \<and> ad_nTime addr \<le> ad_nTime info then (False, s)
         else if fInTried info then (False, s)
         else if nRefCount info = ADDRMAN_NEW_BUCKETS_PER_ADDRESS then (False, s)
         else
           (let nFactor = 2 ^ nat (nRefCount info)
            in if nFactor > 1 \<and> RandomInt nFactor \<noteq> 0 then (False, s) else (True, s)))"

text \<open>The end of \<open>am_Add\<close>: the entry is put into its bucket, when there is room or when the entry there is worse.\<close>

definition place_entry :: "hash_writer \<Rightarrow> bool \<Rightarrow> int \<Rightarrow> CNetAddr \<Rightarrow> int \<Rightarrow> CAddrMan \<Rightarrow> addrman_error + CAddrMan" where
  "place_entry HW priv now src nId s =
     (let nUBucket = GetNewBucket HW priv (am_nKey s) (info_at s nId) src;
          nUBucketPos = GetBucketPosition HW (am_nKey s) True nUBucket (info_at s nId)
      in if vvNew s nUBucket nUBucketPos \<noteq> nId then
           (let existing = vvNew s nUBucket nUBucketPos;
                fInsert = existing = -1;
                s = (if \<not> fInsert then put_info existing (info_at s existing) s else s);
                fInsert = (fInsert \<or> IsTerrible now (info_at s existing) \<or> nRefCount (info_at s existing) > 1 \<and> nRefCount (info_at s nId) = 0)
            in if fInsert then
                 and_then (ClearNew nUBucket nUBucketPos s) (\<lambda>s.
                   Inr (set_new nUBucket nUBucketPos nId
                          (put_info nId ((info_at s nId) \<lparr> nRefCount := nRefCount (info_at s nId) + 1 \<rparr>) s)))
               else if nRefCount (info_at s nId) = 0 then Delete nId s else Inr s)
         else Inr s)"

definition am_Add ::
    "hash_writer \<Rightarrow> bool \<Rightarrow> int \<Rightarrow> (int \<Rightarrow> int) \<Rightarrow> CAddress \<Rightarrow> CNetAddr \<Rightarrow> int \<Rightarrow> CAddrMan \<Rightarrow> addrman_error + bool \<times> CAddrMan" where
  "am_Add HW priv now RandomInt addr src nTimePenalty s =
     (if \<not> IsRoutable priv addr then Inr (False, s)
      else
        (let nTimePenalty = (if NetAddr_eq addr src then 0 else nTimePenalty)
         in case Find s addr of
              Some (nId, _) \<Rightarrow>
                (case refresh_entry now RandomInt addr nTimePenalty nId s of
                   (False, s) \<Rightarrow> Inr (False, s)
                 | (True, s) \<Rightarrow> and_then (place_entry HW priv now src nId s) (\<lambda>s. Inr (False, s)))
            | None \<Rightarrow>
                (case Create addr src s of
                   (nId, s) \<Rightarrow>
                     (let info = info_at s nId;
                          s = put_info nId (info \<lparr> ad_nTime := late_time (uint (ad_nTime info) - nTimePenalty) \<rparr>) s;
                          s = s \<lparr> nNew := nNew s + 1 \<rparr>
                      in and_then (place_entry HW priv now src nId s) (\<lambda>s. Inr (True, s))))))"

fun am_Add_all ::
    "hash_writer \<Rightarrow> bool \<Rightarrow> int \<Rightarrow> (nat \<Rightarrow> int \<Rightarrow> int) \<Rightarrow> CAddress list \<Rightarrow> CNetAddr \<Rightarrow> int \<Rightarrow> nat \<Rightarrow> CAddrMan \<Rightarrow> addrman_error + bool \<times> CAddrMan" where
  "am_Add_all HW priv now RandomInt [] src nTimePenalty nAdd s = Inr (nAdd > 0, s)"
| "am_Add_all HW priv now RandomInt (addr # vAddr) src nTimePenalty nAdd s =
     and_then (am_Add HW priv now (RandomInt (length vAddr)) addr src nTimePenalty s) (\<lambda>(added, s).
       am_Add_all HW priv now RandomInt vAddr src nTimePenalty (if added then nAdd + 1 else nAdd) s)"

definition am_Attempt :: "CService \<Rightarrow> bool \<Rightarrow> int \<Rightarrow> CAddrMan \<Rightarrow> CAddrMan" where
  "am_Attempt addr fCountFailure time s =
     (case Find s addr of
        None \<Rightarrow> s
      | Some (nId, info) \<Rightarrow>
          if \<not> Service_eq info addr then s
          else
            (let info = info \<lparr> nLastTry := time \<rparr>
             in put_info nId
                  (if fCountFailure \<and> nLastCountAttempt info < nLastGood s
                   then info \<lparr> nLastCountAttempt := time, nAttempts := nAttempts info + 1 \<rparr> else info) s))"

definition am_Connected :: "CService \<Rightarrow> int \<Rightarrow> CAddrMan \<Rightarrow> CAddrMan" where
  "am_Connected addr time s =
     (case Find s addr of
        None \<Rightarrow> s
      | Some (nId, info) \<Rightarrow>
          if \<not> Service_eq info addr then s
          else if time - uint (ad_nTime info) > 20 * 60 then put_info nId (info \<lparr> ad_nTime := word_of_int time \<rparr>) s else s)"

definition am_SetServices :: "CService \<Rightarrow> u64 \<Rightarrow> CAddrMan \<Rightarrow> CAddrMan" where
  "am_SetServices addr services s =
     (case Find s addr of
        None \<Rightarrow> s
      | Some (nId, info) \<Rightarrow> if \<not> Service_eq info addr then s else put_info nId (info \<lparr> nServices := services \<rparr>) s)"

text \<open>The loop of \<open>am_GetAddr\<close> from position \<open>n\<close> on; \<open>rnd n\<close> is the random number drawn in turn \<open>n\<close>.\<close>

function getaddr_loop :: "int \<Rightarrow> (nat \<Rightarrow> nat) \<Rightarrow> nat \<Rightarrow> nat \<Rightarrow> CAddrInfo list \<Rightarrow> CAddrMan \<Rightarrow> addrman_error + CAddrInfo list \<times> CAddrMan" where
  "getaddr_loop now rnd nNodes n vAddr s =
     (if n < length (vRandom s) \<and> length vAddr < nNodes then
        (case SwapRandom n (rnd n + n) s of
           Inl e \<Rightarrow> Inl e
         | Inr s' \<Rightarrow>
             if mapInfo s' (vRandom s' ! n) = None then Inl AddrManAssert
             else
               (let ai = info_at s' (vRandom s' ! n)
                in getaddr_loop now rnd nNodes (n + 1) (if \<not> IsTerrible now ai then vAddr @ [ai] else vAddr) s'))
      else Inr (vAddr, s))"
  by pat_completeness auto
termination
  by (relation "measure (\<lambda>(now, rnd, nNodes, n, vAddr, s). length (vRandom s) - n)") (auto dest: length_SwapRandom)

declare getaddr_loop.simps [simp del]

definition am_GetAddr :: "int \<Rightarrow> (nat \<Rightarrow> nat) \<Rightarrow> CAddrMan \<Rightarrow> addrman_error + CAddrInfo list \<times> CAddrMan" where
  "am_GetAddr now rnd s =
     (let nNodes = ADDRMAN_GETADDR_MAX_PCT * length (vRandom s) div 100;
          nNodes = (if nNodes > ADDRMAN_GETADDR_MAX then ADDRMAN_GETADDR_MAX else nNodes)
      in getaddr_loop now rnd nNodes 0 [] s)"

text \<open>\<open>Clear\<close> resets the vector, the tables and the counters; it leaves the store and the index as they are.\<close>

definition Clear :: "uint256 \<Rightarrow> CAddrMan \<Rightarrow> CAddrMan" where
  "Clear newKey s =
     s \<lparr> vRandom := [], am_nKey := newKey, vvNew := (\<lambda>_ _. -1), vvTried := (\<lambda>_ _. -1), nIdCount := 0, nTried := 0, nNew := 0,
         nLastGood := 1 \<rparr>"

definition CAddrMan_new :: "bool \<Rightarrow> uint256 \<Rightarrow> CAddrMan" where
  "CAddrMan_new discriminate newKey = Clear newKey
     \<lparr> nIdCount = 0, mapInfo = Map.empty, mapAddr = Map.empty, vRandom = [], nTried = 0, vvTried = (\<lambda>_ _. 0), nNew = 0, vvNew = (\<lambda>_ _. 0),
       nLastGood = 0, discriminatePorts = discriminate, am_nKey = 0 \<rparr>"

section \<open>The consistency check\<close>

text \<open>
  \<open>Check_\<close>, which the sources compile under \<^verbatim>\<open>DEBUG_ADDRMAN\<close>, goes through \<open>mapInfo\<close> in the order of the numbers, then through
  the two tables; it returns 0 or the code of the first inconsistency. \<open>mapAddr[info]\<close> is 0 for an address that is not there.
  The sources also enter that 0 into the index, where a later look-up of the same key reads the same 0; the result of the check is as here, and
  only this side effect on the index is left out.
\<close>

definition check_entry :: "CAddrMan \<Rightarrow> int \<Rightarrow> CAddrInfo \<Rightarrow> int set \<times> (int \<times> int) list \<Rightarrow> int + int set \<times> (int \<times> int) list" where
  "check_entry s n info st =
     and_then
       (case st of (setTried, mapNew) \<Rightarrow>
          if fInTried info then
            (if nLastSuccess info = 0 then Inl (-1) else if nRefCount info \<noteq> 0 then Inl (-2) else Inr (insert n setTried, mapNew))
          else if nRefCount info < 0 \<or> nRefCount info > ADDRMAN_NEW_BUCKETS_PER_ADDRESS then Inl (-3)
          else if nRefCount info = 0 then Inl (-4)
          else Inr (setTried, AList.update n (nRefCount info) mapNew))
       (\<lambda>st. if (case mapAddr s (service_key info) of None \<Rightarrow> 0 | Some k \<Rightarrow> k) \<noteq> n then Inl (-5)
             else if nRandomPos info < 0 \<or> nRandomPos info \<ge> int (length (vRandom s)) \<or> vRandom s ! nat (nRandomPos info) \<noteq> n then Inl (-14)
             else if nLastTry info < 0 then Inl (-6)
             else if nLastSuccess info < 0 then Inl (-8)
             else Inr st)"

fun check_entries :: "CAddrMan \<Rightarrow> int list \<Rightarrow> int set \<times> (int \<times> int) list \<Rightarrow> int + int set \<times> (int \<times> int) list" where
  "check_entries s [] st = Inr st"
| "check_entries s (n # ns) st = and_then (check_entry s n (info_at s n) st) (check_entries s ns)"

fun check_tried :: "hash_writer \<Rightarrow> bool \<Rightarrow> CAddrMan \<Rightarrow> (nat \<times> nat) list \<Rightarrow> int set \<Rightarrow> int + int set" where
  "check_tried HW priv s [] setTried = Inr setTried"
| "check_tried HW priv s ((n, i) # slots) setTried =
     (let v = vvTried s n i
      in if v \<noteq> -1 then
           (if v \<notin> setTried then Inl (-11)
            else if GetTriedBucket HW priv (am_nKey s) (info_at s v) \<noteq> n then Inl (-17)
            else if GetBucketPosition HW (am_nKey s) False n (info_at s v) \<noteq> i then Inl (-18)
            else check_tried HW priv s slots (setTried - {v}))
         else check_tried HW priv s slots setTried)"

fun check_new :: "hash_writer \<Rightarrow> CAddrMan \<Rightarrow> (nat \<times> nat) list \<Rightarrow> (int \<times> int) list \<Rightarrow> int + (int \<times> int) list" where
  "check_new HW s [] mapNew = Inr mapNew"
| "check_new HW s ((n, i) # slots) mapNew =
     (let v = vvNew s n i
      in if v \<noteq> -1 then
           (case map_of mapNew v of
              None \<Rightarrow> Inl (-12)
            | Some c \<Rightarrow>
                if GetBucketPosition HW (am_nKey s) True n (info_at s v) \<noteq> i then Inl (-19)
                else if c - 1 = 0 then check_new HW s slots (AList.delete v mapNew)
                else check_new HW s slots (AList.update v (c - 1) mapNew))
         else check_new HW s slots mapNew)"

definition am_Check :: "hash_writer \<Rightarrow> bool \<Rightarrow> CAddrMan \<Rightarrow> int" where
  "am_Check HW priv s =
     (if int (length (vRandom s)) \<noteq> nTried s + nNew s then -7
      else case check_entries s (sorted_list_of_set (dom (mapInfo s))) ({}, []) of
        Inl e \<Rightarrow> e
      | Inr (setTried, mapNew) \<Rightarrow>
          if int (card setTried) \<noteq> nTried s then -9
          else if int (length mapNew) \<noteq> nNew s then -10
          else case check_tried HW priv s (List.product [0..<ADDRMAN_TRIED_BUCKET_COUNT] [0..<ADDRMAN_BUCKET_SIZE]) setTried of
            Inl e \<Rightarrow> e
          | Inr setTried \<Rightarrow>
              (case check_new HW s (List.product [0..<ADDRMAN_NEW_BUCKET_COUNT] [0..<ADDRMAN_BUCKET_SIZE]) mapNew of
                 Inl e \<Rightarrow> e
               | Inr mapNew \<Rightarrow>
                   if setTried \<noteq> {} then -13 else if mapNew \<noteq> [] then -15 else if am_nKey s = 0 then -16 else 0))"

end
