(* ===== verification/Addr_Man_Props.thy ===== *)
theory Addr_Man_Props
  imports Addr_Man
begin

text \<open>
  The invariant of the address manager and its operations (\<^verbatim>\<open>addrman.cpp\<close>): every operation keeps the store, the index, the vector and
  the two tables consistent and runs into none of its assertions, so the consistency check of the sources never fails on a
  manager that was built by the operations.
\<close>

lemma int_card_remove: "finite A \<Longrightarrow> x \<in> A \<Longrightarrow> int (card (A - {x})) = int (card A) - 1"
  using card_Suc_Diff1 [of A x] by simp

lemma int_card_insert: "finite A \<Longrightarrow> x \<notin> A \<Longrightarrow> int (card (insert x A)) = int (card A) + 1"
  by simp

section \<open>What positions depend on\<close>

lemma group_bytes_ip: "ip a = ip b \<Longrightarrow> group_bytes a k n = group_bytes b k n"
proof (induction a k n rule: group_bytes.induct)
  case (1 a k n)
  then show ?case by (simp add: group_bytes.simps [of a k n] group_bytes.simps [of b k n] GetByte_def)
qed

lemmas net_defs = GetByte_def IsIPv4_def IsTor_def IsRFC1918_def IsRFC2544_def IsRFC3927_def IsRFC6598_def IsRFC5737_def IsRFC3849_def
  IsRFC3964_def IsRFC6052_def IsRFC4380_def IsRFC4862_def IsRFC4193_def IsRFC6145_def IsRFC4843_def IsLocal_def NetAddr_IsValid_def IsRoutable_def

lemma GetGroup_ip: "ip a = ip b \<Longrightarrow> GetGroup priv a = GetGroup priv b"
  by (simp only: GetGroup_def net_defs group_bytes_ip [of a b])

lemma place_key:
  assumes "service_key a = service_key b"
  shows "GetBucketPosition HW k f n a = GetBucketPosition HW k f n b" "GetTriedBucket HW priv k a = GetTriedBucket HW priv k b"
    "GetNewBucket HW priv k a src = GetNewBucket HW priv k b src"
proof -
  have e: "ip a = ip b" "sv_port a = sv_port b" using assms by (simp_all add: service_key_def)
  show "GetBucketPosition HW k f n a = GetBucketPosition HW k f n b" "GetTriedBucket HW priv k a = GetTriedBucket HW priv k b"
    "GetNewBucket HW priv k a src = GetNewBucket HW priv k b src"
    using e GetGroup_ip [OF e(1)] by (simp_all add: GetBucketPosition_def GetTriedBucket_def GetNewBucket_def Service_GetKey_def)
qed

lemma place_bounds:
  "GetBucketPosition HW k f n a < ADDRMAN_BUCKET_SIZE" "GetTriedBucket HW priv k a < ADDRMAN_TRIED_BUCKET_COUNT"
  "GetNewBucket HW priv k a src < ADDRMAN_NEW_BUCKET_COUNT"
  by (simp_all add: GetBucketPosition_def GetTriedBucket_def GetNewBucket_def Let_def ADDRMAN_BUCKET_SIZE_def
      ADDRMAN_TRIED_BUCKET_COUNT_def ADDRMAN_NEW_BUCKET_COUNT_def)

section \<open>The invariant\<close>

type_synonym info_map = "int \<rightharpoonup> CAddrInfo"

text \<open>The vector of numbers is a numbering of the entries.\<close>

definition random_ok :: "info_map \<Rightarrow> int list \<Rightarrow> bool" where
  "random_ok m v \<longleftrightarrow>
     (\<forall>n i. m n = Some i \<longrightarrow> 0 \<le> nRandomPos i \<and> nat (nRandomPos i) < length v \<and> v ! nat (nRandomPos i) = n) \<and>
     (\<forall>k < length v. \<exists>i. m (v ! k) = Some i \<and> nRandomPos i = int k)"

definition index_ok :: "bool \<Rightarrow> info_map \<Rightarrow> (service_key \<rightharpoonup> int) \<Rightarrow> bool" where
  "index_ok d m a \<longleftrightarrow> (\<forall>k n. a k = Some n \<longleftrightarrow> (\<exists>i. m n = Some i \<and> addr_key d i = k))"

text \<open>The buckets of the new table in which an entry is.\<close>

definition places :: "hash_writer \<Rightarrow> uint256 \<Rightarrow> (nat \<Rightarrow> nat \<Rightarrow> int) \<Rightarrow> int \<Rightarrow> CAddrInfo \<Rightarrow> nat set" where
  "places HW k vn n i = {b. b < ADDRMAN_NEW_BUCKET_COUNT \<and> vn b (GetBucketPosition HW k True b i) = n}"

definition new_ok :: "hash_writer \<Rightarrow> uint256 \<Rightarrow> info_map \<Rightarrow> (nat \<Rightarrow> nat \<Rightarrow> int) \<Rightarrow> bool" where
  "new_ok HW k m vn \<longleftrightarrow> (\<forall>b < ADDRMAN_NEW_BUCKET_COUNT. \<forall>p < ADDRMAN_BUCKET_SIZE. vn b p \<noteq> -1 \<longrightarrow>
     (\<exists>i. m (vn b p) = Some i \<and> \<not> fInTried i \<and> GetBucketPosition HW k True b i = p))"

definition tried_ok :: "hash_writer \<Rightarrow> bool \<Rightarrow> uint256 \<Rightarrow> info_map \<Rightarrow> (nat \<Rightarrow> nat \<Rightarrow> int) \<Rightarrow> bool" where
  "tried_ok HW priv k m vt \<longleftrightarrow> (\<forall>b < ADDRMAN_TRIED_BUCKET_COUNT. \<forall>p < ADDRMAN_BUCKET_SIZE. vt b p \<noteq> -1 \<longrightarrow>
     (\<exists>i. m (vt b p) = Some i \<and> fInTried i \<and> GetTriedBucket HW priv k i = b \<and> GetBucketPosition HW k False b i = p))"

text \<open>\<open>X\<close> are entries without a place, which exist in the middle of an operation only.\<close>

definition entry_ok ::
    "hash_writer \<Rightarrow> bool \<Rightarrow> uint256 \<Rightarrow> int set \<Rightarrow> (nat \<Rightarrow> nat \<Rightarrow> int) \<Rightarrow> (nat \<Rightarrow> nat \<Rightarrow> int) \<Rightarrow> int \<Rightarrow> int \<Rightarrow> CAddrInfo \<Rightarrow> bool" where
  "entry_ok HW priv k X vn vt lim n i \<longleftrightarrow> 0 \<le> n \<and> n < lim \<and> 0 \<le> nLastTry i \<and> 0 \<le> nLastSuccess i \<and>
     (if fInTried i then nRefCount i = 0 \<and> nLastSuccess i \<noteq> 0 \<and> n \<notin> X \<and>
        vt (GetTriedBucket HW priv k i) (GetBucketPosition HW k False (GetTriedBucket HW priv k i) i) = n
      else nRefCount i = int (card (places HW k vn n i)) \<and> nRefCount i \<le> ADDRMAN_NEW_BUCKETS_PER_ADDRESS \<and> (n \<in> X \<longleftrightarrow> nRefCount i = 0))"

definition tried_ids :: "info_map \<Rightarrow> int set" where
  "tried_ids m = {n. \<exists>i. m n = Some i \<and> fInTried i}"

definition new_ids :: "info_map \<Rightarrow> int set" where
  "new_ids m = {n. \<exists>i. m n = Some i \<and> \<not> fInTried i}"

text \<open>\<open>Y\<close> are entries that are not counted at the moment.\<close>

definition book :: "hash_writer \<Rightarrow> bool \<Rightarrow> int set \<Rightarrow> int set \<Rightarrow> CAddrMan \<Rightarrow> bool" where
  "book HW priv X Y s \<longleftrightarrow> random_ok (mapInfo s) (vRandom s) \<and> index_ok (discriminatePorts s) (mapInfo s) (mapAddr s) \<and>
     new_ok HW (am_nKey s) (mapInfo s) (vvNew s) \<and> tried_ok HW priv (am_nKey s) (mapInfo s) (vvTried s) \<and>
     (\<forall>n i. mapInfo s n = Some i \<longrightarrow> entry_ok HW priv (am_nKey s) X (vvNew s) (vvTried s) (nIdCount s) n i) \<and>
     nTried s = int (card (tried_ids (mapInfo s))) \<and> nNew s = int (card (new_ids (mapInfo s) - Y)) \<and> 0 \<le> nIdCount s"

lemma bookD:
  assumes "book HW priv X Y s"
  shows "random_ok (mapInfo s) (vRandom s)" "index_ok (discriminatePorts s) (mapInfo s) (mapAddr s)"
    "new_ok HW (am_nKey s) (mapInfo s) (vvNew s)" "tried_ok HW priv (am_nKey s) (mapInfo s) (vvTried s)"
    "mapInfo s n = Some i \<Longrightarrow> entry_ok HW priv (am_nKey s) X (vvNew s) (vvTried s) (nIdCount s) n i"
    "nTried s = int (card (tried_ids (mapInfo s)))" "nNew s = int (card (new_ids (mapInfo s) - Y))" "0 \<le> nIdCount s"
  using assms by (simp_all add: book_def)

lemma random_distinct: "random_ok m v \<Longrightarrow> distinct v"
  unfolding distinct_conv_nth random_ok_def by (metis of_nat_eq_iff option.inject)

lemma random_set: "random_ok m v \<Longrightarrow> set v = dom m"
proof (intro equalityI subsetI)
  fix n
  assume r: "random_ok m v"
  { assume "n \<in> set v" with r show "n \<in> dom m" by (auto simp: in_set_conv_nth random_ok_def) }
  { assume "n \<in> dom m" with r show "n \<in> set v" unfolding random_ok_def by (metis domD nth_mem) }
qed

lemma random_length: "random_ok m v \<Longrightarrow> length v = card (dom m)"
  using distinct_card [OF random_distinct] random_set by metis

lemma random_finite: "random_ok m v \<Longrightarrow> finite (dom m)"
  using random_set by (metis List.finite_set)

lemma finite_ids: "finite (dom m) \<Longrightarrow> finite (tried_ids m)" "finite (dom m) \<Longrightarrow> finite (new_ids m)"
  by (auto elim!: rev_finite_subset simp: tried_ids_def new_ids_def)

lemma dom_ids: "dom m = tried_ids m \<union> new_ids m" "tried_ids m \<inter> new_ids m = {}"
  by (auto simp: tried_ids_def new_ids_def)

text \<open>Every entry with a place is in one of the tables, so there are at most 81920 of them.\<close>

lemma book_size:
  assumes "book HW priv X Y s" "finite X" "card X \<le> 5"
  shows "length (vRandom s) < 2 ^ 32"
proof -
  let ?N = "{..<ADDRMAN_NEW_BUCKET_COUNT} \<times> {..<ADDRMAN_BUCKET_SIZE}" and ?T = "{..<ADDRMAN_TRIED_BUCKET_COUNT} \<times> {..<ADDRMAN_BUCKET_SIZE}"
  let ?A = "(\<lambda>(b, p). vvNew s b p) ` ?N" and ?B = "(\<lambda>(b, p). vvTried s b p) ` ?T"
  note B = bookD [OF assms(1)]
  have "n \<in> X \<union> (?A \<union> ?B)" if n: "mapInfo s n = Some i" for n i
  proof (cases "fInTried i \<or> n \<in> X")
    case True
    then show ?thesis using B(5) [OF n] place_bounds [of HW] unfolding entry_ok_def image_def by (fastforce split: if_splits)
  next
    case False
    then have "int (card (places HW (am_nKey s) (vvNew s) n i)) \<noteq> 0" using B(5) [OF n] by (auto simp: entry_ok_def)
    then obtain b where "b \<in> places HW (am_nKey s) (vvNew s) n i" by fastforce
    then show ?thesis using place_bounds [of HW] unfolding places_def image_def by fastforce
  qed
  then have "dom (mapInfo s) \<subseteq> X \<union> (?A \<union> ?B)" by auto
  then have "card (dom (mapInfo s)) \<le> card (X \<union> (?A \<union> ?B))" using assms(2) by (intro card_mono) auto
  also have "\<dots> \<le> card X + (card ?A + card ?B)" using card_Un_le [of X] card_Un_le [of ?A ?B] by (meson add_left_mono le_trans)
  also have "\<dots> \<le> 5 + (card ?N + card ?T)" using assms(3) card_image_le [of ?N] card_image_le [of ?T] by (intro add_mono) auto
  also have "\<dots> < 2 ^ 32" by (simp add: ADDRMAN_NEW_BUCKET_COUNT_def ADDRMAN_BUCKET_SIZE_def ADDRMAN_TRIED_BUCKET_COUNT_def)
  finally show ?thesis using random_length [OF B(1)] by simp
qed

section \<open>Entries up to their position in the vector\<close>

definition strip :: "CAddrInfo \<Rightarrow> CAddrInfo" where
  "strip i = i \<lparr> nRandomPos := 0 \<rparr>"

definition same_entries :: "info_map \<Rightarrow> info_map \<Rightarrow> bool" where
  "same_entries m m' \<longleftrightarrow> (\<forall>n. map_option strip (m' n) = map_option strip (m n))"

lemma strip_fields:
  assumes "strip i = strip j"
  shows "service_key i = service_key j" "fInTried i = fInTried j" "nRefCount i = nRefCount j" "nLastTry i = nLastTry j"
    "nLastSuccess i = nLastSuccess j" "ip i = ip j" "sv_port i = sv_port j" "ad_nTime i = ad_nTime j" "ai_source i = ai_source j"
  using assms by (cases i; cases j; simp add: strip_def service_key_def)+

lemma strip_update [simp]: "strip (i \<lparr> nRandomPos := x \<rparr>) = strip i"
  by (simp add: strip_def)

lemma same_refl [simp]: "same_entries m m"
  by (simp add: same_entries_def)

lemma same_trans: "same_entries m m' \<Longrightarrow> same_entries m' m'' \<Longrightarrow> same_entries m m''"
  by (simp add: same_entries_def)

lemma same_some:
  assumes "same_entries m m'"
  shows "m' n = Some j \<Longrightarrow> \<exists>i. m n = Some i \<and> strip i = strip j" "m n = Some i \<Longrightarrow> \<exists>j. m' n = Some j \<and> strip i = strip j"
  using assms [unfolded same_entries_def, rule_format, of n] by (cases "m n"; cases "m' n"; simp)+

lemma same_dom: "same_entries m m' \<Longrightarrow> dom m' = dom m"
  using same_some [of m m'] by blast

lemma same_ids: "same_entries m m' \<Longrightarrow> tried_ids m' = tried_ids m" "same_entries m m' \<Longrightarrow> new_ids m' = new_ids m"
  unfolding tried_ids_def new_ids_def using same_some [of m m'] strip_fields(2) by blast+

lemma addr_key_strip: "strip i = strip j \<Longrightarrow> addr_key d i = addr_key d j"
  using strip_fields(6,7) [of i j] by (simp add: addr_key_def service_key_def SetPort_def)

lemma same_index:
  assumes m: "same_entries m m'" and ix: "index_ok d m a"
  shows "index_ok d m' a"
proof -
  have "(\<exists>i. m' n = Some i \<and> addr_key d i = k) \<longleftrightarrow> (\<exists>i. m n = Some i \<and> addr_key d i = k)" for n k
  proof
    assume "\<exists>i. m' n = Some i \<and> addr_key d i = k"
    then obtain j where j: "m' n = Some j" "addr_key d j = k" by blast
    obtain i where i: "m n = Some i" "strip i = strip j" using same_some(1) [OF m j(1)] by blast
    show "\<exists>i. m n = Some i \<and> addr_key d i = k" using i(1) addr_key_strip [OF i(2), of d] j(2) by simp
  next
    assume "\<exists>i. m n = Some i \<and> addr_key d i = k"
    then obtain i where i: "m n = Some i" "addr_key d i = k" by blast
    obtain j where j: "m' n = Some j" "strip i = strip j" using same_some(2) [OF m i(1)] by blast
    show "\<exists>i. m' n = Some i \<and> addr_key d i = k" using j(1) addr_key_strip [OF j(2), of d] i(2) by simp
  qed
  then show ?thesis using ix unfolding index_ok_def by simp
qed

lemma same_tables:
  assumes m: "same_entries m m'"
  shows "new_ok HW k m vn \<Longrightarrow> new_ok HW k m' vn" "tried_ok HW priv k m vt \<Longrightarrow> tried_ok HW priv k m' vt"
proof -
  have e: "\<exists>j. m' n = Some j \<and> fInTried j = fInTried i \<and> GetBucketPosition HW k f b j = GetBucketPosition HW k f b i \<and>
    GetTriedBucket HW priv k j = GetTriedBucket HW priv k i" if i: "m n = Some i" for n i f b
  proof -
    obtain j where j: "m' n = Some j" "strip i = strip j" using same_some(2) [OF m i] by blast
    then show ?thesis using place_key [OF strip_fields(1) [OF j(2)]] strip_fields(2) [OF j(2)] by simp
  qed
  show "new_ok HW k m vn \<Longrightarrow> new_ok HW k m' vn" unfolding new_ok_def using e by blast
  show "tried_ok HW priv k m vt \<Longrightarrow> tried_ok HW priv k m' vt" unfolding tried_ok_def using e by blast
qed

lemma places_key: "service_key i = service_key j \<Longrightarrow> places HW k vn n i = places HW k vn n j"
  using place_key(1) [of i j] by (simp add: places_def)

lemma entry_ok_strip: "strip i = strip j \<Longrightarrow> entry_ok HW priv k X vn vt lim n i = entry_ok HW priv k X vn vt lim n j"
  using strip_fields [of i j] places_key [of i j] place_key [of i j] by (simp add: entry_ok_def)

lemma same_book:
  assumes bk: "book HW priv X Y s" and m: "same_entries (mapInfo s) m" and v: "random_ok m v"
  shows "book HW priv X Y (s \<lparr> mapInfo := m, vRandom := v \<rparr>)"
proof -
  note B = bookD [OF bk]
  have "entry_ok HW priv (am_nKey s) X (vvNew s) (vvTried s) (nIdCount s) n j" if "m n = Some j" for n j
    using same_some(1) [OF m that] B(5) entry_ok_strip by blast
  then show ?thesis
    using v same_index [OF m B(2)] same_tables(1) [OF m B(3)] same_tables(2) [OF m B(4)] B(6-8) same_ids [OF m] by (simp add: book_def)
qed

section \<open>The vector\<close>

lemma random_swap:
  assumes r: "random_ok m v" and k: "a < length v" "b < length v" "a \<noteq> b" and i: "m (v ! a) = Some i" "m (v ! b) = Some j"
  shows "random_ok (m(v ! a \<mapsto> i \<lparr> nRandomPos := int b \<rparr>, v ! b \<mapsto> j \<lparr> nRandomPos := int a \<rparr>)) (v[a := v ! b, b := v ! a])"
proof -
  have d: "v ! x = v ! y \<longleftrightarrow> x = y" if "x < length v" "y < length v" for x y
    using nth_eq_iff_index_eq [OF random_distinct [OF r] that] .
  have p: "0 \<le> nRandomPos l \<and> nat (nRandomPos l) < length v \<and> v ! nat (nRandomPos l) = n" if "m n = Some l" for n l
    using r that by (simp add: random_ok_def)
  have q: "\<exists>l. m (v ! x) = Some l \<and> nRandomPos l = int x" if "x < length v" for x using r that by (simp add: random_ok_def)
  show ?thesis unfolding random_ok_def
  proof (intro conjI allI impI)
    fix n l
    assume n: "(m(v ! a \<mapsto> i \<lparr> nRandomPos := int b \<rparr>, v ! b \<mapsto> j \<lparr> nRandomPos := int a \<rparr>)) n = Some l"
    show "0 \<le> nRandomPos l" "nat (nRandomPos l) < length (v[a := v ! b, b := v ! a])" "v[a := v ! b, b := v ! a] ! nat (nRandomPos l) = n"
      using n p [of n l] k d by (auto simp: nth_list_update split: if_splits)
  next
    fix x
    assume x: "x < length (v[a := v ! b, b := v ! a])"
    show "\<exists>l. (m(v ! a \<mapsto> i \<lparr> nRandomPos := int b \<rparr>, v ! b \<mapsto> j \<lparr> nRandomPos := int a \<rparr>)) (v[a := v ! b, b := v ! a] ! x) = Some l \<and> nRandomPos l = int x"
      using x q [of x] k d by (auto simp: nth_list_update)
  qed
qed

lemma SwapRandom_ok:
  assumes bk: "book HW priv X Y s" and k: "a < length (vRandom s)" "b < length (vRandom s)"
  shows "\<exists>m. SwapRandom a b s = Inr (s \<lparr> mapInfo := m, vRandom := (vRandom s)[a := vRandom s ! b, b := vRandom s ! a] \<rparr>) \<and>
    same_entries (mapInfo s) m \<and> random_ok m ((vRandom s)[a := vRandom s ! b, b := vRandom s ! a])"
proof (cases "a = b")
  case True
  then show ?thesis using bookD(1) [OF bk] by (intro exI [of _ "mapInfo s"]) (simp add: SwapRandom_def)
next
  case False
  let ?v = "vRandom s"
  note r = bookD(1) [OF bk]
  obtain i j where i: "mapInfo s (?v ! a) = Some i" "mapInfo s (?v ! b) = Some j" using r k unfolding random_ok_def by blast
  have ne: "?v ! a \<noteq> ?v ! b" using nth_eq_iff_index_eq [OF random_distinct [OF r] k] False by simp
  let ?m = "(mapInfo s)(?v ! a \<mapsto> i \<lparr> nRandomPos := int b \<rparr>, ?v ! b \<mapsto> j \<lparr> nRandomPos := int a \<rparr>)"
  have "SwapRandom a b s = Inr (s \<lparr> mapInfo := ?m, vRandom := ?v[a := ?v ! b, b := ?v ! a] \<rparr>)"
    using False k i ne by (simp add: SwapRandom_def Let_def put_info_def info_at_def)
  moreover have "same_entries (mapInfo s) ?m" using i by (simp add: same_entries_def)
  ultimately show ?thesis using random_swap [OF r k False i] by blast
qed

lemma random_drop:
  assumes "random_ok m (w @ [n])"
  shows "random_ok (m(n := None)) w"
proof -
  have d: "n \<notin> set w" using random_distinct [OF assms] by simp
  have r: "m k = Some i \<Longrightarrow> 0 \<le> nRandomPos i \<and> nat (nRandomPos i) < Suc (length w) \<and> (w @ [n]) ! nat (nRandomPos i) = k" for k i
    using assms by (auto simp: random_ok_def)
  have q: "\<exists>i. m (w ! k) = Some i \<and> nRandomPos i = int k" if "k < length w" for k
  proof -
    have "\<forall>k < length (w @ [n]). \<exists>i. m ((w @ [n]) ! k) = Some i \<and> nRandomPos i = int k" using assms unfolding random_ok_def by blast
    from this [rule_format, of k] show ?thesis using that by (simp add: nth_append)
  qed
  have "nat (nRandomPos i) < length w \<and> w ! nat (nRandomPos i) = k" if "m k = Some i" "k \<noteq> n" for k i
    using r [OF that(1)] that(2) by (cases "nat (nRandomPos i) = length w") (auto simp: nth_append)
  then show ?thesis using r q d by (auto simp: random_ok_def)
qed

lemma book_ref0: "book HW priv X Y s \<Longrightarrow> mapInfo s n = Some i \<Longrightarrow> \<not> fInTried i \<Longrightarrow> nRefCount i = 0 \<longleftrightarrow> n \<in> X"
  using bookD(5) [of HW priv X Y s n i] by (auto simp only: entry_ok_def if_False)

section \<open>Removing an entry\<close>

lemma book_unplaced:
  assumes bk: "book HW priv X Y s" and n: "mapInfo s n = Some info" "\<not> fInTried info" "nRefCount info = 0"
    and b: "b < ADDRMAN_NEW_BUCKET_COUNT" "p < ADDRMAN_BUCKET_SIZE"
  shows "vvNew s b p \<noteq> n"
proof
  assume v: "vvNew s b p = n"
  note B = bookD [OF bk]
  have e: "0 \<le> n" "int (card (places HW (am_nKey s) (vvNew s) n info)) = 0" using B(5) [OF n(1)] n by (auto simp: entry_ok_def)
  have "GetBucketPosition HW (am_nKey s) True b info = p" using B(3) b v n e(1) unfolding new_ok_def by fastforce
  then have "b \<in> places HW (am_nKey s) (vvNew s) n info" using b v by (simp add: places_def)
  then show False using e(2) by (auto simp: places_def)
qed

lemma book_erase:
  assumes bk: "book HW priv X Y s" and n: "mapInfo s n = Some info" "\<not> fInTried info" "nRefCount info = 0" "n \<notin> Y"
    and v: "vRandom s = w @ [n]"
  shows "book HW priv (X - {n}) Y (s \<lparr> vRandom := w, mapAddr := (mapAddr s)(addr_key (discriminatePorts s) info := None),
    mapInfo := (mapInfo s)(n := None), nNew := nNew s - 1 \<rparr>)"
proof -
  let ?m = "(mapInfo s)(n := None)"
  note B = bookD [OF bk]
  have ix: "index_ok (discriminatePorts s) ?m ((mapAddr s)(addr_key (discriminatePorts s) info := None))"
    unfolding index_ok_def
  proof (intro allI)
    fix k j
    have k: "mapAddr s k = Some j \<longleftrightarrow> (\<exists>i. mapInfo s j = Some i \<and> addr_key (discriminatePorts s) i = k)" for k j
      using B(2) unfolding index_ok_def by blast
    have one: "mapAddr s (addr_key (discriminatePorts s) info) = Some n" using k n(1) by blast
    show "((mapAddr s)(addr_key (discriminatePorts s) info := None)) k = Some j \<longleftrightarrow> (\<exists>i. ?m j = Some i \<and> addr_key (discriminatePorts s) i = k)"
      using k [of k j] one n(1) by auto
  qed
  have nw: "new_ok HW (am_nKey s) ?m (vvNew s)" using B(3) book_unplaced [OF bk n(1-3)] by (simp add: new_ok_def)
  have tr: "tried_ok HW priv (am_nKey s) ?m (vvTried s)" using B(4) n(1,2) unfolding tried_ok_def by fastforce
  have en: "entry_ok HW priv (am_nKey s) (X - {n}) (vvNew s) (vvTried s) (nIdCount s) j i" if "?m j = Some i" for j i
    using B(5) [of j i] that by (auto simp: entry_ok_def split: if_splits)
  have "new_ids ?m - Y = new_ids (mapInfo s) - Y - {n}" "tried_ids ?m = tried_ids (mapInfo s)" "n \<in> new_ids (mapInfo s) - Y"
    using n by (auto simp: new_ids_def tried_ids_def)
  moreover have "finite (new_ids (mapInfo s) - Y)" using finite_ids(2) [OF random_finite [OF B(1)]] by simp
  ultimately have "int (card (new_ids ?m - Y)) = nNew s - 1" "tried_ids ?m = tried_ids (mapInfo s)"
    using B(7) int_card_remove [of "new_ids (mapInfo s) - Y" n] by (simp_all only:)
  then show ?thesis using random_drop [of "mapInfo s" w n] B(1,6,8) v ix nw tr en by (simp add: book_def)
qed

text \<open>What an operation may do to the entries and tables besides: positions in the vector change, and the entry \<open>n\<close> goes.\<close>

definition erased :: "int \<Rightarrow> CAddrMan \<Rightarrow> CAddrMan \<Rightarrow> bool" where
  "erased n s s' \<longleftrightarrow> same_entries ((mapInfo s)(n := None)) ((mapInfo s')(n := None)) \<and> vvNew s' = vvNew s \<and> vvTried s' = vvTried s \<and>
     am_nKey s' = am_nKey s \<and> nIdCount s' = nIdCount s \<and> discriminatePorts s' = discriminatePorts s \<and> nLastGood s' = nLastGood s"

lemma to_unsigned_small: "k < 2 ^ 32 \<Longrightarrow> to_unsigned (int k) = k"
  by (simp add: to_unsigned_def)

lemma Delete_ok:
  assumes bk: "book HW priv X Y s" and X: "finite X" "card X \<le> 5" and n: "mapInfo s n = Some info" "\<not> fInTried info" "nRefCount info = 0" "n \<notin> Y"
  shows "\<exists>s'. Delete n s = Inr s' \<and> book HW priv (X - {n}) Y s' \<and> erased n s s' \<and> mapInfo s' n = None"
proof -
  let ?v = "vRandom s" and ?l = "length (vRandom s) - 1"
  note B = bookD [OF bk]
  have sz: "length ?v < 2 ^ 32" using book_size [OF bk X] .
  define a where "a = nat (nRandomPos info)"
  have a: "nRandomPos info = int a" "a < length ?v" "?v ! a = n" using B(1) n(1) unfolding random_ok_def by (auto simp: a_def)
  then have l: "?l < length ?v" "int (length ?v) - 1 = int ?l" by auto
  define w where "w = ?v[a := ?v ! ?l, ?l := ?v ! a]"
  obtain m where sw: "SwapRandom a ?l s = Inr (s \<lparr> mapInfo := m, vRandom := w \<rparr>)" "same_entries (mapInfo s) m" "random_ok m w"
    using SwapRandom_ok [OF bk a(2) l(1)] by (auto simp: w_def)
  have "w \<noteq> []" using a(2) by (auto simp: w_def)
  moreover from this have "last w = n" using a(3) l(1) by (simp add: last_conv_nth) (simp add: w_def)
  ultimately have w: "w = butlast w @ [n]" by (metis append_butlast_last_id)
  obtain j where j: "m n = Some j" "strip info = strip j" using same_some(2) [OF sw(2) n(1)] by blast
  define s1 where "s1 = s \<lparr> mapInfo := m, vRandom := w \<rparr>"
  have b1: "book HW priv X Y s1" unfolding s1_def by (rule same_book [OF bk sw(2,3)])
  have j': "mapInfo s1 n = Some j" "\<not> fInTried j" "nRefCount j = 0" "addr_key (discriminatePorts s) info = addr_key (discriminatePorts s) j"
    using j n strip_fields(2,3) [OF j(2)] addr_key_strip [OF j(2)] by (simp_all add: s1_def)
  let ?s = "s1 \<lparr> vRandom := butlast w, mapAddr := (mapAddr s1)(addr_key (discriminatePorts s1) j := None), mapInfo := (mapInfo s1)(n := None), nNew := nNew s1 - 1 \<rparr>"
  have "Delete n s = Inr ?s"
    using n a(1) sw(1) sz l j'(4) a(2) to_unsigned_small [of a] to_unsigned_small [of ?l] by (simp add: Delete_def s1_def)
  moreover have "book HW priv (X - {n}) Y ?s" by (rule book_erase [OF b1 j'(1-3) n(4)]) (use w in \<open>simp add: s1_def\<close>)
  moreover have "erased n s ?s" using sw(2) by (simp add: erased_def s1_def same_entries_def)
  ultimately show ?thesis by (intro exI [of _ ?s]) simp
qed

section \<open>Changing an entry\<close>

text \<open>An entry may be replaced by one with the same address and the same position in the vector.\<close>

definition alike :: "CAddrInfo \<Rightarrow> CAddrInfo \<Rightarrow> bool" where
  "alike i i' \<longleftrightarrow> service_key i' = service_key i \<and> nRandomPos i' = nRandomPos i"

lemma alike_random: "m n = Some i \<Longrightarrow> alike i i' \<Longrightarrow> random_ok m v \<Longrightarrow> random_ok (m(n \<mapsto> i')) v"
  unfolding random_ok_def alike_def by (auto simp: nth_eq_iff_index_eq)

lemma alike_addr_key: "alike i i' \<Longrightarrow> addr_key d i' = addr_key d i"
  by (simp add: alike_def addr_key_def service_key_def SetPort_def)

lemma alike_index:
  assumes "m n = Some i" "alike i i'" "index_ok d m a"
  shows "index_ok d (m(n \<mapsto> i')) a"
proof -
  have "(\<exists>j. (m(n \<mapsto> i')) l = Some j \<and> addr_key d j = k) \<longleftrightarrow> (\<exists>j. m l = Some j \<and> addr_key d j = k)" for l k
    using assms(1) alike_addr_key [OF assms(2), of d] by auto
  then show ?thesis using assms(3) by (simp add: index_ok_def)
qed

lemma alike_places: "alike i i' \<Longrightarrow> places HW k vn n i' = places HW k vn n i"
  by (rule places_key) (simp add: alike_def)

lemma alike_pos:
  "alike i i' \<Longrightarrow> GetBucketPosition HW k f b i' = GetBucketPosition HW k f b i" "alike i i' \<Longrightarrow> GetTriedBucket HW priv k i' = GetTriedBucket HW priv k i"
  using place_key [of i' i] by (simp_all add: alike_def)

lemma put_ids:
  assumes "m n = Some i"
  shows "new_ids (m(n \<mapsto> i')) = (if fInTried i' then new_ids m - {n} else insert n (new_ids m))"
    "tried_ids (m(n \<mapsto> i')) = (if fInTried i' then insert n (tried_ids m) else tried_ids m - {n})"
  by (auto simp: new_ids_def tried_ids_def)

lemma put_new_ok:
  "m n = Some i \<Longrightarrow> alike i i' \<Longrightarrow> fInTried i' = fInTried i \<Longrightarrow> new_ok HW k m vn \<Longrightarrow> new_ok HW k (m(n \<mapsto> i')) vn"
  unfolding new_ok_def using alike_pos(1) [of i i' HW k True] by fastforce

lemma put_tried_ok:
  "m n = Some i \<Longrightarrow> alike i i' \<Longrightarrow> fInTried i' = fInTried i \<Longrightarrow> tried_ok HW priv k m vt \<Longrightarrow> tried_ok HW priv k (m(n \<mapsto> i')) vt"
  unfolding tried_ok_def using alike_pos(1) [of i i' HW k False] alike_pos(2) [of i i' HW priv k] by fastforce

lemma book_put:
  assumes bk: "book HW priv X Y s" and n: "mapInfo s n = Some i" and al: "alike i i'" "fInTried i' = fInTried i" "nRefCount i' = nRefCount i"
    and t: "0 \<le> nLastTry i'" "0 \<le> nLastSuccess i'" "fInTried i \<Longrightarrow> nLastSuccess i' \<noteq> 0"
  shows "book HW priv X Y (put_info n i' s)"
proof -
  note B = bookD [OF bk]
  have "entry_ok HW priv (am_nKey s) X (vvNew s) (vvTried s) (nIdCount s) n i'"
    using B(5) [OF n] al t alike_places [OF al(1)] alike_pos [OF al(1)] by (auto simp: entry_ok_def)
  moreover have "new_ids ((mapInfo s)(n \<mapsto> i')) = new_ids (mapInfo s)" "tried_ids ((mapInfo s)(n \<mapsto> i')) = tried_ids (mapInfo s)"
    using put_ids [of "mapInfo s" n i i'] n al(2) by (auto simp: new_ids_def tried_ids_def)
  ultimately show ?thesis
    using B alike_random [OF n al(1) B(1)] alike_index [OF n al(1) B(2)] put_new_ok [OF n al(1,2) B(3)] put_tried_ok [OF n al(1,2) B(4)]
    by (simp add: book_def put_info_def)
qed

text \<open>Taking an entry out of one bucket of the new table, and putting it into one.\<close>

lemma places_set:
  assumes "b < ADDRMAN_NEW_BUCKET_COUNT"
  shows "places HW k (vn(b := (vn b)(p := v))) n i =
    (if GetBucketPosition HW k True b i = p then (if v = n then insert b (places HW k vn n i) else places HW k vn n i - {b})
     else places HW k vn n i)"
  using assms by (auto simp: places_def)

lemma finite_places [simp]: "finite (places HW k vn n i)"
  by (simp add: places_def)

lemma new_ok_set:
  assumes "new_ok HW k m vn" "v = -1 \<or> (\<exists>i. m v = Some i \<and> \<not> fInTried i \<and> GetBucketPosition HW k True b i = p)"
  shows "new_ok HW k m (vn(b := (vn b)(p := v)))"
  unfolding new_ok_def
proof (intro allI impI)
  fix b' p'
  assume r: "b' < ADDRMAN_NEW_BUCKET_COUNT" "p' < ADDRMAN_BUCKET_SIZE" "(vn(b := (vn b)(p := v))) b' p' \<noteq> -1"
  then show "\<exists>i. m ((vn(b := (vn b)(p := v))) b' p') = Some i \<and> \<not> fInTried i \<and> GetBucketPosition HW k True b' i = p'"
    using assms(1) [unfolded new_ok_def, rule_format, of b' p'] assms(2) by (cases "b' = b \<and> p' = p") auto
qed

lemma tried_ok_set:
  assumes "tried_ok HW priv k m vt" "v = -1 \<or> (\<exists>i. m v = Some i \<and> fInTried i \<and> GetTriedBucket HW priv k i = b \<and> GetBucketPosition HW k False b i = p)"
  shows "tried_ok HW priv k m (vt(b := (vt b)(p := v)))"
  unfolding tried_ok_def
proof (intro allI impI)
  fix b' p'
  assume r: "b' < ADDRMAN_TRIED_BUCKET_COUNT" "p' < ADDRMAN_BUCKET_SIZE" "(vt(b := (vt b)(p := v))) b' p' \<noteq> -1"
  then show "\<exists>i. m ((vt(b := (vt b)(p := v))) b' p') = Some i \<and> fInTried i \<and> GetTriedBucket HW priv k i = b' \<and> GetBucketPosition HW k False b' i = p'"
    using assms(1) [unfolded tried_ok_def, rule_format, of b' p'] assms(2) by (cases "b' = b \<and> p' = p") auto
qed

lemma book_refcount:
  assumes bk: "book HW priv X Y s" and n: "mapInfo s n = Some i" "\<not> fInTried i" and b: "b < ADDRMAN_NEW_BUCKET_COUNT"
    and p: "p = GetBucketPosition HW (am_nKey s) True b i" and v: "vvNew s b p = -1 \<or> vvNew s b p = n" "v = -1 \<or> v = n"
    and i': "i' = i \<lparr> nRefCount := int (card (places HW (am_nKey s) ((vvNew s)(b := (vvNew s b)(p := v))) n i)) \<rparr>"
      "nRefCount i' \<le> ADDRMAN_NEW_BUCKETS_PER_ADDRESS"
  shows "book HW priv (if nRefCount i' = 0 then insert n X else X - {n}) Y (set_new b p v (put_info n i' s))"
proof -
  let ?k = "am_nKey s" and ?vn = "(vvNew s)(b := (vvNew s b)(p := v))" and ?m = "(mapInfo s)(n \<mapsto> i')" and ?X = "if nRefCount i' = 0 then insert n X else X - {n}"
  note B = bookD [OF bk]
  have al: "alike i i'" "fInTried i' = fInTried i" "nLastTry i' = nLastTry i" "nLastSuccess i' = nLastSuccess i"
    using i'(1) by (simp_all add: alike_def service_key_def)
  have pos: "0 \<le> n" using B(5) [OF n(1)] by (simp add: entry_ok_def)
  have "new_ok HW ?k ?m (vvNew s)" by (rule put_new_ok [OF n(1) al(1,2) B(3)])
  then have nw: "new_ok HW ?k ?m ?vn" by (rule new_ok_set) (use n(2) al p v(2) alike_pos(1) [OF al(1)] in auto)
  have same: "places HW ?k ?vn l j = places HW ?k (vvNew s) l j" if "l \<noteq> n" "0 \<le> l" for l j
    using that v by (auto simp: places_def)
  have "entry_ok HW priv ?k ?X ?vn (vvTried s) (nIdCount s) l j" if l: "?m l = Some j" for l j
  proof (cases "l = n")
    case True
    then show ?thesis using l B(5) [OF n(1)] n(2) al i' alike_places [OF al(1), of HW ?k ?vn n] by (auto simp: entry_ok_def)
  next
    case False
    then have o: "entry_ok HW priv ?k X (vvNew s) (vvTried s) (nIdCount s) l j" using l B(5) by simp
    moreover from o have "places HW ?k ?vn l j = places HW ?k (vvNew s) l j" using same False by (simp add: entry_ok_def)
    ultimately show ?thesis using False by (auto simp: entry_ok_def)
  qed
  moreover have "new_ids ?m = new_ids (mapInfo s)" "tried_ids ?m = tried_ids (mapInfo s)"
    using put_ids [of "mapInfo s" n i i'] n al(2) by (auto simp: new_ids_def tried_ids_def)
  ultimately show ?thesis
    using B alike_random [OF n(1) al(1) B(1)] alike_index [OF n(1) al(1) B(2)] nw put_tried_ok [OF n(1) al(1,2) B(4)]
    by (simp add: book_def put_info_def set_new_def)
qed

lemma book_unref:
  assumes bk: "book HW priv X Y s" and n: "mapInfo s n = Some i" "\<not> fInTried i" and b: "b < ADDRMAN_NEW_BUCKET_COUNT"
    and p: "p = GetBucketPosition HW (am_nKey s) True b i" and v: "vvNew s b p = n"
  shows "0 < nRefCount i" "n \<notin> X"
    "book HW priv (if nRefCount i - 1 = 0 then insert n X else X) Y (set_new b p (-1) (put_info n (i \<lparr> nRefCount := nRefCount i - 1 \<rparr>) s))"
proof -
  let ?k = "am_nKey s"
  have e: "0 \<le> n" "nRefCount i = int (card (places HW ?k (vvNew s) n i))" "nRefCount i \<le> ADDRMAN_NEW_BUCKETS_PER_ADDRESS" "n \<in> X \<longleftrightarrow> nRefCount i = 0"
    using bookD(5) [OF bk n(1)] n(2) by (simp_all add: entry_ok_def)
  have mem: "b \<in> places HW ?k (vvNew s) n i" using b p v by (simp add: places_def)
  then show c: "0 < nRefCount i" using e(2) by (auto simp: card_gt_0_iff)
  then show nX: "n \<notin> X" using e(4) by simp
  have "places HW ?k ((vvNew s)(b := (vvNew s b)(p := -1))) n i = places HW ?k (vvNew s) n i - {b}"
    using places_set [OF b] p e(1) by simp
  then have "int (card (places HW ?k ((vvNew s)(b := (vvNew s b)(p := -1))) n i)) = nRefCount i - 1"
    using int_card_remove [OF finite_places mem] e(2) by (simp only:)
  then show "book HW priv (if nRefCount i - 1 = 0 then insert n X else X) Y (set_new b p (-1) (put_info n (i \<lparr> nRefCount := nRefCount i - 1 \<rparr>) s))"
    using book_refcount [OF bk n b p, of "-1" "i \<lparr> nRefCount := nRefCount i - 1 \<rparr>"] v e(3) nX
    by (cases "nRefCount i = 1") simp_all
qed

lemma book_ref:
  assumes bk: "book HW priv X Y s" and n: "mapInfo s n = Some i" "\<not> fInTried i" and b: "b < ADDRMAN_NEW_BUCKET_COUNT"
    and p: "p = GetBucketPosition HW (am_nKey s) True b i" and v: "vvNew s b p = -1" and r: "nRefCount i < ADDRMAN_NEW_BUCKETS_PER_ADDRESS"
  shows "book HW priv (X - {n}) Y (set_new b p n (put_info n (i \<lparr> nRefCount := nRefCount i + 1 \<rparr>) s))"
proof -
  let ?k = "am_nKey s"
  have e: "0 \<le> n" "nRefCount i = int (card (places HW ?k (vvNew s) n i))" using bookD(5) [OF bk n(1)] n(2) by (simp_all add: entry_ok_def)
  have "b \<notin> places HW ?k (vvNew s) n i" using p v e(1) by (simp add: places_def)
  moreover have "places HW ?k ((vvNew s)(b := (vvNew s b)(p := n))) n i = insert b (places HW ?k (vvNew s) n i)" using places_set [OF b] p by simp
  ultimately have "int (card (places HW ?k ((vvNew s)(b := (vvNew s b)(p := n))) n i)) = nRefCount i + 1" using e(2) by simp
  then show ?thesis
    using book_refcount [OF bk n b p, of n "i \<lparr> nRefCount := nRefCount i + 1 \<rparr>"] v r e(2) by simp
qed

section \<open>Clearing a bucket\<close>

definition cleared :: "nat \<Rightarrow> nat \<Rightarrow> CAddrMan \<Rightarrow> CAddrMan \<Rightarrow> bool" where
  "cleared b p s s' \<longleftrightarrow> (\<forall>n. n \<noteq> vvNew s b p \<longrightarrow> map_option strip (mapInfo s' n) = map_option strip (mapInfo s n)) \<and>
     vvNew s' = (vvNew s)(b := (vvNew s b)(p := -1)) \<and> vvTried s' = vvTried s \<and> am_nKey s' = am_nKey s \<and>
     nIdCount s' = nIdCount s \<and> discriminatePorts s' = discriminatePorts s"

lemma cleared_entry:
  assumes "cleared b p s s'" "n \<noteq> vvNew s b p" "mapInfo s n = Some i"
  shows "\<exists>j. mapInfo s' n = Some j \<and> strip i = strip j"
proof -
  have "map_option strip (mapInfo s' n) = Some (strip i)" using assms by (simp add: cleared_def)
  then show ?thesis by auto
qed

lemma ClearNew_ok:
  assumes bk: "book HW priv X Y s" and X: "finite X" "card X \<le> 4" "Y \<subseteq> X" and b: "b < ADDRMAN_NEW_BUCKET_COUNT" "p < ADDRMAN_BUCKET_SIZE"
  shows "\<exists>s'. ClearNew b p s = Inr s' \<and> book HW priv X Y s' \<and> cleared b p s s'"
proof (cases "vvNew s b p = -1")
  case True
  then have "(vvNew s)(b := (vvNew s b)(p := -1)) = vvNew s" by (auto simp: fun_eq_iff)
  then show ?thesis using True bk by (simp add: ClearNew_def cleared_def)
next
  case False
  define d where "d = vvNew s b p"
  obtain i where i: "mapInfo s d = Some i" "\<not> fInTried i" "p = GetBucketPosition HW (am_nKey s) True b i"
    using bookD(3) [OF bk] b False unfolding new_ok_def d_def by blast
  define s1 where "s1 = set_new b p (-1) (put_info d (i \<lparr> nRefCount := nRefCount i - 1 \<rparr>) s)"
  note U = book_unref [OF bk i(1,2) b(1) i(3) d_def [symmetric], folded s1_def]
  have fr: "cleared b p s s1" by (simp add: cleared_def s1_def set_new_def put_info_def d_def)
  have c: "ClearNew b p s = (if nRefCount i - 1 = 0 then Delete d s1 else Inr s1)"
    using False U(1) i(1) d_def by (simp add: ClearNew_def Let_def info_at_def s1_def)
  show ?thesis
  proof (cases "nRefCount i - 1 = 0")
    case True
    have bX: "book HW priv (insert d X) Y s1" using U(3) True by simp
    have cX: "finite (insert d X)" "card (insert d X) \<le> 5" "d \<notin> Y" using X U(2) by auto
    have e: "mapInfo s1 d = Some (i \<lparr> nRefCount := nRefCount i - 1 \<rparr>)" by (simp add: s1_def set_new_def put_info_def)
    obtain s2 where s2: "Delete d s1 = Inr s2" "book HW priv (insert d X - {d}) Y s2" "erased d s1 s2"
      using Delete_ok [OF bX cX(1,2) e _ _ cX(3)] i(2) True by auto
    have "cleared b p s s2" using s2(3) fr unfolding cleared_def erased_def same_entries_def d_def by (auto split: if_splits)
    then show ?thesis using c True s2(1,2) U(2) by (intro exI [of _ s2]) simp
  next
    case no: False
    then show ?thesis using c U(3) fr by auto
  qed
qed

section \<open>Moving entries between the tables\<close>

lemma put_other_tried:
  assumes "tried_ok HW priv k m vt" "m e = Some i" "vt' = vt(b := (vt b)(p := -1))" "b = GetTriedBucket HW priv k i" "p = GetBucketPosition HW k False b i"
  shows "tried_ok HW priv k (m(e \<mapsto> i')) vt'"
  unfolding tried_ok_def
proof (intro allI impI)
  fix b' p'
  assume r: "b' < ADDRMAN_TRIED_BUCKET_COUNT" "p' < ADDRMAN_BUCKET_SIZE" "vt' b' p' \<noteq> -1"
  then have ne: "\<not> (b' = b \<and> p' = p)" "vt' b' p' = vt b' p'" using assms(3) by auto
  then obtain j where j: "m (vt b' p') = Some j" "fInTried j" "GetTriedBucket HW priv k j = b'" "GetBucketPosition HW k False b' j = p'"
    using assms(1) r unfolding tried_ok_def by metis
  then have "vt b' p' \<noteq> e" using ne(1) assms(2,4,5) by auto
  then show "\<exists>j. (m(e \<mapsto> i')) (vt' b' p') = Some j \<and> fInTried j \<and> GetTriedBucket HW priv k j = b' \<and> GetBucketPosition HW k False b' j = p'"
    using j ne(2) by simp
qed

lemma book_evict:
  assumes bk: "book HW priv X Y s" and e: "mapInfo s e = Some i" "fInTried i"
    and b: "b = GetTriedBucket HW priv (am_nKey s) i" "p = GetBucketPosition HW (am_nKey s) False b i"
  shows "book HW priv (insert e X) (insert e Y) ((set_tried b p (-1) (put_info e (i \<lparr> fInTried := False \<rparr>) s)) \<lparr> nTried := nTried s - 1 \<rparr>)"
proof -
  let ?k = "am_nKey s" and ?i = "i \<lparr> fInTried := False \<rparr>" and ?vt = "(vvTried s)(b := (vvTried s b)(p := -1))"
  let ?m = "(mapInfo s)(e \<mapsto> ?i)"
  note B = bookD [OF bk]
  have al: "alike i ?i" by (simp add: alike_def service_key_def)
  have ei: "0 \<le> e" "nRefCount i = 0" "vvTried s b p = e" using B(5) [OF e(1)] e(2) b by (simp_all add: entry_ok_def)
  have notnew: "vvNew s c q \<noteq> e" if "c < ADDRMAN_NEW_BUCKET_COUNT" "q < ADDRMAN_BUCKET_SIZE" for c q
    using B(3) that e ei(1) unfolding new_ok_def by fastforce
  then have "places HW ?k (vvNew s) e ?i = {}" using place_bounds(1) unfolding places_def by blast
  then have ee: "entry_ok HW priv ?k (insert e X) (vvNew s) ?vt (nIdCount s) e ?i"
    using B(5) [OF e(1)] ei by (simp add: entry_ok_def ADDRMAN_NEW_BUCKETS_PER_ADDRESS_def)
  have "entry_ok HW priv ?k (insert e X) (vvNew s) ?vt (nIdCount s) l j" if l: "?m l = Some j" for l j
  proof (cases "l = e")
    case True
    then show ?thesis using ee l by simp
  next
    case False
    then show ?thesis using B(5) [of l j] l ei(3) by (auto simp: entry_ok_def split: if_splits)
  qed
  moreover have "new_ok HW ?k ?m (vvNew s)" using B(3) notnew by (simp add: new_ok_def)
  moreover have "new_ids ?m - insert e Y = new_ids (mapInfo s) - Y" "tried_ids ?m = tried_ids (mapInfo s) - {e}" "e \<in> tried_ids (mapInfo s)"
    using e by (auto simp: new_ids_def tried_ids_def)
  moreover from this have "int (card (tried_ids ?m)) = nTried s - 1"
    using int_card_remove [OF finite_ids(1) [OF random_finite [OF B(1)]]] B(6) by (simp only:)
  ultimately show ?thesis
    using B(7,8) alike_random [OF e(1) al B(1)] alike_index [OF e(1) al B(2)] put_other_tried [OF B(4) e(1) refl b]
    by (simp add: book_def put_info_def set_tried_def)
qed

lemma book_enter:
  assumes bk: "book HW priv X Y s" and n: "mapInfo s n = Some i" "\<not> fInTried i" "nRefCount i = 0" "nLastSuccess i \<noteq> 0" "n \<in> Y"
    and b: "b = GetTriedBucket HW priv (am_nKey s) i" "p = GetBucketPosition HW (am_nKey s) False b i" "vvTried s b p = -1"
  shows "book HW priv (X - {n}) (Y - {n}) (put_info n (i \<lparr> fInTried := True \<rparr>) ((set_tried b p n s) \<lparr> nTried := nTried s + 1 \<rparr>))"
proof -
  let ?k = "am_nKey s" and ?i = "i \<lparr> fInTried := True \<rparr>" and ?vt = "(vvTried s)(b := (vvTried s b)(p := n))"
  let ?m = "(mapInfo s)(n \<mapsto> ?i)"
  note B = bookD [OF bk]
  have al: "alike i ?i" by (simp add: alike_def service_key_def)
  note pl = alike_pos(1) [OF al] alike_pos(2) [OF al]
  have "tried_ok HW priv ?k ?m (vvTried s)" using B(4) n(1,2) unfolding tried_ok_def by fastforce
  then have tr: "tried_ok HW priv ?k ?m ?vt" by (rule tried_ok_set) (use b pl in auto)
  have nw: "new_ok HW ?k ?m (vvNew s)" using B(3) book_unplaced [OF bk n(1-3)] by (simp add: new_ok_def)
  have "entry_ok HW priv ?k (X - {n}) (vvNew s) ?vt (nIdCount s) l j" if l: "?m l = Some j" for l j
  proof (cases "l = n")
    case True
    then show ?thesis using l B(5) [OF n(1)] n b pl by (auto simp: entry_ok_def)
  next
    case False
    then show ?thesis using B(5) [of l j] l b(3) by (auto simp: entry_ok_def split: if_splits)
  qed
  moreover have "new_ids ?m - (Y - {n}) = new_ids (mapInfo s) - Y" "tried_ids ?m = insert n (tried_ids (mapInfo s))" "n \<notin> tried_ids (mapInfo s)"
    using n by (auto simp: new_ids_def tried_ids_def)
  moreover from this have "int (card (tried_ids ?m)) = nTried s + 1"
    using int_card_insert [OF finite_ids(1) [OF random_finite [OF B(1)]]] B(6) by (simp only:)
  ultimately show ?thesis
    using B(7,8) alike_random [OF n(1) al B(1)] alike_index [OF n(1) al B(2)] tr nw
    by (simp add: book_def put_info_def set_tried_def)
qed

lemma book_uncount:
  assumes bk: "book HW priv X Y s" and n: "mapInfo s n = Some i" "\<not> fInTried i" "n \<notin> Y"
  shows "book HW priv X (insert n Y) (s \<lparr> nNew := nNew s - 1 \<rparr>)"
proof -
  have "n \<in> new_ids (mapInfo s) - Y" "new_ids (mapInfo s) - insert n Y = new_ids (mapInfo s) - Y - {n}" using n by (auto simp: new_ids_def)
  then have "int (card (new_ids (mapInfo s) - insert n Y)) = nNew s - 1"
    using int_card_remove [of "new_ids (mapInfo s) - Y" n] finite_ids(2) [OF random_finite [OF bookD(1) [OF bk]]] bookD(7) [OF bk] by simp
  then show ?thesis using bk by (simp add: book_def)
qed

lemma book_count:
  assumes bk: "book HW priv X Y s" and n: "mapInfo s n = Some i" "\<not> fInTried i" "n \<in> Y"
  shows "book HW priv X (Y - {n}) (s \<lparr> nNew := nNew s + 1 \<rparr>)"
proof -
  have "n \<notin> new_ids (mapInfo s) - Y" "new_ids (mapInfo s) - (Y - {n}) = insert n (new_ids (mapInfo s) - Y)" using n by (auto simp: new_ids_def)
  then have "int (card (new_ids (mapInfo s) - (Y - {n}))) = nNew s + 1"
    using int_card_insert [of "new_ids (mapInfo s) - Y" n] finite_ids(2) [OF random_finite [OF bookD(1) [OF bk]]] bookD(7) [OF bk] by simp
  then show ?thesis using bk by (simp add: book_def)
qed

lemma put_set_new: "put_info n i (set_new b p v s) = set_new b p v (put_info n i s)"
  by (cases s) (simp add: put_info_def set_new_def)

lemma remove_from_new_ok:
  assumes "book HW priv (if nRefCount i = 0 then insert n X else X) Y s" "mapInfo s n = Some i" "\<not> fInTried i" "n \<notin> X" "set bs \<subseteq> {..<ADDRMAN_NEW_BUCKET_COUNT}"
  shows "\<exists>c. mapInfo (remove_from_new HW n bs s) n = Some (i \<lparr> nRefCount := c \<rparr>) \<and>
    book HW priv (if c = 0 then insert n X else X) Y (remove_from_new HW n bs s) \<and>
    (\<forall>b \<in> set bs. vvNew (remove_from_new HW n bs s) b (GetBucketPosition HW (am_nKey s) True b i) \<noteq> n) \<and>
    (\<forall>b q. vvNew s b q \<noteq> n \<longrightarrow> vvNew (remove_from_new HW n bs s) b q \<noteq> n) \<and>
    am_nKey (remove_from_new HW n bs s) = am_nKey s"
  using assms
proof (induction bs arbitrary: s i)
  case Nil
  have "i = i \<lparr> nRefCount := nRefCount i \<rparr>" by simp
  then show ?case using Nil by (intro exI [of _ "nRefCount i"]) simp
next
  case (Cons b bs)
  let ?p = "GetBucketPosition HW (am_nKey s) True b i"
  have inf: "info_at s n = i" using Cons.prems(2) by (simp add: info_at_def)
  have pos: "0 \<le> n" using bookD(5) [OF Cons.prems(1,2)] by (simp add: entry_ok_def)
  show ?case
  proof (cases "vvNew s b ?p = n")
    case False
    have st: "remove_from_new HW n (b # bs) s = remove_from_new HW n bs s" using inf False by (simp add: Let_def)
    obtain c where c: "mapInfo (remove_from_new HW n bs s) n = Some (i \<lparr> nRefCount := c \<rparr>)"
      "book HW priv (if c = 0 then insert n X else X) Y (remove_from_new HW n bs s)"
      "\<forall>b \<in> set bs. vvNew (remove_from_new HW n bs s) b (GetBucketPosition HW (am_nKey s) True b i) \<noteq> n"
      "\<forall>b q. vvNew s b q \<noteq> n \<longrightarrow> vvNew (remove_from_new HW n bs s) b q \<noteq> n" "am_nKey (remove_from_new HW n bs s) = am_nKey s"
      using Cons.IH [OF Cons.prems(1-4)] Cons.prems(5) by auto
    then show ?thesis unfolding st using False by (intro exI [of _ c]) simp
  next
    case True
    define s1 where "s1 = set_new b ?p (-1) (put_info n (i \<lparr> nRefCount := nRefCount i - 1 \<rparr>) s)"
    have b: "b < ADDRMAN_NEW_BUCKET_COUNT" using Cons.prems(5) by simp
    note U = book_unref [OF Cons.prems(1-3) b refl True, folded s1_def]
    have st: "remove_from_new HW n (b # bs) s = remove_from_new HW n bs s1"
      using inf True by (simp add: Let_def s1_def put_set_new)
    have k: "service_key (i \<lparr> nRefCount := x \<rparr>) = service_key i" for x by (simp add: service_key_def)
    have s1: "mapInfo s1 n = Some (i \<lparr> nRefCount := nRefCount i - 1 \<rparr>)" "am_nKey s1 = am_nKey s" "\<not> fInTried (i \<lparr> nRefCount := nRefCount i - 1 \<rparr>)"
      "\<forall>c q. vvNew s c q \<noteq> n \<longrightarrow> vvNew s1 c q \<noteq> n" "vvNew s1 b ?p \<noteq> n"
      using Cons.prems(3) pos by (auto simp: s1_def set_new_def put_info_def)
    have bk1: "book HW priv (if nRefCount (i \<lparr> nRefCount := nRefCount i - 1 \<rparr>) = 0 then insert n X else X) Y s1"
      using U by (auto split: if_splits)
    obtain c where c: "mapInfo (remove_from_new HW n bs s1) n = Some (i \<lparr> nRefCount := c \<rparr>)"
      "book HW priv (if c = 0 then insert n X else X) Y (remove_from_new HW n bs s1)"
      "\<forall>b \<in> set bs. vvNew (remove_from_new HW n bs s1) b (GetBucketPosition HW (am_nKey s) True b i) \<noteq> n"
      "\<forall>b q. vvNew s1 b q \<noteq> n \<longrightarrow> vvNew (remove_from_new HW n bs s1) b q \<noteq> n" "am_nKey (remove_from_new HW n bs s1) = am_nKey s"
      using Cons.IH [OF bk1 s1(1,3) Cons.prems(4)] Cons.prems(5) s1(2) place_key(1) [OF k] by auto
    then show ?thesis unfolding st using s1(4,5) by (intro exI [of _ c]) simp
  qed
qed

lemma evict_tried_ok:
  assumes bk: "book HW priv {n} {n} s" and n: "mapInfo s n = Some i" "\<not> fInTried i"
    and b: "b < ADDRMAN_TRIED_BUCKET_COUNT" "p < ADDRMAN_BUCKET_SIZE"
  shows "\<exists>s' j. evict_tried HW priv b p s = Inr s' \<and> book HW priv {n} {n} s' \<and> vvTried s' b p = -1 \<and> mapInfo s' n = Some j \<and> strip i = strip j \<and>
    am_nKey s' = am_nKey s"
proof (cases "vvTried s b p = -1")
  case True
  then show ?thesis using bk n by (simp add: evict_tried_def)
next
  case False
  define e where "e = vvTried s b p"
  obtain ie where ie: "mapInfo s e = Some ie" "fInTried ie" "b = GetTriedBucket HW priv (am_nKey s) ie" "p = GetBucketPosition HW (am_nKey s) False b ie"
    using bookD(4) [OF bk] b False unfolding tried_ok_def e_def by metis
  have ne: "e \<noteq> n" using n ie by auto
  define i1 where "i1 = ie \<lparr> fInTried := False \<rparr>"
  define s1 where "s1 = (set_tried b p (-1) (put_info e i1 s)) \<lparr> nTried := nTried s - 1 \<rparr>"
  have b1: "book HW priv {e, n} {e, n} s1" unfolding s1_def i1_def by (rule book_evict [OF bk ie])
  have m1: "mapInfo s1 e = Some i1" "mapInfo s1 n = Some i" "am_nKey s1 = am_nKey s" "vvTried s1 b p = -1" "nRefCount i1 = 0" "\<not> fInTried i1"
    using n ne bookD(5) [OF bk ie(1)] ie(2) by (simp_all add: s1_def i1_def put_info_def set_tried_def entry_ok_def)
  let ?u = "GetNewBucket HW priv (am_nKey s) i1 (ai_source i1)"
  let ?q = "GetBucketPosition HW (am_nKey s) True ?u i1"
  have u: "?u < ADDRMAN_NEW_BUCKET_COUNT" "?q < ADDRMAN_BUCKET_SIZE" by (rule place_bounds)+
  obtain s2 where s2: "ClearNew ?u ?q s1 = Inr s2" "book HW priv {e, n} {e, n} s2" "cleared ?u ?q s1 s2"
    using ClearNew_ok [OF b1 _ _ subset_refl u] ne by (auto simp: card_insert_if)
  have "vvNew s1 ?u ?q \<noteq> e" by (rule book_unplaced [OF b1 m1(1,6,5) u])
  then obtain j where j: "mapInfo s2 e = Some j" "strip i1 = strip j" using cleared_entry [OF s2(3) _ m1(1)] by blast
  have rn: "nRefCount i = 0" using book_ref0 [OF bk n] by simp
  have "vvNew s1 ?u ?q \<noteq> n" by (rule book_unplaced [OF b1 m1(2) n(2) rn u])
  then obtain j' where j': "mapInfo s2 n = Some j'" "strip i = strip j'" using cleared_entry [OF s2(3) _ m1(2)] by blast
  have k2: "am_nKey s2 = am_nKey s" "vvNew s2 ?u ?q = -1" "vvTried s2 b p = -1" using s2(3) m1(3,4) by (auto simp: cleared_def)
  have jf: "\<not> fInTried j" "nRefCount j = 0" "?q = GetBucketPosition HW (am_nKey s2) True ?u j"
    using m1(5,6) strip_fields(1,2,3) [OF j(2)] place_key(1) [OF strip_fields(1) [OF j(2)]] k2(1) by simp_all
  define s3 where "s3 = set_new ?u ?q e (put_info e (j \<lparr> nRefCount := 1 \<rparr>) s2)"
  have "book HW priv ({e, n} - {e}) {e, n} s3"
    using book_ref [OF s2(2) j(1) jf(1) u(1) jf(3) k2(2)] jf(2) by (simp add: s3_def ADDRMAN_NEW_BUCKETS_PER_ADDRESS_def)
  then have b3: "book HW priv {n} {e, n} s3" using ne by (simp add: insert_Diff_if)
  have m3: "mapInfo s3 e = Some (j \<lparr> nRefCount := 1 \<rparr>)" "\<not> fInTried (j \<lparr> nRefCount := 1 \<rparr>)" using jf(1) by (simp_all add: s3_def set_new_def put_info_def)
  have "book HW priv {n} ({e, n} - {e}) (s3 \<lparr> nNew := nNew s3 + 1 \<rparr>)" by (rule book_count [OF b3 m3]) simp
  then have b4: "book HW priv {n} {n} (s3 \<lparr> nNew := nNew s3 + 1 \<rparr>)" using ne by (simp add: insert_Diff_if)
  have "evict_tried HW priv b p s = Inr (s3 \<lparr> nNew := nNew s3 + 1 \<rparr>)"
    using False ie(1) s2(1) j(1) k2(2) m1(1,3) by (simp add: evict_tried_def Let_def e_def [symmetric] info_at_def i1_def [symmetric] s1_def s3_def put_info_def set_tried_def)
  moreover have "mapInfo s3 n = Some j'" "vvTried s3 b p = -1" "am_nKey s3 = am_nKey s" using j'(1) ne k2 by (simp_all add: s3_def set_new_def put_info_def)
  ultimately show ?thesis using b4 j'(2) by simp
qed

lemma MakeTried_ok:
  assumes bk: "book HW priv {} {} s" and n: "mapInfo s n = Some i" "\<not> fInTried i" "nLastSuccess i \<noteq> 0"
  shows "\<exists>s'. MakeTried HW priv n s = Inr s' \<and> book HW priv {} {} s'"
proof -
  let ?k = "am_nKey s" and ?bs = "[0..<ADDRMAN_NEW_BUCKET_COUNT]"
  have "nRefCount i \<noteq> 0" using book_ref0 [OF bk n(1,2)] by simp
  then have b0: "book HW priv (if nRefCount i = 0 then insert n {} else {}) {} s" using bk by simp
  have ne: "n \<notin> {}" and sub: "set ?bs \<subseteq> {..<ADDRMAN_NEW_BUCKET_COUNT}" by auto
  define s1 where "s1 = remove_from_new HW n ?bs s"
  obtain c where c: "mapInfo s1 n = Some (i \<lparr> nRefCount := c \<rparr>)" "book HW priv (if c = 0 then insert n {} else {}) {} s1"
    "\<forall>b \<in> set ?bs. vvNew s1 b (GetBucketPosition HW ?k True b i) \<noteq> n" "am_nKey s1 = ?k"
    using remove_from_new_ok [OF b0 n(1,2) ne sub, folded s1_def] by blast
  define i1 where "i1 = i \<lparr> nRefCount := c \<rparr>"
  have i1: "\<not> fInTried i1" "nLastSuccess i1 \<noteq> 0" "nRefCount i1 = c" "service_key i1 = service_key i" using n by (simp_all add: i1_def service_key_def)
  have "places HW ?k (vvNew s1) n i1 = {}" using c(3) place_key(1) [OF i1(4)] by (auto simp: places_def)
  then have c0: "c = 0" using bookD(5) [OF c(2,1)] i1 c(4) by (simp add: entry_ok_def i1_def)
  have b1: "book HW priv {n} {} s1" using c(2) c0 by simp
  define s2 where "s2 = s1 \<lparr> nNew := nNew s1 - 1 \<rparr>"
  have m1: "mapInfo s1 n = Some i1" using c(1) by (simp add: i1_def)
  have b2: "book HW priv {n} {n} s2" unfolding s2_def using book_uncount [OF b1 m1 i1(1)] by simp
  let ?b = "GetTriedBucket HW priv ?k i1"
  let ?p = "GetBucketPosition HW ?k False ?b i1"
  have m2: "mapInfo s2 n = Some i1" "am_nKey s2 = ?k" using m1 c(4) by (simp_all add: s2_def)
  obtain s3 j where s3: "evict_tried HW priv ?b ?p s2 = Inr s3" "book HW priv {n} {n} s3" "vvTried s3 ?b ?p = -1" "mapInfo s3 n = Some j" "strip i1 = strip j"
    "am_nKey s3 = am_nKey s2" using evict_tried_ok [OF b2 m2(1) i1(1) place_bounds(2) place_bounds(1)] by blast
  have j: "\<not> fInTried j" "nRefCount j = 0" "nLastSuccess j \<noteq> 0" "?b = GetTriedBucket HW priv (am_nKey s3) j" "?p = GetBucketPosition HW (am_nKey s3) False ?b j"
    using i1(1-3) c0 strip_fields(1,2,3,5) [OF s3(5)] place_key [OF strip_fields(1) [OF s3(5)]] s3(6) m2(2) by simp_all
  have b4: "book HW priv ({n} - {n}) ({n} - {n}) (put_info n (j \<lparr> fInTried := True \<rparr>) ((set_tried ?b ?p n s3) \<lparr> nTried := nTried s3 + 1 \<rparr>))"
    by (rule book_enter [OF s3(2,4) j(1-3) _ j(4,5) s3(3)]) simp
  have inf: "info_at s2 n = i1" using m2(1) by (simp add: info_at_def)
  have "MakeTried HW priv n s = Inr (put_info n (j \<lparr> fInTried := True \<rparr>) ((set_tried ?b ?p n s3) \<lparr> nTried := nTried s3 + 1 \<rparr>))"
    using s3(1,3,4) i1(3) c0 m2(2) inf unfolding MakeTried_def s1_def [symmetric] Let_def s2_def [symmetric]
    by (simp add: info_at_def set_tried_def)
  then show ?thesis using b4 by simp
qed

section \<open>The operations keep the invariant\<close>

text \<open>Times are not negative; a successful connection does not happen at time 0.\<close>

lemma Find_entry: "Find s a = Some (n, i) \<Longrightarrow> mapInfo s n = Some i"
  by (auto simp: Find_def split: option.splits)

lemma book_last_good: "book HW priv X Y (s \<lparr> nLastGood := t \<rparr>) = book HW priv X Y s"
  by (simp add: book_def)

lemma am_Good_ok:
  assumes bk: "book HW priv {} {} s" and t: "0 < time"
  shows "\<exists>s'. am_Good HW priv nRnd addr time s = Inr s' \<and> book HW priv {} {} s'"
proof -
  define s1 where "s1 = s \<lparr> nLastGood := time \<rparr>"
  have b1: "book HW priv {} {} s1" using bk by (simp add: s1_def book_last_good)
  show ?thesis
  proof (cases "Find s1 addr")
    case None
    then show ?thesis using b1 by (simp add: am_Good_def s1_def [symmetric])
  next
    case (Some ni)
    obtain n i where ni: "ni = (n, i)" by (cases ni)
    define i1 where "i1 = i \<lparr> nLastSuccess := time, nLastTry := time, nAttempts := 0 \<rparr>"
    have m: "mapInfo s1 n = Some i" using Find_entry Some ni by blast
    have b2: "book HW priv {} {} (put_info n i1 s1)"
      by (rule book_put [OF b1 m]) (use t in \<open>simp_all add: i1_def alike_def service_key_def\<close>)
    have "\<exists>s'. MakeTried HW priv n (put_info n i1 s1) = Inr s' \<and> book HW priv {} {} s'" if "\<not> fInTried i1"
      by (rule MakeTried_ok [OF b2 _ that]) (use t in \<open>simp_all add: put_info_def i1_def\<close>)
    then show ?thesis using b1 b2 Some ni unfolding am_Good_def s1_def [symmetric]
      by (auto simp: Let_def i1_def [symmetric] split: option.splits)
  qed
qed

lemma place_entry_ok:
  assumes bk: "book HW priv X {} s" and n: "mapInfo s n = Some i" "\<not> fInTried i" "nRefCount i < ADDRMAN_NEW_BUCKETS_PER_ADDRESS"
    and X: "X = (if nRefCount i = 0 then {n} else {})"
  shows "\<exists>s'. place_entry HW priv now src n s = Inr s' \<and> book HW priv {} {} s'"
proof -
  let ?b = "GetNewBucket HW priv (am_nKey s) i src"
  let ?p = "GetBucketPosition HW (am_nKey s) True ?b i" and ?e = "vvNew s ?b (GetBucketPosition HW (am_nKey s) True ?b i)"
  have u: "?b < ADDRMAN_NEW_BUCKET_COUNT" "?p < ADDRMAN_BUCKET_SIZE" by (rule place_bounds)+
  have inf: "info_at s n = i" using n(1) by (simp add: info_at_def)
  have Xc: "finite X" "card X \<le> 4" "X - {n} = {}" using X by (auto split: if_splits)
  have touch: "put_info ?e (info_at s ?e) s = s" if ne: "?e \<noteq> -1"
  proof -
    obtain j where "mapInfo s ?e = Some j" using bookD(3) [OF bk] u ne unfolding new_ok_def by blast
    then show ?thesis by (simp add: put_info_def info_at_def map_upd_triv)
  qed
  define ins where "ins \<longleftrightarrow> ?e = -1 \<or> IsTerrible now (info_at s ?e) \<or> nRefCount (info_at s ?e) > 1 \<and> nRefCount i = 0"
  have step: "place_entry HW priv now src n s =
    (if ?e = n then Inr s
     else if ins then and_then (ClearNew ?b ?p s) (\<lambda>s. Inr (set_new ?b ?p n (put_info n ((info_at s n) \<lparr> nRefCount := nRefCount (info_at s n) + 1 \<rparr>) s)))
     else if nRefCount i = 0 then Delete n s else Inr s)"
    using inf touch by (simp add: place_entry_def Let_def ins_def)
  have nX: "nRefCount i = 0 \<longleftrightarrow> n \<in> X" using book_ref0 [OF bk n(1,2)] .
  consider (here) "?e = n" | (insert) "?e \<noteq> n" ins | (drop) "?e \<noteq> n" "\<not> ins" "nRefCount i = 0" | (stay) "?e \<noteq> n" "\<not> ins" "nRefCount i \<noteq> 0" by blast
  then show ?thesis
  proof cases
    case here
    then have "nRefCount i \<noteq> 0" using book_unplaced [OF bk n(1,2) _ u] by blast
    then show ?thesis using here step bk X by simp
  next
    case insert
    obtain s1 where s1: "ClearNew ?b ?p s = Inr s1" "book HW priv X {} s1" "cleared ?b ?p s s1" using ClearNew_ok [OF bk Xc(1,2) _ u] by auto
    obtain j where j: "mapInfo s1 n = Some j" "strip i = strip j" using cleared_entry [OF s1(3) insert(1) [symmetric] n(1)] by blast
    have k: "am_nKey s1 = am_nKey s" "vvNew s1 ?b ?p = -1" using s1(3) by (auto simp: cleared_def)
    have jf: "\<not> fInTried j" "nRefCount j < ADDRMAN_NEW_BUCKETS_PER_ADDRESS" "?p = GetBucketPosition HW (am_nKey s1) True ?b j" "info_at s1 n = j"
      using n strip_fields(2,3) [OF j(2)] place_key(1) [OF strip_fields(1) [OF j(2)]] k(1) j(1) by (simp_all add: info_at_def)
    have "book HW priv (X - {n}) {} (set_new ?b ?p n (put_info n (j \<lparr> nRefCount := nRefCount j + 1 \<rparr>) s1))"
      by (rule book_ref [OF s1(2) j(1) jf(1) u(1) jf(3) k(2) jf(2)])
    then show ?thesis using step insert s1(1) jf(4) Xc(3) by simp
  next
    case drop
    obtain s1 where "Delete n s = Inr s1" "book HW priv (X - {n}) {} s1" using Delete_ok [OF bk Xc(1) _ n(1,2) drop(3)] Xc(2) by auto
    then show ?thesis using step drop Xc(3) by simp
  next
    case stay
    then show ?thesis using step bk X by simp
  qed
qed

lemma refresh_entry_ok:
  assumes bk: "book HW priv {} {} s" and n: "mapInfo s n = Some i" and r: "refresh_entry now RandomInt addr pen n s = (go, s')"
  shows "book HW priv {} {} s' \<and> (go \<longrightarrow> (\<exists>j. mapInfo s' n = Some j \<and> \<not> fInTried j \<and> nRefCount j < ADDRMAN_NEW_BUCKETS_PER_ADDRESS \<and> nRefCount j \<noteq> 0))"
proof -
  define t where "t = (if ad_nTime addr \<noteq> 0 \<and> (ad_nTime i = 0 \<or> uint (ad_nTime i) <
      uint (ad_nTime addr) - (if now - uint (ad_nTime addr) < 24 * 60 * 60 then 60 * 60 else 24 * 60 * 60) - pen)
    then late_time (uint (ad_nTime addr) - pen) else ad_nTime i)"
  define j where "j = i \<lparr> ad_nTime := t, nServices := or (nServices i) (nServices addr) \<rparr>"
  have e: "entry_ok HW priv (am_nKey s) {} (vvNew s) (vvTried s) (nIdCount s) n i" using bookD(5) [OF bk n] .
  have bj: "book HW priv {} {} (put_info n j s)"
    by (rule book_put [OF bk n]) (use e in \<open>auto simp: j_def alike_def service_key_def entry_ok_def\<close>)
  have inf: "info_at s n = i" using n by (simp add: info_at_def)
  have "s' = put_info n j s \<and> (go \<longrightarrow> \<not> fInTried i \<and> nRefCount i \<noteq> ADDRMAN_NEW_BUCKETS_PER_ADDRESS)"
    using r unfolding refresh_entry_def Let_def inf by (auto simp: j_def t_def split: if_splits)
  moreover have "nRefCount i \<le> ADDRMAN_NEW_BUCKETS_PER_ADDRESS \<and> nRefCount i \<noteq> 0" if "\<not> fInTried i"
    using e that by (auto simp only: entry_ok_def if_False)
  ultimately show ?thesis using bj by (auto simp: put_info_def j_def)
qed

lemma Create_ok:
  assumes bk: "book HW priv {} {} s" and new: "Find s addr = None"
  shows "\<exists>s' i. Create addr src s = (nIdCount s, s') \<and> book HW priv {nIdCount s} {nIdCount s} s' \<and> mapInfo s' (nIdCount s) = Some i \<and>
    \<not> fInTried i \<and> nRefCount i = 0 \<and> nLastTry i = 0 \<and> nLastSuccess i = 0"
proof -
  let ?n = "nIdCount s" and ?d = "discriminatePorts s"
  note B = bookD [OF bk]
  define i where "i = (CAddrInfo_make addr src) \<lparr> nRandomPos := int (length (vRandom s)) \<rparr>"
  let ?m = "(mapInfo s)(?n \<mapsto> i)" and ?a = "(mapAddr s)(addr_key ?d addr \<mapsto> ?n)" and ?v = "vRandom s @ [?n]"
  let ?s = "s \<lparr> nIdCount := ?n + 1, mapInfo := ?m, mapAddr := ?a, vRandom := ?v \<rparr>"
  have free: "mapInfo s ?n = None" using B(5) [of ?n] by (cases "mapInfo s ?n") (auto simp: entry_ok_def)
  have key: "addr_key ?d i = addr_key ?d addr" by (simp add: i_def CAddrInfo_make_def addr_key_def service_key_def SetPort_def)
  have ix0: "mapAddr s k = Some l \<longleftrightarrow> (\<exists>j. mapInfo s l = Some j \<and> addr_key ?d j = k)" for k l using B(2) unfolding index_ok_def by blast
  have nokey: "mapAddr s (addr_key ?d addr) = None" using new ix0 by (auto simp: Find_def split: option.splits)
  have ix: "index_ok ?d ?m ?a" unfolding index_ok_def
  proof (intro allI)
    fix k l
    show "?a k = Some l \<longleftrightarrow> (\<exists>j. ?m l = Some j \<and> addr_key ?d j = k)"
      using ix0 [of k l] free key nokey ix0 [of "addr_key ?d addr" l] by (cases "l = ?n") auto
  qed
  have rd: "random_ok ?m ?v" using B(1) free unfolding random_ok_def
    by (auto simp: i_def nth_append less_Suc_eq)
  have "entry_ok HW priv (am_nKey s) {?n} (vvNew s) (vvTried s) (?n + 1) l j" if l: "?m l = Some j" for l j
  proof (cases "l = ?n")
    case True
    have "vvNew s b p \<noteq> ?n" if "b < ADDRMAN_NEW_BUCKET_COUNT" "p < ADDRMAN_BUCKET_SIZE" for b p
    proof
      assume v: "vvNew s b p = ?n"
      then have "vvNew s b p \<noteq> -1" using B(8) by simp
      then show False using B(3) [unfolded new_ok_def, rule_format, OF that] v free by simp
    qed
    then have "places HW (am_nKey s) (vvNew s) ?n i = {}" using place_bounds(1) unfolding places_def by blast
    then show ?thesis using l True B(8) by (auto simp: entry_ok_def i_def CAddrInfo_make_def ADDRMAN_NEW_BUCKETS_PER_ADDRESS_def)
  next
    case False
    then show ?thesis using B(5) [of l j] l by (auto simp: entry_ok_def split: if_splits)
  qed
  moreover have "new_ok HW (am_nKey s) ?m (vvNew s)" "tried_ok HW priv (am_nKey s) ?m (vvTried s)"
    using B(3,4) free unfolding new_ok_def tried_ok_def by fastforce+
  moreover have "new_ids ?m - {?n} = new_ids (mapInfo s)" "tried_ids ?m = tried_ids (mapInfo s)"
    using free by (auto simp: new_ids_def tried_ids_def i_def CAddrInfo_make_def)
  ultimately have "book HW priv {?n} {?n} ?s" using ix rd B(6-8) by (simp add: book_def)
  moreover have "Create addr src s = (?n, ?s)" by (simp add: Create_def Let_def put_info_def info_at_def i_def)
  ultimately show ?thesis by (simp add: i_def CAddrInfo_make_def)
qed

lemma am_Add_ok:
  assumes bk: "book HW priv {} {} s"
  shows "\<exists>r s'. am_Add HW priv now RandomInt addr src pen s = Inr (r, s') \<and> book HW priv {} {} s'"
proof -
  define pen' where "pen' = (if NetAddr_eq addr src then 0 else pen)"
  show ?thesis
  proof (cases "\<not> IsRoutable priv addr")
    case True
    then show ?thesis using bk by (auto simp: am_Add_def)
  next
    case rt: False
    show ?thesis
    proof (cases "Find s addr")
      case None
      obtain s1 i where c: "Create addr src s = (nIdCount s, s1)" "book HW priv {nIdCount s} {nIdCount s} s1" "mapInfo s1 (nIdCount s) = Some i"
        "\<not> fInTried i" "nRefCount i = 0" "nLastTry i = 0" "nLastSuccess i = 0" using Create_ok [OF bk None] by blast
      let ?n = "nIdCount s"
      define j where "j = i \<lparr> ad_nTime := late_time (uint (ad_nTime i) - pen') \<rparr>"
      define s2 where "s2 = put_info ?n j s1"
      have b2: "book HW priv {?n} {?n} s2" unfolding s2_def
        by (rule book_put [OF c(2,3)]) (use c in \<open>simp_all add: j_def alike_def service_key_def\<close>)
      have j: "mapInfo s2 ?n = Some j" "\<not> fInTried j" "nRefCount j = 0" using c by (simp_all add: s2_def j_def put_info_def)
      have b3: "book HW priv {?n} {} (s2 \<lparr> nNew := nNew s2 + 1 \<rparr>)" using book_count [OF b2 j(1,2)] by simp
      obtain s3 where "place_entry HW priv now src ?n (s2 \<lparr> nNew := nNew s2 + 1 \<rparr>) = Inr s3" "book HW priv {} {} s3"
        using place_entry_ok [OF b3, of ?n j now src] j by (auto simp: ADDRMAN_NEW_BUCKETS_PER_ADDRESS_def)
      then show ?thesis using rt None c(1,3) by (auto simp: am_Add_def Let_def pen'_def [symmetric] info_at_def s2_def j_def)
    next
      case (Some ni)
      obtain n i where ni: "ni = (n, i)" by (cases ni)
      obtain go s1 where r: "refresh_entry now RandomInt addr pen' n s = (go, s1)" by (cases "refresh_entry now RandomInt addr pen' n s")
      have "mapInfo s n = Some i" using Find_entry Some ni by blast
      note R = refresh_entry_ok [OF bk this r]
      show ?thesis
      proof (cases go)
        case False
        then show ?thesis using rt Some ni r R by (auto simp: am_Add_def Let_def pen'_def [symmetric])
      next
        case True
        then obtain j where "mapInfo s1 n = Some j" "\<not> fInTried j" "nRefCount j < ADDRMAN_NEW_BUCKETS_PER_ADDRESS" "nRefCount j \<noteq> 0" using R by blast
        then obtain s2 where "place_entry HW priv now src n s1 = Inr s2" "book HW priv {} {} s2"
          using place_entry_ok [of HW priv "{}" s1 n j now src] R by auto
        then show ?thesis using rt Some ni r True by (auto simp: am_Add_def Let_def pen'_def [symmetric])
      qed
    qed
  qed
qed

lemma am_Add_all_ok:
  "book HW priv {} {} s \<Longrightarrow> \<exists>r s'. am_Add_all HW priv now RandomInt vAddr src pen k s = Inr (r, s') \<and> book HW priv {} {} s'"
proof (induction vAddr arbitrary: k s)
  case (Cons a vAddr)
  obtain r s1 where "am_Add HW priv now (RandomInt (length vAddr)) a src pen s = Inr (r, s1)" "book HW priv {} {} s1" using am_Add_ok [OF Cons.prems] by blast
  then show ?case using Cons.IH [of s1 "if r then k + 1 else k"] by auto
qed simp

text \<open>The operations that only update an entry.\<close>

lemma book_update:
  assumes "book HW priv {} {} s" "mapInfo s n = Some i" "alike i i'" "fInTried i' = fInTried i" "nRefCount i' = nRefCount i"
    "nLastTry i' = nLastTry i \<or> 0 \<le> nLastTry i'" "nLastSuccess i' = nLastSuccess i"
  shows "book HW priv {} {} (put_info n i' s)"
  by (rule book_put [OF assms(1-5)]) (use bookD(5) [OF assms(1,2)] assms(6,7) in \<open>auto simp: entry_ok_def split: if_splits\<close>)

lemma update_ops_ok:
  assumes bk: "book HW priv {} {} s"
  shows "0 \<le> time \<Longrightarrow> book HW priv {} {} (am_Attempt addr fCount time s)" "book HW priv {} {} (am_Connected addr time s)"
    "book HW priv {} {} (am_SetServices addr services s)"
proof -
  have u: "book HW priv {} {} (put_info n i' s)" if "Find s addr = Some (n, i)" "alike i i'" "fInTried i' = fInTried i" "nRefCount i' = nRefCount i"
    "nLastTry i' = nLastTry i \<or> 0 \<le> nLastTry i'" "nLastSuccess i' = nLastSuccess i" for n i i'
    using book_update [OF bk Find_entry [OF that(1)] that(2-6)] .
  show "0 \<le> time \<Longrightarrow> book HW priv {} {} (am_Attempt addr fCount time s)" using bk
    by (auto simp: am_Attempt_def Let_def alike_def service_key_def split: option.splits intro!: u)
  show "book HW priv {} {} (am_Connected addr time s)" "book HW priv {} {} (am_SetServices addr services s)" using bk
    by (auto simp: am_Connected_def am_SetServices_def alike_def service_key_def split: option.splits intro!: u)
qed

lemma getaddr_loop_ok:
  assumes "book HW priv {} {} s" "\<forall>k < length (vRandom s). rnd k + k < length (vRandom s)" "length vAddr \<le> nNodes" "\<forall>a \<in> set vAddr. \<not> IsTerrible now a"
  shows "\<exists>v s'. getaddr_loop now rnd nNodes n vAddr s = Inr (v, s') \<and> book HW priv {} {} s' \<and> length v \<le> nNodes \<and> (\<forall>a \<in> set v. \<not> IsTerrible now a)"
  using assms
proof (induction now rnd nNodes n vAddr s rule: getaddr_loop.induct)
  case (1 now rnd nNodes n vAddr s)
  show ?case
  proof (cases "n < length (vRandom s) \<and> length vAddr < nNodes")
    case False
    then show ?thesis using 1(2,4,5) by (subst getaddr_loop.simps) auto
  next
    case True
    define w where "w = (vRandom s)[n := vRandom s ! (rnd n + n), rnd n + n := vRandom s ! n]"
    have k: "n < length (vRandom s)" "rnd n + n < length (vRandom s)" using True 1(3) by auto
    obtain m where m: "SwapRandom n (rnd n + n) s = Inr (s \<lparr> mapInfo := m, vRandom := w \<rparr>)" "same_entries (mapInfo s) m" "random_ok m w"
      using SwapRandom_ok [OF 1(2) k] by (auto simp: w_def)
    define s1 where "s1 = s \<lparr> mapInfo := m, vRandom := w \<rparr>"
    have b1: "book HW priv {} {} s1" unfolding s1_def by (rule same_book [OF 1(2) m(2,3)])
    have l: "length (vRandom s1) = length (vRandom s)" by (simp add: s1_def w_def)
    obtain a where a: "mapInfo s1 (vRandom s1 ! n) = Some a" using bookD(1) [OF b1] k(1) l unfolding random_ok_def by metis
    then have ia: "info_at s1 (vRandom s1 ! n) = a" by (simp add: info_at_def)
    let ?v = "if \<not> IsTerrible now a then vAddr @ [a] else vAddr"
    have sw: "SwapRandom n (rnd n + n) s = Inr s1" using m(1) by (simp add: s1_def)
    have v: "length ?v \<le> nNodes" "\<forall>x \<in> set ?v. \<not> IsTerrible now x" using True 1(5) by auto
    have r: "\<forall>k < length (vRandom s1). rnd k + k < length (vRandom s1)" using 1(3) l by simp
    obtain v s' where "getaddr_loop now rnd nNodes (n + 1) ?v s1 = Inr (v, s')" "book HW priv {} {} s'" "length v \<le> nNodes" "\<forall>a \<in> set v. \<not> IsTerrible now a"
      using 1(1) [OF True sw _ ia [symmetric] b1 r v] a by auto
    moreover have "getaddr_loop now rnd nNodes n vAddr s = getaddr_loop now rnd nNodes (n + 1) ?v s1"
      using True sw a ia by (subst getaddr_loop.simps) (simp add: Let_def)
    ultimately show ?thesis by simp
  qed
qed

lemma am_GetAddr_ok:
  assumes "book HW priv {} {} s" "\<forall>k < length (vRandom s). rnd k + k < length (vRandom s)"
  shows "\<exists>v s'. am_GetAddr now rnd s = Inr (v, s') \<and> book HW priv {} {} s' \<and>
    length v \<le> min ADDRMAN_GETADDR_MAX (ADDRMAN_GETADDR_MAX_PCT * length (vRandom s) div 100) \<and> (\<forall>a \<in> set v. \<not> IsTerrible now a)"
  using getaddr_loop_ok [OF assms, of "[]" "min ADDRMAN_GETADDR_MAX (ADDRMAN_GETADDR_MAX_PCT * length (vRandom s) div 100)" now 0]
  by (simp add: am_GetAddr_def Let_def min_def not_le split: if_splits)

lemma book_new: "book HW priv {} {} (CAddrMan_new discriminate key)"
  by (simp add: book_def CAddrMan_new_def Clear_def random_ok_def index_ok_def new_ok_def tried_ok_def tried_ids_def new_ids_def)

end
