(* ===== verification/Addr_Man_Check.thy ===== *)
theory Addr_Man_Check
  imports Addr_Man_Props
begin

text \<open>
  The address manager as a state machine: the states its operations reach are consistent, none of the operations runs into an
  assertion there, and the result of the consistency check of the sources is determined: 0, but for a null key and for managers that do
  not discriminate ports, whose entries the check looks up under the wrong port. \<open>Clear\<close> breaks the consistency, because it leaves the entries behind.
\<close>

section \<open>The result of the consistency check\<close>

lemma update_new: "n \<notin> fst ` set m \<Longrightarrow> AList.update n v m = m @ [(n, v)]"
  by (induction m) auto

text \<open>
  The check reads the index under the address with its port, although the other operations enter addresses with port 0 when ports are not
  discriminated: there it finds an entry only under the number 0, which \<open>mapAddr[info]\<close> gives for an absent key, or when the port is 0 itself.
\<close>

definition misindexed :: "CAddrMan \<Rightarrow> int \<Rightarrow> bool" where
  "misindexed s n \<longleftrightarrow> \<not> discriminatePorts s \<and> n \<noteq> 0 \<and> sv_port (info_at s n) \<noteq> 0"

lemma book_lookup:
  assumes "book HW priv X Y s" "mapInfo s n = Some i"
  shows "mapAddr s (addr_key (discriminatePorts s) i) = Some n"
  using bookD(2) [OF assms(1)] assms(2) unfolding index_ok_def by blast

lemma check_lookup:
  assumes bk: "book HW priv X Y s" and n: "mapInfo s n = Some i"
  shows "(case mapAddr s (service_key i) of None \<Rightarrow> 0 | Some k \<Rightarrow> k) = n \<longleftrightarrow> \<not> misindexed s n"
proof (cases "discriminatePorts s \<or> sv_port i = 0")
  case True
  then have "addr_key (discriminatePorts s) i = service_key i" by (auto simp: addr_key_def service_key_def SetPort_def)
  then show ?thesis using True book_lookup [OF assms] n by (auto simp: misindexed_def info_at_def)
next
  case False
  have "mapAddr s (service_key i) \<noteq> Some k" for k
    using False bookD(2) [OF bk] by (auto simp: index_ok_def addr_key_def service_key_def SetPort_def)
  then show ?thesis using False n by (auto simp: misindexed_def info_at_def split: option.split)
qed

lemma check_entry_ok:
  assumes bk: "book HW priv {} {} s" and n: "mapInfo s n = Some i" and new: "n \<notin> fst ` set M"
  shows "check_entry s n i (T, M) =
    (if misindexed s n then Inl (-5) else Inr (if fInTried i then (insert n T, M) else (T, M @ [(n, nRefCount i)])))"
proof -
  note B = bookD [OF bk]
  have e: "0 \<le> nLastTry i" "0 \<le> nLastSuccess i" "fInTried i \<Longrightarrow> nLastSuccess i \<noteq> 0 \<and> nRefCount i = 0"
    "\<not> fInTried i \<Longrightarrow> 0 < nRefCount i \<and> nRefCount i \<le> ADDRMAN_NEW_BUCKETS_PER_ADDRESS"
    using B(5) [OF n] by (auto simp: entry_ok_def card_gt_0_iff split: if_splits)
  have r: "0 \<le> nRandomPos i" "nRandomPos i < int (length (vRandom s))" "vRandom s ! nat (nRandomPos i) = n" using B(1) [unfolded random_ok_def, THEN conjunct1, rule_format, OF n] by linarith+
  show ?thesis unfolding check_entry_def check_lookup [OF bk n] using e r update_new [OF new] by (cases "fInTried i") auto
qed

lemma check_entries_ok:
  assumes "book HW priv {} {} s"
  shows "distinct ns \<Longrightarrow> set ns \<subseteq> dom (mapInfo s) \<Longrightarrow> set ns \<inter> fst ` set M = {} \<Longrightarrow>
    check_entries s ns (T, M) = (if \<exists>n \<in> set ns. misindexed s n then Inl (-5) else Inr (T \<union> {n \<in> set ns. fInTried (info_at s n)},
      M @ map (\<lambda>n. (n, nRefCount (info_at s n))) (filter (\<lambda>n. \<not> fInTried (info_at s n)) ns)))"
proof (induction ns arbitrary: T M)
  case (Cons n ns)
  obtain i where i: "mapInfo s n = Some i" using Cons.prems(2) by auto
  then have inf: "info_at s n = i" by (simp add: info_at_def)
  have new: "n \<notin> fst ` set M" using Cons.prems(3) by auto
  note entry = check_entry_ok [OF assms i new, of T]
  show ?case
  proof (cases "misindexed s n \<or> fInTried i")
    case True
    then show ?thesis using Cons.IH [of M "insert n T"] Cons.prems inf entry by auto
  next
    case False
    have "set ns \<inter> fst ` set (M @ [(n, nRefCount i)]) = {}" using Cons.prems(1,3) by auto
    then show ?thesis using Cons.IH [of "M @ [(n, nRefCount i)]" T] Cons.prems inf entry False by auto
  qed
qed simp

abbreviation slot_values :: "(nat \<Rightarrow> nat \<Rightarrow> int) \<Rightarrow> (nat \<times> nat) list \<Rightarrow> int list" where
  "slot_values v slots \<equiv> filter (\<lambda>x. x \<noteq> -1) (map (\<lambda>(b, p). v b p) slots)"

lemma check_tried_ok:
  assumes bk: "book HW priv {} {} s"
  shows "set slots \<subseteq> {..<ADDRMAN_TRIED_BUCKET_COUNT} \<times> {..<ADDRMAN_BUCKET_SIZE} \<Longrightarrow> distinct (slot_values (vvTried s) slots) \<Longrightarrow>
    check_tried HW priv s slots (set (slot_values (vvTried s) slots)) = Inr {}"
proof (induction slots)
  case (Cons x slots)
  obtain b p where x: "x = (b, p)" by (cases x)
  show ?case
  proof (cases "vvTried s b p = -1")
    case False
    have "b < ADDRMAN_TRIED_BUCKET_COUNT" "p < ADDRMAN_BUCKET_SIZE" using Cons.prems(1) x by auto
    then obtain i where i: "mapInfo s (vvTried s b p) = Some i" "GetTriedBucket HW priv (am_nKey s) i = b" "GetBucketPosition HW (am_nKey s) False b i = p"
      using bookD(4) [OF bk] False unfolding tried_ok_def by blast
    moreover have "set (slot_values (vvTried s) (x # slots)) - {vvTried s b p} = set (slot_values (vvTried s) slots)"
      using Cons.prems(2) x False by auto
    ultimately show ?thesis using Cons.IH Cons.prems x False by (simp add: Let_def info_at_def)
  qed (use Cons x in \<open>simp add: Let_def\<close>)
qed simp

lemma check_new_ok:
  assumes bk: "book HW priv {} {} s"
  shows "set slots \<subseteq> {..<ADDRMAN_NEW_BUCKET_COUNT} \<times> {..<ADDRMAN_BUCKET_SIZE} \<Longrightarrow>
    \<forall>n. map_of M n = (let c = count_list (slot_values (vvNew s) slots) n in if c = 0 then None else Some (int c)) \<Longrightarrow>
    check_new HW s slots M = Inr []"
proof (induction slots arbitrary: M)
  case Nil
  then have "map_of M = Map.empty" by (auto simp: fun_eq_iff)
  then show ?case by simp
next
  case (Cons x slots)
  obtain b p where x: "x = (b, p)" by (cases x)
  let ?v = "vvNew s b p"
  show ?case
  proof (cases "?v = -1")
    case True
    then show ?thesis using Cons x by (simp add: Let_def)
  next
    case False
    have "b < ADDRMAN_NEW_BUCKET_COUNT" "p < ADDRMAN_BUCKET_SIZE" using Cons.prems(1) x by auto
    then obtain i where i: "mapInfo s ?v = Some i" "GetBucketPosition HW (am_nKey s) True b i = p"
      using bookD(3) [OF bk] False unfolding new_ok_def by blast
    let ?c = "count_list (slot_values (vvNew s) slots) ?v"
    have m: "map_of M ?v = Some (int ?c + 1)" using Cons.prems(2) [rule_format, of ?v] x False by (simp add: Let_def)
    define M' where "M' = (if ?c = 0 then AList.delete ?v M else AList.update ?v (int ?c) M)"
    have "\<forall>n. map_of M' n = (let c = count_list (slot_values (vvNew s) slots) n in if c = 0 then None else Some (int c))"
      using Cons.prems(2) x False by (auto simp: M'_def Let_def delete_conv' update_conv')
    then have "check_new HW s slots M' = Inr []" using Cons by simp
    moreover have "check_new HW s (x # slots) M = check_new HW s slots M'" using x False m i by (simp add: Let_def info_at_def M'_def)
    ultimately show ?thesis by simp
  qed
qed

lemma count_list_card: "distinct xs \<Longrightarrow> count_list (map f xs) n = card {x \<in> set xs. f x = n}"
proof (induction xs)
  case (Cons x xs)
  have "{y \<in> set (x # xs). f y = n} = (if f x = n then insert x {y \<in> set xs. f y = n} else {y \<in> set xs. f y = n})" by auto
  then show ?case using Cons by simp
qed simp

lemma count_list_filter: "P n \<Longrightarrow> count_list (filter P xs) n = count_list xs n"
  by (induction xs) auto

lemma count_new:
  assumes bk: "book HW priv {} {} s" and n: "n \<noteq> -1"
  shows "count_list (slot_values (vvNew s) (List.product [0..<ADDRMAN_NEW_BUCKET_COUNT] [0..<ADDRMAN_BUCKET_SIZE])) n =
    (case mapInfo s n of None \<Rightarrow> 0 | Some i \<Rightarrow> if fInTried i then 0 else nat (nRefCount i))"
proof -
  let ?S = "{x \<in> {..<ADDRMAN_NEW_BUCKET_COUNT} \<times> {..<ADDRMAN_BUCKET_SIZE}. (case x of (b, p) \<Rightarrow> vvNew s b p) = n}"
  have "count_list (slot_values (vvNew s) (List.product [0..<ADDRMAN_NEW_BUCKET_COUNT] [0..<ADDRMAN_BUCKET_SIZE])) n = card ?S"
    using n by (simp add: count_list_filter count_list_card distinct_product atLeast0LessThan)
  moreover have "?S = {}" if "mapInfo s n = None \<or> (\<exists>i. mapInfo s n = Some i \<and> fInTried i)"
    using bookD(3) [OF bk] n that unfolding new_ok_def by fastforce
  moreover have "card ?S = nat (nRefCount i)" if i: "mapInfo s n = Some i" "\<not> fInTried i" for i
  proof -
    have P: "GetBucketPosition HW (am_nKey s) True b i = p" if "(b, p) \<in> ?S" for b p
      using bookD(3) [OF bk] n i(1) that unfolding new_ok_def by fastforce
    have "fst ` ?S = places HW (am_nKey s) (vvNew s) n i"
    proof (intro equalityI subsetI)
      fix b
      assume "b \<in> fst ` ?S"
      then obtain p where "(b, p) \<in> ?S" by auto
      then show "b \<in> places HW (am_nKey s) (vvNew s) n i" using P [of b p] by (simp add: places_def)
    next
      fix b
      assume "b \<in> places HW (am_nKey s) (vvNew s) n i"
      then have "(b, GetBucketPosition HW (am_nKey s) True b i) \<in> ?S" using place_bounds(1) by (simp add: places_def)
      then show "b \<in> fst ` ?S" by (rule rev_image_eqI) simp
    qed
    moreover have "inj_on fst ?S"
    proof (rule inj_onI)
      fix x y
      assume m: "x \<in> ?S" "y \<in> ?S" "fst x = fst y"
      obtain b p q where xy: "x = (b, p)" "y = (b, q)" using m(3) by (cases x; cases y) auto
      then show "x = y" using P [OF m(1) [unfolded xy(1)]] P [OF m(2) [unfolded xy(2)]] by (simp only:)
    qed
    ultimately have "card ?S = card (places HW (am_nKey s) (vvNew s) n i)" using card_image [of fst ?S] by (simp only:)
    then show ?thesis using bookD(5) [OF bk i(1)] i(2) by (simp add: entry_ok_def)
  qed
  ultimately show ?thesis by (auto split: option.split)
qed

lemma tried_values:
  assumes bk: "book HW priv {} {} s"
  shows "distinct (slot_values (vvTried s) (List.product [0..<ADDRMAN_TRIED_BUCKET_COUNT] [0..<ADDRMAN_BUCKET_SIZE]))"
    "set (slot_values (vvTried s) (List.product [0..<ADDRMAN_TRIED_BUCKET_COUNT] [0..<ADDRMAN_BUCKET_SIZE])) = tried_ids (mapInfo s)"
proof -
  let ?P = "List.product [0..<ADDRMAN_TRIED_BUCKET_COUNT] [0..<ADDRMAN_BUCKET_SIZE]"
  have at: "\<exists>i. mapInfo s (vvTried s b p) = Some i \<and> fInTried i \<and> GetTriedBucket HW priv (am_nKey s) i = b \<and> GetBucketPosition HW (am_nKey s) False b i = p"
    if "(b, p) \<in> set ?P" "vvTried s b p \<noteq> -1" for b p using bookD(4) [OF bk] that unfolding tried_ok_def by auto
  have "inj_on (\<lambda>(b, p). vvTried s b p) {x \<in> set ?P. (case x of (b, p) \<Rightarrow> vvTried s b p) \<noteq> -1}"
  proof (rule inj_onI, clarify)
    fix b p b' p'
    assume m: "(b, p) \<in> set ?P" "(b', p') \<in> set ?P" "vvTried s b p \<noteq> -1" "vvTried s b' p' \<noteq> -1" and e: "vvTried s b p = vvTried s b' p'"
    obtain i where "mapInfo s (vvTried s b p) = Some i" "GetTriedBucket HW priv (am_nKey s) i = b" "GetBucketPosition HW (am_nKey s) False b i = p"
      using at [OF m(1,3)] by blast
    then show "b = b' \<and> p = p'" using at [OF m(2,4)] e by auto
  qed
  then have "distinct (map (\<lambda>(b, p). vvTried s b p) (filter (\<lambda>x. (case x of (b, p) \<Rightarrow> vvTried s b p) \<noteq> -1) ?P))"
    by (simp add: distinct_map distinct_product)
  moreover have "slot_values (vvTried s) ?P = map (\<lambda>(b, p). vvTried s b p) (filter (\<lambda>x. (case x of (b, p) \<Rightarrow> vvTried s b p) \<noteq> -1) ?P)"
    by (simp only: filter_map comp_def)
  ultimately show "distinct (slot_values (vvTried s) ?P)" by simp
  show "set (slot_values (vvTried s) ?P) = tried_ids (mapInfo s)"
  proof (intro equalityI subsetI)
    fix n
    assume "n \<in> set (slot_values (vvTried s) ?P)"
    then obtain b p where "(b, p) \<in> set ?P" "n = vvTried s b p" "n \<noteq> -1" by (force simp del: set_product)
    then show "n \<in> tried_ids (mapInfo s)" using at by (auto simp: tried_ids_def)
  next
    fix n
    assume "n \<in> tried_ids (mapInfo s)"
    then obtain i where i: "mapInfo s n = Some i" "fInTried i" by (auto simp: tried_ids_def)
    let ?b = "GetTriedBucket HW priv (am_nKey s) i"
    have "0 \<le> n" "vvTried s ?b (GetBucketPosition HW (am_nKey s) False ?b i) = n" using bookD(5) [OF bk i(1)] i(2) by (simp_all add: entry_ok_def)
    moreover have "(?b, GetBucketPosition HW (am_nKey s) False ?b i) \<in> set ?P" using place_bounds [of HW] by auto
    ultimately show "n \<in> set (slot_values (vvTried s) ?P)" by (force simp del: set_product)
  qed
qed

lemma am_Check_ok:
  assumes bk: "book HW priv {} {} s"
  shows "am_Check HW priv s = (if \<exists>n \<in> dom (mapInfo s). misindexed s n then -5 else if am_nKey s = 0 then -16 else 0)"
proof -
  let ?ids = "sorted_list_of_set (dom (mapInfo s))" and ?T = "tried_ids (mapInfo s)"
  let ?M = "map (\<lambda>n. (n, nRefCount (info_at s n))) (filter (\<lambda>n. \<not> fInTried (info_at s n)) ?ids)"
  note B = bookD [OF bk]
  have fin: "finite (dom (mapInfo s))" using random_finite [OF B(1)] .
  have ids: "set ?ids = dom (mapInfo s)" "distinct ?ids" using fin by simp_all
  have tr: "{n \<in> set ?ids. fInTried (info_at s n)} = ?T" using ids(1) by (auto simp: tried_ids_def info_at_def)
  have nw: "set (filter (\<lambda>n. \<not> fInTried (info_at s n)) ?ids) = new_ids (mapInfo s)" using ids(1) by (auto simp: new_ids_def info_at_def)
  have e: "check_entries s ?ids ({}, []) = (if \<exists>n \<in> dom (mapInfo s). misindexed s n then Inl (-5) else Inr (?T, ?M))"
    using check_entries_ok [OF bk ids(2), of "[]" "{}"] ids(1) tr by simp
  have "length ?M = card (new_ids (mapInfo s))" using distinct_card [OF distinct_filter [OF ids(2)]] nw by (metis length_map)
  then have lM: "int (length ?M) = nNew s" using B(7) by simp
  have "length (vRandom s) = card ?T + card (new_ids (mapInfo s))"
    using random_length [OF B(1)] dom_ids [of "mapInfo s"] finite_ids [OF fin] by (metis card_Un_disjoint)
  then have l: "int (length (vRandom s)) = nTried s + nNew s" using B(6,7) by simp
  have t: "check_tried HW priv s (List.product [0..<ADDRMAN_TRIED_BUCKET_COUNT] [0..<ADDRMAN_BUCKET_SIZE]) ?T = Inr {}"
    using check_tried_ok [OF bk _ tried_values(1) [OF bk]] tried_values(2) [OF bk] by (simp add: atLeast0LessThan)
  have mM: "map_of ?M n = (case mapInfo s n of None \<Rightarrow> None | Some i \<Rightarrow> if fInTried i then None else Some (nRefCount i))" for n
  proof -
    have "map_of ?M n = (if n \<in> new_ids (mapInfo s) then Some (nRefCount (info_at s n)) else None)" using nw by (simp add: map_of_map_restrict restrict_map_def)
    then show ?thesis by (auto simp: new_ids_def info_at_def split: option.splits)
  qed
  have "map_of ?M n = (let c = count_list (slot_values (vvNew s) (List.product [0..<ADDRMAN_NEW_BUCKET_COUNT] [0..<ADDRMAN_BUCKET_SIZE])) n
      in if c = 0 then None else Some (int c))" for n
  proof (cases "n = -1")
    case True
    then have "mapInfo s n = None" using B(5) [of n] by (cases "mapInfo s n") (auto simp: entry_ok_def)
    then show ?thesis using True mM [of n] by (simp add: Let_def count_list_0_iff)
  next
    case False
    have "0 < nRefCount i" if "mapInfo s n = Some i" "\<not> fInTried i" for i
      using B(5) [OF that(1)] that(2) book_ref0 [OF bk that] by (auto simp: entry_ok_def card_gt_0_iff)
    then show ?thesis using count_new [OF bk False] mM [of n] by (auto simp: Let_def split: option.splits)
  qed
  then have n: "check_new HW s (List.product [0..<ADDRMAN_NEW_BUCKET_COUNT] [0..<ADDRMAN_BUCKET_SIZE]) ?M = Inr []"
    by (intro check_new_ok [OF bk]) (auto simp: atLeast0LessThan)
  show ?thesis using l e lM B(6) t n by (simp add: am_Check_def)
qed

section \<open>The manager as a state machine\<close>

text \<open>Times come from the clock of the node, and \<open>RandomInt(n)\<close> is below \<open>n\<close>.\<close>

inductive addrman_step :: "hash_writer \<Rightarrow> bool \<Rightarrow> CAddrMan \<Rightarrow> CAddrMan \<Rightarrow> bool" for HW priv where
  Add: "am_Add HW priv now RandomInt addr src pen s = Inr (r, s') \<Longrightarrow> addrman_step HW priv s s'"
| AddAll: "am_Add_all HW priv now rnds vAddr src pen 0 s = Inr (r, s') \<Longrightarrow> addrman_step HW priv s s'"
| Good: "0 < time \<Longrightarrow> am_Good HW priv nRnd svc time s = Inr s' \<Longrightarrow> addrman_step HW priv s s'"
| Attempt: "0 \<le> time \<Longrightarrow> addrman_step HW priv s (am_Attempt svc fCountFailure time s)"
| Connected: "addrman_step HW priv s (am_Connected svc time s)"
| SetServices: "addrman_step HW priv s (am_SetServices svc services s)"
| GetAddr: "\<forall>k < length (vRandom s). rnd k + k < length (vRandom s) \<Longrightarrow> am_GetAddr now rnd s = Inr (v, s') \<Longrightarrow> addrman_step HW priv s s'"

definition addrman_reachable :: "hash_writer \<Rightarrow> bool \<Rightarrow> CAddrMan \<Rightarrow> bool" where
  "addrman_reachable HW priv s \<longleftrightarrow> (\<exists>d key. (addrman_step HW priv)\<^sup>*\<^sup>* (CAddrMan_new d key) s)"

lemma step_book: "addrman_step HW priv s s' \<Longrightarrow> book HW priv {} {} s \<Longrightarrow> book HW priv {} {} s'"
proof (induction rule: addrman_step.induct)
  case (Add now RandomInt addr src pen s r s')
  then show ?case using am_Add_ok [OF Add(2), of now RandomInt addr src pen] by auto
next
  case (AddAll now rnds vAddr src pen s r s')
  then show ?case using am_Add_all_ok [OF AddAll(2), of now rnds vAddr src pen 0] by auto
next
  case (Good time nRnd svc s s')
  then show ?case using am_Good_ok [OF Good(3,1), of nRnd svc] by auto
next
  case (GetAddr s rnd now v s')
  then show ?case using am_GetAddr_ok [OF GetAddr(3,1), of now] by auto
qed (use update_ops_ok in blast)+

lemma reachable_book: "addrman_reachable HW priv s \<Longrightarrow> book HW priv {} {} s"
  unfolding addrman_reachable_def
proof (elim exE)
  fix d key
  assume "(addrman_step HW priv)\<^sup>*\<^sup>* (CAddrMan_new d key) s"
  then show ?thesis by (induction rule: rtranclp_induct) (auto simp: book_new intro: step_book)
qed

text \<open>A manager with one address, for the examples: the double hash is constant, and so are the positions.\<close>

definition zero_hash :: hash_writer where "zero_hash = (\<lambda>_. 0)"

definition some_address :: CAddress where
  "some_address = \<lparr> ip = pchIPv4 @ [8, 8, 8, 8], scopeId = 0, sv_port = 8118, nServices = 1, ad_nTime = 1500000000 \<rparr>"

definition one_address :: CAddrMan where
  "one_address = snd (projr (am_Add zero_hash False 1500000000 (\<lambda>_. 0) some_address CNetAddr_new 0 (CAddrMan_new True 1)))"

lemma one_address_added:
  "am_Add zero_hash False 1500000000 (\<lambda>_. 0) some_address CNetAddr_new 0 (CAddrMan_new True 1) = Inr (True, one_address)"
  "discriminatePorts one_address" "am_nKey one_address = 1" "mapInfo one_address 0 \<noteq> None"
proof -
  have "\<not> isl (am_Add zero_hash False 1500000000 (\<lambda>_. 0) some_address CNetAddr_new 0 (CAddrMan_new True 1))"
    "fst (projr (am_Add zero_hash False 1500000000 (\<lambda>_. 0) some_address CNetAddr_new 0 (CAddrMan_new True 1)))" by code_simp+
  then show "am_Add zero_hash False 1500000000 (\<lambda>_. 0) some_address CNetAddr_new 0 (CAddrMan_new True 1) = Inr (True, one_address)"
    unfolding one_address_def by (cases "am_Add zero_hash False 1500000000 (\<lambda>_. 0) some_address CNetAddr_new 0 (CAddrMan_new True 1)") auto
  show "discriminatePorts one_address" "am_nKey one_address = 1" "mapInfo one_address 0 \<noteq> None" by code_simp+
qed

lemma one_address_reachable: "addrman_reachable zero_hash False one_address"
  unfolding addrman_reachable_def
  by (intro exI [of _ True] exI [of _ 1] r_into_rtranclp addrman_step.Add [OF one_address_added(1)])

text \<open>
  A manager as on the main network, where ports are not discriminated: an address not seen for three years is added, then one whose place is the same; the
  first is terrible and gives way, and the second is entry 1.
\<close>

definition stale_address :: CAddress where
  "stale_address = some_address \<lparr> ip := pchIPv4 @ [9, 9, 9, 9], ad_nTime := 1400000000 \<rparr>"

definition two_adds :: "addrman_error + bool \<times> CAddrMan" where
  "two_adds = and_then (am_Add zero_hash False 1500000000 (\<lambda>_. 0) stale_address CNetAddr_new 0 (CAddrMan_new False 1))
     (\<lambda>(r, s). am_Add zero_hash False 1500000000 (\<lambda>_. 0) some_address CNetAddr_new 0 s)"

lemma two_adds_ok: "two_adds = Inr (fst (projr two_adds), snd (projr two_adds))"
proof -
  have "\<not> isl two_adds" by code_simp
  then show ?thesis by (cases two_adds) auto
qed

lemma two_adds_entry:
  "\<not> discriminatePorts (snd (projr two_adds))" "\<exists>n i. mapInfo (snd (projr two_adds)) n = Some i \<and> n \<noteq> 0 \<and> sv_port i \<noteq> 0"
proof -
  have "mapInfo (snd (projr two_adds)) 1 \<noteq> None" "sv_port (the (mapInfo (snd (projr two_adds)) 1)) = 8118" by code_simp+
  then have "mapInfo (snd (projr two_adds)) 1 = Some (the (mapInfo (snd (projr two_adds)) 1)) \<and> (1 :: int) \<noteq> 0 \<and>
    sv_port (the (mapInfo (snd (projr two_adds)) 1)) \<noteq> 0" by simp
  then show "\<exists>n i. mapInfo (snd (projr two_adds)) n = Some i \<and> n \<noteq> 0 \<and> sv_port i \<noteq> 0" by blast
qed code_simp

lemma two_adds_reachable: "addrman_reachable zero_hash False (snd (projr two_adds))"
proof -
  obtain r s where 1: "am_Add zero_hash False 1500000000 (\<lambda>_. 0) stale_address CNetAddr_new 0 (CAddrMan_new False 1) = Inr (r, s)"
      "am_Add zero_hash False 1500000000 (\<lambda>_. 0) some_address CNetAddr_new 0 s = Inr (fst (projr two_adds), snd (projr two_adds))"
    using two_adds_ok unfolding two_adds_def
    by (cases "am_Add zero_hash False 1500000000 (\<lambda>_. 0) stale_address CNetAddr_new 0 (CAddrMan_new False 1)") auto
  from addrman_step.Add [OF 1(1)] addrman_step.Add [OF 1(2)]
  have "(addrman_step zero_hash False)\<^sup>*\<^sup>* (CAddrMan_new False 1) (snd (projr two_adds))" by (meson rtranclp.simps)
  then show ?thesis unfolding addrman_reachable_def by blast
qed

text \<open>
  (C33) \<open>CAddrMan\<close> (\<^verbatim>\<open>addrman.cpp\<close>): in every state that \<open>Add\<close>, \<open>Good\<close>, \<open>Attempt\<close>, \<open>Connected\<close>, \<open>SetServices\<close> and \<open>GetAddr\<close> reach from
  an empty manager, for every hash function, all random numbers and both settings of \<open>discriminatePorts\<close>, adding addresses, marking an address
  as good and drawing addresses run into none of the assertions, drawing returns at most 23 percent of the entries, at most 2500, none of them
  terrible, and every entry is found under its address. The result of the consistency check \<open>Check_\<close> over the store, the index, the vector and
  both tables is exact: it is 0 when ports are discriminated and the key is not null, and -16 when the key is null; when ports are not
  discriminated, as on the main network, it is -5 as soon as there is an entry with a number other than 0 and a port other than 0, because
  \<open>Check_\<close> looks the entry up with its port, while \<open>Create\<close> entered it with port 0. It reports no other inconsistency.
\<close>

theorem addrman_consistent:
  assumes "addrman_reachable HW priv s"
  shows "(\<exists>r s'. am_Add HW priv now RandomInt addr src pen s = Inr (r, s')) \<and>
    (0 < time \<longrightarrow> (\<exists>s'. am_Good HW priv nRnd svc time s = Inr s')) \<and>
    ((\<forall>k < length (vRandom s). rnd k + k < length (vRandom s)) \<longrightarrow> (\<exists>v s'. am_GetAddr now rnd s = Inr (v, s') \<and>
       length v \<le> min ADDRMAN_GETADDR_MAX (ADDRMAN_GETADDR_MAX_PCT * length (vRandom s) div 100) \<and> (\<forall>a \<in> set v. \<not> IsTerrible now a))) \<and>
    (\<forall>n i. mapInfo s n = Some i \<longrightarrow> Find s i = Some (n, i)) \<and>
    am_Check HW priv s =
      (if \<not> discriminatePorts s \<and> (\<exists>n i. mapInfo s n = Some i \<and> n \<noteq> 0 \<and> sv_port i \<noteq> 0) then -5
       else if am_nKey s = 0 then -16 else 0)"
proof -
  note bk = reachable_book [OF assms]
  have "(\<exists>n \<in> dom (mapInfo s). misindexed s n) \<longleftrightarrow> \<not> discriminatePorts s \<and> (\<exists>n i. mapInfo s n = Some i \<and> n \<noteq> 0 \<and> sv_port i \<noteq> 0)"
    by (force simp: misindexed_def info_at_def)
  then have "am_Check HW priv s = (if \<not> discriminatePorts s \<and> (\<exists>n i. mapInfo s n = Some i \<and> n \<noteq> 0 \<and> sv_port i \<noteq> 0) then -5
      else if am_nKey s = 0 then -16 else 0)" using am_Check_ok [OF bk] by simp
  moreover have "Find s i = Some (n, i)" if "mapInfo s n = Some i" for n i
    using book_lookup [OF bk that] that by (simp add: Find_def)
  ultimately show ?thesis using am_Add_ok [OF bk] am_Good_ok [OF bk] am_GetAddr_ok [OF bk] by blast
qed

theorem addrman_consistent_witness:
  "am_Check zero_hash False one_address = 0 \<and> (\<exists>r s. two_adds = Inr (r, s) \<and> am_Check zero_hash False s = -5)"
proof
  show "am_Check zero_hash False one_address = 0"
    using addrman_consistent [OF one_address_reachable] one_address_added(2,3) by simp
  have "am_Check zero_hash False (snd (projr two_adds)) = -5"
    using addrman_consistent [OF two_adds_reachable] two_adds_entry by simp
  then show "\<exists>r s. two_adds = Inr (r, s) \<and> am_Check zero_hash False s = -5" using two_adds_ok by blast
qed

text \<open>
  (C34) \<open>CAddrMan::Clear\<close> (\<^verbatim>\<open>addrman.h\<close>): \<open>Clear\<close> resets the vector, the tables and the counters but neither the store nor the index, so a manager that
  discriminates ports and holds an address is inconsistent afterwards: the address is still found, and the consistency check fails with code -14.
\<close>

theorem Clear_inconsistent:
  assumes "addrman_reachable HW priv s" "discriminatePorts s" "mapInfo s n \<noteq> None"
  shows "mapInfo (Clear key s) n = mapInfo s n \<and> am_Check HW priv (Clear key s) = -14"
proof -
  note bk = reachable_book [OF assms(1)] and B = bookD [OF reachable_book [OF assms(1)]]
  have fin: "finite (dom (mapInfo s))" using random_finite [OF B(1)] .
  obtain m ms where ms: "sorted_list_of_set (dom (mapInfo s)) = m # ms"
    using assms(3) fin by (cases "sorted_list_of_set (dom (mapInfo s))") (auto simp: dom_def)
  then have "m \<in> dom (mapInfo s)" using fin by (metis list.set_intros(1) set_sorted_list_of_set)
  then obtain i where i: "mapInfo s m = Some i" by blast
  have e: "fInTried i \<Longrightarrow> nLastSuccess i \<noteq> 0 \<and> nRefCount i = 0" "\<not> fInTried i \<Longrightarrow> 0 < nRefCount i \<and> nRefCount i \<le> ADDRMAN_NEW_BUCKETS_PER_ADDRESS"
    using B(5) [OF i] by (auto simp: entry_ok_def card_gt_0_iff split: if_splits)
  have "addr_key True i = service_key i" by (simp add: addr_key_def)
  then have a: "mapAddr s (service_key i) = Some m" using B(2) [unfolded index_ok_def, rule_format, of "service_key i" m] i assms(2) by auto
  have r: "0 \<le> nRandomPos i" using B(1) [unfolded random_ok_def, THEN conjunct1, rule_format, OF i] by simp
  have "check_entry (Clear key s) m i ({}, []) = Inl (-14)" using e a r by (cases "fInTried i") (auto simp: check_entry_def Clear_def)
  then show ?thesis using ms i by (simp add: am_Check_def Clear_def info_at_def)
qed

theorem Clear_inconsistent_witness: "am_Check zero_hash False (Clear 7 one_address) = -14"
  using Clear_inconsistent [OF one_address_reachable one_address_added(2,4)] by simp

end
