(* ===== verification/Tx_Rules_Props.thy ===== *)
theory Tx_Rules_Props
  imports Tx_Rules
begin

unbundle bit_operations_syntax

text \<open>
  What the transaction rules promise: the two-step computation of sequence locks is the rule of BIP 68 for
  every input; a transaction that passes the checks can be applied to the coins, and applying it
  conserves the money supply up to the fee and unspendable outputs.
\<close>

section \<open>Relative lock times\<close>

definition lock_value :: "CTxIn \<Rightarrow> int" where
  "lock_value txin = uint (nSequence txin) mod 65536"

text \<open>BIP 68 for one input that spends a coin of the given height, in the given block.\<close>

definition input_lock_met :: "block_heap \<Rightarrow> ptr \<Rightarrow> CTxIn \<Rightarrow> int \<Rightarrow> bool" where
  "input_lock_met h block txin coin_height \<longleftrightarrow>
     bit (nSequence txin) 31 \<or>
     (if bit (nSequence txin) 22
      then (case (ancestor h block (max (coin_height - 1) 0), pprev (h block)) of
              (Some p, Some q) \<Rightarrow> GetMedianTimePast h p + 512 * lock_value txin \<le> GetMedianTimePast h q
            | _ \<Rightarrow> False)
      else coin_height + lock_value txin \<le> bi_nHeight (h block))"

lemma sequence_flags [flag_simps]:
  "nSequence txin AND SEQUENCE_LOCKTIME_DISABLE_FLAG \<noteq> 0 \<longleftrightarrow> bit (nSequence txin) 31"
  "nSequence txin AND SEQUENCE_LOCKTIME_TYPE_FLAG \<noteq> 0 \<longleftrightarrow> bit (nSequence txin) 22"
  by (simp_all only: SEQUENCE_LOCKTIME_DISABLE_FLAG_def SEQUENCE_LOCKTIME_TYPE_FLAG_def push_bit_of_1 and_exp_eq_0_iff_not_bit not_not)

lemma uint_lock_value: "uint (nSequence txin AND SEQUENCE_LOCKTIME_MASK) = lock_value txin"
proof -
  have "(0xffff :: u32) = mask 16" by (simp add: mask_eq_exp_minus_1)
  then have "nSequence txin AND SEQUENCE_LOCKTIME_MASK = take_bit 16 (nSequence txin)"
    by (simp add: SEQUENCE_LOCKTIME_MASK_def take_bit_eq_mask)
  then show ?thesis by (simp add: lock_value_def unsigned_take_bit_eq take_bit_eq_mod uint_mod)
qed

lemma uint_lock_seconds:
  "uint (push_bit SEQUENCE_LOCKTIME_GRANULARITY (nSequence txin AND SEQUENCE_LOCKTIME_MASK)) = 512 * lock_value txin"
proof -
  have "uint (nSequence txin AND SEQUENCE_LOCKTIME_MASK) < 65536" by (simp add: uint_lock_value lock_value_def)
  then show ?thesis
    by (simp add: SEQUENCE_LOCKTIME_GRANULARITY_def push_bit_eq_mult uint_word_ariths uint_lock_value lock_value_def mult.commute)
qed

lemma median_time_nonneg: "0 \<le> GetMedianTimePast h p"
proof -
  have "set (median_times n h x) \<subseteq> {t. 0 \<le> t}" for n and x
    by (induction n h x rule: median_times.induct) auto
  moreover have "median_times nMedianTimeSpan h (Some p) \<noteq> []" by (simp add: nMedianTimeSpan_def numeral_eq_Suc)
  ultimately show ?thesis
    by (simp add: GetMedianTimePast_def Let_def)
      (metis (no_types, lifting) div_less_dividend length_greater_0_conv length_sort mem_Collect_eq nth_mem one_less_numeral_iff
        semiring_norm(76) set_sort subset_code(1))
qed

text \<open>The loop computes the largest lock of each kind, so the comparison with the block is the one for every input.\<close>

lemma sequence_locks_loop_ok:
  assumes "block_tree h" "pprev (h block) = Some q"
  shows "length heights = length ins \<Longrightarrow> \<forall>x \<in> set heights. 0 \<le> x \<and> x \<le> bi_nHeight (h block) \<Longrightarrow>
    \<exists>mh mt heights'. sequence_locks_loop h block ins heights nMinHeight nMinTime = Inr ((mh, mt), heights') \<and>
      (mh < bi_nHeight (h block) \<and> mt < GetMedianTimePast h q \<longleftrightarrow>
         nMinHeight < bi_nHeight (h block) \<and> nMinTime < GetMedianTimePast h q \<and> list_all2 (input_lock_met h block) ins heights)"
proof (induction ins arbitrary: heights nMinHeight nMinTime)
  case (Cons txin ins)
  obtain ch hs where hs: "heights = ch # hs" using Cons.prems(1) by (cases heights) auto
  have ch: "0 \<le> ch" "ch \<le> bi_nHeight (h block)" using Cons.prems(2) hs by auto
  have IH: "\<exists>mh mt heights'. sequence_locks_loop h block ins hs mh0 mt0 = Inr ((mh, mt), heights') \<and>
      (mh < bi_nHeight (h block) \<and> mt < GetMedianTimePast h q \<longleftrightarrow>
         mh0 < bi_nHeight (h block) \<and> mt0 < GetMedianTimePast h q \<and> list_all2 (input_lock_met h block) ins hs)" for mh0 mt0
    using Cons.IH [of hs mh0 mt0] Cons.prems hs by simp
  consider (off) "bit (nSequence txin) 31" | (time) "\<not> bit (nSequence txin) 31" "bit (nSequence txin) 22"
    | (height) "\<not> bit (nSequence txin) 31" "\<not> bit (nSequence txin) 22" by blast
  then show ?case
  proof cases
    case off
    obtain mh mt heights' where "sequence_locks_loop h block ins hs nMinHeight nMinTime = Inr ((mh, mt), heights')"
      "mh < bi_nHeight (h block) \<and> mt < GetMedianTimePast h q \<longleftrightarrow>
         nMinHeight < bi_nHeight (h block) \<and> nMinTime < GetMedianTimePast h q \<and> list_all2 (input_lock_met h block) ins hs"
      using IH by blast
    moreover have "input_lock_met h block txin ch" using off by (simp add: input_lock_met_def)
    ultimately show ?thesis using off by (simp add: hs sequence_flags)
  next
    case time
    obtain p where p: "ancestor h block (max (ch - 1) 0) = Some p"
      using ancestor_exists [OF block_treeD(1) [OF assms(1)], of "max (ch - 1) 0" block] ch height_prev [OF block_treeD(1) [OF assms(1)] assms(2)]
        height_nonneg [OF block_treeD(1) [OF assms(1)], of q] by auto
    let ?t = "max nMinTime (GetMedianTimePast h p + 512 * lock_value txin - 1)"
    obtain mh mt heights' where "sequence_locks_loop h block ins hs nMinHeight ?t = Inr ((mh, mt), heights')"
      "mh < bi_nHeight (h block) \<and> mt < GetMedianTimePast h q \<longleftrightarrow>
         nMinHeight < bi_nHeight (h block) \<and> ?t < GetMedianTimePast h q \<and> list_all2 (input_lock_met h block) ins hs"
      using IH by blast
    moreover have "GetAncestor h block (max (ch - 1) 0) = Inr (Some p)" using GetAncestor_eq_ancestor [OF assms(1)] p by simp
    moreover have "input_lock_met h block txin ch \<longleftrightarrow> GetMedianTimePast h p + 512 * lock_value txin \<le> GetMedianTimePast h q"
      using time p assms(2) by (simp add: input_lock_met_def)
    ultimately show ?thesis using time by (auto simp: hs sequence_flags uint_lock_seconds Let_def simp del: push_bit_and)
  next
    case height
    let ?m = "max nMinHeight (ch + lock_value txin - 1)"
    obtain mh mt heights' where "sequence_locks_loop h block ins hs ?m nMinTime = Inr ((mh, mt), heights')"
      "mh < bi_nHeight (h block) \<and> mt < GetMedianTimePast h q \<longleftrightarrow>
         ?m < bi_nHeight (h block) \<and> nMinTime < GetMedianTimePast h q \<and> list_all2 (input_lock_met h block) ins hs"
      using IH by blast
    moreover have "input_lock_met h block txin ch \<longleftrightarrow> ch + lock_value txin \<le> bi_nHeight (h block)"
      using height by (simp add: input_lock_met_def)
    ultimately show ?thesis using height by (auto simp: hs sequence_flags uint_lock_value)
  qed
qed simp

lemma scast_ge_2: "(scast (v :: u16) :: u32) \<ge> 2 \<longleftrightarrow> 2 \<le> v"
proof -
  have "uint (scast v :: u32) = uint (word_of_int (sint v) :: u32)" by (simp only: scast_eq)
  then have a: "uint (scast v :: u32) = sint v mod 4294967296" by (simp only: uint_word_of_int) simp
  have "uint v = uint (word_of_int (sint v) :: u16)" by simp
  then have b: "uint v = sint v mod 65536" by (simp only: uint_word_of_int) simp
  have "- 32768 \<le> sint v" "sint v < 32768" using sint_ge [of v] sint_lt [of v] by simp_all
  moreover have "x mod m = x + m" if "- m \<le> x" "x < 0" for x m :: int
    using mod_add_self2 [of x m] mod_pos_pos_trivial [of "x + m" m] that by simp
  ultimately have "2 \<le> sint v mod 4294967296 \<longleftrightarrow> 2 \<le> sint v mod 65536"
    by (cases "sint v < 0") simp_all
  then show ?thesis by (simp add: word_le_def a b)
qed

lemma SequenceLocks_ok:
  assumes "block_tree h" "pprev (h block) = Some q" "length heights = length (vin tx)"
    "\<forall>x \<in> set heights. 0 \<le> x \<and> x \<le> bi_nHeight (h block)"
  shows "\<exists>r heights'. SequenceLocks h tx nFlags heights block = Inr (r, heights') \<and>
    (r \<longleftrightarrow> nVersion tx < 2 \<or> \<not> bit nFlags 0 \<or> list_all2 (input_lock_met h block) (vin tx) heights)"
proof -
  have v: "(scast (nVersion tx) :: u32) \<ge> 2 \<longleftrightarrow> 2 \<le> nVersion tx" by (rule scast_ge_2)
  have f: "nFlags AND LOCKTIME_VERIFY_SEQUENCE \<noteq> 0 \<longleftrightarrow> bit nFlags 0"
    using and_exp_eq_0_iff_not_bit [of nFlags 0] by (simp add: LOCKTIME_VERIFY_SEQUENCE_def)
  have H: "0 < bi_nHeight (h block)" using height_prev [OF block_treeD(1) [OF assms(1)] assms(2)]
        height_nonneg [OF block_treeD(1) [OF assms(1)], of q] by simp
  show ?thesis
    using sequence_locks_loop_ok [OF assms(1-4), of "- 1" "- 1"] H median_time_nonneg [of h q] assms(2,3) v f
    by (auto simp: SequenceLocks_def CalculateSequenceLocks_def EvaluateSequenceLocks_def Let_def not_le)
qed

section \<open>Accepted transactions\<close>

lemma check_outputs_accepts:
  "fst (check_outputs outs acc state) \<longleftrightarrow> (\<forall>txout \<in> set outs. MoneyRange (nValue txout)) \<and> (outs = [] \<or> MoneyRange (acc + sum_list (map nValue outs)))"
  if "0 \<le> acc"
  using that
proof (induction outs arbitrary: acc)
  case (Cons txout outs)
  have "0 \<le> sum_list (map nValue outs)" if "\<forall>txout \<in> set outs. MoneyRange (nValue txout)"
    using that by (induction outs) (auto simp: MoneyRange_def)
  then show ?case using Cons.IH [of "acc + nValue txout"] Cons.prems
    by (cases outs) (auto simp: Let_def reject_def accept_def MoneyRange_def algebra_simps)
qed (simp add: accept_def)

lemma check_duplicates_accepts:
  "fst (check_duplicates ins seen state) \<longleftrightarrow> distinct (map prevout ins) \<and> prevout ` set ins \<inter> seen = {}"
  by (induction ins arbitrary: seen) (auto simp: reject_def accept_def)

text \<open>What a transaction looks like that passes the checks without context.\<close>

definition tx_sane :: "CTransaction \<Rightarrow> bool" where
  "tx_sane tx \<longleftrightarrow>
     (nType tx = TRANSACTION_QUORUM_COMMITMENT \<or> vin tx \<noteq> [] \<and> vout tx \<noteq> []) \<and>
     length (Serialize_CTransaction tx) \<le> MAX_LEGACY_BLOCK_SIZE \<and> length (vExtraPayload tx) \<le> MAX_TX_EXTRA_PAYLOAD \<and>
     (\<forall>txout \<in> set (vout tx). 0 \<le> nValue txout) \<and> sum_list (map nValue (vout tx)) \<le> MAX_MONEY \<and>
     distinct (map prevout (vin tx)) \<and>
     (if IsCoinBase tx
      then length (scriptSig (vin tx ! 0)) \<in> {if nType tx = TRANSACTION_COINBASE then 1 else 2..100}
      else \<forall>txin \<in> set (vin tx). \<not> COutPoint_IsNull (prevout txin))"

lemma CheckTransaction_sane: "fst (CheckTransaction tx state) \<longleftrightarrow> tx_sane tx"
proof -
  have m: "(\<forall>txout \<in> set (vout tx). MoneyRange (nValue txout)) \<and> (vout tx = [] \<or> MoneyRange (0 + sum_list (map nValue (vout tx)))) \<longleftrightarrow>
      (\<forall>txout \<in> set (vout tx). 0 \<le> nValue txout) \<and> sum_list (map nValue (vout tx)) \<le> MAX_MONEY" (is "?l \<longleftrightarrow> ?r")
  proof
    assume r: ?r
    have "nValue x \<le> sum_list (map nValue (vout tx))" if "x \<in> set (vout tx)" for x
      using r that by (intro member_le_sum_list) auto
    then show ?l using r by (auto simp: MoneyRange_def intro!: sum_list_nonneg intro: order_trans)
  qed (auto simp: MoneyRange_def MAX_MONEY_def COIN_def)
  have i: "fst (check_inputs tx state') \<longleftrightarrow> (if IsCoinBase tx
      then length (scriptSig (vin tx ! 0)) \<in> {if nType tx = TRANSACTION_COINBASE then 1 else 2..100}
      else \<forall>txin \<in> set (vin tx). \<not> COutPoint_IsNull (prevout txin))" for state'
    by (auto simp: check_inputs_def Let_def reject_def accept_def list_ex_iff)
  have c: "fst (case x of (False, s) \<Rightarrow> (False, s) | (True, s) \<Rightarrow> f s) \<longleftrightarrow> fst x \<and> fst (f (snd x))" for x and f :: check
    by (auto split: prod.splits bool.splits)
  have o: "fst (check_outputs (vout tx) 0 state') \<longleftrightarrow>
      (\<forall>txout \<in> set (vout tx). 0 \<le> nValue txout) \<and> sum_list (map nValue (vout tx)) \<le> MAX_MONEY" for state'
    using check_outputs_accepts [of 0 "vout tx" state'] m by simp
  have q: "fst (if P then reject n r s else y) \<longleftrightarrow> \<not> P \<and> fst y" for P n r s y by (simp add: reject_def)
  show ?thesis
    unfolding CheckTransaction_def Let_def tx_sane_def q c i o check_duplicates_accepts not_less by blast
qed

section \<open>The money supply\<close>

definition total_value :: "(COutPoint \<rightharpoonup> Coin) \<Rightarrow> CAmount" where
  "total_value u = (\<Sum>p \<in> dom u. nValue (out (the (u p))))"

definition burnt :: "CTransaction \<Rightarrow> CAmount" where
  "burnt tx = sum_list (map nValue (filter (\<lambda>txout. IsUnspendable (scriptPubKey txout)) (vout tx)))"

lemma supply_upd: "finite (dom u) \<Longrightarrow> u p = None \<Longrightarrow> total_value (u(p \<mapsto> cn)) = total_value u + nValue (out cn)"
proof -
  assume a: "finite (dom u)" "u p = None"
  have "(\<Sum>q \<in> dom u. nValue (out (the ((u(p \<mapsto> cn)) q)))) = total_value u"
    unfolding total_value_def by (rule sum.cong) (use a in auto)
  then show ?thesis using a by (simp add: total_value_def domIff)
qed

lemma supply_add: "finite (dom u) \<Longrightarrow> finite (dom v) \<Longrightarrow> dom u \<inter> dom v = {} \<Longrightarrow> total_value (u ++ v) = total_value u + total_value v"
  unfolding total_value_def
proof -
  assume a: "finite (dom u)" "finite (dom v)" "dom u \<inter> dom v = {}"
  have "(\<Sum>p \<in> dom v \<union> dom u. nValue (out (the ((u ++ v) p)))) =
      (\<Sum>p \<in> dom v. nValue (out (the ((u ++ v) p)))) + (\<Sum>p \<in> dom u. nValue (out (the ((u ++ v) p))))"
    using a by (intro sum.union_disjoint) auto
  moreover have "(\<Sum>p \<in> dom v. nValue (out (the ((u ++ v) p)))) = (\<Sum>p \<in> dom v. nValue (out (the (v p))))"
    by (rule sum.cong) (auto simp: map_add_def)
  moreover have "(\<Sum>p \<in> dom u. nValue (out (the ((u ++ v) p)))) = (\<Sum>p \<in> dom u. nValue (out (the (u p))))"
    using a(3) by (intro sum.cong) (auto simp: map_add_def split: option.splits)
  ultimately show "(\<Sum>p \<in> dom (u ++ v). nValue (out (the ((u ++ v) p)))) =
      (\<Sum>p \<in> dom u. nValue (out (the (u p)))) + (\<Sum>p \<in> dom v. nValue (out (the (v p))))" by (simp add: dom_map_add)
qed

lemma supply_new_coins:
  "i + length outs < 2 ^ 32 \<Longrightarrow> finite (dom (new_coins txid height cb i outs)) \<and>
   total_value (new_coins txid height cb i outs) = sum_list (map nValue (filter (\<lambda>txout. \<not> IsUnspendable (scriptPubKey txout)) outs))"
proof (induction outs arbitrary: i)
  case (Cons txout outs)
  have "new_coins txid height cb (Suc i) outs (COutPoint txid (of_nat i)) = None"
    using Cons.prems by (intro new_coins_at_lower) auto
  then show ?case using Cons.IH [of "Suc i"] Cons.prems by (simp add: supply_upd Coin_make_fields del: fun_upd_apply)
qed (simp add: total_value_def)

lemma supply_spend:
  assumes "finite (dom u)" "distinct (map prevout ins)" "\<forall>txin \<in> set ins. u (prevout txin) \<noteq> None"
  shows "total_value (u |` (- (prevout ` set ins))) + sum_list (map (input_value u) ins) = total_value u"
proof -
  let ?P = "prevout ` set ins"
  have "total_value u = (\<Sum>p \<in> dom u - ?P. nValue (out (the (u p)))) + (\<Sum>p \<in> ?P. nValue (out (the (u p))))"
    unfolding total_value_def using assms by (intro sum.subset_diff) auto
  moreover have "(\<Sum>p \<in> dom u - ?P. nValue (out (the (u p)))) = total_value (u |` (- ?P))"
    unfolding total_value_def by (rule sum.cong) auto
  moreover have "(\<Sum>p \<in> ?P. nValue (out (the (u p)))) = sum_list (map (input_value u) ins)"
    using assms(2) sum.distinct_set_conv_list [of "map prevout ins" "\<lambda>p. nValue (out (the (u p)))"]
    by (simp add: input_value_def [abs_def] o_def)
  ultimately show ?thesis by simp
qed

lemma sum_list_filter_split:
  "sum_list (map f (filter P xs)) + sum_list (map f (filter (\<lambda>x. \<not> P x) xs)) = (sum_list (map f xs) :: int)"
  by (induction xs) auto

lemma supply_apply_tx:
  assumes "finite (dom u)" "tx_applicable GetHash u tx" "\<not> IsCoinBase tx"
  shows "total_value (apply_tx GetHash height u tx) + burnt tx + sum_list (map (input_value u) (vin tx)) =
    total_value u + sum_list (map nValue (vout tx))"
proof -
  let ?v = "u |` (- (prevout ` set (vin tx)))" and ?n = "new_coins (GetHash tx) height (IsCoinBase tx) 0 (vout tx)"
  have n: "finite (dom ?n)" "total_value ?n = sum_list (map nValue (filter (\<lambda>txout. \<not> IsUnspendable (scriptPubKey txout)) (vout tx)))"
    using supply_new_coins [of 0 "vout tx"] assms(2) by (auto simp: tx_applicable_def)
  have "u p = None" if "?n p \<noteq> None" for p using new_coins_dom [OF that] assms(2) by (auto simp: tx_applicable_def)
  then have "dom ?v \<inter> dom ?n = {}" by (fastforce simp: restrict_map_def split: if_splits)
  then have "total_value (?v ++ ?n) = total_value ?v + total_value ?n" using assms(1) n(1) by (intro supply_add) auto
  moreover have "total_value ?v + sum_list (map (input_value u) (vin tx)) = total_value u"
    using assms by (intro supply_spend) (auto simp: tx_applicable_def)
  moreover have "total_value ?n + burnt tx = sum_list (map nValue (vout tx))"
    unfolding n(2) burnt_def using sum_list_filter_split [of nValue "\<lambda>txout. IsUnspendable (scriptPubKey txout)" "vout tx"] by simp
  ultimately show ?thesis using assms(3) by (simp add: apply_tx_def)
qed

lemma length_Serialize_vector: "(\<And>x. x \<in> set xs \<Longrightarrow> 1 \<le> length (f x)) \<Longrightarrow> length xs \<le> length (Serialize_vector f xs)"
proof -
  assume "\<And>x. x \<in> set xs \<Longrightarrow> 1 \<le> length (f x)"
  then have "length xs \<le> length (concat (map f xs))" by (induction xs) (auto, fastforce)
  then show ?thesis by (simp add: Serialize_vector_def)
qed

lemma sane_outputs:
  assumes "tx_sane tx"
  shows "length (vout tx) < 2 ^ 32" "\<forall>txout \<in> set (vout tx). \<not> CTxOut_IsNull txout"
proof -
  have "length (vout tx) \<le> length (Serialize_vector Serialize_CTxOut (vout tx))"
    by (rule length_Serialize_vector) (simp add: Serialize_CTxOut_def)
  also have "\<dots> \<le> length (Serialize_CTransaction tx)" by (simp add: Serialize_CTransaction_def Let_def)
  finally show "length (vout tx) < 2 ^ 32" using assms by (simp add: tx_sane_def MAX_LEGACY_BLOCK_SIZE_def)
  show "\<forall>txout \<in> set (vout tx). \<not> CTxOut_IsNull txout" using assms by (auto simp: tx_sane_def CTxOut_IsNull_def)
qed

text \<open>Coins of a chain carry the height of their block, and unspendable outputs are never entered.\<close>

definition chain_coins :: "(COutPoint \<rightharpoonup> Coin) \<Rightarrow> bool" where
  "chain_coins u \<longleftrightarrow> finite (dom u) \<and> (\<forall>p cn. u p = Some cn \<longrightarrow> nHeight cn \<noteq> 0 \<and> \<not> IsUnspendable (scriptPubKey (out cn)))"

lemma sane_applicable:
  assumes "tx_sane tx" "list_all (input_spendable nSpendHeight u) (vin tx)" "chain_coins u" "\<forall>n. u (COutPoint (GetHash tx) n) = None"
  shows "tx_applicable GetHash u tx"
  using assms sane_outputs [OF assms(1)]
  by (fastforce simp: tx_applicable_def tx_sane_def chain_coins_def input_spendable_def list_all_iff split: option.splits)

text \<open>
  (C25) \<open>CheckTransaction\<close>, \<open>CheckTxInputs\<close> and \<open>UpdateCoins\<close> together (\<^verbatim>\<open>validation.cpp\<close>): a transaction that
  passes both checks against a cache of coins, and whose id is new, is applied without an exception, and
  the total value of the unspent coins falls by exactly the fee and the outputs that cannot be spent,
  both of them at least zero. So no accepted transaction creates money or is applied halfway.
\<close>

theorem accepted_tx_conserves_supply:
  assumes "coins_view ops valid utxo best" "cache_inv valid utxo c" "\<not> IsCoinBase tx" "chain_coins (cache_utxo utxo c)"
    "\<forall>n. cache_utxo utxo c (COutPoint (GetHash tx) n) = None"
    "CheckTransaction tx state = (True, state')" "CheckTxInputs usage ops tx c nSpendHeight = (Inr fee, c1)"
  shows "\<exists>undo c2. UpdateCoins GetHash usage ops tx c1 height = Inr (undo, c2) \<and> cache_inv valid utxo c2 \<and>
    total_value (cache_utxo utxo c2) + fee + burnt tx = total_value (cache_utxo utxo c) \<and> 0 \<le> fee \<and> 0 \<le> burnt tx"
proof -
  let ?u = "cache_utxo utxo c"
  have sane: "tx_sane tx" using CheckTransaction_sane [of tx state] assms(6) by simp
  note sound = coins_view.CheckTxInputs_sound [OF assms(1-3,7)]
  have app: "tx_applicable GetHash ?u tx" using sane_applicable [of tx nSpendHeight ?u GetHash] sane assms(4,5) sound by blast
  obtain undo c2 where c2: "UpdateCoins GetHash usage ops tx c1 height = Inr (undo, c2)" "cache_inv valid utxo c2"
      "cache_utxo utxo c2 = apply_tx GetHash height ?u tx"
    using coins_view.UpdateCoins_refines [OF assms(1), of c1 GetHash tx usage height] sound app by auto
  moreover have "0 \<le> burnt tx" unfolding burnt_def using sane by (auto simp: tx_sane_def intro!: sum_list_nonneg)
  moreover have "total_value (cache_utxo utxo c2) + fee + burnt tx = total_value ?u"
    using supply_apply_tx [OF _ app assms(3), of height] assms(4) sound c2(3) by (simp add: chain_coins_def)
  ultimately show ?thesis using sound by (auto simp: MoneyRange_def)
qed

theorem accepted_tx_conserves_supply_witness:
  "\<exists>undo c1 c2. CheckTxInputs (\<lambda>_. 0) CCoinsViewDB_ops example_tx example_cache 10 = (Inr (1 * COIN), c1) \<and>
    UpdateCoins example_hash (\<lambda>_. 0) CCoinsViewDB_ops example_tx c1 10 = Inr (undo, c2) \<and>
    total_value (cache_utxo db_coins c2) + 1 * COIN + burnt example_tx = total_value (db_coins example_db)"
proof -
  have cb: "\<not> IsCoinBase example_tx" by (simp add: example_tx_def IsCoinBase_def COutPoint_IsNull_def)
  obtain r c1 where r: "CheckTxInputs (\<lambda>_. 0) CCoinsViewDB_ops example_tx example_cache 10 = (r, c1)"
    by (cases "CheckTxInputs (\<lambda>_. 0) CCoinsViewDB_ops example_tx example_cache 10")
  moreover have "fst (CheckTxInputs (\<lambda>_. 0) CCoinsViewDB_ops example_tx example_cache 10) = Inr (1 * COIN)"
    by (simp add: CheckTxInputs_def HaveInputs_def cb)
       (simp add: example_tx_def example_cache_def CCoinsViewCache_make_def HaveCoin_def FetchCoin_def AccessCoin_def
        CCoinsViewDB_ops_def CCoinsViewDB_GetCoin_def example_db_def example_coin_def Coin_make_def
        CCoinsCacheEntry_make_def IsSpent_def CTxOut_IsNull_def COIN_def MoneyRange_def MAX_MONEY_def GetValueOut_def Let_def)
  ultimately have i: "CheckTxInputs (\<lambda>_. 0) CCoinsViewDB_ops example_tx example_cache 10 = (Inr (1 * COIN), c1)" by simp
  have "tx_sane example_tx" by (simp add: tx_sane_def cb) (simp add: example_tx_def TRANSACTION_QUORUM_COMMITMENT_def
      MAX_LEGACY_BLOCK_SIZE_def MAX_MONEY_def COIN_def COutPoint_IsNull_def Serialize_CTransaction_def Serialize_vector_def Serialize_CTxIn_def
      Serialize_CTxOut_def has_extra_payload_def WriteCompactSize_def Serialize_COutPoint_def Serialize_bytes_def Serialize_uint256_def
      ser_writedata32_def ser_writedata64_def ser_writedata8_def length_WriteLE Let_def TRANSACTION_NORMAL_def uint256_bytes_def)
  then obtain state' where t: "CheckTransaction example_tx CValidationState_new = (True, state')"
    using CheckTransaction_sane [of example_tx CValidationState_new] by (metis prod.collapse)
  have "chain_coins (cache_utxo db_coins example_cache)" "\<forall>n. cache_utxo db_coins example_cache (COutPoint (example_hash example_tx) n) = None"
    by (auto simp: chain_coins_def example_cache_ok example_db_def example_coin_def Coin_make_def IsUnspendable_def MAX_SCRIPT_SIZE_def
        example_hash_def cb split: if_splits)
  from accepted_tx_conserves_supply [where GetHash = example_hash, OF coinsdb.coins_view_axioms example_cache_ok(1) cb this t i, of 10] i
  show ?thesis by (auto simp: example_cache_ok)
qed

text \<open>
  (C31) \<open>SequenceLocks\<close> (\<^verbatim>\<open>validation.cpp\<close>): for a block with a parent and coins that are not from its future, the
  two-step computation returns, and the answer is the rule of BIP 68 for each input: without enforcement
  everything passes; with it, an input whose top sequence bit is clear needs its 16-bit number of blocks since
  its coin, or, with the type bit, that many units of 512 seconds between the median time before the coin
  and the median time before the block.
\<close>

theorem SequenceLocks_bip68:
  assumes "block_tree h" "pprev (h block) = Some q" "length heights = length (vin tx)"
    "\<forall>x \<in> set heights. 0 \<le> x \<and> x \<le> bi_nHeight (h block)"
  shows "\<exists>r heights'. SequenceLocks h tx nFlags heights block = Inr (r, heights') \<and>
    (r \<longleftrightarrow> nVersion tx < 2 \<or> \<not> bit nFlags 0 \<or> list_all2 (input_lock_met h block) (vin tx) heights)"
  by (rule SequenceLocks_ok [OF assms])

definition locked_tx :: CTransaction where
  "locked_tx = example_tx \<lparr> vin := [\<lparr> prevout = COutPoint 7 1, scriptSig = [], nSequence = 12 \<rparr>] \<rparr>"

theorem SequenceLocks_bip68_witness:
  "\<exists>heights' heights''. SequenceLocks line_heap locked_tx 1 [30] 40 = Inr (False, heights') \<and>
     SequenceLocks line_heap locked_tx 1 [30] 42 = Inr (True, heights'')"
  using SequenceLocks_bip68 [OF line_heap_tree, of 40 39 "[30]" locked_tx 1] SequenceLocks_bip68 [OF line_heap_tree, of 42 41 "[30]" locked_tx 1]
  by (simp add: locked_tx_def example_tx_def input_lock_met_def lock_value_def bit_iff_odd) metis

end
