(* ===== verification/Merkle_Props.thy ===== *)
theory Merkle_Props
  imports Merkle
begin

text \<open>
  The constant-space computation returns the root of the tree that is built level by level, the last hash of an
  odd level doubled; and two different lists of leaves that are not flagged as mutated have different roots, as
  long as the hashes computed for them do not collide.
\<close>

section \<open>The tree\<close>

text \<open>\<open>tree H k xs\<close> is the root of the tree of height \<open>k\<close> over at most 2 to the \<open>k\<close> leaves.\<close>

fun tree :: "hash2 \<Rightarrow> nat \<Rightarrow> uint256 list \<Rightarrow> uint256" where
  "tree H 0 xs = hd xs"
| "tree H (Suc k) xs =
     (if length xs \<le> 2 ^ k then H (tree H k xs) (tree H k xs)
      else H (tree H k (take (2 ^ k) xs)) (tree H k (drop (2 ^ k) xs)))"

definition seg :: "uint256 list \<Rightarrow> nat \<Rightarrow> nat \<Rightarrow> uint256 list" where
  "seg L a k = take (2 ^ k) (drop a L)"

lemma tree_join:
  assumes "a + 2 ^ k < length L"
  shows "H (tree H k (seg L a k)) (tree H k (seg L (a + 2 ^ k) k)) = tree H (Suc k) (seg L a (Suc k))"
proof -
  have "length (seg L a (Suc k)) > 2 ^ k" using assms by (simp add: seg_def)
  moreover have "take (2 ^ k) (seg L a (Suc k)) = seg L a k" by (simp add: seg_def min_def)
  moreover have "drop (2 ^ k) (seg L a (Suc k)) = seg L (a + 2 ^ k) k" by (simp add: seg_def drop_take add.commute)
  ultimately show ?thesis by simp
qed

lemma seg_all: "length L \<le> a + 2 ^ k \<Longrightarrow> seg L a k = drop a L"
  by (simp add: seg_def)

lemma seg_dup:
  assumes "length L \<le> a + 2 ^ k"
  shows "H (tree H k (seg L a k)) (tree H k (seg L a k)) = tree H (Suc k) (seg L a (Suc k))"
proof -
  have "seg L a (Suc k) = seg L a k" using assms by (simp add: seg_all)
  moreover have "length (seg L a k) \<le> 2 ^ k" by (simp add: seg_def)
  ultimately show ?thesis by simp
qed

section \<open>Binary counting\<close>

lemma dvd_step: "2 ^ k dvd c \<Longrightarrow> \<not> bit c k \<Longrightarrow> 2 ^ Suc k dvd (c :: nat)"
  by (auto simp: bit_iff_odd elim!: dvdE)

lemma dvd_bit: "2 ^ k dvd c \<Longrightarrow> bit c k \<Longrightarrow> \<exists>q. (c :: nat) = 2 ^ Suc k * q + 2 ^ k"
  by (auto simp: bit_iff_odd elim!: dvdE oddE)

definition start :: "nat \<Rightarrow> nat \<Rightarrow> nat" where
  "start c l = 2 ^ Suc l * (c div 2 ^ Suc l)"

text \<open>A number strictly inside the upper half of a block has the bit of that half.\<close>

lemma upper_half:
  assumes "2 ^ Suc l dvd (c :: nat)" "c - 2 ^ l \<le> n" "n < c"
  shows "bit n l" "start n l = c - 2 ^ Suc l"
proof -
  obtain m where m: "c = 2 ^ Suc l * m" using assms(1) by blast
  then obtain m' where m': "m = Suc m'" using assms(3) by (cases m) auto
  let ?P = "(2 :: nat) ^ l"
  have "(0 :: nat) < ?P" by simp
  have lo: "2 * ?P * m' + ?P \<le> n" and hi: "n < 2 * ?P * m' + 2 * ?P" using assms(2,3) m m' by (auto simp: algebra_simps)
  have d: "n div ?P = 2 * m' + 1"
  proof (rule div_nat_eqI)
    show "?P * (2 * m' + 1) \<le> n" using lo by (simp add: algebra_simps)
    show "n < ?P * Suc (2 * m' + 1)" using hi by (simp add: algebra_simps)
  qed
  then show "bit n l" by (simp add: bit_iff_odd)
  have "n div 2 ^ Suc l = m'"
  proof -
    have "n div 2 ^ Suc l = n div ?P div 2" by (simp add: div_mult2_eq [symmetric] mult.commute)
    then show ?thesis using d by simp
  qed
  then show "start n l = c - 2 ^ Suc l" using m m' by (simp add: start_def)
qed

lemma dvd_le_diff: "2 ^ k dvd c \<Longrightarrow> 0 < c \<Longrightarrow> 2 ^ k \<le> (c :: nat)"
  by (rule dvd_imp_le)

section \<open>Entering the leaves\<close>

definition inner_ok :: "hash2 \<Rightarrow> uint256 list \<Rightarrow> nat \<Rightarrow> uint256 list \<Rightarrow> bool" where
  "inner_ok H L c inner \<longleftrightarrow> length inner = 32 \<and> (\<forall>l<32. bit c l \<longrightarrow> inner ! l = tree H l (seg L (start c l) l))"

text \<open>The pairs of complete subtrees of equal height that the leaves up to \<open>c\<close> have combined last.\<close>

definition twins :: "hash2 \<Rightarrow> uint256 list \<Rightarrow> nat \<Rightarrow> nat \<Rightarrow> bool" where
  "twins H L c l \<longleftrightarrow> 2 ^ Suc l dvd c \<and> tree H l (seg L (c - 2 ^ Suc l) l) = tree H l (seg L (c - 2 ^ l) l)"

lemma leaf_loop_ok:
  assumes inner: "inner_ok H L (c - 1) inner" and c: "0 < c" "c \<le> length L" "c < 2 ^ 32"
  shows "2 ^ level dvd c \<Longrightarrow> level < 32 \<Longrightarrow> h = tree H level (seg L (c - 2 ^ level) level) \<Longrightarrow>
    \<exists>level' st'. leaf_loop H c inner m level h mutated st =
        (level', tree H level' (seg L (c - 2 ^ level') level'), mutated \<or> (\<exists>l\<ge>level. l < level' \<and> twins H L c l), st') \<and>
      2 ^ level' dvd c \<and> bit c level' \<and> level' < 32 \<and> level \<le> level'"
proof (induction "32 - level" arbitrary: level h mutated st rule: less_induct)
  case less
  show ?case
  proof (cases "bit c level")
    case True
    then show ?thesis using less.prems by (subst leaf_loop.simps) auto
  next
    case False
    let ?P = "(2 :: nat) ^ level"
    have d: "2 ^ Suc level dvd c" by (rule dvd_step [OF less.prems(1) False])
    have le: "2 * ?P \<le> c" using dvd_le_diff [OF d c(1)] by simp
    have "2 ^ Suc level < (2 :: nat) ^ 32" using le c(3) by simp
    then have lv: "Suc level < 32" by (rule power_less_imp_less_exp [rotated]) simp
    have "bit (c - 1) level" "start (c - 1) level = c - 2 ^ Suc level"
      using upper_half [OF d, of "c - 1"] c(1) by (auto simp: diff_le_mono2)
    then have i: "inner ! level = tree H level (seg L (c - 2 ^ Suc level) level)"
      using inner less.prems(2) by (simp add: inner_ok_def)
    have e: "c - 2 ^ Suc level + ?P = c - ?P" using le by simp
    have "(0 :: nat) < ?P" by simp
    then have "c - 2 ^ Suc level + ?P < length L" using e c(1,2) le by linarith
    from tree_join [OF this, of H] have h': "H (inner ! level) h = tree H (Suc level) (seg L (c - 2 ^ Suc level) (Suc level))"
      unfolding i less.prems(3) e .
    have tw: "inner ! level = h \<longleftrightarrow> twins H L c level" unfolding i less.prems(3) twins_def using d by simp
    have step: "leaf_loop H c inner m level h mutated st =
        leaf_loop H c inner m (Suc level) (H (inner ! level) h) (mutated \<or> inner ! level = h) (branch_step (inner ! level) h m level st)"
      using False less.prems(2) by (subst leaf_loop.simps) simp
    from less.hyps [of "Suc level" "H (inner ! level) h" "mutated \<or> inner ! level = h" "branch_step (inner ! level) h m level st"]
    obtain level' st' where r: "leaf_loop H c inner m level h mutated st =
        (level', tree H level' (seg L (c - 2 ^ level') level'),
          (mutated \<or> twins H L c level) \<or> (\<exists>l\<ge>Suc level. l < level' \<and> twins H L c l), st')"
      "2 ^ level' dvd c" "bit c level'" "level' < 32" "Suc level \<le> level'"
      unfolding step tw using d lv h' by (metis (no_types, lifting) diff_less_mono2 lessI less.prems(2))
    moreover have "(\<exists>l\<ge>level. l < level' \<and> twins H L c l) \<longleftrightarrow> twins H L c level \<or> (\<exists>l\<ge>Suc level. l < level' \<and> twins H L c l)"
      using r(5) by (metis Suc_le_eq le_eq_less_or_eq less_or_eq_imp_le)
    ultimately show ?thesis by (auto intro: Suc_leD)
  qed
qed

lemma low_bits: "2 ^ k dvd c \<Longrightarrow> l < k \<Longrightarrow> \<not> bit (c :: nat) l"
proof -
  assume "2 ^ k dvd c" "l < k"
  then have "2 ^ Suc l dvd c" by (meson Suc_leI dvd_trans le_imp_power_dvd)
  then obtain q where "c = 2 ^ l * (2 * q)" by (auto elim!: dvdE)
  then show ?thesis by (simp add: bit_iff_odd)
qed

lemma same_block:
  assumes "a div 2 ^ Suc k = (b :: nat) div 2 ^ Suc k" "k < l"
  shows "bit a l = bit b l" "start a l = start b l"
proof -
  have "a div 2 ^ i = b div 2 ^ i" if "Suc k \<le> i" for i
  proof -
    have "2 ^ i = (2 :: nat) ^ Suc k * 2 ^ (i - Suc k)" using that by (simp only: power_add [symmetric]) simp
    then show ?thesis using assms(1) by (metis div_mult2_eq)
  qed
  from this [of l] this [of "Suc l"] show "bit a l = bit b l" "start a l = start b l"
    using assms(2) by (simp_all add: bit_iff_odd start_def del: power_Suc)
qed

lemma inner_ok_step:
  assumes "inner_ok H L (c - 1) inner" "2 ^ k dvd c" "bit c k" "k < 32"
  shows "inner_ok H L c (inner[k := tree H k (seg L (c - 2 ^ k) k)])"
proof -
  obtain q where q: "c = 2 ^ Suc k * q + 2 ^ k" using dvd_bit [OF assms(2,3)] by blast
  let ?P = "(2 :: nat) ^ k"
  have P: "0 < ?P" by simp
  have d: "c div 2 ^ Suc k = q" by (rule div_nat_eqI) (use q P in auto)
  have "(c - 1) div 2 ^ Suc k = q"
  proof (rule div_nat_eqI)
    show "2 ^ Suc k * q \<le> c - 1" using q P by linarith
    have "2 ^ Suc k = ?P + ?P" by simp
    then show "c - 1 < 2 ^ Suc k * Suc q" using q P unfolding mult_Suc_right by linarith
  qed
  then have same: "bit (c - 1) l = bit c l" "start (c - 1) l = start c l" if "k < l" for l
    using same_block [OF _ that, of "c - 1" c] d by simp_all
  have "start c k = c - 2 ^ k" unfolding start_def d using q by simp
  moreover have "\<not> bit c l" if "l < k" for l using low_bits [OF assms(2) that] .
  ultimately have "inner[k := tree H k (seg L (c - 2 ^ k) k)] ! l = tree H l (seg L (start c l) l)" if "l < 32" "bit c l" for l
    using that assms(1) same [of l] by (cases l k rule: linorder_cases) (auto simp: inner_ok_def)
  then show ?thesis using assms(1) by (simp add: inner_ok_def)
qed

lemma start_low: "2 ^ k dvd c \<Longrightarrow> bit c k \<Longrightarrow> start c k = c - 2 ^ k"
proof -
  assume "2 ^ k dvd c" "bit c k"
  then obtain q where q: "c = 2 ^ Suc k * q + 2 ^ k" using dvd_bit by blast
  have "c div 2 ^ Suc k = q" by (rule div_nat_eqI) (use q in auto)
  then show ?thesis unfolding start_def using q by simp
qed

lemma twins_below: "twins H L c l \<Longrightarrow> 2 ^ k dvd c \<Longrightarrow> bit c k \<Longrightarrow> l < k"
  using low_bits [of "Suc l" c k] unfolding twins_def by (metis not_less_eq)

lemma leaves_loop_ok:
  assumes "length L < 2 ^ 32"
  shows "L = pre @ rest \<Longrightarrow> inner_ok H L (length pre) inner \<Longrightarrow>
    \<exists>inner' m' pb'. leaves_loop H bp rest (length pre) inner mutated m pb =
       (length L, inner', mutated \<or> (\<exists>c>length pre. c \<le> length L \<and> (\<exists>l. twins H L c l)), m', pb') \<and>
     inner_ok H L (length L) inner'"
proof (induction rest arbitrary: pre inner mutated m pb)
  case (Cons x rest)
  let ?c = "Suc (length pre)"
  have c: "?c \<le> length L" "?c < 2 ^ 32" using Cons.prems(1) assms by auto
  have x: "x = tree H 0 (seg L (?c - 2 ^ 0) 0)" using Cons.prems(1) by (simp add: seg_def)
  have in': "inner_ok H L (?c - 1) inner" using Cons.prems(2) by simp
  obtain k pb1 mh where k: "leaf_loop H ?c inner m 0 x mutated (pb, length pre = unat bp) =
        (k, tree H k (seg L (?c - 2 ^ k) k), mutated \<or> (\<exists>l\<ge>0. l < k \<and> twins H L ?c l), pb1, mh)"
      "2 ^ k dvd ?c" "bit ?c k" "k < 32"
    using leaf_loop_ok [OF in' _ c, of 0 x m mutated "(pb, length pre = unat bp)"] x by auto
  have ex: "(\<exists>l\<ge>0. l < k \<and> twins H L ?c l) \<longleftrightarrow> (\<exists>l. twins H L ?c l)" using twins_below [OF _ k(2,3)] by auto
  let ?inner = "inner[k := tree H k (seg L (?c - 2 ^ k) k)]"
  have i: "inner_ok H L (length (pre @ [x])) ?inner" using inner_ok_step [OF in' k(2-4)] by simp
  obtain inner' m' pb' where r: "leaves_loop H bp rest (length (pre @ [x])) ?inner (mutated \<or> (\<exists>l. twins H L ?c l))
        (if mh then int k else m) pb1 =
       (length L, inner', (mutated \<or> (\<exists>l. twins H L ?c l)) \<or> (\<exists>c>length (pre @ [x]). c \<le> length L \<and> (\<exists>l. twins H L c l)), m', pb')"
      "inner_ok H L (length L) inner'"
    using Cons.IH [OF _ i, of "mutated \<or> (\<exists>l. twins H L ?c l)" "if mh then int k else m" pb1] Cons.prems(1) by auto
  have "(\<exists>c>length pre. c \<le> length L \<and> (\<exists>l. twins H L c l)) \<longleftrightarrow>
      (\<exists>l. twins H L ?c l) \<or> (\<exists>c>length (pre @ [x]). c \<le> length L \<and> (\<exists>l. twins H L c l))"
    using c(1) unfolding length_append_singleton by (metis Suc_lessD Suc_lessI lessI)
  with r k(1) ex show ?case by simp
qed auto

section \<open>The final sweep\<close>

definition sweep_ok :: "hash2 \<Rightarrow> uint256 list \<Rightarrow> nat \<Rightarrow> nat \<Rightarrow> uint256 \<Rightarrow> bool" where
  "sweep_ok H L c k h \<longleftrightarrow> 2 ^ k dvd c \<and> c - 2 ^ k < length L \<and> length L \<le> c \<and> h = tree H k (seg L (c - 2 ^ k) k)"

lemma propagate_loop_ok:
  assumes inner: "inner_ok H L (length L) inner" and c: "length L < c" "c \<le> 2 ^ 31"
  shows "sweep_ok H L c k h \<Longrightarrow> k < 32 \<Longrightarrow>
    \<exists>k' h' st'. propagate_loop H c inner m k h st = (k', h', st') \<and> sweep_ok H L c k' h' \<and> bit c k' \<and> k \<le> k' \<and> k' < 32"
proof (induction "32 - k" arbitrary: k h st rule: less_induct)
  case less
  show ?case
  proof (cases "bit c k")
    case True
    then show ?thesis using less.prems by (subst propagate_loop.simps) auto
  next
    case False
    let ?P = "(2 :: nat) ^ k"
    note S = less.prems(1) [unfolded sweep_ok_def]
    have d: "2 ^ Suc k dvd c" using dvd_step False S by blast
    have le: "2 * ?P \<le> c" using dvd_le_diff [OF d] c(1) by simp
    have "2 ^ Suc k < (2 :: nat) ^ 32" using le c(2) by simp
    then have lv: "Suc k < 32" by (rule power_less_imp_less_exp [rotated]) simp
    have "bit (length L) k" "start (length L) k = c - 2 ^ Suc k"
      using upper_half [OF d, of "length L"] S c(1) by auto
    then have i: "inner ! k = tree H k (seg L (c - 2 ^ Suc k) k)" using inner less.prems(2) by (simp add: inner_ok_def)
    have e: "c - 2 ^ Suc k + ?P = c - ?P" using le by simp
    have "c - 2 ^ Suc k + ?P < length L" using e S by simp
    from tree_join [OF this, of H] have h': "H (inner ! k) h = tree H (Suc k) (seg L (c - 2 ^ Suc k) (Suc k))"
      using S unfolding i e by simp
    have "c - 2 ^ Suc k < length L" using e S by linarith
    then have "sweep_ok H L c (Suc k) (H (inner ! k) h)" unfolding sweep_ok_def using d S h' by blast
    moreover have "32 - Suc k < 32 - k" using less.prems(2) by simp
    ultimately obtain k' h'' st' where
        "propagate_loop H c inner m (Suc k) (H (inner ! k) h) (branch_step (inner ! k) h m k st) = (k', h'', st')"
        "sweep_ok H L c k' h''" "bit c k'" "Suc k \<le> k'" "k' < 32"
      using less.hyps [OF _ _ lv] by meson
    then show ?thesis using False less.prems(2) by (subst propagate_loop.simps) (auto intro: Suc_leD)
  qed
qed

lemma sweep_ok_next:
  assumes "sweep_ok H L c k h" "bit c k"
  shows "sweep_ok H L (c + 2 ^ k) (Suc k) (H h h)"
proof -
  note S = assms(1) [unfolded sweep_ok_def]
  obtain q where q: "c = 2 ^ Suc k * q + 2 ^ k" using dvd_bit [OF _ assms(2)] S by blast
  have e: "c + 2 ^ k - 2 ^ Suc k = c - 2 ^ k" by simp
  have "c + 2 ^ k = 2 ^ Suc k * Suc q" using q by simp
  then have "2 ^ Suc k dvd c + 2 ^ k" by (metis dvd_triv_left)
  moreover have "H h h = tree H (Suc k) (seg L (c - 2 ^ k) (Suc k))"
    using S seg_dup [of L "c - 2 ^ k" k H] q by (simp del: tree.simps)
  ultimately show ?thesis unfolding sweep_ok_def e using S by (auto simp del: tree.simps)
qed

lemma sweep_height:
  assumes "bit c k" "2 ^ k dvd (c :: nat)" "c \<noteq> 2 ^ k" "c - 2 ^ k < n" "c + 2 ^ k = 2 ^ K"
  shows "2 ^ (K - 1) < n"
proof -
  obtain q where q: "c = 2 ^ Suc k * q + 2 ^ k" using dvd_bit [OF assms(2,1)] by blast
  then have e: "2 ^ Suc k * (q + 1) = (2 :: nat) ^ K" using assms(5) by (simp add: algebra_simps)
  have "q \<noteq> 0" using q assms(3) by (cases q) auto
  then have "(2 :: nat) ^ Suc k * 2 \<le> 2 ^ Suc k * (q + 1)" by (intro mult_le_mono2) simp
  moreover have "(0 :: nat) < 2 ^ Suc k" by simp
  ultimately have "2 ^ Suc k < (2 :: nat) ^ K" unfolding e by linarith
  then have "Suc k < K" by (rule power_less_imp_less_exp [rotated]) simp
  then obtain j where j: "K = Suc j" "Suc k \<le> j" by (cases K) auto
  have "2 ^ Suc k \<le> (2 :: nat) ^ j" using j(2) by (simp only: power_increasing one_le_numeral)
  then show ?thesis using assms(4,5) j(1) by simp
qed

lemma sweep_loop_ok:
  assumes inner: "inner_ok H L (length L) inner"
  shows "sweep_ok H L c k h \<Longrightarrow> bit c k \<Longrightarrow> k < 32 \<Longrightarrow> c \<le> 2 ^ 31 \<Longrightarrow> (c = 2 ^ k \<longrightarrow> k = 0 \<or> 2 ^ (k - 1) < length L) \<Longrightarrow>
    \<exists>K. fst (sweep_loop H c inner m k h st) = tree H K L \<and> length L \<le> 2 ^ K \<and> (K = 0 \<or> 2 ^ (K - 1) < length L)"
proof (induction "32 - k" arbitrary: c k h st rule: less_induct)
  case less
  note S = less.prems(1) [unfolded sweep_ok_def]
  show ?case
  proof (cases "c = 2 ^ k")
    case True
    then have "h = tree H k L" using S by (simp add: seg_def)
    then show ?thesis using True S less.prems(5) by (subst sweep_loop.simps) auto
  next
    case False
    let ?c = "c + 2 ^ k"
    obtain q where q: "c = 2 ^ Suc k * q + 2 ^ k" using dvd_bit [OF _ less.prems(2)] S by blast
    have "c \<noteq> 2 ^ 31"
    proof
      assume "c = 2 ^ 31"
      then have "k = 31" using less.prems(2) bit_exp_iff [where 'a = nat, of 31 k] by simp
      then show False using False \<open>c = 2 ^ 31\<close> by simp
    qed
    then have lt: "c < 2 ^ 31" using less.prems(4) by simp
    have "0 < c" using q by simp
    then have "2 ^ k < (2 :: nat) ^ 31" using dvd_le_diff [of k c] S lt by auto
    then have k: "k < 31" by (rule power_less_imp_less_exp [rotated]) simp
    then have "2 ^ k dvd (2 :: nat) ^ 31" by (intro le_imp_power_dvd) simp
    then have "2 ^ k dvd 2 ^ 31 - c" using S by (intro dvd_diff_nat) auto
    then have "2 ^ k \<le> 2 ^ 31 - c" using lt by (intro dvd_imp_le) auto
    then have c': "?c \<le> 2 ^ 31" using lt by linarith
    have n: "length L < ?c" using S by (intro le_less_trans [of "length L" c]) auto
    obtain pb mh where st: "st = (pb, mh)" by (cases st)
    let ?st = "(case pb of None \<Rightarrow> None | Some b \<Rightarrow> if mh then Some (b @ [h]) else Some b, mh)"
    obtain k' h' st' where p: "propagate_loop H ?c inner m (Suc k) (H h h) ?st = (k', h', st')"
        "sweep_ok H L ?c k' h'" "bit ?c k'" "Suc k \<le> k'" "k' < 32"
      using propagate_loop_ok [OF inner n c' sweep_ok_next [OF less.prems(1,2)], of m ?st] k by auto
    have "k' = 0 \<or> 2 ^ (k' - 1) < length L" if "?c = 2 ^ k'"
      using sweep_height [OF less.prems(2) _ False _ that] S by blast
    then have "\<exists>K. fst (sweep_loop H ?c inner m k' h' st') = tree H K L \<and> length L \<le> 2 ^ K \<and> (K = 0 \<or> 2 ^ (K - 1) < length L)"
      using less.hyps [OF _ p(2,3,5) c'] p(4) k by auto
    then show ?thesis using False less.prems(3) p(1) st by (subst sweep_loop.simps) simp
  qed
qed

lemma lowest_level_ok:
  assumes "0 < n" "n < 2 ^ 32"
  shows "2 ^ l dvd n \<Longrightarrow> 2 ^ lowest_level n l dvd n \<and> bit n (lowest_level n l) \<and> lowest_level n l < 32"
proof (induction "32 - l" arbitrary: l rule: less_induct)
  case less
  have "2 ^ l < (2 :: nat) ^ 32" using dvd_le_diff [OF less.prems assms(1)] assms(2) by simp
  then have l: "l < 32" by (rule power_less_imp_less_exp [rotated]) simp
  show ?case
  proof (cases "bit n l")
    case True
    then show ?thesis using less.prems l by (subst (1 2 3) lowest_level.simps) simp
  next
    case False
    have "32 - Suc l < 32 - l" using l by simp
    from less.hyps [OF this dvd_step [OF less.prems False]] show ?thesis
      using False l by (subst (1 2 3) lowest_level.simps) simp
  qed
qed

section \<open>The tree level by level\<close>

text \<open>The reference: as long as there is more than one hash, combine neighbours, an odd last one with itself.\<close>

fun pair_up :: "hash2 \<Rightarrow> uint256 list \<Rightarrow> uint256 list" where
  "pair_up H [] = []"
| "pair_up H [x] = [H x x]"
| "pair_up H (x # y # xs) = H x y # pair_up H xs"

lemma length_pair_up [simp]: "length (pair_up H xs) = (length xs + 1) div 2"
  by (induction H xs rule: pair_up.induct) auto

function merkle_levels :: "hash2 \<Rightarrow> uint256 list \<Rightarrow> uint256" where
  "merkle_levels H xs =
     (if xs = [] then 0 else if length xs = 1 then hd xs else merkle_levels H (pair_up H xs))"
  by pat_completeness auto
termination
proof (relation "measure (\<lambda>(H, xs). length xs)", goal_cases)
  case (2 H xs)
  then have "1 < length xs" by (cases xs) auto
  then show ?case by simp
qed simp

declare merkle_levels.simps [simp del]

lemma pair_up_take: "pair_up H (take (2 * m) xs) = take m (pair_up H xs)"
proof (induction H xs arbitrary: m rule: pair_up.induct)
  case (2 H x) then show ?case by (cases m) auto
next
  case (3 H x y xs) then show ?case by (cases m) auto
qed simp

lemma pair_up_drop: "pair_up H (drop (2 * m) xs) = drop m (pair_up H xs)"
proof (induction H xs arbitrary: m rule: pair_up.induct)
  case (2 H x) then show ?case by (cases m) auto
next
  case (3 H x y xs) then show ?case by (cases m) auto
qed simp

lemma tree_pair_up: "xs \<noteq> [] \<Longrightarrow> length xs \<le> 2 ^ Suc k \<Longrightarrow> tree H (Suc k) xs = tree H k (pair_up H xs)"
proof (induction k arbitrary: xs)
  case 0
  then consider x where "xs = [x]" | x y where "xs = [x, y]"
    by (cases "(H, xs)" rule: pair_up.cases) (auto simp: le_Suc_eq)
  then show ?case by cases auto
next
  case (Suc k)
  let ?m = "2 ^ k :: nat"
  have t: "take (2 ^ Suc k) xs = take (2 * ?m) xs" "drop (2 ^ Suc k) xs = drop (2 * ?m) xs" by simp_all
  show ?case
  proof (cases "length xs \<le> 2 ^ Suc k")
    case True
    then have "length (pair_up H xs) \<le> ?m" by simp
    then show ?thesis using Suc.IH [OF Suc.prems(1) True] True by (subst (1) tree.simps, subst (3) tree.simps) simp
  next
    case False
    then have l: "\<not> length (pair_up H xs) \<le> ?m" by simp
    have a: "tree H (Suc k) (take (2 ^ Suc k) xs) = tree H k (take ?m (pair_up H xs))"
      unfolding pair_up_take [symmetric] t(1) [symmetric] using Suc.prems(1) by (intro Suc.IH) auto
    have b: "tree H (Suc k) (drop (2 ^ Suc k) xs) = tree H k (drop ?m (pair_up H xs))"
      unfolding pair_up_drop [symmetric] t(2) [symmetric] using Suc.prems(2) False by (intro Suc.IH) auto
    have "tree H (Suc (Suc k)) xs = H (tree H (Suc k) (take (2 ^ Suc k) xs)) (tree H (Suc k) (drop (2 ^ Suc k) xs))"
      using False by (subst tree.simps) simp
    also have "\<dots> = tree H (Suc k) (pair_up H xs)" unfolding a b using l by simp
    finally show ?thesis .
  qed
qed

lemma tree_levels: "xs \<noteq> [] \<Longrightarrow> length xs \<le> 2 ^ K \<Longrightarrow> K = 0 \<or> 2 ^ (K - 1) < length xs \<Longrightarrow> tree H K xs = merkle_levels H xs"
proof (induction K arbitrary: xs)
  case 0
  then have "length xs = 1" by (cases xs) auto
  then show ?case using 0 by (subst merkle_levels.simps) simp
next
  case (Suc K)
  have "0 < (2 :: nat) ^ K" by simp
  then have l: "length xs \<noteq> 1" "length xs \<noteq> 0" using Suc.prems(3) by auto
  have ne: "pair_up H xs \<noteq> []" using l length_pair_up [of H xs] by (metis One_nat_def Suc_eq_plus1 div_less_iff_less_mult
        less_one list.size(3) mult_1 not_less_eq numeral_2_eq_2 zero_less_Suc)
  have h: "K = 0 \<or> 2 ^ (K - 1) < length (pair_up H xs)"
    using Suc.prems(3) by (cases K) auto
  have "tree H (Suc K) xs = tree H K (pair_up H xs)" using Suc.prems by (intro tree_pair_up) auto
  also have "\<dots> = merkle_levels H (pair_up H xs)" using Suc.prems(2) by (intro Suc.IH ne h) simp
  finally show ?case using l by (subst merkle_levels.simps) simp
qed

definition has_twins :: "hash2 \<Rightarrow> uint256 list \<Rightarrow> bool" where
  "has_twins H L \<longleftrightarrow> (\<exists>c l. 0 < c \<and> c \<le> length L \<and> twins H L c l)"

lemma root_levels:
  assumes "length L \<le> 2 ^ 31"
  shows "ComputeMerkleRoot H L = (merkle_levels H L, has_twins H L)"
proof (cases "L = []")
  case True
  then show ?thesis by (simp add: ComputeMerkleRoot_def MerkleComputation_def merkle_levels.simps has_twins_def)
next
  case False
  let ?n = "length L"
  have n: "0 < ?n" "?n < 2 ^ 32" using assms False by auto
  have "inner_ok H L (length []) (replicate 32 0)" by (simp add: inner_ok_def)
  from leaves_loop_ok [OF n(2) _ this, of L "- 1" False "- 1" None]
  obtain inner m pb where l: "leaves_loop H (- 1) L 0 (replicate 32 0) False (- 1) None = (?n, inner, has_twins H L, m, pb)"
      "inner_ok H L ?n inner" by (auto simp: has_twins_def)
  let ?k = "lowest_level ?n 0"
  have k: "2 ^ ?k dvd ?n" "bit ?n ?k" "?k < 32" using lowest_level_ok [OF n, of 0] by auto
  have le: "2 ^ ?k \<le> ?n" by (rule dvd_le_diff [OF k(1) n(1)])
  have s: "start ?n ?k = ?n - 2 ^ ?k" by (rule start_low [OF k(1,2)])
  have "sweep_ok H L ?n ?k (inner ! ?k)"
    using l(2) k le n(1) s by (simp add: sweep_ok_def inner_ok_def)
  moreover have "?n = 2 ^ ?k \<longrightarrow> ?k = 0 \<or> 2 ^ (?k - 1) < ?n" by (metis Suc_pred' lessI neq0_conv one_less_numeral_iff
        power_strict_increasing_iff semiring_norm(76))
  ultimately obtain K where "fst (sweep_loop H ?n inner m ?k (inner ! ?k) (pb, m = int ?k)) = tree H K L"
      "?n \<le> 2 ^ K" "K = 0 \<or> 2 ^ (K - 1) < ?n"
    using sweep_loop_ok [OF l(2) _ k(2,3) assms] by blast
  then have "fst (sweep_loop H ?n inner m ?k (inner ! ?k) (pb, m = int ?k)) = merkle_levels H L"
    using tree_levels [OF False] by simp
  then show ?thesis using l(1) False
    by (auto simp add: ComputeMerkleRoot_def MerkleComputation_def Let_def split: prod.splits)
qed

text \<open>
  (C11) The constant-space Merkle computation returns the root of the tree built level by level, where the last hash
  of an odd level is combined with itself; and its flag is set exactly when two complete neighbouring subtrees
  have the same root.
\<close>

theorem ComputeMerkleRoot_levels:
  "length L \<le> 2 ^ 31 \<Longrightarrow> ComputeMerkleRoot H L = (merkle_levels H L, has_twins H L)"
  by (rule root_levels)

theorem ComputeMerkleRoot_levels_witness:
  "ComputeMerkleRoot (\<lambda>a b. 2 * a + b) [1, 2, 3] = (merkle_levels (\<lambda>a b. 2 * a + b) [1, 2, 3], has_twins (\<lambda>a b. 2 * a + b) [1, 2, 3])"
  by (rule ComputeMerkleRoot_levels) simp

section \<open>Different leaves, different roots\<close>

fun merkle_height :: "nat \<Rightarrow> nat" where
  "merkle_height n = (if n \<le> 1 then 0 else Suc (merkle_height ((n + 1) div 2)))"

declare merkle_height.simps [simp del]

lemma merkle_height: "0 < n \<Longrightarrow> n \<le> 2 ^ merkle_height n \<and> (merkle_height n = 0 \<or> 2 ^ (merkle_height n - 1) < n)"
proof (induction n rule: merkle_height.induct)
  case (1 n)
  show ?case
  proof (cases "n \<le> 1")
    case True
    then show ?thesis by (simp add: merkle_height.simps)
  next
    case False
    let ?h = "merkle_height ((n + 1) div 2)"
    have h: "merkle_height n = Suc ?h" using False by (simp add: merkle_height.simps)
    have "0 < (n + 1) div 2" using False by simp
    then have "(n + 1) div 2 \<le> 2 ^ ?h" "?h = 0 \<or> 2 ^ (?h - 1) < (n + 1) div 2" using 1 False by blast+
    then show ?thesis unfolding h using False by (cases ?h) auto
  qed
qed

lemma levels_tree: "L \<noteq> [] \<Longrightarrow> merkle_levels H L = tree H (merkle_height (length L)) L"
  using tree_levels [of L "merkle_height (length L)" H] merkle_height [of "length L"] by simp

text \<open>The pairs of hashes that are hashed on the way to the root.\<close>

fun tree_pairs :: "hash2 \<Rightarrow> nat \<Rightarrow> uint256 list \<Rightarrow> (uint256 \<times> uint256) set" where
  "tree_pairs H 0 xs = {}"
| "tree_pairs H (Suc k) xs =
     (if length xs \<le> 2 ^ k then insert (tree H k xs, tree H k xs) (tree_pairs H k xs)
      else insert (tree H k (take (2 ^ k) xs), tree H k (drop (2 ^ k) xs))
             (tree_pairs H k (take (2 ^ k) xs) \<union> tree_pairs H k (drop (2 ^ k) xs)))"

definition merkle_pairs :: "hash2 \<Rightarrow> uint256 list \<Rightarrow> (uint256 \<times> uint256) set" where
  "merkle_pairs H L = tree_pairs H (merkle_height (length L)) L"

text \<open>A segment at a multiple of its width, split in its two halves.\<close>

lemma seg_halves [consumes 1, case_names short long]:
  assumes "a < length L"
  obtains (short) "length L \<le> a + 2 ^ k" "seg L a (Suc k) = seg L a k"
      "tree H (Suc k) (seg L a (Suc k)) = H (tree H k (seg L a k)) (tree H k (seg L a k))"
      "tree_pairs H (Suc k) (seg L a (Suc k)) = insert (tree H k (seg L a k), tree H k (seg L a k)) (tree_pairs H k (seg L a k))"
  | (long) "a + 2 ^ k < length L" "seg L a (Suc k) = seg L a k @ seg L (a + 2 ^ k) k" "length (seg L a k) = 2 ^ k"
      "tree H (Suc k) (seg L a (Suc k)) = H (tree H k (seg L a k)) (tree H k (seg L (a + 2 ^ k) k))"
      "tree_pairs H (Suc k) (seg L a (Suc k)) = insert (tree H k (seg L a k), tree H k (seg L (a + 2 ^ k) k))
         (tree_pairs H k (seg L a k) \<union> tree_pairs H k (seg L (a + 2 ^ k) k))"
proof (cases "length L \<le> a + 2 ^ k")
  case True
  then have "seg L a (Suc k) = seg L a k" by (simp add: seg_all)
  moreover have "length (seg L a k) \<le> 2 ^ k" by (simp add: seg_def)
  ultimately show thesis using True by (intro short) simp_all
next
  case False
  moreover have "(0 :: nat) < 2 ^ k" by simp
  ultimately have l: "\<not> length (seg L a (Suc k)) \<le> 2 ^ k" "length (seg L a k) = 2 ^ k" by (auto simp add: seg_def min_def)
  have t: "take (2 ^ k) (seg L a (Suc k)) = seg L a k" "drop (2 ^ k) (seg L a (Suc k)) = seg L (a + 2 ^ k) k"
    by (simp_all add: seg_def min_def drop_take add.commute)
  show thesis
    using False l t append_take_drop_id [of "2 ^ k" "seg L a (Suc k)"] by (intro long) simp_all
qed

lemma equal_halves_twins:
  assumes "b + 2 ^ k < length M" "2 ^ Suc k dvd b" "seg M b k = seg M (b + 2 ^ k) k"
  shows "has_twins H M"
proof -
  let ?c = "b + 2 ^ Suc k"
  have "length (seg M (b + 2 ^ k) k) = 2 ^ k" using assms(1) unfolding assms(3) [symmetric] by (simp add: seg_def)
  then have "?c \<le> length M" using assms(1) by (simp add: seg_def)
  moreover have "?c - 2 ^ Suc k = b" "?c - 2 ^ k = b + 2 ^ k" by simp_all
  then have "twins H M ?c k" unfolding twins_def using assms(2,3) by (auto simp del: power_Suc intro: dvd_add)
  ultimately show ?thesis unfolding has_twins_def by (intro exI [of _ ?c] exI [of _ k]) simp
qed

lemma same_tree:
  assumes inj: "inj_on (\<lambda>(x, y). H x y) S" and nl: "\<not> has_twins H L" and nm: "\<not> has_twins H M"
  shows "a < length L \<Longrightarrow> b < length M \<Longrightarrow> 2 ^ k dvd a \<Longrightarrow> 2 ^ k dvd b \<Longrightarrow>
    tree_pairs H k (seg L a k) \<subseteq> S \<Longrightarrow> tree_pairs H k (seg M b k) \<subseteq> S \<Longrightarrow>
    tree H k (seg L a k) = tree H k (seg M b k) \<Longrightarrow> seg L a k = seg M b k"
proof (induction k arbitrary: a b)
  case 0
  then show ?case by (simp add: seg_def take_Suc hd_drop_conv_nth)
next
  case (Suc k)
  have inj': "x = x' \<and> y = y'" if "(x, y) \<in> S" "(x', y') \<in> S" "H x y = H x' y'" for x y x' y'
    using inj_onD [OF inj, of "(x, y)" "(x', y')"] that by simp
  have "2 ^ k dvd x" if "2 ^ Suc k dvd x" for x :: nat by (rule dvd_trans [OF _ that]) simp
  then have dv': "2 ^ k dvd a" "2 ^ k dvd b" using Suc.prems(3,4) by auto
  then have dv: "2 ^ k dvd a" "2 ^ k dvd b" "2 ^ k dvd a + 2 ^ k" "2 ^ k dvd b + 2 ^ k" by simp_all
  note IH = Suc.IH [OF _ _ dv(1,2)] Suc.IH [OF _ _ dv(1,4)] Suc.IH [OF _ _ dv(3,2)] Suc.IH [OF _ _ dv(3,4)]
  note P = Suc.prems(5-7)
  show ?case
    using Suc.prems(1)
  proof (cases rule: seg_halves [of _ _ k H])
    case short
    note L = short
    note sL = P(1) [unfolded L(4) insert_subset]
    show ?thesis
      using Suc.prems(2)
    proof (cases rule: seg_halves [of _ _ k H])
      case short
      note sM = P(2) [unfolded short(4) insert_subset]
      have "tree H k (seg L a k) = tree H k (seg M b k)" using P(3) sL sM inj' unfolding L(3) short(3) by blast
      then show ?thesis using IH(1) [OF Suc.prems(1,2)] sL sM L(2) short(2) by simp
    next
      case long
      note sM = P(2) [unfolded long(5) insert_subset Un_subset_iff]
      have "tree H k (seg L a k) = tree H k (seg M b k)" "tree H k (seg L a k) = tree H k (seg M (b + 2 ^ k) k)"
        using P(3) sL sM inj' unfolding L(3) long(4) by blast+
      then have "seg L a k = seg M b k" "seg L a k = seg M (b + 2 ^ k) k"
        using IH(1) [OF Suc.prems(1,2)] IH(2) [OF Suc.prems(1) long(1)] sL sM by blast+
      then have "has_twins H M" using equal_halves_twins long(1) Suc.prems(4) by metis
      then show ?thesis using nm by simp
    qed
  next
    case long
    note L = long
    note sL = P(1) [unfolded L(5) insert_subset Un_subset_iff]
    show ?thesis
      using Suc.prems(2)
    proof (cases rule: seg_halves [of _ _ k H])
      case short
      note sM = P(2) [unfolded short(4) insert_subset]
      have "tree H k (seg L a k) = tree H k (seg M b k)" "tree H k (seg L (a + 2 ^ k) k) = tree H k (seg M b k)"
        using P(3) sL sM inj' unfolding L(4) short(3) by blast+
      then have "seg L a k = seg M b k" "seg L (a + 2 ^ k) k = seg M b k"
        using IH(1) [OF Suc.prems(1,2)] IH(3) [OF L(1) Suc.prems(2)] sL sM by blast+
      then have "has_twins H L" using equal_halves_twins L(1) Suc.prems(3) by metis
      then show ?thesis using nl by simp
    next
      case long
      note sM = P(2) [unfolded long(5) insert_subset Un_subset_iff]
      have "tree H k (seg L a k) = tree H k (seg M b k)" "tree H k (seg L (a + 2 ^ k) k) = tree H k (seg M (b + 2 ^ k) k)"
        using P(3) sL sM inj' unfolding L(4) long(4) by blast+
      then have "seg L a k = seg M b k" "seg L (a + 2 ^ k) k = seg M (b + 2 ^ k) k"
        using IH(1) [OF Suc.prems(1,2)] IH(4) [OF L(1) long(1)] sL sM by blast+
      then show ?thesis unfolding L(2) long(2) by simp
    qed
  qed
qed

lemma tree_pair: "xs \<noteq> [] \<Longrightarrow> \<exists>p \<in> tree_pairs H (Suc k) xs. tree H (Suc k) xs = (\<lambda>(x, y). H x y) p"
  by auto

text \<open>Trees of different heights: a leaf of the lower one is an inner hash of the higher one.\<close>

lemma tree_heights:
  assumes inj: "inj_on (\<lambda>(x, y). H x y) S"
  shows "xs \<noteq> [] \<Longrightarrow> ys \<noteq> [] \<Longrightarrow> tree_pairs H k xs \<subseteq> S \<Longrightarrow> tree_pairs H (k + Suc d) ys \<subseteq> S \<Longrightarrow>
    tree H k xs = tree H (k + Suc d) ys \<Longrightarrow> \<exists>x \<in> set xs. x \<in> (\<lambda>(x, y). H x y) ` S"
proof (induction k arbitrary: xs ys)
  case 0
  then have "hd xs \<in> (\<lambda>(x, y). H x y) ` S" using tree_pair [of ys H d] by auto
  then show ?case using 0(1) hd_in_set by blast
next
  case (Suc k)
  let ?xs = "if length xs \<le> 2 ^ k then xs else take (2 ^ k) xs"
  let ?ys = "if length ys \<le> 2 ^ (k + Suc d) then ys else take (2 ^ (k + Suc d)) ys"
  obtain u v where x: "tree H (Suc k) xs = H (tree H k ?xs) u" "(tree H k ?xs, u) \<in> S" "tree_pairs H k ?xs \<subseteq> S"
    using Suc.prems(3) by (auto split: if_splits)
  obtain v where y: "tree H (Suc k + Suc d) ys = H (tree H (k + Suc d) ?ys) v" "(tree H (k + Suc d) ?ys, v) \<in> S"
      "tree_pairs H (k + Suc d) ?ys \<subseteq> S"
    using Suc.prems(4) by (auto split: if_splits)
  have "tree H k ?xs = tree H (k + Suc d) ?ys"
    using inj_onD [OF inj, of "(tree H k ?xs, u)" "(tree H (k + Suc d) ?ys, v)"] x y Suc.prems(5) by auto
  then have "\<exists>x \<in> set ?xs. x \<in> (\<lambda>(x, y). H x y) ` S"
    using Suc.IH [OF _ _ x(3) y(3)] Suc.prems(1,2) by (auto split: if_splits)
  then show ?case by (auto split: if_splits dest: in_set_takeD)
qed


lemma has_twins3: "has_twins H [x, y, z] \<longleftrightarrow> x = y"
proof
  assume "has_twins H [x, y, z]"
  then obtain c l where c: "0 < c" "c \<le> 3" "twins H [x, y, z] c l" by (auto simp: has_twins_def)
  then have d: "2 ^ Suc l dvd c" by (simp add: twins_def)
  then have "2 ^ Suc l \<le> (3 :: nat)" using dvd_le_diff [OF d c(1)] c(2) by simp
  moreover have "4 \<le> (2 :: nat) ^ Suc l" if "l \<noteq> 0" using that by (cases l) auto
  ultimately have l: "l = 0" by linarith
  then have "c = 2" using d c(1,2) by (auto elim!: dvdE)
  then show "x = y" using c(3) l by (simp add: twins_def seg_def)
next
  assume "x = y"
  then have "twins H [x, y, z] 2 0" by (simp add: twins_def seg_def)
  then show "has_twins H [x, y, z]" unfolding has_twins_def by (intro exI [of _ 2] exI [of _ 0]) simp
qed

lemma merkle_binding:
  assumes "L \<noteq> M" "L \<noteq> []" "M \<noteq> []" "length L \<le> 2 ^ 31" "length M \<le> 2 ^ 31"
    and "\<not> snd (ComputeMerkleRoot H L)" "\<not> snd (ComputeMerkleRoot H M)"
    and inj: "inj_on (\<lambda>(x, y). H x y) (merkle_pairs H L \<union> merkle_pairs H M)"
    and leaves: "(set L \<union> set M) \<inter> (\<lambda>(x, y). H x y) ` (merkle_pairs H L \<union> merkle_pairs H M) = {}"
  shows "fst (ComputeMerkleRoot H L) \<noteq> fst (ComputeMerkleRoot H M)"
proof
  let ?S = "merkle_pairs H L \<union> merkle_pairs H M" and ?l = "merkle_height (length L)" and ?m = "merkle_height (length M)"
  assume "fst (ComputeMerkleRoot H L) = fst (ComputeMerkleRoot H M)"
  then have eq: "tree H ?l L = tree H ?m M" using assms(2-5) by (simp add: root_levels levels_tree)
  have S: "tree_pairs H ?l L \<subseteq> ?S" "tree_pairs H ?m M \<subseteq> ?S" by (auto simp: merkle_pairs_def)
  show False
  proof (cases ?l ?m rule: linorder_cases)
    case less
    then obtain d where "?m = ?l + Suc d" using less_iff_Suc_add by auto
    then show False using tree_heights [OF inj assms(2,3) S(1)] S(2) eq leaves by fastforce
  next
    case equal
    have "\<not> has_twins H L" "\<not> has_twins H M" using assms(4-7) by (simp_all add: root_levels)
    moreover have "seg L 0 ?l = L" "seg M 0 ?m = M" using merkle_height assms(2,3) by (simp_all add: seg_def)
    ultimately show False using same_tree [OF inj, of L M 0 0 ?l] S eq equal assms(1-3) by simp
  next
    case greater
    then obtain d where "?l = ?m + Suc d" using less_iff_Suc_add by auto
    then show False using tree_heights [OF inj assms(3,2) S(2)] S(1) eq leaves by fastforce
  qed
qed

text \<open>
  (C12) Two different blocks of leaves, neither of which is flagged as mutated, have different Merkle roots, as long as
  no two different pairs of hashes combined for them collide and no leaf is one of the combined hashes. In
  particular the doubling of the last hash of a level is harmless for a list that is not flagged.
\<close>

theorem ComputeMerkleRoot_binding:
  assumes "L \<noteq> M" "L \<noteq> []" "M \<noteq> []" "length L \<le> 2 ^ 31" "length M \<le> 2 ^ 31"
    and "\<not> snd (ComputeMerkleRoot H L)" "\<not> snd (ComputeMerkleRoot H M)"
    and "inj_on (\<lambda>(x, y). H x y) (merkle_pairs H L \<union> merkle_pairs H M)"
    and "(set L \<union> set M) \<inter> (\<lambda>(x, y). H x y) ` (merkle_pairs H L \<union> merkle_pairs H M) = {}"
  shows "fst (ComputeMerkleRoot H L) \<noteq> fst (ComputeMerkleRoot H M)"
  by (rule merkle_binding [OF assms])

theorem ComputeMerkleRoot_binding_witness:
  "fst (ComputeMerkleRoot (\<lambda>a b. 16 * a + b + 256) [1, 2, 3]) \<noteq> fst (ComputeMerkleRoot (\<lambda>a b. 16 * a + b + 256) [1, 2, 4])"
proof (rule ComputeMerkleRoot_binding)
  let ?H = "\<lambda>a b :: uint256. 16 * a + b + 256"
  show "\<not> snd (ComputeMerkleRoot ?H [1, 2, 3])" "\<not> snd (ComputeMerkleRoot ?H [1, 2, 4])"
    by (simp_all add: root_levels has_twins3)
  have p: "merkle_pairs ?H [1, 2, 3] = {(1, 2), (3, 3), (274, 307)}" "merkle_pairs ?H [1, 2, 4] = {(1, 2), (4, 4), (274, 324)}"
    by code_simp+
  show "inj_on (\<lambda>(x, y). ?H x y) (merkle_pairs ?H [1, 2, 3] \<union> merkle_pairs ?H [1, 2, 4])" unfolding p by (auto simp: inj_on_def)
  show "(set [1, 2, 3] \<union> set [1, 2, 4]) \<inter> (\<lambda>(x, y). ?H x y) ` (merkle_pairs ?H [1, 2, 3] \<union> merkle_pairs ?H [1, 2, 4]) = {}"
    unfolding p by simp
qed simp_all

end
