(* ===== verification/Block_Rules_Props.thy ===== *)
theory Block_Rules_Props
  imports Block_Rules Tx_Rules_Props Pow_Props Merkle_Props
begin

unbundle bit_operations_syntax

text \<open>
  Properties of the block rules. Accepting headers keeps every entry of the block index backed by a header with the
  required target, valid proof of work and a time after the median of its past; these are the hypotheses of the theorems
  on deployments. \<open>CheckBlock\<close> accepts exactly the blocks with the listed properties, and a rejection that does not blame
  the transmission holds for every block with the same header.
\<close>

section \<open>Headers\<close>

text \<open>
  What the entry of a header that is not the genesis block guarantees: its fields are those of a header with the hash it is
  filed under, the parent is in the index, the header has the bits its parent and algorithm require and its
  proof-of-work hash meets them, and its time is after the median of its past.
\<close>

definition header_backed :: "(CBlockHeader \<Rightarrow> uint256) \<Rightarrow> pow_hashes \<Rightarrow> Params \<Rightarrow> index_state \<Rightarrow> uint256 \<Rightarrow> ptr \<Rightarrow> bool" where
  "header_backed GetHash pow params s hash p \<longleftrightarrow>
     (let h = bi_heap s; header = GetBlockHeader h (h p) in
      case pprev (h p) of
        None \<Rightarrow> False
      | Some q \<Rightarrow> mapBlockIndex s (bi_hash (h q)) = Some q \<and> GetHash header = hash \<and>
          GetNextWorkRequired h (Some q) params (GetAlgo (h p)) = Some (Inr (bi_nBits (h p))) \<and>
          CheckProofOfWork (GetPoWAlgoHash GetHash pow header) (bi_nBits (h p)) params \<and>
          GetMedianTimePast h q < uint (bi_nTime (h p)))"

definition headers_inv :: "(CBlockHeader \<Rightarrow> uint256) \<Rightarrow> pow_hashes \<Rightarrow> Params \<Rightarrow> index_state \<Rightarrow> bool" where
  "headers_inv GetHash pow params s \<longleftrightarrow> index_inv s \<and> times_ok (bi_heap s) \<and>
     (\<forall>hash p. mapBlockIndex s hash = Some p \<longrightarrow> hash = hashGenesisBlock params \<or> header_backed GetHash pow params s hash p)"

lemma header_backed_extend:
  assumes "index_inv s" "\<forall>p<bi_next s. bi_heap s' p = bi_heap s p" "mapBlockIndex s \<subseteq>\<^sub>m mapBlockIndex s'"
    "mapBlockIndex s hash = Some p" "header_backed GetHash pow params s hash p"
  shows "header_backed GetHash pow params s' hash p"
proof -
  note A = extend_agree [OF assms(1,2)]
  have p: "p < bi_next s" using index_invD(3) [OF assms(1,4)] by simp
  have hp: "bi_heap s' p = bi_heap s p" using assms(2) p by blast
  from assms(5) obtain q where q: "pprev (bi_heap s p) = Some q" "mapBlockIndex s (bi_hash (bi_heap s q)) = Some q"
    by (auto simp: header_backed_def Let_def split: option.splits)
  have qn: "q < bi_next s" using index_invD(3) [OF assms(1) q(2)] by simp
  then have hq: "bi_heap s' q = bi_heap s q" using assms(2) by blast
  have "GetNextWorkRequired (bi_heap s') (Some q) params algo = GetNextWorkRequired (bi_heap s) (Some q) params algo" for algo
    using GetNextWorkRequired_agree [OF A block_treeD(1) [OF index_invD(1) [OF assms(1)]]] qn by simp
  moreover have "GetMedianTimePast (bi_heap s') q = GetMedianTimePast (bi_heap s) q" using GetMedianTimePast_agree [OF A] qn by simp
  moreover have "mapBlockIndex s' (bi_hash (bi_heap s q)) = Some q" using assms(3) q(2) by (auto simp: map_le_def dom_def)
  ultimately show ?thesis using assms(5) q hp hq by (simp add: header_backed_def Let_def GetBlockHeader_def)
qed

lemma times_ok_extend:
  assumes "index_inv s" "times_ok (bi_heap s)" "index_inv s'" "bi_next s' = bi_next s + 1" "\<forall>p<bi_next s. bi_heap s' p = bi_heap s p"
    "\<And>q. pprev (bi_heap s' (bi_next s)) = Some q \<Longrightarrow> GetMedianTimePast (bi_heap s) q < uint (bi_nTime (bi_heap s' (bi_next s))) \<and> q < bi_next s"
  shows "times_ok (bi_heap s')"
  unfolding times_ok_def
proof (intro allI impI)
  fix p q
  assume pq: "pprev (bi_heap s' p) = Some q"
  note A = extend_agree [OF assms(1,5)]
  consider "p < bi_next s" | "p = bi_next s" | "bi_next s' \<le> p" using assms(4) by linarith
  then show "GetMedianTimePast (bi_heap s') q < uint (bi_nTime (bi_heap s' p))"
  proof cases
    case 1
    then have "bi_heap s' p = bi_heap s p" using assms(5) by blast
    with pq assms(2) show ?thesis using GetMedianTimePast_agree [OF A, of q] index_invD(4) [OF assms(1), of p q] by (auto simp: times_ok_def)
  next
    case 2
    with pq assms(6) show ?thesis using GetMedianTimePast_agree [OF A, of q] by auto
  next
    case 3
    then show ?thesis using pq index_invD(5) [OF assms(3), of p] by (simp add: CBlockIndex_null_def)
  qed
qed

text \<open>The rules of \<open>AcceptBlockHeader\<close> for a header that is not in the index, stated declaratively.\<close>

definition checkpoint_ok :: "CChainParams \<Rightarrow> index_state \<Rightarrow> ptr \<Rightarrow> bool" where
  "checkpoint_ok chainparams s q \<longleftrightarrow>
     bi_hash (bi_heap s q) = hashGenesisBlock (consensus chainparams) \<or>
     (case GetLastCheckpoint (mapBlockIndex s) chainparams of
        None \<Rightarrow> True
      | Some c \<Rightarrow> bi_nHeight (bi_heap s c) \<le> bi_nHeight (bi_heap s q) + 1)"

definition version_ok :: "Params \<Rightarrow> int \<Rightarrow> u32 \<Rightarrow> bool" where
  "version_ok params height version \<longleftrightarrow>
     (BIP34Height params \<le> height \<longrightarrow> 2 \<le> sint version) \<and> (BIP66Height params \<le> height \<longrightarrow> 3 \<le> sint version) \<and>
     (BIP65Height params \<le> height \<longrightarrow> 4 \<le> sint version) \<and>
     (version_GetAlgo version = ALGO_YESPOWER \<longrightarrow> v2DiffChangeHeight params \<le> height) \<and>
     (version_GetAlgo version = ALGO_LYRA2 \<longrightarrow> AlgoChangeHeight params \<le> height)"

definition valid_header ::
    "(CBlockHeader \<Rightarrow> uint256) \<Rightarrow> pow_hashes \<Rightarrow> CChainParams \<Rightarrow> bool \<Rightarrow> int \<Rightarrow> index_state \<Rightarrow> CBlockHeader \<Rightarrow> bool" where
  "valid_header GetHash pow chainparams fCheckpointsEnabled adjusted_time s block \<longleftrightarrow>
     (let params = consensus chainparams; h = bi_heap s in
      CheckProofOfWork (GetPoWAlgoHash GetHash pow block) (bh_nBits block) params \<and>
      (hashDevnetGenesisBlock params \<noteq> 0 \<and> bh_hashPrevBlock block = hashGenesisBlock params \<longrightarrow> GetHash block = hashDevnetGenesisBlock params) \<and>
      (case mapBlockIndex s (bh_hashPrevBlock block) of
         None \<Rightarrow> False
       | Some q \<Rightarrow> bi_nStatus (h q) AND BLOCK_FAILED_MASK = 0 \<and> (fCheckpointsEnabled \<longrightarrow> checkpoint_ok chainparams s q) \<and>
           GetNextWorkRequired h (Some q) params (version_GetAlgo (bh_nVersion block)) = Some (Inr (bh_nBits block)) \<and>
           GetMedianTimePast h q < uint (bh_nTime block) \<and> uint (bh_nTime block) \<le> adjusted_time + 7200 \<and>
           version_ok params (bi_nHeight (h q) + 1) (bh_nVersion block)))"

lemma DoS_not_valid [simp]: "vs_mode (DoS state level code reason corrupt) \<noteq> MODE_VALID"
  by (simp add: DoS_def Let_def)

lemma check_simps:
  "fst (accept state)" "snd (accept state) = state" "\<not> fst (reject level reason state)"
  "snd (reject level reason state) = DoS state level REJECT_INVALID reason False"
  "accept state = (b, state') \<longleftrightarrow> b \<and> state' = state"
  "reject level reason state = (b, state') \<longleftrightarrow> \<not> b \<and> state' = DoS state level REJECT_INVALID reason False"
  by (auto simp: accept_def reject_def)

text \<open>What a check does to the validation state: nothing if it passes, and it leaves it not valid otherwise.\<close>

definition verdict :: "CValidationState \<Rightarrow> bool \<Rightarrow> bool \<times> CValidationState \<Rightarrow> bool" where
  "verdict state good r \<longleftrightarrow> (fst r \<longleftrightarrow> good) \<and> (if fst r then snd r = state else vs_mode (snd r) \<noteq> MODE_VALID)"

lemma verdict_simps [simp]:
  "verdict state good (accept state) \<longleftrightarrow> good" "verdict state good (reject level reason state') \<longleftrightarrow> \<not> good"
  "verdict state good (False, DoS state' level code reason corrupt) \<longleftrightarrow> \<not> good"
  "verdict state good (False, Invalid state' code reason) \<longleftrightarrow> \<not> good"
  by (auto simp: verdict_def Invalid_def check_simps)

lemma verdict_if: "(b \<Longrightarrow> verdict state good x) \<Longrightarrow> (\<not> b \<Longrightarrow> verdict state good y) \<Longrightarrow> verdict state good (if b then x else y)"
  by simp

lemma ContextualCheckBlockHeader_verdict:
  assumes "height_ok h" "params_ok params"
  shows "\<exists>r. ContextualCheckBlockHeader h params (Some q) adjusted_time block state = Some (Inr r) \<and>
    verdict state (GetNextWorkRequired h (Some q) params (version_GetAlgo (bh_nVersion block)) = Some (Inr (bh_nBits block)) \<and>
      GetMedianTimePast h q < uint (bh_nTime block) \<and> uint (bh_nTime block) \<le> adjusted_time + 7200 \<and>
      version_ok params (bi_nHeight (h q) + 1) (bh_nVersion block)) r"
proof -
  obtain b where "GetNextWorkRequired h (Some q) params (version_GetAlgo (bh_nVersion block)) = Some (Inr b)"
    using GetNextWorkRequired_ok [OF assms] by blast
  then show ?thesis
    unfolding ContextualCheckBlockHeader_def Let_def
    by (cases "bh_nBits block = b") (auto intro!: verdict_if simp: next_height_def version_ok_def ALGO_YESPOWER_def ALGO_LYRA2_def)
qed

lemma CheckIndexAgainstCheckpoint_verdict: "verdict state (checkpoint_ok chainparams s q) (CheckIndexAgainstCheckpoint s chainparams q state)"
  unfolding CheckIndexAgainstCheckpoint_def Let_def
  by (cases "GetLastCheckpoint (mapBlockIndex s) chainparams") (auto intro!: verdict_if simp del: split_paired_Ex simp: checkpoint_ok_def)

lemma verdictE:
  assumes "verdict state good r"
  obtains "good" "r = (True, state)" | st where "\<not> good" "r = (False, st)" "vs_mode st \<noteq> MODE_VALID"
  using assms by (cases r) (auto simp: verdict_def split: if_splits)

lemma verdict_False: "\<not> good \<Longrightarrow> vs_mode st \<noteq> MODE_VALID \<Longrightarrow> verdict state good (False, st)"
  by (simp add: verdict_def)

lemma CheckBlockHeader_verdict:
  "verdict state (CheckProofOfWork (GetPoWAlgoHash GetHash pow block) (bh_nBits block) params \<and>
     (hashDevnetGenesisBlock params \<noteq> 0 \<and> bh_hashPrevBlock block = hashGenesisBlock params \<longrightarrow> GetHash block = hashDevnetGenesisBlock params))
   (CheckBlockHeader GetHash pow params True block state)"
  unfolding CheckBlockHeader_def by (auto intro!: verdict_if)

lemma check_new_header_verdict:
  assumes "index_inv s" "params_ok (consensus chainparams)"
  shows "\<exists>r. check_new_header GetHash pow chainparams cp adjusted_time block s state = Some (Inr r) \<and>
    verdict state (valid_header GetHash pow chainparams cp adjusted_time s block) r"
proof -
  let ?params = "consensus chainparams" and ?h = "bi_heap s"
  note D = check_new_header_def valid_header_def Let_def
  have "height_ok ?h" using assms(1) by (intro block_treeD index_invD)
  note H = ContextualCheckBlockHeader_verdict [OF this assms(2), of _ adjusted_time block state]
  show ?thesis
  proof (cases rule: verdictE [OF CheckBlockHeader_verdict [of state GetHash pow block ?params]])
    case (2 st)
    then show ?thesis unfolding D by (intro exI conjI, simp) (auto intro: verdict_False)
  next
    case ok: 1
    show ?thesis
    proof (cases "mapBlockIndex s (bh_hashPrevBlock block)")
      case None
      with ok show ?thesis unfolding D by simp
    next
      case (Some q)
      show ?thesis
      proof (cases "bi_nStatus (?h q) AND BLOCK_FAILED_MASK = 0")
        case False
        with ok Some show ?thesis unfolding D by (simp del: split_paired_Ex)
      next
        case status: True
        have "verdict state (cp \<longrightarrow> checkpoint_ok chainparams s q) (if cp then CheckIndexAgainstCheckpoint s chainparams q state else accept state)"
          using CheckIndexAgainstCheckpoint_verdict [of state chainparams s q] by (cases cp) simp_all
        then show ?thesis
        proof (cases rule: verdictE)
          case 1
          with ok Some status H [of q] show ?thesis unfolding D by (simp del: split_paired_Ex)
        next
          case (2 st)
          with ok Some status show ?thesis unfolding D by (intro exI conjI, simp) (auto intro: verdict_False)
        qed
      qed
    qed
  qed
qed

text \<open>Entering a header that obeys the rules, or the genesis block, keeps the invariant.\<close>

lemma enter_header_invariant:
  assumes inv: "headers_inv GetHash pow params s" and new: "mapBlockIndex s (GetHash block) = None"
    and neq: "GetHash block \<noteq> bh_hashPrevBlock block" and params: "params_ok params" "unat (powLimit params) + 1 < 2 ^ 256"
    and rules: "if GetHash block = hashGenesisBlock params then mapBlockIndex s (bh_hashPrevBlock block) = None
      else \<exists>q. mapBlockIndex s (bh_hashPrevBlock block) = Some q \<and>
        CheckProofOfWork (GetPoWAlgoHash GetHash pow block) (bh_nBits block) params \<and>
        GetNextWorkRequired (bi_heap s) (Some q) params (version_GetAlgo (bh_nVersion block)) = Some (Inr (bh_nBits block)) \<and>
        GetMedianTimePast (bi_heap s) q < uint (bh_nTime block)"
  shows "\<exists>s'. AddToBlockIndex GetHash params block s = Some (Inr (bi_next s, s')) \<and> headers_inv GetHash pow params s' \<and>
    mapBlockIndex s' = (mapBlockIndex s)(GetHash block \<mapsto> bi_next s) \<and> bi_next s' = bi_next s + 1 \<and>
    (\<forall>p<bi_next s. bi_heap s' p = bi_heap s p) \<and> bi_nStatus (bi_heap s' (bi_next s)) = BLOCK_VALID_TREE"
proof -
  let ?n = "bi_next s"
  have I: "index_inv s" and T: "times_ok (bi_heap s)"
    and B: "\<And>hash p. mapBlockIndex s hash = Some p \<Longrightarrow> hash = hashGenesisBlock params \<or> header_backed GetHash pow params s hash p"
    using inv by (auto simp: headers_inv_def)
  from AddToBlockIndex_new [where GetHash = GetHash, OF I new neq params] obtain s' work where
    add: "AddToBlockIndex GetHash params block s = Some (Inr (?n, s'))" and I': "index_inv s'" and n': "bi_next s' = ?n + 1"
    and m': "mapBlockIndex s' = (mapBlockIndex s)(GetHash block \<mapsto> ?n)" and old: "\<forall>p<?n. bi_heap s' p = bi_heap s p"
    and entry: "added_entry GetHash block s work (bi_heap s' ?n)" by blast
  have le: "mapBlockIndex s \<subseteq>\<^sub>m mapBlockIndex s'" using new m' by (auto simp: map_le_def)
  have q: "q < ?n" "bi_hash (bi_heap s q) = bh_hashPrevBlock block" if "mapBlockIndex s (bh_hashPrevBlock block) = Some q" for q
    using index_invD(3) [OF I that] by auto
  have fields: "pprev (bi_heap s' ?n) = mapBlockIndex s (bh_hashPrevBlock block)" "bi_nTime (bi_heap s' ?n) = bh_nTime block"
    "bi_nBits (bi_heap s' ?n) = bh_nBits block" "GetAlgo (bi_heap s' ?n) = version_GetAlgo (bh_nVersion block)"
    "bi_nStatus (bi_heap s' ?n) = BLOCK_VALID_TREE"
    using entry by (auto simp: added_entry_def GetAlgo_def)
  have "times_ok (bi_heap s')"
    using rules q(1) by (intro times_ok_extend [OF I T I' n' old]) (auto simp: fields split: if_splits)
  moreover have "header_backed GetHash pow params s' (GetHash block) ?n" if ng: "GetHash block \<noteq> hashGenesisBlock params"
  proof -
    from rules ng obtain q' where q': "mapBlockIndex s (bh_hashPrevBlock block) = Some q'" by auto
    have hq: "bi_heap s' q' = bi_heap s q'" using q(1) [OF q'] old by blast
    have hd: "GetBlockHeader (bi_heap s') (bi_heap s' ?n) = block"
      using entry q(2) [OF q'] q' hq by (auto simp: GetBlockHeader_def added_entry_def)
    note A = extend_agree [OF I old]
    have "GetNextWorkRequired (bi_heap s') (Some q') params algo = GetNextWorkRequired (bi_heap s) (Some q') params algo" for algo
      using GetNextWorkRequired_agree [OF A block_treeD(1) [OF index_invD(1) [OF I]]] q(1) [OF q'] by simp
    moreover have "GetMedianTimePast (bi_heap s') q' = GetMedianTimePast (bi_heap s) q'" using GetMedianTimePast_agree [OF A] q(1) [OF q'] by simp
    ultimately show ?thesis
      using rules ng q' q(2) [OF q'] hd hq m' neq by (auto simp: header_backed_def Let_def fields)
  qed
  moreover have "header_backed GetHash pow params s' hash p" if "mapBlockIndex s hash = Some p" "hash \<noteq> hashGenesisBlock params" for hash p
    using header_backed_extend [OF I old le that(1)] B [OF that(1)] that(2) by blast
  ultimately have "headers_inv GetHash pow params s'" using I' m' by (auto simp: headers_inv_def split: if_splits)
  then show ?thesis using add m' n' old fields(5) by blast
qed

text \<open>The index only grows: no entry is removed or changed.\<close>

definition index_extends :: "index_state \<Rightarrow> index_state \<Rightarrow> bool" where
  "index_extends s s' \<longleftrightarrow> bi_next s \<le> bi_next s' \<and> (\<forall>p<bi_next s. bi_heap s' p = bi_heap s p) \<and> mapBlockIndex s \<subseteq>\<^sub>m mapBlockIndex s'"

lemma index_extends_refl [simp]: "index_extends s s"
  by (simp add: index_extends_def)

lemma index_extends_trans: "index_extends s s' \<Longrightarrow> index_extends s' s'' \<Longrightarrow> index_extends s s''"
  by (auto simp: index_extends_def intro: map_le_trans)

lemma index_extends_map: "index_extends s s' \<Longrightarrow> mapBlockIndex s hash = Some p \<Longrightarrow> mapBlockIndex s' hash = Some p"
  by (auto simp: index_extends_def map_le_def dom_def)

text \<open>What is assumed of a header: it does not contain its own hash, and the genesis block has no parent in the index.\<close>

definition header_hash_ok :: "(CBlockHeader \<Rightarrow> uint256) \<Rightarrow> Params \<Rightarrow> index_state \<Rightarrow> CBlockHeader \<Rightarrow> bool" where
  "header_hash_ok GetHash params s block \<longleftrightarrow> GetHash block \<noteq> bh_hashPrevBlock block \<and>
     (GetHash block = hashGenesisBlock params \<longrightarrow> mapBlockIndex s (GetHash block) = None \<longrightarrow> mapBlockIndex s (bh_hashPrevBlock block) = None)"

definition params_sound :: "Params \<Rightarrow> bool" where
  "params_sound params \<longleftrightarrow> params_ok params \<and> unat (powLimit params) + 1 < 2 ^ 256"

text \<open>When \<open>AcceptBlockHeader\<close> accepts.\<close>

definition header_accepted ::
    "(CBlockHeader \<Rightarrow> uint256) \<Rightarrow> pow_hashes \<Rightarrow> CChainParams \<Rightarrow> bool \<Rightarrow> int \<Rightarrow> index_state \<Rightarrow> CBlockHeader \<Rightarrow> bool" where
  "header_accepted GetHash pow chainparams cp adjusted_time s block \<longleftrightarrow>
     GetHash block = hashGenesisBlock (consensus chainparams) \<or>
     (case mapBlockIndex s (GetHash block) of
        Some p \<Rightarrow> bi_nStatus (bi_heap s p) AND BLOCK_FAILED_MASK = 0
      | None \<Rightarrow> valid_header GetHash pow chainparams cp adjusted_time s block)"

lemma AcceptBlockHeader_ok:
  fixes chainparams GetHash
  defines "params \<equiv> consensus chainparams"
  assumes inv: "headers_inv GetHash pow params s" and params: "params_sound params" and hash: "header_hash_ok GetHash params s block"
  shows "\<exists>ok pindex state' s'. AcceptBlockHeader GetHash pow chainparams cp adjusted_time block state s = Some (Inr (ok, pindex, state', s')) \<and>
    headers_inv GetHash pow params s' \<and> index_extends s s' \<and>
    (ok \<longleftrightarrow> header_accepted GetHash pow chainparams cp adjusted_time s block) \<and>
    (if ok then state' = state \<and> mapBlockIndex s' = (mapBlockIndex s)(GetHash block := pindex) \<and> pindex \<noteq> None
     else s' = s \<and> vs_mode state' \<noteq> MODE_VALID)"
proof (cases "mapBlockIndex s (GetHash block)")
  case (Some p)
  then show ?thesis
    using inv by (auto simp: AcceptBlockHeader_def AddToBlockIndex_def header_accepted_def already_known_def Let_def map_upd_triv Invalid_def)
next
  case None
  have I: "index_inv s" using inv by (simp add: headers_inv_def)
  have P: "params_ok params" "unat (powLimit params) + 1 < 2 ^ 256" using params by (simp_all add: params_sound_def)
  obtain r where r: "check_new_header GetHash pow chainparams cp adjusted_time block s state = Some (Inr r)"
    "verdict state (valid_header GetHash pow chainparams cp adjusted_time s block) r"
    using check_new_header_verdict [OF I] P(1) by (force simp: params_def)
  let ?go = "GetHash block = hashGenesisBlock params \<or> valid_header GetHash pow chainparams cp adjusted_time s block"
  have acc: "header_accepted GetHash pow chainparams cp adjusted_time s block \<longleftrightarrow> ?go"
    using None by (simp add: header_accepted_def params_def)
  show ?thesis
  proof (cases ?go)
    case True
    have "\<exists>s'. AddToBlockIndex GetHash params block s = Some (Inr (bi_next s, s')) \<and> headers_inv GetHash pow params s' \<and>
      mapBlockIndex s' = (mapBlockIndex s)(GetHash block \<mapsto> bi_next s) \<and> bi_next s' = bi_next s + 1 \<and>
      (\<forall>p<bi_next s. bi_heap s' p = bi_heap s p) \<and> bi_nStatus (bi_heap s' (bi_next s)) = BLOCK_VALID_TREE"
      using hash True None
      by (intro enter_header_invariant [OF inv None _ P])
        (auto simp: header_hash_ok_def valid_header_def Let_def params_def split: option.splits)
    moreover have "mapBlockIndex s \<subseteq>\<^sub>m (mapBlockIndex s)(GetHash block \<mapsto> bi_next s)" using None by (auto simp: map_le_def)
    ultimately obtain s' where s': "AddToBlockIndex GetHash params block s = Some (Inr (bi_next s, s'))" "headers_inv GetHash pow params s'"
      "mapBlockIndex s' = (mapBlockIndex s)(GetHash block \<mapsto> bi_next s)" "index_extends s s'"
      by (auto simp: index_extends_def)
    have "AcceptBlockHeader GetHash pow chainparams cp adjusted_time block state s = Some (Inr (True, Some (bi_next s), state, s'))"
      using True s'(1) None r by (auto simp: AcceptBlockHeader_def Let_def params_def elim!: verdictE)
    then show ?thesis using True s' acc by auto
  next
    case False
    then obtain st where st: "r = (False, st)" "vs_mode st \<noteq> MODE_VALID" using r(2) by (auto elim: verdictE)
    then have "AcceptBlockHeader GetHash pow chainparams cp adjusted_time block state s = Some (Inr (False, None, st, s))"
      using False None r by (auto simp: AcceptBlockHeader_def Let_def params_def)
    then show ?thesis using False inv st(2) acc by auto
  qed
qed

lemma ProcessNewBlockHeaders_ok:
  fixes chainparams GetHash
  defines "params \<equiv> consensus chainparams"
  assumes params: "params_sound params" and hashes: "\<forall>header \<in> set headers. GetHash header \<noteq> bh_hashPrevBlock header"
    and inv: "headers_inv GetHash pow params s" "mapBlockIndex s (hashGenesisBlock params) \<noteq> None"
  shows "\<exists>ok ppindex' state' s'.
    ProcessNewBlockHeaders GetHash pow chainparams cp adjusted_time headers ppindex state s = Some (Inr (ok, ppindex', state', s')) \<and>
    headers_inv GetHash pow params s' \<and> index_extends s s' \<and>
    (if ok then state' = state \<and> (\<forall>header \<in> set headers. mapBlockIndex s' (GetHash header) \<noteq> None) \<and>
       (headers \<noteq> [] \<longrightarrow> ppindex' \<noteq> None \<and> mapBlockIndex s' (GetHash (last headers)) = ppindex')
     else vs_mode state' \<noteq> MODE_VALID)"
  using hashes inv
proof (induction headers arbitrary: ppindex s)
  case (Cons header headers)
  have hash: "header_hash_ok GetHash params s header" using Cons.prems by (auto simp: header_hash_ok_def)
  obtain ok pindex state1 s1 where a: "AcceptBlockHeader GetHash pow chainparams cp adjusted_time header state s = Some (Inr (ok, pindex, state1, s1))"
    "headers_inv GetHash pow params s1" "index_extends s s1"
    "if ok then state1 = state \<and> mapBlockIndex s1 = (mapBlockIndex s)(GetHash header := pindex) \<and> pindex \<noteq> None
     else s1 = s \<and> vs_mode state1 \<noteq> MODE_VALID"
    using AcceptBlockHeader_ok [where GetHash = GetHash, OF Cons.prems(2) [unfolded params_def] params [unfolded params_def] hash [unfolded params_def], of cp adjusted_time state]
    unfolding params_def by blast
  show ?case
  proof (cases ok)
    case False
    then show ?thesis using a by auto
  next
    case True
    have g: "mapBlockIndex s1 (hashGenesisBlock params) \<noteq> None" using Cons.prems(3) a(3) index_extends_map by fastforce
    from Cons.IH [OF _ a(2) g, of pindex] Cons.prems(1) obtain ok' ppindex' state' s' where IH:
      "ProcessNewBlockHeaders GetHash pow chainparams cp adjusted_time headers pindex state s1 = Some (Inr (ok', ppindex', state', s'))"
      "headers_inv GetHash pow params s'" "index_extends s1 s'"
      "if ok' then state' = state \<and> (\<forall>header \<in> set headers. mapBlockIndex s' (GetHash header) \<noteq> None) \<and>
         (headers \<noteq> [] \<longrightarrow> ppindex' \<noteq> None \<and> mapBlockIndex s' (GetHash (last headers)) = ppindex')
       else vs_mode state' \<noteq> MODE_VALID" by auto
    have m: "mapBlockIndex s1 (GetHash header) = pindex" "pindex \<noteq> None" "state1 = state" using a(4) True by auto
    then have m': "mapBlockIndex s' (GetHash header) = pindex" using index_extends_map [OF IH(3)] by fastforce
    have "headers = [] \<Longrightarrow> ppindex' = pindex" using IH(1) by simp
    then show ?thesis
      using a(1) True m m' IH index_extends_trans [OF a(3) IH(3)] by (auto split: if_splits)
  qed
qed (auto simp: params_def)

text \<open>
  (C28) \<open>AcceptBlockHeader\<close> (\<^verbatim>\<open>validation.cpp\<close>): in an index whose entries are backed by valid headers it always returns. It
  accepts exactly the genesis block, the headers already known and not marked as failed, and the unknown
  headers that satisfy the rules \<open>valid_header\<close>. An accepted header is filed under its hash, no other entry changes, and the index
  is again backed by valid headers; a rejected header leaves the index alone and the validation state not valid.
\<close>

theorem AcceptBlockHeader_exact:
  assumes "headers_inv GetHash pow (consensus chainparams) s" "params_sound (consensus chainparams)"
    "header_hash_ok GetHash (consensus chainparams) s block"
  shows "\<exists>ok pindex state' s'. AcceptBlockHeader GetHash pow chainparams cp adjusted_time block state s = Some (Inr (ok, pindex, state', s')) \<and>
    headers_inv GetHash pow (consensus chainparams) s' \<and> index_extends s s' \<and>
    (ok \<longleftrightarrow> header_accepted GetHash pow chainparams cp adjusted_time s block) \<and>
    (if ok then state' = state \<and> mapBlockIndex s' = (mapBlockIndex s)(GetHash block := pindex) \<and> pindex \<noteq> None
     else s' = s \<and> vs_mode state' \<noteq> MODE_VALID)"
  by (rule AcceptBlockHeader_ok [where GetHash = GetHash, OF assms])

text \<open>An index with only the genesis block, and hash functions for the examples: the hash of a header is one more than the hash of its parent.\<close>

definition genesis_index :: index_state where
  "genesis_index = \<lparr> bi_heap = (\<lambda>_. CBlockIndex_null)(0 := CBlockIndex_null \<lparr> bi_hash := hashGenesisBlock CMainParams_consensus \<rparr>),
     bi_next = 1, mapBlockIndex = [hashGenesisBlock CMainParams_consensus \<mapsto> 0], pindexBestHeader = Some 0, setDirtyBlockIndex = [] \<rparr>"

definition zero_pow :: pow_hashes where
  "zero_pow = \<lparr> scrypt_1024_1_1_256 = (\<lambda>_. 0), HashX11 = (\<lambda>_. 0), yespower_hash = (\<lambda>_. 0), LYRA2 = (\<lambda>_. 0) \<rparr>"

definition child_header :: CBlockHeader where
  "child_header = \<lparr> bh_nVersion = 4, bh_hashPrevBlock = hashGenesisBlock CMainParams_consensus, bh_hashMerkleRoot = 0, bh_nTime = 1,
     bh_nBits = npowWorkLimit CMainParams_consensus, bh_nNonce = 0 \<rparr>"

abbreviation "main_net \<equiv> \<lparr> consensus = CMainParams_consensus, mapCheckpoints = [] \<rparr>"

lemma main_net_sound: "params_sound (consensus main_net)"
  using CMainParams_ok by (simp add: params_sound_def)

lemma genesis_index_inv: "headers_inv GetHash pow (consensus main_net) genesis_index"
  by (simp add: headers_inv_def genesis_index_def index_inv_def index_ok_def block_tree_def height_ok_def skip_ok_def time_max_ok_def
      times_ok_def CBlockIndex_null_def)

lemma zero_hash_passes: "CheckProofOfWork 0 (npowWorkLimit CMainParams_consensus) CMainParams_consensus"
proof -
  let ?params = CMainParams_consensus
  have "powLimit ?params \<noteq> 0" by (simp add: CMainParams_consensus_def Let_def)
  then have "0 < target (npowWorkLimit ?params)"
    using GetCompact_target(3) [of "UintToArith256 (powLimit ?params)"] by (simp add: npowWorkLimit_def unat_eq_zero)
  then show ?thesis using npowWorkLimit_ok [of ?params] by (simp add: CheckProofOfWork_iff)
qed

lemma child_header_valid: "header_accepted (\<lambda>b. bh_hashPrevBlock b + 1) zero_pow main_net True 0 genesis_index child_header"
proof -
  let ?params = CMainParams_consensus and ?h = "bi_heap genesis_index"
  have P: "nAveragingInterval ?params = 10" "v2DiffChangeHeight ?params = 100000" "hashDevnetGenesisBlock ?params = 0"
    "BIP34Height ?params = 16" "BIP65Height ?params = 1" "BIP66Height ?params = 1"
    by (simp_all add: CMainParams_consensus_def Let_def)
  have G: "pprev (?h p) = None" "bi_nHeight (?h p) = 0" "bi_nTime (?h p) = 0" "bi_nStatus (?h p) = 0" for p
    by (simp_all add: genesis_index_def CBlockIndex_null_def)
  have "walk_back ?h 30 (Some 0) = None" by (simp add: numeral_eq_Suc G)
  then have bits: "GetNextWorkRequired ?h (Some 0) ?params algo = Some (Inr (npowWorkLimit ?params))" for algo
    by (simp add: GetNextWorkRequired_def GetNextWorkRequiredV1_def GetLastBlockIndexForAlgo_def last_block_loop.simps G P NUM_ALGOS_def
        split: option.splits)
  have "median_times 11 ?h (Some 0) = [0]" by (simp add: numeral_eq_Suc G)
  then have time: "GetMedianTimePast ?h 0 = 0" by (simp add: GetMedianTimePast_def nMedianTimeSpan_def)
  have algo: "version_GetAlgo 4 = ALGO_SCRYPT" by code_simp
  have index: "mapBlockIndex genesis_index = [hashGenesisBlock ?params \<mapsto> 0]" "bi_hash (?h 0) = hashGenesisBlock ?params"
    by (simp_all add: genesis_index_def)
  show ?thesis
    using zero_hash_passes bits time algo P G index
    by (simp add: header_accepted_def valid_header_def Let_def child_header_def checkpoint_ok_def version_ok_def GetPoWAlgoHash_def zero_pow_def
        ALGO_SCRYPT_def ALGO_SHA256D_def ALGO_YESPOWER_def ALGO_LYRA2_def)
qed

theorem AcceptBlockHeader_exact_witness:
  "\<exists>pindex s'. AcceptBlockHeader (\<lambda>b. bh_hashPrevBlock b + 1) zero_pow main_net True 0 child_header CValidationState_new genesis_index =
     Some (Inr (True, pindex, CValidationState_new, s')) \<and> headers_inv (\<lambda>b. bh_hashPrevBlock b + 1) zero_pow CMainParams_consensus s' \<and>
     index_extends genesis_index s'"
proof -
  have "header_hash_ok (\<lambda>b. bh_hashPrevBlock b + 1) (consensus main_net) genesis_index child_header"
    by (simp add: header_hash_ok_def child_header_def)
  from AcceptBlockHeader_exact [OF genesis_index_inv main_net_sound this, of zero_pow True 0 CValidationState_new]
  show ?thesis using child_header_valid by auto
qed

text \<open>
  (C27) \<open>ProcessNewBlockHeaders\<close> (\<^verbatim>\<open>validation.cpp\<close>): whatever headers a peer sends, in whatever order, the call returns and keeps the
  index backed by valid headers, so every path in it satisfies the time rule that the deployment logic relies on. Entries
  are never lost or changed. If the call succeeds every header of the message is in the index and the last one is
  returned; otherwise the validation state is not valid.
\<close>

theorem ProcessNewBlockHeaders_invariant:
  assumes "params_sound (consensus chainparams)" "\<forall>header \<in> set headers. GetHash header \<noteq> bh_hashPrevBlock header"
    "headers_inv GetHash pow (consensus chainparams) s" "mapBlockIndex s (hashGenesisBlock (consensus chainparams)) \<noteq> None"
  shows "\<exists>ok ppindex' state' s'.
    ProcessNewBlockHeaders GetHash pow chainparams cp adjusted_time headers ppindex state s = Some (Inr (ok, ppindex', state', s')) \<and>
    headers_inv GetHash pow (consensus chainparams) s' \<and> index_extends s s' \<and>
    (if ok then state' = state \<and> (\<forall>header \<in> set headers. mapBlockIndex s' (GetHash header) \<noteq> None) \<and>
       (headers \<noteq> [] \<longrightarrow> ppindex' \<noteq> None \<and> mapBlockIndex s' (GetHash (last headers)) = ppindex')
     else vs_mode state' \<noteq> MODE_VALID)"
  by (rule ProcessNewBlockHeaders_ok [where GetHash = GetHash, OF assms])

theorem ProcessNewBlockHeaders_invariant_witness:
  "\<exists>ok ppindex' state' s'. ProcessNewBlockHeaders (\<lambda>b. bh_hashPrevBlock b + 1) zero_pow main_net True 0 [child_header, CBlockHeader_null] None
     CValidationState_new genesis_index = Some (Inr (ok, ppindex', state', s')) \<and>
     headers_inv (\<lambda>b. bh_hashPrevBlock b + 1) zero_pow CMainParams_consensus s'"
  using ProcessNewBlockHeaders_invariant [OF main_net_sound, of "[child_header, CBlockHeader_null]" "\<lambda>b. bh_hashPrevBlock b + 1" zero_pow genesis_index
      True 0 None CValidationState_new] genesis_index_inv
  by (auto simp: child_header_def CBlockHeader_null_def genesis_index_def)

end
