(* ===== verification/Block_Check.thy ===== *)
theory Block_Check
  imports Block_Rules_Props Script_Scan
begin

unbundle bit_operations_syntax

text \<open>
  What \<open>CheckBlock\<close> and \<open>ContextualCheckBlock\<close> accept. The 32-bit count of signature operations does not wrap, because the
  size of the block bounds it; a rejection for which the transmission of the block cannot be blamed is final for its header;
  the contextual rules are those of the deployment state.
\<close>

section \<open>Signature operations are bounded by the size\<close>

lemma sigop_weight_le: "sigop_weight acc l opcode \<le> 20"
  using DecodeOP_N_le [of l] by (auto simp: sigop_weight_def MAX_PUBKEYS_PER_MULTISIG_def)

lemma sigop_loop_le: "sigop_loop acc pc l \<le> 20 * length pc"
proof (induction "length pc" arbitrary: pc l rule: less_induct)
  case less
  obtain ok opcode vch pc' where g: "GetOp2 pc = (ok, opcode, vch, pc')" by (cases "GetOp2 pc")
  show ?case
  proof (cases ok)
    case True
    then have "pc \<noteq> []" using GetOp2_ok_not_Nil g by simp
    then have l: "length pc' < length pc" using GetOp2_progress [of pc] g True by auto
    have "sigop_loop acc pc l = sigop_weight acc l opcode + sigop_loop acc pc' opcode" using sigop_loop_ok g True by simp
    then show ?thesis using less [OF l, of opcode] sigop_weight_le [of acc l opcode] l by linarith
  qed (use g sigop_loop_fail in simp)
qed

lemma length_Serialize_bytes: "length s \<le> length (Serialize_bytes s)"
  by (simp add: Serialize_bytes_def)

lemma GetLegacySigOpCount_le: "GetLegacySigOpCount tx \<le> 20 * length (Serialize_CTransaction tx)"
proof -
  have ins: "sum_list (map (\<lambda>txin. GetSigOpCount (scriptSig txin) False) xs) \<le> 20 * length (Serialize_vector Serialize_CTxIn xs)" for xs
  proof -
    have "GetSigOpCount (scriptSig x) False \<le> 20 * length (Serialize_CTxIn x)" for x
      using sigop_loop_le [of False "scriptSig x"] length_Serialize_bytes [of "scriptSig x"]
      by (force simp: GetSigOpCount_def Serialize_CTxIn_def intro: order_trans)
    then have "sum_list (map (\<lambda>txin. GetSigOpCount (scriptSig txin) False) xs) \<le> 20 * length (concat (map Serialize_CTxIn xs))"
      by (induction xs) (auto simp: add_mult_distrib2 intro: add_mono)
    then show ?thesis by (simp add: Serialize_vector_def)
  qed
  have outs: "sum_list (map (\<lambda>txout. GetSigOpCount (scriptPubKey txout) False) xs) \<le> 20 * length (Serialize_vector Serialize_CTxOut xs)" for xs
  proof -
    have "GetSigOpCount (scriptPubKey x) False \<le> 20 * length (Serialize_CTxOut x)" for x
      using sigop_loop_le [of False "scriptPubKey x"] length_Serialize_bytes [of "scriptPubKey x"]
      by (force simp: GetSigOpCount_def Serialize_CTxOut_def intro: order_trans)
    then have "sum_list (map (\<lambda>txout. GetSigOpCount (scriptPubKey txout) False) xs) \<le> 20 * length (concat (map Serialize_CTxOut xs))"
      by (induction xs) (auto simp: add_mult_distrib2 intro: add_mono)
    then show ?thesis by (simp add: Serialize_vector_def)
  qed
  show ?thesis using ins [of "vin tx"] outs [of "vout tx"] by (simp add: GetLegacySigOpCount_def Serialize_CTransaction_def)
qed

definition total_sigops :: "CTransaction list \<Rightarrow> nat" where
  "total_sigops txs = sum_list (map GetLegacySigOpCount txs)"

lemma total_sigops_le: "total_sigops (vtx block) \<le> 20 * length (Serialize_CBlock block)"
proof -
  have "total_sigops txs \<le> 20 * length (concat (map Serialize_CTransaction txs))" for txs
    using GetLegacySigOpCount_le by (induction txs) (auto simp: total_sigops_def add_mult_distrib2 intro: add_mono)
  from this [of "vtx block"] show ?thesis by (simp add: Serialize_CBlock_def Serialize_vector_def)
qed

lemma MaxBlockSize_le: "MaxBlockSize b \<le> 2000000"
  by (simp add: MaxBlockSize_def MAX_DIP0001_BLOCK_SIZE_def MAX_LEGACY_BLOCK_SIZE_def)

lemma count_sigops_of_nat: "count_sigops txs = of_nat (total_sigops txs)"
  by (induction txs) (simp_all add: count_sigops_def total_sigops_def)

lemma unat_count_sigops:
  assumes "length (Serialize_CBlock block) \<le> MaxBlockSize b"
  shows "unat (of_nat (total_sigops (vtx block)) :: u32) = total_sigops (vtx block)"
proof -
  have "total_sigops (vtx block) < 2 ^ 32" using total_sigops_le [of block] assms MaxBlockSize_le [of b] by simp
  then show ?thesis by (simp add: unat_of_nat take_bit_nat_eq_self)
qed

section \<open>Checks without context\<close>

lemma check_outputs_verdict: "verdict state (fst (check_outputs outs acc state)) (check_outputs outs acc state)"
proof (induction outs arbitrary: acc)
  case (Cons txout outs)
  then show ?case by (simp add: verdict_def check_simps Let_def)
qed (simp add: check_simps)

lemma check_duplicates_verdict: "verdict state (fst (check_duplicates ins seen state)) (check_duplicates ins seen state)"
proof (induction ins arbitrary: seen)
  case (Cons txin ins)
  then show ?case by (simp add: verdict_def check_simps)
qed (simp add: check_simps)

lemma CheckTransaction_verdict: "verdict state (tx_sane tx) (CheckTransaction tx state)"
proof -
  have inputs: "verdict state (fst (check_inputs tx state)) (check_inputs tx state)"
    by (simp add: check_inputs_def verdict_def check_simps Let_def)
  have "verdict state (fst (CheckTransaction tx state)) (CheckTransaction tx state)"
    unfolding CheckTransaction_def
    using inputs
    by (cases rule: verdictE [OF check_outputs_verdict [of state "vout tx" 0]];
        cases rule: verdictE [OF check_duplicates_verdict [of state "vin tx" "{}"]])
      (simp_all add: verdict_def check_simps Let_def)
  then show ?thesis by (simp add: CheckTransaction_sane)
qed

lemma check_transactions_verdict: "verdict state (\<forall>tx \<in> set txs. tx_sane tx) (check_transactions txs state)"
proof (induction txs)
  case (Cons tx txs)
  show ?case
    by (cases rule: verdictE [OF CheckTransaction_verdict [of state tx]]) (use Cons in simp_all)
qed simp

definition merkle_root_ok :: "hash2 \<Rightarrow> (CTransaction \<Rightarrow> uint256) \<Rightarrow> CBlock \<Rightarrow> bool" where
  "merkle_root_ok H GetTxHash block \<longleftrightarrow> ComputeMerkleRoot H (map GetTxHash (vtx block)) = (bh_hashMerkleRoot block, False)"

text \<open>The body of a block that passes the checks without context.\<close>

definition body_sane :: "CBlock \<Rightarrow> bool" where
  "body_sane block \<longleftrightarrow>
     (case vtx block of [] \<Rightarrow> False | cb # txs \<Rightarrow> IsCoinBase cb \<and> (\<forall>tx \<in> set txs. \<not> IsCoinBase tx)) \<and>
     (\<forall>tx \<in> set (vtx block). tx_sane tx) \<and>
     length (Serialize_CBlock block) \<le> MaxBlockSize True \<and> total_sigops (vtx block) \<le> MaxBlockSigOps True"

lemma check_merkle_root_verdict: "verdict state (merkle_root_ok H GetTxHash block) (check_merkle_root H GetTxHash block state)"
  by (auto simp: check_merkle_root_def merkle_root_ok_def BlockMerkleRoot_def split: prod.splits)

lemma length_vtx: "length (vtx block) \<le> length (Serialize_CBlock block)"
  using length_Serialize_vector [of "vtx block" Serialize_CTransaction]
  by (simp add: Serialize_CBlock_def Serialize_CTransaction_def ser_writedata32_def WriteLE32_def)

lemma check_body_verdict: "verdict state (body_sane block) (check_body block state)"
proof -
  have T: "\<exists>st. check_transactions (vtx block) state = (False, st) \<and> vs_mode st \<noteq> MODE_VALID" if "\<not> (\<forall>tx \<in> set (vtx block). tx_sane tx)"
    using that by (cases rule: verdictE [OF check_transactions_verdict [of state "vtx block"]]) auto
  have T': "check_transactions (vtx block) state = (True, state)" if "\<forall>tx \<in> set (vtx block). tx_sane tx"
    using that by (cases rule: verdictE [OF check_transactions_verdict [of state "vtx block"]]) auto
  have len: "length (vtx block) \<le> MaxBlockSize True" if "length (Serialize_CBlock block) \<le> MaxBlockSize True"
    using length_vtx [of block] that by simp
  note S = unat_count_sigops [of block True, folded count_sigops_of_nat]
  show ?thesis
    unfolding check_body_def
  proof (intro verdict_if)
    assume "vtx block = [] \<or> length (vtx block) > MaxBlockSize True \<or> length (Serialize_CBlock block) > MaxBlockSize True"
    then show "verdict state (body_sane block) (reject 100 ''bad-blk-length'' state)" using len by (auto simp: body_sane_def)
  next
    assume "vtx block = [] \<or> \<not> IsCoinBase (vtx block ! 0)"
    then show "verdict state (body_sane block) (reject 100 ''bad-cb-missing'' state)" by (auto simp: body_sane_def split: list.splits)
  next
    assume "list_ex IsCoinBase (drop 1 (vtx block))"
    then show "verdict state (body_sane block) (reject 100 ''bad-cb-multiple'' state)"
      by (auto simp: body_sane_def list_ex_iff split: list.splits)
  next
    assume a: "\<not> (vtx block = [] \<or> length (vtx block) > MaxBlockSize True \<or> length (Serialize_CBlock block) > MaxBlockSize True)"
      "\<not> (vtx block = [] \<or> \<not> IsCoinBase (vtx block ! 0))" "\<not> list_ex IsCoinBase (drop 1 (vtx block))"
    then obtain cb txs where v: "vtx block = cb # txs" "IsCoinBase cb" "\<forall>tx \<in> set txs. \<not> IsCoinBase tx"
      by (cases "vtx block") (auto simp: list_ex_iff)
    show "verdict state (body_sane block) (case check_transactions (vtx block) state of
             (False, state) \<Rightarrow> (False, state)
           | (True, state) \<Rightarrow>
               if unat (count_sigops (vtx block)) > MaxBlockSigOps True then reject 100 ''bad-blk-sigops'' state
               else accept state)"
    proof (cases "\<forall>tx \<in> set (vtx block). tx_sane tx")
      case True
      then show ?thesis using a v T' [OF True] S by (auto simp: body_sane_def count_sigops_of_nat not_le)
    next
      case False
      then show ?thesis using T by (auto simp: body_sane_def intro!: verdict_False)
    qed
  qed
qed

definition header_ok :: "(CBlockHeader \<Rightarrow> uint256) \<Rightarrow> pow_hashes \<Rightarrow> Params \<Rightarrow> CBlockHeader \<Rightarrow> bool" where
  "header_ok GetHash pow params block \<longleftrightarrow>
     CheckProofOfWork (GetPoWAlgoHash GetHash pow block) (bh_nBits block) params \<and>
     (hashDevnetGenesisBlock params \<noteq> 0 \<and> bh_hashPrevBlock block = hashGenesisBlock params \<longrightarrow> GetHash block = hashDevnetGenesisBlock params)"

lemma CheckBlock_cases:
  assumes "\<not> fChecked block"
  obtains
    (ok) "header_ok GetHash pow params (CBlockHeader.truncate block)" "merkle_root_ok H GetTxHash block" "body_sane block"
      "CheckBlock GetHash pow H GetTxHash params True True block state = (True, state, block \<lparr> fChecked := True \<rparr>)"
  | (header) st where "\<not> header_ok GetHash pow params (CBlockHeader.truncate block)" "vs_mode st \<noteq> MODE_VALID"
      "CheckBlock GetHash pow H GetTxHash params True True block state = (False, st, block)"
  | (merkle) st where "\<not> merkle_root_ok H GetTxHash block" "vs_mode st \<noteq> MODE_VALID" "corruptionPossible st"
      "CheckBlock GetHash pow H GetTxHash params True True block state = (False, st, block)"
  | (body) st where "header_ok GetHash pow params (CBlockHeader.truncate block)" "merkle_root_ok H GetTxHash block" "\<not> body_sane block"
      "vs_mode st \<noteq> MODE_VALID" "CheckBlock GetHash pow H GetTxHash params True True block state = (False, st, block)"
proof (cases rule: verdictE [OF CheckBlockHeader_verdict [of state GetHash pow "CBlockHeader.truncate block" params]])
  case 1
  then have h: "header_ok GetHash pow params (CBlockHeader.truncate block)" by (simp add: header_ok_def)
  show ?thesis
  proof (cases rule: verdictE [OF check_merkle_root_verdict [of state H GetTxHash block]])
    case m: 1
    show ?thesis
      by (cases rule: verdictE [OF check_body_verdict [of state block]])
        (use assms 1 m h in \<open>auto simp: CheckBlock_def intro: ok body\<close>)
  next
    case (2 st)
    then have "corruptionPossible st"
      by (auto simp: check_merkle_root_def check_simps DoS_def Let_def split: prod.splits if_splits)
    with 1 2 show ?thesis using assms by (intro merkle) (auto simp: CheckBlock_def)
  qed
next
  case (2 st)
  then show ?thesis using assms by (intro header) (auto simp: CheckBlock_def header_ok_def)
qed

text \<open>
  (C29) \<open>CheckBlock\<close> (\<^verbatim>\<open>validation.cpp\<close>) accepts a block that it has not seen before exactly when its header has valid proof of work
  (and follows the rule of a development network), the header's Merkle root is the root of the transactions
  without a duplicated subtree, the first transaction and only the first is a coinbase, every transaction passes the checks without context, and
  the size and the number of signature operations, which is counted without overflow, are within their limits. It then leaves the validation state alone
  and remembers the verdict; otherwise it leaves the state not valid.
\<close>

theorem CheckBlock_exact:
  assumes "\<not> fChecked block"
  shows "\<exists>ok state' block'. CheckBlock GetHash pow H GetTxHash params True True block state = (ok, state', block') \<and>
    (ok \<longleftrightarrow> header_ok GetHash pow params (CBlockHeader.truncate block) \<and> merkle_root_ok H GetTxHash block \<and> body_sane block) \<and>
    (if ok then state' = state \<and> block' = block \<lparr> fChecked := True \<rparr> else vs_mode state' \<noteq> MODE_VALID \<and> block' = block)"
  using assms by (cases rule: CheckBlock_cases [of block GetHash pow params H GetTxHash state]) auto

text \<open>A block of one transaction with the given Merkle root.\<close>

definition sample_block :: "uint256 \<Rightarrow> CTransaction \<Rightarrow> CBlock" where
  "sample_block root tx = CBlockHeader.extend (child_header \<lparr> bh_hashMerkleRoot := root \<rparr>) \<lparr> vtx = [tx], fChecked = False \<rparr>"

lemma sample_block_simps:
  "vtx (sample_block root tx) = [tx]" "\<not> fChecked (sample_block root tx)" "bh_hashMerkleRoot (sample_block root tx) = root"
  "CBlockHeader.truncate (sample_block root tx) = child_header \<lparr> bh_hashMerkleRoot := root \<rparr>"
  by (simp_all add: sample_block_def CBlockHeader.defs)

lemma sample_header_ok: "header_ok GetHash zero_pow CMainParams_consensus (child_header \<lparr> bh_hashMerkleRoot := root \<rparr>)"
proof -
  have "version_GetAlgo 4 = ALGO_SCRYPT" by code_simp
  moreover have "hashDevnetGenesisBlock CMainParams_consensus = 0" by (simp add: CMainParams_consensus_def Let_def)
  ultimately show ?thesis
    using zero_hash_passes
    by (simp add: header_ok_def child_header_def GetPoWAlgoHash_def zero_pow_def ALGO_SCRYPT_def ALGO_SHA256D_def)
qed

lemma root_single: "merkle_root_ok H GetTxHash (sample_block root tx) \<longleftrightarrow> root = GetTxHash tx"
proof -
  have "\<not> has_twins H [x]" for x by (auto simp: has_twins_def twins_def le_Suc_eq)
  then show ?thesis by (auto simp: merkle_root_ok_def root_levels sample_block_simps merkle_levels.simps)
qed

lemmas tx_size_defs = Serialize_CTransaction_def Serialize_vector_def Serialize_CTxIn_def Serialize_CTxOut_def has_extra_payload_def
  WriteCompactSize_def Serialize_COutPoint_def Serialize_bytes_def Serialize_uint256_def ser_writedata32_def ser_writedata64_def
  ser_writedata8_def length_WriteLE Let_def TRANSACTION_NORMAL_def uint256_bytes_def

lemma example_txs:
  "IsCoinBase example_coinbase" "\<not> IsCoinBase example_tx"
  "length (Serialize_CTransaction example_coinbase) \<le> 100" "length (Serialize_CTransaction example_tx) \<le> 100"
  by (simp_all add: example_coinbase_def example_tx_def IsCoinBase_def COutPoint_IsNull_def COutPoint_null_def tx_size_defs)

lemma sample_block_size:
  assumes "length (Serialize_CTransaction tx) \<le> 100"
  shows "length (Serialize_CBlock (sample_block root tx)) \<le> 2000" 
  using assms by (simp add: Serialize_CBlock_def sample_block_simps Serialize_CBlockHeader_def tx_size_defs(2-))

lemma example_coinbase_sane: "tx_sane example_coinbase"
  using example_txs(1,3) unfolding tx_sane_def
  by (simp add: MAX_LEGACY_BLOCK_SIZE_def) (simp add: example_coinbase_def example_tx_def TRANSACTION_QUORUM_COMMITMENT_def MAX_MONEY_def COIN_def)

lemma sample_body: "body_sane (sample_block root example_coinbase)"
  using example_txs(1) example_coinbase_sane sample_block_size [OF example_txs(3), of root]
    total_sigops_le [of "sample_block root example_coinbase"]
  by (simp add: body_sane_def sample_block_simps MaxBlockSigOps_def MaxBlockSize_def MAX_DIP0001_BLOCK_SIZE_def)

theorem CheckBlock_exact_witness:
  "fst (CheckBlock (\<lambda>_. 1) zero_pow (\<lambda>x y. x + 2 * y) example_hash CMainParams_consensus True True (sample_block 21 example_coinbase) CValidationState_new) \<and>
   \<not> fst (CheckBlock (\<lambda>_. 1) zero_pow (\<lambda>x y. x + 2 * y) example_hash CMainParams_consensus True True (sample_block 22 example_coinbase) CValidationState_new)"
  using CheckBlock_exact [of "sample_block 21 example_coinbase" "\<lambda>_. 1" zero_pow "\<lambda>x y. x + 2 * y" example_hash CMainParams_consensus CValidationState_new]
    CheckBlock_exact [of "sample_block 22 example_coinbase" "\<lambda>_. 1" zero_pow "\<lambda>x y. x + 2 * y" example_hash CMainParams_consensus CValidationState_new]
    example_txs(1) sample_body
  by (auto simp: sample_block_simps root_single sample_header_ok example_hash_def)






section \<open>Contextual checks\<close>

definition tx_type_ok :: "CTransaction \<Rightarrow> bool" where
  "tx_type_ok tx \<longleftrightarrow>
     (if 3 \<le> sint (nVersion tx)
      then nType tx \<in> {TRANSACTION_NORMAL, TRANSACTION_PROVIDER_REGISTER, TRANSACTION_PROVIDER_UPDATE_SERVICE,
          TRANSACTION_PROVIDER_UPDATE_REGISTRAR, TRANSACTION_PROVIDER_UPDATE_REVOKE, TRANSACTION_COINBASE, TRANSACTION_QUORUM_COMMITMENT} \<and>
        (IsCoinBase tx \<longrightarrow> nType tx = TRANSACTION_COINBASE)
      else nType tx = TRANSACTION_NORMAL)"

lemma check_tx_type_verdict: "verdict state (tx_type_ok tx) (check_tx_type tx state)"
  unfolding check_tx_type_def tx_type_ok_def by auto

text \<open>The context of a block: a block tree with the time rule, deployments with sensible periods, and a cache with only right states.\<close>

definition deployment_context :: "block_heap \<Rightarrow> Params \<Rightarrow> VersionBitsCache \<Rightarrow> bool" where
  "deployment_context h params cache \<longleftrightarrow> block_tree h \<and> times_ok h \<and> (\<forall>pos. checker_ok (VersionBitsConditionChecker params pos)) \<and>
     (\<forall>pos. cache_ok h (VersionBitsConditionChecker params pos) (cache pos))"

definition dip3_active :: "block_heap \<Rightarrow> Params \<Rightarrow> ptr \<Rightarrow> bool" where
  "dip3_active h params q \<longleftrightarrow> state_at h (VersionBitsConditionChecker params DEPLOYMENT_DIP0003) (Some q) = THRESHOLD_ACTIVE"

lemma dip3_state:
  assumes "deployment_context h params cache"
  shows "\<exists>cache' state. VersionBitsState h (Some q) params DEPLOYMENT_DIP0003 cache = Some (Inr (state, cache')) \<and>
    (state = THRESHOLD_ACTIVE \<longleftrightarrow> dip3_active h params q) \<and> deployment_context h params cache'"
  using VersionBitsState_ok [of h params cache "Some q" DEPLOYMENT_DIP0003] assms by (auto simp: deployment_context_def dip3_active_def)

definition tx_context_ok :: "block_heap \<Rightarrow> Params \<Rightarrow> ptr \<Rightarrow> CTransaction \<Rightarrow> bool" where
  "tx_context_ok h params q tx \<longleftrightarrow>
     (dip3_active h params q \<longrightarrow> tx_type_ok tx) \<and>
     (DIP0001Height params \<le> bi_nHeight (h q) + 1 \<longrightarrow> length (Serialize_CTransaction tx) \<le> MAX_STANDARD_TX_SIZE)"

lemma ContextualCheckTransaction_verdict:
  assumes "deployment_context h params cache"
  shows "\<exists>r cache'. ContextualCheckTransaction h params (Some q) tx (state, cache) = Some (Inr (fst r, snd r, cache')) \<and>
    verdict state (tx_context_ok h params q tx) r \<and> deployment_context h params cache'"
proof -
  obtain cache' s where c: "VersionBitsState h (Some q) params DEPLOYMENT_DIP0003 cache = Some (Inr (s, cache'))"
    "s = THRESHOLD_ACTIVE \<longleftrightarrow> dip3_active h params q" "deployment_context h params cache'"
    using dip3_state [OF assms] by blast
  have "verdict state (dip3_active h params q \<longrightarrow> tx_type_ok tx) (if s = THRESHOLD_ACTIVE then check_tx_type tx state else accept state)"
    using c(2) check_tx_type_verdict [of state tx] by auto
  then show ?thesis
    by (cases rule: verdictE)
      (use c in \<open>auto simp: ContextualCheckTransaction_def Let_def next_height_def tx_context_ok_def accept_def reject_def verdict_def\<close>)
qed

lemma contextual_txs_loop_ok:
  assumes "deployment_context h params cache"
  shows "\<exists>r st cache'. contextual_txs_loop h params (Some q) height cutoff txs n (state, cache) = Some (Inr (r, st, cache')) \<and>
    deployment_context h params cache' \<and>
    (if \<forall>tx \<in> set txs. IsFinalTx tx height cutoff \<and> tx_context_ok h params q tx
     then r = Some (n + of_nat (total_sigops txs)) \<and> st = state else r = None \<and> vs_mode st \<noteq> MODE_VALID)"
  using assms
proof (induction txs arbitrary: n cache)
  case Nil
  then show ?case by (simp add: total_sigops_def)
next
  case (Cons tx txs)
  obtain r cache1 where t: "ContextualCheckTransaction h params (Some q) tx (state, cache) = Some (Inr (fst r, snd r, cache1))"
    "verdict state (tx_context_ok h params q tx) r" "deployment_context h params cache1"
    using ContextualCheckTransaction_verdict [OF Cons.prems] by blast
  show ?case
  proof (cases "IsFinalTx tx height cutoff")
    case False
    with Cons.prems show ?thesis by auto
  next
    case True
    from t(2) show ?thesis
    proof (cases rule: verdictE)
      case 1
      obtain r' st cache' where IH: "contextual_txs_loop h params (Some q) height cutoff txs (n + of_nat (GetLegacySigOpCount tx)) (state, cache1) =
          Some (Inr (r', st, cache'))" "deployment_context h params cache'"
        "if \<forall>tx \<in> set txs. IsFinalTx tx height cutoff \<and> tx_context_ok h params q tx
         then r' = Some (n + of_nat (GetLegacySigOpCount tx) + of_nat (total_sigops txs)) \<and> st = state else r' = None \<and> vs_mode st \<noteq> MODE_VALID"
        using Cons.IH [OF t(3)] by blast
      show ?thesis
        by (rule exI [of _ r'], rule exI [of _ st], rule exI [of _ cache'])
          (use 1 IH True t(1) in \<open>simp add: total_sigops_def add.assoc\<close>)
    next
      case (2 st)
      with True t show ?thesis by auto
    qed
  qed
qed

definition final_cutoff :: "block_heap \<Rightarrow> Params \<Rightarrow> ptr \<Rightarrow> CBlock \<Rightarrow> int" where
  "final_cutoff h params q block =
     (if CSVHeight params \<le> bi_nHeight (h q) + 1 then GetMedianTimePast h q else uint (bh_nTime block))"

text \<open>The contextual rules, with the state of the deployment of BIP 9.\<close>

definition block_context_ok :: "block_heap \<Rightarrow> Params \<Rightarrow> ptr \<Rightarrow> CBlock \<Rightarrow> bool" where
  "block_context_ok h params q block \<longleftrightarrow>
     (let height = bi_nHeight (h q) + 1; dip1 = DIP0001Height params \<le> height; cb = hd (vtx block) in
      length (Serialize_CBlock block) \<le> MaxBlockSize dip1 \<and> total_sigops (vtx block) \<le> MaxBlockSigOps dip1 \<and>
      (\<forall>tx \<in> set (vtx block). IsFinalTx tx height (final_cutoff h params q block) \<and> tx_context_ok h params q tx) \<and>
      (if dip3_active h params q then nType cb = TRANSACTION_COINBASE
       else BIP34Height params \<le> height \<longrightarrow> (\<exists>rest. scriptSig (hd (vin cb)) = push_int64 [] height @ rest)))"

lemma take_prefix_iff: "\<not> (length xs < length ys \<or> take (length ys) xs \<noteq> ys) \<longleftrightarrow> (\<exists>rest. xs = ys @ rest)"
  by (metis append_eq_conv_conj append_take_drop_id length_append not_add_less1)

lemma check_coinbase_verdict:
  assumes "vin cb \<noteq> []"
  shows "\<exists>r. check_coinbase params height active cb state = Inr r \<and>
    verdict state (if active then nType cb = TRANSACTION_COINBASE
      else BIP34Height params \<le> height \<longrightarrow> (\<exists>rest. scriptSig (hd (vin cb)) = push_int64 [] height @ rest)) r"
  using assms take_prefix_iff [of "scriptSig (hd (vin cb))" "push_int64 [] height"]
  by (cases "vin cb") (auto simp: check_coinbase_def Let_def simp del: split_paired_Ex)

lemma lock_time_cutoff_ok: "lock_time_cutoff h params (Some q) block = Inr (final_cutoff h params q block)"
  by (simp add: lock_time_cutoff_def final_cutoff_def next_height_def LOCKTIME_MEDIAN_TIME_PAST_def)

lemma ContextualCheckBlock_verdict:
  assumes ctx: "deployment_context h params cache" and body: "vtx block \<noteq> []" "vin (hd (vtx block)) \<noteq> []"
  shows "\<exists>r cache'. ContextualCheckBlock h params (Some q) block (state, cache) = Some (Inr (fst r, snd r, cache')) \<and>
    verdict state (block_context_ok h params q block) r \<and> deployment_context h params cache'"
proof -
  let ?height = "bi_nHeight (h q) + 1" and ?cutoff = "final_cutoff h params q block"
  let ?dip1 = "DIP0001Height params \<le> ?height"
  obtain c1 s where c1: "VersionBitsState h (Some q) params DEPLOYMENT_DIP0003 cache = Some (Inr (s, c1))"
    "s = THRESHOLD_ACTIVE \<longleftrightarrow> dip3_active h params q" "deployment_context h params c1"
    using dip3_state [OF ctx] by blast
  note D = ContextualCheckBlock_def Let_def block_context_ok_def lock_time_cutoff_ok
  have nh: "next_height h (Some q) = ?height" by (simp add: next_height_def)
  show ?thesis
  proof (cases "length (Serialize_CBlock block) \<le> MaxBlockSize ?dip1")
    case False
    then show ?thesis using c1 body
      by (intro exI [of _ "(False, DoS state 10 REJECT_INVALID ''bad-blk-length'' False)"] exI [of _ c1]) (simp add: D nh)
  next
    case size: True
    then have len: "length (vtx block) \<le> MaxBlockSize ?dip1" using length_vtx [of block] by simp
    obtain r st c2 where l: "contextual_txs_loop h params (Some q) ?height ?cutoff (vtx block) 0 (state, c1) = Some (Inr (r, st, c2))"
      "deployment_context h params c2"
      "if \<forall>tx \<in> set (vtx block). IsFinalTx tx ?height ?cutoff \<and> tx_context_ok h params q tx
       then r = Some (0 + of_nat (total_sigops (vtx block))) \<and> st = state else r = None \<and> vs_mode st \<noteq> MODE_VALID"
      using contextual_txs_loop_ok [OF c1(3)] by blast
    show ?thesis
    proof (cases "\<forall>tx \<in> set (vtx block). IsFinalTx tx ?height ?cutoff \<and> tx_context_ok h params q tx")
      case False
      have no: "r = None" "vs_mode st \<noteq> MODE_VALID" using l(3) unfolding if_not_P [OF False] by simp_all
      have "\<not> block_context_ok h params q block" using False by (auto simp: block_context_ok_def Let_def)
      from verdict_False [OF this no(2)] show ?thesis
        using l(1,2) no(1) size len c1 body
        by (intro exI [of _ "(False, st)"] exI [of _ c2]) (simp add: ContextualCheckBlock_def Let_def lock_time_cutoff_ok nh)
    next
      case True
      then have r: "r = Some (of_nat (total_sigops (vtx block)))" "st = state" using l(3) by simp_all
      show ?thesis
      proof (cases "total_sigops (vtx block) \<le> MaxBlockSigOps ?dip1")
        case False
        then show ?thesis using l(1,2) r size len c1 body unat_count_sigops [OF size]
          by (intro exI [of _ "(False, DoS state 10 REJECT_INVALID ''bad-blk-sigops'' False)"] exI [of _ c2]) (simp add: D nh)
      next
        case sig: True
        have hd: "vtx block ! 0 = hd (vtx block)" using body(1) by (simp add: hd_conv_nth)
        obtain v where "check_coinbase params ?height (s = THRESHOLD_ACTIVE) (hd (vtx block)) state = Inr v"
          "verdict state (if s = THRESHOLD_ACTIVE then nType (hd (vtx block)) = TRANSACTION_COINBASE
            else BIP34Height params \<le> ?height \<longrightarrow> (\<exists>rest. scriptSig (hd (vin (hd (vtx block)))) = push_int64 [] ?height @ rest)) v"
          using check_coinbase_verdict [OF body(2)] by blast
        then show ?thesis using True sig l(1,2) r size len c1 body(1) unat_count_sigops [OF size] hd
          by (intro exI [of _ v] exI [of _ c2]) (simp add: D nh split: prod.splits)
      qed
    qed
  qed
qed

lemma body_sane_coinbase: "body_sane block \<Longrightarrow> vtx block \<noteq> [] \<and> vin (hd (vtx block)) \<noteq> []"
  by (auto simp: body_sane_def IsCoinBase_def split: list.splits)

text \<open>
  (C30) \<open>ContextualCheckBlock\<close> (\<^verbatim>\<open>validation.cpp\<close>): for a block that has passed \<open>CheckBlock\<close>, on a parent in a block tree with the time
  rule and with a sound cache of deployment states, the check returns without meeting a null pointer. It accepts
  exactly when the size and signature operations are within the limits of the block's height, every transaction is final at the cutoff
  that is the median time past once BIP 113 applies, and has an allowed type and size, and the coinbase
  starts with the height or, once the deployment of DIP 3 is active in the sense of BIP 9, has the coinbase type. The cache stays sound.
\<close>

theorem ContextualCheckBlock_exact:
  assumes "deployment_context h params cache" "body_sane block"
  shows "\<exists>ok state' cache'. ContextualCheckBlock h params (Some q) block (state, cache) = Some (Inr (ok, state', cache')) \<and>
    (ok \<longleftrightarrow> block_context_ok h params q block) \<and> (if ok then state' = state else vs_mode state' \<noteq> MODE_VALID) \<and>
    deployment_context h params cache'"
  using ContextualCheckBlock_verdict [OF assms(1), of block q state] body_sane_coinbase [OF assms(2)]
  unfolding verdict_def by fastforce

theorem ContextualCheckBlock_exact_witness:
  "\<exists>ok state' cache'. ContextualCheckBlock genesis_heap CMainParams_consensus (Some 0) (sample_block 21 example_coinbase) (CValidationState_new, \<lambda>_. Map.empty) =
     Some (Inr (ok, state', cache')) \<and> deployment_context genesis_heap CMainParams_consensus cache'"
proof -
  have "deployment_context genesis_heap CMainParams_consensus (\<lambda>_. Map.empty)"
    using genesis_heap_ok CMainParams_checkers by (simp add: deployment_context_def cache_ok_def)
  from ContextualCheckBlock_exact [OF this sample_body, of 0 21 CValidationState_new] show ?thesis by blast
qed

end
