(* ===== verification/Interpreter.thy ===== *)
theory Interpreter
  imports Transaction
begin

unbundle bit_operations_syntax

text \<open>
  The script engine of \<^verbatim>\<open>script/interpreter.cpp\<close>: encoding checks, \<open>EvalScript\<close> with one
  definition per opcode group, the signature hash, the transaction signature checker and
  \<open>VerifyScript\<close>.

  The stacks are lists whose head is the top. \<open>EvalScript\<close> returns the final stack or the
  \<open>ScriptError\<close>; an exception inside the evaluation loop (\<open>CScriptNum\<close> throws on long or
  non-minimal numbers) becomes \<open>SCRIPT_ERR_UNKNOWN_ERROR\<close> as the \<^verbatim>\<open>catch\<close> block has it.

  The hash functions and the elliptic-curve routines are arguments, collected in the record
  \<open>crypto_fns\<close>; the virtual methods of \<^verbatim>\<open>BaseSignatureChecker\<close> are the record \<open>sig_checker\<close>.
\<close>

section \<open>Errors and flags\<close>

datatype ScriptError =
    SCRIPT_ERR_OK | SCRIPT_ERR_UNKNOWN_ERROR | SCRIPT_ERR_EVAL_FALSE | SCRIPT_ERR_OP_RETURN
  | SCRIPT_ERR_SCRIPT_SIZE | SCRIPT_ERR_PUSH_SIZE | SCRIPT_ERR_OP_COUNT | SCRIPT_ERR_STACK_SIZE
  | SCRIPT_ERR_SIG_COUNT | SCRIPT_ERR_PUBKEY_COUNT
  | SCRIPT_ERR_VERIFY | SCRIPT_ERR_EQUALVERIFY | SCRIPT_ERR_CHECKMULTISIGVERIFY
  | SCRIPT_ERR_CHECKSIGVERIFY | SCRIPT_ERR_NUMEQUALVERIFY
  | SCRIPT_ERR_BAD_OPCODE | SCRIPT_ERR_DISABLED_OPCODE | SCRIPT_ERR_INVALID_STACK_OPERATION
  | SCRIPT_ERR_INVALID_ALTSTACK_OPERATION | SCRIPT_ERR_UNBALANCED_CONDITIONAL
  | SCRIPT_ERR_NEGATIVE_LOCKTIME | SCRIPT_ERR_UNSATISFIED_LOCKTIME
  | SCRIPT_ERR_SIG_HASHTYPE | SCRIPT_ERR_SIG_DER | SCRIPT_ERR_MINIMALDATA | SCRIPT_ERR_SIG_PUSHONLY
  | SCRIPT_ERR_SIG_HIGH_S | SCRIPT_ERR_SIG_NULLDUMMY | SCRIPT_ERR_PUBKEYTYPE | SCRIPT_ERR_CLEANSTACK
  | SCRIPT_ERR_SIG_NULLFAIL | SCRIPT_ERR_DISCOURAGE_UPGRADABLE_NOPS

definition SIGHASH_ALL :: u32 where "SIGHASH_ALL = 1"
definition SIGHASH_NONE :: u32 where "SIGHASH_NONE = 2"
definition SIGHASH_SINGLE :: u32 where "SIGHASH_SINGLE = 3"
definition SIGHASH_ANYONECANPAY :: u32 where "SIGHASH_ANYONECANPAY = 0x80"

definition SCRIPT_VERIFY_P2SH :: u32 where "SCRIPT_VERIFY_P2SH = push_bit 0 1"
definition SCRIPT_VERIFY_STRICTENC :: u32 where "SCRIPT_VERIFY_STRICTENC = push_bit 1 1"
definition SCRIPT_VERIFY_DERSIG :: u32 where "SCRIPT_VERIFY_DERSIG = push_bit 2 1"
definition SCRIPT_VERIFY_LOW_S :: u32 where "SCRIPT_VERIFY_LOW_S = push_bit 3 1"
definition SCRIPT_VERIFY_NULLDUMMY :: u32 where "SCRIPT_VERIFY_NULLDUMMY = push_bit 4 1"
definition SCRIPT_VERIFY_SIGPUSHONLY :: u32 where "SCRIPT_VERIFY_SIGPUSHONLY = push_bit 5 1"
definition SCRIPT_VERIFY_MINIMALDATA :: u32 where "SCRIPT_VERIFY_MINIMALDATA = push_bit 6 1"
definition SCRIPT_VERIFY_DISCOURAGE_UPGRADABLE_NOPS :: u32 where
  "SCRIPT_VERIFY_DISCOURAGE_UPGRADABLE_NOPS = push_bit 7 1"
definition SCRIPT_VERIFY_CLEANSTACK :: u32 where "SCRIPT_VERIFY_CLEANSTACK = push_bit 8 1"
definition SCRIPT_VERIFY_CHECKLOCKTIMEVERIFY :: u32 where
  "SCRIPT_VERIFY_CHECKLOCKTIMEVERIFY = push_bit 9 1"
definition SCRIPT_VERIFY_CHECKSEQUENCEVERIFY :: u32 where
  "SCRIPT_VERIFY_CHECKSEQUENCEVERIFY = push_bit 10 1"
definition SCRIPT_VERIFY_NULLFAIL :: u32 where "SCRIPT_VERIFY_NULLFAIL = push_bit 14 1"

record crypto_fns =
  ripemd160_fn :: "valtype \<Rightarrow> valtype"
  sha1_fn :: "valtype \<Rightarrow> valtype"
  sha256_fn :: "valtype \<Rightarrow> valtype"
  hash160_fn :: "valtype \<Rightarrow> valtype"
  hash256_fn :: "valtype \<Rightarrow> valtype"
  CheckLowS :: "valtype \<Rightarrow> bool"
  pubkey_Verify :: "valtype \<Rightarrow> uint256 \<Rightarrow> valtype \<Rightarrow> bool"

record sig_checker =
  CheckSig :: "valtype \<Rightarrow> valtype \<Rightarrow> CScript \<Rightarrow> bool"
  CheckLockTime :: "int \<Rightarrow> bool"
  CheckSequence :: "int \<Rightarrow> bool"

definition BaseSignatureChecker :: sig_checker where
  "BaseSignatureChecker =
     \<lparr> CheckSig = (\<lambda>_ _ _. False), CheckLockTime = (\<lambda>_. False), CheckSequence = (\<lambda>_. False) \<rparr>"

section \<open>Encodings\<close>

fun CastToBool :: "valtype \<Rightarrow> bool" where
  "CastToBool [] = False"
| "CastToBool (b # vch) =
     (if b \<noteq> 0 then (if vch = [] \<and> b = 0x80 then False else True) else CastToBool vch)"

definition IsCompressedOrUncompressedPubKey :: "valtype \<Rightarrow> bool" where
  "IsCompressedOrUncompressedPubKey vchPubKey =
     (if length vchPubKey < 33 then False
      else if vchPubKey ! 0 = 0x04 then length vchPubKey = 65
      else if vchPubKey ! 0 = 0x02 \<or> vchPubKey ! 0 = 0x03 then length vchPubKey = 33
      else False)"

definition IsValidSignatureEncoding :: "valtype \<Rightarrow> bool" where
  "IsValidSignatureEncoding sig =
     (if length sig < 9 then False
      else if length sig > 73 then False
      else if sig ! 0 \<noteq> 0x30 then False
      else if unat (sig ! 1) \<noteq> length sig - 3 then False
      else let lenR = unat (sig ! 3) in
        if 5 + lenR \<ge> length sig then False
        else let lenS = unat (sig ! (5 + lenR)) in
          if lenR + lenS + 7 \<noteq> length sig then False
          else if sig ! 2 \<noteq> 0x02 then False
          else if lenR = 0 then False
          else if sig ! 4 AND 0x80 \<noteq> 0 then False
          else if lenR > 1 \<and> sig ! 4 = 0x00 \<and> \<not> (sig ! 5 AND 0x80 \<noteq> 0) then False
          else if sig ! (lenR + 4) \<noteq> 0x02 then False
          else if lenS = 0 then False
          else if sig ! (lenR + 6) AND 0x80 \<noteq> 0 then False
          else if lenS > 1 \<and> sig ! (lenR + 6) = 0x00 \<and> \<not> (sig ! (lenR + 7) AND 0x80 \<noteq> 0) then False
          else True)"

text \<open>The checks that set \<^verbatim>\<open>serror\<close> return the error, \<open>None\<close> for success.\<close>

definition IsLowDERSignature :: "crypto_fns \<Rightarrow> valtype \<Rightarrow> ScriptError option" where
  "IsLowDERSignature cr vchSig =
     (if \<not> IsValidSignatureEncoding vchSig then Some SCRIPT_ERR_SIG_DER
      else if \<not> CheckLowS cr (take (length vchSig - 1) vchSig) then Some SCRIPT_ERR_SIG_HIGH_S
      else None)"

definition IsDefinedHashtypeSignature :: "valtype \<Rightarrow> bool" where
  "IsDefinedHashtypeSignature vchSig =
     (if length vchSig = 0 then False
      else let nHashType = vchSig ! (length vchSig - 1) AND NOT (ucast SIGHASH_ANYONECANPAY)
           in if nHashType < ucast SIGHASH_ALL \<or> nHashType > ucast SIGHASH_SINGLE then False else True)"

definition CheckSignatureEncoding :: "crypto_fns \<Rightarrow> valtype \<Rightarrow> u32 \<Rightarrow> ScriptError option" where
  "CheckSignatureEncoding cr vchSig flags =
     (if length vchSig = 0 then None
      else if flags AND (SCRIPT_VERIFY_DERSIG OR SCRIPT_VERIFY_LOW_S OR SCRIPT_VERIFY_STRICTENC) \<noteq> 0 \<and>
              \<not> IsValidSignatureEncoding vchSig then Some SCRIPT_ERR_SIG_DER
      else if flags AND SCRIPT_VERIFY_LOW_S \<noteq> 0 \<and> IsLowDERSignature cr vchSig \<noteq> None
           then IsLowDERSignature cr vchSig
      else if flags AND SCRIPT_VERIFY_STRICTENC \<noteq> 0 \<and> \<not> IsDefinedHashtypeSignature vchSig
           then Some SCRIPT_ERR_SIG_HASHTYPE
      else None)"

definition CheckPubKeyEncoding :: "valtype \<Rightarrow> u32 \<Rightarrow> ScriptError option" where
  "CheckPubKeyEncoding vchPubKey flags =
     (if flags AND SCRIPT_VERIFY_STRICTENC \<noteq> 0 \<and> \<not> IsCompressedOrUncompressedPubKey vchPubKey
      then Some SCRIPT_ERR_PUBKEYTYPE else None)"

definition CheckMinimalPush :: "valtype \<Rightarrow> opcodetype \<Rightarrow> bool" where
  "CheckMinimalPush data opcode =
     (if length data = 0 then opcode = OP_0
      else if length data = 1 \<and> data ! 0 \<ge> 1 \<and> data ! 0 \<le> 16 then opcode = OP_1 + (data ! 0 - 1)
      else if length data = 1 \<and> data ! 0 = 0x81 then opcode = OP_1NEGATE
      else if length data \<le> 75 then unat opcode = length data
      else if length data \<le> 255 then opcode = OP_PUSHDATA1
      else if length data \<le> 65535 then opcode = OP_PUSHDATA2
      else True)"

section \<open>Stack operations\<close>

type_synonym stack_op = "valtype list \<Rightarrow> ScriptError + valtype list"

definition vchFalse :: valtype where "vchFalse = []"
definition vchTrue :: valtype where "vchTrue = [1]"

definition bool_vch :: "bool \<Rightarrow> valtype" where
  "bool_vch b = (if b then vchTrue else vchFalse)"

abbreviation (input) stack_err :: "ScriptError + 'a" where
  "stack_err \<equiv> Inl SCRIPT_ERR_INVALID_STACK_OPERATION"

fun op_verify :: stack_op where
  "op_verify (x1 # s) = (if CastToBool x1 then Inr s else Inl SCRIPT_ERR_VERIFY)"
| "op_verify _ = stack_err"

fun op_2drop :: stack_op where
  "op_2drop (x2 # x1 # s) = Inr s"
| "op_2drop _ = stack_err"

fun op_2dup :: stack_op where
  "op_2dup (x2 # x1 # s) = Inr (x2 # x1 # x2 # x1 # s)"
| "op_2dup _ = stack_err"

fun op_3dup :: stack_op where
  "op_3dup (x3 # x2 # x1 # s) = Inr (x3 # x2 # x1 # x3 # x2 # x1 # s)"
| "op_3dup _ = stack_err"

fun op_2over :: stack_op where
  "op_2over (x4 # x3 # x2 # x1 # s) = Inr (x2 # x1 # x4 # x3 # x2 # x1 # s)"
| "op_2over _ = stack_err"

fun op_2rot :: stack_op where
  "op_2rot (x6 # x5 # x4 # x3 # x2 # x1 # s) = Inr (x2 # x1 # x6 # x5 # x4 # x3 # s)"
| "op_2rot _ = stack_err"

fun op_2swap :: stack_op where
  "op_2swap (x4 # x3 # x2 # x1 # s) = Inr (x2 # x1 # x4 # x3 # s)"
| "op_2swap _ = stack_err"

fun op_ifdup :: stack_op where
  "op_ifdup (x1 # s) = Inr (if CastToBool x1 then x1 # x1 # s else x1 # s)"
| "op_ifdup _ = stack_err"

definition op_depth :: stack_op where
  "op_depth s = Inr (CScriptNum_serialize (int (length s)) # s)"

fun op_drop :: stack_op where
  "op_drop (x1 # s) = Inr s"
| "op_drop _ = stack_err"

fun op_dup :: stack_op where
  "op_dup (x1 # s) = Inr (x1 # x1 # s)"
| "op_dup _ = stack_err"

fun op_nip :: stack_op where
  "op_nip (x2 # x1 # s) = Inr (x2 # s)"
| "op_nip _ = stack_err"

fun op_over :: stack_op where
  "op_over (x2 # x1 # s) = Inr (x1 # x2 # x1 # s)"
| "op_over _ = stack_err"

definition op_pick_roll :: "bool \<Rightarrow> opcodetype \<Rightarrow> stack_op" where
  "op_pick_roll fRequireMinimal opcode s =
     (if length s < 2 then stack_err
      else (case CScriptNum_vch (s ! 0) fRequireMinimal nDefaultMaxNumSize of
              Inl _ \<Rightarrow> Inl SCRIPT_ERR_UNKNOWN_ERROR
            | Inr bn \<Rightarrow>
                (let n = CScriptNum_getint bn; s = drop 1 s
                 in if n < 0 \<or> n \<ge> int (length s) then stack_err
                    else let vch = s ! nat n;
                             s = (if opcode = OP_ROLL then take (nat n) s @ drop (Suc (nat n)) s else s)
                         in Inr (vch # s))))"

fun op_rot :: stack_op where
  "op_rot (x3 # x2 # x1 # s) = Inr (x1 # x3 # x2 # s)"
| "op_rot _ = stack_err"

fun op_swap :: stack_op where
  "op_swap (x2 # x1 # s) = Inr (x1 # x2 # s)"
| "op_swap _ = stack_err"

fun op_tuck :: stack_op where
  "op_tuck (x2 # x1 # s) = Inr (x2 # x1 # x2 # s)"
| "op_tuck _ = stack_err"

fun op_size :: stack_op where
  "op_size (x1 # s) = Inr (CScriptNum_serialize (int (length x1)) # x1 # s)"
| "op_size _ = stack_err"

fun op_equal :: "opcodetype \<Rightarrow> stack_op" where
  "op_equal opcode (x2 # x1 # s) =
     (let fEqual = (x1 = x2)
      in if opcode = OP_EQUALVERIFY then (if fEqual then Inr s else Inl SCRIPT_ERR_EQUALVERIFY)
         else Inr (bool_vch fEqual # s))"
| "op_equal opcode _ = stack_err"

section \<open>Numeric operations\<close>

abbreviation (input) int_of_bool :: "bool \<Rightarrow> int" where
  "int_of_bool b \<equiv> if b then 1 else 0"

definition unary_num :: "opcodetype \<Rightarrow> int \<Rightarrow> int" where
  "unary_num opcode bn =
     (if opcode = OP_1ADD then bn + 1
      else if opcode = OP_1SUB then bn - 1
      else if opcode = OP_NEGATE then - bn
      else if opcode = OP_ABS then (if bn < 0 then - bn else bn)
      else if opcode = OP_NOT then int_of_bool (bn = 0)
      else int_of_bool (bn \<noteq> 0))"

fun op_unary_num :: "bool \<Rightarrow> opcodetype \<Rightarrow> stack_op" where
  "op_unary_num fRequireMinimal opcode (x1 # s) =
     (case CScriptNum_vch x1 fRequireMinimal nDefaultMaxNumSize of
        Inl _ \<Rightarrow> Inl SCRIPT_ERR_UNKNOWN_ERROR
      | Inr bn \<Rightarrow> Inr (CScriptNum_serialize (unary_num opcode bn) # s))"
| "op_unary_num fRequireMinimal opcode _ = stack_err"

definition binary_num :: "opcodetype \<Rightarrow> int \<Rightarrow> int \<Rightarrow> int" where
  "binary_num opcode bn1 bn2 =
     (if opcode = OP_ADD then bn1 + bn2
      else if opcode = OP_SUB then bn1 - bn2
      else if opcode = OP_BOOLAND then int_of_bool (bn1 \<noteq> 0 \<and> bn2 \<noteq> 0)
      else if opcode = OP_BOOLOR then int_of_bool (bn1 \<noteq> 0 \<or> bn2 \<noteq> 0)
      else if opcode = OP_NUMEQUAL then int_of_bool (bn1 = bn2)
      else if opcode = OP_NUMEQUALVERIFY then int_of_bool (bn1 = bn2)
      else if opcode = OP_NUMNOTEQUAL then int_of_bool (bn1 \<noteq> bn2)
      else if opcode = OP_LESSTHAN then int_of_bool (bn1 < bn2)
      else if opcode = OP_GREATERTHAN then int_of_bool (bn1 > bn2)
      else if opcode = OP_LESSTHANOREQUAL then int_of_bool (bn1 \<le> bn2)
      else if opcode = OP_GREATERTHANOREQUAL then int_of_bool (bn1 \<ge> bn2)
      else if opcode = OP_MIN then (if bn1 < bn2 then bn1 else bn2)
      else (if bn1 > bn2 then bn1 else bn2))"

fun op_binary_num :: "bool \<Rightarrow> opcodetype \<Rightarrow> stack_op" where
  "op_binary_num fRequireMinimal opcode (x2 # x1 # s) =
     (case (CScriptNum_vch x1 fRequireMinimal nDefaultMaxNumSize, CScriptNum_vch x2 fRequireMinimal nDefaultMaxNumSize) of
        (Inr bn1, Inr bn2) \<Rightarrow>
          (let vch = CScriptNum_serialize (binary_num opcode bn1 bn2)
           in if opcode = OP_NUMEQUALVERIFY
              then (if CastToBool vch then Inr s else Inl SCRIPT_ERR_NUMEQUALVERIFY)
              else Inr (vch # s))
      | _ \<Rightarrow> Inl SCRIPT_ERR_UNKNOWN_ERROR)"
| "op_binary_num fRequireMinimal opcode _ = stack_err"

fun op_within :: "bool \<Rightarrow> stack_op" where
  "op_within fRequireMinimal (x3 # x2 # x1 # s) =
     (case (CScriptNum_vch x1 fRequireMinimal nDefaultMaxNumSize,
            CScriptNum_vch x2 fRequireMinimal nDefaultMaxNumSize,
            CScriptNum_vch x3 fRequireMinimal nDefaultMaxNumSize) of
        (Inr bn1, Inr bn2, Inr bn3) \<Rightarrow> Inr (bool_vch (bn2 \<le> bn1 \<and> bn1 < bn3) # s)
      | _ \<Rightarrow> Inl SCRIPT_ERR_UNKNOWN_ERROR)"
| "op_within fRequireMinimal _ = stack_err"

section \<open>Crypto operations\<close>

fun op_hashing :: "crypto_fns \<Rightarrow> opcodetype \<Rightarrow> stack_op" where
  "op_hashing cr opcode (vch # s) =
     Inr ((if opcode = OP_RIPEMD160 then ripemd160_fn cr vch
           else if opcode = OP_SHA1 then sha1_fn cr vch
           else if opcode = OP_SHA256 then sha256_fn cr vch
           else if opcode = OP_HASH160 then hash160_fn cr vch
           else hash256_fn cr vch) # s)"
| "op_hashing cr opcode _ = stack_err"

text \<open>\<open>scriptCode\<close> is the script from the most recent code separator on.\<close>

fun op_checksig ::
    "crypto_fns \<Rightarrow> sig_checker \<Rightarrow> u32 \<Rightarrow> opcodetype \<Rightarrow> CScript \<Rightarrow> stack_op" where
  "op_checksig cr checker flags opcode scriptCode (vchPubKey # vchSig # s) =
     (let scriptCode = fst (FindAndDelete scriptCode (push_data [] vchSig))
      in case CheckSignatureEncoding cr vchSig flags of
           Some err \<Rightarrow> Inl err
         | None \<Rightarrow>
           (case CheckPubKeyEncoding vchPubKey flags of
              Some err \<Rightarrow> Inl err
            | None \<Rightarrow>
              (let fSuccess = CheckSig checker vchSig vchPubKey scriptCode
               in if \<not> fSuccess \<and> flags AND SCRIPT_VERIFY_NULLFAIL \<noteq> 0 \<and> length vchSig > 0
                  then Inl SCRIPT_ERR_SIG_NULLFAIL
                  else if opcode = OP_CHECKSIGVERIFY
                       then (if fSuccess then Inr s else Inl SCRIPT_ERR_CHECKSIGVERIFY)
                       else Inr (bool_vch fSuccess # s))))"
| "op_checksig cr checker flags opcode scriptCode _ = stack_err"

text \<open>
  The signature loop of \<open>OP_CHECKMULTISIG\<close>. Positions count from the top of the stack, which
  is position 1.
\<close>

function multisig_loop ::
    "crypto_fns \<Rightarrow> sig_checker \<Rightarrow> u32 \<Rightarrow> CScript \<Rightarrow> valtype list \<Rightarrow> nat \<Rightarrow> nat \<Rightarrow> int \<Rightarrow> int \<Rightarrow> ScriptError + bool" where
  "multisig_loop cr checker flags scriptCode s isig ikey nSigsCount nKeysCount =
     (if nSigsCount > 0 then
        (let vchSig = s ! (isig - 1); vchPubKey = s ! (ikey - 1)
         in case CheckSignatureEncoding cr vchSig flags of
              Some err \<Rightarrow> Inl err
            | None \<Rightarrow>
              (case CheckPubKeyEncoding vchPubKey flags of
                 Some err \<Rightarrow> Inl err
               | None \<Rightarrow>
                 (let fOk = CheckSig checker vchSig vchPubKey scriptCode;
                      isig = (if fOk then isig + 1 else isig);
                      nSigsCount = (if fOk then nSigsCount - 1 else nSigsCount);
                      ikey = ikey + 1;
                      nKeysCount = nKeysCount - 1
                  in if nSigsCount > nKeysCount then Inr False
                     else multisig_loop cr checker flags scriptCode s isig ikey nSigsCount nKeysCount)))
      else Inr True)"
  by pat_completeness auto
termination
  by (relation "measure (\<lambda>(cr, ch, f, sc, s, isig, ikey, nSigs, nKeys). nat nKeys)") (auto split: if_splits)

declare multisig_loop.simps [simp del]

text \<open>The loop that removes the arguments: \<open>n\<close> elements are popped.\<close>

fun multisig_cleanup :: "nat \<Rightarrow> bool \<Rightarrow> u32 \<Rightarrow> nat \<Rightarrow> valtype list \<Rightarrow> ScriptError + valtype list" where
  "multisig_cleanup 0 fSuccess flags ikey2 s = Inr s"
| "multisig_cleanup (Suc n) fSuccess flags ikey2 s =
     (if \<not> fSuccess \<and> flags AND SCRIPT_VERIFY_NULLFAIL \<noteq> 0 \<and> ikey2 = 0 \<and> length (s ! 0) > 0
      then Inl SCRIPT_ERR_SIG_NULLFAIL
      else multisig_cleanup n fSuccess flags (if ikey2 > 0 then ikey2 - 1 else ikey2) (drop 1 s))"

fun multisig_scriptCode :: "valtype list \<Rightarrow> CScript \<Rightarrow> CScript" where
  "multisig_scriptCode [] scriptCode = scriptCode"
| "multisig_scriptCode (vchSig # sigs) scriptCode =
     multisig_scriptCode sigs (fst (FindAndDelete scriptCode (push_data [] vchSig)))"

text \<open>The result holds the new operation count beside the stack.\<close>

definition op_checkmultisig ::
    "crypto_fns \<Rightarrow> sig_checker \<Rightarrow> u32 \<Rightarrow> bool \<Rightarrow> opcodetype \<Rightarrow> CScript \<Rightarrow> nat \<Rightarrow> valtype list \<Rightarrow>
     ScriptError + nat \<times> valtype list" where
  "op_checkmultisig cr checker flags fRequireMinimal opcode scriptCode nOpCount s =
     (if length s < 1 then stack_err else
      case CScriptNum_vch (s ! 0) fRequireMinimal nDefaultMaxNumSize of
        Inl _ \<Rightarrow> Inl SCRIPT_ERR_UNKNOWN_ERROR
      | Inr bnKeys \<Rightarrow>
     (let nKeysCount = CScriptNum_getint bnKeys in
      if nKeysCount < 0 \<or> nKeysCount > int MAX_PUBKEYS_PER_MULTISIG then Inl SCRIPT_ERR_PUBKEY_COUNT else
      let nOpCount = nOpCount + nat nKeysCount in
      if nOpCount > MAX_OPS_PER_SCRIPT then Inl SCRIPT_ERR_OP_COUNT else
      let ikey = 2; ikey2 = nat nKeysCount + 2; i = 2 + nat nKeysCount in
      if length s < i then stack_err else
      case CScriptNum_vch (s ! (i - 1)) fRequireMinimal nDefaultMaxNumSize of
        Inl _ \<Rightarrow> Inl SCRIPT_ERR_UNKNOWN_ERROR
      | Inr bnSigs \<Rightarrow>
     (let nSigsCount = CScriptNum_getint bnSigs in
      if nSigsCount < 0 \<or> nSigsCount > nKeysCount then Inl SCRIPT_ERR_SIG_COUNT else
      let isig = i + 1; i = i + 1 + nat nSigsCount in
      if length s < i then stack_err else
      let scriptCode = multisig_scriptCode (take (nat nSigsCount) (drop (isig - 1) s)) scriptCode in
      case multisig_loop cr checker flags scriptCode s isig ikey nSigsCount nKeysCount of
        Inl err \<Rightarrow> Inl err
      | Inr fSuccess \<Rightarrow>
     (case multisig_cleanup (i - 1) fSuccess flags ikey2 s of
        Inl err \<Rightarrow> Inl err
      | Inr s \<Rightarrow>
        if length s < 1 then stack_err
        else if flags AND SCRIPT_VERIFY_NULLDUMMY \<noteq> 0 \<and> length (s ! 0) > 0 then Inl SCRIPT_ERR_SIG_NULLDUMMY
        else let s = drop 1 s in
          if opcode = OP_CHECKMULTISIGVERIFY
          then (if fSuccess then Inr (nOpCount, s) else Inl SCRIPT_ERR_CHECKMULTISIGVERIFY)
          else Inr (nOpCount, bool_vch fSuccess # s)))))"

section \<open>Lock-time operations\<close>

fun op_checklocktimeverify :: "sig_checker \<Rightarrow> u32 \<Rightarrow> bool \<Rightarrow> stack_op" where
  "op_checklocktimeverify checker flags fRequireMinimal s =
     (if \<not> (flags AND SCRIPT_VERIFY_CHECKLOCKTIMEVERIFY \<noteq> 0) then
        (if flags AND SCRIPT_VERIFY_DISCOURAGE_UPGRADABLE_NOPS \<noteq> 0
         then Inl SCRIPT_ERR_DISCOURAGE_UPGRADABLE_NOPS else Inr s)
      else if length s < 1 then stack_err
      else (case CScriptNum_vch (s ! 0) fRequireMinimal 5 of
              Inl _ \<Rightarrow> Inl SCRIPT_ERR_UNKNOWN_ERROR
            | Inr nLock \<Rightarrow>
                if nLock < 0 then Inl SCRIPT_ERR_NEGATIVE_LOCKTIME
                else if \<not> CheckLockTime checker nLock then Inl SCRIPT_ERR_UNSATISFIED_LOCKTIME
                else Inr s))"

fun op_checksequenceverify :: "sig_checker \<Rightarrow> u32 \<Rightarrow> bool \<Rightarrow> stack_op" where
  "op_checksequenceverify checker flags fRequireMinimal s =
     (if \<not> (flags AND SCRIPT_VERIFY_CHECKSEQUENCEVERIFY \<noteq> 0) then
        (if flags AND SCRIPT_VERIFY_DISCOURAGE_UPGRADABLE_NOPS \<noteq> 0
         then Inl SCRIPT_ERR_DISCOURAGE_UPGRADABLE_NOPS else Inr s)
      else if length s < 1 then stack_err
      else (case CScriptNum_vch (s ! 0) fRequireMinimal 5 of
              Inl _ \<Rightarrow> Inl SCRIPT_ERR_UNKNOWN_ERROR
            | Inr nSeq \<Rightarrow>
                if nSeq < 0 then Inl SCRIPT_ERR_NEGATIVE_LOCKTIME
                else if nSeq AND uint SEQUENCE_LOCKTIME_DISABLE_FLAG \<noteq> 0 then Inr s
                else if \<not> CheckSequence checker nSeq then Inl SCRIPT_ERR_UNSATISFIED_LOCKTIME
                else Inr s))"

section \<open>The evaluation loop\<close>

text \<open>
  The local variables of \<open>EvalScript\<close> that live across instructions. The head of each list is
  the \<^verbatim>\<open>back\<close> of the vector; \<open>pbegincodehash\<close> is the suffix of the script the iterator points to.
\<close>

record exec_state =
  stk :: "valtype list"
  altstk :: "valtype list"
  vfExec :: "bool list"
  nOpCount :: nat
  pbegincodehash :: CScript

definition exec_init :: "valtype list \<Rightarrow> CScript \<Rightarrow> exec_state" where
  "exec_init s script = \<lparr> stk = s, altstk = [], vfExec = [], nOpCount = 0, pbegincodehash = script \<rparr>"

definition fExec :: "exec_state \<Rightarrow> bool" where
  "fExec st \<longleftrightarrow> False \<notin> set (vfExec st)"

definition disabled_opcode :: "opcodetype \<Rightarrow> bool" where
  "disabled_opcode opcode \<longleftrightarrow>
     opcode = OP_CAT \<or> opcode = OP_SUBSTR \<or> opcode = OP_LEFT \<or> opcode = OP_RIGHT \<or> opcode = OP_INVERT \<or>
     opcode = OP_AND \<or> opcode = OP_OR \<or> opcode = OP_XOR \<or> opcode = OP_2MUL \<or> opcode = OP_2DIV \<or>
     opcode = OP_MUL \<or> opcode = OP_DIV \<or> opcode = OP_MOD \<or> opcode = OP_LSHIFT \<or> opcode = OP_RSHIFT"

text \<open>The cases of the switch whose only effect is on the main stack.\<close>

definition stack_case ::
    "crypto_fns \<Rightarrow> sig_checker \<Rightarrow> u32 \<Rightarrow> bool \<Rightarrow> opcodetype \<Rightarrow> CScript \<Rightarrow> stack_op option" where
  "stack_case cr checker flags fRequireMinimal opcode scriptCode =
     (if opcode = OP_1NEGATE \<or> (OP_1 \<le> opcode \<and> opcode \<le> OP_16)
        then Some (\<lambda>s. Inr (CScriptNum_serialize (uint opcode - (uint OP_1 - 1)) # s))
      else if opcode = OP_NOP then Some Inr
      else if opcode = OP_CHECKLOCKTIMEVERIFY then Some (op_checklocktimeverify checker flags fRequireMinimal)
      else if opcode = OP_CHECKSEQUENCEVERIFY then Some (op_checksequenceverify checker flags fRequireMinimal)
      else if opcode = OP_NOP1 \<or> (OP_NOP4 \<le> opcode \<and> opcode \<le> OP_NOP10)
        then Some (\<lambda>s. if flags AND SCRIPT_VERIFY_DISCOURAGE_UPGRADABLE_NOPS \<noteq> 0
                       then Inl SCRIPT_ERR_DISCOURAGE_UPGRADABLE_NOPS else Inr s)
      else if opcode = OP_VERIFY then Some op_verify
      else if opcode = OP_RETURN then Some (\<lambda>s. Inl SCRIPT_ERR_OP_RETURN)
      else if opcode = OP_2DROP then Some op_2drop
      else if opcode = OP_2DUP then Some op_2dup
      else if opcode = OP_3DUP then Some op_3dup
      else if opcode = OP_2OVER then Some op_2over
      else if opcode = OP_2ROT then Some op_2rot
      else if opcode = OP_2SWAP then Some op_2swap
      else if opcode = OP_IFDUP then Some op_ifdup
      else if opcode = OP_DEPTH then Some op_depth
      else if opcode = OP_DROP then Some op_drop
      else if opcode = OP_DUP then Some op_dup
      else if opcode = OP_NIP then Some op_nip
      else if opcode = OP_OVER then Some op_over
      else if opcode = OP_PICK \<or> opcode = OP_ROLL then Some (op_pick_roll fRequireMinimal opcode)
      else if opcode = OP_ROT then Some op_rot
      else if opcode = OP_SWAP then Some op_swap
      else if opcode = OP_TUCK then Some op_tuck
      else if opcode = OP_SIZE then Some op_size
      else if opcode = OP_EQUAL \<or> opcode = OP_EQUALVERIFY then Some (op_equal opcode)
      else if opcode = OP_1ADD \<or> opcode = OP_1SUB \<or> opcode = OP_NEGATE \<or> opcode = OP_ABS \<or>
              opcode = OP_NOT \<or> opcode = OP_0NOTEQUAL
        then Some (op_unary_num fRequireMinimal opcode)
      else if opcode = OP_ADD \<or> opcode = OP_SUB \<or> (OP_BOOLAND \<le> opcode \<and> opcode \<le> OP_MAX)
        then Some (op_binary_num fRequireMinimal opcode)
      else if opcode = OP_WITHIN then Some (op_within fRequireMinimal)
      else if OP_RIPEMD160 \<le> opcode \<and> opcode \<le> OP_HASH256 then Some (op_hashing cr opcode)
      else if opcode = OP_CHECKSIG \<or> opcode = OP_CHECKSIGVERIFY
        then Some (op_checksig cr checker flags opcode scriptCode)
      else None)"

text \<open>
  The switch. \<open>pc\<close> is the iterator after the instruction, which \<open>OP_CODESEPARATOR\<close> records.
\<close>

definition exec_opcode ::
    "crypto_fns \<Rightarrow> sig_checker \<Rightarrow> u32 \<Rightarrow> opcodetype \<Rightarrow> CScript \<Rightarrow> exec_state \<Rightarrow> ScriptError + exec_state" where
  "exec_opcode cr checker flags opcode pc st =
     (let fRequireMinimal = (flags AND SCRIPT_VERIFY_MINIMALDATA \<noteq> 0) in
      if opcode = OP_IF \<or> opcode = OP_NOTIF then
        (if fExec st then
           (case stk st of
              [] \<Rightarrow> Inl SCRIPT_ERR_UNBALANCED_CONDITIONAL
            | vch # s \<Rightarrow>
                let fValue = CastToBool vch;
                    fValue = (if opcode = OP_NOTIF then \<not> fValue else fValue)
                in Inr (st \<lparr> stk := s, vfExec := fValue # vfExec st \<rparr>))
         else Inr (st \<lparr> vfExec := False # vfExec st \<rparr>))
      else if opcode = OP_ELSE then
        (case vfExec st of
           [] \<Rightarrow> Inl SCRIPT_ERR_UNBALANCED_CONDITIONAL
         | b # bs \<Rightarrow> Inr (st \<lparr> vfExec := (\<not> b) # bs \<rparr>))
      else if opcode = OP_ENDIF then
        (case vfExec st of
           [] \<Rightarrow> Inl SCRIPT_ERR_UNBALANCED_CONDITIONAL
         | b # bs \<Rightarrow> Inr (st \<lparr> vfExec := bs \<rparr>))
      else if opcode = OP_TOALTSTACK then
        (case stk st of
           [] \<Rightarrow> Inl SCRIPT_ERR_INVALID_STACK_OPERATION
         | vch # s \<Rightarrow> Inr (st \<lparr> stk := s, altstk := vch # altstk st \<rparr>))
      else if opcode = OP_FROMALTSTACK then
        (case altstk st of
           [] \<Rightarrow> Inl SCRIPT_ERR_INVALID_ALTSTACK_OPERATION
         | vch # s \<Rightarrow> Inr (st \<lparr> stk := vch # stk st, altstk := s \<rparr>))
      else if opcode = OP_CODESEPARATOR then Inr (st \<lparr> pbegincodehash := pc \<rparr>)
      else if opcode = OP_CHECKMULTISIG \<or> opcode = OP_CHECKMULTISIGVERIFY then
        (case op_checkmultisig cr checker flags fRequireMinimal opcode (pbegincodehash st) (nOpCount st) (stk st) of
           Inl err \<Rightarrow> Inl err
         | Inr (ops, s) \<Rightarrow> Inr (st \<lparr> stk := s, nOpCount := ops \<rparr>))
      else
        (case stack_case cr checker flags fRequireMinimal opcode (pbegincodehash st) of
           None \<Rightarrow> Inl SCRIPT_ERR_BAD_OPCODE
         | Some f \<Rightarrow>
             (case f (stk st) of
                Inl err \<Rightarrow> Inl err
              | Inr s \<Rightarrow> Inr (st \<lparr> stk := s \<rparr>))))"

text \<open>One round of the loop, from the instruction that was read.\<close>

definition exec_instruction ::
    "crypto_fns \<Rightarrow> sig_checker \<Rightarrow> u32 \<Rightarrow> opcodetype \<Rightarrow> valtype \<Rightarrow> CScript \<Rightarrow> exec_state \<Rightarrow>
     ScriptError + exec_state" where
  "exec_instruction cr checker flags opcode vchPushValue pc st =
     (if length vchPushValue > MAX_SCRIPT_ELEMENT_SIZE then Inl SCRIPT_ERR_PUSH_SIZE else
      let st1 = (if opcode > OP_16 then st \<lparr> nOpCount := nOpCount st + 1 \<rparr> else st) in
      if opcode > OP_16 \<and> nOpCount st1 > MAX_OPS_PER_SCRIPT then Inl SCRIPT_ERR_OP_COUNT
      else if disabled_opcode opcode then Inl SCRIPT_ERR_DISABLED_OPCODE
      else
        (case (if fExec st \<and> opcode \<le> OP_PUSHDATA4 then
                 (if flags AND SCRIPT_VERIFY_MINIMALDATA \<noteq> 0 \<and> \<not> CheckMinimalPush vchPushValue opcode
                  then Inl SCRIPT_ERR_MINIMALDATA
                  else Inr (st1 \<lparr> stk := vchPushValue # stk st1 \<rparr>))
               else if fExec st \<or> (OP_IF \<le> opcode \<and> opcode \<le> OP_ENDIF)
                 then exec_opcode cr checker flags opcode pc st1
               else Inr st1) of
           Inl err \<Rightarrow> Inl err
         | Inr st2 \<Rightarrow>
             if length (stk st2) + length (altstk st2) > 1000 then Inl SCRIPT_ERR_STACK_SIZE
             else Inr st2))"

function EvalScript_loop ::
    "crypto_fns \<Rightarrow> sig_checker \<Rightarrow> u32 \<Rightarrow> CScript \<Rightarrow> exec_state \<Rightarrow> ScriptError + exec_state" where
  "EvalScript_loop cr checker flags pc st =
     (if pc = [] then Inr st
      else let (ok, opcode, vchPushValue, pc') = GetOp2 pc
           in if \<not> ok then Inl SCRIPT_ERR_BAD_OPCODE
              else (case exec_instruction cr checker flags opcode vchPushValue pc' st of
                      Inl err \<Rightarrow> Inl err
                    | Inr st' \<Rightarrow> EvalScript_loop cr checker flags pc' st'))"
  by pat_completeness auto
termination
  by (relation "measure (\<lambda>(cr, ch, f, pc, st). length pc)") (auto dest!: GetOp2_progress [OF sym])

declare EvalScript_loop.simps [simp del]

definition EvalScript ::
    "crypto_fns \<Rightarrow> sig_checker \<Rightarrow> u32 \<Rightarrow> valtype list \<Rightarrow> CScript \<Rightarrow> ScriptError + valtype list" where
  "EvalScript cr checker flags stack script =
     (if length script > MAX_SCRIPT_SIZE then Inl SCRIPT_ERR_SCRIPT_SIZE
      else case EvalScript_loop cr checker flags script (exec_init stack script) of
             Inl err \<Rightarrow> Inl err
           | Inr st \<Rightarrow>
               if vfExec st \<noteq> [] then Inl SCRIPT_ERR_UNBALANCED_CONDITIONAL else Inr (stk st))"

section \<open>The signature hash\<close>

record sighash_ctx =
  sh_txTo :: CTransaction
  sh_scriptCode :: CScript
  sh_nIn :: nat
  fAnyoneCanPay :: bool
  fHashSingle :: bool
  fHashNone :: bool

definition CTransactionSignatureSerializer :: "CTransaction \<Rightarrow> CScript \<Rightarrow> nat \<Rightarrow> u32 \<Rightarrow> sighash_ctx" where
  "CTransactionSignatureSerializer tx scriptCode nIn nHashType =
     \<lparr> sh_txTo = tx, sh_scriptCode = scriptCode, sh_nIn = nIn,
       fAnyoneCanPay = (nHashType AND SIGHASH_ANYONECANPAY \<noteq> 0),
       fHashSingle = (nHashType AND 0x1f = SIGHASH_SINGLE),
       fHashNone = (nHashType AND 0x1f = SIGHASH_NONE) \<rparr>"

text \<open>
  The second loop of \<open>SerializeScriptCode\<close>; the result holds the bytes written and the final
  values of \<^verbatim>\<open>it\<close> and \<^verbatim>\<open>itBegin\<close>. The iterator stays where the failing read left it.
\<close>

function script_code_loop :: "CScript \<Rightarrow> CScript \<Rightarrow> bytes \<times> CScript \<times> CScript" where
  "script_code_loop it itBegin =
     (let (ok, opcode, vch, it') = GetOp2 it
      in if ok then
           (if opcode = OP_CODESEPARATOR
            then let (w, r) = script_code_loop it' it' in (butlast (list_range itBegin it') @ w, r)
            else script_code_loop it' itBegin)
         else ([], it', itBegin))"
  by pat_completeness auto
termination
  by (relation "measure (\<lambda>(it, b). length it)") (auto dest!: GetOp2_progress [OF sym])

declare script_code_loop.simps [simp del]

definition SerializeScriptCode :: "CScript \<Rightarrow> bytes" where
  "SerializeScriptCode scriptCode =
     (let nCodeSeparators = Find_loop OP_CODESEPARATOR scriptCode;
          (w, it, itBegin) = script_code_loop scriptCode scriptCode
      in WriteCompactSize (of_nat (length scriptCode - nCodeSeparators)) @ w @
         (if itBegin \<noteq> [] then list_range itBegin it else []))"

definition SerializeInput :: "sighash_ctx \<Rightarrow> nat \<Rightarrow> bytes" where
  "SerializeInput c nInput =
     (let nInput = (if fAnyoneCanPay c then sh_nIn c else nInput);
          txin = vin (sh_txTo c) ! nInput
      in Serialize_COutPoint (prevout txin) @
         (if nInput \<noteq> sh_nIn c then Serialize_bytes [] else SerializeScriptCode (sh_scriptCode c)) @
         (if nInput \<noteq> sh_nIn c \<and> (fHashSingle c \<or> fHashNone c) then ser_writedata32 0
          else ser_writedata32 (nSequence txin)))"

definition SerializeOutput :: "sighash_ctx \<Rightarrow> nat \<Rightarrow> bytes" where
  "SerializeOutput c nOutput =
     (if fHashSingle c \<and> nOutput \<noteq> sh_nIn c then Serialize_CTxOut CTxOut_null
      else Serialize_CTxOut (vout (sh_txTo c) ! nOutput))"

definition Serialize_sighash :: "sighash_ctx \<Rightarrow> bytes" where
  "Serialize_sighash c =
     (let tx = sh_txTo c;
          nInputs = (if fAnyoneCanPay c then 1 else length (vin tx));
          nOutputs = (if fHashNone c then 0 else if fHashSingle c then sh_nIn c + 1 else length (vout tx))
      in ser_writedata32 (pack_version (nVersion tx) (nType tx)) @
         WriteCompactSize (of_nat nInputs) @ concat (map (SerializeInput c) [0..<nInputs]) @
         WriteCompactSize (of_nat nOutputs) @ concat (map (SerializeOutput c) [0..<nOutputs]) @
         ser_writedata32 (nLockTime tx) @
         (if has_extra_payload (nVersion tx) (nType tx) then Serialize_bytes (vExtraPayload tx) else []))"

text \<open>\<open>hash256_fn\<close> is the double SHA256 of \<^verbatim>\<open>CHashWriter\<close>; the digest is read as a \<^verbatim>\<open>uint256\<close>.\<close>

definition SignatureHash :: "crypto_fns \<Rightarrow> CScript \<Rightarrow> CTransaction \<Rightarrow> nat \<Rightarrow> u32 \<Rightarrow> uint256" where
  "SignatureHash cr scriptCode tx nIn nHashType =
     (if nIn \<ge> length (vin tx) then 1
      else if nHashType AND 0x1f = SIGHASH_SINGLE \<and> nIn \<ge> length (vout tx) then 1
      else of_nat (le_nat (hash256_fn cr
             (Serialize_sighash (CTransactionSignatureSerializer tx scriptCode nIn nHashType) @
              ser_writedata32 nHashType))))"

section \<open>The transaction signature checker\<close>

definition CPubKey_GetLen :: "u8 \<Rightarrow> nat" where
  "CPubKey_GetLen chHeader =
     (if chHeader = 2 \<or> chHeader = 3 then 33
      else if chHeader = 4 \<or> chHeader = 6 \<or> chHeader = 7 then 65 else 0)"

definition CPubKey_IsValid :: "valtype \<Rightarrow> bool" where
  "CPubKey_IsValid vch =
     (let len = (if vch = [] then 0 else CPubKey_GetLen (vch ! 0)) in len \<noteq> 0 \<and> len = length vch)"

definition TransactionSignatureChecker_CheckSig ::
    "crypto_fns \<Rightarrow> CTransaction \<Rightarrow> nat \<Rightarrow> valtype \<Rightarrow> valtype \<Rightarrow> CScript \<Rightarrow> bool" where
  "TransactionSignatureChecker_CheckSig cr tx nIn vchSigIn vchPubKey scriptCode =
     (if \<not> CPubKey_IsValid vchPubKey then False
      else if vchSigIn = [] then False
      else let nHashType = ucast (last vchSigIn) :: u32;
               vchSig = butlast vchSigIn;
               sighash = SignatureHash cr scriptCode tx nIn nHashType
           in pubkey_Verify cr vchPubKey sighash vchSig)"

definition TransactionSignatureChecker_CheckLockTime :: "CTransaction \<Rightarrow> nat \<Rightarrow> int \<Rightarrow> bool" where
  "TransactionSignatureChecker_CheckLockTime tx nIn nLock =
     (if \<not> ((uint (nLockTime tx) < LOCKTIME_THRESHOLD \<and> nLock < LOCKTIME_THRESHOLD) \<or>
            (uint (nLockTime tx) \<ge> LOCKTIME_THRESHOLD \<and> nLock \<ge> LOCKTIME_THRESHOLD)) then False
      else if nLock > uint (nLockTime tx) then False
      else if SEQUENCE_FINAL = nSequence (vin tx ! nIn) then False
      else True)"

definition TransactionSignatureChecker_CheckSequence :: "CTransaction \<Rightarrow> nat \<Rightarrow> int \<Rightarrow> bool" where
  "TransactionSignatureChecker_CheckSequence tx nIn nSeq =
     (let txToSequence = uint (nSequence (vin tx ! nIn)) in
      if (scast (nVersion tx) :: u32) < 2 then False
      else if txToSequence AND uint SEQUENCE_LOCKTIME_DISABLE_FLAG \<noteq> 0 then False
      else let nLockTimeMask = uint (SEQUENCE_LOCKTIME_TYPE_FLAG OR SEQUENCE_LOCKTIME_MASK);
               txToSequenceMasked = txToSequence AND nLockTimeMask;
               nSequenceMasked = nSeq AND nLockTimeMask;
               typeFlag = uint SEQUENCE_LOCKTIME_TYPE_FLAG
           in if \<not> ((txToSequenceMasked < typeFlag \<and> nSequenceMasked < typeFlag) \<or>
                     (txToSequenceMasked \<ge> typeFlag \<and> nSequenceMasked \<ge> typeFlag)) then False
              else if nSequenceMasked > txToSequenceMasked then False
              else True)"

definition TransactionSignatureChecker :: "crypto_fns \<Rightarrow> CTransaction \<Rightarrow> nat \<Rightarrow> sig_checker" where
  "TransactionSignatureChecker cr tx nIn =
     \<lparr> CheckSig = TransactionSignatureChecker_CheckSig cr tx nIn,
       CheckLockTime = TransactionSignatureChecker_CheckLockTime tx nIn,
       CheckSequence = TransactionSignatureChecker_CheckSequence tx nIn \<rparr>"

section \<open>Verification of an input\<close>

text \<open>A failing \<^verbatim>\<open>assert\<close> stops the process, which is a result of its own.\<close>

datatype verify_result = VerifyOK | VerifyError ScriptError | VerifyAssert

definition VerifyScript ::
    "crypto_fns \<Rightarrow> sig_checker \<Rightarrow> u32 \<Rightarrow> CScript \<Rightarrow> CScript \<Rightarrow> verify_result" where
  "VerifyScript cr checker flags sigScript pkScript =
     (if flags AND SCRIPT_VERIFY_SIGPUSHONLY \<noteq> 0 \<and> \<not> IsPushOnly sigScript
        then VerifyError SCRIPT_ERR_SIG_PUSHONLY else
      case EvalScript cr checker flags [] sigScript of
        Inl err \<Rightarrow> VerifyError err
      | Inr stackCopy \<Rightarrow>
      (case EvalScript cr checker flags stackCopy pkScript of
        Inl err \<Rightarrow> VerifyError err
      | Inr stack \<Rightarrow>
        if stack = [] then VerifyError SCRIPT_ERR_EVAL_FALSE
        else if \<not> CastToBool (hd stack) then VerifyError SCRIPT_ERR_EVAL_FALSE
        else
        let finish = (\<lambda>stack.
              if flags AND SCRIPT_VERIFY_CLEANSTACK \<noteq> 0 then
                (if \<not> (flags AND SCRIPT_VERIFY_P2SH \<noteq> 0) then VerifyAssert
                 else if length stack \<noteq> 1 then VerifyError SCRIPT_ERR_CLEANSTACK
                 else VerifyOK)
              else VerifyOK) in
        if flags AND SCRIPT_VERIFY_P2SH \<noteq> 0 \<and> IsPayToScriptHash pkScript then
          (if \<not> IsPushOnly sigScript then VerifyError SCRIPT_ERR_SIG_PUSHONLY
           else case stackCopy of
                  [] \<Rightarrow> VerifyAssert
                | pubKey2 # stack \<Rightarrow>
                  (case EvalScript cr checker flags stack pubKey2 of
                     Inl err \<Rightarrow> VerifyError err
                   | Inr stack \<Rightarrow>
                     if stack = [] then VerifyError SCRIPT_ERR_EVAL_FALSE
                     else if \<not> CastToBool (hd stack) then VerifyError SCRIPT_ERR_EVAL_FALSE
                     else finish stack))
        else finish stack))"

end
