(* ===== verification/Script_Exec.thy ===== *)
theory Script_Exec
  imports Interpreter Script_Num Script_Scan "HOL-Library.Sublist"
begin

unbundle bit_operations_syntax

text \<open>
  Theorems about the script engine. A loop invariant of \<open>EvalScript\<close> is an instance of the
  locale \<open>script_invariant\<close>: what one instruction keeps, the whole evaluation keeps. The instances
  give the resource limits, the balance of conditionals and the size of the stacks.
\<close>

section \<open>Loop invariants\<close>

locale script_invariant =
  fixes cr :: crypto_fns and checker :: sig_checker and fl :: u32
    and P :: "CScript \<Rightarrow> exec_state \<Rightarrow> bool"
  assumes step: "GetOp2 pc = (True, opcode, vch, pc') \<Longrightarrow>
    exec_instruction cr checker fl opcode vch pc' st = Inr st' \<Longrightarrow> P pc st \<Longrightarrow> P pc' st'"
begin

lemma loop: "EvalScript_loop cr checker fl pc st = Inr st' \<Longrightarrow> P pc st \<Longrightarrow> P [] st'"
proof (induction pc arbitrary: st rule: length_induct)
  case (1 pc)
  show ?case
  proof (cases "pc = []")
    case True
    then show ?thesis using "1.prems" by (simp add: EvalScript_loop.simps)
  next
    case False
    obtain ok opcode vch pc' where g: "GetOp2 pc = (ok, opcode, vch, pc')" by (cases "GetOp2 pc")
    have ok using "1.prems"(1) False g by (subst (asm) EvalScript_loop.simps) (auto split: if_splits)
    then obtain st1 where e: "exec_instruction cr checker fl opcode vch pc' st = Inr st1"
      and l: "EvalScript_loop cr checker fl pc' st1 = Inr st'"
      using "1.prems"(1) False g
      by (subst (asm) EvalScript_loop.simps) (auto split: if_splits sum.splits)
    have g: "GetOp2 pc = (True, opcode, vch, pc')" using g \<open>ok\<close> by simp
    show ?thesis using "1.IH" GetOp2_progress [OF g] l step [OF g e "1.prems"(2)] by blast
  qed
qed

end

lemma EvalScript_InrE:
  assumes "EvalScript cr checker fl s script = Inr s'"
  obtains st where "length script \<le> MAX_SCRIPT_SIZE"
    "EvalScript_loop cr checker fl script (exec_init s script) = Inr st" "vfExec st = []" "s' = stk st"
  using assms by (auto simp: EvalScript_def not_less split: if_splits sum.splits)

lemma exec_instruction_InrE:
  assumes "exec_instruction cr checker fl opcode vch pc st = Inr st'"
  obtains st1 where "st1 = (if opcode > OP_16 then st \<lparr> nOpCount := nOpCount st + 1 \<rparr> else st)"
    "length vch \<le> MAX_SCRIPT_ELEMENT_SIZE" "\<not> disabled_opcode opcode"
    "opcode > OP_16 \<Longrightarrow> nOpCount st1 \<le> MAX_OPS_PER_SCRIPT"
    "length (stk st') + length (altstk st') \<le> 1000"
    "(fExec st \<and> opcode \<le> OP_PUSHDATA4 \<and> st' = st1 \<lparr> stk := vch # stk st1 \<rparr>) \<or>
     (exec_opcode cr checker fl opcode pc st1 = Inr st') \<or>
     (st' = st1 \<and> \<not> (OP_IF \<le> opcode \<and> opcode \<le> OP_ENDIF))"
  using assms by (auto simp: exec_instruction_def Let_def not_less split: if_splits sum.splits)

section \<open>Resource limits\<close>

text \<open>
  The static meaning of a script: its instructions, the number of instructions that count
  against the limit, and the nesting of its conditionals.
\<close>

definition counted_ops :: "CScript \<Rightarrow> nat" where
  "counted_ops script = length (filter (\<lambda>(opcode, vch). opcode > OP_16) (fst (instructions script)))"

fun cond_depth :: "nat \<Rightarrow> opcodetype list \<Rightarrow> nat option" where
  "cond_depth d [] = Some d"
| "cond_depth d (opcode # ops) =
     (if opcode = OP_IF \<or> opcode = OP_NOTIF then cond_depth (Suc d) ops
      else if opcode = OP_ELSE then (if d = 0 then None else cond_depth d ops)
      else if opcode = OP_ENDIF then (if d = 0 then None else cond_depth (d - 1) ops)
      else cond_depth d ops)"

definition balanced_conditionals :: "CScript \<Rightarrow> bool" where
  "balanced_conditionals script \<longleftrightarrow> cond_depth 0 (map fst (fst (instructions script))) = Some 0"

lemma op_checkmultisig_ops:
  "op_checkmultisig cr checker fl m opcode sc n s = Inr (n', s') \<Longrightarrow> n \<le> n' \<and> n' \<le> MAX_OPS_PER_SCRIPT"
  by (auto simp: op_checkmultisig_def Let_def not_less split: if_splits sum.splits)

lemma exec_opcode_ops:
  "exec_opcode cr checker fl opcode pc st = Inr st' \<Longrightarrow> nOpCount st \<le> nOpCount st'"
  by (auto simp: exec_opcode_def Let_def split: if_splits sum.splits list.splits option.splits
      dest: op_checkmultisig_ops)

lemma exec_opcode_ops_max:
  "exec_opcode cr checker fl opcode pc st = Inr st' \<Longrightarrow> nOpCount st \<le> MAX_OPS_PER_SCRIPT \<Longrightarrow>
   nOpCount st' \<le> MAX_OPS_PER_SCRIPT"
  by (auto simp: exec_opcode_def Let_def split: if_splits sum.splits list.splits option.splits
      dest: op_checkmultisig_ops)

lemma exec_opcode_depth:
  "exec_opcode cr checker fl opcode pc st = Inr st' \<Longrightarrow>
   cond_depth (length (vfExec st)) (opcode # ops) = cond_depth (length (vfExec st')) ops"
  by (auto simp: exec_opcode_def Let_def split: if_splits sum.splits list.splits option.splits)

lemma cond_depth_other:
  "\<not> (OP_IF \<le> opcode \<and> opcode \<le> OP_ENDIF) \<Longrightarrow> cond_depth d (opcode # ops) = cond_depth d ops"
  by auto

definition ins_ok :: "opcodetype \<times> valtype \<Rightarrow> bool" where
  "ins_ok i \<longleftrightarrow> \<not> disabled_opcode (fst i) \<and> length (snd i) \<le> MAX_SCRIPT_ELEMENT_SIZE"

text \<open>What is known of the part of a script that has been executed when the rest is \<open>pc\<close>.\<close>

definition executed :: "CScript \<Rightarrow> CScript \<Rightarrow> exec_state \<Rightarrow> bool" where
  "executed script pc st \<longleftrightarrow>
     (\<exists>ins. fst (instructions script) = ins @ fst (instructions pc) \<and>
        snd (instructions script) = snd (instructions pc) \<and>
        length (filter (\<lambda>(opcode, vch). opcode > OP_16) ins) \<le> nOpCount st \<and>
        nOpCount st \<le> MAX_OPS_PER_SCRIPT \<and> list_all ins_ok ins \<and>
        (\<forall>ops. cond_depth 0 (map fst ins @ ops) = cond_depth (length (vfExec st)) ops))"

lemma exec_instruction_ops:
  assumes "exec_instruction cr checker fl opcode vch pc st = Inr st'" "nOpCount st \<le> MAX_OPS_PER_SCRIPT"
  shows "nOpCount st + (if opcode > OP_16 then 1 else 0) \<le> nOpCount st'" "nOpCount st' \<le> MAX_OPS_PER_SCRIPT"
  using assms by (auto elim!: exec_instruction_InrE dest: exec_opcode_ops exec_opcode_ops_max split: if_splits)

lemma exec_instruction_depth:
  assumes "exec_instruction cr checker fl opcode vch pc st = Inr st'"
  shows "cond_depth (length (vfExec st)) (opcode # ops) = cond_depth (length (vfExec st')) ops"
  using assms
proof (rule exec_instruction_InrE)
  fix st1
  assume st1: "st1 = (if opcode > OP_16 then st \<lparr> nOpCount := nOpCount st + 1 \<rparr> else st)"
    and cs: "(fExec st \<and> opcode \<le> OP_PUSHDATA4 \<and> st' = st1 \<lparr> stk := vch # stk st1 \<rparr>) \<or>
     (exec_opcode cr checker fl opcode pc st1 = Inr st') \<or>
     (st' = st1 \<and> \<not> (OP_IF \<le> opcode \<and> opcode \<le> OP_ENDIF))"
  have v: "vfExec st1 = vfExec st" using st1 by simp
  have "opcode \<le> OP_PUSHDATA4 \<Longrightarrow> \<not> (OP_IF \<le> opcode \<and> opcode \<le> OP_ENDIF)"
    by (auto simp: word_le_nat_alt)
  with cs consider "exec_opcode cr checker fl opcode pc st1 = Inr st'"
    | "vfExec st' = vfExec st1" "\<not> (OP_IF \<le> opcode \<and> opcode \<le> OP_ENDIF)" by auto
  then show ?thesis
    by cases (use v exec_opcode_depth cond_depth_other in \<open>metis+\<close>)
qed

lemma executed_step:
  assumes g: "GetOp2 pc = (True, opcode, vch, pc')"
    and e: "exec_instruction cr checker fl opcode vch pc' st = Inr st'" and ex: "executed script pc st"
  shows "executed script pc' st'"
proof -
  from ex obtain ins where ins: "fst (instructions script) = ins @ fst (instructions pc)"
      "snd (instructions script) = snd (instructions pc)"
      "length (filter (\<lambda>(opcode, vch). opcode > OP_16) ins) \<le> nOpCount st"
      "nOpCount st \<le> MAX_OPS_PER_SCRIPT" "list_all ins_ok ins"
      "\<And>ops. cond_depth 0 (map fst ins @ ops) = cond_depth (length (vfExec st)) ops"
    unfolding executed_def by blast
  have ok: "ins_ok (opcode, vch)" using e by (auto simp: ins_ok_def elim: exec_instruction_InrE)
  have d: "cond_depth 0 (map fst (ins @ [(opcode, vch)]) @ ops) = cond_depth (length (vfExec st')) ops" for ops
    using ins(6) [of "opcode # ops"] exec_instruction_depth [OF e] by (simp del: cond_depth.simps(2))
  show ?thesis unfolding executed_def
    using ins ok d exec_instruction_ops [OF e ins(4)] instructions_ok [OF g]
    by (intro exI [of _ "ins @ [(opcode, vch)]"]) (auto split: if_splits)
qed

interpretation limits: script_invariant cr checker fl "executed script" for cr checker fl script
  by unfold_locales (rule executed_step)

lemma executed_init: "executed script script (exec_init s script)"
  by (auto simp: executed_def exec_init_def)

section \<open>Stack limits\<close>

definition elems_ok :: "valtype list \<Rightarrow> bool" where
  "elems_ok s \<longleftrightarrow> list_all (\<lambda>v. length v \<le> MAX_SCRIPT_ELEMENT_SIZE) s"

definition digests_ok :: "crypto_fns \<Rightarrow> bool" where
  "digests_ok cr \<longleftrightarrow> (\<forall>v. length (ripemd160_fn cr v) = 20 \<and> length (sha1_fn cr v) = 20 \<and>
     length (sha256_fn cr v) = 32 \<and> length (hash160_fn cr v) = 20 \<and> length (hash256_fn cr v) = 32)"

lemma elems_ok_simps [simp]:
  "elems_ok []" "elems_ok (x # s) \<longleftrightarrow> length x \<le> 520 \<and> elems_ok s"
  by (auto simp: elems_ok_def MAX_SCRIPT_ELEMENT_SIZE_def)

lemma elems_ok_append [simp]: "elems_ok (s @ t) \<longleftrightarrow> elems_ok s \<and> elems_ok t"
  by (simp add: elems_ok_def)

lemma elems_ok_take_drop [simp]: "elems_ok s \<Longrightarrow> elems_ok (take n s)" "elems_ok s \<Longrightarrow> elems_ok (drop n s)"
  unfolding elems_ok_def list_all_iff by (auto dest: in_set_takeD in_set_dropD)

lemma elems_ok_nth: "elems_ok s \<Longrightarrow> n < length s \<Longrightarrow> length (s ! n) \<le> 520"
  by (auto simp: elems_ok_def MAX_SCRIPT_ELEMENT_SIZE_def list_all_length)

lemma length_bool_vch [simp]: "length (bool_vch b) \<le> 520"
  by (simp add: bool_vch_def vchTrue_def vchFalse_def)

lemma length_CScriptNum_serialize_any [simp]: "length (CScriptNum_serialize n) \<le> 520"
proof -
  have "length (serialize_loop a) \<le> 8" for a
    using length_serialize_loop [of a 8] unsigned_less [where 'a = nat and w = a] by simp
  then have "length (serialize_loop a) \<le> 519" for a by (rule order_trans) simp
  from this [of "word_of_int n"] this [of "word_of_int (- n)"] show ?thesis
    by (auto simp: CScriptNum_serialize_def Let_def) 
qed

lemma multisig_cleanup_elems:
  "multisig_cleanup n b fl k s = Inr s' \<Longrightarrow> elems_ok s \<Longrightarrow> elems_ok s'"
  by (induction n b fl k s rule: multisig_cleanup.induct) (auto split: if_splits)

lemma op_checkmultisig_elems:
  "op_checkmultisig cr checker fl m opcode sc n s = Inr (n', s') \<Longrightarrow> elems_ok s \<Longrightarrow> elems_ok s'"
  by (auto simp: op_checkmultisig_def Let_def split: if_splits sum.splits dest: multisig_cleanup_elems)

lemma op_pick_roll_elems: "op_pick_roll m opcode s = Inr s' \<Longrightarrow> elems_ok s \<Longrightarrow> elems_ok s'"
  using elems_ok_nth [of "drop 1 s"]
  by (auto simp: op_pick_roll_def Let_def not_le not_less split: if_splits sum.splits)

lemma op_equal_elems: "op_equal opcode s = Inr s' \<Longrightarrow> elems_ok s \<Longrightarrow> elems_ok s'"
  by (induction opcode s rule: op_equal.induct) (auto simp: Let_def split: if_splits)

lemma op_unary_num_elems: "op_unary_num m opcode s = Inr s' \<Longrightarrow> elems_ok s \<Longrightarrow> elems_ok s'"
  by (induction m opcode s rule: op_unary_num.induct) (auto split: sum.splits)

lemma op_binary_num_elems: "op_binary_num m opcode s = Inr s' \<Longrightarrow> elems_ok s \<Longrightarrow> elems_ok s'"
  by (induction m opcode s rule: op_binary_num.induct) (auto simp: Let_def split: sum.splits if_splits)

lemma op_within_elems: "op_within m s = Inr s' \<Longrightarrow> elems_ok s \<Longrightarrow> elems_ok s'"
  by (induction m s rule: op_within.induct) (auto split: sum.splits)

lemma op_hashing_elems: "op_hashing cr opcode s = Inr s' \<Longrightarrow> digests_ok cr \<Longrightarrow> elems_ok s \<Longrightarrow> elems_ok s'"
  by (induction cr opcode s rule: op_hashing.induct) (auto simp: digests_ok_def)

lemma op_checksig_elems: "op_checksig cr checker fl opcode sc s = Inr s' \<Longrightarrow> elems_ok s \<Longrightarrow> elems_ok s'"
  by (induction cr checker fl opcode sc s rule: op_checksig.induct)
     (auto simp: Let_def split: if_splits option.splits)

lemma op_locktime_elems:
  "op_checklocktimeverify checker fl m s = Inr s' \<Longrightarrow> s' = s"
  "op_checksequenceverify checker fl m s = Inr s' \<Longrightarrow> s' = s"
  by (auto split: if_splits sum.splits)

lemma op_shuffle_elems:
  "op_verify s = Inr s' \<Longrightarrow> elems_ok s \<Longrightarrow> elems_ok s'"
  "op_2drop s = Inr s' \<Longrightarrow> elems_ok s \<Longrightarrow> elems_ok s'"
  "op_2dup s = Inr s' \<Longrightarrow> elems_ok s \<Longrightarrow> elems_ok s'"
  "op_3dup s = Inr s' \<Longrightarrow> elems_ok s \<Longrightarrow> elems_ok s'"
  "op_2over s = Inr s' \<Longrightarrow> elems_ok s \<Longrightarrow> elems_ok s'"
  "op_2rot s = Inr s' \<Longrightarrow> elems_ok s \<Longrightarrow> elems_ok s'"
  "op_2swap s = Inr s' \<Longrightarrow> elems_ok s \<Longrightarrow> elems_ok s'"
  "op_ifdup s = Inr s' \<Longrightarrow> elems_ok s \<Longrightarrow> elems_ok s'"
  "op_depth s = Inr s' \<Longrightarrow> elems_ok s \<Longrightarrow> elems_ok s'"
  "op_drop s = Inr s' \<Longrightarrow> elems_ok s \<Longrightarrow> elems_ok s'"
  "op_dup s = Inr s' \<Longrightarrow> elems_ok s \<Longrightarrow> elems_ok s'"
  "op_nip s = Inr s' \<Longrightarrow> elems_ok s \<Longrightarrow> elems_ok s'"
  "op_over s = Inr s' \<Longrightarrow> elems_ok s \<Longrightarrow> elems_ok s'"
  "op_rot s = Inr s' \<Longrightarrow> elems_ok s \<Longrightarrow> elems_ok s'"
  "op_swap s = Inr s' \<Longrightarrow> elems_ok s \<Longrightarrow> elems_ok s'"
  "op_tuck s = Inr s' \<Longrightarrow> elems_ok s \<Longrightarrow> elems_ok s'"
  "op_size s = Inr s' \<Longrightarrow> elems_ok s \<Longrightarrow> elems_ok s'"
  by (auto simp: op_depth_def split: if_splits
      elim!: op_verify.elims op_2drop.elims op_2dup.elims op_3dup.elims op_2over.elims op_2rot.elims
        op_2swap.elims op_ifdup.elims op_drop.elims op_dup.elims op_nip.elims op_over.elims
        op_rot.elims op_swap.elims op_tuck.elims op_size.elims)

lemmas op_elems = op_shuffle_elems op_checksig_elems op_hashing_elems op_within_elems op_binary_num_elems
  op_unary_num_elems op_equal_elems op_pick_roll_elems

lemma stack_case_elems:
  assumes "stack_case cr checker fl m opcode sc = Some f" "f s = Inr s'" "digests_ok cr" "elems_ok s"
  shows "elems_ok s'"
  using assms(1,2,3,4) unfolding stack_case_def
  by (simp split: if_splits) (auto dest: op_elems op_locktime_elems split: if_splits)

lemma exec_opcode_elems:
  assumes "exec_opcode cr checker fl opcode pc st = Inr st'" "digests_ok cr"
    "elems_ok (stk st)" "elems_ok (altstk st)"
  shows "elems_ok (stk st') \<and> elems_ok (altstk st')"
  using assms stack_case_elems [of cr checker fl _ opcode _ _ "stk st"]
  by (auto simp: exec_opcode_def Let_def split: if_splits sum.splits list.splits option.splits
      dest: op_checkmultisig_elems)

definition stacks_ok :: "exec_state \<Rightarrow> bool" where
  "stacks_ok st \<longleftrightarrow> elems_ok (stk st) \<and> elems_ok (altstk st) \<and> length (stk st) + length (altstk st) \<le> 1000"

lemma exec_instruction_stacks:
  assumes e: "exec_instruction cr checker fl opcode vch pc st = Inr st'" and d: "digests_ok cr" and s: "stacks_ok st"
  shows "stacks_ok st'"
  using e
proof (rule exec_instruction_InrE)
  fix st1
  assume st1: "st1 = (if opcode > OP_16 then st \<lparr> nOpCount := nOpCount st + 1 \<rparr> else st)"
    and len: "length vch \<le> MAX_SCRIPT_ELEMENT_SIZE" "length (stk st') + length (altstk st') \<le> 1000"
    and cs: "(fExec st \<and> opcode \<le> OP_PUSHDATA4 \<and> st' = st1 \<lparr> stk := vch # stk st1 \<rparr>) \<or>
     (exec_opcode cr checker fl opcode pc st1 = Inr st') \<or>
     (st' = st1 \<and> \<not> (OP_IF \<le> opcode \<and> opcode \<le> OP_ENDIF))"
  have "elems_ok (stk st1)" "elems_ok (altstk st1)" using s st1 by (auto simp: stacks_ok_def)
  then have "elems_ok (stk st') \<and> elems_ok (altstk st')"
    using cs len(1) exec_opcode_elems [of cr checker fl opcode pc st1 st'] d
    by (auto simp: MAX_SCRIPT_ELEMENT_SIZE_def)
  then show ?thesis using len(2) by (simp add: stacks_ok_def)
qed

interpretation stack_limits: script_invariant cr checker fl "\<lambda>pc st. digests_ok cr \<longrightarrow> stacks_ok st"
  for cr checker fl
  by unfold_locales (blast intro: exec_instruction_stacks)

section \<open>Evaluating instructions\<close>

lemma EvalScript_loop_Nil [simp]: "EvalScript_loop cr checker fl [] st = Inr st"
  by (simp add: EvalScript_loop.simps)

lemma EvalScript_loop_step:
  "GetOp2 pc = (True, opcode, vch, pc') \<Longrightarrow>
   EvalScript_loop cr checker fl pc st =
     (case exec_instruction cr checker fl opcode vch pc' st of
        Inl err \<Rightarrow> Inl err
      | Inr st' \<Rightarrow> EvalScript_loop cr checker fl pc' st')"
  using GetOp2_ok_not_Nil [of pc opcode vch pc'] by (subst EvalScript_loop.simps) simp

lemma GetOp2_single: "opcode > OP_PUSHDATA4 \<Longrightarrow> GetOp2 (opcode # pc) = (True, opcode, [], pc)"
  unfolding GetOp2.simps by (simp only: not_le [symmetric] if_False)

lemma IsPayToScriptHash_split:
  assumes "IsPayToScriptHash s"
  obtains h where "s = [OP_HASH160, 0x14] @ h @ [OP_EQUAL]" "length h = 20"
proof -
  have l: "length s = Suc (Suc 21)" and n: "s ! 0 = OP_HASH160" "s ! 1 = 0x14" "s ! 22 = OP_EQUAL"
    using assms by (auto simp: IsPayToScriptHash_def)
  obtain a b t where s: "s = a # b # t" and t: "length t = 21"
    using l unfolding length_Suc_conv by blast
  have "t \<noteq> []" using t by auto
  then have "t = butlast t @ [t ! 20]" using t append_butlast_last_id [of t] by (simp add: last_conv_nth)
  then show ?thesis using that [of "butlast t"] s t n by auto
qed

text \<open>A pay-to-script-hash output cannot be satisfied by an empty stack.\<close>

lemma P2SH_empty_stack:
  assumes "IsPayToScriptHash s"
  shows "EvalScript cr checker fl [] s = Inl SCRIPT_ERR_INVALID_STACK_OPERATION"
proof -
  obtain h where h: "s = [OP_HASH160, 0x14] @ h @ [OP_EQUAL]" "length h = 20"
    using assms by (rule IsPayToScriptHash_split)
  have "exec_instruction cr checker fl OP_HASH160 [] (0x14 # h @ [OP_EQUAL]) (exec_init [] s) =
      Inl SCRIPT_ERR_INVALID_STACK_OPERATION"
    by (simp add: exec_instruction_def exec_init_def fExec_def disabled_opcode_def exec_opcode_def
        stack_case_def MAX_SCRIPT_ELEMENT_SIZE_def MAX_OPS_PER_SCRIPT_def)
  then show ?thesis
    using h EvalScript_loop_step [of "OP_HASH160 # 0x14 # h @ [OP_EQUAL]" OP_HASH160 "[]" "0x14 # h @ [OP_EQUAL]"]
    by (simp add: EvalScript_def MAX_SCRIPT_SIZE_def del: GetOp2.simps) (simp add: GetOp2_single)
qed

section \<open>Properties\<close>

text \<open>An instance of the cryptographic parameters with the digest sizes of the real ones.\<close>

definition example_crypto :: crypto_fns where
  "example_crypto =
     \<lparr> ripemd160_fn = (\<lambda>v. take 20 (v @ replicate 20 0)), sha1_fn = (\<lambda>v. take 20 (v @ replicate 20 0)),
       sha256_fn = (\<lambda>v. take 32 (v @ replicate 32 0)), hash160_fn = (\<lambda>v. take 20 (v @ replicate 20 0)),
       hash256_fn = (\<lambda>v. take 32 (v @ replicate 32 0)),
       CheckLowS = (\<lambda>_. True), pubkey_Verify = (\<lambda>k h s. k = s) \<rparr>"

text \<open>
  (C5) A script that evaluates without an error respects the static limits, whatever branches were
  taken: it is at most \<open>MAX_SCRIPT_SIZE\<close> bytes long and can be read to its end, it has at most
  \<open>MAX_OPS_PER_SCRIPT\<close> counted operations, no disabled operation and no push above
  \<open>MAX_SCRIPT_ELEMENT_SIZE\<close>, in executed and unexecuted branches alike, and its conditionals are
  balanced.
\<close>

theorem EvalScript_limits:
  assumes "EvalScript cr checker fl s script = Inr s'"
  shows "length script \<le> MAX_SCRIPT_SIZE \<and> snd (instructions script) = [] \<and>
    counted_ops script \<le> MAX_OPS_PER_SCRIPT \<and> list_all ins_ok (fst (instructions script)) \<and>
    balanced_conditionals script"
  using assms
proof (rule EvalScript_InrE)
  fix st
  assume len: "length script \<le> MAX_SCRIPT_SIZE" and v: "vfExec st = []"
    and l: "EvalScript_loop cr checker fl script (exec_init s script) = Inr st"
  have "executed script [] st" by (rule limits.loop [OF l executed_init])
  then show ?thesis using len v unfolding executed_def counted_ops_def balanced_conditionals_def
    by (auto dest: spec [where x = "[]"])
qed

theorem EvalScript_limits_witness:
  "EvalScript example_crypto BaseSignatureChecker 0 [] [OP_1, OP_IF, OP_1, OP_ENDIF] = Inr [[1]] \<and>
   balanced_conditionals [OP_1, OP_IF, OP_1, OP_ENDIF]"
proof -
  have "EvalScript example_crypto BaseSignatureChecker 0 [] [OP_1, OP_IF, OP_1, OP_ENDIF] = Inr [[1]]"
    by code_simp
  then show ?thesis using EvalScript_limits by blast
qed

text \<open>
  (C6) The stack limits hold after every evaluation: started on at most 1000 elements of at most
  520 bytes, a script leaves at most 1000 elements of at most 520 bytes, for hash functions with
  the digest sizes of RIPEMD160, SHA1, SHA256, Hash160 and Hash256.
\<close>

theorem EvalScript_stack_limits:
  assumes "EvalScript cr checker fl s script = Inr s'" "digests_ok cr" "elems_ok s" "length s \<le> 1000"
  shows "elems_ok s' \<and> length s' \<le> 1000"
  using assms(1)
proof (rule EvalScript_InrE)
  fix st
  assume l: "EvalScript_loop cr checker fl script (exec_init s script) = Inr st" and s': "s' = stk st"
  have "digests_ok cr \<longrightarrow> stacks_ok (exec_init s script)"
    using assms(3,4) by (simp add: stacks_ok_def exec_init_def)
  from stack_limits.loop [OF l this] show ?thesis using assms(2) s' by (simp add: stacks_ok_def)
qed

lemma digests_ok_example: "digests_ok example_crypto"
  by (auto simp: digests_ok_def example_crypto_def)

theorem EvalScript_stack_limits_witness: "elems_ok [[2 :: u8], [1]]"
proof -
  have "EvalScript example_crypto BaseSignatureChecker 0 [[1]] [OP_2] = Inr [[2], [1]]" by code_simp
  from EvalScript_stack_limits [OF this digests_ok_example] show ?thesis by simp
qed

text \<open>
  The assertions of \<open>VerifyScript\<close> cannot fail when \<open>SCRIPT_VERIFY_CLEANSTACK\<close> is only used with
  \<open>SCRIPT_VERIFY_P2SH\<close>: the stack copy restored for a pay-to-script-hash output is never empty.
\<close>

theorem VerifyScript_no_assert:
  assumes "fl AND SCRIPT_VERIFY_CLEANSTACK \<noteq> 0 \<longrightarrow> fl AND SCRIPT_VERIFY_P2SH \<noteq> 0"
  shows "VerifyScript cr checker fl sigScript pkScript \<noteq> VerifyAssert"
  using assms P2SH_empty_stack [of pkScript cr checker fl]
  by (auto simp: VerifyScript_def Let_def split: sum.splits list.splits)

theorem VerifyScript_no_assert_witness:
  "VerifyScript example_crypto BaseSignatureChecker SCRIPT_VERIFY_P2SH [] [OP_1] \<noteq> VerifyAssert"
  by (rule VerifyScript_no_assert) (simp add: SCRIPT_VERIFY_P2SH_def)

text \<open>
  An output that \<open>IsUnspendable\<close> recognises can never be spent: no signature script, checker or
  flags make \<open>VerifyScript\<close> succeed. This is what allows \<open>AddCoin\<close> to drop such outputs.
\<close>

theorem VerifyScript_unspendable:
  assumes "IsUnspendable pkScript"
  shows "VerifyScript cr checker fl sigScript pkScript \<noteq> VerifyOK"
proof -
  have "\<exists>err. EvalScript cr checker fl s pkScript = Inl err" for s
  proof (cases "length pkScript > MAX_SCRIPT_SIZE")
    case True
    then show ?thesis by (simp add: EvalScript_def)
  next
    case False
    then obtain pc where pc: "pkScript = OP_RETURN # pc"
      using assms by (cases pkScript) (auto simp: IsUnspendable_def)
    have "exec_instruction cr checker fl OP_RETURN [] pc (exec_init s pkScript) = Inl SCRIPT_ERR_OP_RETURN"
      by (simp add: exec_instruction_def exec_init_def fExec_def disabled_opcode_def exec_opcode_def
          stack_case_def MAX_SCRIPT_ELEMENT_SIZE_def MAX_OPS_PER_SCRIPT_def)
    then show ?thesis
      using EvalScript_loop_step [OF GetOp2_single [of OP_RETURN pc], of cr checker fl] pc
      by (simp add: EvalScript_def)
  qed
  then obtain e where "\<And>s. EvalScript cr checker fl s pkScript = Inl (e s)" by metis
  then show ?thesis by (simp add: VerifyScript_def split: sum.split)
qed

theorem VerifyScript_unspendable_witness:
  "VerifyScript example_crypto BaseSignatureChecker 0 [OP_1] [OP_RETURN, OP_1] \<noteq> VerifyOK"
  by (rule VerifyScript_unspendable) (simp add: IsUnspendable_def)

end
