(* ===== verification/Script_Multisig.thy ===== *)
theory Script_Multisig
  imports Script_Exec
begin

unbundle bit_operations_syntax

text \<open>
  \<open>OP_CHECKMULTISIG\<close>. The loop of \<open>EvalScript\<close> tries each key once, from the top of the stack
  down, and moves on to the next signature when one fits. It succeeds exactly when the
  signatures can be matched in order with some of the keys, which is the relation \<open>list_emb\<close>
  of the library.
\<close>

definition sig_matches :: "sig_checker \<Rightarrow> CScript \<Rightarrow> valtype \<Rightarrow> valtype \<Rightarrow> bool" where
  "sig_matches checker scriptCode vchSig vchPubKey = CheckSig checker vchSig vchPubKey scriptCode"

definition encodings_ok :: "crypto_fns \<Rightarrow> u32 \<Rightarrow> valtype list \<Rightarrow> valtype list \<Rightarrow> bool" where
  "encodings_ok cr fl sigs keys \<longleftrightarrow>
     list_all (\<lambda>vchSig. CheckSignatureEncoding cr vchSig fl = None) sigs \<and>
     list_all (\<lambda>vchPubKey. CheckPubKeyEncoding vchPubKey fl = None) keys"

lemma nth_of_drop: "drop n s = x # t \<Longrightarrow> s ! n = x"
  by (metis hd_drop_conv_nth drop_all list.sel(1) list.distinct(1) not_le)

lemma drop_Suc_of_drop: "drop n s = x # t \<Longrightarrow> drop (Suc n) s = t"
  by (metis drop_Suc list.sel(3) tl_drop)

lemma multisig_loop_match:
  assumes "drop isig s = sigs @ r1" "drop ikey s = keys @ r2" "length sigs \<le> length keys"
    "encodings_ok cr fl sigs keys"
  shows "multisig_loop cr checker fl sc s (Suc isig) (Suc ikey) (int (length sigs)) (int (length keys)) =
    Inr (list_emb (sig_matches checker sc) sigs keys)"
  using assms
proof (induction keys arbitrary: sigs isig ikey)
  case Nil
  then show ?case by (simp add: multisig_loop.simps)
next
  case (Cons key keys)
  show ?case
  proof (cases sigs)
    case Nil
    then show ?thesis by (simp add: multisig_loop.simps)
  next
    case (Cons sig sigs')
    have s: "s ! isig = sig" "s ! ikey = key" "drop (Suc isig) s = sigs' @ r1" "drop (Suc ikey) s = keys @ r2"
      using Cons.prems(1,2) Cons nth_of_drop [of isig s sig] nth_of_drop [of ikey s key]
        drop_Suc_of_drop [of isig s sig] drop_Suc_of_drop [of ikey s key] by auto
    have e: "CheckSignatureEncoding cr sig fl = None" "CheckPubKeyEncoding key fl = None"
        "encodings_ok cr fl sigs' keys" "encodings_ok cr fl sigs keys"
      using Cons.prems(4) Cons by (auto simp: encodings_ok_def)
    show ?thesis
    proof (cases "sig_matches checker sc sig key")
      case True
      have "length sigs' \<le> length keys" using Cons.prems(3) Cons by simp
      from Cons.IH [OF s(3,4) this e(3)] this True show ?thesis using s e Cons
        by (subst multisig_loop.simps) (simp add: sig_matches_def [symmetric])
    next
      case False
      show ?thesis
      proof (cases "length sigs \<le> length keys")
        case True
        from Cons.IH [OF Cons.prems(1) s(4) True e(4)] True False show ?thesis using s e Cons
          by (subst multisig_loop.simps) (simp add: sig_matches_def [symmetric])
      next
        case long: False
        then have "\<not> list_emb (sig_matches checker sc) sigs keys" using list_emb_length by blast
        then show ?thesis using s e Cons False long
          by (subst multisig_loop.simps) (simp add: sig_matches_def [symmetric])
      qed
    qed
  qed
qed

definition needs_nullfail :: "u32 \<Rightarrow> bool \<Rightarrow> bool" where
  "needs_nullfail fl ok \<longleftrightarrow> \<not> ok \<and> fl AND SCRIPT_VERIFY_NULLFAIL \<noteq> 0"

lemma multisig_cleanup_keys:
  "length xs = k \<Longrightarrow> multisig_cleanup (k + n) ok fl k (xs @ s) = multisig_cleanup n ok fl 0 s"
  by (induction xs arbitrary: k) auto

lemma multisig_cleanup_sigs:
  "multisig_cleanup (length sigs) ok fl 0 (sigs @ s) =
     (if needs_nullfail fl ok \<and> list_ex (\<lambda>v. v \<noteq> []) sigs then Inl SCRIPT_ERR_SIG_NULLFAIL else Inr s)"
  by (induction sigs) (auto simp: needs_nullfail_def)

lemma multisig_cleanup_all:
  "multisig_cleanup (Suc (Suc (length keys + length sigs))) ok fl (length keys + 2) (a # keys @ b # sigs @ s) =
     (if needs_nullfail fl ok \<and> list_ex (\<lambda>v. v \<noteq> []) sigs then Inl SCRIPT_ERR_SIG_NULLFAIL else Inr s)"
  using multisig_cleanup_keys [of "a # keys @ [b]" "length keys + 2" "length sigs" ok fl "sigs @ s"]
  by (simp add: multisig_cleanup_sigs)

lemma scriptnum_count:
  "n \<le> 20 \<Longrightarrow> CScriptNum_vch (CScriptNum_serialize (int n)) m nDefaultMaxNumSize = Inr (int n)"
  by (rule scriptnum_roundtrip_aux) (auto simp: nDefaultMaxNumSize_def)

lemma CScriptNum_getint_count: "n \<le> 20 \<Longrightarrow> CScriptNum_getint (int n) = int n"
  by (auto simp: CScriptNum_getint_def)

text \<open>The stack of a multisignature check, from the top.\<close>

definition multisig_stack :: "valtype list \<Rightarrow> valtype list \<Rightarrow> valtype \<Rightarrow> valtype list \<Rightarrow> valtype list" where
  "multisig_stack keys sigs dummy rest =
     CScriptNum_serialize (int (length keys)) # keys @
     CScriptNum_serialize (int (length sigs)) # sigs @ dummy # rest"

lemma op_checkmultisig_aux:
  fixes keys sigs rest :: "valtype list"
  assumes n: "length keys \<le> 20" "length sigs \<le> length keys" "ops + length keys \<le> 201"
    and e: "encodings_ok cr fl sigs keys"
    and d: "fl AND SCRIPT_VERIFY_NULLDUMMY = 0 \<or> dummy = []"
    and ok: "ok = list_emb (sig_matches checker (multisig_scriptCode sigs sc)) sigs keys"
  shows "op_checkmultisig cr checker fl m OP_CHECKMULTISIG sc ops (multisig_stack keys sigs dummy rest) =
    (if needs_nullfail fl ok \<and> list_ex (\<lambda>v. v \<noteq> []) sigs then Inl SCRIPT_ERR_SIG_NULLFAIL
     else Inr (ops + length keys, bool_vch ok # rest))"
proof -
  define k where "k = length keys"
  let ?a = "CScriptNum_serialize (int (length keys))" and ?b = "CScriptNum_serialize (int (length sigs))"
  let ?s = "?a # keys @ ?b # sigs @ dummy # rest"
  have nth: "?s ! Suc k = ?b" by (simp add: k_def nth_append)
  have dropk: "drop (Suc (Suc k)) ?s = sigs @ dummy # rest" by (simp add: k_def)
  have l: "multisig_loop cr checker fl (multisig_scriptCode sigs sc) ?s (Suc (Suc (Suc k))) 2
      (int (length sigs)) (int (length keys)) = Inr ok"
    using multisig_loop_match [of "Suc (Suc k)" ?s sigs "dummy # rest" 1 keys "?b # sigs @ dummy # rest" cr fl checker]
      n(2) e ok dropk by (simp add: numeral_2_eq_2)
  have sc: "take (length sigs) (drop (Suc (Suc k)) ?s) = sigs" by (simp only: dropk) simp
  have n2: "length sigs \<le> 20" using n by simp
  note nums = scriptnum_count [OF n(1)] scriptnum_count [OF n2]
    CScriptNum_getint_count [OF n(1)] CScriptNum_getint_count [OF n2]
  show ?thesis
    unfolding op_checkmultisig_def multisig_stack_def
    using n nums l nth sc d multisig_cleanup_all [of keys sigs ok fl ?a ?b "dummy # rest"]
    by (auto simp: k_def MAX_PUBKEYS_PER_MULTISIG_def MAX_OPS_PER_SCRIPT_def)
qed

section \<open>Properties\<close>

text \<open>
  (C7) \<open>OP_CHECKMULTISIG\<close> on well-encoded signatures and keys pushes true exactly when the signatures
  can be matched, in order, with distinct keys that verify them; the greedy loop loses no
  solution. The count of keys is charged to the operation count, the dummy element and all
  arguments are removed, and under \<open>SCRIPT_VERIFY_NULLFAIL\<close> a failed check is an error unless
  every signature is empty.
\<close>

theorem op_checkmultisig_spec:
  fixes keys sigs rest :: "valtype list" and checker :: sig_checker and sc :: CScript
  assumes "length keys \<le> 20" "length sigs \<le> length keys" "ops + length keys \<le> 201"
    "encodings_ok cr fl sigs keys" "fl AND SCRIPT_VERIFY_NULLDUMMY = 0 \<or> dummy = []"
  defines "ok \<equiv> list_emb (sig_matches checker (multisig_scriptCode sigs sc)) sigs keys"
  shows "op_checkmultisig cr checker fl m OP_CHECKMULTISIG sc ops (multisig_stack keys sigs dummy rest) =
    (if needs_nullfail fl ok \<and> list_ex (\<lambda>v. v \<noteq> []) sigs then Inl SCRIPT_ERR_SIG_NULLFAIL
     else Inr (ops + length keys, bool_vch ok # rest))"
  using assms(1-5) by (rule op_checkmultisig_aux) (simp add: ok_def)

definition example_checker :: sig_checker where
  "example_checker = \<lparr> CheckSig = (\<lambda>s k _. s = k), CheckLockTime = (\<lambda>_. False), CheckSequence = (\<lambda>_. False) \<rparr>"

theorem op_checkmultisig_witness:
  "op_checkmultisig example_crypto example_checker 0 True OP_CHECKMULTISIG [] 0
     (multisig_stack [[1], [2], [3]] [[1], [3]] [] []) = Inr (3, [vchTrue])"
  using op_checkmultisig_spec [where keys = "[[1], [2], [3]]" and sigs = "[[1], [3]]" and ops = 0 and
    cr = example_crypto and fl = 0 and dummy = "[]" and checker = example_checker and sc = "[]" and m = True and rest = "[]"]
  by (simp add: encodings_ok_def CheckSignatureEncoding_def CheckPubKeyEncoding_def sig_matches_def example_checker_def
      needs_nullfail_def bool_vch_def)

end
