(* ===== verification/Sighash.thy ===== *)
theory Sighash
  imports Script_Exec
begin

unbundle bit_operations_syntax

text \<open>
  The signature hash. \<open>SignatureHash\<close> serialises the modified transaction on the fly; the
  reference is \<open>SignatureHashOld\<close> of \<^verbatim>\<open>test/sighash_tests.cpp\<close>, which builds the modified
  transaction and serialises it. The two agree on every script that can be read to its end.
\<close>

section \<open>The reference definition\<close>

fun blank_sequences :: "nat \<Rightarrow> nat \<Rightarrow> CTxIn list \<Rightarrow> CTxIn list" where
  "blank_sequences i nIn [] = []"
| "blank_sequences i nIn (txin # ins) =
     (if i \<noteq> nIn then txin \<lparr> nSequence := 0 \<rparr> else txin) # blank_sequences (Suc i) nIn ins"

definition SignatureHashOld_tx :: "CScript \<Rightarrow> CTransaction \<Rightarrow> nat \<Rightarrow> u32 \<Rightarrow> CTransaction" where
  "SignatureHashOld_tx scriptCode tx nIn nHashType =
     (let scriptCode = fst (FindAndDelete scriptCode [OP_CODESEPARATOR]);
          ins = map (\<lambda>txin. txin \<lparr> scriptSig := [] \<rparr>) (vin tx);
          ins = ins[nIn := (ins ! nIn) \<lparr> scriptSig := scriptCode \<rparr>];
          outs = vout tx;
          (ins, outs) =
            (if nHashType AND 0x1f = SIGHASH_NONE then (blank_sequences 0 nIn ins, [])
             else if nHashType AND 0x1f = SIGHASH_SINGLE
               then (blank_sequences 0 nIn ins, replicate nIn CTxOut_null @ [outs ! nIn])
             else (ins, outs));
          ins = (if nHashType AND SIGHASH_ANYONECANPAY \<noteq> 0 then [ins ! nIn] else ins)
      in tx \<lparr> vin := ins, vout := outs \<rparr>)"

definition SignatureHashOld :: "crypto_fns \<Rightarrow> CScript \<Rightarrow> CTransaction \<Rightarrow> nat \<Rightarrow> u32 \<Rightarrow> uint256" where
  "SignatureHashOld cr scriptCode tx nIn nHashType =
     (if nIn \<ge> length (vin tx) then 1
      else if nHashType AND 0x1f = SIGHASH_SINGLE \<and> nIn \<ge> length (vout tx) then 1
      else of_nat (le_nat (hash256_fn cr
             (Serialize_CTransaction (SignatureHashOld_tx scriptCode tx nIn nHashType) @
              ser_writedata32 nHashType))))"

section \<open>Scripts without their code separators\<close>

function strip_separators :: "CScript \<Rightarrow> CScript" where
  "strip_separators pc =
     (let (ok, opcode, vch, pc') = GetOp2 pc
      in if ok then (if opcode = OP_CODESEPARATOR then [] else list_range pc pc') @ strip_separators pc' else [])"
  by pat_completeness auto
termination
  by (relation "measure length") (auto dest!: GetOp2_progress [OF sym])

declare strip_separators.simps [simp del]

definition parses :: "CScript \<Rightarrow> bool" where
  "parses pc \<longleftrightarrow> snd (instructions pc) = []"

lemma parses_Nil [simp]: "parses []"
  by (simp add: parses_def)

lemma parses_cases:
  assumes "parses pc"
  obtains "pc = []" | opcode vch pc' xs where "pc = opcode # xs" "GetOp2 pc = (True, opcode, vch, pc')"
    "parses pc'" "length pc' < length pc"
proof (cases pc)
  case Nil
  then show ?thesis using that by blast
next
  case (Cons x xs)
  obtain ok opcode vch pc' where g: "GetOp2 pc = (ok, opcode, vch, pc')" by (cases "GetOp2 pc")
  have ok using assms g Cons instructions_fail [of pc opcode vch pc'] by (cases ok) (auto simp: parses_def)
  with g have g: "GetOp2 pc = (True, opcode, vch, pc')" by simp
  then have "opcode = x" unfolding Cons by (auto simp: getop_operand_def split: if_splits)
  moreover have "parses pc'" using assms instructions_ok [OF g] by (simp add: parses_def)
  ultimately show ?thesis using that(2) g Cons GetOp2_progress [OF g] by simp
qed

lemma GetOp2_separator: "GetOp2 (OP_CODESEPARATOR # pc) = (True, OP_CODESEPARATOR, [], pc)"
  by simp

lemma strip_Nil [simp]: "strip_separators [] = []"
  by (subst strip_separators.simps) simp

lemma strip_separator [simp]: "strip_separators (OP_CODESEPARATOR # pc) = strip_separators pc"
  using GetOp2_separator [of pc] by (subst strip_separators.simps) (simp del: GetOp2.simps)

lemma strip_other:
  "GetOp2 pc = (True, opcode, vch, pc') \<Longrightarrow> opcode \<noteq> OP_CODESEPARATOR \<Longrightarrow>
   strip_separators pc = list_range pc pc' @ strip_separators pc'"
  by (subst strip_separators.simps) simp

lemma list_range_trans:
  assumes "a = x @ b" "b = y @ c"
  shows "list_range a b @ list_range b c = list_range a c"
  using assms by (simp add: list_range_def)

lemma Find_loop_Nil [simp]: "Find_loop op [] = 0"
  by (subst Find_loop.simps) simp

lemma Find_loop_step:
  "GetOp2 pc = (True, opcode, vch, pc') \<Longrightarrow>
   Find_loop op pc = (if opcode = op then 1 else 0) + Find_loop op pc'"
  using GetOp2_ok_not_Nil [of pc opcode vch pc'] by (subst Find_loop.simps) simp

lemma length_strip: "parses pc \<Longrightarrow> length (strip_separators pc) + Find_loop OP_CODESEPARATOR pc = length pc"
proof (induction pc rule: length_induct)
  case (1 pc)
  from "1.prems" show ?case
  proof (cases rule: parses_cases)
    case 1
    then show ?thesis by simp
  next
    case (2 opcode vch pc' xs)
    have IH: "length (strip_separators pc') + Find_loop OP_CODESEPARATOR pc' = length pc'"
      using 1 2 by blast
    show ?thesis
    proof (cases "opcode = OP_CODESEPARATOR")
      case True
      then have "pc' = xs" using 2 by simp
      then show ?thesis using 2 True IH Find_loop_step [OF 2(2)] by simp
    next
      case False
      then show ?thesis using 2 IH Find_loop_step [OF 2(2)] strip_other [OF 2(2)] by simp
    qed
  qed
qed

lemma script_code_loop_strip:
  assumes "parses it" "itBegin = acc @ it"
  shows "\<exists>w b. script_code_loop it itBegin = (w, [], b) \<and> w @ b = acc @ strip_separators it"
  using assms
proof (induction it arbitrary: itBegin acc rule: length_induct)
  case (1 it)
  from "1.prems"(1) show ?case
  proof (cases rule: parses_cases)
    case 1
    then show ?thesis using "1.prems" by (subst script_code_loop.simps) simp
  next
    case (2 opcode vch it' xs)
    obtain ys where ys: "it = ys @ it'" using GetOp2_suffix [OF 2(2)] by blast
    show ?thesis
    proof (cases "opcode = OP_CODESEPARATOR")
      case True
      then have it: "it = OP_CODESEPARATOR # it'" using 2 by simp
      from 1 2 obtain w b where "script_code_loop it' it' = (w, [], b)" "w @ b = [] @ strip_separators it'"
        by (metis append_Nil)
      moreover have "butlast (list_range itBegin it') = acc"
        using "1.prems"(2) it by (simp add: list_range_def)
      ultimately show ?thesis using it
        by (subst script_code_loop.simps) (simp del: GetOp2.simps add: GetOp2_separator)
    next
      case False
      from 1 2 ys obtain w b where "script_code_loop it' itBegin = (w, [], b)"
          "w @ b = (acc @ ys) @ strip_separators it'"
        by (metis append_assoc)
      moreover have "strip_separators it = ys @ strip_separators it'" using strip_other [OF 2(2) False] ys by simp
      ultimately show ?thesis using 2(2) False by (subst script_code_loop.simps) simp
    qed
  qed
qed

lemma fad_skip_separators:
  "fad_skip [OP_CODESEPARATOR] pc n = (pc', n') \<Longrightarrow> parses pc \<Longrightarrow>
   parses pc' \<and> strip_separators pc = strip_separators pc' \<and> length pc' \<le> length pc \<and>
   n' + Find_loop OP_CODESEPARATOR pc' = n + Find_loop OP_CODESEPARATOR pc \<and>
   (pc' = [] \<or> hd pc' \<noteq> OP_CODESEPARATOR)"
proof (induction pc arbitrary: n)
  case Nil
  then show ?case by (subst (asm) fad_skip.simps) auto
next
  case (Cons x pc)
  show ?case
  proof (cases "x = OP_CODESEPARATOR")
    case True
    have "parses pc" using Cons.prems(2) instructions_ok [OF GetOp2_separator] True by (simp add: parses_def)
    moreover have "fad_skip [OP_CODESEPARATOR] pc (Suc n) = (pc', n')"
      using Cons.prems(1) True by (subst (asm) fad_skip.simps) simp
    ultimately show ?thesis using Cons.IH [of "Suc n"] True Find_loop_step [OF GetOp2_separator] by auto
  next
    case False
    then show ?thesis using Cons.prems by (subst (asm) fad_skip.simps) auto
  qed
qed

lemma fad_loop_separators:
  assumes "parses pc" "pc2 = acc @ pc"
  shows "\<exists>r p. fad_loop [OP_CODESEPARATOR] res pc2 pc n = (r, p, n + Find_loop OP_CODESEPARATOR pc) \<and>
    r @ p = res @ acc @ strip_separators pc"
  using assms
proof (induction pc arbitrary: pc2 acc res n rule: length_induct)
  case (1 pc)
  obtain pc' n' where sk: "fad_skip [OP_CODESEPARATOR] pc n = (pc', n')" by (cases "fad_skip [OP_CODESEPARATOR] pc n")
  note f = fad_skip_separators [OF sk "1.prems"(1)]
  have "parses pc'" using f by blast
  then show ?case
  proof (cases rule: parses_cases)
    case 1
    then show ?thesis using f sk "1.prems"(2) by (subst fad_loop.simps) (auto simp: Let_def)
  next
    case (2 opcode vch pc'' xs)
    have op: "opcode \<noteq> OP_CODESEPARATOR" using 2 f by auto
    obtain ys where ys: "pc' = ys @ pc''" using GetOp2_suffix [OF 2(2)] by blast
    have "length pc'' < length pc" using 2 f by auto
    then obtain r p where "fad_loop [OP_CODESEPARATOR] (res @ acc) pc' pc'' n' =
        (r, p, n' + Find_loop OP_CODESEPARATOR pc'')" "r @ p = (res @ acc) @ ys @ strip_separators pc''"
      using 1 2(3) ys by metis
    moreover have "strip_separators pc' = ys @ strip_separators pc''" using strip_other [OF 2(2) op] ys by simp
    ultimately show ?thesis using sk 2(2) op f Find_loop_step [OF 2(2), of OP_CODESEPARATOR] "1.prems"(2)
      by (subst fad_loop.simps) (auto simp: Let_def simp del: GetOp2.simps)
  qed
qed

lemma Find_loop_0_strip: "parses pc \<Longrightarrow> Find_loop OP_CODESEPARATOR pc = 0 \<Longrightarrow> strip_separators pc = pc"
proof (induction pc rule: length_induct)
  case (1 pc)
  from "1.prems"(1) show ?case
  proof (cases rule: parses_cases)
    case 1
    then show ?thesis by simp
  next
    case (2 opcode vch pc' xs)
    then have "opcode \<noteq> OP_CODESEPARATOR" "Find_loop OP_CODESEPARATOR pc' = 0"
      using Find_loop_step [OF 2(2), of OP_CODESEPARATOR] "1.prems"(2) by (auto split: if_splits)
    moreover obtain ys where "pc = ys @ pc'" using GetOp2_suffix [OF 2(2)] by blast
    ultimately show ?thesis using 1 2 strip_other [OF 2(2)] by simp
  qed
qed

lemma FindAndDelete_separators:
  assumes "parses sc"
  shows "fst (FindAndDelete sc [OP_CODESEPARATOR]) = strip_separators sc"
  using fad_loop_separators [of sc sc "[]" "[]" 0] assms Find_loop_0_strip [OF assms]
  by (auto simp: FindAndDelete_def)

lemma SerializeScriptCode_strip:
  assumes "parses sc"
  shows "SerializeScriptCode sc = Serialize_bytes (strip_separators sc)"
proof -
  obtain w b where w: "script_code_loop sc sc = (w, [], b)" "w @ b = strip_separators sc"
    using script_code_loop_strip [of sc sc "[]"] assms by auto
  have "length sc - Find_loop OP_CODESEPARATOR sc = length (strip_separators sc)"
    using length_strip [OF assms] by simp
  then show ?thesis using w by (auto simp: SerializeScriptCode_def Serialize_bytes_def list_range_def)
qed

section \<open>Equivalence with the reference\<close>

lemma length_blank_sequences [simp]: "length (blank_sequences i nIn ins) = length ins"
  by (induction i nIn ins rule: blank_sequences.induct) auto

lemma nth_blank_sequences:
  "k < length ins \<Longrightarrow>
   blank_sequences i nIn ins ! k = (if i + k \<noteq> nIn then (ins ! k) \<lparr> nSequence := 0 \<rparr> else ins ! k)"
proof (induction i nIn ins arbitrary: k rule: blank_sequences.induct)
  case (2 i nIn txin ins)
  then show ?case by (cases k) auto
qed simp

text \<open>The inputs and the outputs the reference serialises, one by one.\<close>

definition sighash_input :: "sighash_ctx \<Rightarrow> nat \<Rightarrow> CTxIn" where
  "sighash_input c i =
     (let txin = vin (sh_txTo c) ! i in
      if i = sh_nIn c then txin \<lparr> scriptSig := strip_separators (sh_scriptCode c) \<rparr>
      else txin \<lparr> scriptSig := [], nSequence := (if fHashSingle c \<or> fHashNone c then 0 else nSequence txin) \<rparr>)"

lemma SerializeInput_eq:
  "parses (sh_scriptCode c) \<Longrightarrow>
   SerializeInput c i = Serialize_CTxIn (sighash_input c (if fAnyoneCanPay c then sh_nIn c else i))"
  by (auto simp: SerializeInput_def sighash_input_def Serialize_CTxIn_def SerializeScriptCode_strip Let_def)

lemma Serialize_vector_upt:
  assumes "length xs = n" "\<And>i. i < n \<Longrightarrow> g i = f (xs ! i)"
  shows "WriteCompactSize (of_nat n) @ concat (map g [0..<n]) = Serialize_vector f xs"
proof -
  have "map g [0..<n] = map f xs" using assms by (intro nth_equalityI) auto
  then show ?thesis using assms(1) by (simp only: Serialize_vector_def)
qed

definition input_part :: "sighash_ctx \<Rightarrow> bytes" where
  "input_part c = (let nInputs = (if fAnyoneCanPay c then 1 else length (vin (sh_txTo c)))
     in WriteCompactSize (of_nat nInputs) @ concat (map (SerializeInput c) [0..<nInputs]))"

definition output_part :: "sighash_ctx \<Rightarrow> bytes" where
  "output_part c = (let nOutputs =
       (if fHashNone c then 0 else if fHashSingle c then sh_nIn c + 1 else length (vout (sh_txTo c)))
     in WriteCompactSize (of_nat nOutputs) @ concat (map (SerializeOutput c) [0..<nOutputs]))"

lemma Serialize_sighash_parts:
  "Serialize_sighash c =
     ser_writedata32 (pack_version (nVersion (sh_txTo c)) (nType (sh_txTo c))) @ input_part c @ output_part c @
     ser_writedata32 (nLockTime (sh_txTo c)) @
     (if has_extra_payload (nVersion (sh_txTo c)) (nType (sh_txTo c))
      then Serialize_bytes (vExtraPayload (sh_txTo c)) else [])"
  unfolding Serialize_sighash_def input_part_def output_part_def Let_def append_assoc by (rule refl)

lemma sighash_ctx_fields [simp]:
  "sh_txTo (CTransactionSignatureSerializer tx sc nIn nHashType) = tx"
  "sh_nIn (CTransactionSignatureSerializer tx sc nIn nHashType) = nIn"
  by (simp_all add: CTransactionSignatureSerializer_def)

lemma sighash_inputs:
  assumes "nIn < length (vin tx)" "parses sc"
    and c: "c = CTransactionSignatureSerializer tx sc nIn nHashType"
  shows "input_part c = Serialize_vector Serialize_CTxIn (vin (SignatureHashOld_tx sc tx nIn nHashType))"
  unfolding Let_def input_part_def
proof (rule Serialize_vector_upt)
  show "length (vin (SignatureHashOld_tx sc tx nIn nHashType)) =
      (if fAnyoneCanPay c then 1 else length (vin (sh_txTo c)))"
    by (auto simp: SignatureHashOld_tx_def c CTransactionSignatureSerializer_def Let_def)
next
  fix i
  assume i: "i < (if fAnyoneCanPay c then 1 else length (vin (sh_txTo c)))"
  have p: "parses (sh_scriptCode c)" using assms(2) by (simp add: c CTransactionSignatureSerializer_def)
  show "SerializeInput c i = Serialize_CTxIn (vin (SignatureHashOld_tx sc tx nIn nHashType) ! i)"
    unfolding SerializeInput_eq [OF p] using i assms(1,2)
    by (auto simp: SignatureHashOld_tx_def c CTransactionSignatureSerializer_def Let_def sighash_input_def
        nth_blank_sequences FindAndDelete_separators SIGHASH_SINGLE_def SIGHASH_NONE_def
        intro!: arg_cong [where f = Serialize_CTxIn])
qed

lemma sighash_outputs:
  assumes "nHashType AND 0x1f = SIGHASH_SINGLE \<Longrightarrow> nIn < length (vout tx)"
    and c: "c = CTransactionSignatureSerializer tx sc nIn nHashType"
  shows "output_part c = Serialize_vector Serialize_CTxOut (vout (SignatureHashOld_tx sc tx nIn nHashType))"
  unfolding Let_def output_part_def
  using assms(1)
  by (intro Serialize_vector_upt)
     (auto simp: SignatureHashOld_tx_def c CTransactionSignatureSerializer_def Let_def SerializeOutput_def
        nth_append SIGHASH_SINGLE_def SIGHASH_NONE_def split: if_splits)

lemma SignatureHashOld_tx_fields [simp]:
  "nVersion (SignatureHashOld_tx sc tx nIn ht) = nVersion tx"
  "nType (SignatureHashOld_tx sc tx nIn ht) = nType tx"
  "nLockTime (SignatureHashOld_tx sc tx nIn ht) = nLockTime tx"
  "vExtraPayload (SignatureHashOld_tx sc tx nIn ht) = vExtraPayload tx"
  by (auto simp: SignatureHashOld_tx_def Let_def)

lemma Serialize_sighash_eq:
  assumes "nIn < length (vin tx)" "nHashType AND 0x1f = SIGHASH_SINGLE \<Longrightarrow> nIn < length (vout tx)" "parses sc"
  shows "Serialize_sighash (CTransactionSignatureSerializer tx sc nIn nHashType) =
    Serialize_CTransaction (SignatureHashOld_tx sc tx nIn nHashType)"
  using sighash_inputs [OF assms(1,3) refl, of nHashType] sighash_outputs [OF assms(2) refl, of nHashType sc]
  by (simp add: Serialize_sighash_parts Serialize_CTransaction_def)

section \<open>What a signature commits to\<close>

definition sighash_all :: "u32 \<Rightarrow> bool" where
  "sighash_all nHashType \<longleftrightarrow> nHashType AND 0x1f \<noteq> SIGHASH_NONE \<and> nHashType AND 0x1f \<noteq> SIGHASH_SINGLE \<and>
     nHashType AND SIGHASH_ANYONECANPAY = 0"

definition tx_signable :: "CTransaction \<Rightarrow> bool" where
  "tx_signable tx \<longleftrightarrow> tx_ok tx \<and> 0 \<le> sint (nVersion tx)"

lemma Serialize_CTransaction_inject:
  assumes "tx_signable a" "tx_signable b" "Serialize_CTransaction a @ r = Serialize_CTransaction b @ q"
  shows "a = b \<and> r = q"
proof -
  have "Unserialize_CTransaction 1 1 (Serialize_CTransaction a @ r) = Inr (a, r)"
    "Unserialize_CTransaction 1 1 (Serialize_CTransaction b @ q) = Inr (b, q)"
    using assms(1,2) by (auto simp: Unserialize_CTransaction_iff_aux tx_signable_def)
  then show ?thesis using assms(3) by simp
qed

lemma strip_length_le: "length (strip_separators pc) \<le> length pc"
proof (induction pc rule: length_induct)
  case (1 pc)
  obtain ok opcode vch pc' where g: "GetOp2 pc = (ok, opcode, vch, pc')" by (cases "GetOp2 pc")
  show ?case
  proof (cases ok)
    case True
    then have len: "length pc' < length pc" using g GetOp2_progress [of pc opcode vch pc'] by simp
    then have "length (strip_separators pc') \<le> length pc'" using 1 by blast
    then show ?thesis using True g len by (subst strip_separators.simps) auto
  next
    case False
    then show ?thesis using g by (subst strip_separators.simps) simp
  qed
qed

lemma SignatureHashOld_tx_all:
  assumes "sighash_all nHashType" "parses sc"
  shows "SignatureHashOld_tx sc tx nIn nHashType =
    tx \<lparr> vin := (map (\<lambda>txin. txin \<lparr> scriptSig := [] \<rparr>) (vin tx))
           [nIn := (map (\<lambda>txin. txin \<lparr> scriptSig := [] \<rparr>) (vin tx) ! nIn) \<lparr> scriptSig := strip_separators sc \<rparr>] \<rparr>"
  using assms by (simp add: SignatureHashOld_tx_def sighash_all_def Let_def FindAndDelete_separators)

lemma SignatureHashOld_tx_signable:
  assumes "sighash_all nHashType" "parses sc" "tx_signable tx" "length sc \<le> MAX_SCRIPT_SIZE"
  shows "tx_signable (SignatureHashOld_tx sc tx nIn nHashType)"
proof -
  have "vec_ok (strip_separators sc)" "vec_ok ([] :: bytes)"
    using strip_length_le [of sc] assms(4) by (auto simp: vec_ok_def MAX_SCRIPT_SIZE_def)
  then show ?thesis
    using assms(3) unfolding SignatureHashOld_tx_all [OF assms(1,2)]
    by (auto simp: tx_signable_def tx_ok_def txin_ok_def vec_ok_def dest!: set_update_subset_insert [THEN subsetD])
qed

lemma map_update_same: "(\<And>x. f (g x) = f x) \<Longrightarrow> map f (xs[i := g (xs ! i)]) = map f xs"
  by (cases "i < length xs") (auto simp: map_update list_update_same_conv list_update_beyond)

lemma sighash_all_commits_aux:
  assumes all: "sighash_all nHashType" and p: "parses sc1" "parses sc2"
    and len: "length sc1 \<le> MAX_SCRIPT_SIZE" "length sc2 \<le> MAX_SCRIPT_SIZE"
    and tx: "tx_signable tx1" "tx_signable tx2" and n: "nIn < length (vin tx1)" "nIn < length (vin tx2)"
    and eq: "Serialize_sighash (CTransactionSignatureSerializer tx1 sc1 nIn nHashType) =
      Serialize_sighash (CTransactionSignatureSerializer tx2 sc2 nIn nHashType)"
  shows "tx1 \<lparr> vin := map (\<lambda>txin. txin \<lparr> scriptSig := [] \<rparr>) (vin tx1) \<rparr> =
      tx2 \<lparr> vin := map (\<lambda>txin. txin \<lparr> scriptSig := [] \<rparr>) (vin tx2) \<rparr> \<and>
    strip_separators sc1 = strip_separators sc2"
proof -
  let ?b = "\<lambda>txin :: CTxIn. txin \<lparr> scriptSig := [] \<rparr>"
  let ?t = "\<lambda>tx sc. SignatureHashOld_tx sc tx nIn nHashType"
  have ns: "nHashType AND 0x1f = SIGHASH_SINGLE \<Longrightarrow> P" for P using all by (simp add: sighash_all_def)
  have "Serialize_CTransaction (?t tx1 sc1) @ [] = Serialize_CTransaction (?t tx2 sc2) @ []"
    using eq Serialize_sighash_eq [OF n(1) ns p(1)] Serialize_sighash_eq [OF n(2) ns p(2)] by simp
  from Serialize_CTransaction_inject [OF _ _ this]
  have t: "?t tx1 sc1 = ?t tx2 sc2"
    using SignatureHashOld_tx_signable [OF all p(1) tx(1) len(1)] SignatureHashOld_tx_signable [OF all p(2) tx(2) len(2)]
    by blast
  have v: "map ?b (vin (?t tx sc)) = map ?b (vin tx)" if "parses sc" for tx sc
    unfolding SignatureHashOld_tx_all [OF all that]
    using map_update_same [of ?b "\<lambda>txin. txin \<lparr> scriptSig := strip_separators sc \<rparr>" "map ?b (vin tx)" nIn]
    by (simp add: comp_def)
  have s: "scriptSig (vin (?t tx sc) ! nIn) = strip_separators sc" if "parses sc" "nIn < length (vin tx)" for tx sc
    using that unfolding SignatureHashOld_tx_all [OF all that(1)] by simp
  have "map ?b (vin tx1) = map ?b (vin tx2)" using v p t by metis
  moreover have "strip_separators sc1 = strip_separators sc2" using s p n t by metis
  moreover have "tx1 \<lparr> vin := xs \<rparr> = tx2 \<lparr> vin := xs \<rparr>" for xs
    using t unfolding SignatureHashOld_tx_all [OF all p(1)] SignatureHashOld_tx_all [OF all p(2)]
    by (cases tx1; cases tx2) simp
  ultimately show ?thesis by simp
qed

section \<open>Properties\<close>

text \<open>
  (C8) The signature hash, computed by serialising the modified transaction on the fly, is the
  one of the reference that builds the modified transaction first, for every hash type, input
  index and transaction and every script that can be read to its end.
\<close>

theorem SignatureHash_eq_Old:
  assumes "snd (instructions sc) = []"
  shows "SignatureHash cr sc tx nIn nHashType = SignatureHashOld cr sc tx nIn nHashType"
  using assms Serialize_sighash_eq [of nIn tx nHashType sc]
  by (auto simp: SignatureHash_def SignatureHashOld_def parses_def not_le)

theorem SignatureHash_eq_Old_witness:
  "SignatureHash example_crypto [OP_1, OP_CODESEPARATOR, OP_CHECKSIG] example_tx 0 SIGHASH_ALL =
   SignatureHashOld example_crypto [OP_1, OP_CODESEPARATOR, OP_CHECKSIG] example_tx 0 SIGHASH_ALL"
  by (rule SignatureHash_eq_Old) (simp add: instructions.simps)

text \<open>
  (C9) A signature with \<open>SIGHASH_ALL\<close> commits to the whole transaction: if two transactions have
  the same bytes to be signed for an input, they agree in everything but the signature scripts
  (version, type, outpoints, sequence numbers, outputs, lock time, payload), and the scripts
  they spend agree up to code separators. Only a collision of the hash function can then
  transfer a signature. The transactions are ones that can be serialised (\<open>tx_ok\<close>) with a version that is not
  negative, and the scripts can be read to their end and have at most 10000 bytes: with version -1 the word
  \<open>nVersion | (nType << 16)\<close> is -1 for every type (\<^verbatim>\<open>transaction.h:259\<close>), so transactions of that version which differ in
  the type only have the same bytes to be signed.
\<close>

theorem sighash_all_commits:
  assumes "sighash_all nHashType" "snd (instructions sc1) = []" "snd (instructions sc2) = []"
    "length sc1 \<le> MAX_SCRIPT_SIZE" "length sc2 \<le> MAX_SCRIPT_SIZE"
    "tx_signable tx1" "tx_signable tx2" "nIn < length (vin tx1)" "nIn < length (vin tx2)"
    "Serialize_sighash (CTransactionSignatureSerializer tx1 sc1 nIn nHashType) =
     Serialize_sighash (CTransactionSignatureSerializer tx2 sc2 nIn nHashType)"
  shows "tx1 \<lparr> vin := map (\<lambda>txin. txin \<lparr> scriptSig := [] \<rparr>) (vin tx1) \<rparr> =
      tx2 \<lparr> vin := map (\<lambda>txin. txin \<lparr> scriptSig := [] \<rparr>) (vin tx2) \<rparr> \<and>
    strip_separators sc1 = strip_separators sc2"
  using assms(1) _ _ assms(4-10) by (rule sighash_all_commits_aux) (use assms(2,3) in \<open>simp_all add: parses_def\<close>)

definition unsigned_tx :: CTransaction where
  "unsigned_tx = example_tx \<lparr> vin := map (\<lambda>txin. txin \<lparr> scriptSig := [OP_CHECKSIG] \<rparr>) (vin example_tx) \<rparr>"

theorem sighash_all_commits_witness:
  "example_tx \<noteq> unsigned_tx \<and>
   example_tx \<lparr> vin := map (\<lambda>txin. txin \<lparr> scriptSig := [] \<rparr>) (vin example_tx) \<rparr> =
     unsigned_tx \<lparr> vin := map (\<lambda>txin. txin \<lparr> scriptSig := [] \<rparr>) (vin unsigned_tx) \<rparr> \<and>
   strip_separators [OP_1, OP_CODESEPARATOR] = strip_separators [OP_1]"
proof
  show "example_tx \<noteq> unsigned_tx" by (simp add: unsigned_tx_def example_tx_def)
  have l: "script_code_loop [OP_1, OP_CODESEPARATOR] [OP_1, OP_CODESEPARATOR] = ([OP_1], [], [])"
    "script_code_loop [OP_1] [OP_1] = ([], [], [OP_1])"
    "Find_loop OP_CODESEPARATOR [OP_1, OP_CODESEPARATOR] = 1" "Find_loop OP_CODESEPARATOR [OP_1] = 0"
    by (simp_all add: script_code_loop.simps Find_loop.simps list_range_def)
  have "SerializeScriptCode [OP_1, OP_CODESEPARATOR] = SerializeScriptCode [OP_1]"
    using l by (simp add: SerializeScriptCode_def list_range_def)
  then have "Serialize_sighash (CTransactionSignatureSerializer example_tx [OP_1, OP_CODESEPARATOR] 0 SIGHASH_ALL) =
      Serialize_sighash (CTransactionSignatureSerializer unsigned_tx [OP_1] 0 SIGHASH_ALL)"
    by (simp add: Serialize_sighash_parts input_part_def output_part_def CTransactionSignatureSerializer_def
        SerializeInput_def SerializeOutput_def SIGHASH_ALL_def SIGHASH_SINGLE_def SIGHASH_NONE_def
        SIGHASH_ANYONECANPAY_def example_tx_def unsigned_tx_def)
  moreover have "tx_signable example_tx" "tx_signable unsigned_tx" "sighash_all SIGHASH_ALL"
      "0 < length (vin example_tx)" "0 < length (vin unsigned_tx)"
    by (simp_all add: tx_signable_def example_tx_def unsigned_tx_def tx_ok_def txin_ok_def txout_ok_def vec_ok_def
        has_extra_payload_def COIN_def sighash_all_def SIGHASH_ALL_def SIGHASH_SINGLE_def SIGHASH_NONE_def
        SIGHASH_ANYONECANPAY_def)
  moreover have "snd (instructions [OP_1, OP_CODESEPARATOR]) = []" "snd (instructions [OP_1]) = []"
    by (simp_all add: instructions.simps)
  ultimately show "example_tx \<lparr> vin := map (\<lambda>txin. txin \<lparr> scriptSig := [] \<rparr>) (vin example_tx) \<rparr> =
      unsigned_tx \<lparr> vin := map (\<lambda>txin. txin \<lparr> scriptSig := [] \<rparr>) (vin unsigned_tx) \<rparr> \<and>
    strip_separators [OP_1, OP_CODESEPARATOR] = strip_separators [OP_1]"
    by (intro sighash_all_commits [of SIGHASH_ALL _ _ _ _ 0]) (simp_all add: MAX_SCRIPT_SIZE_def)
qed

end
