(* ===== verification/Standard.thy ===== *)
theory Standard
  imports Script_Exec Script_Multisig Sighash
begin

unbundle bit_operations_syntax

text \<open>
  Standard scripts, \<^verbatim>\<open>script/standard.cpp\<close>: the templates recognised by \<open>Solver\<close>, destinations and
  the scripts that pay to them; and what it takes to spend a standard output, as theorems about
  \<open>VerifyScript\<close>.
\<close>

section \<open>Solver\<close>

datatype txnouttype =
  TX_NONSTANDARD | TX_PUBKEY | TX_PUBKEYHASH | TX_SCRIPTHASH | TX_MULTISIG | TX_NULL_DATA

text \<open>The 160-bit identifiers are byte vectors of length 20.\<close>

datatype CTxDestination = CNoDestination | CKeyID valtype | CScriptID valtype

definition mTemplates :: "(txnouttype \<times> CScript) list" where
  "mTemplates =
     [(TX_PUBKEY, [OP_PUBKEY, OP_CHECKSIG]),
      (TX_PUBKEYHASH, [OP_DUP, OP_HASH160, OP_PUBKEYHASH, OP_EQUALVERIFY, OP_CHECKSIG]),
      (TX_MULTISIG, [OP_SMALLINTEGER, OP_PUBKEYS, OP_SMALLINTEGER, OP_CHECKMULTISIG])]"

text \<open>The loop that collects public keys; it returns the reader's state and the solutions.\<close>

function solver_pubkeys ::
    "CScript \<Rightarrow> opcodetype \<Rightarrow> valtype \<Rightarrow> valtype list \<Rightarrow> CScript \<times> opcodetype \<times> valtype \<times> valtype list" where
  "solver_pubkeys pc1 opcode1 vch1 vSolutions =
     (if length vch1 \<ge> 33 \<and> length vch1 \<le> 65 then
        (let vSolutions = vSolutions @ [vch1];
             (ok, opcode1, vch1, pc1) = GetOp2 pc1
         in if ok then solver_pubkeys pc1 opcode1 vch1 vSolutions else (pc1, opcode1, vch1, vSolutions))
      else (pc1, opcode1, vch1, vSolutions))"
  by pat_completeness auto
termination
  by (relation "measure (\<lambda>(pc, o1, v, s). length pc)") (auto dest!: GetOp2_progress [OF sym])

declare solver_pubkeys.simps [simp del]

text \<open>The two reads of a round and the collection of keys; \<open>None\<close> is a \<^verbatim>\<open>break\<close>.\<close>

definition solver_read ::
    "CScript \<Rightarrow> CScript \<Rightarrow> valtype list \<Rightarrow>
     (CScript \<times> opcodetype \<times> valtype \<times> CScript \<times> opcodetype \<times> valtype \<times> valtype list) option" where
  "solver_read pc1 pc2 vSolutions =
     (case GetOp2 pc1 of (ok1, opcode1, vch1, pc1) \<Rightarrow>
      if \<not> ok1 then None else
      case GetOp2 pc2 of (ok2, opcode2, vch2, pc2) \<Rightarrow>
      if \<not> ok2 then None else
      if opcode2 = OP_PUBKEYS then
        (case solver_pubkeys pc1 opcode1 vch1 vSolutions of (pc1, opcode1, vch1, vSolutions) \<Rightarrow>
         case GetOp2 pc2 of (ok2, opcode2, vch2, pc2) \<Rightarrow>
         if \<not> ok2 then None else Some (pc1, opcode1, vch1, pc2, opcode2, vch2, vSolutions))
      else Some (pc1, opcode1, vch1, pc2, opcode2, vch2, vSolutions))"

lemma solver_read_progress:
  "solver_read pc1 pc2 s = Some (pc1', o1, v1, pc2', o2, v2, s') \<Longrightarrow> length pc2' < length pc2"
  unfolding solver_read_def
  by (auto split: prod.splits if_splits dest!: GetOp2_progress)

text \<open>The comparison of a script with a template; \<open>None\<close> is the \<^verbatim>\<open>break\<close> out of the loop.\<close>

function solver_match :: "CScript \<Rightarrow> CScript \<Rightarrow> valtype list \<Rightarrow> valtype list option" where
  "solver_match pc1 pc2 vSolutions =
     (if pc1 = [] \<and> pc2 = [] then Some vSolutions else
      case solver_read pc1 pc2 vSolutions of
        None \<Rightarrow> None
      | Some (pc1, opcode1, vch1, pc2, opcode2, vch2, vSolutions) \<Rightarrow>
          if opcode2 = OP_PUBKEY then
            (if length vch1 < 33 \<or> length vch1 > 65 then None
             else solver_match pc1 pc2 (vSolutions @ [vch1]))
          else if opcode2 = OP_PUBKEYHASH then
            (if length vch1 \<noteq> 20 then None else solver_match pc1 pc2 (vSolutions @ [vch1]))
          else if opcode2 = OP_SMALLINTEGER then
            (if opcode1 = OP_0 \<or> (opcode1 \<ge> OP_1 \<and> opcode1 \<le> OP_16)
             then solver_match pc1 pc2 (vSolutions @ [[of_nat (DecodeOP_N opcode1)]])
             else None)
          else if opcode1 \<noteq> opcode2 \<or> vch1 \<noteq> vch2 then None
          else solver_match pc1 pc2 vSolutions)"
  by pat_completeness auto
termination
  by (relation "measure (\<lambda>(pc1, pc2, s). length pc2)") (auto dest: solver_read_progress)

declare solver_match.simps [simp del]

text \<open>The loop over the templates; the result is the return value, the type and the solutions.\<close>

fun solver_templates :: "CScript \<Rightarrow> (txnouttype \<times> CScript) list \<Rightarrow> bool \<times> txnouttype \<times> valtype list" where
  "solver_templates script1 [] = (False, TX_NONSTANDARD, [])"
| "solver_templates script1 ((type, script2) # tplates) =
     (case solver_match script1 script2 [] of
        None \<Rightarrow> solver_templates script1 tplates
      | Some vSolutions \<Rightarrow>
          if type = TX_MULTISIG then
            (let m = hd vSolutions ! 0; n = last vSolutions ! 0
             in if m < 1 \<or> n < 1 \<or> m > n \<or> length vSolutions - 2 \<noteq> unat n
                then (False, type, vSolutions) else (True, type, vSolutions))
          else (True, type, vSolutions))"

definition Solver :: "CScript \<Rightarrow> bool \<times> txnouttype \<times> valtype list" where
  "Solver script =
     (if IsPayToScriptHash script then (True, TX_SCRIPTHASH, [take 20 (drop 2 script)])
      else if length script \<ge> 1 \<and> script ! 0 = OP_RETURN \<and> IsPushOnly (drop 1 script)
        then (True, TX_NULL_DATA, [])
      else solver_templates script mTemplates)"

section \<open>Destinations\<close>

text \<open>\<open>hash160_fn\<close> gives the identifier of a public key (\<^verbatim>\<open>CPubKey::GetID\<close>).\<close>

definition ExtractDestination :: "crypto_fns \<Rightarrow> CScript \<Rightarrow> CTxDestination option" where
  "ExtractDestination cr script =
     (case Solver script of
        (False, _, _) \<Rightarrow> None
      | (True, whichType, vSolutions) \<Rightarrow>
          if whichType = TX_PUBKEY then
            (if CPubKey_IsValid (vSolutions ! 0) then Some (CKeyID (hash160_fn cr (vSolutions ! 0))) else None)
          else if whichType = TX_PUBKEYHASH then Some (CKeyID (vSolutions ! 0))
          else if whichType = TX_SCRIPTHASH then Some (CScriptID (vSolutions ! 0))
          else None)"

text \<open>The result holds the return value, \<open>typeRet\<close>, \<open>addressRet\<close> and, when set, \<open>nRequiredRet\<close>.\<close>

definition ExtractDestinations ::
    "crypto_fns \<Rightarrow> CScript \<Rightarrow> bool \<times> txnouttype \<times> CTxDestination list \<times> nat option" where
  "ExtractDestinations cr script =
     (case Solver script of
        (False, type, _) \<Rightarrow> (False, type, [], None)
      | (True, type, vSolutions) \<Rightarrow>
          if type = TX_NULL_DATA then (False, type, [], None)
          else if type = TX_MULTISIG then
            (let nRequired = unat (hd vSolutions ! 0);
                 addresses = map (\<lambda>k. CKeyID (hash160_fn cr k)) (filter CPubKey_IsValid (butlast (tl vSolutions)))
             in (addresses \<noteq> [], type, addresses, Some nRequired))
          else
            (case ExtractDestination cr script of
               None \<Rightarrow> (False, type, [], Some 1)
             | Some address \<Rightarrow> (True, type, [address], Some 1)))"

fun GetScriptForDestination :: "CTxDestination \<Rightarrow> CScript" where
  "GetScriptForDestination CNoDestination = []"
| "GetScriptForDestination (CKeyID keyID) =
     push_opcode (push_opcode (push_data (push_opcode (push_opcode [] OP_DUP) OP_HASH160) keyID) OP_EQUALVERIFY)
       OP_CHECKSIG"
| "GetScriptForDestination (CScriptID scriptID) =
     push_opcode (push_data (push_opcode [] OP_HASH160) scriptID) OP_EQUAL"

definition GetScriptForRawPubKey :: "valtype \<Rightarrow> CScript" where
  "GetScriptForRawPubKey pubKey = push_opcode (push_data [] pubKey) OP_CHECKSIG"

definition GetScriptForMultisig :: "nat \<Rightarrow> valtype list \<Rightarrow> CScript" where
  "GetScriptForMultisig nRequired keys =
     push_opcode (push_opcode (foldl push_data (push_opcode [] (EncodeOP_N nRequired)) keys)
       (EncodeOP_N (length keys))) OP_CHECKMULTISIG"

section \<open>Scripts and destinations\<close>

lemma push_data_append: "push_data s b = s @ push_data [] b"
  by (simp add: push_data_def)

lemma push_data_20: "length h = 20 \<Longrightarrow> push_data s h = s @ 0x14 # h"
  by (simp add: push_data_def)

lemma GetOp2_20: "length h = 20 \<Longrightarrow> GetOp2 (0x14 # h @ r) = (True, 0x14, h, r)"
  by (simp add: getop_operand_def)

lemma GetScript_CKeyID:
  "length h = 20 \<Longrightarrow>
   GetScriptForDestination (CKeyID h) = OP_DUP # OP_HASH160 # 0x14 # h @ [OP_EQUALVERIFY, OP_CHECKSIG]"
  by (simp add: push_opcode_def push_data_20)

lemma GetScript_CScriptID:
  "length h = 20 \<Longrightarrow> GetScriptForDestination (CScriptID h) = OP_HASH160 # 0x14 # h @ [OP_EQUAL]"
  by (simp add: push_opcode_def push_data_20)

declare GetScriptForDestination.simps [simp del]

lemma IsPayToScriptHash_CScriptID:
  "length h = 20 \<Longrightarrow> IsPayToScriptHash (OP_HASH160 # 0x14 # h @ [OP_EQUAL])"
  by (simp add: IsPayToScriptHash_def nth_append)

lemma solver_match_read:
  assumes "pc1 \<noteq> []" "GetOp2 pc1 = (True, o1, v1, pc1')" "o2 > OP_PUSHDATA4" "o2 \<noteq> OP_PUBKEYS"
  shows "solver_match pc1 (o2 # pc2) s =
    (if o2 = OP_PUBKEY then (if length v1 < 33 \<or> length v1 > 65 then None else solver_match pc1' pc2 (s @ [v1]))
     else if o2 = OP_PUBKEYHASH then (if length v1 \<noteq> 20 then None else solver_match pc1' pc2 (s @ [v1]))
     else if o2 = OP_SMALLINTEGER then
       (if o1 = OP_0 \<or> (o1 \<ge> OP_1 \<and> o1 \<le> OP_16) then solver_match pc1' pc2 (s @ [[of_nat (DecodeOP_N o1)]]) else None)
     else if o1 \<noteq> o2 \<or> v1 \<noteq> [] then None else solver_match pc1' pc2 s)"
  using assms GetOp2_single [OF assms(3)]
  by (subst solver_match.simps) (simp add: solver_read_def del: GetOp2.simps)

lemma solver_match_Nil [simp]: "solver_match [] [] s = Some s"
  by (simp add: solver_match.simps)

lemma Solver_P2PKH:
  assumes "length h = 20"
  shows "Solver (GetScriptForDestination (CKeyID h)) = (True, TX_PUBKEYHASH, [h])"
proof -
  note g = GetOp2_single [of OP_DUP] GetOp2_single [of OP_HASH160] GetOp2_single [of OP_EQUALVERIFY]
    GetOp2_single [of OP_CHECKSIG] GetOp2_20 [OF assms]
  show ?thesis unfolding GetScript_CKeyID [OF assms]
    by (simp add: Solver_def IsPayToScriptHash_def assms mTemplates_def solver_match_read g del: GetOp2.simps)
qed

lemma Solver_P2SH:
  assumes "length h = 20"
  shows "Solver (GetScriptForDestination (CScriptID h)) = (True, TX_SCRIPTHASH, [h])"
  using assms by (simp add: GetScript_CScriptID Solver_def IsPayToScriptHash_CScriptID)

section \<open>Executing standard scripts\<close>

lemma stack_case_special:
  "stack_case cr checker fl m opcode sc = Some f \<Longrightarrow>
   opcode \<notin> {OP_IF, OP_NOTIF, OP_ELSE, OP_ENDIF, OP_TOALTSTACK, OP_FROMALTSTACK, OP_CODESEPARATOR,
     OP_CHECKMULTISIG, OP_CHECKMULTISIGVERIFY}"
  by (auto simp: stack_case_def)

lemma exec_push:
  assumes "vfExec st = []" "opcode \<le> OP_PUSHDATA4" "length v \<le> MAX_SCRIPT_ELEMENT_SIZE"
    "fl AND SCRIPT_VERIFY_MINIMALDATA = 0 \<or> CheckMinimalPush v opcode"
  shows "exec_instruction cr checker fl opcode v pc st =
    (if length (stk st) + length (altstk st) \<ge> 1000 then Inl SCRIPT_ERR_STACK_SIZE
     else Inr (st \<lparr> stk := v # stk st \<rparr>))"
proof -
  have "\<not> opcode > OP_16" "\<not> disabled_opcode opcode"
    using assms(2) by (auto simp: disabled_opcode_def word_le_nat_alt word_less_nat_alt)
  then show ?thesis using assms by (auto simp: exec_instruction_def fExec_def Let_def)
qed

lemma exec_op:
  assumes "vfExec st = []" "opcode > OP_16" "\<not> disabled_opcode opcode" "nOpCount st < MAX_OPS_PER_SCRIPT"
    "stack_case cr checker fl (fl AND SCRIPT_VERIFY_MINIMALDATA \<noteq> 0) opcode (pbegincodehash st) = Some f"
  shows "exec_instruction cr checker fl opcode [] pc st =
    (case f (stk st) of
       Inl err \<Rightarrow> Inl err
     | Inr s \<Rightarrow> if length s + length (altstk st) > 1000 then Inl SCRIPT_ERR_STACK_SIZE
               else Inr (st \<lparr> nOpCount := nOpCount st + 1, stk := s \<rparr>))"
proof -
  have "\<not> opcode \<le> OP_PUSHDATA4" using assms(2) by (auto simp: word_le_nat_alt word_less_nat_alt)
  then show ?thesis using assms stack_case_special [OF assms(5)]
    by (auto simp: exec_instruction_def exec_opcode_def fExec_def Let_def MAX_SCRIPT_ELEMENT_SIZE_def split: sum.split)
qed

lemma stack_case_ops:
  "stack_case cr checker fl m OP_DUP sc = Some op_dup"
  "stack_case cr checker fl m OP_HASH160 sc = Some (op_hashing cr OP_HASH160)"
  "stack_case cr checker fl m OP_EQUAL sc = Some (op_equal OP_EQUAL)"
  "stack_case cr checker fl m OP_EQUALVERIFY sc = Some (op_equal OP_EQUALVERIFY)"
  "stack_case cr checker fl m OP_CHECKSIG sc = Some (op_checksig cr checker fl OP_CHECKSIG sc)"
  "stack_case cr checker fl m OP_RETURN sc = Some (\<lambda>s. Inl SCRIPT_ERR_OP_RETURN)"
  by (simp_all add: stack_case_def)

lemma CheckMinimalPush_20: "length h = 20 \<Longrightarrow> CheckMinimalPush h 0x14"
  by (simp add: CheckMinimalPush_def)

lemma EvalScript_loop_push20:
  assumes "length h = 20" "vfExec st = []"
  shows "EvalScript_loop cr checker fl (0x14 # h @ pc) st =
    (if length (stk st) + length (altstk st) \<ge> 1000 then Inl SCRIPT_ERR_STACK_SIZE
     else EvalScript_loop cr checker fl pc (st \<lparr> stk := h # stk st \<rparr>))"
  using EvalScript_loop_step [OF GetOp2_20 [OF assms(1)]] assms
    exec_push [of st "0x14" h fl cr checker pc] CheckMinimalPush_20 [OF assms(1)]
  by (simp add: MAX_SCRIPT_ELEMENT_SIZE_def)

lemma EvalScript_loop_op:
  assumes "vfExec st = []" "opcode > OP_16" "\<not> disabled_opcode opcode" "nOpCount st < MAX_OPS_PER_SCRIPT"
    "stack_case cr checker fl (fl AND SCRIPT_VERIFY_MINIMALDATA \<noteq> 0) opcode (pbegincodehash st) = Some f"
  shows "EvalScript_loop cr checker fl (opcode # pc) st =
    (case f (stk st) of
       Inl err \<Rightarrow> Inl err
     | Inr s \<Rightarrow> if length s + length (altstk st) > 1000 then Inl SCRIPT_ERR_STACK_SIZE
               else EvalScript_loop cr checker fl pc (st \<lparr> nOpCount := nOpCount st + 1, stk := s \<rparr>))"
proof -
  have "opcode > OP_PUSHDATA4" using assms(2) by (auto simp: word_le_nat_alt word_less_nat_alt)
  from EvalScript_loop_step [OF GetOp2_single [OF this]] exec_op [OF assms] show ?thesis
    by (simp split: sum.split)
qed

lemmas eval_ops = EvalScript_loop_op [OF _ _ _ _ stack_case_ops(1)] EvalScript_loop_op [OF _ _ _ _ stack_case_ops(2)]
  EvalScript_loop_op [OF _ _ _ _ stack_case_ops(3)] EvalScript_loop_op [OF _ _ _ _ stack_case_ops(4)]
  EvalScript_loop_op [OF _ _ _ _ stack_case_ops(5)]

lemma EvalScript_P2SH:
  assumes "length h = 20"
  shows "EvalScript cr checker fl (redeem # s) (GetScriptForDestination (CScriptID h)) =
    (if length s \<ge> 999 then Inl SCRIPT_ERR_STACK_SIZE else Inr (bool_vch (hash160_fn cr redeem = h) # s))"
  unfolding GetScript_CScriptID [OF assms]
  by (simp add: EvalScript_def assms MAX_SCRIPT_SIZE_def eval_ops exec_init_def disabled_opcode_def
      MAX_OPS_PER_SCRIPT_def EvalScript_loop_push20 Let_def)

lemma EvalScript_P2PKH:
  assumes "length h = 20"
  defines "script \<equiv> GetScriptForDestination (CKeyID h)"
  shows "EvalScript cr checker fl [pk, sig] script =
    (if hash160_fn cr pk = h then op_checksig cr checker fl OP_CHECKSIG script [pk, sig]
     else Inl SCRIPT_ERR_EQUALVERIFY)"
proof -
  have len: "length s' \<le> 1" if "op_checksig cr checker fl OP_CHECKSIG script [pk, sig] = Inr s'" for s'
    using that by (auto simp: Let_def split: option.splits if_splits)
  show ?thesis
    using len unfolding script_def GetScript_CKeyID [OF assms(1)]
    by (auto simp: EvalScript_def assms(1) MAX_SCRIPT_SIZE_def eval_ops exec_init_def disabled_opcode_def
        MAX_OPS_PER_SCRIPT_def EvalScript_loop_push20 Let_def simp del: op_checksig.simps split: sum.split dest!: len)
qed

lemma CheckMinimalPush_push:
  assumes "2 \<le> length v" "length v \<le> 520"
  shows "CheckMinimalPush v (push_opcode_of v)"
  using assms by (auto simp: CheckMinimalPush_def push_opcode_of_def unat_of_nat)

lemma EvalScript_loop_push:
  assumes "2 \<le> length v" "length v \<le> 520" "vfExec st = []" "length (stk st) + length (altstk st) < 1000"
  shows "EvalScript_loop cr checker fl (push_data [] v @ pc) st =
    EvalScript_loop cr checker fl pc (st \<lparr> stk := v # stk st \<rparr>)"
  using EvalScript_loop_step [OF GetOp2_push_data_aux [of v pc]] assms push_opcode_of_le
    exec_push [of st "push_opcode_of v" v fl cr checker pc] CheckMinimalPush_push [OF assms(1,2)]
  by (simp add: MAX_SCRIPT_ELEMENT_SIZE_def)

lemma length_push_data: "length (push_data [] v) \<le> length v + 5"
  by (simp add: push_data_def WriteLE16_def WriteLE32_def)

lemma EvalScript_two_pushes:
  assumes "2 \<le> length a" "length a \<le> 520" "2 \<le> length b" "length b \<le> 520"
  shows "EvalScript cr checker fl [] (push_data [] a @ push_data [] b) = Inr [b, a]"
proof -
  have "length (push_data [] a @ push_data [] b) \<le> MAX_SCRIPT_SIZE"
    using length_push_data [of a] length_push_data [of b] assms by (simp add: MAX_SCRIPT_SIZE_def)
  then show ?thesis
    using EvalScript_loop_push [of a _ cr checker fl "push_data [] b"] EvalScript_loop_push [of b _ cr checker fl "[]"] assms
    by (simp add: EvalScript_def exec_init_def)
qed

lemma IsPushOnly_push:
  assumes "length v < 2 ^ 32"
  shows "IsPushOnly (push_data [] v @ pc) \<longleftrightarrow> IsPushOnly pc"
proof -
  have "\<not> OP_16 < push_opcode_of v" unfolding not_less by (rule order_trans [OF push_opcode_of_le]) simp
  then show ?thesis
    using GetOp2_push_data_aux [OF assms, of pc] by (subst IsPushOnly.simps) simp
qed

lemma IsPushOnly_Nil [simp]: "IsPushOnly []"
  by (subst IsPushOnly.simps) simp

text \<open>Nothing is deleted when no instruction of the script starts with the first byte of the pattern.\<close>

lemma fad_skip_no_match: "b \<noteq> [] \<Longrightarrow> pc = [] \<or> hd pc \<noteq> hd b \<Longrightarrow> fad_skip b pc n = (pc, n)"
  by (subst fad_skip.simps) (cases b; cases pc; auto)

lemma fad_loop_no_match:
  assumes "b \<noteq> []" "pc = [] \<or> hd pc \<noteq> hd b" "hd b \<notin> fst ` set (fst (instructions pc))"
    "list_all (\<lambda>opcode. opcode \<noteq> hd b) (take 1 (snd (instructions pc)))"
  shows "snd (snd (fad_loop b res pc2 pc n)) = n"
  using assms
proof (induction pc arbitrary: res pc2 rule: length_induct)
  case (1 pc)
  obtain ok opcode vch pc' where g: "GetOp2 pc = (ok, opcode, vch, pc')" by (cases "GetOp2 pc")
  note sk = fad_skip_no_match [OF "1.prems"(1,2), of n]
  show ?case
  proof (cases ok)
    case True
    then have g: "GetOp2 pc = (True, opcode, vch, pc')" using g by simp
    have "pc' = [] \<or> hd pc' \<noteq> hd b"
    proof (cases pc')
      case (Cons x xs)
      obtain ok2 opcode2 vch2 pc2' where g2: "GetOp2 pc' = (ok2, opcode2, vch2, pc2')" by (cases "GetOp2 pc'")
      show ?thesis
      proof (cases ok2)
        case True
        then have "opcode2 = x" using g2 unfolding Cons by (auto simp: getop_operand_def split: if_splits)
        then show ?thesis using "1.prems"(3) instructions_ok [OF g] instructions_ok [of pc' opcode2 vch2 pc2'] g2 True Cons
          by auto
      next
        case False
        then show ?thesis using "1.prems"(4) instructions_ok [OF g] instructions_fail [of pc' opcode2 vch2 pc2'] g2 Cons
          by auto
      qed
    qed simp
    then have "snd (snd (fad_loop b (res @ list_range pc2 pc) pc pc' n)) = n"
      using "1.IH" "1.prems" instructions_ok [OF g] GetOp2_progress [OF g] by auto
    then show ?thesis using g sk by (subst fad_loop.simps) (simp add: Let_def)
  next
    case False
    then show ?thesis using g sk by (subst fad_loop.simps) (simp add: Let_def)
  qed
qed

lemma FindAndDelete_no_match:
  assumes "b \<noteq> []" "s \<noteq> []" "snd (instructions s) = []" "hd b \<notin> fst ` set (fst (instructions s))" "hd s \<noteq> hd b"
  shows "FindAndDelete s b = (s, 0)"
  using fad_loop_no_match [of b s "[]" s 0] assms
  by (auto simp: FindAndDelete_def split: prod.splits)

lemma instructions_P2PKH:
  assumes "length h = 20"
  shows "instructions (GetScriptForDestination (CKeyID h)) =
    ([(OP_DUP, []), (OP_HASH160, []), (0x14, h), (OP_EQUALVERIFY, []), (OP_CHECKSIG, [])], [])"
proof -
  note g = GetOp2_single [of OP_DUP] GetOp2_single [of OP_HASH160] GetOp2_single [of OP_EQUALVERIFY]
    GetOp2_single [of OP_CHECKSIG] GetOp2_20 [OF assms]
  show ?thesis unfolding GetScript_CKeyID [OF assms]
    by (simp add: instructions_ok [OF g(1)] instructions_ok [OF g(2)] instructions_ok [OF g(3)]
        instructions_ok [OF g(4)] instructions_ok [OF g(5)])
qed

lemma hd_push_data: "hd (push_data [] v) = push_opcode_of v"
  by (simp add: push_data_def push_opcode_of_def)

lemma FindAndDelete_P2PKH:
  assumes "length h = 20" "length sig \<noteq> 20"
  shows "FindAndDelete (GetScriptForDestination (CKeyID h)) (push_data [] sig) =
    (GetScriptForDestination (CKeyID h), 0)"
proof (rule FindAndDelete_no_match)
  have "push_opcode_of sig \<noteq> 0x14"
  proof (cases "length sig < 76")
    case True
    then have "unat (push_opcode_of sig) = length sig" by (simp add: push_opcode_of_def unat_of_nat)
    then show ?thesis using assms(2) by auto
  qed (auto simp: push_opcode_of_def)
  moreover have "push_opcode_of sig \<le> 0x4e" by (rule push_opcode_of_le)
  ultimately show "hd (push_data [] sig) \<notin> fst ` set (fst (instructions (GetScriptForDestination (CKeyID h))))"
    and "hd (GetScriptForDestination (CKeyID h)) \<noteq> hd (push_data [] sig)"
    unfolding instructions_P2PKH [OF assms(1)] hd_push_data by (auto simp: GetScript_CKeyID assms(1))
qed (use instructions_P2PKH [OF assms(1)] in \<open>auto simp: GetScript_CKeyID assms(1)\<close>)

lemma VerifyScript_no_P2SH:
  assumes "\<not> IsPayToScriptHash pk" "IsPushOnly sg" "fl AND SCRIPT_VERIFY_CLEANSTACK \<noteq> 0 \<longrightarrow> fl AND SCRIPT_VERIFY_P2SH \<noteq> 0"
  shows "VerifyScript cr checker fl sg pk = VerifyOK \<longleftrightarrow>
    (\<exists>s0 x s. EvalScript cr checker fl [] sg = Inr s0 \<and> EvalScript cr checker fl s0 pk = Inr (x # s) \<and>
      CastToBool x \<and> (fl AND SCRIPT_VERIFY_CLEANSTACK \<noteq> 0 \<longrightarrow> s = []))"
  using assms by (auto simp: VerifyScript_def Let_def neq_Nil_conv split: sum.splits)

lemma CastToBool_bool_vch [simp]: "CastToBool (bool_vch b) = b"
  by (simp add: bool_vch_def vchTrue_def vchFalse_def)

lemma P2PKH_spend_aux:
  assumes "length h = 20" "2 \<le> length sig" "length sig \<le> 520" "length sig \<noteq> 20" "2 \<le> length pk" "length pk \<le> 520"
    "fl AND SCRIPT_VERIFY_CLEANSTACK \<noteq> 0 \<longrightarrow> fl AND SCRIPT_VERIFY_P2SH \<noteq> 0"
  shows "VerifyScript cr checker fl (push_data [] sig @ push_data [] pk) (GetScriptForDestination (CKeyID h)) = VerifyOK \<longleftrightarrow>
    hash160_fn cr pk = h \<and> CheckSignatureEncoding cr sig fl = None \<and> CheckPubKeyEncoding pk fl = None \<and>
    CheckSig checker sig pk (GetScriptForDestination (CKeyID h))"
proof -
  have np: "\<not> IsPayToScriptHash (GetScriptForDestination (CKeyID h))"
    by (simp add: IsPayToScriptHash_def GetScript_CKeyID assms(1))
  have po: "IsPushOnly (push_data [] sig @ push_data [] pk)"
    using assms IsPushOnly_push [of sig "push_data [] pk"] IsPushOnly_push [of pk "[]"] by simp
  show ?thesis
    unfolding VerifyScript_no_P2SH [OF np po assms(7)]
    using assms FindAndDelete_P2PKH [OF assms(1,4)]
    by (auto simp: EvalScript_two_pushes EvalScript_P2PKH Let_def 
        split: option.splits if_splits)
qed

lemma IsPayToScriptHash_dest:
  assumes "IsPayToScriptHash pk"
  obtains h where "pk = GetScriptForDestination (CScriptID h)" "length h = 20"
  using IsPayToScriptHash_split [OF assms] GetScript_CScriptID by (metis append_Cons append_Nil)

lemma P2SH_spend_aux:
  assumes "length h = 20" "fl AND SCRIPT_VERIFY_P2SH \<noteq> 0"
  shows "VerifyScript cr checker fl sg (GetScriptForDestination (CScriptID h)) = VerifyOK \<longleftrightarrow>
    IsPushOnly sg \<and>
    (\<exists>redeem s x t. EvalScript cr checker fl [] sg = Inr (redeem # s) \<and> length s < 999 \<and> hash160_fn cr redeem = h \<and>
      EvalScript cr checker fl s redeem = Inr (x # t) \<and> CastToBool x \<and>
      (fl AND SCRIPT_VERIFY_CLEANSTACK \<noteq> 0 \<longrightarrow> t = []))" (is "?l \<longleftrightarrow> ?r")
proof -
  have p: "IsPayToScriptHash (GetScriptForDestination (CScriptID h))"
    by (simp add: GetScript_CScriptID assms(1) IsPayToScriptHash_CScriptID)
  note e = P2SH_empty_stack [OF p, of cr checker fl] EvalScript_P2SH [OF assms(1), of cr checker fl]
  show ?thesis
    using assms(2) p unfolding VerifyScript_def
    by (cases "EvalScript cr checker fl [] sg"; cases "projr (EvalScript cr checker fl [] sg)")
       (auto simp: e Let_def neq_Nil_conv  split: sum.splits if_splits)
qed

section \<open>Multisignature scripts\<close>

lemma foldl_push_data: "foldl push_data s keys = s @ pushes keys"
proof (induction keys arbitrary: s)
  case (Cons k keys)
  then show ?case using push_data_append [of s k] by simp
qed simp

definition keys_ok :: "valtype list \<Rightarrow> bool" where
  "keys_ok keys \<longleftrightarrow> list_all (\<lambda>k. 33 \<le> length k \<and> length k \<le> 65) keys"

lemma solver_pubkeys_pushes:
  assumes "33 \<le> length k" "length k \<le> 65" "keys_ok ks" "GetOp2 rest = (True, o1, [], pc')"
  shows "solver_pubkeys (pushes ks @ rest) o0 k s = (pc', o1, [], s @ k # ks)"
  using assms
proof (induction ks arbitrary: o0 k s)
  case Nil
  then show ?case
    by (subst solver_pubkeys.simps) (simp add: solver_pubkeys.simps [of pc'])
next
  case (Cons x xs)
  have "keys_ok xs" "33 \<le> length x" "length x \<le> 65" using Cons.prems(3) by (auto simp: keys_ok_def)
  from Cons.IH [OF this(2,3,1) Cons.prems(4)] this Cons.prems(1,2)
  show ?case using GetOp2_push_data_aux [of x "pushes xs @ rest"]
    by (subst solver_pubkeys.simps) simp
qed

lemma EncodeOP_N_range:
  assumes "1 \<le> n" "n \<le> 16"
  shows "EncodeOP_N n > OP_PUSHDATA4" "EncodeOP_N n \<ge> OP_1" "EncodeOP_N n \<le> OP_16"
    "DecodeOP_N (EncodeOP_N n) = n" "EncodeOP_N n \<noteq> OP_0"
proof -
  have "EncodeOP_N n = of_nat (0x50 + n)" using assms by (simp add: EncodeOP_N_def)
  then have u: "unat (EncodeOP_N n) = 0x50 + n" using assms unat_of_nat_small [of "0x50 + n", where 'a = 8] by simp
  then show "EncodeOP_N n > OP_PUSHDATA4" "EncodeOP_N n \<ge> OP_1" "EncodeOP_N n \<le> OP_16" "EncodeOP_N n \<noteq> OP_0"
    using assms by (auto simp: word_le_nat_alt word_less_nat_alt)
  then show "DecodeOP_N (EncodeOP_N n) = n" using u by (simp add: DecodeOP_N_def)
qed

lemma solver_match_multisig:
  assumes m: "1 \<le> m" "m \<le> 16" and n: "1 \<le> n" "n \<le> 16" and k: "keys_ok keys" "keys \<noteq> []"
  shows "solver_match (EncodeOP_N m # pushes keys @ [EncodeOP_N n, OP_CHECKMULTISIG])
      [OP_SMALLINTEGER, OP_PUBKEYS, OP_SMALLINTEGER, OP_CHECKMULTISIG] [] =
    Some ([[of_nat m]] @ keys @ [[of_nat n]])"
proof -
  obtain x xs where x: "keys = x # xs" "33 \<le> length x" "length x \<le> 65" "keys_ok xs"
    using k by (cases keys) (auto simp: keys_ok_def)
  note M = EncodeOP_N_range [OF m] and N = EncodeOP_N_range [OF n]
  have "solver_match (EncodeOP_N m # pushes keys @ [EncodeOP_N n, OP_CHECKMULTISIG])
      [OP_SMALLINTEGER, OP_PUBKEYS, OP_SMALLINTEGER, OP_CHECKMULTISIG] [] =
    solver_match (pushes keys @ [EncodeOP_N n, OP_CHECKMULTISIG]) [OP_PUBKEYS, OP_SMALLINTEGER, OP_CHECKMULTISIG]
      [[of_nat m]]"
    using M by (simp add: solver_match_read [OF _ GetOp2_single [OF M(1)]])
  also have "solver_read (pushes keys @ [EncodeOP_N n, OP_CHECKMULTISIG]) [OP_PUBKEYS, OP_SMALLINTEGER, OP_CHECKMULTISIG]
      [[of_nat m]] = Some ([OP_CHECKMULTISIG], EncodeOP_N n, [], [OP_CHECKMULTISIG], OP_SMALLINTEGER, [], [of_nat m] # keys)"
    using x GetOp2_push_data_aux [of x "pushes xs @ [EncodeOP_N n, OP_CHECKMULTISIG]"]
      solver_pubkeys_pushes [OF x(2,3,4) GetOp2_single [OF N(1), of "[OP_CHECKMULTISIG]"]]
    by (simp add: solver_read_def)
  then have "solver_match (pushes keys @ [EncodeOP_N n, OP_CHECKMULTISIG]) [OP_PUBKEYS, OP_SMALLINTEGER, OP_CHECKMULTISIG]
      [[of_nat m]] = solver_match [OP_CHECKMULTISIG] [OP_CHECKMULTISIG] ([of_nat m] # keys @ [[of_nat n]])"
    using N by (subst solver_match.simps) simp
  also have "\<dots> = Some ([of_nat m] # keys @ [[of_nat n]])"
    using solver_match_read [OF _ GetOp2_single [of OP_CHECKMULTISIG "[]"]] by simp
  finally show ?thesis by simp
qed

lemma Solver_multisig:
  assumes "1 \<le> m" "m \<le> length keys" "length keys \<le> 16" "keys_ok keys"
  shows "Solver (GetScriptForMultisig m keys) = (True, TX_MULTISIG, [[of_nat m]] @ keys @ [[of_nat (length keys)]])"
proof -
  have n: "m \<le> 16" "1 \<le> length keys" "keys \<noteq> []" using assms by auto
  note M = EncodeOP_N_range [OF assms(1) n(1)]
  let ?s = "EncodeOP_N m # pushes keys @ [EncodeOP_N (length keys), OP_CHECKMULTISIG]"
  have s: "GetScriptForMultisig m keys = ?s"
    by (simp add: GetScriptForMultisig_def push_opcode_def foldl_push_data)
  have "\<not> IsPayToScriptHash ?s" "?s ! 0 \<noteq> OP_RETURN" using M(3) by (auto simp: IsPayToScriptHash_def)
  moreover have "solver_match ?s [OP_PUBKEY, OP_CHECKSIG] [] = None"
    "solver_match ?s [OP_DUP, OP_HASH160, OP_PUBKEYHASH, OP_EQUALVERIFY, OP_CHECKSIG] [] = None"
    using M(3) by (auto simp: solver_match_read [OF _ GetOp2_single [OF M(1)]])
  moreover have "\<not> (of_nat m :: u8) < 1" "\<not> (of_nat (length keys) :: u8) < 1"
      "\<not> (of_nat (length keys) :: u8) < of_nat m" "unat (of_nat (length keys) :: u8) = length keys"
    using assms n by (auto simp: word_less_nat_alt unat_of_nat)
  ultimately show ?thesis
    unfolding s using solver_match_multisig [OF assms(1) n(1,2) assms(3,4) n(3)]
    by (simp add: Solver_def mTemplates_def)
qed

section \<open>Properties\<close>

fun dest_ok :: "CTxDestination \<Rightarrow> bool" where
  "dest_ok CNoDestination = False"
| "dest_ok (CKeyID h) = (length h = 20)"
| "dest_ok (CScriptID h) = (length h = 20)"

text \<open>
  A destination is recovered from the script that pays to it, so no two destinations share a
  script and the wallet recognises its own payments.
\<close>

theorem ExtractDestination_GetScript:
  assumes "dest_ok d"
  shows "ExtractDestination cr (GetScriptForDestination d) = Some d"
  using assms by (cases d) (auto simp: ExtractDestination_def Solver_P2PKH Solver_P2SH)

theorem ExtractDestination_GetScript_witness:
  "ExtractDestination example_crypto (GetScriptForDestination (CKeyID (replicate 20 7))) =
   Some (CKeyID (replicate 20 7))"
  by (rule ExtractDestination_GetScript) simp

text \<open>
  \<open>Solver\<close> recognises every m-of-n script that \<open>GetScriptForMultisig\<close> builds for keys of
  33 to 65 bytes, and returns the threshold, the keys in order and their number.
\<close>

theorem Solver_GetScriptForMultisig:
  assumes "1 \<le> m" "m \<le> length keys" "length keys \<le> 16" "keys_ok keys"
  shows "Solver (GetScriptForMultisig m keys) = (True, TX_MULTISIG, [[of_nat m]] @ keys @ [[of_nat (length keys)]])"
  using assms by (rule Solver_multisig)

theorem Solver_GetScriptForMultisig_witness:
  "Solver (GetScriptForMultisig 1 [replicate 33 2, replicate 33 3]) =
   (True, TX_MULTISIG, [[1], replicate 33 2, replicate 33 3, [2]])"
  using Solver_GetScriptForMultisig [of 1 "[replicate 33 2, replicate 33 3]"] by (simp add: keys_ok_def)

text \<open>
  (C10) What it takes to spend a pay-to-pubkey-hash output with a signature and a key: the key hashes
  to the identifier, both are encoded as the flags demand, and the checker accepts the signature
  for the key on the output's own script. Nothing else makes \<open>VerifyScript\<close> succeed or fail.
\<close>

theorem P2PKH_spend:
  assumes "length h = 20" "2 \<le> length sig" "length sig \<le> 520" "length sig \<noteq> 20" "2 \<le> length pk" "length pk \<le> 520"
    "fl AND SCRIPT_VERIFY_CLEANSTACK \<noteq> 0 \<longrightarrow> fl AND SCRIPT_VERIFY_P2SH \<noteq> 0"
  shows "VerifyScript cr checker fl (push_data [] sig @ push_data [] pk) (GetScriptForDestination (CKeyID h)) = VerifyOK \<longleftrightarrow>
    hash160_fn cr pk = h \<and> CheckSignatureEncoding cr sig fl = None \<and> CheckPubKeyEncoding pk fl = None \<and>
    CheckSig checker sig pk (GetScriptForDestination (CKeyID h))"
  using assms by (rule P2PKH_spend_aux)

theorem P2PKH_spend_witness:
  "VerifyScript example_crypto example_checker 0 (push_data [] (replicate 33 2) @ push_data [] (replicate 33 2))
     (GetScriptForDestination (CKeyID (replicate 20 2))) = VerifyOK"
  using P2PKH_spend [of "replicate 20 2" "replicate 33 2" "replicate 33 2" 0 example_crypto example_checker]
  by (simp add: example_crypto_def example_checker_def CheckSignatureEncoding_def CheckPubKeyEncoding_def take_replicate)

text \<open>
  What it takes to spend a pay-to-script-hash output when the rule is active: the signature
  script only pushes, its last push hashes to the identifier, and that push, run as a script on
  the remaining stack, leaves a true value (alone, under \<open>SCRIPT_VERIFY_CLEANSTACK\<close>).
\<close>

theorem P2SH_spend:
  assumes "length h = 20" "fl AND SCRIPT_VERIFY_P2SH \<noteq> 0"
  shows "VerifyScript cr checker fl sg (GetScriptForDestination (CScriptID h)) = VerifyOK \<longleftrightarrow>
    IsPushOnly sg \<and>
    (\<exists>redeem s x t. EvalScript cr checker fl [] sg = Inr (redeem # s) \<and> length s < 999 \<and> hash160_fn cr redeem = h \<and>
      EvalScript cr checker fl s redeem = Inr (x # t) \<and> CastToBool x \<and>
      (fl AND SCRIPT_VERIFY_CLEANSTACK \<noteq> 0 \<longrightarrow> t = []))"
  using assms by (rule P2SH_spend_aux)

theorem P2SH_spend_witness:
  "VerifyScript example_crypto example_checker SCRIPT_VERIFY_P2SH [1, OP_1] (GetScriptForDestination (CScriptID (OP_1 # replicate 19 0))) = VerifyOK"
proof -
  have e: "EvalScript example_crypto example_checker SCRIPT_VERIFY_P2SH [] [1, OP_1] = Inr [[OP_1]]"
    "EvalScript example_crypto example_checker SCRIPT_VERIFY_P2SH [] [OP_1] = Inr [[1]]"
    by code_simp+
  have "CastToBool [1]" "IsPushOnly [1, OP_1]" "SCRIPT_VERIFY_P2SH AND SCRIPT_VERIFY_P2SH \<noteq> 0"
    "SCRIPT_VERIFY_P2SH AND SCRIPT_VERIFY_CLEANSTACK = 0" by code_simp+
  moreover have "hash160_fn example_crypto [OP_1] = OP_1 # replicate 19 0"
    by (simp add: example_crypto_def numeral_eq_Suc)
  ultimately show ?thesis
    using P2SH_spend [of "OP_1 # replicate 19 0" SCRIPT_VERIFY_P2SH example_crypto example_checker "[1, OP_1]"] e by auto
qed

end
