(* ===== verification/Bloom.thy ===== *)
theory Bloom
  imports Standard
begin

unbundle bit_operations_syntax

text \<open>
  Bloom filters: \<^verbatim>\<open>MurmurHash3\<close> of \<^verbatim>\<open>hash.cpp\<close>, \<^verbatim>\<open>CBloomFilter\<close> and \<^verbatim>\<open>CRollingBloomFilter\<close> of \<^verbatim>\<open>bloom.h\<close> and
  \<^verbatim>\<open>bloom.cpp\<close>, and the three messages of \<^verbatim>\<open>net_processing.cpp\<close> with which a peer sets its filter.

  A filter without data bytes makes \<^verbatim>\<open>Hash\<close> divide by zero, so the operations that hash return \<open>None\<close> there. The
  sizes that the constructors compute with floating-point logarithms are arguments of the model.
\<close>

section \<open>The hash function\<close>

definition ROTL32 :: "u32 \<Rightarrow> nat \<Rightarrow> u32" where
  "ROTL32 x r = push_bit r x OR drop_bit (32 - r) x"

definition murmur_mix :: "u32 \<Rightarrow> u32" where
  "murmur_mix k1 = ROTL32 (k1 * 0xcc9e2d51) 15 * 0x1b873593"

text \<open>The loop over the whole blocks of four bytes; what is left is the tail.\<close>

fun murmur_body :: "u32 \<Rightarrow> bytes \<Rightarrow> u32 \<times> bytes" where
  "murmur_body h1 (b0 # b1 # b2 # b3 # blocks) =
     murmur_body (ROTL32 (h1 XOR murmur_mix (ReadLE32 [b0, b1, b2, b3])) 13 * 5 + 0xe6546b64) blocks"
| "murmur_body h1 tail = (h1, tail)"

definition murmur_tail :: "u32 \<Rightarrow> bytes \<Rightarrow> u32" where
  "murmur_tail h1 tail =
     (let k1 = (if length tail \<ge> 3 then push_bit 16 (ucast (tail ! 2)) else 0);
          k1 = (if length tail \<ge> 2 then k1 XOR push_bit 8 (ucast (tail ! 1)) else k1)
      in if length tail \<ge> 1 then h1 XOR murmur_mix (k1 XOR ucast (tail ! 0)) else h1)"

definition MurmurHash3 :: "u32 \<Rightarrow> bytes \<Rightarrow> u32" where
  "MurmurHash3 nHashSeed vDataToHash =
     (let (h1, tail) = murmur_body nHashSeed vDataToHash;
          h1 = murmur_tail h1 tail;
          h1 = h1 XOR of_nat (length vDataToHash);
          h1 = h1 XOR drop_bit 16 h1;
          h1 = h1 * 0x85ebca6b;
          h1 = h1 XOR drop_bit 13 h1;
          h1 = h1 * 0xc2b2ae35
      in h1 XOR drop_bit 16 h1)"

section \<open>The filter of a peer\<close>

definition MAX_BLOOM_FILTER_SIZE :: nat where
  "MAX_BLOOM_FILTER_SIZE = 36000"

definition MAX_HASH_FUNCS :: u32 where
  "MAX_HASH_FUNCS = 50"

definition BLOOM_UPDATE_ALL :: u8 where
  "BLOOM_UPDATE_ALL = 1"

definition BLOOM_UPDATE_P2PUBKEY_ONLY :: u8 where
  "BLOOM_UPDATE_P2PUBKEY_ONLY = 2"

definition BLOOM_UPDATE_MASK :: u8 where
  "BLOOM_UPDATE_MASK = 3"

record CBloomFilter =
  vData :: bytes
  isFull :: bool
  isEmpty :: bool
  nHashFuncs :: u32
  nTweak :: u32
  bloom_nFlags :: u8

definition CBloomFilter_default :: CBloomFilter where
  "CBloomFilter_default =
     \<lparr>vData = [], isFull = True, isEmpty = False, nHashFuncs = 0, nTweak = 0, bloom_nFlags = 0\<rparr>"

definition bloom_Hash :: "CBloomFilter \<Rightarrow> u32 \<Rightarrow> bytes \<Rightarrow> nat option" where
  "bloom_Hash f nHashNum vDataToHash =
     (if length (vData f) * 8 = 0 then None
      else Some (unat (MurmurHash3 (nHashNum * 0xFBA4C795 + nTweak f) vDataToHash) mod (length (vData f) * 8)))"

fun bloom_insert_loop :: "bytes \<Rightarrow> nat list \<Rightarrow> CBloomFilter \<Rightarrow> CBloomFilter option" where
  "bloom_insert_loop vKey [] f = Some f"
| "bloom_insert_loop vKey (i # is) f =
     (case bloom_Hash f (of_nat i) vKey of
        None \<Rightarrow> None
      | Some nIndex \<Rightarrow> bloom_insert_loop vKey is
          (f\<lparr>vData := (vData f)[drop_bit 3 nIndex := vData f ! drop_bit 3 nIndex OR push_bit (7 AND nIndex) 1]\<rparr>))"

definition bloom_insert :: "CBloomFilter \<Rightarrow> bytes \<Rightarrow> CBloomFilter option" where
  "bloom_insert f vKey =
     (if isFull f then Some f
      else case bloom_insert_loop vKey [0..<unat (nHashFuncs f)] f of
             None \<Rightarrow> None
           | Some f \<Rightarrow> Some (f\<lparr>isEmpty := False\<rparr>))"

definition bloom_insert_outpoint :: "CBloomFilter \<Rightarrow> COutPoint \<Rightarrow> CBloomFilter option" where
  "bloom_insert_outpoint f outpoint = bloom_insert f (Serialize_COutPoint outpoint)"

definition bloom_insert_hash :: "CBloomFilter \<Rightarrow> uint256 \<Rightarrow> CBloomFilter option" where
  "bloom_insert_hash f hash = bloom_insert f (uint256_bytes hash)"

fun bloom_contains_loop :: "CBloomFilter \<Rightarrow> bytes \<Rightarrow> nat list \<Rightarrow> bool option" where
  "bloom_contains_loop f vKey [] = Some True"
| "bloom_contains_loop f vKey (i # is) =
     (case bloom_Hash f (of_nat i) vKey of
        None \<Rightarrow> None
      | Some nIndex \<Rightarrow>
          if vData f ! drop_bit 3 nIndex AND push_bit (7 AND nIndex) 1 = 0 then Some False
          else bloom_contains_loop f vKey is)"

definition bloom_contains :: "CBloomFilter \<Rightarrow> bytes \<Rightarrow> bool option" where
  "bloom_contains f vKey =
     (if isFull f then Some True else if isEmpty f then Some False
      else bloom_contains_loop f vKey [0..<unat (nHashFuncs f)])"

definition bloom_contains_outpoint :: "CBloomFilter \<Rightarrow> COutPoint \<Rightarrow> bool option" where
  "bloom_contains_outpoint f outpoint = bloom_contains f (Serialize_COutPoint outpoint)"

definition bloom_contains_hash :: "CBloomFilter \<Rightarrow> uint256 \<Rightarrow> bool option" where
  "bloom_contains_hash f hash = bloom_contains f (uint256_bytes hash)"

definition bloom_clear :: "CBloomFilter \<Rightarrow> CBloomFilter" where
  "bloom_clear f = f\<lparr>vData := replicate (length (vData f)) 0, isFull := False, isEmpty := True\<rparr>"

definition bloom_reset :: "CBloomFilter \<Rightarrow> u32 \<Rightarrow> CBloomFilter" where
  "bloom_reset f nNewTweak = (bloom_clear f)\<lparr>nTweak := nNewTweak\<rparr>"

definition IsWithinSizeConstraints :: "CBloomFilter \<Rightarrow> bool" where
  "IsWithinSizeConstraints f \<longleftrightarrow> length (vData f) \<le> MAX_BLOOM_FILTER_SIZE \<and> nHashFuncs f \<le> MAX_HASH_FUNCS"

definition UpdateEmptyFull :: "CBloomFilter \<Rightarrow> CBloomFilter" where
  "UpdateEmptyFull f =
     f\<lparr>isFull := list_all (\<lambda>b. b = 0xff) (vData f), isEmpty := list_all (\<lambda>b. b = 0) (vData f)\<rparr>"

definition Serialize_CBloomFilter :: "CBloomFilter \<Rightarrow> bytes" where
  "Serialize_CBloomFilter f =
     Serialize_bytes (vData f) @ ser_writedata32 (nHashFuncs f) @ ser_writedata32 (nTweak f) @ ser_writedata8 (bloom_nFlags f)"

text \<open>Reading into an existing object replaces the four fields of the wire format.\<close>

definition Unserialize_CBloomFilter :: "CBloomFilter \<Rightarrow> CBloomFilter unser" where
  "Unserialize_CBloomFilter f =
     unser_bind Unserialize_bytes (\<lambda>data.
     unser_bind ser_readdata32 (\<lambda>funcs.
     unser_bind ser_readdata32 (\<lambda>tweak.
     unser_bind ser_readdata8 (\<lambda>flags.
       unser_return (f\<lparr>vData := data, nHashFuncs := funcs, nTweak := tweak, bloom_nFlags := flags\<rparr>)))))"

section \<open>Relevant transactions\<close>

text \<open>The loop over the instructions of a script: does the filter contain one of its data elements?\<close>

function script_matches :: "CBloomFilter \<Rightarrow> CScript \<Rightarrow> bool option" where
  "script_matches f pc =
     (case GetOp2 pc of
        (ok, opcode, data, pc') \<Rightarrow>
          if \<not> ok then Some False
          else if length data \<noteq> 0
               then case bloom_contains f data of
                      None \<Rightarrow> None
                    | Some True \<Rightarrow> Some True
                    | Some False \<Rightarrow> script_matches f pc'
               else script_matches f pc')"
  by pat_completeness auto
termination
  by (relation "measure (length \<circ> snd)") (auto dest!: GetOp2_progress [OF sym])

declare script_matches.simps [simp del]

definition update_matched :: "CBloomFilter \<Rightarrow> CScript \<Rightarrow> COutPoint \<Rightarrow> CBloomFilter option" where
  "update_matched f script outpoint =
     (if bloom_nFlags f AND BLOOM_UPDATE_MASK = BLOOM_UPDATE_ALL then bloom_insert_outpoint f outpoint
      else if bloom_nFlags f AND BLOOM_UPDATE_MASK = BLOOM_UPDATE_P2PUBKEY_ONLY
      then case Solver script of
             (solved, type, vSolutions) \<Rightarrow>
               if solved \<and> (type = TX_PUBKEY \<or> type = TX_MULTISIG) then bloom_insert_outpoint f outpoint else Some f
      else Some f)"

fun match_outputs :: "uint256 \<Rightarrow> nat \<Rightarrow> CTxOut list \<Rightarrow> bool \<times> CBloomFilter \<Rightarrow> (bool \<times> CBloomFilter) option" where
  "match_outputs hash i [] (fFound, f) = Some (fFound, f)"
| "match_outputs hash i (txout # txouts) (fFound, f) =
     (case script_matches f (scriptPubKey txout) of
        None \<Rightarrow> None
      | Some False \<Rightarrow> match_outputs hash (i + 1) txouts (fFound, f)
      | Some True \<Rightarrow>
          (case update_matched f (scriptPubKey txout) (COutPoint hash (of_nat i)) of
             None \<Rightarrow> None
           | Some f \<Rightarrow> match_outputs hash (i + 1) txouts (True, f)))"

fun match_inputs :: "CBloomFilter \<Rightarrow> CTxIn list \<Rightarrow> bool option" where
  "match_inputs f [] = Some False"
| "match_inputs f (txin # txins) =
     (case bloom_contains_outpoint f (prevout txin) of
        None \<Rightarrow> None
      | Some True \<Rightarrow> Some True
      | Some False \<Rightarrow>
          (case script_matches f (scriptSig txin) of
             None \<Rightarrow> None
           | Some True \<Rightarrow> Some True
           | Some False \<Rightarrow> match_inputs f txins))"

definition IsRelevantAndUpdate :: "(CTransaction \<Rightarrow> uint256) \<Rightarrow> CBloomFilter \<Rightarrow> CTransaction \<Rightarrow> (bool \<times> CBloomFilter) option" where
  "IsRelevantAndUpdate GetHash f tx =
     (if isFull f then Some (True, f)
      else if isEmpty f then Some (False, f)
      else case bloom_contains_hash f (GetHash tx) of
             None \<Rightarrow> None
           | Some found \<Rightarrow>
               (case match_outputs (GetHash tx) 0 (vout tx) (found, f) of
                  None \<Rightarrow> None
                | Some (fFound, f) \<Rightarrow>
                    if fFound then Some (True, f)
                    else case match_inputs f (vin tx) of None \<Rightarrow> None | Some r \<Rightarrow> Some (r, f)))"

section \<open>The messages that set the filter\<close>

definition NO_BLOOM_VERSION :: int where
  "NO_BLOOM_VERSION = 70201"

text \<open>What the handlers read and write of a \<^verbatim>\<open>CNode\<close>; \<open>misbehaving\<close> sums the points given to the peer.\<close>

record filter_peer =
  pfilter :: "CBloomFilter option"
  fRelayTxes :: bool
  serves_bloom :: bool
  peer_version :: int
  fDisconnect :: bool
  misbehaving :: nat

datatype filter_message = FILTERLOAD bytes | FILTERADD bytes | FILTERCLEAR

definition Misbehaving100 :: "filter_peer \<Rightarrow> filter_peer" where
  "Misbehaving100 peer = peer\<lparr>misbehaving := misbehaving peer + 100\<rparr>"

definition handle_filterload :: "bytes \<Rightarrow> filter_peer \<Rightarrow> ser_error + filter_peer" where
  "handle_filterload vRecv peer =
     (case Unserialize_CBloomFilter CBloomFilter_default vRecv of
        Inl e \<Rightarrow> Inl e
      | Inr (f, _) \<Rightarrow>
          Inr (if \<not> IsWithinSizeConstraints f then Misbehaving100 peer
               else peer\<lparr>pfilter := Some (UpdateEmptyFull f), fRelayTxes := True\<rparr>))"

definition handle_filteradd :: "bytes \<Rightarrow> filter_peer \<Rightarrow> (ser_error + filter_peer) option" where
  "handle_filteradd vRecv peer =
     (case Unserialize_bytes vRecv of
        Inl e \<Rightarrow> Some (Inl e)
      | Inr (data, _) \<Rightarrow>
          if length data > MAX_SCRIPT_ELEMENT_SIZE then Some (Inr (Misbehaving100 peer))
          else case pfilter peer of
                 None \<Rightarrow> Some (Inr (Misbehaving100 peer))
               | Some f \<Rightarrow>
                   (case bloom_insert f data of
                      None \<Rightarrow> None
                    | Some f \<Rightarrow> Some (Inr (peer\<lparr>pfilter := Some f\<rparr>))))"

definition handle_filterclear :: "filter_peer \<Rightarrow> filter_peer" where
  "handle_filterclear peer =
     (let peer = (if serves_bloom peer then peer\<lparr>pfilter := Some CBloomFilter_default\<rparr> else peer)
      in peer\<lparr>fRelayTxes := True\<rparr>)"

definition refuse_bloom :: "filter_peer \<Rightarrow> filter_peer" where
  "refuse_bloom peer =
     (if peer_version peer \<ge> NO_BLOOM_VERSION then Misbehaving100 peer else peer\<lparr>fDisconnect := True\<rparr>)"

text \<open>\<open>None\<close> is a crash, \<open>Inl\<close> an exception of the reader, \<open>Inr\<close> the peer after the message.\<close>

fun ProcessFilterMessage :: "filter_message \<Rightarrow> filter_peer \<Rightarrow> (ser_error + filter_peer) option" where
  "ProcessFilterMessage (FILTERLOAD vRecv) peer =
     (if \<not> serves_bloom peer then Some (Inr (refuse_bloom peer)) else Some (handle_filterload vRecv peer))"
| "ProcessFilterMessage (FILTERADD vRecv) peer =
     (if \<not> serves_bloom peer then Some (Inr (refuse_bloom peer)) else handle_filteradd vRecv peer)"
| "ProcessFilterMessage FILTERCLEAR peer = Some (Inr (handle_filterclear peer))"

end
