(* ===== verification/Partial_Merkle.thy ===== *)
theory Partial_Merkle
  imports Merkle_Props Block_Rules Bloom
begin

unbundle bit_operations_syntax

text \<open>
  Proofs that transactions are in a block: \<^verbatim>\<open>CPartialMerkleTree\<close> and \<^verbatim>\<open>CMerkleBlock\<close> of \<^verbatim>\<open>merkleblock.h\<close> and
  \<^verbatim>\<open>merkleblock.cpp\<close>. A partial tree is the list of hashes and of flag bits met in a depth-first walk that descends only towards
  matched transactions. Counts and positions are 32-bit numbers, as in the source.
\<close>

record CPartialMerkleTree =
  nTransactions :: u32
  vBits :: "bool list"
  vHash :: "uint256 list"
  fBad :: bool

definition CalcTreeWidth :: "u32 \<Rightarrow> nat \<Rightarrow> u32" where
  "CalcTreeWidth n height = drop_bit height (n + push_bit height 1 - 1)"

fun CalcHash :: "hash2 \<Rightarrow> u32 \<Rightarrow> nat \<Rightarrow> u32 \<Rightarrow> uint256 list \<Rightarrow> uint256" where
  "CalcHash H n 0 pos vTxid = vTxid ! unat pos"
| "CalcHash H n (Suc height) pos vTxid =
     (let left = CalcHash H n height (pos * 2) vTxid;
          right = (if pos * 2 + 1 < CalcTreeWidth n height then CalcHash H n height (pos * 2 + 1) vTxid else left)
      in H left right)"

text \<open>Is the node the parent of a matched transaction? The loop over the leaves below it.\<close>

definition parent_of_match :: "u32 \<Rightarrow> nat \<Rightarrow> u32 \<Rightarrow> bool list \<Rightarrow> bool" where
  "parent_of_match n height pos vMatch =
     list_ex (\<lambda>p. vMatch ! p) [unat (push_bit height pos)..<min (unat (push_bit height (pos + 1))) (unat n)]"

fun TraverseAndBuild ::
    "hash2 \<Rightarrow> u32 \<Rightarrow> nat \<Rightarrow> u32 \<Rightarrow> uint256 list \<Rightarrow> bool list \<Rightarrow> bool list \<times> uint256 list \<Rightarrow> bool list \<times> uint256 list" where
  "TraverseAndBuild H n 0 pos vTxid vMatch (bits, hashes) =
     (bits @ [parent_of_match n 0 pos vMatch], hashes @ [CalcHash H n 0 pos vTxid])"
| "TraverseAndBuild H n (Suc height) pos vTxid vMatch (bits, hashes) =
     (let fParentOfMatch = parent_of_match n (Suc height) pos vMatch;
          bits = bits @ [fParentOfMatch]
      in if \<not> fParentOfMatch then (bits, hashes @ [CalcHash H n (Suc height) pos vTxid])
         else let st = TraverseAndBuild H n height (pos * 2) vTxid vMatch (bits, hashes)
              in if pos * 2 + 1 < CalcTreeWidth n height then TraverseAndBuild H n height (pos * 2 + 1) vTxid vMatch st else st)"

text \<open>The loop that finds the height of the tree: at 31 the width is at most one.\<close>

lemma width_small:
  assumes "1 < CalcTreeWidth n height"
  shows "height < 31"
proof (rule ccontr)
  assume h: "\<not> height < 31"
  have "unat (CalcTreeWidth n height) = unat (n + push_bit height 1 - 1) div 2 ^ height"
    unfolding CalcTreeWidth_def unat_drop_bit_eq by (simp add: drop_bit_eq_div)
  also have "(2 :: nat) ^ 31 \<le> 2 ^ height" using h by (intro power_increasing) simp_all
  then have "unat (n + push_bit height 1 - 1) div 2 ^ height \<le> unat (n + push_bit height 1 - 1) div 2 ^ 31"
    by (intro div_le_mono2) simp_all
  also have "\<dots> \<le> 1" using unsigned_less [of "n + push_bit height 1 - 1", where 'a = nat] by simp
  finally show False using assms by (simp add: word_less_nat_alt)
qed

function tree_height :: "u32 \<Rightarrow> nat \<Rightarrow> nat" where
  "tree_height n height = (if CalcTreeWidth n height > 1 then tree_height n (height + 1) else height)"
  by pat_completeness auto
termination
  by (relation "measure (\<lambda>(n, height). 31 - height)") (auto dest: width_small)

declare tree_height.simps [simp del]

definition CPartialMerkleTree_make :: "hash2 \<Rightarrow> uint256 list \<Rightarrow> bool list \<Rightarrow> CPartialMerkleTree" where
  "CPartialMerkleTree_make H vTxid vMatch =
     (let n = of_nat (length vTxid);
          (bits, hashes) = TraverseAndBuild H n (tree_height n 0) 0 vTxid vMatch ([], [])
      in \<lparr>nTransactions = n, vBits = bits, vHash = hashes, fBad = False\<rparr>)"

definition CPartialMerkleTree_default :: CPartialMerkleTree where
  "CPartialMerkleTree_default = \<lparr>nTransactions = 0, vBits = [], vHash = [], fBad = True\<rparr>"

text \<open>The reference arguments of \<^verbatim>\<open>TraverseAndExtract\<close> and the flag of the object.\<close>

record extraction =
  nBitsUsed :: nat
  nHashUsed :: nat
  xMatch :: "uint256 list"
  xIndex :: "u32 list"
  xBad :: bool

definition take_hash :: "CPartialMerkleTree \<Rightarrow> extraction \<Rightarrow> uint256 \<times> extraction" where
  "take_hash t st =
     (if nHashUsed st \<ge> length (vHash t) then (0, st\<lparr>xBad := True\<rparr>)
      else (vHash t ! nHashUsed st, st\<lparr>nHashUsed := nHashUsed st + 1\<rparr>))"

fun TraverseAndExtract :: "hash2 \<Rightarrow> CPartialMerkleTree \<Rightarrow> nat \<Rightarrow> u32 \<Rightarrow> extraction \<Rightarrow> uint256 \<times> extraction" where
  "TraverseAndExtract H t 0 pos st =
     (if nBitsUsed st \<ge> length (vBits t) then (0, st\<lparr>xBad := True\<rparr>)
      else let fParentOfMatch = vBits t ! nBitsUsed st;
               st = st\<lparr>nBitsUsed := nBitsUsed st + 1\<rparr>
           in if nHashUsed st \<ge> length (vHash t) then (0, st\<lparr>xBad := True\<rparr>)
              else let (hash, st) = take_hash t st
                   in (hash, if fParentOfMatch then st\<lparr>xMatch := xMatch st @ [hash], xIndex := xIndex st @ [pos]\<rparr> else st))"
| "TraverseAndExtract H t (Suc height) pos st =
     (if nBitsUsed st \<ge> length (vBits t) then (0, st\<lparr>xBad := True\<rparr>)
      else let fParentOfMatch = vBits t ! nBitsUsed st;
               st = st\<lparr>nBitsUsed := nBitsUsed st + 1\<rparr>
           in if \<not> fParentOfMatch then take_hash t st
              else let (left, st) = TraverseAndExtract H t height (pos * 2) st
                   in if pos * 2 + 1 < CalcTreeWidth (nTransactions t) height
                      then let (right, st) = TraverseAndExtract H t height (pos * 2 + 1) st
                           in (H left right, if right = left then st\<lparr>xBad := True\<rparr> else st)
                      else (H left left, st))"

text \<open>
  \<open>ExtractMatches H t index\<close>: the returned root, the matches, the indices appended to \<open>index\<close>, which is not cleared, and
  the tree with its flag.
\<close>

definition ExtractMatches ::
    "hash2 \<Rightarrow> CPartialMerkleTree \<Rightarrow> u32 list \<Rightarrow> uint256 \<times> uint256 list \<times> u32 list \<times> CPartialMerkleTree" where
  "ExtractMatches H t vnIndex =
     (if nTransactions t = 0 \<or> unat (nTransactions t) > MaxBlockSize True div 60 \<or> length (vHash t) > unat (nTransactions t) \<or>
         length (vBits t) < length (vHash t)
      then (0, [], vnIndex, t)
      else let (hashMerkleRoot, st) = TraverseAndExtract H t (tree_height (nTransactions t) 0) 0
                 \<lparr>nBitsUsed = 0, nHashUsed = 0, xMatch = [], xIndex = vnIndex, xBad = fBad t\<rparr>;
               root = (if xBad st \<or> (nBitsUsed st + 7) div 8 \<noteq> (length (vBits t) + 7) div 8 \<or> nHashUsed st \<noteq> length (vHash t)
                       then 0 else hashMerkleRoot)
           in (root, xMatch st, xIndex st, t\<lparr>fBad := xBad st\<rparr>))"

text \<open>The flag bits are packed by the loop of the bit sets of \<^verbatim>\<open>serialize.h\<close>.\<close>

definition Serialize_CPartialMerkleTree :: "CPartialMerkleTree \<Rightarrow> bytes" where
  "Serialize_CPartialMerkleTree t =
     ser_writedata32 (nTransactions t) @ Serialize_vector Serialize_uint256 (vHash t) @
     Serialize_bytes (fixedbitset_set 0 (vBits t) (replicate ((length (vBits t) + 7) div 8) 0))"

definition Unserialize_CPartialMerkleTree :: "CPartialMerkleTree unser" where
  "Unserialize_CPartialMerkleTree =
     unser_bind ser_readdata32 (\<lambda>n.
     unser_bind (Unserialize_vector 32 Unserialize_uint256) (\<lambda>hashes.
     unser_bind Unserialize_bytes (\<lambda>vBytes.
       unser_return \<lparr>nTransactions = n,
         vBits = map (\<lambda>p. vBytes ! (p div 8) AND push_bit (p mod 8) 1 \<noteq> 0) [0..<length vBytes * 8],
         vHash = hashes, fBad = False\<rparr>)))"

section \<open>Blocks for a peer with a filter\<close>

record CMerkleBlock =
  mb_header :: CBlockHeader
  txn :: CPartialMerkleTree
  vMatchedTxn :: "(nat \<times> uint256) list"

definition allowedTxTypes :: "u16 set" where
  "allowedTxTypes = {0, 1, 2, 3, 4, 5}"

fun filter_matches ::
    "(CTransaction \<Rightarrow> uint256) \<Rightarrow> nat \<Rightarrow> CTransaction list \<Rightarrow> CBloomFilter \<Rightarrow>
      (bool list \<times> (nat \<times> uint256) list \<times> CBloomFilter) option" where
  "filter_matches GetHash i [] f = Some ([], [], f)"
| "filter_matches GetHash i (tx # txs) f =
     (let isAllowedType = (nVersion tx \<noteq> 3 \<or> nType tx \<in> allowedTxTypes)
      in case (if isAllowedType then IsRelevantAndUpdate GetHash f tx else Some (False, f)) of
           None \<Rightarrow> None
         | Some (relevant, f) \<Rightarrow>
             (case filter_matches GetHash (i + 1) txs f of
                None \<Rightarrow> None
              | Some (vMatch, matched, f) \<Rightarrow>
                  Some (relevant # vMatch, (if relevant then (i, GetHash tx) # matched else matched), f)))"

text \<open>The constructor for a filter returns the updated filter too; \<open>None\<close> is the division by zero of the filter.\<close>

definition CMerkleBlock_filter ::
    "hash2 \<Rightarrow> (CTransaction \<Rightarrow> uint256) \<Rightarrow> CBlock \<Rightarrow> CBloomFilter \<Rightarrow> (CMerkleBlock \<times> CBloomFilter) option" where
  "CMerkleBlock_filter H GetHash block f =
     (case filter_matches GetHash 0 (vtx block) f of
        None \<Rightarrow> None
      | Some (vMatch, matched, f) \<Rightarrow>
          Some (\<lparr>mb_header = CBlock_GetBlockHeader block,
                 txn = CPartialMerkleTree_make H (map GetHash (vtx block)) vMatch, vMatchedTxn = matched\<rparr>, f))"

definition CMerkleBlock_txids :: "hash2 \<Rightarrow> (CTransaction \<Rightarrow> uint256) \<Rightarrow> CBlock \<Rightarrow> uint256 set \<Rightarrow> CMerkleBlock" where
  "CMerkleBlock_txids H GetHash block txids =
     (let vHashes = map GetHash (vtx block)
      in \<lparr>mb_header = CBlock_GetBlockHeader block,
          txn = CPartialMerkleTree_make H vHashes (map (\<lambda>hash. hash \<in> txids) vHashes), vMatchedTxn = []\<rparr>)"

definition Serialize_CMerkleBlock :: "CMerkleBlock \<Rightarrow> bytes" where
  "Serialize_CMerkleBlock b = Serialize_CBlockHeader (mb_header b) @ Serialize_CPartialMerkleTree (txn b)"

definition Unserialize_CMerkleBlock :: "CMerkleBlock unser" where
  "Unserialize_CMerkleBlock =
     unser_bind Unserialize_CBlockHeader (\<lambda>header.
     unser_bind Unserialize_CPartialMerkleTree (\<lambda>t.
       unser_return \<lparr>mb_header = header, txn = t, vMatchedTxn = []\<rparr>))"

end
