(* ===== verification/Bloom_Props.thy ===== *)
theory Bloom_Props
  imports Bloom
begin

unbundle bit_operations_syntax

text \<open>
  A filter a peer can have never divides by zero, contains whatever has been inserted, and follows the coins it
  has matched: a transaction that spends a matched output is relevant too.
\<close>

section \<open>The wire format\<close>

definition received_filter :: "CBloomFilter \<Rightarrow> bool" where
  "received_filter f \<longleftrightarrow> vec_ok (vData f) \<and> isFull f \<and> \<not> isEmpty f"

interpretation ser_bloom: canonical_codec Serialize_CBloomFilter "Unserialize_CBloomFilter CBloomFilter_default" received_filter
proof (rule canonical_codecI)
  fix bs x r
  show "Unserialize_CBloomFilter CBloomFilter_default bs = Inr (x, r) \<longleftrightarrow> bs = Serialize_CBloomFilter x @ r \<and> received_filter x"
    by (cases x) (auto simp: Serialize_CBloomFilter_def Unserialize_CBloomFilter_def CBloomFilter_default_def received_filter_def
      field_iffs ser8.unser_iff)
qed

section \<open>Inserting and looking up\<close>

definition bloom_ok :: "CBloomFilter \<Rightarrow> bool" where
  "bloom_ok f \<longleftrightarrow> (vData f = [] \<longrightarrow> isFull f)"

definition bloom_bit :: "CBloomFilter \<Rightarrow> nat \<Rightarrow> bool" where
  "bloom_bit f n \<longleftrightarrow> bit (vData f ! (n div 8)) (n mod 8)"

definition bloom_index :: "CBloomFilter \<Rightarrow> bytes \<Rightarrow> nat \<Rightarrow> nat" where
  "bloom_index f vKey i = the (bloom_Hash f (of_nat i) vKey)"

text \<open>\<open>grows f f'\<close>: \<open>f'\<close> has the parameters of \<open>f\<close> and at least its bits.\<close>

definition grows :: "CBloomFilter \<Rightarrow> CBloomFilter \<Rightarrow> bool" where
  "grows f f' \<longleftrightarrow> length (vData f') = length (vData f) \<and> nHashFuncs f' = nHashFuncs f \<and> nTweak f' = nTweak f \<and>
     bloom_nFlags f' = bloom_nFlags f \<and> isFull f' = isFull f \<and> (isEmpty f' \<longrightarrow> isEmpty f) \<and>
     (\<forall>n < length (vData f) * 8. bloom_bit f n \<longrightarrow> bloom_bit f' n)"

lemma grows_refl [simp]: "grows f f"
  by (simp add: grows_def)

lemma grows_trans [trans]: "grows f g \<Longrightarrow> grows g h \<Longrightarrow> grows f h"
  by (simp add: grows_def)

lemma grows_ok: "grows f f' \<Longrightarrow> bloom_ok f \<Longrightarrow> bloom_ok f'"
  unfolding grows_def bloom_ok_def by (metis length_0_conv)

lemma bloom_Hash_index: "vData f \<noteq> [] \<Longrightarrow> bloom_Hash f (of_nat i) k = Some (bloom_index f k i)"
  by (simp add: bloom_index_def bloom_Hash_def)

lemma bloom_index_less: "vData f \<noteq> [] \<Longrightarrow> bloom_index f k i < length (vData f) * 8"
  by (simp add: bloom_index_def bloom_Hash_def)

lemma grows_index: "grows f f' \<Longrightarrow> vData f \<noteq> [] \<Longrightarrow> bloom_index f' k i = bloom_index f k i"
  by (auto simp: grows_def bloom_index_def bloom_Hash_def)

lemma bit_position: "drop_bit 3 n = n div 8" "7 AND n = (n :: nat) mod 8"
  using take_bit_eq_mask [of 3 n] by (simp_all add: drop_bit_eq_div take_bit_eq_mod and.commute mask_eq_exp_minus_1)

lemma bit_2p_u8: "m < 8 \<Longrightarrow> bit ((2 :: u8) ^ m) j \<longleftrightarrow> j = m"
  using bit_flag_u8 [of m True j] by simp

text \<open>One turn of the loop of \<^verbatim>\<open>insert\<close>.\<close>

definition set_bloom_bit :: "CBloomFilter \<Rightarrow> nat \<Rightarrow> CBloomFilter" where
  "set_bloom_bit f n = f\<lparr>vData := (vData f)[n div 8 := vData f ! (n div 8) OR push_bit (n mod 8) 1]\<rparr>"

lemma bloom_bit_set:
  assumes "n < length (vData f) * 8"
  shows "bloom_bit (set_bloom_bit f n) m \<longleftrightarrow> m = n \<or> bloom_bit f m"
proof (cases "n div 8 = m div 8")
  case True
  moreover have "m mod 8 = n mod 8 \<longleftrightarrow> m = n" using True by (metis div_mult_mod_eq)
  ultimately show ?thesis
    using assms by (auto simp: bloom_bit_def set_bloom_bit_def bit_or_iff bit_2p_u8 less_mult_imp_div_less)
next
  case False
  then show ?thesis by (auto simp: bloom_bit_def set_bloom_bit_def)
qed

lemma grows_set: "n < length (vData f) * 8 \<Longrightarrow> grows f (set_bloom_bit f n)"
  using bloom_bit_set [of n f] by (auto simp: grows_def) (simp_all add: set_bloom_bit_def)

lemma insert_loop_Cons:
  "vData f \<noteq> [] \<Longrightarrow> bloom_insert_loop k (i # is) f = bloom_insert_loop k is (set_bloom_bit f (bloom_index f k i))"
  by (simp add: bloom_Hash_index set_bloom_bit_def bit_position)

lemma insert_loop_ok:
  "vData f \<noteq> [] \<Longrightarrow>
   \<exists>f'. bloom_insert_loop k is f = Some f' \<and> grows f f' \<and> (\<forall>i \<in> set is. bloom_bit f' (bloom_index f k i))"
proof (induction "is" arbitrary: f)
  case Nil
  then show ?case by simp
next
  case (Cons i "is")
  let ?n = "bloom_index f k i"
  let ?g = "set_bloom_bit f ?n"
  have n: "?n < length (vData f) * 8" using Cons.prems by (rule bloom_index_less)
  have g: "grows f ?g" using n by (rule grows_set)
  have "vData ?g \<noteq> []" using Cons.prems by (simp add: set_bloom_bit_def)
  from Cons.IH [OF this] obtain f' where f': "bloom_insert_loop k is ?g = Some f'" "grows ?g f'"
      "\<forall>j \<in> set is. bloom_bit f' (bloom_index ?g k j)" by blast
  have "bloom_bit f' ?n" using f'(2) n g bloom_bit_set [OF n, of ?n] by (simp add: grows_def)
  moreover have "bloom_index ?g k j = bloom_index f k j" for j using grows_index [OF g Cons.prems] .
  ultimately show ?case
    using f' grows_trans [OF g f'(2)] insert_loop_Cons [OF Cons.prems, of k i "is"] by auto
qed

lemma contains_loop_eq:
  "vData f \<noteq> [] \<Longrightarrow> bloom_contains_loop f k is = Some (\<forall>i \<in> set is. bloom_bit f (bloom_index f k i))"
  by (induction "is") (auto simp: bloom_Hash_index bit_position and_2p_u8 bloom_bit_def)

lemma bloom_contains_eq:
  "bloom_ok f \<Longrightarrow> bloom_contains f k =
     Some (isFull f \<or> \<not> isEmpty f \<and> (\<forall>i < unat (nHashFuncs f). bloom_bit f (bloom_index f k i)))"
  by (auto simp: bloom_contains_def bloom_ok_def contains_loop_eq)

text \<open>\<open>member f k\<close>: looking up \<open>k\<close> answers yes.\<close>

definition member :: "CBloomFilter \<Rightarrow> bytes \<Rightarrow> bool" where
  "member f k \<longleftrightarrow> bloom_contains f k = Some True"

lemma contains_member: "bloom_ok f \<Longrightarrow> bloom_contains f k = Some (member f k)"
  by (auto simp: member_def bloom_contains_eq)

lemma grows_member:
  assumes "grows f f'" "bloom_ok f" "member f k"
  shows "member f' k"
proof (cases "vData f = []")
  case True
  then show ?thesis using assms by (simp add: bloom_ok_def grows_def member_def bloom_contains_def)
next
  case False
  then show ?thesis
    using assms grows_ok [OF assms(1,2)] grows_index [OF assms(1) False] bloom_index_less [OF False]
    by (auto simp: member_def bloom_contains_eq grows_def)
qed

lemma bloom_insert_ok:
  assumes "bloom_ok f"
  obtains f' where "bloom_insert f k = Some f'" "grows f f'" "member f' k"
proof (cases "isFull f")
  case True
  then show thesis by (intro that [of f]) (simp_all add: bloom_insert_def member_def bloom_contains_def)
next
  case False
  then have ne: "vData f \<noteq> []" using assms by (auto simp: bloom_ok_def)
  from insert_loop_ok [OF ne, of k "[0..<unat (nHashFuncs f)]"] obtain f' where
    f': "bloom_insert_loop k [0..<unat (nHashFuncs f)] f = Some f'" "grows f f'"
      "\<forall>i < unat (nHashFuncs f). bloom_bit f' (bloom_index f k i)" by auto
  let ?g = "f'\<lparr>isEmpty := False\<rparr>"
  have g: "grows f ?g" using f'(2) by (simp add: grows_def bloom_bit_def)
  moreover have "bloom_insert f k = Some ?g" using False f'(1) by (simp add: bloom_insert_def)
  moreover have "member ?g k"
    using f'(3) grows_ok [OF g assms] grows_index [OF g ne] g
    by (simp add: member_def bloom_contains_eq grows_def bloom_bit_def)
  ultimately show thesis using that by blast
qed

section \<open>Relevant transactions\<close>

lemma script_matches_eq:
  "bloom_ok f \<Longrightarrow> script_matches f pc = Some (\<exists>(opcode, data) \<in> set (fst (instructions pc)). data \<noteq> [] \<and> member f data)"
proof (induction f pc rule: script_matches.induct)
  case (1 f pc)
  obtain ok opcode data pc' where g: "GetOp2 pc = (ok, opcode, data, pc')" by (cases "GetOp2 pc")
  show ?case
  proof (cases ok)
    case True
    then have i: "instructions pc = ((opcode, data) # fst (instructions pc'), snd (instructions pc'))"
      using g instructions_ok by simp
    have IH: "script_matches f pc' = Some (\<exists>(opcode, data) \<in> set (fst (instructions pc')). data \<noteq> [] \<and> member f data)"
      if "data = [] \<or> \<not> member f data"
      using 1 g True that contains_member [of f data] by (cases "data = []") auto
    show ?thesis
      using g True IH contains_member [OF 1(3), of data] by (subst script_matches.simps) (auto simp: i split: bool.splits)
  next
    case False
    then show ?thesis using g by (subst script_matches.simps) (simp add: instructions_fail)
  qed
qed

definition matches :: "CBloomFilter \<Rightarrow> CScript \<Rightarrow> bool" where
  "matches f script \<longleftrightarrow> (\<exists>(opcode, data) \<in> set (fst (instructions script)). data \<noteq> [] \<and> member f data)"

lemma script_matches_matches: "bloom_ok f \<Longrightarrow> script_matches f script = Some (matches f script)"
  by (simp add: script_matches_eq matches_def)

lemma grows_matches: "grows f f' \<Longrightarrow> bloom_ok f \<Longrightarrow> matches f script \<Longrightarrow> matches f' script"
  unfolding matches_def using grows_member by fast

abbreviation updates_all :: "CBloomFilter \<Rightarrow> bool" where
  "updates_all f \<equiv> bloom_nFlags f AND BLOOM_UPDATE_MASK = BLOOM_UPDATE_ALL"

lemma update_matched_ok:
  assumes "bloom_ok f"
  obtains f' where "update_matched f script p = Some f'" "grows f f'" "updates_all f \<Longrightarrow> member f' (Serialize_COutPoint p)"
proof -
  obtain f' where "bloom_insert_outpoint f p = Some f'" "grows f f'" "member f' (Serialize_COutPoint p)"
    using bloom_insert_ok [OF assms] by (metis bloom_insert_outpoint_def)
  moreover have "update_matched f script p = bloom_insert_outpoint f p \<or> \<not> updates_all f \<and> update_matched f script p = Some f"
    by (auto simp: update_matched_def split: prod.splits)
  ultimately show thesis using that [of f'] that [of f] by auto
qed

lemma match_outputs_ok:
  "bloom_ok f \<Longrightarrow>
   \<exists>found' f'. match_outputs hash i outs (found, f) = Some (found', f') \<and> grows f f' \<and> (found \<longrightarrow> found') \<and>
     (\<forall>j < length outs. matches f (scriptPubKey (outs ! j)) \<longrightarrow>
        found' \<and> (updates_all f \<longrightarrow> member f' (Serialize_COutPoint (COutPoint hash (of_nat (i + j))))))"
proof (induction outs arbitrary: i found f)
  case Nil
  then show ?case by simp
next
  case (Cons out outs)
  define m where "m = matches f (scriptPubKey out)"
  obtain g where g: "update_matched f (scriptPubKey out) (COutPoint hash (of_nat i)) = Some g" "grows f g"
      "updates_all f \<Longrightarrow> member g (Serialize_COutPoint (COutPoint hash (of_nat i)))"
    using update_matched_ok [OF Cons.prems] by blast
  define h where "h = (if m then g else f)"
  have h: "grows f h" "bloom_ok h" using g(2) Cons.prems grows_ok by (auto simp: h_def)
  from Cons.IH [OF h(2), of "Suc i" "m \<or> found"] obtain found' f' where
    IH: "match_outputs hash (Suc i) outs (m \<or> found, h) = Some (found', f')" "grows h f'" "m \<or> found \<longrightarrow> found'"
      "\<And>j. j < length outs \<Longrightarrow> matches h (scriptPubKey (outs ! j)) \<Longrightarrow>
        found' \<and> (updates_all h \<longrightarrow> member f' (Serialize_COutPoint (COutPoint hash (of_nat (Suc i + j)))))" by auto
  have "match_outputs hash i (out # outs) (found, f) = Some (found', f')"
    using IH(1) g(1) script_matches_matches [OF Cons.prems, of "scriptPubKey out"] by (simp add: h_def m_def split: if_splits)
  moreover have "found' \<and> (updates_all f \<longrightarrow> member f' (Serialize_COutPoint (COutPoint hash (of_nat (i + j)))))"
    if "j < length (out # outs)" "matches f (scriptPubKey ((out # outs) ! j))" for j
  proof (cases j)
    case 0
    then have "m" using that(2) by (simp add: m_def)
    then show ?thesis using 0 IH(2,3) g(3) grows_member [OF IH(2) h(2)] by (auto simp: h_def)
  next
    case (Suc k)
    then show ?thesis
      using that IH(4) [of k] grows_matches [OF h(1) Cons.prems] h(1) by (simp add: grows_def)
  qed
  ultimately show ?case using IH(3) grows_trans [OF h(1) IH(2)] by blast
qed

lemma match_inputs_eq:
  "bloom_ok f \<Longrightarrow> match_inputs f ins =
     Some (\<exists>txin \<in> set ins. member f (Serialize_COutPoint (prevout txin)) \<or> matches f (scriptSig txin))"
  by (induction ins) (auto simp: bloom_contains_outpoint_def contains_member script_matches_matches split: bool.splits)

lemma IsRelevantAndUpdate_ok:
  assumes "bloom_ok f"
  obtains r f' where "IsRelevantAndUpdate GetHash f tx = Some (r, f')" "grows f f'"
    "\<And>j. j < length (vout tx) \<Longrightarrow> matches f (scriptPubKey (vout tx ! j)) \<Longrightarrow>
      r \<and> (updates_all f \<longrightarrow> member f' (Serialize_COutPoint (COutPoint (GetHash tx) (of_nat j))))"
    "\<And>txin. txin \<in> set (vin tx) \<Longrightarrow> member f (Serialize_COutPoint (prevout txin)) \<Longrightarrow> r"
proof -
  consider (full) "isFull f" | (empty) "\<not> isFull f" "isEmpty f" | (other) "\<not> isFull f" "\<not> isEmpty f" by blast
  then show thesis
  proof cases
    case full
    then show thesis
      by (intro that [of True f]) (simp_all add: IsRelevantAndUpdate_def member_def bloom_contains_def)
  next
    case empty
    then have "\<not> member f k" for k by (simp add: member_def bloom_contains_def)
    then show thesis
      using empty by (intro that [of False f]) (auto simp: IsRelevantAndUpdate_def matches_def)
  next
    case other
    obtain found where c: "bloom_contains_hash f (GetHash tx) = Some found"
      using contains_member [OF assms] by (simp add: bloom_contains_hash_def)
    from match_outputs_ok [OF assms, of "GetHash tx" 0 "vout tx" found] obtain found' f' where
      f': "match_outputs (GetHash tx) 0 (vout tx) (found, f) = Some (found', f')" "grows f f'"
        "\<And>j. j < length (vout tx) \<Longrightarrow> matches f (scriptPubKey (vout tx ! j)) \<Longrightarrow>
          found' \<and> (updates_all f \<longrightarrow> member f' (Serialize_COutPoint (COutPoint (GetHash tx) (of_nat j))))" by auto
    have ok: "bloom_ok f'" using f'(2) assms by (rule grows_ok)
    show thesis
      using other c f' match_inputs_eq [OF ok, of "vin tx"] grows_member [OF f'(2) assms]
      by (intro that [of "found' \<or> the (match_inputs f' (vin tx))" f']) (auto simp: IsRelevantAndUpdate_def)
  qed
qed

section \<open>What a peer can do to its filter\<close>

inductive peer_reachable :: "(CTransaction \<Rightarrow> uint256) \<Rightarrow> filter_peer \<Rightarrow> bool" for GetHash where
  start: "pfilter peer = Some CBloomFilter_default \<Longrightarrow> peer_reachable GetHash peer"
| message: "peer_reachable GetHash peer \<Longrightarrow> ProcessFilterMessage m peer = Some (Inr peer') \<Longrightarrow> peer_reachable GetHash peer'"
| relay: "peer_reachable GetHash peer \<Longrightarrow> pfilter peer = Some f \<Longrightarrow> IsRelevantAndUpdate GetHash f tx = Some (r, f') \<Longrightarrow>
    peer_reachable GetHash (peer\<lparr>pfilter := Some f'\<rparr>)"

text \<open>\<open>filter_later GetHash f f'\<close>: keys are inserted into \<open>f\<close> and transactions matched against it, until it is \<open>f'\<close>.\<close>

inductive filter_later :: "(CTransaction \<Rightarrow> uint256) \<Rightarrow> CBloomFilter \<Rightarrow> CBloomFilter \<Rightarrow> bool" for GetHash where
  same: "filter_later GetHash f f"
| inserted: "filter_later GetHash f g \<Longrightarrow> bloom_insert g k = Some h \<Longrightarrow> filter_later GetHash f h"
| matched: "filter_later GetHash f g \<Longrightarrow> IsRelevantAndUpdate GetHash g tx = Some (r, h) \<Longrightarrow> filter_later GetHash f h"

lemma later_grows: "filter_later GetHash f g \<Longrightarrow> bloom_ok f \<Longrightarrow> grows f g"
proof (induction rule: filter_later.induct)
  case (same f)
  then show ?case by simp
next
  case (inserted f g k h)
  then have "grows f g" "bloom_ok g" using grows_ok by auto
  then show ?case using inserted.hyps(2) bloom_insert_ok [of g k] grows_trans by (metis option.inject)
next
  case (matched f g tx r h)
  then have "grows f g" "bloom_ok g" using grows_ok by auto
  then show ?case
    using matched.hyps(2) IsRelevantAndUpdate_ok [of g GetHash tx] grows_trans by (metis option.inject prod.inject)
qed

definition peer_ok :: "filter_peer \<Rightarrow> bool" where
  "peer_ok peer \<longleftrightarrow> (\<exists>f. pfilter peer = Some f \<and> bloom_ok f)"

lemma peer_ok_simps [simp]:
  "peer_ok (peer\<lparr>pfilter := Some f\<rparr>) \<longleftrightarrow> bloom_ok f" "peer_ok (peer\<lparr>fRelayTxes := b\<rparr>) \<longleftrightarrow> peer_ok peer"
  "peer_ok (refuse_bloom peer) \<longleftrightarrow> peer_ok peer" "peer_ok (Misbehaving100 peer) \<longleftrightarrow> peer_ok peer"
  by (simp_all add: peer_ok_def refuse_bloom_def Misbehaving100_def)

lemma fresh_filter_ok [simp]: "bloom_ok CBloomFilter_default" "bloom_ok (UpdateEmptyFull f)"
  by (simp_all add: bloom_ok_def CBloomFilter_default_def UpdateEmptyFull_def)

lemma filteradd_ok:
  assumes "peer_ok peer"
  shows "\<exists>r. handle_filteradd bs peer = Some r \<and> (\<forall>peer'. r = Inr peer' \<longrightarrow> peer_ok peer')"
proof -
  obtain f where f: "pfilter peer = Some f" "bloom_ok f" using assms by (auto simp: peer_ok_def)
  have "\<exists>f'. bloom_insert f k = Some f' \<and> bloom_ok f'" for k
    using bloom_insert_ok [OF f(2), of k] grows_ok f(2) by metis
  from this [of "fst (projr (Unserialize_bytes bs))"] show ?thesis
    using assms f(1) by (auto simp: handle_filteradd_def split: sum.splits prod.splits)
qed

lemma message_ok:
  "peer_ok peer \<Longrightarrow> \<exists>r. ProcessFilterMessage m peer = Some r \<and> (\<forall>peer'. r = Inr peer' \<longrightarrow> peer_ok peer')"
  using filteradd_ok [of peer]
  by (cases m) (auto simp: handle_filterload_def handle_filterclear_def split: sum.splits prod.splits)

lemma peer_filter_ok: "peer_reachable GetHash peer \<Longrightarrow> peer_ok peer"
proof (induction rule: peer_reachable.induct)
  case (start peer)
  then show ?case by (simp add: peer_ok_def)
next
  case (message peer m peer')
  then show ?case using message_ok [of peer m] by auto
next
  case (relay peer f tx r f')
  then have "bloom_ok f" by (simp add: peer_ok_def)
  then show ?case using IsRelevantAndUpdate_ok [of f GetHash tx] relay.hyps(3) grows_ok by fastforce
qed

definition sample_peer :: filter_peer where
  "sample_peer = \<lparr>pfilter = Some CBloomFilter_default, fRelayTxes = False, serves_bloom = True, peer_version = 70213,
     fDisconnect = False, misbehaving = 0\<rparr>"

text \<open>A filter of two bytes with one hash function and the flag to update on every match.\<close>

definition sample_filter :: CBloomFilter where
  "sample_filter = \<lparr>vData = [0, 0], isFull = False, isEmpty = True, nHashFuncs = 1, nTweak = 0, bloom_nFlags = 1\<rparr>"

definition loaded_peer :: filter_peer where
  "loaded_peer = sample_peer\<lparr>pfilter := Some sample_filter, fRelayTxes := True\<rparr>"

definition paying_tx :: CTransaction where
  "paying_tx = \<lparr>nVersion = 1, nType = 0, vin = [], vout = [\<lparr>nValue = 1, scriptPubKey = [1, 5], nRounds = -10\<rparr>],
     nLockTime = 0, vExtraPayload = []\<rparr>"

lemma sample_reachable: "peer_reachable GetHash loaded_peer"
proof (rule peer_reachable.message)
  let ?f = "sample_filter\<lparr>isFull := True, isEmpty := False\<rparr>"
  show "peer_reachable GetHash sample_peer" by (rule peer_reachable.start) (simp add: sample_peer_def)
  have "received_filter ?f" by (simp add: received_filter_def sample_filter_def vec_ok_def MAX_SIZE_def)
  from ser_bloom.roundtrip [OF this, of "[]"]
  have "handle_filterload (Serialize_CBloomFilter ?f) sample_peer = Inr loaded_peer"
    by (simp add: handle_filterload_def loaded_peer_def IsWithinSizeConstraints_def MAX_BLOOM_FILTER_SIZE_def MAX_HASH_FUNCS_def
      UpdateEmptyFull_def sample_filter_def)
  then show "ProcessFilterMessage (FILTERLOAD (Serialize_CBloomFilter ?f)) sample_peer = Some (Inr loaded_peer)"
    by (simp add: sample_peer_def)
qed

text \<open>
  (C39) Whatever messages a peer sends to set its filter, and whatever transactions are matched against it in between,
  the node never divides by zero: every later message is handled or rejected by the reader, and every lookup and every
  match returns. The peer always has a filter.
\<close>

theorem peer_filter_safe:
  assumes "peer_reachable GetHash peer"
  shows "\<exists>f. pfilter peer = Some f \<and> ProcessFilterMessage m peer \<noteq> None \<and> bloom_contains f k \<noteq> None \<and>
    IsRelevantAndUpdate GetHash f tx \<noteq> None"
proof -
  have p: "peer_ok peer" using assms by (rule peer_filter_ok)
  then obtain f where f: "pfilter peer = Some f" "bloom_ok f" by (auto simp: peer_ok_def)
  have "ProcessFilterMessage m peer \<noteq> None" using message_ok [OF p] by (metis option.discI)
  moreover have "IsRelevantAndUpdate GetHash f tx \<noteq> None" using IsRelevantAndUpdate_ok [OF f(2)] by (metis option.discI)
  ultimately show ?thesis using f contains_member by simp
qed

theorem peer_filter_safe_witness:
  "\<exists>f. pfilter loaded_peer = Some f \<and> ProcessFilterMessage (FILTERADD [1, 5]) loaded_peer \<noteq> None \<and>
     bloom_contains f [5] \<noteq> None \<and> IsRelevantAndUpdate (\<lambda>_. 7) f paying_tx \<noteq> None"
  by (rule peer_filter_safe [OF sample_reachable])

text \<open>
  (C38) A client that has added a key to its filter, with the flag to update on every match, is told of all that
  happens to it: a transaction with an output whose script contains the key is relevant, and so is every later transaction that
  spends this output, whatever has been inserted and matched in between.
\<close>

theorem filter_follows_coins:
  assumes "peer_reachable GetHash peer" "pfilter peer = Some f0" "bloom_nFlags f0 AND BLOOM_UPDATE_MASK = BLOOM_UPDATE_ALL"
    and "bloom_insert f0 key = Some f1" "key \<noteq> []" "filter_later GetHash f1 f"
    and "i < length (vout tx)" "(opcode, key) \<in> set (fst (instructions (scriptPubKey (vout tx ! i))))"
  shows "\<exists>f'. IsRelevantAndUpdate GetHash f tx = Some (True, f') \<and>
    (\<forall>f'' tx' txin. filter_later GetHash f' f'' \<and> txin \<in> set (vin tx') \<and> prevout txin = COutPoint (GetHash tx) (of_nat i) \<longrightarrow>
       (\<exists>g. IsRelevantAndUpdate GetHash f'' tx' = Some (True, g)))"
proof -
  have ok0: "bloom_ok f0" using peer_filter_ok [OF assms(1)] assms(2) by (simp add: peer_ok_def)
  have f1: "grows f0 f1" "member f1 key" using bloom_insert_ok [OF ok0, of key] assms(4) by auto
  have ok1: "bloom_ok f1" using grows_ok f1(1) ok0 .
  have f: "grows f1 f" using later_grows assms(6) ok1 .
  have "updates_all f" using f f1(1) assms(3) by (simp add: grows_def)
  then have ok: "bloom_ok f" "member f key" "updates_all f"
    using grows_ok [OF f ok1] grows_member [OF f ok1 f1(2)] by simp_all
  then have m: "matches f (scriptPubKey (vout tx ! i))" using assms(5,8) by (auto simp: matches_def)
  obtain r f' where f': "IsRelevantAndUpdate GetHash f tx = Some (r, f')" "grows f f'" "r"
      "member f' (Serialize_COutPoint (COutPoint (GetHash tx) (of_nat i)))"
    using IsRelevantAndUpdate_ok [OF ok(1), of GetHash tx] assms(7) m ok(3) by metis
  have "\<exists>g. IsRelevantAndUpdate GetHash f'' tx' = Some (True, g)"
    if "filter_later GetHash f' f''" "txin \<in> set (vin tx')" "prevout txin = COutPoint (GetHash tx) (of_nat i)" for f'' tx' txin
  proof -
    have ok': "bloom_ok f'" using f'(2) ok(1) by (rule grows_ok)
    have l: "grows f' f''" using that(1) ok' by (rule later_grows)
    have "member f'' (Serialize_COutPoint (prevout txin))" "bloom_ok f''"
      using grows_member [OF l ok' f'(4)] grows_ok [OF l ok'] that(3) by simp_all
    then show ?thesis using IsRelevantAndUpdate_ok [of f'' GetHash tx'] that(2) by metis
  qed
  then show ?thesis using f'(1,3) by auto
qed

theorem filter_follows_coins_witness:
  "\<exists>f'. IsRelevantAndUpdate (\<lambda>_. 7) (sample_filter\<lparr>vData := [0x20, 0], isEmpty := False\<rparr>) paying_tx = Some (True, f') \<and>
    (\<forall>f'' tx' txin. filter_later (\<lambda>_. 7) f' f'' \<and> txin \<in> set (vin tx') \<and> prevout txin = COutPoint 7 (of_nat 0) \<longrightarrow>
       (\<exists>g. IsRelevantAndUpdate (\<lambda>_. 7) f'' tx' = Some (True, g)))"
proof (rule filter_follows_coins [OF sample_reachable _ _ _ _ filter_later.same])
  show "pfilter loaded_peer = Some sample_filter" by (simp add: loaded_peer_def)
  show "bloom_nFlags sample_filter AND BLOOM_UPDATE_MASK = BLOOM_UPDATE_ALL" by code_simp
  have "MurmurHash3 0 [5] = 0x53cac555" by (simp add: MurmurHash3_def murmur_tail_def murmur_mix_def ROTL32_def)
  then show "bloom_insert sample_filter [5] = Some (sample_filter\<lparr>vData := [0x20, 0], isEmpty := False\<rparr>)"
    by (simp add: bloom_insert_def bloom_Hash_def sample_filter_def bit_position)
  have "GetOp2 [1, 5] = (True, 1, [5], [])" by code_simp
  from instructions_ok [OF this]
  show "(1, [5]) \<in> set (fst (instructions (scriptPubKey (vout paying_tx ! 0))))" by (simp add: paying_tx_def)
  show "[5 :: u8] \<noteq> []" "0 < length (vout paying_tx)" by (simp_all add: paying_tx_def)
qed

end
