(* ===== verification/Partial_Merkle_Props.thy ===== *)
theory Partial_Merkle_Props
  imports Partial_Merkle Bloom_Props
begin

unbundle bit_operations_syntax

text \<open>
  A partial tree that is built, sent and read back proves its transactions: the extraction returns the Merkle root of the
  block and exactly the matched transactions at their positions. And whatever partial tree a peer sends, the transactions
  extracted with the root of a block are transactions of that block.
\<close>

section \<open>Widths and positions\<close>

text \<open>The largest tree that the extraction accepts has far fewer than 2 to the 30 leaves.\<close>

lemma unat_shiftr_u32: "unat (drop_bit k (w :: u32)) = unat w div 2 ^ k"
  unfolding unat_drop_bit_eq by (simp add: drop_bit_eq_div)

lemma ceil_div_less: "m < (n + 2 ^ k - 1) div 2 ^ k \<longleftrightarrow> m * 2 ^ k < (n :: nat)"
proof -
  have "m < (n + 2 ^ k - 1) div 2 ^ k \<longleftrightarrow> (m + 1) * 2 ^ k \<le> n + 2 ^ k - 1"
    by (simp add: Suc_le_eq [symmetric] less_eq_div_iff_mult_less_eq)
  also have "\<dots> \<longleftrightarrow> m * 2 ^ k < n"
  proof -
    have "q + p \<le> n + p - 1 \<longleftrightarrow> q < n" if "0 < p" for p q :: nat using that by linarith
    from this [of "2 ^ k" "m * 2 ^ k"] show ?thesis by (simp add: algebra_simps)
  qed
  finally show ?thesis .
qed

lemma unat_width:
  assumes "unat n \<le> 2 ^ 30" "k \<le> 30"
  shows "unat (CalcTreeWidth n k) = (unat n + 2 ^ k - 1) div 2 ^ k"
proof -
  have "(2 :: nat) ^ k \<le> 2 ^ 30" using assms(2) by (rule power_increasing) simp
  moreover have "unat (2 ^ k :: u32) = 2 ^ k" using assms(2) by (intro unat_2p) simp
  moreover have "Suc 0 \<le> unat n + 2 ^ k" using zero_less_power [of "2 :: nat" k] by linarith
  ultimately have "unat (n + push_bit k 1 - 1) = unat n + 2 ^ k - 1"
    using assms(1) by (simp add: unat_word_ariths unat_sub_if')
  then show ?thesis by (simp add: CalcTreeWidth_def unat_shiftr_u32)
qed

text \<open>
  \<open>node n k pos a\<close>: the node at height \<open>k\<close> and position \<open>pos\<close> exists in a tree over \<open>n\<close> leaves and covers the leaves from \<open>a\<close> on.
\<close>

definition node :: "u32 \<Rightarrow> nat \<Rightarrow> u32 \<Rightarrow> nat \<Rightarrow> bool" where
  "node n k pos a \<longleftrightarrow> unat n \<le> 2 ^ 30 \<and> k \<le> 30 \<and> a = unat pos * 2 ^ k \<and> a < unat n"

lemma node_dvd: "node n k pos a \<Longrightarrow> 2 ^ k dvd a"
  by (simp add: node_def)

lemma node_less: "node n k pos a \<Longrightarrow> a < unat n"
  by (simp add: node_def)

lemma node_children:
  assumes "node n (Suc k) pos a"
  shows "node n k (pos * 2) a" "pos * 2 + 1 < CalcTreeWidth n k \<longleftrightarrow> a + 2 ^ k < unat n"
    "a + 2 ^ k < unat n \<Longrightarrow> node n k (pos * 2 + 1) (a + 2 ^ k)"
proof -
  have n: "unat n \<le> 2 ^ 30" "k \<le> 30" "a = unat pos * 2 * 2 ^ k" "a < unat n" using assms by (simp_all add: node_def)
  have "unat pos * 2 \<le> a" using n(3) by simp
  then have p: "unat (pos * 2) = unat pos * 2" "unat (pos * 2 + 1) = unat pos * 2 + 1"
    using n(1,4) by (simp_all add: unat_word_ariths)
  show "node n k (pos * 2) a" using n p by (simp add: node_def)
  show "pos * 2 + 1 < CalcTreeWidth n k \<longleftrightarrow> a + 2 ^ k < unat n"
    unfolding word_less_nat_alt unat_width [OF n(1,2)] ceil_div_less p by (simp add: n(3) algebra_simps)
  show "node n k (pos * 2 + 1) (a + 2 ^ k)" if "a + 2 ^ k < unat n" using n p that by (simp add: node_def algebra_simps)
qed

lemma tree_height_bounds:
  assumes "0 < unat n" "unat n \<le> 2 ^ 30"
  shows "k \<le> 30 \<Longrightarrow> k = 0 \<or> 2 ^ (k - 1) < unat n \<Longrightarrow>
    tree_height n k \<le> 30 \<and> unat n \<le> 2 ^ tree_height n k \<and> (tree_height n k = 0 \<or> 2 ^ (tree_height n k - 1) < unat n)"
  using assms
proof (induction n k rule: tree_height.induct)
  case (1 n k)
  have w: "CalcTreeWidth n k > 1 \<longleftrightarrow> 2 ^ k < unat n"
    using unat_width [OF "1.prems"(4,1)] ceil_div_less [of 1 "unat n" k] by (simp add: word_less_nat_alt)
  show ?case
  proof (cases "2 ^ k < unat n")
    case True
    moreover have "k \<noteq> 30" using True "1.prems"(4) by auto
    then have "k + 1 \<le> 30" using "1.prems"(1) by simp
    ultimately show ?thesis using 1 w by (subst (1 2 3 4) tree_height.simps) simp
  next
    case False
    then show ?thesis using 1 w by (subst (1 2 3 4) tree_height.simps) simp
  qed
qed

lemma tree_height_eq:
  assumes "0 < unat n" "unat n \<le> 2 ^ 30"
  shows "tree_height n 0 = merkle_height (unat n)" "node n (tree_height n 0) 0 0"
proof -
  have t: "tree_height n 0 \<le> 30" "unat n \<le> 2 ^ tree_height n 0" "tree_height n 0 = 0 \<or> 2 ^ (tree_height n 0 - 1) < unat n"
    using tree_height_bounds [OF assms, of 0] by auto
  note m = merkle_height [OF assms(1)]
  have "k \<le> l" if "unat n \<le> 2 ^ l" "k = 0 \<or> 2 ^ (k - 1) < unat n" for k l
  proof (rule ccontr)
    assume "\<not> k \<le> l"
    then have "(2 :: nat) ^ l \<le> 2 ^ (k - 1)" by (intro power_increasing) simp_all
    then have "unat n \<le> 2 ^ (k - 1)" using that(1) by (rule order_trans [rotated])
    then show False using that(2) \<open>\<not> k \<le> l\<close> by auto
  qed
  then show "tree_height n 0 = merkle_height (unat n)" using t(2,3) m by (intro antisym) blast+
  show "node n (tree_height n 0) 0 0" using assms t(1) by (simp add: node_def)
qed

section \<open>Building\<close>

text \<open>
  \<open>leaves L a k\<close> are the leaves below a node of height \<open>k\<close>; \<open>pmt H k L\<close> are the bits and hashes of the partial tree over the
  leaves \<open>L\<close>, which are pairs of a hash and its flag.
\<close>

definition leaves :: "'a list \<Rightarrow> nat \<Rightarrow> nat \<Rightarrow> 'a list" where
  "leaves L a k = take (2 ^ k) (drop a L)"

fun pmt :: "hash2 \<Rightarrow> nat \<Rightarrow> (uint256 \<times> bool) list \<Rightarrow> bool list \<times> uint256 list" where
  "pmt H 0 L = ([snd (hd L)], [fst (hd L)])"
| "pmt H (Suc k) L =
     (if \<not> list_ex snd L then ([False], [tree H (Suc k) (map fst L)])
      else if length L \<le> 2 ^ k then (True # fst (pmt H k L), snd (pmt H k L))
      else (True # fst (pmt H k (take (2 ^ k) L)) @ fst (pmt H k (drop (2 ^ k) L)),
            snd (pmt H k (take (2 ^ k) L)) @ snd (pmt H k (drop (2 ^ k) L))))"

lemma leaves_not_Nil: "a < length L \<Longrightarrow> leaves L a k \<noteq> []"
  by (simp add: leaves_def)

lemma map_leaves: "map f (leaves L a k) = leaves (map f L) a k"
  by (simp add: leaves_def take_map drop_map)

lemma leaves_seg: "leaves L a k = seg L a k"
  by (simp add: leaves_def seg_def)

lemma hd_leaves: "a < length L \<Longrightarrow> hd (leaves L a k) = L ! a"
  by (simp add: leaves_def hd_drop_conv_nth)

lemma leaves_upt: "leaves m a k = map ((!) m) [a..<min (a + 2 ^ k) (length m)]"
proof -
  have "leaves m a k = leaves (map ((!) m) [0..<length m]) a k" by (simp only: map_nth)
  also have "\<dots> = map ((!) m) (take (2 ^ k) [a..<length m])" by (simp add: leaves_def drop_map take_map)
  also have "take (2 ^ k) [a..<length m] = [a..<min (a + 2 ^ k) (length m)]" by (cases "a + 2 ^ k \<le> length m") simp_all
  finally show ?thesis .
qed

lemma leaves_long:
  assumes "a + 2 ^ k < length L"
  shows "\<not> length (leaves L a (Suc k)) \<le> 2 ^ k" "take (2 ^ k) (leaves L a (Suc k)) = leaves L a k"
    "drop (2 ^ k) (leaves L a (Suc k)) = leaves L (a + 2 ^ k) k"
  using assms by (auto simp: leaves_def min_def drop_take add.commute)

lemma leaves_short:
  assumes "length L \<le> a + 2 ^ k"
  shows "length (leaves L a (Suc k)) \<le> 2 ^ k" "leaves L a (Suc k) = leaves L a k"
  using assms by (auto simp: leaves_def)

lemma CalcHash_tree:
  "node n k pos a \<Longrightarrow> length v = unat n \<Longrightarrow> CalcHash H n k pos v = tree H k (leaves v a k)"
proof (induction k arbitrary: pos a)
  case 0
  then show ?case by (simp add: node_def hd_leaves)
next
  case (Suc k)
  note c = node_children [OF Suc.prems(1)]
  show ?case
  proof (cases "a + 2 ^ k < unat n")
    case True
    then show ?thesis
      using Suc.IH [OF c(1) Suc.prems(2)] Suc.IH [OF c(3) [OF True] Suc.prems(2)] c(2) tree_join [of a k v H] Suc.prems(2)
      by (simp add: leaves_seg Let_def)
  next
    case False
    then show ?thesis
      using Suc.IH [OF c(1) Suc.prems(2)] c(2) seg_dup [of v a k H] Suc.prems(2) by (simp add: leaves_seg Let_def)
  qed
qed

lemma parent_of_match_leaves:
  assumes "node n k pos a" "length v = unat n" "length m = unat n"
  shows "parent_of_match n k pos m = list_ex snd (leaves (zip v m) a k)"
proof -
  have n: "unat n \<le> 2 ^ 30" "k \<le> 30" "a = unat pos * 2 ^ k" "a < unat n" using assms(1) by (simp_all add: node_def)
  have k: "(2 :: nat) ^ k \<le> 2 ^ 30" using n(2) by (rule power_increasing) simp
  have "unat pos \<le> unat pos * 2 ^ k" by simp
  then have "unat pos < 2 ^ 30" using n(1,3,4) by (meson order_le_less_trans order_less_le_trans)
  then have "unat pos + 1 < 2 ^ 32" by simp
  then have p: "unat (pos + 1) = unat pos + 1" by (simp add: unat_word_ariths)
  have s: "unat (push_bit k w) = unat w * 2 ^ k" if "unat w * 2 ^ k < 2 ^ 32" for w :: u32
    using that unat_2p [of k, where 'a = 32] n(2) by (simp add: push_bit_eq_mult unat_word_ariths)
  have "unat (push_bit k pos) = a" using s [of pos] n by simp
  moreover have "unat (push_bit k (pos + 1)) = a + 2 ^ k" using s [of "pos + 1"] n k p by (simp add: algebra_simps)
  moreover have "list_ex (\<lambda>p. m ! p) [a..<min (a + 2 ^ k) (unat n)] = list_ex id (leaves m a k)"
    by (simp add: leaves_upt assms(3) list_ex_iff)
  moreover have "leaves m a k = map snd (leaves (zip v m) a k)" using assms(2,3) by (simp add: map_leaves)
  ultimately show ?thesis by (simp add: parent_of_match_def list_ex_iff)
qed

lemma TraverseAndBuild_pmt:
  "node n k pos a \<Longrightarrow> length v = unat n \<Longrightarrow> length m = unat n \<Longrightarrow>
   TraverseAndBuild H n k pos v m (bits, hashes) =
     (bits @ fst (pmt H k (leaves (zip v m) a k)), hashes @ snd (pmt H k (leaves (zip v m) a k)))"
proof (induction k arbitrary: pos a bits hashes)
  case 0
  then have "a < length (zip v m)" by (simp add: node_def)
  then show ?case
    using parent_of_match_leaves [OF 0] CalcHash_tree [OF 0(1,2), of H] 0
    by (simp add: node_def hd_leaves leaves_def list_ex_iff take_Suc hd_drop_conv_nth)
next
  case (Suc k)
  let ?Z = "zip v m"
  note c = node_children [OF Suc.prems(1)]
  note parent = parent_of_match_leaves [OF Suc.prems]
  have v: "map fst ?Z = v" "length ?Z = unat n" using Suc.prems by simp_all
  have hash: "CalcHash H n (Suc k) pos v = tree H (Suc k) (map fst (leaves ?Z a (Suc k)))"
    using CalcHash_tree [OF Suc.prems(1,2)] v(1) by (simp only: map_leaves)
  note IH = Suc.IH [OF _ Suc.prems(2,3)]
  show ?case
  proof (cases "a + 2 ^ k < unat n")
    case True
    have h: "\<not> length (leaves ?Z a (Suc k)) \<le> 2 ^ k" "take (2 ^ k) (leaves ?Z a (Suc k)) = leaves ?Z a k"
        "drop (2 ^ k) (leaves ?Z a (Suc k)) = leaves ?Z (a + 2 ^ k) k"
      using leaves_long [of a k ?Z] True v(2) by (simp_all del: length_zip)
    then show ?thesis
      using True c(2) IH [OF c(1)] IH [OF c(3) [OF True]]
      by (simp add: parent hash Let_def del: CalcHash.simps tree.simps)
  next
    case False
    have "length (leaves ?Z a (Suc k)) \<le> 2 ^ k" "leaves ?Z a (Suc k) = leaves ?Z a k"
      using leaves_short [of ?Z a k] False v(2) by (simp_all del: length_zip)
    then show ?thesis
      using False c(2) IH [OF c(1)] by (simp add: parent hash Let_def del: CalcHash.simps tree.simps)
  qed
qed

section \<open>Extracting what was built\<close>

text \<open>The positions of the matched leaves below a node.\<close>

definition hits :: "bool list \<Rightarrow> nat \<Rightarrow> nat \<Rightarrow> nat list" where
  "hits m a k = filter (\<lambda>i. m ! i) [a..<min (a + 2 ^ k) (length m)]"

lemma hits_long: "a + 2 ^ k < length m \<Longrightarrow> hits m a (Suc k) = hits m a k @ hits m (a + 2 ^ k) k"
  using upt_add_eq_append [of a "a + 2 ^ k" "min (a + 2 ^ k + 2 ^ k) (length m) - (a + 2 ^ k)"]
  unfolding hits_def filter_append [symmetric] by (simp add: mult_2 add.assoc [symmetric])

lemma hits_short: "length m \<le> a + 2 ^ k \<Longrightarrow> hits m a (Suc k) = hits m a k"
  using order_trans [of "length m" "a + 2 ^ k" "a + 2 ^ Suc k"] by (simp add: hits_def min_absorb2)

lemma hits_Nil: "length v = length m \<Longrightarrow> hits m a k = [] \<longleftrightarrow> \<not> list_ex snd (leaves (zip v m) a k)"
proof -
  assume "length v = length m"
  then have "map snd (leaves (zip v m) a k) = leaves m a k" by (simp add: map_leaves)
  then have "map snd (leaves (zip v m) a k) = map ((!) m) [a..<min (a + 2 ^ k) (length m)]" by (simp only: leaves_upt)
  from arg_cong [OF this, of "list_ex id"] show ?thesis by (auto simp: hits_def filter_empty_conv list_ex_iff)
qed

definition advance :: "extraction \<Rightarrow> nat \<Rightarrow> nat \<Rightarrow> uint256 list \<Rightarrow> u32 list \<Rightarrow> extraction" where
  "advance st b h ms is = st\<lparr>nBitsUsed := nBitsUsed st + b, nHashUsed := nHashUsed st + h,
     xMatch := xMatch st @ ms, xIndex := xIndex st @ is\<rparr>"

lemma advance_advance [simp]: "advance (advance st b h ms is) b' h' ms' is' = advance st (b + b') (h + h') (ms @ ms') (is @ is')"
  by (simp add: advance_def)

lemma advance_sel [simp]:
  "nBitsUsed (advance st b h ms is) = nBitsUsed st + b" "nHashUsed (advance st b h ms is) = nHashUsed st + h"
  "xBad (advance st b h ms is) = xBad st"
  by (simp_all add: advance_def)

lemma drop_cases: "drop n xs = x # ys \<longleftrightarrow> n < length xs \<and> xs ! n = x \<and> drop (Suc n) xs = ys"
  by (cases "n < length xs") (auto simp: Cons_nth_drop_Suc [symmetric])

lemma drop_after: "drop n xs = ys @ zs \<Longrightarrow> drop (n + length ys) xs = zs"
  by (metis add.commute append_eq_conv_conj drop_drop)

lemma siblings_differ:
  assumes "inj_on (\<lambda>(x, y). H x y) S" "\<not> has_twins H v" "2 ^ Suc k dvd a" "a + 2 ^ k < length v"
    and "tree_pairs H k (seg v a k) \<subseteq> S" "tree_pairs H k (seg v (a + 2 ^ k) k) \<subseteq> S"
  shows "tree H k (seg v a k) \<noteq> tree H k (seg v (a + 2 ^ k) k)"
proof
  assume eq: "tree H k (seg v a k) = tree H k (seg v (a + 2 ^ k) k)"
  have "2 ^ k dvd a" using assms(3) by (rule dvd_trans [rotated]) simp
  then have "seg v a k = seg v (a + 2 ^ k) k"
    using same_tree [OF assms(1,2,2) _ assms(4) _ _ assms(5,6) eq] assms(4) by simp
  then show False using equal_halves_twins [OF assms(4,3)] assms(2) by blast
qed

lemma extract_pmt:
  assumes inj: "inj_on (\<lambda>(x, y). H x y) S" "\<not> has_twins H v"
    and len: "length v = unat (nTransactions t)" "length m = unat (nTransactions t)"
  shows "node (nTransactions t) k pos a \<Longrightarrow> tree_pairs H k (seg v a k) \<subseteq> S \<Longrightarrow>
    drop (nBitsUsed st) (vBits t) = fst (pmt H k (leaves (zip v m) a k)) @ bits \<Longrightarrow>
    drop (nHashUsed st) (vHash t) = snd (pmt H k (leaves (zip v m) a k)) @ hashes \<Longrightarrow>
    TraverseAndExtract H t k pos st = (tree H k (seg v a k),
      advance st (length (fst (pmt H k (leaves (zip v m) a k)))) (length (snd (pmt H k (leaves (zip v m) a k))))
        (map ((!) v) (hits m a k)) (map of_nat (hits m a k)))"
proof (induction k arbitrary: pos a st bits hashes)
  case 0
  have "a < unat (nTransactions t)" "of_nat a = pos" using 0(1) by (auto simp: node_def)
  moreover have "hits m a 0 = (if m ! a then [a] else [])" using calculation(1) len by (simp add: hits_def)
  moreover have "leaves (zip v m) a 0 = [(v ! a, m ! a)]" "seg v a 0 = [v ! a]"
    using calculation(1) len by (simp_all add: leaves_def seg_def take_Suc hd_drop_conv_nth)
  ultimately show ?case
    using 0(3,4) by (auto simp: drop_cases take_hash_def advance_def Let_def)
next
  case (Suc k)
  let ?Z = "zip v m"
  note c = node_children [OF Suc.prems(1)]
  have Z: "length ?Z = length v" "a < length v" and mv: "length v = length m" using len node_less [OF Suc.prems(1)] by simp_all
  show ?case
  proof (cases "list_ex snd (leaves ?Z a (Suc k))")
    case False
    then have "hits m a (Suc k) = []" using hits_Nil [OF mv] by simp
    moreover have "map fst (leaves ?Z a (Suc k)) = seg v a (Suc k)" using mv by (simp add: map_leaves leaves_seg)
    ultimately show ?thesis
      using False Suc.prems(3,4) by (auto simp: drop_cases take_hash_def advance_def Let_def simp del: tree.simps)
  next
    case True
    note ex = True
    let ?st = "st\<lparr>nBitsUsed := nBitsUsed st + 1\<rparr>"
    show ?thesis
      using Z(2)
    proof (cases rule: seg_halves [of _ _ k H])
      case short
      note s = leaves_short [of ?Z a k, unfolded Z(1), OF short(1)]
      have p: "tree_pairs H k (seg v a k) \<subseteq> S" using Suc.prems(2) short(4) by simp
      have b: "nBitsUsed st < length (vBits t)" "vBits t ! nBitsUsed st"
          "drop (nBitsUsed ?st) (vBits t) = fst (pmt H k (leaves ?Z a k)) @ bits"
          "drop (nHashUsed ?st) (vHash t) = snd (pmt H k (leaves ?Z a k)) @ hashes"
        using Suc.prems(3,4) ex s by (simp_all add: drop_cases)
      show ?thesis
        using Suc.IH [OF c(1) p b(3,4)] b(1,2) c(2) short(1,3) len ex s hits_short [of m a k] mv
        by (simp add: advance_def del: tree.simps)
    next
      case long
      note l = leaves_long [of a k ?Z, unfolded Z(1), OF long(1)]
      have p: "tree_pairs H k (seg v a k) \<subseteq> S" "tree_pairs H k (seg v (a + 2 ^ k) k) \<subseteq> S" using Suc.prems(2) long(5) by simp_all
      have b: "nBitsUsed st < length (vBits t)" "vBits t ! nBitsUsed st"
          "drop (nBitsUsed ?st) (vBits t) = fst (pmt H k (leaves ?Z a k)) @ fst (pmt H k (leaves ?Z (a + 2 ^ k) k)) @ bits"
          "drop (nHashUsed ?st) (vHash t) = snd (pmt H k (leaves ?Z a k)) @ snd (pmt H k (leaves ?Z (a + 2 ^ k) k)) @ hashes"
        using Suc.prems(3,4) ex l by (simp_all add: drop_cases)
      note left = Suc.IH [OF c(1) p(1) b(3,4)]
      let ?st' = "snd (TraverseAndExtract H t k (pos * 2) ?st)"
      have n: "a + 2 ^ k < unat (nTransactions t)" using long(1) len by simp
      have "drop (nBitsUsed ?st') (vBits t) = fst (pmt H k (leaves ?Z (a + 2 ^ k) k)) @ bits"
          "drop (nHashUsed ?st') (vHash t) = snd (pmt H k (leaves ?Z (a + 2 ^ k) k)) @ hashes"
        unfolding left using drop_after [OF b(3)] drop_after [OF b(4)] by simp_all
      note right = Suc.IH [OF c(3) [OF n] p(2) this]
      have "tree H k (seg v a k) \<noteq> tree H k (seg v (a + 2 ^ k) k)"
        using siblings_differ [OF inj node_dvd [OF Suc.prems(1)] long(1) p] .
      then show ?thesis
        using left right b(1,2) c(2) n long(4) ex l hits_long [of a k m] mv long(1)
        by (simp add: advance_def del: tree.simps)
    qed
  qed
qed

section \<open>The wire format\<close>

definition padded :: "CPartialMerkleTree \<Rightarrow> CPartialMerkleTree" where
  "padded t = t\<lparr>vBits := vBits t @ replicate ((length (vBits t) + 7) div 8 * 8 - length (vBits t)) False, fBad := False\<rparr>"

lemma unpack_bits:
  "map (\<lambda>p. fixedbitset_set 0 bs (replicate ((length bs + 7) div 8) 0) ! (p div 8) AND push_bit (p mod 8) 1 \<noteq> 0)
     [0..<(length bs + 7) div 8 * 8] = bs @ replicate ((length bs + 7) div 8 * 8 - length bs) False"
proof (intro nth_equalityI)
  let ?B = "(length bs + 7) div 8"
  have l: "length bs \<le> 8 * ?B" by (rule bytes_for_bits)
  fix p
  assume "p < length (map (\<lambda>p. fixedbitset_set 0 bs (replicate ?B 0) ! (p div 8) AND push_bit (p mod 8) 1 \<noteq> 0) [0..<?B * 8])"
  then have p: "p < ?B * 8" by simp
  then have "p div 8 < ?B" by (simp add: less_mult_imp_div_less)
  then show "map (\<lambda>p. fixedbitset_set 0 bs (replicate ?B 0) ! (p div 8) AND push_bit (p mod 8) 1 \<noteq> 0) [0..<?B * 8] ! p =
      (bs @ replicate (?B * 8 - length bs) False) ! p"
    using bit_fixedbitset_set [of "p mod 8" 0 bs "replicate ?B 0" "p div 8"] l p by (simp add: and_2p_u8 nth_append)
qed (simp add: bytes_for_bits mult.commute)

interpretation ser_hashes: canonical_codec "Serialize_vector Serialize_uint256" "Unserialize_vector 32 Unserialize_uint256" vec_ok
  using vector_codec [OF ser_uint256.canonical_codec_axioms, of 32] by simp

interpretation ser_header: canonical_codec Serialize_CBlockHeader Unserialize_CBlockHeader "\<lambda>_. True"
proof (rule canonical_codecI)
  fix bs x r
  show "Unserialize_CBlockHeader bs = Inr (x, r) \<longleftrightarrow> bs = Serialize_CBlockHeader x @ r \<and> True"
    by (cases x) (auto simp: Serialize_CBlockHeader_def Unserialize_CBlockHeader_def field_iffs)
qed

lemma Unserialize_Serialize_tree:
  assumes "vec_ok (vHash t)" "length (vBits t) < 2 ^ 25"
  shows "Unserialize_CPartialMerkleTree (Serialize_CPartialMerkleTree t @ r) = Inr (padded t, r)"
proof -
  have "vec_ok (fixedbitset_set 0 (vBits t) (replicate ((length (vBits t) + 7) div 8) 0))"
    using assms(2) by (simp add: vec_ok_def MAX_SIZE_def)
  then show ?thesis
    using assms(1) by (simp add: Serialize_CPartialMerkleTree_def Unserialize_CPartialMerkleTree_def padded_def unser_bind_def unser_return_def
      ser32.roundtrip ser_hashes.roundtrip ser_bytes.roundtrip unpack_bits [simplified])
qed

lemma pmt_lengths:
  "L \<noteq> [] \<Longrightarrow> length (snd (pmt H k L)) \<le> length L \<and> length (snd (pmt H k L)) \<le> length (fst (pmt H k L)) \<and>
     length (fst (pmt H k L)) \<le> (k + 1) * length L"
proof (induction H k L rule: pmt.induct)
  case (1 H L)
  then show ?case by (cases L) auto
next
  case (2 H k L)
  have l: "length (take (2 ^ k) L) + length (drop (2 ^ k) L) = length L" by simp
  have n: "1 \<le> length L" using "2.prems" by (cases L) auto
  show ?case
  proof (cases "list_ex snd L \<and> \<not> length L \<le> 2 ^ k")
    case True
    then have "take (2 ^ k) L \<noteq> []" "drop (2 ^ k) L \<noteq> []" by auto
    moreover have "(k + 1) * length (take (2 ^ k) L) + (k + 1) * length (drop (2 ^ k) L) = (k + 1) * length L"
      unfolding distrib_left [symmetric] l ..
    moreover have "(Suc k + 1) * length L = (k + 1) * length L + length L" by simp
    moreover have "length (fst (pmt H (Suc k) L)) = 1 + length (fst (pmt H k (take (2 ^ k) L))) + length (fst (pmt H k (drop (2 ^ k) L)))"
        "length (snd (pmt H (Suc k) L)) = length (snd (pmt H k (take (2 ^ k) L))) + length (snd (pmt H k (drop (2 ^ k) L)))"
      using True by simp_all
    ultimately show ?thesis using 2 True l n by linarith
  next
    case False
    with 2 n show ?thesis by (auto simp: algebra_simps)
  qed
qed

text \<open>The positions of the matched transactions of a block.\<close>

definition matched :: "bool list \<Rightarrow> nat list" where
  "matched vMatch = filter (\<lambda>i. vMatch ! i) [0..<length vMatch]"

lemma length_padded: "length (vBits (padded t)) = (length (vBits t) + 7) div 8 * 8"
  using bytes_for_bits(1) [of "length (vBits t)"] by (simp add: padded_def)

lemma MaxBlockSize_60: "n \<le> MaxBlockSize True div 60 \<Longrightarrow> n \<le> 33333"
  by (simp add: MaxBlockSize_def MAX_DIP0001_BLOCK_SIZE_def)

lemma make_pmt:
  assumes "v \<noteq> []" "length v \<le> MaxBlockSize True div 60" "length m = length v"
  defines "K \<equiv> merkle_height (length v)"
  shows "unat (of_nat (length v) :: u32) = length v" "node (of_nat (length v)) K 0 0"
    "leaves (zip v m) 0 K = zip v m" "seg v 0 K = v" "K \<le> 30" "tree_height (of_nat (length v)) 0 = K"
    "CPartialMerkleTree_make H v m = \<lparr>nTransactions = of_nat (length v), vBits = fst (pmt H K (zip v m)),
       vHash = snd (pmt H K (zip v m)), fBad = False\<rparr>"
proof -
  have l: "length v \<le> 33333" using assms(2) by (rule MaxBlockSize_60)
  then show n: "unat (of_nat (length v) :: u32) = length v" by (simp add: unat_of_nat)
  have "0 < unat (of_nat (length v) :: u32)" "unat (of_nat (length v) :: u32) \<le> 2 ^ 30" unfolding n using assms(1) l by simp_all
  note h = tree_height_eq [OF this, unfolded n, folded K_def]
  show t: "tree_height (of_nat (length v)) 0 = K" by (rule h)
  show N: "node (of_nat (length v)) K 0 0" using h by simp
  then show "K \<le> 30" by (simp add: node_def)
  have "length v \<le> 2 ^ K" using merkle_height assms(1) by (simp add: K_def)
  then show Z: "leaves (zip v m) 0 K = zip v m" and "seg v 0 K = v" using assms(3) by (simp_all add: leaves_def seg_def)
  from TraverseAndBuild_pmt [OF N, of v m H "[]" "[]"]
  show "CPartialMerkleTree_make H v m = \<lparr>nTransactions = of_nat (length v), vBits = fst (pmt H K (zip v m)),
      vHash = snd (pmt H K (zip v m)), fBad = False\<rparr>"
    using n assms(3) by (simp add: CPartialMerkleTree_make_def t Z case_prod_beta)
qed

lemma extract_built:
  assumes v: "v \<noteq> []" "length v \<le> MaxBlockSize True div 60" "length m = length v"
    and "\<not> snd (ComputeMerkleRoot H v)" "inj_on (\<lambda>(x, y). H x y) (merkle_pairs H v)"
  shows "Unserialize_CPartialMerkleTree (Serialize_CPartialMerkleTree (CPartialMerkleTree_make H v m) @ rest) =
      Inr (padded (CPartialMerkleTree_make H v m), rest)"
    "ExtractMatches H (padded (CPartialMerkleTree_make H v m)) index =
      (fst (ComputeMerkleRoot H v), map ((!) v) (matched m), index @ map of_nat (matched m), padded (CPartialMerkleTree_make H v m))"
proof -
  let ?K = "merkle_height (length v)" and ?t = "CPartialMerkleTree_make H v m"
  let ?p = "pmt H ?K (zip v m)"
  note mk = make_pmt [OF v]
  note t = mk(7) [of H]
  have l: "length v \<le> 33333" using v(2) by (rule MaxBlockSize_60)
  have z: "zip v m \<noteq> []" "length (zip v m) = length v" using v by auto
  have p: "length (snd ?p) \<le> length v" "length (snd ?p) \<le> length (fst ?p)" "length (fst ?p) \<le> (?K + 1) * length v"
    using pmt_lengths [OF z(1), of H ?K] unfolding z(2) by simp_all
  have "(?K + 1) * length v \<le> 31 * 33333" using l mk(5) by (intro mult_le_mono) simp_all
  then have "length (fst ?p) < 2 ^ 25" using p(3) by simp
  then show "Unserialize_CPartialMerkleTree (Serialize_CPartialMerkleTree ?t @ rest) = Inr (padded ?t, rest)"
    using p(1) l by (intro Unserialize_Serialize_tree) (simp_all add: t vec_ok_def)
  have root: "\<not> has_twins H v" "fst (ComputeMerkleRoot H v) = tree H ?K v" "tree_pairs H ?K v \<subseteq> merkle_pairs H v"
    using assms(4) l v(1) by (simp_all add: root_levels levels_tree merkle_pairs_def)
  let ?st = "\<lparr>nBitsUsed = 0, nHashUsed = 0, xMatch = [], xIndex = index, xBad = False\<rparr>"
  have "length v = unat (nTransactions (padded ?t))" "length m = unat (nTransactions (padded ?t))"
    using v(3) mk(1) by (simp_all add: t padded_def)
  moreover have "node (nTransactions (padded ?t)) ?K 0 0" using mk(2) by (simp add: t padded_def)
  moreover have "drop (nBitsUsed ?st) (vBits (padded ?t)) = fst ?p @ replicate ((length (fst ?p) + 7) div 8 * 8 - length (fst ?p)) False"
      "drop (nHashUsed ?st) (vHash (padded ?t)) = snd ?p @ []" by (simp_all add: t padded_def)
  ultimately have x: "TraverseAndExtract H (padded ?t) ?K 0 ?st =
      (tree H ?K v, advance ?st (length (fst ?p)) (length (snd ?p)) (map ((!) v) (hits m 0 ?K)) (map of_nat (hits m 0 ?K)))"
    using extract_pmt [OF assms(5) root(1), of "padded ?t" m ?K 0 0 ?st] root(3) unfolding mk(3,4) by blast
  have h: "hits m 0 ?K = matched m"
    using merkle_height [of "length v"] v by (simp add: hits_def matched_def min_absorb2)
  have "nTransactions (padded ?t) = of_nat (length v)" "vHash (padded ?t) = snd ?p" "\<not> fBad (padded ?t)"
      "length (vBits (padded ?t)) = (length (fst ?p) + 7) div 8 * 8"
    using length_padded [of ?t] by (simp_all add: padded_def t)
  moreover have "length (fst ?p) \<le> (length (fst ?p) + 7) div 8 * 8" using bytes_for_bits(1) [of "length (fst ?p)"] by simp
  moreover have "(of_nat (length v) :: u32) \<noteq> 0" using mk(1) v(1) by (metis length_0_conv unat_0)
  ultimately show "ExtractMatches H (padded ?t) index =
      (fst (ComputeMerkleRoot H v), map ((!) v) (matched m), index @ map of_nat (matched m), padded ?t)"
    using x h mk(1,6) v(2) p(1,2) by (simp add: ExtractMatches_def advance_def root(2))
qed

text \<open>
  (C35) The proof that some transactions are in a block survives the network: the partial tree built for any selection of the
  transactions of a block, serialised and read back, is accepted by the extraction, which returns the Merkle root of the
  block and exactly the selected transactions with their positions. The hypotheses are that the list of transactions is
  not flagged as mutated and that the hashes combined for it do not collide.
\<close>

theorem partial_tree_roundtrip:
  assumes "vTxid \<noteq> []" "length vTxid \<le> MaxBlockSize True div 60" "length vMatch = length vTxid"
    and "\<not> snd (ComputeMerkleRoot H vTxid)" "inj_on (\<lambda>(x, y). H x y) (merkle_pairs H vTxid)"
  shows "\<exists>t. Unserialize_CPartialMerkleTree (Serialize_CPartialMerkleTree (CPartialMerkleTree_make H vTxid vMatch) @ rest) = Inr (t, rest) \<and>
    ExtractMatches H t [] =
      (fst (ComputeMerkleRoot H vTxid), map (\<lambda>i. vTxid ! i) (matched vMatch), map of_nat (matched vMatch), t)"
  using extract_built [OF assms] by simp

theorem partial_tree_roundtrip_witness:
  "\<exists>t. Unserialize_CPartialMerkleTree (Serialize_CPartialMerkleTree
       (CPartialMerkleTree_make (\<lambda>a b. 16 * a + b + 256) [1, 2, 3] [False, True, False]) @ [7]) = Inr (t, [7]) \<and>
    ExtractMatches (\<lambda>a b. 16 * a + b + 256) t [] =
      (fst (ComputeMerkleRoot (\<lambda>a b. 16 * a + b + 256) [1, 2, 3]), map (\<lambda>i. [1, 2, 3] ! i) (matched [False, True, False]),
       map of_nat (matched [False, True, False]), t)"
proof (rule partial_tree_roundtrip)
  let ?H = "\<lambda>a b :: uint256. 16 * a + b + 256"
  show "\<not> snd (ComputeMerkleRoot ?H [1, 2, 3])" by (simp add: root_levels has_twins3)
  have p: "merkle_pairs ?H [1, 2, 3] = {(1, 2), (3, 3), (274, 307)}" by code_simp
  show "inj_on (\<lambda>(x, y). ?H x y) (merkle_pairs ?H [1, 2, 3])" unfolding p by (auto simp: inj_on_def)
qed (simp_all add: MaxBlockSize_def MAX_DIP0001_BLOCK_SIZE_def)

section \<open>Blocks for a peer with a filter\<close>

lemma matched_Cons: "matched (b # m) = (if b then [0] else []) @ map Suc (matched m)"
  by (simp add: matched_def upt_conv_Cons filter_map comp_def del: upt_Suc flip: map_Suc_upt)

definition pays_to_filter :: "CBloomFilter \<Rightarrow> CTransaction \<Rightarrow> bool" where
  "pays_to_filter f tx \<longleftrightarrow> (nVersion tx \<noteq> 3 \<or> nType tx \<in> allowedTxTypes) \<and> (\<exists>out \<in> set (vout tx). matches f (scriptPubKey out))"

lemma filter_matches_ok:
  "bloom_ok f \<Longrightarrow>
   \<exists>vMatch f'. filter_matches GetHash i txs f = Some (vMatch, map (\<lambda>j. (i + j, GetHash (txs ! j))) (matched vMatch), f') \<and>
     length vMatch = length txs \<and> (\<forall>j < length txs. pays_to_filter f (txs ! j) \<longrightarrow> vMatch ! j)"
proof (induction txs arbitrary: i f)
  case Nil
  then show ?case by (simp add: matched_def)
next
  case (Cons tx txs)
  define step where "step = (if nVersion tx \<noteq> 3 \<or> nType tx \<in> allowedTxTypes then IsRelevantAndUpdate GetHash f tx else Some (False, f))"
  have "\<exists>r g. step = Some (r, g) \<and> grows f g \<and> (pays_to_filter f tx \<longrightarrow> r)"
    using IsRelevantAndUpdate_ok [OF Cons.prems, of GetHash tx]
    by (metis (no_types, lifting) grows_refl in_set_conv_nth pays_to_filter_def step_def)
  then obtain r g where g: "step = Some (r, g)" "grows f g" "pays_to_filter f tx \<longrightarrow> r" by blast
  from Cons.IH [OF grows_ok [OF g(2) Cons.prems], of "i + 1"] obtain vMatch f' where
    f': "filter_matches GetHash (i + 1) txs g = Some (vMatch, map (\<lambda>j. (i + 1 + j, GetHash (txs ! j))) (matched vMatch), f')"
      "length vMatch = length txs" "\<forall>j < length txs. pays_to_filter g (txs ! j) \<longrightarrow> vMatch ! j" by blast
  have "pays_to_filter g t" if "pays_to_filter f t" for t
    using that grows_matches [OF g(2) Cons.prems] by (auto simp: pays_to_filter_def)
  then have "\<forall>j < length (tx # txs). pays_to_filter f ((tx # txs) ! j) \<longrightarrow> (r # vMatch) ! j"
    using g(3) f'(3) by (auto simp: less_Suc_eq_0_disj)
  moreover have "filter_matches GetHash i (tx # txs) f =
      Some (r # vMatch, map (\<lambda>j. (i + j, GetHash ((tx # txs) ! j))) (matched (r # vMatch)), f')"
    unfolding filter_matches.simps Let_def step_def [symmetric] g(1) option.case prod.case f'(1) by (simp add: matched_Cons comp_def)
  ultimately show ?case using f'(2) by (intro exI [of _ "r # vMatch"] exI [of _ f']) simp
qed

text \<open>
  (C37) A peer that has set a filter and asks for a filtered block gets what it needs: the merkle block is built
  without a fault and read back by the peer with the header of the block; the extraction returns the Merkle root of the block
  and the transactions the node sends along, with their positions; and every transaction of an allowed
  type that pays to a script with a data element in the filter is among them.
\<close>

theorem merkle_block_delivers:
  assumes "peer_reachable GetHash peer" "pfilter peer = Some f"
    and "vtx block \<noteq> []" "length (vtx block) \<le> MaxBlockSize True div 60"
    and "\<not> snd (BlockMerkleRoot H GetHash (vtx block))"
    and "inj_on (\<lambda>(x, y). H x y) (merkle_pairs H (map GetHash (vtx block)))"
  shows "\<exists>mb f' mb'. CMerkleBlock_filter H GetHash block f = Some (mb, f') \<and>
    Unserialize_CMerkleBlock (Serialize_CMerkleBlock mb @ rest) = Inr (mb', rest) \<and>
    mb_header mb' = CBlock_GetBlockHeader block \<and>
    ExtractMatches H (txn mb') [] =
      (fst (BlockMerkleRoot H GetHash (vtx block)), map snd (vMatchedTxn mb), map (\<lambda>p. of_nat (fst p)) (vMatchedTxn mb), txn mb') \<and>
    (\<forall>j < length (vtx block). pays_to_filter f (vtx block ! j) \<longrightarrow> (j, GetHash (vtx block ! j)) \<in> set (vMatchedTxn mb))"
proof -
  let ?v = "map GetHash (vtx block)"
  have "bloom_ok f" using peer_filter_ok [OF assms(1)] assms(2) by (simp add: peer_ok_def)
  from filter_matches_ok [OF this, of GetHash 0 "vtx block"] obtain m f' where
    m: "filter_matches GetHash 0 (vtx block) f = Some (m, map (\<lambda>j. (j, GetHash (vtx block ! j))) (matched m), f')"
      "length m = length (vtx block)" "\<forall>j < length (vtx block). pays_to_filter f (vtx block ! j) \<longrightarrow> m ! j" by auto
  define mb where "mb = \<lparr>mb_header = CBlock_GetBlockHeader block, txn = CPartialMerkleTree_make H ?v m,
    vMatchedTxn = map (\<lambda>j. (j, GetHash (vtx block ! j))) (matched m)\<rparr>"
  define mb' where "mb' = \<lparr>mb_header = CBlock_GetBlockHeader block, txn = padded (CPartialMerkleTree_make H ?v m), vMatchedTxn = []\<rparr>"
  have "?v \<noteq> []" "length ?v \<le> MaxBlockSize True div 60" "length m = length ?v" "\<not> snd (ComputeMerkleRoot H ?v)"
    using assms(3-5) m(2) by (simp_all add: BlockMerkleRoot_def)
  note x = extract_built [OF this assms(6)]
  have "CMerkleBlock_filter H GetHash block f = Some (mb, f')" by (simp add: CMerkleBlock_filter_def m(1) mb_def)
  moreover have "Unserialize_CMerkleBlock (Serialize_CMerkleBlock mb @ rest) = Inr (mb', rest)"
    by (simp add: Unserialize_CMerkleBlock_def Serialize_CMerkleBlock_def mb_def mb'_def unser_bind_def unser_return_def
      ser_header.roundtrip x(1))
  moreover have in_range: "j < length (vtx block)" if "j \<in> set (matched m)" for j using that m(2) by (simp add: matched_def)
  then have "map ((!) ?v) (matched m) = map (\<lambda>j. GetHash (vtx block ! j)) (matched m)" by simp
  then have "ExtractMatches H (txn mb') [] =
      (fst (BlockMerkleRoot H GetHash (vtx block)), map snd (vMatchedTxn mb), map (\<lambda>p. of_nat (fst p)) (vMatchedTxn mb), txn mb')"
    using x(2) [of "[]"] by (simp add: mb_def mb'_def BlockMerkleRoot_def comp_def)
  moreover have "(j, GetHash (vtx block ! j)) \<in> set (vMatchedTxn mb)" if "j < length (vtx block)" "pays_to_filter f (vtx block ! j)" for j
    using that m(2,3) by (simp add: mb_def matched_def)
  moreover have "mb_header mb' = CBlock_GetBlockHeader block" by (simp add: mb'_def)
  ultimately show ?thesis by blast
qed

definition filtered_block :: CBlock where
  "filtered_block = (CBlock_of_header CBlockHeader_null)\<lparr>vtx := [paying_tx]\<rparr>"

theorem merkle_block_delivers_witness:
  "\<exists>mb f' mb'. CMerkleBlock_filter (\<lambda>a b. a) (\<lambda>_. 7) filtered_block sample_filter = Some (mb, f') \<and>
    Unserialize_CMerkleBlock (Serialize_CMerkleBlock mb @ [1]) = Inr (mb', [1]) \<and>
    mb_header mb' = CBlock_GetBlockHeader filtered_block \<and>
    ExtractMatches (\<lambda>a b. a) (txn mb') [] =
      (fst (BlockMerkleRoot (\<lambda>a b. a) (\<lambda>_. 7) (vtx filtered_block)), map snd (vMatchedTxn mb),
       map (\<lambda>p. of_nat (fst p)) (vMatchedTxn mb), txn mb') \<and>
    (\<forall>j < length (vtx filtered_block). pays_to_filter sample_filter (vtx filtered_block ! j) \<longrightarrow>
       (j, (\<lambda>_. 7) (vtx filtered_block ! j)) \<in> set (vMatchedTxn mb))"
proof (rule merkle_block_delivers [OF sample_reachable])
  show "pfilter loaded_peer = Some sample_filter" by (simp add: loaded_peer_def)
  have v: "vtx filtered_block = [paying_tx]" by (simp add: filtered_block_def CBlock_of_header_def CBlockHeader.defs)
  show "vtx filtered_block \<noteq> []" "length (vtx filtered_block) \<le> MaxBlockSize True div 60"
    by (simp_all add: v MaxBlockSize_def MAX_DIP0001_BLOCK_SIZE_def)
  show "\<not> snd (BlockMerkleRoot (\<lambda>a b. a) (\<lambda>_. 7) (vtx filtered_block))"
    by (auto simp: v BlockMerkleRoot_def root_levels has_twins_def twins_def le_Suc_eq)
  show "inj_on (\<lambda>(x, y). x) (merkle_pairs (\<lambda>a b. a) (map (\<lambda>_. 7) (vtx filtered_block)))"
    by (simp add: v merkle_pairs_def merkle_height.simps)
qed

section \<open>Partial trees from the network\<close>

text \<open>The pairs of hashes that the extraction combines, whatever the partial tree is.\<close>

fun extract_pairs :: "hash2 \<Rightarrow> CPartialMerkleTree \<Rightarrow> nat \<Rightarrow> u32 \<Rightarrow> extraction \<Rightarrow> (uint256 \<times> uint256) set" where
  "extract_pairs H t 0 pos st = {}"
| "extract_pairs H t (Suc height) pos st =
     (if nBitsUsed st \<ge> length (vBits t) \<or> \<not> vBits t ! nBitsUsed st then {}
      else let st = st\<lparr>nBitsUsed := nBitsUsed st + 1\<rparr>;
               (left, st') = TraverseAndExtract H t height (pos * 2) st
           in extract_pairs H t height (pos * 2) st \<union>
             (if pos * 2 + 1 < CalcTreeWidth (nTransactions t) height
              then insert (left, fst (TraverseAndExtract H t height (pos * 2 + 1) st')) (extract_pairs H t height (pos * 2 + 1) st')
              else {(left, left)}))"

definition proof_pairs :: "hash2 \<Rightarrow> CPartialMerkleTree \<Rightarrow> (uint256 \<times> uint256) set" where
  "proof_pairs H t = extract_pairs H t (tree_height (nTransactions t) 0) 0
     \<lparr>nBitsUsed = 0, nHashUsed = 0, xMatch = [], xIndex = [], xBad = fBad t\<rparr>"

text \<open>What the walk below a node adds: leaves of the block, at increasing positions below the node.\<close>

definition adds_found :: "uint256 list \<Rightarrow> nat \<Rightarrow> nat \<Rightarrow> extraction \<Rightarrow> extraction \<Rightarrow> bool" where
  "adds_found L a b st st' \<longleftrightarrow> (\<exists>is. sorted_wrt (<) is \<and> set is \<subseteq> {a..<min b (length L)} \<and>
     xMatch st' = xMatch st @ map ((!) L) is \<and> xIndex st' = xIndex st @ map of_nat is)"

lemma adds_found_none: "xMatch st' = xMatch st \<Longrightarrow> xIndex st' = xIndex st \<Longrightarrow> adds_found L a b st st'"
  unfolding adds_found_def by (intro exI [of _ "[]"]) simp

lemma adds_found_trans:
  assumes "adds_found L a b st st'" "adds_found L b c st' st''" "a \<le> b" "b \<le> c"
  shows "adds_found L a c st st''"
proof -
  obtain "is" where i: "sorted_wrt (<) is" "set is \<subseteq> {a..<min b (length L)}" "xMatch st' = xMatch st @ map ((!) L) is"
      "xIndex st' = xIndex st @ map of_nat is" using assms(1) by (auto simp: adds_found_def)
  obtain js where j: "sorted_wrt (<) js" "set js \<subseteq> {b..<min c (length L)}" "xMatch st'' = xMatch st' @ map ((!) L) js"
      "xIndex st'' = xIndex st' @ map of_nat js" using assms(2) by (auto simp: adds_found_def)
  have "sorted_wrt (<) (is @ js)" using i(1,2) j(1,2) by (force simp: sorted_wrt_append)
  moreover have "set (is @ js) \<subseteq> {a..<min c (length L)}" using i(2) j(2) assms(3,4) by auto
  ultimately show ?thesis unfolding adds_found_def using i(3,4) j(3,4) by (intro exI [of _ "is @ js"]) simp
qed

lemma take_hash_keeps [simp]: "xMatch (snd (take_hash t st)) = xMatch st" "xIndex (snd (take_hash t st)) = xIndex st"
  by (simp_all add: take_hash_def)

lemma extract_sound:
  assumes inj: "inj_on (\<lambda>(x, y). H x y) S" and len: "length L = unat (nTransactions t)"
  shows "node (nTransactions t) k pos a \<Longrightarrow> tree_pairs H k (seg L a k) \<union> extract_pairs H t k pos st \<subseteq> S \<Longrightarrow>
    fst (TraverseAndExtract H t k pos st) = tree H k (seg L a k) \<Longrightarrow>
    adds_found L a (a + 2 ^ k) st (snd (TraverseAndExtract H t k pos st))"
proof (induction k arbitrary: pos a st)
  case 0
  have a: "a < length L" "of_nat a = pos" using 0(1) len by (auto simp: node_def)
  then have "seg L a 0 = [L ! a]" by (simp add: seg_def take_Suc hd_drop_conv_nth)
  moreover have "adds_found L a (a + 2 ^ 0) st (st'\<lparr>xMatch := xMatch st @ [L ! a], xIndex := xIndex st @ [pos]\<rparr>)" for st'
    unfolding adds_found_def using a by (intro exI [of _ "[a]"]) auto
  ultimately show ?case using 0(3) adds_found_none by (auto simp: Let_def take_hash_def)
next
  case (Suc k)
  note c = node_children [OF Suc.prems(1)]
  have inj': "x = x' \<and> y = y'" if "(x, y) \<in> S" "(x', y') \<in> S" "H x y = H x' y'" for x y x' y'
    using inj_onD [OF inj, of "(x, y)" "(x', y')"] that by simp
  show ?case
  proof (cases "nBitsUsed st \<ge> length (vBits t) \<or> \<not> vBits t ! nBitsUsed st")
    case True
    then show ?thesis by (intro adds_found_none) (auto simp: Let_def)
  next
    case False
    let ?st = "st\<lparr>nBitsUsed := nBitsUsed st + 1\<rparr>"
    obtain l st1 where left: "TraverseAndExtract H t k (pos * 2) ?st = (l, st1)" by (cases "TraverseAndExtract H t k (pos * 2) ?st")
    have "a < length L" using node_less [OF Suc.prems(1)] len by simp
    then show ?thesis
    proof (cases rule: seg_halves [of _ _ k H])
      case short
      then have w: "\<not> pos * 2 + 1 < CalcTreeWidth (nTransactions t) k" using c(2) len by simp
      have x: "TraverseAndExtract H t (Suc k) pos st = (H l l, st1)"
          "extract_pairs H t (Suc k) pos st = insert (l, l) (extract_pairs H t k (pos * 2) ?st)"
        using False w left by (simp_all add: Let_def)
      have "l = tree H k (seg L a k)" using Suc.prems(2,3) inj' unfolding x short(3,4) by auto
      then have "adds_found L a (a + 2 ^ k) ?st st1"
        using Suc.IH [OF c(1), of ?st] Suc.prems(2) unfolding x short(4) left by simp
      then have "adds_found L a (a + 2 ^ Suc k) ?st st1" by (rule adds_found_trans [OF _ adds_found_none]) simp_all
      then show ?thesis by (simp add: x adds_found_def del: TraverseAndExtract.simps)
    next
      case long
      then have w: "pos * 2 + 1 < CalcTreeWidth (nTransactions t) k" and n: "a + 2 ^ k < unat (nTransactions t)" using c(2) len by simp_all
      obtain r st2 where right: "TraverseAndExtract H t k (pos * 2 + 1) st1 = (r, st2)"
        by (cases "TraverseAndExtract H t k (pos * 2 + 1) st1")
      have x: "TraverseAndExtract H t (Suc k) pos st = (H l r, if r = l then st2\<lparr>xBad := True\<rparr> else st2)"
          "extract_pairs H t (Suc k) pos st = extract_pairs H t k (pos * 2) ?st \<union> insert (l, r) (extract_pairs H t k (pos * 2 + 1) st1)"
        using False w left right by (simp_all add: Let_def)
      have "l = tree H k (seg L a k) \<and> r = tree H k (seg L (a + 2 ^ k) k)" using Suc.prems(2,3) inj' unfolding x long(4,5) by auto
      then have "adds_found L a (a + 2 ^ k) ?st st1" "adds_found L (a + 2 ^ k) (a + 2 ^ k + 2 ^ k) st1 st2"
        using Suc.IH [OF c(1), of ?st] Suc.IH [OF c(3) [OF n], of st1] Suc.prems(2) unfolding x long(5) left right by simp_all
      from adds_found_trans [OF this] have "adds_found L a (a + 2 ^ Suc k) ?st st2" by (simp add: mult_2 add.assoc)
      then show ?thesis by (simp add: x adds_found_def del: TraverseAndExtract.simps)
    qed
  qed
qed

text \<open>
  (C36) Whatever partial tree a peer sends: if the extraction returns the Merkle root of a block with as many transactions as
  the tree claims, then the extracted hashes are transactions of the block, each at the position reported for it, in increasing
  order of positions. The hypothesis is that no two different pairs of hashes combined for the block and for the partial
  tree collide, and that the root is not the zero hash, which stands for a failure. The number of transactions matters: a tree that claims one
  transaction and carries the root alone extracts the root itself as a transaction.
\<close>

theorem ExtractMatches_sound:
  assumes "ExtractMatches H t [] = (fst (ComputeMerkleRoot H L), vMatch, vnIndex, t')"
    and "fst (ComputeMerkleRoot H L) \<noteq> 0" "length L = unat (nTransactions t)"
    and "inj_on (\<lambda>(x, y). H x y) (merkle_pairs H L \<union> proof_pairs H t)"
  shows "sorted_wrt (<) vnIndex \<and> (\<forall>i \<in> set vnIndex. unat i < length L) \<and> vMatch = map (\<lambda>i. L ! unat i) vnIndex"
proof -
  let ?n = "nTransactions t" and ?st = "\<lparr>nBitsUsed = 0, nHashUsed = 0, xMatch = [], xIndex = [], xBad = fBad t\<rparr>"
  obtain root st where x: "TraverseAndExtract H t (tree_height ?n 0) 0 ?st = (root, st)" by (metis surj_pair)
  have e: "?n \<noteq> 0" "unat ?n \<le> MaxBlockSize True div 60" "root = fst (ComputeMerkleRoot H L)" "xMatch st = vMatch" "xIndex st = vnIndex"
    using assms(1,2) x by (auto simp: ExtractMatches_def Let_def split: if_splits)
  have l: "unat ?n \<le> 33333" "0 < unat ?n" using MaxBlockSize_60 [OF e(2)] e(1) by (simp_all add: unat_gt_0)
  then have h: "tree_height ?n 0 = merkle_height (length L)" "node ?n (merkle_height (length L)) 0 0"
    using tree_height_eq [of ?n] assms(3) by simp_all
  have "L \<noteq> []" using l(2) assms(3) by auto
  then have L: "seg L 0 (merkle_height (length L)) = L" "fst (ComputeMerkleRoot H L) = tree H (merkle_height (length L)) L"
    using merkle_height [of "length L"] l assms(3) by (simp_all add: seg_def root_levels levels_tree)
  have "adds_found L 0 (2 ^ merkle_height (length L)) ?st st"
    using extract_sound [OF assms(4,3) h(2), of ?st] x e(3) L unfolding h(1) by (simp add: merkle_pairs_def proof_pairs_def h(1))
  then obtain "is" where i: "sorted_wrt (<) is" "set is \<subseteq> {0..<min (2 ^ merkle_height (length L)) (length L)}"
      "vMatch = map ((!) L) is" "vnIndex = map of_nat is"
    using e(4,5) by (auto simp: adds_found_def)
  have u: "unat (of_nat j :: u32) = j" if "j \<in> set is" for j using that i(2) l(1) assms(3) by (auto simp: unat_of_nat)
  have "sorted_wrt (<) vnIndex"
    unfolding i(4) sorted_wrt_map by (rule sorted_wrt_mono_rel [OF _ i(1)]) (simp add: word_less_nat_alt u)
  then show ?thesis using i(2-4) u by auto
qed

definition sample_proof :: CPartialMerkleTree where
  "sample_proof = \<lparr>nTransactions = 3, vBits = [True, True, False, True, False], vHash = [1, 2, 307], fBad = False\<rparr>"

lemma sample_heights: "tree_height 3 0 = Suc (Suc 0)" "merkle_height (Suc (Suc (Suc 0))) = Suc (Suc 0)"
  by (simp_all add: tree_height.simps merkle_height.simps CalcTreeWidth_def)

theorem ExtractMatches_sound_witness:
  "ExtractMatches (\<lambda>a b. 16 * a + b + 256) sample_proof [] =
     (fst (ComputeMerkleRoot (\<lambda>a b. 16 * a + b + 256) [1, 2, 3]), [2], [1], sample_proof) \<and>
   sorted_wrt (<) [1 :: u32] \<and> unat (1 :: u32) < length [1 :: uint256, 2, 3] \<and>
   [2 :: uint256] = map (\<lambda>i. [1, 2, 3] ! unat i) [1 :: u32]"
proof -
  let ?H = "\<lambda>a b :: uint256. 16 * a + b + 256"
  have r: "fst (ComputeMerkleRoot ?H [1, 2, 3]) = 4947" by (simp add: root_levels levels_tree sample_heights)
  have p: "merkle_pairs ?H [1, 2, 3] = {(1, 2), (3, 3), (274, 307)}" "proof_pairs ?H sample_proof = {(1, 2), (274, 307)}"
    by (auto simp: merkle_pairs_def proof_pairs_def sample_proof_def sample_heights CalcTreeWidth_def take_hash_def Let_def)
  have "inj_on (\<lambda>(x, y). ?H x y) (merkle_pairs ?H [1, 2, 3] \<union> proof_pairs ?H sample_proof)"
    unfolding p by (auto simp: inj_on_def)
  moreover have x: "ExtractMatches ?H sample_proof [] = (fst (ComputeMerkleRoot ?H [1, 2, 3]), [2], [1], sample_proof)"
    unfolding r by (simp add: ExtractMatches_def sample_proof_def sample_heights CalcTreeWidth_def take_hash_def Let_def
      MaxBlockSize_def MAX_DIP0001_BLOCK_SIZE_def)
  moreover have "length [1 :: uint256, 2, 3] = unat (nTransactions sample_proof)" "fst (ComputeMerkleRoot ?H [1, 2, 3]) \<noteq> 0"
    by (simp_all add: sample_proof_def r)
  ultimately have "sorted_wrt (<) [1 :: u32] \<and> (\<forall>i \<in> set [1 :: u32]. unat i < length [1 :: uint256, 2, 3]) \<and>
      [2 :: uint256] = map (\<lambda>i. [1, 2, 3] ! unat i) [1 :: u32]"
    by (intro ExtractMatches_sound [of ?H sample_proof "[1, 2, 3]"])
  then show ?thesis using x by simp
qed

end
