(* ===== verification/Rolling_Bloom.thy ===== *)
theory Rolling_Bloom
  imports Bloom_Props
begin

unbundle bit_operations_syntax

text \<open>
  \<^verbatim>\<open>CRollingBloomFilter\<close> of \<^verbatim>\<open>bloom.h\<close> and \<^verbatim>\<open>bloom.cpp\<close>: a filter that forgets. Every cell holds the number of the generation
  that set it last, in two bits of two neighbouring words; a new generation wipes the cells of the one that had its number
  before. The filter contains at least the keys it promises to remember.

  The number of hash functions and of filter bits, which the constructor computes with floating-point logarithms, and the random
  tweak are arguments. A filter without cells makes the operations divide by zero, which is \<open>None\<close>.
\<close>

record CRollingBloomFilter =
  nEntriesPerGeneration :: int
  nEntriesThisGeneration :: int
  nGeneration :: int
  rolling_data :: "u64 list"
  rolling_nTweak :: u32
  rolling_nHashFuncs :: int

definition rolling_reset :: "u32 \<Rightarrow> CRollingBloomFilter \<Rightarrow> CRollingBloomFilter" where
  "rolling_reset rand f =
     f\<lparr>rolling_nTweak := rand, nEntriesThisGeneration := 0, nGeneration := 1,
       rolling_data := map (\<lambda>_. 0) (rolling_data f)\<rparr>"

definition CRollingBloomFilter_make :: "u32 \<Rightarrow> int \<Rightarrow> u32 \<Rightarrow> u32 \<Rightarrow> CRollingBloomFilter" where
  "CRollingBloomFilter_make nElements funcs nFilterBits rand =
     rolling_reset rand
       \<lparr>nEntriesPerGeneration = uint ((nElements + 1) div 2), nEntriesThisGeneration = 0, nGeneration = 0,
        rolling_data = replicate (unat (push_bit 1 ((nFilterBits + 63) div 64))) 0, rolling_nTweak = 0,
        rolling_nHashFuncs = funcs\<rparr>"

definition RollingBloomHash :: "u32 \<Rightarrow> u32 \<Rightarrow> bytes \<Rightarrow> u32" where
  "RollingBloomHash nHashNum tweak vDataToHash = MurmurHash3 (nHashNum * 0xFBA4C795 + tweak) vDataToHash"

text \<open>The loop that wipes the cells of a generation, given by its two masks.\<close>

fun wipe_generation :: "u64 \<Rightarrow> u64 \<Rightarrow> u64 list \<Rightarrow> u64 list" where
  "wipe_generation nGenerationMask1 nGenerationMask2 (p1 # p2 # data) =
     (let m = (p1 XOR nGenerationMask1) OR (p2 XOR nGenerationMask2)
      in (p1 AND m) # (p2 AND m) # wipe_generation nGenerationMask1 nGenerationMask2 data)"
| "wipe_generation nGenerationMask1 nGenerationMask2 data = data"

definition rolling_pos :: "CRollingBloomFilter \<Rightarrow> nat \<Rightarrow> bytes \<Rightarrow> (nat \<times> nat) option" where
  "rolling_pos f n vKey =
     (let h = RollingBloomHash (of_nat n) (rolling_nTweak f) vKey
      in if length (rolling_data f) = 0 then None
         else Some (unat (drop_bit 6 h) mod length (rolling_data f), unat (h AND 0x3F)))"

text \<open>\<open>even_pos\<close> is \<^verbatim>\<open>pos & ~1\<close>, \<open>even_pos pos + 1\<close> is \<^verbatim>\<open>pos | 1\<close>.\<close>

definition even_pos :: "nat \<Rightarrow> nat" where
  "even_pos pos = pos - pos mod 2"

definition write_bit :: "nat \<Rightarrow> int \<Rightarrow> u64 \<Rightarrow> u64" where
  "write_bit b v w = (w AND NOT (push_bit b 1)) OR push_bit b (word_of_int v)"

fun rolling_insert_loop :: "bytes \<Rightarrow> nat list \<Rightarrow> CRollingBloomFilter \<Rightarrow> CRollingBloomFilter option" where
  "rolling_insert_loop vKey [] f = Some f"
| "rolling_insert_loop vKey (n # ns) f =
     (case rolling_pos f n vKey of
        None \<Rightarrow> None
      | Some (pos, b) \<Rightarrow>
          let d = rolling_data f;
              d = d[even_pos pos := write_bit b (nGeneration f AND 1) (d ! even_pos pos)];
              d = d[even_pos pos + 1 := write_bit b (drop_bit 1 (nGeneration f)) (d ! (even_pos pos + 1))]
          in rolling_insert_loop vKey ns (f\<lparr>rolling_data := d\<rparr>))"

definition next_generation :: "CRollingBloomFilter \<Rightarrow> CRollingBloomFilter" where
  "next_generation f =
     (let gen = nGeneration f + 1;
          gen = (if gen = 4 then 1 else gen)
      in f\<lparr>nEntriesThisGeneration := 0, nGeneration := gen,
           rolling_data := wipe_generation (- word_of_int (gen AND 1)) (- word_of_int (drop_bit 1 gen)) (rolling_data f)\<rparr>)"

definition rolling_insert :: "CRollingBloomFilter \<Rightarrow> bytes \<Rightarrow> CRollingBloomFilter option" where
  "rolling_insert f vKey =
     (let f = (if nEntriesThisGeneration f = nEntriesPerGeneration f then next_generation f else f);
          f = f\<lparr>nEntriesThisGeneration := nEntriesThisGeneration f + 1\<rparr>
      in rolling_insert_loop vKey [0..<nat (rolling_nHashFuncs f)] f)"

definition rolling_insert_hash :: "CRollingBloomFilter \<Rightarrow> uint256 \<Rightarrow> CRollingBloomFilter option" where
  "rolling_insert_hash f hash = rolling_insert f (uint256_bytes hash)"

fun rolling_contains_loop :: "CRollingBloomFilter \<Rightarrow> bytes \<Rightarrow> nat list \<Rightarrow> bool option" where
  "rolling_contains_loop f vKey [] = Some True"
| "rolling_contains_loop f vKey (n # ns) =
     (case rolling_pos f n vKey of
        None \<Rightarrow> None
      | Some (pos, b) \<Rightarrow>
          if drop_bit b (rolling_data f ! even_pos pos OR rolling_data f ! (even_pos pos + 1)) AND 1 = 0 then Some False
          else rolling_contains_loop f vKey ns)"

definition rolling_contains :: "CRollingBloomFilter \<Rightarrow> bytes \<Rightarrow> bool option" where
  "rolling_contains f vKey = rolling_contains_loop f vKey [0..<nat (rolling_nHashFuncs f)]"

definition rolling_contains_hash :: "CRollingBloomFilter \<Rightarrow> uint256 \<Rightarrow> bool option" where
  "rolling_contains_hash f hash = rolling_contains f (uint256_bytes hash)"

section \<open>Cells\<close>

text \<open>The generation in the cell \<open>c\<close>, the slot and the bit within it; a fresh cell has generation 0.\<close>

definition gen_at :: "u64 list \<Rightarrow> nat \<times> nat \<Rightarrow> int" where
  "gen_at d c = (case c of (s, b) \<Rightarrow> of_bool (bit (d ! (2 * s)) b) + 2 * of_bool (bit (d ! (2 * s + 1)) b))"

definition cell :: "CRollingBloomFilter \<Rightarrow> bytes \<Rightarrow> nat \<Rightarrow> nat \<times> nat" where
  "cell f vKey n = (case the (rolling_pos f n vKey) of (pos, b) \<Rightarrow> (pos div 2, b))"

definition valid_cell :: "u64 list \<Rightarrow> nat \<times> nat \<Rightarrow> bool" where
  "valid_cell d c \<longleftrightarrow> 2 * fst c + 1 < length d \<and> snd c < 64"

lemma generation_bits:
  "g \<in> {1, 2, 3 :: int} \<Longrightarrow> (word_of_int (g AND 1) :: u64) = of_bool (g \<noteq> 2)"
  "g \<in> {1, 2, 3 :: int} \<Longrightarrow> (word_of_int (drop_bit 1 g) :: u64) = of_bool (g \<noteq> 1)"
  by auto

lemma bit_write:
  "b < 64 \<Longrightarrow> j < 64 \<Longrightarrow> bit (write_bit b v w) j \<longleftrightarrow> (if j = b then bit (word_of_int v :: u64) 0 else bit w j \<or> j > b \<and> bit (word_of_int v :: u64) (j - b))"
  by (auto simp: write_bit_def bit_simps)

lemma gen_at_simps:
  "gen_at d (s, b) = 0 \<longleftrightarrow> \<not> bit (d ! (2 * s)) b \<and> \<not> bit (d ! (2 * s + 1)) b"
  by (auto simp: gen_at_def)

lemma wipe_nth:
  "even (length d) \<Longrightarrow> 2 * s + 1 < length d \<Longrightarrow> wipe_generation m1 m2 d ! (2 * s) = d ! (2 * s) AND ((d ! (2 * s) XOR m1) OR (d ! (2 * s + 1) XOR m2)) \<and>
   wipe_generation m1 m2 d ! (2 * s + 1) = d ! (2 * s + 1) AND ((d ! (2 * s) XOR m1) OR (d ! (2 * s + 1) XOR m2))"
proof (induction m1 m2 d arbitrary: s rule: wipe_generation.induct)
  case (1 m1 m2 p1 p2 d)
  then show ?case by (cases s) (auto simp: Let_def)
qed auto

lemma length_wipe [simp]: "length (wipe_generation m1 m2 d) = length d"
  by (induction m1 m2 d rule: wipe_generation.induct) (auto simp: Let_def)

lemma bit_minus_of_bool: "j < 64 \<Longrightarrow> bit (- (of_bool p) :: u64) j \<longleftrightarrow> p"
  by (cases p) simp_all

lemma wipe_gen_at:
  assumes "g \<in> {1, 2, 3}" "even (length d)" "valid_cell d c"
  shows "gen_at (wipe_generation (- word_of_int (g AND 1)) (- word_of_int (drop_bit 1 g)) d) c =
    (if gen_at d c = g then 0 else gen_at d c)"
proof -
  obtain s b where c: "c = (s, b)" by (cases c)
  have "2 * s + 1 < length d" "b < 64" using assms(3) by (simp_all add: c valid_cell_def)
  then show ?thesis
    unfolding generation_bits [OF assms(1)]
    using assms(1) wipe_nth [OF assms(2), of s]
    by (auto simp: c gen_at_def bit_and_iff bit_or_iff bit_xor_iff bit_minus_of_bool)
qed

definition set_cell :: "int \<Rightarrow> nat \<times> nat \<Rightarrow> u64 list \<Rightarrow> u64 list" where
  "set_cell g c d = d[2 * fst c := write_bit (snd c) (g AND 1) (d ! (2 * fst c)),
     2 * fst c + 1 := write_bit (snd c) (drop_bit 1 g) (d ! (2 * fst c + 1))]"

lemma length_set_cell [simp]: "length (set_cell g c d) = length d"
  by (simp add: set_cell_def)

lemma bit_write_bool:
  "b < 64 \<Longrightarrow> j < 64 \<Longrightarrow> (word_of_int v :: u64) = of_bool p \<Longrightarrow> bit (write_bit b v w) j \<longleftrightarrow> (if j = b then p else bit w j)"
  by (auto simp: bit_write bit_1_iff)

lemma set_gen_at:
  assumes "g \<in> {1, 2, 3}" "valid_cell d c" "valid_cell d e"
  shows "gen_at (set_cell g c d) e = (if e = c then g else gen_at d e)"
proof -
  obtain s b where c: "c = (s, b)" by (cases c)
  obtain t j where e: "e = (t, j)" by (cases e)
  have v: "2 * s + 1 < length d" "b < 64" "2 * t + 1 < length d" "j < 64" using assms(2,3) by (simp_all add: c e valid_cell_def)
  have p: "2 * t + 1 \<noteq> 2 * s" "2 * t \<noteq> 2 * s + 1" by presburger+
  show ?thesis
    using assms(1) v p generation_bits [OF assms(1)]
    by (cases "t = s") (auto simp: c e gen_at_def set_cell_def nth_list_update bit_write_bool)
qed

text \<open>What makes a filter usable; \<open>h\<close> functions and the tweak are never changed by an insertion.\<close>

definition rolling_ok :: "CRollingBloomFilter \<Rightarrow> bool" where
  "rolling_ok f \<longleftrightarrow> 0 < length (rolling_data f) \<and> even (length (rolling_data f)) \<and> nGeneration f \<in> {1, 2, 3}"

definition similar :: "CRollingBloomFilter \<Rightarrow> CRollingBloomFilter \<Rightarrow> bool" where
  "similar f f' \<longleftrightarrow> length (rolling_data f') = length (rolling_data f) \<and> rolling_nTweak f' = rolling_nTweak f \<and>
     rolling_nHashFuncs f' = rolling_nHashFuncs f \<and> nEntriesPerGeneration f' = nEntriesPerGeneration f"

lemma similar_cell: "similar f f' \<Longrightarrow> cell f' k n = cell f k n"
  by (simp add: similar_def cell_def rolling_pos_def Let_def)

lemma similar_valid_cell: "similar f f' \<Longrightarrow> valid_cell (rolling_data f') c = valid_cell (rolling_data f) c"
  by (simp add: similar_def valid_cell_def)

lemma rolling_pos_cell:
  assumes "0 < length (rolling_data f)" "even (length (rolling_data f))"
  obtains pos where "rolling_pos f n k = Some (pos, snd (cell f k n))" "even_pos pos = 2 * fst (cell f k n)"
    "valid_cell (rolling_data f) (cell f k n)"
proof -
  let ?h = "RollingBloomHash (of_nat n) (rolling_nTweak f) k"
  let ?pos = "unat (drop_bit 6 ?h) mod length (rolling_data f)"
  have p: "rolling_pos f n k = Some (?pos, unat (?h AND 0x3F))" using assms(1) by (simp add: rolling_pos_def Let_def)
  have "2 * (m div 2) + 1 < l" if "m < l" "even l" for m l :: nat using that by presburger
  then have "2 * (?pos div 2) + 1 < length (rolling_data f)" using assms by simp
  moreover have "?h AND 0x3F \<le> 0x3F" by (rule word_and_le1)
  then have "unat (?h AND 0x3F) < 64" by (simp add: word_le_nat_alt)
  ultimately show thesis
    using p by (intro that [of ?pos]) (simp_all add: cell_def valid_cell_def even_pos_def minus_mod_eq_mult_div)
qed

lemma rolling_insert_loop_Cons:
  assumes "rolling_ok f"
  shows "rolling_insert_loop k (n # ns) f =
    rolling_insert_loop k ns (f\<lparr>rolling_data := set_cell (nGeneration f) (cell f k n) (rolling_data f)\<rparr>)"
proof -
  have "0 < length (rolling_data f)" "even (length (rolling_data f))" using assms by (simp_all add: rolling_ok_def)
  from rolling_pos_cell [OF this, of n k] show ?thesis by (fastforce simp: set_cell_def Let_def)
qed

text \<open>The loop sets the cells of the key to the generation, and leaves every other cell alone.\<close>

lemma rolling_insert_loop_ok:
  "rolling_ok f \<Longrightarrow>
   \<exists>d. rolling_insert_loop k ns f = Some (f\<lparr>rolling_data := d\<rparr>) \<and> length d = length (rolling_data f) \<and>
     (\<forall>c. valid_cell (rolling_data f) c \<longrightarrow> gen_at d c = (if c \<in> cell f k ` set ns then nGeneration f else gen_at (rolling_data f) c))"
proof (induction ns arbitrary: f)
  case Nil
  then show ?case by (intro exI [of _ "rolling_data f"]) simp
next
  case (Cons n ns)
  let ?d = "set_cell (nGeneration f) (cell f k n) (rolling_data f)"
  let ?f = "f\<lparr>rolling_data := ?d\<rparr>"
  have ok: "rolling_ok ?f" using Cons.prems by (auto simp: rolling_ok_def)
  have sim: "similar f ?f" by (simp add: similar_def)
  have "0 < length (rolling_data f)" "even (length (rolling_data f))" and g: "nGeneration f \<in> {1, 2, 3}"
    using Cons.prems by (simp_all add: rolling_ok_def)
  from this(1,2) have v: "valid_cell (rolling_data f) (cell f k n)" by (rule rolling_pos_cell)
  from Cons.IH [OF ok] obtain d where d: "rolling_insert_loop k ns ?f = Some (?f\<lparr>rolling_data := d\<rparr>)" "length d = length ?d"
      "\<And>c. valid_cell (rolling_data f) c \<Longrightarrow>
        gen_at d c = (if c \<in> cell f k ` set ns then nGeneration f else gen_at ?d c)"
    by (auto simp: similar_cell [OF sim] valid_cell_def)
  then show ?case
    using set_gen_at [OF g v] rolling_insert_loop_Cons [OF Cons.prems, of k n ns] by (intro exI [of _ d]) auto
qed

lemma rolling_contains_loop_eq:
  assumes "0 < length (rolling_data f)" "even (length (rolling_data f))"
  shows "rolling_contains_loop f k ns = Some (\<forall>n \<in> set ns. gen_at (rolling_data f) (cell f k n) \<noteq> 0)"
proof (induction ns)
  case Nil
  then show ?case by simp
next
  case (Cons n ns)
  obtain pos where p: "rolling_pos f n k = Some (pos, snd (cell f k n))" "even_pos pos = 2 * fst (cell f k n)"
      "valid_cell (rolling_data f) (cell f k n)" using rolling_pos_cell [OF assms] by blast
  have "drop_bit b w AND 1 = 0 \<longleftrightarrow> \<not> bit (w :: u64) b" for b w
    by (simp add: and_one_eq mod_2_eq_odd bit_iff_odd_drop_bit)
  then show ?case using p Cons.IH by (cases "cell f k n") (auto simp del: drop_bit_or simp: gen_at_simps bit_or_iff)
qed

section \<open>The keys a filter remembers\<close>

text \<open>
  \<open>remembers f ks\<close>, where \<open>ks\<close> are the keys inserted so far, the latest first: the cells of the keys of this generation
  hold its number, those of the generation before hold one of two numbers, and those of the one before that are not
  wiped yet. Later keys may have overwritten a cell, but only with a younger generation.
\<close>

definition prev_generation :: "int \<Rightarrow> int" where
  "prev_generation g = (if g = 1 then 3 else g - 1)"

definition cells_in :: "CRollingBloomFilter \<Rightarrow> bytes \<Rightarrow> int set \<Rightarrow> bool" where
  "cells_in f k G \<longleftrightarrow> (\<forall>n < nat (rolling_nHashFuncs f). gen_at (rolling_data f) (cell f k n) \<in> G)"

definition remembers :: "CRollingBloomFilter \<Rightarrow> bytes list \<Rightarrow> bool" where
  "remembers f ks \<longleftrightarrow> rolling_ok f \<and> 0 < nEntriesPerGeneration f \<and> 0 \<le> nEntriesThisGeneration f \<and> nEntriesThisGeneration f \<le> nEntriesPerGeneration f \<and>
     (\<forall>j < length ks.
        (int j < nEntriesThisGeneration f \<longrightarrow> cells_in f (ks ! j) {nGeneration f}) \<and>
        (int j < nEntriesThisGeneration f + nEntriesPerGeneration f \<longrightarrow>
           cells_in f (ks ! j) {nGeneration f, prev_generation (nGeneration f)}) \<and>
        (int j < nEntriesThisGeneration f + 2 * nEntriesPerGeneration f \<longrightarrow> cells_in f (ks ! j) {1, 2, 3}))"

lemma next_generation_ok:
  assumes "rolling_ok f" "valid_cell (rolling_data f) c"
  shows "rolling_ok (next_generation f)" "similar f (next_generation f)"
    "gen_at (rolling_data (next_generation f)) c =
      (if gen_at (rolling_data f) c = nGeneration (next_generation f) then 0 else gen_at (rolling_data f) c)"
    "prev_generation (nGeneration (next_generation f)) = nGeneration f"
proof -
  define g where "g = (if nGeneration f + 1 = 4 then 1 else nGeneration f + 1)"
  have g: "g \<in> {1, 2, 3}" "prev_generation g = nGeneration f"
    using assms(1) by (auto simp: g_def rolling_ok_def prev_generation_def)
  have n: "next_generation f = f\<lparr>nEntriesThisGeneration := 0, nGeneration := g,
      rolling_data := wipe_generation (- word_of_int (g AND 1)) (- word_of_int (drop_bit 1 g)) (rolling_data f)\<rparr>"
    by (simp add: next_generation_def g_def Let_def)
  have "even (length (rolling_data f))" using assms(1) by (simp add: rolling_ok_def)
  from wipe_gen_at [OF g(1) this assms(2)]
  show "gen_at (rolling_data (next_generation f)) c =
      (if gen_at (rolling_data f) c = nGeneration (next_generation f) then 0 else gen_at (rolling_data f) c)" by (simp add: n)
  show "rolling_ok (next_generation f)" using g(1) assms(1) by (simp add: n rolling_ok_def)
  show "similar f (next_generation f)" "prev_generation (nGeneration (next_generation f)) = nGeneration f"
    by (simp_all add: n similar_def g(2))
qed

lemma cells_in_mono: "cells_in f k G \<Longrightarrow> G \<subseteq> G' \<Longrightarrow> cells_in f k G'"
  unfolding cells_in_def by blast

lemma valid_cells: "rolling_ok f \<Longrightarrow> valid_cell (rolling_data f) (cell f k n)"
  unfolding rolling_ok_def by (metis rolling_pos_cell)

text \<open>A new generation: the cells that hold its number are wiped, the others stay.\<close>

lemma cells_in_next:
  assumes "rolling_ok f" "cells_in f k G" "nGeneration (next_generation f) \<notin> G"
  shows "cells_in (next_generation f) k G"
proof -
  have "gen_at (rolling_data (next_generation f)) (cell (next_generation f) k n) \<in> G" if "n < nat (rolling_nHashFuncs f)" for n
  proof -
    have v: "valid_cell (rolling_data f) (cell f k n)" using assms(1) by (rule valid_cells)
    have "cell (next_generation f) k n = cell f k n" using similar_cell next_generation_ok(2) [OF assms(1) v] .
    then show ?thesis using next_generation_ok(3) [OF assms(1) v] assms(2,3) that by (auto simp: cells_in_def)
  qed
  moreover have "rolling_nHashFuncs (next_generation f) = rolling_nHashFuncs f" by (simp add: next_generation_def Let_def)
  ultimately show ?thesis by (simp add: cells_in_def)
qed

lemma generations_distinct:
  "g \<in> {1, 2, 3} \<Longrightarrow> h \<in> {1, 2, 3} \<Longrightarrow> prev_generation h = g \<Longrightarrow>
   h \<notin> {g, prev_generation g} \<and> {g, prev_generation g} \<subseteq> {1, 2, 3}"
  by (auto simp: prev_generation_def)

lemma remembers_next:
  assumes "remembers f ks" "nEntriesThisGeneration f = nEntriesPerGeneration f"
  shows "remembers (next_generation f) ks"
proof -
  let ?f = "next_generation f"
  have ok: "rolling_ok f" using assms(1) by (simp add: remembers_def)
  note n = next_generation_ok [OF ok valid_cells [OF ok]]
  have e: "nEntriesThisGeneration ?f = 0" "nEntriesPerGeneration ?f = nEntriesPerGeneration f"
    by (simp_all add: next_generation_def Let_def)
  have g: "nGeneration ?f \<notin> {nGeneration f, prev_generation (nGeneration f)}"
      "{nGeneration f, prev_generation (nGeneration f)} \<subseteq> {1, 2, 3}"
    using generations_distinct [of "nGeneration f" "nGeneration ?f"] ok n(1,4) by (auto simp: rolling_ok_def)
  have 1: "cells_in ?f (ks ! j) {nGeneration f}" if "j < length ks" "int j < nEntriesPerGeneration f" for j
    using assms that g(1) cells_in_next [OF ok, of "ks ! j" "{nGeneration f}"] by (auto simp: remembers_def)
  have 2: "cells_in ?f (ks ! j) {nGeneration f, prev_generation (nGeneration f)}"
    if "j < length ks" "int j < 2 * nEntriesPerGeneration f" for j
    using assms that g(1) cells_in_next [OF ok, of "ks ! j" "{nGeneration f, prev_generation (nGeneration f)}"]
    by (auto simp: remembers_def)
  show ?thesis
    using assms(1) n(1) 1 2 cells_in_mono [OF 2 g(2)] cells_in_mono [OF 1, of _ "{nGeneration ?f, nGeneration f}"]
    by (auto simp: remembers_def e n(4))
qed

text \<open>Setting the cells of a key to this generation.\<close>

definition set_key :: "bytes \<Rightarrow> CRollingBloomFilter \<Rightarrow> u64 list \<Rightarrow> bool" where
  "set_key k f d \<longleftrightarrow> length d = length (rolling_data f) \<and>
     (\<forall>c. valid_cell (rolling_data f) c \<longrightarrow>
        gen_at d c = (if c \<in> cell f k ` {0..<nat (rolling_nHashFuncs f)} then nGeneration f else gen_at (rolling_data f) c))"

lemma cells_in_set_key:
  assumes "rolling_ok f" "set_key k f d"
  shows "cells_in (f\<lparr>nEntriesThisGeneration := e, rolling_data := d\<rparr>) k {nGeneration f}"
    "cells_in f k' G \<Longrightarrow> nGeneration f \<in> G \<Longrightarrow> cells_in (f\<lparr>nEntriesThisGeneration := e, rolling_data := d\<rparr>) k' G"
proof -
  have "similar f (f\<lparr>nEntriesThisGeneration := e, rolling_data := d\<rparr>)" using assms(2) by (simp add: similar_def set_key_def)
  note c = similar_cell [OF this]
  show "cells_in (f\<lparr>nEntriesThisGeneration := e, rolling_data := d\<rparr>) k {nGeneration f}"
    using assms(2) valid_cells [OF assms(1), of k] by (auto simp: cells_in_def set_key_def c simp del: split_paired_All)
  show "cells_in (f\<lparr>nEntriesThisGeneration := e, rolling_data := d\<rparr>) k' G" if "cells_in f k' G" "nGeneration f \<in> G"
    using assms(2) that valid_cells [OF assms(1), of k'] by (auto simp: cells_in_def set_key_def c simp del: split_paired_All)
qed

lemma remembers_set_key:
  assumes "remembers f ks" "set_key k f d" "nEntriesThisGeneration f < nEntriesPerGeneration f"
  shows "remembers (f\<lparr>nEntriesThisGeneration := nEntriesThisGeneration f + 1, rolling_data := d\<rparr>) (k # ks)"
proof -
  let ?f = "f\<lparr>nEntriesThisGeneration := nEntriesThisGeneration f + 1, rolling_data := d\<rparr>"
  have ok: "rolling_ok f" using assms(1) by (simp add: remembers_def)
  then have ok': "rolling_ok ?f" and g: "nGeneration f \<in> {1, 2, 3}" using assms(2) by (simp_all add: rolling_ok_def set_key_def)
  note c = cells_in_set_key [OF ok assms(2), where e = "nEntriesThisGeneration f + 1"]
  have k: "cells_in ?f k G" if "nGeneration f \<in> G" for G using cells_in_mono [OF c(1)] that by simp
  have "(int j < nEntriesThisGeneration f + 1 \<longrightarrow> cells_in ?f ((k # ks) ! j) {nGeneration f}) \<and>
    (int j < nEntriesThisGeneration f + 1 + nEntriesPerGeneration f \<longrightarrow>
      cells_in ?f ((k # ks) ! j) {nGeneration f, prev_generation (nGeneration f)}) \<and>
    (int j < nEntriesThisGeneration f + 1 + 2 * nEntriesPerGeneration f \<longrightarrow> cells_in ?f ((k # ks) ! j) {1, 2, 3})"
    if "j < length (k # ks)" for j
  proof (cases j)
    case 0
    then show ?thesis using k g by simp
  next
    case (Suc i)
    then show ?thesis using assms(1) that c(2) [where k' = "ks ! i"] g by (auto simp: remembers_def)
  qed
  then show ?thesis using assms(1,3) ok' by (simp add: remembers_def)
qed

lemma remembers_insert:
  assumes "remembers f ks"
  shows "\<exists>f'. rolling_insert f k = Some f' \<and> remembers f' (k # ks) \<and> nEntriesPerGeneration f' = nEntriesPerGeneration f"
proof -
  define g where "g = (if nEntriesThisGeneration f = nEntriesPerGeneration f then next_generation f else f)"
  have e: "nEntriesPerGeneration g = nEntriesPerGeneration f" by (simp add: g_def next_generation_def Let_def)
  have "remembers g ks" using remembers_next [OF assms] assms by (simp add: g_def)
  moreover have "nEntriesThisGeneration g < nEntriesPerGeneration g"
    using assms by (auto simp: g_def next_generation_def Let_def remembers_def)
  ultimately have g: "remembers g ks" "rolling_ok g" "nEntriesThisGeneration g < nEntriesPerGeneration g"
    by (simp_all add: remembers_def)
  let ?h = "g\<lparr>nEntriesThisGeneration := nEntriesThisGeneration g + 1\<rparr>"
  have "rolling_ok ?h" "similar g ?h" using g(2) by (simp_all add: rolling_ok_def similar_def)
  with rolling_insert_loop_ok [of ?h k "[0..<nat (rolling_nHashFuncs ?h)]"] similar_cell [of g ?h k]
  obtain d where d: "rolling_insert_loop k [0..<nat (rolling_nHashFuncs ?h)] ?h = Some (?h\<lparr>rolling_data := d\<rparr>)" "set_key k g d"
    by (auto simp: set_key_def)
  then show ?thesis
    using remembers_set_key [OF g(1) d(2) g(3)] e by (simp add: rolling_insert_def Let_def flip: g_def)
qed

fun rolling_insert_all :: "CRollingBloomFilter \<Rightarrow> bytes list \<Rightarrow> CRollingBloomFilter option" where
  "rolling_insert_all f [] = Some f"
| "rolling_insert_all f (k # ks) = (case rolling_insert f k of None \<Rightarrow> None | Some f \<Rightarrow> rolling_insert_all f ks)"

lemma remembers_insert_all:
  "remembers f old \<Longrightarrow>
   \<exists>f'. rolling_insert_all f ks = Some f' \<and> remembers f' (rev ks @ old) \<and> nEntriesPerGeneration f' = nEntriesPerGeneration f"
proof (induction ks arbitrary: f old)
  case Nil
  then show ?case by simp
next
  case (Cons k ks)
  from remembers_insert [OF Cons.prems, of k] obtain g where
    g: "rolling_insert f k = Some g" "remembers g (k # old)" "nEntriesPerGeneration g = nEntriesPerGeneration f" by blast
  from Cons.IH [OF g(2)] show ?case using g(1,3) by simp
qed

lemma remembers_contains:
  assumes "remembers f ks" "j < length ks" "int j < 2 * nEntriesPerGeneration f"
  shows "rolling_contains f (ks ! j) = Some True"
proof -
  have "cells_in f (ks ! j) {1, 2, 3}" "rolling_ok f" using assms by (auto simp: remembers_def)
  then show ?thesis
    by (auto simp: rolling_contains_def rolling_contains_loop_eq rolling_ok_def cells_in_def)
qed

lemma remembers_make:
  assumes "nElements \<noteq> 0" "nElements \<noteq> - 1" "nFilterBits \<noteq> 0" "nFilterBits < - 63"
  shows "remembers (CRollingBloomFilter_make nElements funcs nFilterBits rand) []"
    "int (unat nElements) \<le> 2 * nEntriesPerGeneration (CRollingBloomFilter_make nElements funcs nFilterBits rand)"
proof -
  have "nElements + 1 \<noteq> 0" using assms(2) by (simp add: add_eq_0_iff2)
  then have n: "unat (nElements + 1) = unat nElements + 1" "0 < unat nElements"
    using assms(1) by (simp_all add: unatSuc unat_gt_0 add.commute)
  have "unat nFilterBits < 2 ^ 32 - 63" "unat nFilterBits \<noteq> 0"
    using assms(3,4) unat_eq_0 [of nFilterBits] by (simp_all add: word_less_nat_alt)
  then have b: "unat (nFilterBits + 63) = unat nFilterBits + 63" "0 < unat nFilterBits" by (simp_all add: unat_word_ariths)
  have p: "unat (push_bit 1 ((nFilterBits + 63) div 64)) = 2 * ((unat nFilterBits + 63) div 64)"
    using \<open>unat nFilterBits < _\<close> by (simp add: unat_word_ariths unat_div b push_bit_eq_mult)
  have "unat ((nElements + 1) div 2) = (unat nElements + 1) div 2" unfolding unat_div n by simp
  then have e: "uint ((nElements + 1) div 2) = int ((unat nElements + 1) div 2)" by (metis uint_nat)
  show "remembers (CRollingBloomFilter_make nElements funcs nFilterBits rand) []"
    unfolding remembers_def rolling_ok_def CRollingBloomFilter_make_def rolling_reset_def using n(2) b(2) p e by simp
  show "int (unat nElements) \<le> 2 * nEntriesPerGeneration (CRollingBloomFilter_make nElements funcs nFilterBits rand)"
  proof -
    have "m \<le> 2 * ((m + 1) div 2)" for m :: nat by simp
    from this [of "unat nElements"]
    have "int (unat nElements) \<le> 2 * int ((unat nElements + 1) div 2)" by linarith
    then show ?thesis unfolding CRollingBloomFilter_make_def rolling_reset_def by (simp only: e CRollingBloomFilter.simps)
  qed
qed

text \<open>
  (C40) A rolling Bloom filter made for \<open>nElements\<close> keys contains each of the last \<open>nElements\<close> keys inserted, however many were inserted
  before them, in every order and with repetitions: a new generation never wipes a cell that a key of the
  last two generations needs, even when the keys share cells.
\<close>

theorem rolling_filter_remembers:
  assumes "nElements \<noteq> - 1" "nFilterBits \<noteq> 0" "nFilterBits < - 63"
    and "key \<in> set (drop (length keys - unat nElements) keys)"
  shows "\<exists>f. rolling_insert_all (CRollingBloomFilter_make nElements funcs nFilterBits rand) keys = Some f \<and>
    rolling_contains f key = Some True"
proof -
  let ?f = "CRollingBloomFilter_make nElements funcs nFilterBits rand"
  have "nElements \<noteq> 0" using assms(4) by auto
  note m = remembers_make [OF this assms(1-3), of funcs rand]
  from remembers_insert_all [OF m(1), of keys] obtain f where
    f: "rolling_insert_all ?f keys = Some f" "remembers f (rev keys)" "nEntriesPerGeneration f = nEntriesPerGeneration ?f" by auto
  have "key \<in> set (take (unat nElements) (rev keys))" using assms(4) by (simp add: take_rev)
  then obtain j where "j < unat nElements" "j < length (rev keys)" "key = rev keys ! j" by (auto simp: in_set_conv_nth)
  then show ?thesis using remembers_contains [OF f(2), of j] f(1,3) m(2) by auto
qed

theorem rolling_filter_remembers_witness:
  "\<exists>f. rolling_insert_all (CRollingBloomFilter_make 2 3 64 5) [[1], [2], [3], [1], [4], [5]] = Some f \<and>
     rolling_contains f [4] = Some True"
  by (rule rolling_filter_remembers) simp_all

end
