(* ===== verification/Subsidy.thy ===== *)
theory Subsidy
  imports Pow
begin

text \<open>
  The block reward of \<^verbatim>\<open>validation.cpp\<close>. The source scales the subsidy with \<^verbatim>\<open>double\<close> values, so the
  arithmetic of IEEE 754 binary64 is written out for what is used here: numbers that are not negative,
  far from overflow and from the subnormal range, rounded to nearest with ties to even. A number is a
  pair of a mantissa and an exponent to base 2. The last section bounds the money that is ever created.
\<close>

section \<open>Floating-point numbers\<close>

type_synonym binary64 = "int \<times> int"

fun bit_length :: "int \<Rightarrow> nat" where
  "bit_length m = (if m \<le> 0 then 0 else Suc (bit_length (m div 2)))"

declare bit_length.simps [simp del]

definition round53 :: "int \<Rightarrow> int \<Rightarrow> binary64" where
  "round53 m e =
     (if m < 2 ^ 53 then (m, e)
      else let s = bit_length m - 53;
               q = m div 2 ^ s;
               r = m mod 2 ^ s
           in (if r > 2 ^ (s - 1) \<or> (r = 2 ^ (s - 1) \<and> odd q) then q + 1 else q, e + int s))"

definition fl_of_int :: "int \<Rightarrow> binary64" where
  "fl_of_int n = round53 n 0"

definition fl_mult :: "binary64 \<Rightarrow> binary64 \<Rightarrow> binary64" where
  "fl_mult x y = round53 (fst x * fst y) (snd x + snd y)"

definition fl_diff :: "binary64 \<Rightarrow> binary64 \<Rightarrow> binary64" where
  "fl_diff x y =
     (let e = min (snd x) (snd y)
      in round53 (fst x * 2 ^ nat (snd x - e) - fst y * 2 ^ nat (snd y - e)) e)"

definition fl_before :: "binary64 \<Rightarrow> binary64 \<Rightarrow> bool" where
  "fl_before x y = (let e = min (snd x) (snd y) in fst x * 2 ^ nat (snd x - e) < fst y * 2 ^ nat (snd y - e))"

text \<open>The conversion to an integer drops the fraction.\<close>

definition fl_to_int :: "binary64 \<Rightarrow> int" where
  "fl_to_int x = (if snd x \<ge> 0 then fst x * 2 ^ nat (snd x) else fst x div 2 ^ nat (- snd x))"

text \<open>The literal \<^verbatim>\<open>0.0375\<close> is the nearest representable number.\<close>

definition fl_one :: binary64 where "fl_one = (1, 0)"
definition fl_half :: binary64 where "fl_half = (1, - 1)"
definition min_reduction :: binary64 where "min_reduction = (5404319552844595, - 57)"

section \<open>The subsidy\<close>

definition next_reduction :: "binary64 \<Rightarrow> binary64" where
  "next_reduction reductionPercent =
     (let r = fl_mult reductionPercent fl_half in if fl_before r min_reduction then min_reduction else r)"

fun subsidy_loop :: "nat \<Rightarrow> binary64 \<Rightarrow> CAmount \<Rightarrow> CAmount" where
  "subsidy_loop 0 reductionPercent nSubsidy = nSubsidy"
| "subsidy_loop (Suc n) reductionPercent nSubsidy =
     (let reductionPercent = next_reduction reductionPercent;
          multiplyValue = fl_diff fl_one reductionPercent
      in subsidy_loop n reductionPercent (fl_to_int (fl_mult (fl_of_int nSubsidy) multiplyValue)))"

definition GetBlockSubsidy :: "Params \<Rightarrow> int \<Rightarrow> bool \<Rightarrow> CAmount" where
  "GetBlockSubsidy params height fSuperblockPartOnly =
     (let halvings = height sdiv nSubsidyHalvingInterval params;
          nSubsidy = subsidy_loop (nat halvings) fl_one (100 * COIN);
          nSuperblockPart = (if height \<ge> nSuperblockStartBlock params then nSubsidy sdiv 10 else 0)
      in if fSuperblockPartOnly then nSuperblockPart else nSubsidy - nSuperblockPart)"

definition GetMasternodePayment :: "Params \<Rightarrow> int \<Rightarrow> CAmount \<Rightarrow> CAmount" where
  "GetMasternodePayment params height blockValue =
     (if height \<ge> nMasternodePaymentsStartBlock params \<and> height < nSuperblockStartBlock params then blockValue sdiv 5
      else if height \<ge> nSuperblockStartBlock params \<and> height < 100000 then (blockValue sdiv 9) * 2
      else if height \<ge> 100000 then (blockValue sdiv 9) * 3
      else 0)"

section \<open>The money that is created\<close>

lemma bit_length_bounds: "0 < m \<Longrightarrow> 2 ^ (bit_length m - 1) \<le> m \<and> m < 2 ^ bit_length m \<and> 0 < bit_length m"
proof (induction m rule: bit_length.induct)
  case (1 m)
  show ?case
  proof (cases "m = 1")
    case True
    then show ?thesis by (simp add: bit_length.simps)
  next
    case False
    then have "0 < m div 2" using 1 by auto
    with 1 have "2 ^ (bit_length (m div 2) - 1) \<le> m div 2" "m div 2 < 2 ^ bit_length (m div 2)" "0 < bit_length (m div 2)" by auto
    moreover obtain k where "bit_length (m div 2) = Suc k" using calculation(3) by (cases "bit_length (m div 2)") auto
    moreover have "bit_length m = Suc (bit_length (m div 2))" using 1 by (subst bit_length.simps) simp
    ultimately show ?thesis by auto
  qed
qed

text \<open>Rounding adds at most one part in 2 to the 52, and dropping the fraction adds nothing.\<close>

lemma round53_trunc:
  assumes "0 \<le> m"
  shows "fl_to_int (round53 m (- int E)) * 2 ^ E * 2 ^ 52 \<le> m * (2 ^ 52 + 1) \<and> 0 \<le> fl_to_int (round53 m (- int E))"
proof -
  have exact: "0 \<le> x \<Longrightarrow> fl_to_int (x, - int E + int s) * 2 ^ E \<le> x * 2 ^ s \<and> 0 \<le> fl_to_int (x, - int E + int s)" for x s
  proof (cases "E \<le> s")
    case True
    then have "(2 :: int) ^ s = 2 ^ E * 2 ^ (s - E)" by (simp flip: power_add)
    moreover have "nat (int s - int E) = s - E" by simp
    ultimately show "0 \<le> x \<Longrightarrow> ?thesis" using True by (simp add: fl_to_int_def mult_ac)
  next
    case False
    then have e: "(2 :: int) ^ E = 2 ^ s * 2 ^ (E - s)" by (simp flip: power_add)
    assume "0 \<le> x"
    have "x div 2 ^ (E - s) * 2 ^ (E - s) \<le> x" by (metis div_mult_mod_eq le_add_same_cancel1 pos_mod_sign zero_less_numeral zero_less_power)
    then have "x div 2 ^ (E - s) * 2 ^ (E - s) * 2 ^ s \<le> x * 2 ^ s" by (rule mult_right_mono) simp
    moreover have "nat (int E - int s) = E - s" by simp
    ultimately show ?thesis using False \<open>0 \<le> x\<close> unfolding e by (simp add: fl_to_int_def mult_ac pos_imp_zdiv_nonneg_iff)
  qed
  show ?thesis
  proof (cases "m < 2 ^ 53")
    case True
    then have r: "round53 m (- int E) = (m, - int E + int 0)" by (simp add: round53_def)
    have "fl_to_int (round53 m (- int E)) * 2 ^ E * 2 ^ 52 \<le> m * 2 ^ 52" using exact [OF assms, of 0] unfolding r by simp
    then show ?thesis using exact [OF assms, of 0] assms unfolding r by (simp add: distrib_left)
  next
    case False
    let ?s = "bit_length m - 53" and ?q = "m div 2 ^ (bit_length m - 53)"
    define q' where "q' = fst (round53 m (- int E))"
    have r: "round53 m (- int E) = (q', - int E + int ?s)" using False by (simp add: q'_def round53_def Let_def)
    have b: "2 ^ (bit_length m - 1) \<le> m" "m < 2 ^ bit_length m" using bit_length_bounds [of m] False by auto
    have "(2 :: int) ^ 53 < 2 ^ bit_length m" using b(2) False by linarith
    then have l: "53 < bit_length m" by (rule power_less_imp_less_exp [rotated]) simp
    then have "(2 :: int) ^ ?s * 2 ^ 52 = 2 ^ (bit_length m - 1)" by (simp only: power_add [symmetric]) simp
    then have s52: "2 ^ ?s * 2 ^ 52 \<le> m" using b(1) by simp
    have q: "?q * 2 ^ ?s \<le> m" "0 \<le> ?q"
      by (metis div_mult_mod_eq le_add_same_cancel1 pos_mod_sign zero_less_numeral zero_less_power) (use False in \<open>simp add: pos_imp_zdiv_nonneg_iff\<close>)
    have q': "q' \<le> ?q + 1" "0 \<le> q'" using q(2) False by (auto simp: q'_def round53_def Let_def)
    have "q' * 2 ^ ?s \<le> (?q + 1) * 2 ^ ?s" using q'(1) by (rule mult_right_mono) simp
    then have "q' * 2 ^ ?s \<le> m + 2 ^ ?s" using q(1) by (simp add: distrib_right)
    then have "q' * 2 ^ ?s * 2 ^ 52 \<le> m * 2 ^ 52 + m" using s52 by simp
    moreover have "fl_to_int (round53 m (- int E)) * 2 ^ E \<le> q' * 2 ^ ?s" "0 \<le> fl_to_int (round53 m (- int E))"
      using exact [OF q'(2), of ?s] unfolding r by auto
    ultimately show ?thesis by (simp add: distrib_left)
  qed
qed

lemma subsidies: "map (\<lambda>n. subsidy_loop n fl_one (100 * COIN)) [0, 1, 2, 3, 4] =
  [10000000000, 5000000000, 3750000000, 3281250000, 3076171875]"
  by code_simp

lemma subsidy_loop_Suc:
  "subsidy_loop (Suc n) r s =
    fl_to_int (fl_mult (fl_of_int (subsidy_loop n r s)) (fl_diff fl_one ((next_reduction ^^ Suc n) r)))"
proof (induction n arbitrary: r s)
  case (Suc n)
  let ?r = "next_reduction r" and ?s = "fl_to_int (fl_mult (fl_of_int s) (fl_diff fl_one (next_reduction r)))"
  have "subsidy_loop (Suc (Suc n)) r s = subsidy_loop (Suc n) ?r ?s" by (simp add: Let_def)
  also have "\<dots> = fl_to_int (fl_mult (fl_of_int (subsidy_loop n ?r ?s)) (fl_diff fl_one ((next_reduction ^^ Suc n) ?r)))"
    by (rule Suc.IH)
  finally show ?case by (simp add: Let_def funpow_swap1)
qed (simp add: Let_def)

lemma steady_reduction: "4 \<le> n \<Longrightarrow> (next_reduction ^^ Suc n) fl_one = min_reduction"
proof (induction n rule: dec_induct)
  case base
  have "next_reduction (next_reduction (next_reduction (next_reduction (next_reduction fl_one)))) = min_reduction" by code_simp
  then show ?case by (simp add: numeral_eq_Suc)
next
  case (step n)
  have "next_reduction min_reduction = min_reduction" by code_simp
  then show ?case using step.IH by simp
qed

definition main_subsidy :: "nat \<Rightarrow> CAmount" where
  "main_subsidy n = subsidy_loop n fl_one (100 * COIN)"

lemma steady_multiplier: "fl_diff fl_one min_reduction = (8669429282688205, - int 53)"
  by code_simp

lemma first_subsidies: "main_subsidy 0 = 10000000000" "main_subsidy (Suc 0) = 5000000000" "main_subsidy 2 = 3750000000"
  "main_subsidy 3 = 3281250000" "main_subsidy 4 = 3076171875"
  using subsidies by (simp_all add: main_subsidy_def del: subsidy_loop.simps)

lemma subsidy_step:
  assumes "0 \<le> main_subsidy n" "main_subsidy n < 2 ^ 53" "4 \<le> n"
  shows "0 \<le> main_subsidy (Suc n) \<and> main_subsidy (Suc n) * 1000000000 \<le> main_subsidy n * 962500001"
proof -
  let ?m = "main_subsidy n * 8669429282688205"
  have "main_subsidy (Suc n) = fl_to_int (round53 ?m (- int 53))"
    unfolding main_subsidy_def subsidy_loop_Suc steady_reduction [OF assms(3)] steady_multiplier
    using assms(2) by (simp add: fl_mult_def fl_of_int_def round53_def [of "main_subsidy n"] flip: main_subsidy_def)
  then show ?thesis using round53_trunc [of ?m 53] assms(1) by simp
qed

lemma main_subsidy_bounds: "4 \<le> n \<Longrightarrow> 0 \<le> main_subsidy n \<and> main_subsidy n \<le> 3076171875"
proof (induction n rule: dec_induct)
  case (step n)
  then show ?case using subsidy_step [of n] by auto
qed (simp add: first_subsidies)

lemma main_subsidy_nonneg: "0 \<le> main_subsidy n"
proof (cases "4 \<le> n")
  case False
  then consider "n = 0" | "n = 1" | "n = 2" | "n = 3" by linarith
  then show ?thesis by cases (simp_all add: first_subsidies)
qed (simp add: main_subsidy_bounds)

lemma subsidy_potential:
  "4 \<le> n \<Longrightarrow> 37499999 * (\<Sum>i<n. main_subsidy i) + 1000000000 * main_subsidy n \<le> 37499999 * 22031250000 + 1000000000 * 3076171875"
proof (induction n rule: dec_induct)
  case base
  have "(\<Sum>i<4. main_subsidy i) = main_subsidy 0 + main_subsidy 1 + main_subsidy 2 + main_subsidy 3"
    by (simp add: numeral_eq_Suc)
  then show ?case by (simp add: first_subsidies)
next
  case (step n)
  then show ?case using subsidy_step [of n] main_subsidy_bounds [of n] by simp
qed

lemma total_subsidy: "(\<Sum>i<n. main_subsidy i) \<le> 104062502189"
proof -
  have "(\<Sum>i<n. main_subsidy i) \<le> (\<Sum>i<n + 4. main_subsidy i)" by (rule sum_mono2) (auto simp: main_subsidy_nonneg)
  moreover have "0 \<le> main_subsidy (n + 4)" by (rule main_subsidy_nonneg)
  ultimately show ?thesis using subsidy_potential [of "n + 4"] by simp
qed

text \<open>The subsidy runs out after 505 periods.\<close>

lemma main_subsidy_0: "505 \<le> n \<Longrightarrow> main_subsidy n = 0"
proof (induction n rule: dec_induct)
  case base
  have "subsidy_loop 505 fl_one (100 * COIN) = 0" by code_simp
  then show ?case by (simp only: main_subsidy_def)
next
  case (step n)
  then show ?case using subsidy_step [of n] by simp
qed

text \<open>Adding up the subsidies of the first periods, for evaluation.\<close>

fun subsidies_from :: "nat \<Rightarrow> binary64 \<Rightarrow> CAmount \<Rightarrow> CAmount" where
  "subsidies_from 0 r s = 0"
| "subsidies_from (Suc n) r s =
     s + (let r = next_reduction r in subsidies_from n r (fl_to_int (fl_mult (fl_of_int s) (fl_diff fl_one r))))"

lemma subsidies_from_sum: "subsidies_from n r s = (\<Sum>i<n. subsidy_loop i r s)"
  by (induction n arbitrary: r s) (simp_all add: Let_def sum.lessThan_Suc_shift del: sum.lessThan_Suc)

lemma subsidies_83: "100000000000 < (\<Sum>i<83. main_subsidy i)"
proof -
  have "100000000000 < subsidies_from 83 fl_one (100 * COIN)" by code_simp
  then show ?thesis by (simp only: subsidies_from_sum main_subsidy_def)
qed

lemma sdiv_nonneg: "0 \<le> x \<Longrightarrow> 0 < y \<Longrightarrow> x sdiv y = x div (y :: int)"
  by (simp add: signed_divide_int_def sgn_if)

lemma main_GetBlockSubsidy:
  "GetBlockSubsidy CMainParams_consensus (int h) superblock =
    (let s = main_subsidy (h div 100000) in
     if superblock then if 25000 \<le> h then s div 10 else 0 else if 25000 \<le> h then s - s div 10 else s)"
proof -
  have "nat (int h sdiv 100000) = h div 100000" by (simp add: sdiv_nonneg nat_div_distrib)
  moreover have "nSubsidyHalvingInterval CMainParams_consensus = 100000" "nSuperblockStartBlock CMainParams_consensus = 25000"
    by (simp_all add: CMainParams_consensus_def Let_def)
  ultimately show ?thesis
    using main_subsidy_nonneg [of "h div 100000"]
    by (simp add: GetBlockSubsidy_def Let_def sdiv_nonneg flip: main_subsidy_def)
qed

text \<open>Sums over heights, period by period.\<close>

lemma sum_periods:
  fixes f g :: "nat \<Rightarrow> int"
  assumes "\<And>h. 0 \<le> f h" "\<And>i. (\<Sum>h = i * 100000..<i * 100000 + 100000. f h) \<le> g i"
  shows "(\<Sum>h<N. f h) \<le> (\<Sum>i<N div 100000 + 1. g i)"
proof -
  have "N < (N div 100000 + 1) * 100000" by (simp add: dividend_less_div_times)
  then have "(\<Sum>h<N. f h) \<le> (\<Sum>h<(N div 100000 + 1) * 100000. f h)"
    using assms(1) by (intro sum_mono2) auto
  also have "\<dots> = (\<Sum>i<N div 100000 + 1. \<Sum>h = i * 100000..<i * 100000 + 100000. f h)" by (simp only: sum.nat_group)
  also have "\<dots> \<le> (\<Sum>i<N div 100000 + 1. g i)" by (rule sum_mono) (rule assms(2))
  finally show ?thesis .
qed

lemma period_index: "i * 100000 \<le> h \<Longrightarrow> h < i * 100000 + 100000 \<Longrightarrow> h div 100000 = (i :: nat)"
  by (rule div_nat_eqI) auto

lemma total_created: "(\<Sum>h<N. main_subsidy (h div 100000)) \<le> 100000 * 104062502189"
proof -
  have "(\<Sum>h<N. main_subsidy (h div 100000)) \<le> (\<Sum>i<N div 100000 + 1. 100000 * main_subsidy i)"
  proof (rule sum_periods)
    fix i
    have "(\<Sum>h = i * 100000..<i * 100000 + 100000. main_subsidy (h div 100000)) = (\<Sum>h = i * 100000..<i * 100000 + 100000. main_subsidy i)"
      by (rule sum.cong) (auto simp: period_index)
    then show "(\<Sum>h = i * 100000..<i * 100000 + 100000. main_subsidy (h div 100000)) \<le> 100000 * main_subsidy i" by simp
  qed (rule main_subsidy_nonneg)
  also have "\<dots> = 100000 * (\<Sum>i<N div 100000 + 1. main_subsidy i)" by (simp only: sum_distrib_left)
  finally show ?thesis using total_subsidy [of "N div 100000 + 1"] by linarith
qed

lemma miner_part_bound: "10 * (s - s div 10) \<le> 9 * s + (if s = 0 then 0 else 9 :: int)"
  by (cases "s = 0") (simp, presburger)

lemma running_periods: "(\<Sum>i<n. if main_subsidy i = 0 then 0 else 9) \<le> (4545 :: int)"
proof -
  have "(\<Sum>i<n. if main_subsidy i = 0 then 0 else 9) \<le> (\<Sum>i<n. if i < 505 then 9 else 0 :: int)"
    by (rule sum_mono) (auto simp: main_subsidy_0)
  also have "\<dots> = (\<Sum>i \<in> {..<n} \<inter> {i. i < 505}. 9)" by (simp add: sum.If_cases)
  also have "\<dots> \<le> (\<Sum>i<505 :: nat. 9)" by (rule sum_mono2) auto
  finally show ?thesis by simp
qed

text \<open>The part that is not reserved for superblocks: nine tenths, except for the first 25000 blocks.\<close>

lemma miner_created:
  "10 * (\<Sum>h<N. GetBlockSubsidy CMainParams_consensus (int h) False) \<le> 900000 * 104062502189 + 100000 * 4545 + 25000 * 10000000000"
proof -
  let ?F = "\<lambda>h. GetBlockSubsidy CMainParams_consensus (int h) False"
  let ?z = "\<lambda>i. if main_subsidy i = 0 then 0 else 9 :: int"
  let ?b = "\<lambda>i :: nat. if i = 0 then 25000 * 10000000000 else 0 :: int"
  have e: "10 * ?F h \<le> 9 * main_subsidy (h div 100000) + ?z (h div 100000) + (if h < 25000 then 10000000000 else 0)" for h
    using miner_part_bound [of "main_subsidy (h div 100000)"] main_subsidy_nonneg [of "h div 100000"]
    by (auto simp: main_GetBlockSubsidy Let_def first_subsidies)
  have "10 * (\<Sum>h<N. ?F h) \<le> (\<Sum>h<N. 9 * main_subsidy (h div 100000) + ?z (h div 100000) + (if h < 25000 then 10000000000 else 0))"
    unfolding sum_distrib_left by (rule sum_mono) (rule e)
  also have "\<dots> \<le> (\<Sum>i<N div 100000 + 1. 100000 * (9 * main_subsidy i + ?z i) + ?b i)"
  proof (rule sum_periods)
    fix i :: nat
    let ?I = "{i * 100000..<i * 100000 + 100000}"
    have "(\<Sum>h \<in> ?I. 9 * main_subsidy (h div 100000) + ?z (h div 100000)) = (\<Sum>h \<in> ?I. 9 * main_subsidy i + ?z i)"
      by (rule sum.cong) (auto simp: period_index)
    moreover have "(\<Sum>h \<in> ?I. if h < 25000 then 10000000000 else 0 :: int) \<le> ?b i"
    proof (cases "i = 0")
      case True
      have "(\<Sum>h \<in> {0..<100000 :: nat}. if h < 25000 then 10000000000 else 0 :: int) = (\<Sum>h \<in> {0..<100000} \<inter> {h :: nat. h < 25000}. 10000000000)"
        by (simp add: sum.If_cases)
      also have "{0..<100000} \<inter> {h :: nat. h < 25000} = {0..<25000}" by auto
      finally show ?thesis using True by simp
    next
      case False
      then have "(\<Sum>h \<in> ?I. if h < 25000 then 10000000000 else 0 :: int) = (\<Sum>h \<in> ?I. 0)" by (intro sum.cong) auto
      then show ?thesis using False by simp
    qed
    ultimately show "(\<Sum>h \<in> ?I. 9 * main_subsidy (h div 100000) + ?z (h div 100000) + (if h < 25000 then 10000000000 else 0))
        \<le> 100000 * (9 * main_subsidy i + ?z i) + ?b i"
      by (simp only: sum.distrib) simp
  qed (use main_subsidy_nonneg in auto)
  also have "\<dots> = 900000 * (\<Sum>i<N div 100000 + 1. main_subsidy i) + 100000 * (\<Sum>i<N div 100000 + 1. ?z i) + (\<Sum>i<N div 100000 + 1. ?b i)"
    by (simp add: sum.distrib sum_distrib_left algebra_simps)
  also have "(\<Sum>i<N div 100000 + 1. ?b i) = 25000 * 10000000000" by (subst sum.remove [of _ 0]) auto
  finally show ?thesis using total_subsidy [of "N div 100000 + 1"] running_periods [of "N div 100000 + 1"] by linarith
qed

text \<open>
  (C32) \<open>GetBlockSubsidy\<close> with the parameters of the main network (\<^verbatim>\<open>validation.cpp\<close>, \<^verbatim>\<open>chainparams.cpp\<close>): however
  long the chain is, the rewards without the superblock part add up to at most \<^verbatim>\<open>MAX_MONEY\<close>, and with it
  to less than 104062503 coins, floating-point rounding included. With the superblock part the sum does
  pass \<^verbatim>\<open>MAX_MONEY\<close>, after 8.3 million blocks.
\<close>

theorem GetBlockSubsidy_total:
  "(\<Sum>h<N. GetBlockSubsidy CMainParams_consensus (int h) False) \<le> MAX_MONEY \<and>
   (\<Sum>h<N. GetBlockSubsidy CMainParams_consensus (int h) False + GetBlockSubsidy CMainParams_consensus (int h) True) < 104062503 * COIN \<and>
   MAX_MONEY < (\<Sum>h<8300000. GetBlockSubsidy CMainParams_consensus (int h) False + GetBlockSubsidy CMainParams_consensus (int h) True)"
proof -
  have s: "GetBlockSubsidy CMainParams_consensus (int h) False + GetBlockSubsidy CMainParams_consensus (int h) True = main_subsidy (h div 100000)" for h
    by (simp add: main_GetBlockSubsidy Let_def)
  have "(\<Sum>h<83 * 100000. main_subsidy (h div 100000)) = (\<Sum>i<83. \<Sum>h = i * 100000..<i * 100000 + 100000. main_subsidy (h div 100000))"
    by (simp only: sum.nat_group)
  also have "\<dots> = (\<Sum>i<83. \<Sum>h = i * 100000..<i * 100000 + 100000. main_subsidy i)"
    by (intro sum.cong) (auto simp: period_index)
  also have "\<dots> = 100000 * (\<Sum>i<83. main_subsidy i)" by (simp add: sum_distrib_left)
  finally have "(\<Sum>h<8300000. main_subsidy (h div 100000)) = 100000 * (\<Sum>i<83. main_subsidy i)" by simp
  then show ?thesis unfolding s using miner_created [of N] total_created [of N] subsidies_83 by (simp add: MAX_MONEY_def COIN_def)
qed

end
