(* ===== verification/Compressor.thy ===== *)
theory Compressor
  imports Connect
begin

unbundle bit_operations_syntax

text \<open>
  The compact encodings of the chain state (\<^verbatim>\<open>compressor.h\<close>, \<^verbatim>\<open>compressor.cpp\<close>), the disk format of coins
  (\<^verbatim>\<open>coins.h\<close>) and of undo data (\<^verbatim>\<open>undo.h\<close>). The two functions of the elliptic-curve library are parameters:
  \<open>IsFullyValid\<close> says whether a public key is a point of the curve, \<open>Decompress_pubkey\<close> is
  \<^verbatim>\<open>CPubKey::Decompress\<close>. An object that is read into keeps what the code does not overwrite, so the
  readers take the old script as an argument.
\<close>

record pubkey_fns =
  IsFullyValid :: "bytes \<Rightarrow> bool"
  Decompress_pubkey :: "bytes \<Rightarrow> bytes option"

section \<open>Amounts\<close>

text \<open>The first argument is \<^verbatim>\<open>9 - e\<close>.\<close>

fun strip_zeros :: "nat \<Rightarrow> u64 \<Rightarrow> nat \<Rightarrow> u64 \<times> nat" where
  "strip_zeros 0 n e = (n, e)"
| "strip_zeros (Suc k) n e = (if n mod 10 = 0 then strip_zeros k (n div 10) (e + 1) else (n, e))"

definition CompressAmount :: "u64 \<Rightarrow> u64" where
  "CompressAmount n =
     (if n = 0 then 0
      else let (n, e) = strip_zeros 9 n 0 in
           if e < 9 then (let d = n mod 10; n = n div 10 in 1 + (n * 9 + d - 1) * 10 + of_nat e)
           else 1 + (n - 1) * 10 + 9)"

fun append_zeros :: "nat \<Rightarrow> u64 \<Rightarrow> u64" where
  "append_zeros 0 n = n"
| "append_zeros (Suc e) n = append_zeros e (n * 10)"

definition DecompressAmount :: "u64 \<Rightarrow> u64" where
  "DecompressAmount x =
     (if x = 0 then 0
      else let x = x - 1; e = unat (x mod 10); x = x div 10;
               n = (if e < 9 then (let d = x mod 9 + 1; x = x div 9 in x * 10 + d) else x + 1)
           in append_zeros e n)"

section \<open>Scripts\<close>

definition IsToKeyID :: "CScript \<Rightarrow> bytes option" where
  "IsToKeyID script =
     (if length script = 25 \<and> script ! 0 = OP_DUP \<and> script ! 1 = OP_HASH160 \<and> script ! 2 = 20 \<and>
         script ! 23 = OP_EQUALVERIFY \<and> script ! 24 = OP_CHECKSIG
      then Some (take 20 (drop 3 script)) else None)"

definition IsToScriptID :: "CScript \<Rightarrow> bytes option" where
  "IsToScriptID script =
     (if length script = 23 \<and> script ! 0 = OP_HASH160 \<and> script ! 1 = 20 \<and> script ! 22 = OP_EQUAL
      then Some (take 20 (drop 2 script)) else None)"

definition IsToPubKey :: "pubkey_fns \<Rightarrow> CScript \<Rightarrow> bytes option" where
  "IsToPubKey pk script =
     (if length script = 35 \<and> script ! 0 = 33 \<and> script ! 34 = OP_CHECKSIG \<and> (script ! 1 = 0x02 \<or> script ! 1 = 0x03)
      then Some (take 33 (drop 1 script))
      else if length script = 67 \<and> script ! 0 = 65 \<and> script ! 66 = OP_CHECKSIG \<and> script ! 1 = 0x04
      then (if IsFullyValid pk (take 65 (drop 1 script)) then Some (take 65 (drop 1 script)) else None)
      else None)"

definition Compress :: "pubkey_fns \<Rightarrow> CScript \<Rightarrow> bytes option" where
  "Compress pk script =
     (case IsToKeyID script of
        Some keyID \<Rightarrow> Some (0x00 # keyID)
      | None \<Rightarrow>
          (case IsToScriptID script of
             Some scriptID \<Rightarrow> Some (0x01 # scriptID)
           | None \<Rightarrow>
               (case IsToPubKey pk script of
                  Some pubkey \<Rightarrow>
                    if pubkey ! 0 = 0x02 \<or> pubkey ! 0 = 0x03 then Some (pubkey ! 0 # take 32 (drop 1 pubkey))
                    else if pubkey ! 0 = 0x04 then Some ((0x04 OR (pubkey ! 64 AND 0x01)) # take 32 (drop 1 pubkey))
                    else None
                | None \<Rightarrow> None)))"

definition nSpecialScripts :: u32 where
  "nSpecialScripts = 6"

definition GetSpecialSize :: "u32 \<Rightarrow> nat" where
  "GetSpecialSize nSize =
     (if nSize = 0 \<or> nSize = 1 then 20
      else if nSize = 2 \<or> nSize = 3 \<or> nSize = 4 \<or> nSize = 5 then 32
      else 0)"

text \<open>\<open>None\<close> is the result \<^verbatim>\<open>false\<close>, which leaves the script alone.\<close>

definition Decompress :: "pubkey_fns \<Rightarrow> u32 \<Rightarrow> bytes \<Rightarrow> CScript option" where
  "Decompress pk nSize in' =
     (if nSize = 0x00 then Some ([OP_DUP, OP_HASH160, 20] @ take 20 in' @ [OP_EQUALVERIFY, OP_CHECKSIG])
      else if nSize = 0x01 then Some ([OP_HASH160, 20] @ take 20 in' @ [OP_EQUAL])
      else if nSize = 0x02 \<or> nSize = 0x03 then Some ([33, ucast nSize] @ take 32 in' @ [OP_CHECKSIG])
      else if nSize = 0x04 \<or> nSize = 0x05
      then (case Decompress_pubkey pk (ucast (nSize - 2) # take 32 in') of
              None \<Rightarrow> None
            | Some pubkey \<Rightarrow> Some ([65] @ pubkey @ [OP_CHECKSIG]))
      else None)"

definition Serialize_CScriptCompressor :: "pubkey_fns \<Rightarrow> CScript \<Rightarrow> bytes" where
  "Serialize_CScriptCompressor pk script =
     (case Compress pk script of
        Some compr \<Rightarrow> compr
      | None \<Rightarrow> WriteVarInt (of_nat (length script) + nSpecialScripts) @ script)"

definition stream_ignore :: "u32 \<Rightarrow> unit unser" where
  "stream_ignore nSize s =
     (if sint nSize < 0 then Inl NegativeIgnore
      else if unat nSize > length s then Inl EndOfData
      else Inr ((), drop (unat nSize) s))"

definition Unserialize_CScriptCompressor :: "pubkey_fns \<Rightarrow> CScript \<Rightarrow> CScript unser" where
  "Unserialize_CScriptCompressor pk script =
     unser_bind ReadVarInt (\<lambda>nSize :: u32.
       if nSize < nSpecialScripts
       then unser_bind (stream_read (GetSpecialSize nSize)) (\<lambda>vch.
              unser_return (case Decompress pk nSize vch of Some script' \<Rightarrow> script' | None \<Rightarrow> script))
       else let nSize = nSize - nSpecialScripts in
            if unat nSize > MAX_SCRIPT_SIZE
            then unser_bind (stream_ignore nSize) (\<lambda>_. unser_return (script @ [OP_RETURN]))
            else stream_read (unat nSize))"

section \<open>Outputs and coins\<close>

definition Serialize_CTxOutCompressor :: "pubkey_fns \<Rightarrow> CTxOut \<Rightarrow> bytes" where
  "Serialize_CTxOutCompressor pk txout =
     WriteVarInt (CompressAmount (word_of_int (nValue txout))) @ Serialize_CScriptCompressor pk (scriptPubKey txout)"

definition Unserialize_CTxOutCompressor :: "pubkey_fns \<Rightarrow> CTxOut \<Rightarrow> CTxOut unser" where
  "Unserialize_CTxOutCompressor pk txout =
     unser_bind ReadVarInt (\<lambda>nVal :: u64.
       unser_bind (Unserialize_CScriptCompressor pk (scriptPubKey txout)) (\<lambda>script.
         unser_return (txout \<lparr> nValue := sint (DecompressAmount nVal), scriptPubKey := script \<rparr>)))"

definition coin_code :: "Coin \<Rightarrow> u32" where
  "coin_code c = ucast (nHeight c) * 2 + (if fCoinBase c then 1 else 0)"

text \<open>\<open>Inl SpentCoin\<close> is the failed assertion of \<^verbatim>\<open>Coin::Serialize\<close>.\<close>

definition Serialize_Coin :: "pubkey_fns \<Rightarrow> Coin \<Rightarrow> ser_error + bytes" where
  "Serialize_Coin pk c =
     (if IsSpent c then Inl SpentCoin else Inr (WriteVarInt (coin_code c) @ Serialize_CTxOutCompressor pk (out c)))"

definition Unserialize_Coin :: "pubkey_fns \<Rightarrow> Coin \<Rightarrow> Coin unser" where
  "Unserialize_Coin pk c =
     unser_bind ReadVarInt (\<lambda>code :: u32.
       unser_bind (Unserialize_CTxOutCompressor pk (out c)) (\<lambda>txout.
         unser_return (c \<lparr> out := txout, fCoinBase := (code AND 1 \<noteq> 0), nHeight := ucast (drop_bit 1 code) \<rparr>)))"

section \<open>Undo data\<close>

definition TxInUndoSerializer :: "pubkey_fns \<Rightarrow> Coin \<Rightarrow> bytes" where
  "TxInUndoSerializer pk c =
     WriteVarInt (coin_code c) @ (if nHeight c > 0 then ser_writedata8 0 else []) @ Serialize_CTxOutCompressor pk (out c)"

definition TxInUndoDeserializer :: "pubkey_fns \<Rightarrow> Coin \<Rightarrow> Coin unser" where
  "TxInUndoDeserializer pk c =
     unser_bind ReadVarInt (\<lambda>nCode :: u32.
       unser_bind (if ucast (nCode div 2) > (0 :: 31 word) then unser_bind ReadVarInt (\<lambda>nVersionDummy :: u32. unser_return ())
                   else unser_return ()) (\<lambda>_.
         unser_bind (Unserialize_CTxOutCompressor pk (out c)) (\<lambda>txout.
           unser_return (c \<lparr> out := txout, fCoinBase := (nCode AND 1 \<noteq> 0), nHeight := ucast (nCode div 2) \<rparr>))))"

definition MAX_INPUTS_PER_BLOCK :: nat where
  "MAX_INPUTS_PER_BLOCK = MaxBlockSize True div
     length (Serialize_CTxIn \<lparr> prevout = COutPoint_null, scriptSig = [], nSequence = SEQUENCE_FINAL \<rparr>)"

definition Serialize_CTxUndo :: "pubkey_fns \<Rightarrow> Coin list \<Rightarrow> bytes" where
  "Serialize_CTxUndo pk vprevout =
     WriteCompactSize (of_nat (length vprevout)) @ concat (map (TxInUndoSerializer pk) vprevout)"

definition Unserialize_CTxUndo :: "pubkey_fns \<Rightarrow> Coin list unser" where
  "Unserialize_CTxUndo pk =
     unser_bind ReadCompactSize (\<lambda>count.
       if unat count > MAX_INPUTS_PER_BLOCK then (\<lambda>_. Inl TooManyUndoRecords)
       else Unserialize_elems (TxInUndoDeserializer pk Coin_empty) (unat count))"

definition Serialize_CBlockUndo :: "pubkey_fns \<Rightarrow> Coin list list \<Rightarrow> bytes" where
  "Serialize_CBlockUndo pk = Serialize_vector (Serialize_CTxUndo pk)"

definition Unserialize_CBlockUndo :: "pubkey_fns \<Rightarrow> nat \<Rightarrow> Coin list list unser" where
  "Unserialize_CBlockUndo pk sizeof_CTxUndo = Unserialize_vector sizeof_CTxUndo (Unserialize_CTxUndo pk)"

end
