(* ===== verification/Compressor_Props.thy ===== *)
theory Compressor_Props
  imports Compressor
begin

unbundle bit_operations_syntax

text \<open>
  Round trips of the chain-state encodings: amounts, scripts, coins and the undo data of a block are read
  back as they were written.
\<close>

section \<open>Amounts\<close>

lemma mod10_iff: "(n :: u64) mod 10 = 0 \<longleftrightarrow> unat n mod 10 = 0"
  by (simp add: unat_mod flip: unat_eq_zero)

lemma strip_zeros_ok:
  assumes "strip_zeros k n e = (n', e')" "unat n \<noteq> 0"
  shows "unat n = unat n' * 10 ^ (e' - e) \<and> e \<le> e' \<and> e' \<le> e + k \<and> unat n' \<noteq> 0 \<and> (e' < e + k \<longrightarrow> unat n' mod 10 \<noteq> 0)"
  using assms
proof (induction k n e rule: strip_zeros.induct)
  case (2 k n e)
  show ?case
  proof (cases "n mod 10 = 0")
    case True
    have n10: "unat n = unat (n div 10) * 10" using True div_mult_mod_eq [of "unat n" 10] by (simp add: mod10_iff unat_div)
    then have "unat (n div 10) \<noteq> 0" using 2(3) by linarith
    then have IH: "unat (n div 10) = unat n' * 10 ^ (e' - (e + 1)) \<and> e + 1 \<le> e' \<and> e' \<le> e + 1 + k \<and> unat n' \<noteq> 0 \<and>
        (e' < e + 1 + k \<longrightarrow> unat n' mod 10 \<noteq> 0)" using 2(1) True 2(2) by simp
    then have "10 ^ (e' - e) = (10 :: nat) ^ (e' - (e + 1)) * 10" by (metis Suc_diff_le Suc_eq_plus1 diff_Suc_Suc power_Suc2)
    then show ?thesis using IH n10 by (simp add: mult.assoc)
  next
    case False
    then show ?thesis using 2(2,3) by (auto simp: mod10_iff)
  qed
qed auto

lemma append_zeros_eq: "append_zeros e n = n * 10 ^ e"
  by (induction e n rule: append_zeros.induct) (simp_all add: mult_ac)

definition compress_nat :: "nat \<Rightarrow> nat \<Rightarrow> nat" where
  "compress_nat m e = (if e < 9 then 1 + (m div 10 * 9 + m mod 10 - 1) * 10 + e else 1 + (m - 1) * 10 + 9)"

definition decompress_nat :: "nat \<Rightarrow> nat" where
  "decompress_nat x =
     (let y = x - 1; e = y mod 10; z = y div 10 in (if e < 9 then z div 9 * 10 + (z mod 9 + 1) else z + 1) * 10 ^ e)"

lemma digit_split: "d < b \<Longrightarrow> (a * b + d) div b = a \<and> (a * b + d) mod b = d" for a b d :: nat
  by simp

lemma decompress_compress_nat:
  assumes "m \<noteq> 0" "e \<le> 9" "e < 9 \<Longrightarrow> m mod 10 \<noteq> 0"
  shows "decompress_nat (compress_nat m e) = m * 10 ^ e"
proof (cases "e < 9")
  case True
  define d where "d = m mod 10 - 1"
  have d: "m mod 10 = d + 1" "d < 9" using assms(3) True by (auto simp: d_def)
  have y: "compress_nat m e - 1 = (m div 10 * 9 + d) * 10 + e" using True d by (simp add: compress_nat_def)
  have "m div 10 * 10 + (d + 1) = m" using d(1) by (metis div_mult_mod_eq)
  moreover have "((m div 10 * 9 + d) * 10 + e) div 10 = m div 10 * 9 + d" "((m div 10 * 9 + d) * 10 + e) mod 10 = e"
    using digit_split [of e 10 "m div 10 * 9 + d"] True by simp_all
  moreover have "(m div 10 * 9 + d) div 9 = m div 10" "(m div 10 * 9 + d) mod 9 = d"
    using digit_split [of d 9 "m div 10"] d(2) by simp_all
  ultimately show ?thesis unfolding decompress_nat_def Let_def y using True by simp
next
  case False
  then have e: "e = 9" using assms(2) by simp
  have y: "compress_nat m e - 1 = (m - 1) * 10 + 9" using e by (simp add: compress_nat_def)
  show ?thesis unfolding decompress_nat_def Let_def y
    using digit_split [of 9 10 "m - 1"] e assms(1) by simp
qed

lemma compress_nat_bound: "m \<noteq> 0 \<Longrightarrow> e \<le> 9 \<Longrightarrow> compress_nat m e \<le> 10 * m + 10"
proof -
  assume "m \<noteq> 0" "e \<le> 9"
  have "m div 10 * 9 + m mod 10 \<le> m" using div_mult_mod_eq [of m 10] by linarith
  then show ?thesis using \<open>e \<le> 9\<close> by (auto simp: compress_nat_def)
qed

lemma CompressAmount_nat:
  assumes "n \<noteq> 0" "unat n \<le> 1000000000000000000" "strip_zeros 9 n 0 = (n', e)"
  shows "unat (CompressAmount n) = compress_nat (unat n') e"
proof -
  have s: "unat n = unat n' * 10 ^ e" "e \<le> 9" "unat n' \<noteq> 0" "e < 9 \<longrightarrow> unat n' mod 10 \<noteq> 0"
    using strip_zeros_ok [OF assms(3)] assms(1) by (auto simp: unat_eq_zero)
  have "unat n' * 1 \<le> unat n' * 10 ^ e" by (intro mult_le_mono2) simp
  then have m: "unat n' \<le> 1000000000000000000" using s(1) assms(2) by linarith
  have lt: "compress_nat (unat n') e < 2 ^ 64" using compress_nat_bound [OF s(3,2)] m by simp
  have w: "n' div 10 = of_nat (unat n' div 10)" "n' mod 10 = of_nat (unat n' mod 10)"
    by (simp_all add: word_arith_nat_div word_arith_nat_mod)
  have "CompressAmount n = of_nat (compress_nat (unat n') e)"
  proof (cases "e < 9")
    case True
    then have "1 \<le> unat n' div 10 * 9 + unat n' mod 10" using s(4) by simp
    then show ?thesis using assms(1,3) True by (simp add: CompressAmount_def compress_nat_def w of_nat_diff Let_def)
  next
    case False
    then show ?thesis using assms(1,3) s(3) by (simp add: CompressAmount_def compress_nat_def of_nat_diff)
  qed
  then show ?thesis using lt by (simp add: unat_of_nat)
qed

lemma DecompressAmount_nat:
  assumes "x \<noteq> 0" "decompress_nat (unat x) < 2 ^ 64"
  shows "unat (DecompressAmount x) = decompress_nat (unat x)"
proof -
  let ?y = "unat x - 1"
  have y: "unat (x - 1) = ?y" using assms(1) by (simp add: unat_minus_one)
  have z: "unat ((x - 1) div 10) = ?y div 10" by (simp add: unat_div y)
  have w: "(x - 1) div 10 = of_nat (?y div 10)" "unat ((x - 1) mod 10) = ?y mod 10"
    by (simp_all add: word_arith_nat_div [of "x - 1"] unat_mod y)
  have w': "(x - 1) div 10 div 9 = of_nat (?y div 10 div 9)" "(x - 1) div 10 mod 9 = of_nat (?y div 10 mod 9)"
    using word_arith_nat_div [of "(x - 1) div 10" 9] word_arith_nat_mod [of "(x - 1) div 10" 9] by (simp_all only: z) simp_all
  have "DecompressAmount x = of_nat (decompress_nat (unat x))"
    using assms(1) by (simp add: DecompressAmount_def decompress_nat_def Let_def append_zeros_eq w w' [unfolded w(1), simplified] add_ac)
  then show ?thesis using assms(2) by (simp add: unat_of_nat)
qed

lemma DecompressAmount_CompressAmount:
  assumes "unat n \<le> 1000000000000000000"
  shows "DecompressAmount (CompressAmount n) = n"
proof (cases "n = 0")
  case True
  then show ?thesis by (simp add: CompressAmount_def DecompressAmount_def)
next
  case False
  obtain n' e where s: "strip_zeros 9 n 0 = (n', e)" by fastforce
  have p: "unat n = unat n' * 10 ^ e" "e \<le> 9" "unat n' \<noteq> 0" "e < 9 \<Longrightarrow> unat n' mod 10 \<noteq> 0"
    using strip_zeros_ok [OF s] False by (auto simp: unat_eq_zero)
  note c = CompressAmount_nat [OF False assms s]
  have "decompress_nat (unat (CompressAmount n)) = unat n" unfolding c p(1) by (rule decompress_compress_nat [OF p(3,2,4)])
  moreover have "CompressAmount n \<noteq> 0" using c by (auto simp: compress_nat_def unat_eq_zero split: if_splits)
  ultimately have "unat (DecompressAmount (CompressAmount n)) = unat n"
    using DecompressAmount_nat [of "CompressAmount n"] unsigned_less [of n, where 'a = nat] by simp
  then show ?thesis by (simp add: word_unat_eq_iff)
qed

section \<open>Scripts\<close>

text \<open>What is used of the elliptic-curve library: decompressing undoes the compression of a valid key.\<close>

definition pubkey_ok :: "pubkey_fns \<Rightarrow> bool" where
  "pubkey_ok pk \<longleftrightarrow> (\<forall>k. length k = 65 \<and> k ! 0 = 0x04 \<and> IsFullyValid pk k \<longrightarrow>
     Decompress_pubkey pk ((0x02 OR (k ! 64 AND 0x01)) # take 32 (drop 1 k)) = Some k)"

lemma ReadVarInt_byte: "b < 0x80 \<Longrightarrow> (ReadVarInt (b # r) :: ser_error + u32 \<times> bytes) = Inr (ucast b, r)"
proof -
  assume "b < 0x80"
  then have "unat b < 128" by (simp add: word_less_nat_alt)
  then have "take_bit 7 b = b" by (simp add: word_unat_eq_iff unsigned_take_bit_eq take_bit_nat_eq_self)
  then have m: "b AND 0x7F = b" by (simp add: take_bit_eq_mask mask_eq_exp_minus_1)
  have "b AND 0x80 = (b AND 0x7F) AND 0x80" by (simp add: m)
  also have "\<dots> = b AND (0x7F AND 0x80)" by (simp only: and.assoc)
  finally have "b AND 0x80 = 0" by simp
  then show ?thesis by (simp add: ReadVarInt_def m)
qed

lemma ends_shape:
  assumes "length s = a + n + c"
  shows "s = map ((!) s) [0..<a] @ take n (drop a s) @ map ((!) s) [a + n..<a + n + c]"
proof -
  have t: "map ((!) s) [0..<a] = take a s" by (rule nth_equalityI) (use assms in auto)
  have d: "map ((!) s) [a + n..<a + n + c] = drop (a + n) s" by (rule nth_equalityI) (use assms in auto)
  have "drop a s = take n (drop a s) @ drop (a + n) s" by (metis append_take_drop_id drop_drop add.commute)
  then show ?thesis unfolding t d by (metis append_take_drop_id)
qed

lemma unat_ucast_byte: "unat (ucast (b :: u8) :: u32) = unat b"
  by (rule unat_ucast_le) simp

lemma special_read:
  assumes "b < 6" "length v = GetSpecialSize (ucast b)" "Decompress pk (ucast b) v = Some script"
  shows "Unserialize_CScriptCompressor pk old (b # v @ r) = Inr (script, r)"
proof -
  have "b < 0x80" using assms(1) by (simp add: word_less_nat_alt)
  note r = ReadVarInt_byte [OF this, of "v @ r"]
  have "(ucast b :: u32) < nSpecialScripts" using assms(1) by (simp add: nSpecialScripts_def word_less_nat_alt unat_ucast_byte)
  then show ?thesis using assms(2,3) by (simp add: Unserialize_CScriptCompressor_def unser_bind_def r unser_return_def)
qed

text \<open>A compressed script: a number below 6 and the bytes it decompresses from.\<close>

definition compressed :: "pubkey_fns \<Rightarrow> bytes \<Rightarrow> CScript \<Rightarrow> bool" where
  "compressed pk compr script \<longleftrightarrow> (\<exists>b v. compr = b # v \<and> b < 6 \<and> length v = GetSpecialSize (ucast b) \<and> Decompress pk (ucast b) v = Some script)"

lemma compressed_key:
  assumes "IsToKeyID script = Some k"
  shows "compressed pk (0 # k) script"
proof -
  have s: "length script = 25" "script ! 0 = OP_DUP" "script ! 1 = OP_HASH160" "script ! 2 = 20" "script ! 23 = OP_EQUALVERIFY"
      "script ! 24 = OP_CHECKSIG" "k = take 20 (drop 3 script)" using assms by (auto simp: IsToKeyID_def split: if_splits)
  have "script = [OP_DUP, OP_HASH160, 20] @ k @ [OP_EQUALVERIFY, OP_CHECKSIG]"
    using ends_shape [of script 3 20 2] s by (simp add: upt_rec numeral_2_eq_2)
  moreover have "length k = 20" using s by simp
  ultimately show ?thesis by (simp add: compressed_def Decompress_def GetSpecialSize_def)
qed

lemma compressed_script:
  assumes "IsToScriptID script = Some k"
  shows "compressed pk (1 # k) script"
proof -
  have s: "length script = 23" "script ! 0 = OP_HASH160" "script ! 1 = 20" "script ! 22 = OP_EQUAL"
      "k = take 20 (drop 2 script)" using assms by (auto simp: IsToScriptID_def split: if_splits)
  have "script = [OP_HASH160, 20] @ k @ [OP_EQUAL]"
    using ends_shape [of script 2 20 1] s by (simp add: upt_rec numeral_2_eq_2)
  moreover have "length k = 20" using s by simp
  ultimately show ?thesis by (simp add: compressed_def Decompress_def GetSpecialSize_def)
qed

lemma parity_cases: "b AND 0x01 = 0 \<or> b AND 0x01 = (0x01 :: u8)"
  by (simp add: and_one_eq) (metis not_mod_2_eq_0_eq_1)

lemma compressed_pubkey:
  assumes "IsToPubKey pk script = Some k" "pubkey_ok pk"
  shows "k ! 0 = 0x02 \<or> k ! 0 = 0x03 \<Longrightarrow> compressed pk (k ! 0 # take 32 (drop 1 k)) script"
    "k ! 0 = 0x04 \<Longrightarrow> compressed pk ((0x04 OR (k ! 64 AND 0x01)) # take 32 (drop 1 k)) script"
    "k ! 0 \<in> {0x02, 0x03, 0x04}"
proof -
  consider (compr) "length script = 35" "script ! 0 = 33" "script ! 34 = OP_CHECKSIG" "script ! 1 = 0x02 \<or> script ! 1 = 0x03"
      "k = take 33 (drop 1 script)"
    | (full) "length script = 67" "script ! 0 = 65" "script ! 66 = OP_CHECKSIG" "script ! 1 = 0x04"
      "k = take 65 (drop 1 script)" "IsFullyValid pk k"
    using assms(1) by (auto simp: IsToPubKey_def split: if_splits)
  then have "(k ! 0 = 0x02 \<or> k ! 0 = 0x03) \<and> compressed pk (k ! 0 # take 32 (drop 1 k)) script \<or>
    k ! 0 = 0x04 \<and> compressed pk ((0x04 OR (k ! 64 AND 0x01)) # take 32 (drop 1 k)) script"
  proof cases
    case compr
    have k0: "k ! 0 = script ! 1" using compr by simp
    have v: "take 32 (drop 1 k) = take 32 (drop 2 script)" using compr by (simp add: take_drop numeral_2_eq_2)
    have "script = [33, script ! 1] @ take 32 (drop 2 script) @ [OP_CHECKSIG]"
      using ends_shape [of script 2 32 1] compr by (simp add: upt_rec numeral_2_eq_2)
    moreover have "length (take 32 (drop 2 script)) = 32" using compr by simp
    ultimately show ?thesis using compr(4) unfolding k0 v
      by (auto simp: compressed_def Decompress_def GetSpecialSize_def)
  next
    case full
    have k0: "k ! 0 = 0x04" "length k = 65" using full by simp_all
    have s: "script = [65] @ k @ [OP_CHECKSIG]" using ends_shape [of script 1 65 1] full by (simp add: upt_rec)
    have d: "Decompress_pubkey pk ((0x02 OR (k ! 64 AND 0x01)) # take 32 (drop 1 k)) = Some k"
      using assms(2) k0 full(6) by (simp add: pubkey_ok_def)
    have "length (take 32 (drop 1 k)) = 32" using k0 by simp
    then have "compressed pk ((0x04 OR (k ! 64 AND 0x01)) # take 32 (drop 1 k)) script"
      using parity_cases [of "k ! 64"] s d by (auto simp: compressed_def Decompress_def GetSpecialSize_def)
    then show ?thesis using k0 by blast
  qed
  then show "k ! 0 = 0x02 \<or> k ! 0 = 0x03 \<Longrightarrow> compressed pk (k ! 0 # take 32 (drop 1 k)) script"
    "k ! 0 = 0x04 \<Longrightarrow> compressed pk ((0x04 OR (k ! 64 AND 0x01)) # take 32 (drop 1 k)) script"
    "k ! 0 \<in> {0x02, 0x03, 0x04}" by auto
qed

lemma Compress_compressed: "Compress pk script = Some compr \<Longrightarrow> pubkey_ok pk \<Longrightarrow> compressed pk compr script"
  using compressed_key [of script] compressed_script [of script] compressed_pubkey [of pk script]
  by (auto simp: Compress_def split: option.splits if_splits)

lemma uncompressed_read:
  assumes "length script \<le> MAX_SCRIPT_SIZE"
  shows "Unserialize_CScriptCompressor pk old (WriteVarInt (of_nat (length script) + nSpecialScripts) @ script @ r) = Inr (script, r)"
proof -
  let ?n = "of_nat (length script) + nSpecialScripts :: u32"
  have len: "length script \<le> 10000" using assms by (simp add: MAX_SCRIPT_SIZE_def)
  have n: "unat ?n = length script + 6"
  proof -
    have "?n = of_nat (length script + 6)" by (simp add: nSpecialScripts_def)
    then show ?thesis using len by (simp only: unat_of_nat) simp
  qed
  have "\<not> ?n < nSpecialScripts" using n by (simp add: word_less_nat_alt nSpecialScripts_def)
  moreover have "unat (?n - nSpecialScripts) = length script" using len by (simp add: unat_of_nat)
  ultimately show ?thesis using assms
    by (simp add: Unserialize_CScriptCompressor_def unser_bind_def ReadVarInt_roundtrip Let_def)
qed

interpretation script_codec: codec "Serialize_CScriptCompressor pk" "Unserialize_CScriptCompressor pk old"
    "\<lambda>script. pubkey_ok pk \<and> length script \<le> MAX_SCRIPT_SIZE" for pk old
proof
  fix script :: CScript and r
  assume v: "pubkey_ok pk \<and> length script \<le> MAX_SCRIPT_SIZE"
  show "Unserialize_CScriptCompressor pk old (Serialize_CScriptCompressor pk script @ r) = Inr (script, r)"
  proof (cases "Compress pk script")
    case None
    then show ?thesis using uncompressed_read v by (simp add: Serialize_CScriptCompressor_def)
  next
    case (Some compr)
    then obtain b v' where "compr = b # v'" "b < 6" "length v' = GetSpecialSize (ucast b)" "Decompress pk (ucast b) v' = Some script"
      using Compress_compressed v unfolding compressed_def by blast
    then show ?thesis using Some special_read by (simp add: Serialize_CScriptCompressor_def)
  qed
qed

section \<open>Outputs, coins and undo data\<close>

definition amount_ok :: "CAmount \<Rightarrow> bool" where
  "amount_ok v \<longleftrightarrow> 0 \<le> v \<and> v \<le> 1000000000000000000"

lemma amount_roundtrip:
  assumes "amount_ok v"
  shows "sint (DecompressAmount (CompressAmount (word_of_int v))) = v"
proof -
  have v: "0 \<le> v" "v \<le> 1000000000000000000" using assms by (auto simp: amount_ok_def)
  have "unat (word_of_int v :: u64) = nat v" using v by (simp add: unsigned_of_int take_bit_int_eq_self)
  then have "DecompressAmount (CompressAmount (word_of_int v)) = word_of_int v"
    using v by (intro DecompressAmount_CompressAmount) simp
  then show ?thesis using v by (simp add: signed_of_int signed_take_bit_int_eq_self)
qed

definition stored_txout_ok :: "pubkey_fns \<Rightarrow> CTxOut \<Rightarrow> CTxOut \<Rightarrow> bool" where
  "stored_txout_ok pk old txout \<longleftrightarrow> pubkey_ok pk \<and> amount_ok (nValue txout) \<and>
     length (scriptPubKey txout) \<le> MAX_SCRIPT_SIZE \<and> nRounds txout = nRounds old"

interpretation txout_codec: codec "Serialize_CTxOutCompressor pk" "Unserialize_CTxOutCompressor pk old"
    "stored_txout_ok pk old" for pk old
proof
  fix txout r
  assume "stored_txout_ok pk old txout"
  then show "Unserialize_CTxOutCompressor pk old (Serialize_CTxOutCompressor pk txout @ r) = Inr (txout, r)"
    by (cases txout) (simp add: stored_txout_ok_def Unserialize_CTxOutCompressor_def Serialize_CTxOutCompressor_def unser_bind_def
        ReadVarInt_roundtrip script_codec.roundtrip amount_roundtrip unser_return_def)
qed

lemma unat_coin_code: "unat (coin_code c) = 2 * unat (nHeight c) + (if fCoinBase c then 1 else 0)"
proof -
  have "unat (nHeight c) < 2 ^ 31" using unsigned_less [of "nHeight c", where 'a = nat] by simp
  moreover have "coin_code c = of_nat (2 * unat (nHeight c) + (if fCoinBase c then 1 else 0))"
    by (simp add: coin_code_def mult.commute)
  ultimately show ?thesis by (simp only: unat_of_nat) auto
qed

lemma coin_code_parts:
  "ucast (coin_code c div 2) = nHeight c" "ucast (drop_bit 1 (coin_code c)) = nHeight c" "(coin_code c AND 1 \<noteq> 0) = fCoinBase c"
proof -
  have d: "unat (coin_code c div 2) = unat (nHeight c)" by (simp add: unat_div unat_coin_code)
  then show h: "ucast (coin_code c div 2) = nHeight c"
    by (simp add: word_unat_eq_iff unsigned_ucast_eq take_bit_nat_eq_self unsigned_less [of "nHeight c", where 'a = nat, simplified])
  show "ucast (drop_bit 1 (coin_code c)) = nHeight c" using h by (simp add: drop_bit_eq_div)
  have "unat (coin_code c AND 1) = (if fCoinBase c then 1 else 0)" by (simp add: and_one_eq unat_mod unat_coin_code)
  then show "(coin_code c AND 1 \<noteq> 0) = fCoinBase c" by (auto simp flip: unat_eq_zero split: if_splits)
qed

definition stored_coin_ok :: "pubkey_fns \<Rightarrow> Coin \<Rightarrow> bool" where
  "stored_coin_ok pk c \<longleftrightarrow> stored_txout_ok pk CTxOut_null (out c)"

lemma Coin_roundtrip:
  assumes "stored_coin_ok pk c"
  shows "\<exists>bs. Serialize_Coin pk c = Inr bs \<and> Unserialize_Coin pk Coin_empty (bs @ r) = Inr (c, r)"
proof -
  have "\<not> IsSpent c" using assms by (auto simp: stored_coin_ok_def stored_txout_ok_def amount_ok_def IsSpent_def CTxOut_IsNull_def)
  then show ?thesis using assms coin_code_parts [of c]
    by (cases c) (simp add: Serialize_Coin_def Unserialize_Coin_def unser_bind_def ReadVarInt_roundtrip stored_coin_ok_def
        Coin_empty_def txout_codec.roundtrip unser_return_def)
qed

interpretation undo_codec: codec "TxInUndoSerializer pk" "TxInUndoDeserializer pk Coin_empty" "stored_coin_ok pk" for pk
proof
  fix c r
  assume c: "stored_coin_ok pk c"
  have z: "(ReadVarInt (0 # bs) :: ser_error + u32 \<times> bytes) = Inr (0, bs)" for bs using ReadVarInt_byte [of 0 bs] by simp
  show "TxInUndoDeserializer pk Coin_empty (TxInUndoSerializer pk c @ r) = Inr (c, r)"
    using c coin_code_parts [of c]
    by (cases c) (simp add: TxInUndoSerializer_def TxInUndoDeserializer_def unser_bind_def ReadVarInt_roundtrip stored_coin_ok_def
        Coin_empty_def txout_codec.roundtrip unser_return_def ser_writedata8_def z)
qed

lemma MAX_INPUTS_value: "MAX_INPUTS_PER_BLOCK = 48780"
  by (simp add: MAX_INPUTS_PER_BLOCK_def MaxBlockSize_def MAX_DIP0001_BLOCK_SIZE_def Serialize_CTxIn_def Serialize_COutPoint_def
      Serialize_uint256_def COutPoint_null_def ser_writedata32_def Serialize_bytes_def WriteCompactSize_def ser_writedata8_def uint256_bytes_def)

interpretation txundo_codec: codec "Serialize_CTxUndo pk" "Unserialize_CTxUndo pk"
    "\<lambda>v. length v \<le> MAX_INPUTS_PER_BLOCK \<and> (\<forall>c \<in> set v. stored_coin_ok pk c)" for pk
proof
  fix v :: "Coin list" and r
  assume v: "length v \<le> MAX_INPUTS_PER_BLOCK \<and> (\<forall>c \<in> set v. stored_coin_ok pk c)"
  then have l: "length v \<le> 48780" using MAX_INPUTS_value by linarith
  then have n: "unat (of_nat (length v) :: u64) = length v" by (simp add: unat_of_nat)
  have "(of_nat (length v) :: u64) \<le> MAX_SIZE" using l n by (simp add: word_le_nat_alt MAX_SIZE_def)
  then show "Unserialize_CTxUndo pk (Serialize_CTxUndo pk v @ r) = Inr (v, r)"
    using v n undo_codec.elems_roundtrip [of v pk r]
    by (simp add: Serialize_CTxUndo_def Unserialize_CTxUndo_def unser_bind_def compact_size.roundtrip)
qed

section \<open>Properties\<close>

text \<open>
  (C21) The chain-state format (\<^verbatim>\<open>compressor.cpp\<close>, \<^verbatim>\<open>compressor.h\<close>, \<^verbatim>\<open>Coin::Serialize\<close> in \<^verbatim>\<open>coins.h\<close>): an amount
  from 0 to \<^verbatim>\<open>MAX_MONEY\<close> survives compression; and an unspent coin with such an amount and a script of at most \<^verbatim>\<open>MAX_SCRIPT_SIZE\<close> bytes,
  whatever template it matches, is written without a failed assertion and read back unchanged, consuming
  exactly its bytes. Of the curve library only that decompressing undoes compressing is used.
\<close>

theorem chainstate_coin_roundtrip:
  assumes "pubkey_ok pk" "0 \<le> nValue (out c)" "nValue (out c) \<le> MAX_MONEY"
    "length (scriptPubKey (out c)) \<le> MAX_SCRIPT_SIZE" "nRounds (out c) = nRounds CTxOut_null"
  shows "DecompressAmount (CompressAmount (word_of_int (nValue (out c)))) = word_of_int (nValue (out c)) \<and>
    (\<exists>bs. Serialize_Coin pk c = Inr bs \<and> Unserialize_Coin pk Coin_empty (bs @ r) = Inr (c, r))"
proof
  have a: "amount_ok (nValue (out c))" using assms(2,3) by (simp add: amount_ok_def MAX_MONEY_def COIN_def)
  have "unat (word_of_int (nValue (out c)) :: u64) = nat (nValue (out c))"
    using a by (simp add: amount_ok_def unsigned_of_int take_bit_int_eq_self)
  then show "DecompressAmount (CompressAmount (word_of_int (nValue (out c)))) = word_of_int (nValue (out c))"
    using a by (intro DecompressAmount_CompressAmount) (simp add: amount_ok_def nat_le_iff)
  have "stored_coin_ok pk c" using assms a by (simp add: stored_coin_ok_def stored_txout_ok_def)
  then show "\<exists>bs. Serialize_Coin pk c = Inr bs \<and> Unserialize_Coin pk Coin_empty (bs @ r) = Inr (c, r)"
    by (rule Coin_roundtrip)
qed

text \<open>A curve with a single key, for the examples.\<close>

definition one_key :: pubkey_fns where
  "one_key = (let key = 0x04 # replicate 64 7 in
     \<lparr> IsFullyValid = (\<lambda>k. k = key), Decompress_pubkey = (\<lambda>k. if k = 0x03 # replicate 32 7 then Some key else None) \<rparr>)"

lemma one_key_ok: "pubkey_ok one_key"
  by (auto simp: pubkey_ok_def one_key_def Let_def)

definition p2pk_coin :: Coin where
  "p2pk_coin = \<lparr> out = \<lparr> nValue = 1250000000, scriptPubKey = [65, 0x04] @ replicate 64 7 @ [OP_CHECKSIG], nRounds = -10 \<rparr>,
     fCoinBase = True, nHeight = 100 \<rparr>"

theorem chainstate_coin_roundtrip_witness:
  "\<exists>bs. Serialize_Coin one_key p2pk_coin = Inr bs \<and> Unserialize_Coin one_key Coin_empty (bs @ [1, 2]) = Inr (p2pk_coin, [1, 2])"
  by (rule chainstate_coin_roundtrip [OF one_key_ok, THEN conjunct2])
    (simp_all add: p2pk_coin_def MAX_MONEY_def COIN_def MAX_SCRIPT_SIZE_def CTxOut_null_def)

text \<open>
  Undo data on disk (\<^verbatim>\<open>undo.h\<close>): the undo records of a block, at most \<^verbatim>\<open>MAX_INPUTS_PER_BLOCK\<close> coins for each
  transaction, are read back as they were written; with more coins in a transaction the reader refuses them.
\<close>

theorem CBlockUndo_roundtrip:
  assumes "pubkey_ok pk" "0 < 5000000 div sizeof_CTxUndo" "vec_ok vtxundo"
    "\<forall>u \<in> set vtxundo. length u \<le> MAX_INPUTS_PER_BLOCK \<and> (\<forall>c \<in> set u. stored_coin_ok pk c)"
  shows "Unserialize_CBlockUndo pk sizeof_CTxUndo (Serialize_CBlockUndo pk vtxundo @ r) = Inr (vtxundo, r) \<and>
    (MAX_INPUTS_PER_BLOCK < unat count \<longrightarrow> count \<le> MAX_SIZE \<longrightarrow>
       Unserialize_CTxUndo pk (WriteCompactSize count @ r) = Inl TooManyUndoRecords)"
proof (intro conjI impI)
  show "Unserialize_CBlockUndo pk sizeof_CTxUndo (Serialize_CBlockUndo pk vtxundo @ r) = Inr (vtxundo, r)"
    unfolding Unserialize_CBlockUndo_def Serialize_CBlockUndo_def
    by (rule vector_roundtrip [OF txundo_codec.codec_axioms assms(2-4)])
  show "Unserialize_CTxUndo pk (WriteCompactSize count @ r) = Inl TooManyUndoRecords"
    if "MAX_INPUTS_PER_BLOCK < unat count" "count \<le> MAX_SIZE"
    using that by (simp add: Unserialize_CTxUndo_def unser_bind_def compact_size.roundtrip)
qed

theorem CBlockUndo_roundtrip_witness:
  "Unserialize_CBlockUndo one_key 24 (Serialize_CBlockUndo one_key [[p2pk_coin], []] @ [9]) = Inr ([[p2pk_coin], []], [9])"
  by (rule CBlockUndo_roundtrip [OF one_key_ok, THEN conjunct1])
    (auto simp: vec_ok_def MAX_SIZE_def MAX_INPUTS_value stored_coin_ok_def stored_txout_ok_def one_key_ok amount_ok_def p2pk_coin_def
      MAX_SCRIPT_SIZE_def CTxOut_null_def)

end
