(* ===== verification/Spec2Isabelle.thy ===== *)
theory Spec2Isabelle
  imports Activation Addr_Man_Check Block_Check Partial_Merkle_Props Rolling_Bloom Subsidy Standard Compressor_Props
begin

text \<open>
  A verification library for the consensus core of the Pyrk node, a descendant of Bitcoin Core and Dash with
  several proof-of-work algorithms. Paths are relative to \<^verbatim>\<open>src/src\<close>.

  \<^bold>\<open>The program.\<close> A node receives transactions and blocks as bytes (\<^verbatim>\<open>serialize.h\<close>,
  \<^verbatim>\<open>primitives/\<close>), runs the scripts that guard the outputs they spend (\<^verbatim>\<open>script/\<close>), keeps the set of
  unspent outputs in a stack of caches over a database (\<^verbatim>\<open>coins.cpp\<close>, \<^verbatim>\<open>compressor.cpp\<close>, \<^verbatim>\<open>undo.h\<close>), enters
  headers into a tree of block index entries, checks their work (\<^verbatim>\<open>chain.cpp\<close>, \<^verbatim>\<open>pow.cpp\<close>,
  \<^verbatim>\<open>arith_uint256.cpp\<close>), follows the deployment of rule changes along that tree (\<^verbatim>\<open>versionbits.cpp\<close>),
  commits to the transactions of a block with a Merkle tree (\<^verbatim>\<open>consensus/merkle.cpp\<close>), checks transactions, headers and
  blocks against the rules, applies or undoes the transactions of a block on the unspent-output set, and moves the tip to the
  best chain it knows (\<^verbatim>\<open>validation.cpp\<close>). It finds its peers through a table of addresses (\<^verbatim>\<open>addrman.cpp\<close>, \<^verbatim>\<open>netaddress.cpp\<close>), and sends
  light clients the transactions that match their filter with a proof that they are in a block (\<^verbatim>\<open>bloom.cpp\<close>, \<^verbatim>\<open>merkleblock.cpp\<close>).

  \<^bold>\<open>Theories and sources.\<close>

  \<^item> \<open>Prelude\<close>: machine types, little-endian byte strings (\<^verbatim>\<open>crypto/common.h\<close>), shared lemmas.
  \<^item> \<open>Serialize\<close>, \<open>Serialize_Codecs\<close>: \<^verbatim>\<open>serialize.h\<close>. Writers return the bytes, readers return the
    value and the bytes left or the exception. The locales \<open>codec\<close> and \<open>canonical_codec\<close> state that
    reading undoes writing, and that nothing else is read; vectors of a codec are a codec.
  \<^item> \<open>Script\<close>, \<open>Script_Num\<close>, \<open>Script_Scan\<close>: \<^verbatim>\<open>script/script.h\<close>, \<^verbatim>\<open>script/script.cpp\<close>. Script numbers round trip and
    are canonical; the instruction reader reads back what the builders write; the scanners.
  \<^item> \<open>Transaction\<close>: \<^verbatim>\<open>amount.h\<close>, \<^verbatim>\<open>amount.cpp\<close>, \<^verbatim>\<open>primitives/transaction.h\<close>, \<^verbatim>\<open>primitives/transaction.cpp\<close>, with the wire format as a canonical
    codec and the sums of amounts.
  \<^item> \<open>Interpreter\<close>, \<open>Script_Exec\<close>, \<open>Script_Multisig\<close>, \<open>Sighash\<close>: \<^verbatim>\<open>script/interpreter.cpp\<close>. One definition per group of
    opcodes, the loop of \<open>EvalScript\<close>, \<open>VerifyScript\<close>, the signature hash. A loop invariant is an instance
    of the locale \<open>script_invariant\<close>; the instances give the limits of a script, of the stacks and the
    balance of conditionals. The multi-signature loop is complete, and the streaming signature hash
    equals the reference that builds the modified transaction.
  \<^item> \<open>Standard\<close>: \<^verbatim>\<open>script/standard.cpp\<close>. Templates and destinations round trip, and what it takes to spend a
    standard output is stated about \<open>VerifyScript\<close>, through the whole engine.
  \<^item> \<open>Coins\<close>, \<open>Coins_View\<close>, \<open>Connect\<close>: \<^verbatim>\<open>coins.h\<close>, \<^verbatim>\<open>coins.cpp\<close>, and from \<^verbatim>\<open>validation.cpp\<close> what \<open>ConnectBlock\<close> and
    \<open>DisconnectBlock\<close> do to the coins, with \<open>CheckTxInputs\<close>. The locale \<open>coins_view\<close> is the contract of a view: an
    abstract map from outpoints to unspent coins and its operations. A cache over a view with the contract
    has the contract; connecting and disconnecting a block are inverse on the map.
  \<^item> \<open>Compressor\<close>, \<open>Compressor_Props\<close>: \<^verbatim>\<open>compressor.h\<close>, \<^verbatim>\<open>compressor.cpp\<close>, \<^verbatim>\<open>undo.h\<close>, the disk format of coins. Round
    trips as instances of the codec locale.
  \<^item> \<open>Arith256\<close>, \<open>Arith256_Refine\<close>, \<open>Arith256_Root\<close>, \<open>Compact\<close>: \<^verbatim>\<open>arith_uint256.h\<close>, \<^verbatim>\<open>arith_uint256.cpp\<close>. The limb loops refine the
    operations of 256-bit words; the n-th root and the compact format.
  \<^item> \<open>Chain\<close>, \<open>Chain_Props\<close>: \<^verbatim>\<open>primitives/block.h\<close>, \<^verbatim>\<open>chain.h\<close>, \<^verbatim>\<open>chain.cpp\<close>. Index entries live in a store from addresses to
    entries. Under the invariant \<open>block_tree\<close> the skip list finds the ancestors, and the active chain is
    the path to its tip.
  \<^item> \<open>Pow\<close>, \<open>Pow_Props\<close>: \<^verbatim>\<open>pow.cpp\<close>, the work functions of \<^verbatim>\<open>chain.cpp\<close>, \<^verbatim>\<open>consensus/params.h\<close>, the parameters of the main network
    from \<^verbatim>\<open>chainparams.cpp\<close>, and \<open>AddToBlockIndex\<close> of \<^verbatim>\<open>validation.cpp\<close>, which keeps the invariant of the index
    and its chain work cumulative: each entry has the work of its parent plus what \<open>GetBlockProof\<close> computes for it.
  \<^item> \<open>VersionBits\<close>, \<open>VersionBits_Props\<close>: \<^verbatim>\<open>versionbits.h\<close>, \<^verbatim>\<open>versionbits.cpp\<close>. The memoised state machine refines the recursion of BIP 9.
  \<^item> \<open>Merkle\<close>, \<open>Merkle_Props\<close>: \<^verbatim>\<open>consensus/merkle.cpp\<close>. The constant-space computation equals the tree built level by level, and
    an unflagged list is bound by its root.
  \<^item> \<open>Tx_Rules\<close>, \<open>Tx_Rules_Props\<close>: \<^verbatim>\<open>consensus/validation.h\<close> and the transaction checks of \<^verbatim>\<open>validation.cpp\<close>: lock times, signature
    operation counts, \<open>CheckTransaction\<close>. Relative lock times are those of BIP 68, and a transaction that passes conserves the supply.
  \<^item> \<open>Subsidy\<close>: \<open>GetBlockSubsidy\<close> with its floating-point arithmetic, and the sum of all rewards.
  \<^item> \<open>Block_Rules\<close>, \<open>Block_Rules_Props\<close>, \<open>Block_Check\<close>: the checks of headers and blocks of \<^verbatim>\<open>validation.cpp\<close>, each equivalent to the list of
    its rules; accepting headers keeps the index backed by valid headers; a final rejection of a block is final for its header.
  \<^item> \<open>Best_Chain\<close>, \<open>Best_Chain_Props\<close>, \<open>Activation\<close>: the candidates, the search for the best one, the steps that disconnect and connect
    blocks, the commands that mark blocks, and the acceptance of blocks (\<^verbatim>\<open>validation.cpp\<close>). The search returns the best usable
    candidate; the activation ends with a tip that no usable candidate beats, and runs forever when a block looks corrupted.
  \<^item> \<open>Net_Address\<close>: \<^verbatim>\<open>netaddress.cpp\<close>, the address classes, groups and subnets. A subnet given by a prefix length matches exactly the
    addresses with that prefix.
  \<^item> \<open>Addr_Man\<close>, \<open>Addr_Man_Props\<close>, \<open>Addr_Man_Check\<close>: \<^verbatim>\<open>addrman.h\<close>, \<^verbatim>\<open>addrman.cpp\<close>, the table of known peers. Every operation keeps the store of entries, the
    index by address, the random order and the two bucket tables consistent; the result of the self-check is 0, but when
    ports are not discriminated the check itself looks entries up under the wrong port and reports -5. \<open>Clear\<close> breaks the consistency.
  \<^item> \<open>Bloom\<close>, \<open>Bloom_Props\<close>, \<open>Rolling_Bloom\<close>: \<^verbatim>\<open>bloom.h\<close>, \<^verbatim>\<open>bloom.cpp\<close>, \<open>MurmurHash3\<close> of \<^verbatim>\<open>hash.cpp\<close> and the filter messages of
    \<^verbatim>\<open>net_processing.cpp\<close>. No filter a peer can set makes the node divide by zero; a filter contains what was inserted and follows the
    coins it has matched; a rolling filter remembers the keys it was made for.
  \<^item> \<open>Partial_Merkle\<close>, \<open>Partial_Merkle_Props\<close>: \<^verbatim>\<open>merkleblock.h\<close>, \<^verbatim>\<open>merkleblock.cpp\<close>. Partial trees round trip, and what is extracted from any
    of them with the root of a block and its number of transactions is in the block; a peer with a filter gets the transactions that pay to it.

  \<^bold>\<open>Parameters.\<close> Code outside the model is an argument of the definitions that use it: the hash functions of
  the script engine (\<open>crypto_fns\<close>), the signature checker (\<open>sig_checker\<close>), validity and decompression of public keys
  (\<open>pubkey_fns\<close>), the hashes of transactions and headers (\<open>GetHash\<close>, \<open>pow_hashes\<close>), the double hash \<open>H\<close> of two Merkle nodes, the
  keyed hash and the random numbers of the address manager, the sizes of Bloom filters that come from floating-point logarithms, the adjusted time, the iteration orders of the hash maps that \<open>BatchWrite\<close> and the loops over \<open>mapBlockIndex\<close> go through, and, for the
  activation of chains, the verdicts of connecting and disconnecting a block with the disk accesses around them (\<open>tip_ops\<close>, \<open>save_block\<close>). Where a property needs something of them it
  is a hypothesis: that decompressing a public key undoes compressing, that a header does not contain its own
  hash, that the pairs combined in two given Merkle trees do not collide and, to compare lists of any two lengths, that no leaf is a combined hash.

  \<^bold>\<open>Loops and bounds.\<close> Loops over data are structural or have a termination proof. The walks over the block
  index follow pointers of a store, so they are \<^verbatim>\<open>partial_function (option)\<close> and the theorems prove that they
  return under the invariant of the store. Two loops of \<open>VersionBits\<close> take a bound on their turns; the height of
  the block is enough, because every turn goes down. The Merkle computation is proved for up to 2 to the 31
  leaves, above which the 32-bit counter of the source overflows. The height of a partial tree is found by a
  loop that ends by 31. Machine integers keep their width
  where the source can wrap (\<open>arith_uint256\<close>, script numbers, serialised fields, compressed amounts); heights, amounts (\<open>CAmount\<close>), and the numbers and attempts of the address
  manager are unbounded integers, so the overflow of these counters is outside the model, and \<open>TxInUndoSerializer\<close> is as in the source for heights below
  2 to the 30. Pointers are compared by the order of allocation where the source breaks ties by address (\<open>work_less\<close>).

  \<^bold>\<open>Not modelled.\<close> The hash functions, ciphers and the curve library; the database and files; threads and
  locks; networking (but for the filter messages and the address manager, whose random selection and file format are left out), mempool and policy; wallet, RPC and user interface; masternodes, governance, quorums and
  messaging. In \<^verbatim>\<open>validation.cpp\<close> the memory pool's entry point, block files and the loading of the database, and
  the optional address indexes of \<open>ConnectBlock\<close> are left out, as are the flushes to disk, the requests to shut down and the
  undo and script marks of \<open>nStatus\<close> in the activation of chains; one adjusted time serves all headers of a message. Display code (\<^verbatim>\<open>ToString\<close>, \<^verbatim>\<open>GetOpName\<close>) is left out everywhere.
\<close>

end
